(* ===== verification/Prelude.thy ===== *)
theory Prelude
  imports Main "HOL-Library.Word"
begin

text \<open>
  Shared vocabulary of the development: the machine integers of the firmware, its result
  codes, the big- and little-endian accessors of \<^verbatim>\<open>picokeys.h\<close>, and the list lemmas that the
  component theories use. The collection \<open>be_simps\<close> gathers the laws of the accessors.
\<close>

unbundle bit_operations_syntax

type_synonym byte = "8 word"
type_synonym u16 = "16 word"
type_synonym u32 = "32 word"
type_synonym u64 = "64 word"

named_theorems be_simps

section \<open>Result codes\<close>

datatype pk_status =
    PICOKEYS_OK
  | PICOKEYS_ERR_NO_MEMORY
  | PICOKEYS_ERR_MEMORY_FATAL
  | PICOKEYS_ERR_NULL_PARAM
  | PICOKEYS_ERR_FILE_NOT_FOUND
  | PICOKEYS_ERR_BLOCKED
  | PICOKEYS_NO_LOGIN
  | PICOKEYS_EXEC_ERROR
  | PICOKEYS_WRONG_LENGTH
  | PICOKEYS_WRONG_DATA
  | PICOKEYS_WRONG_DKEK
  | PICOKEYS_WRONG_SIGNATURE
  | PICOKEYS_WRONG_PADDING
  | PICOKEYS_VERIFICATION_FAILED
  | PICOKEYS_ERR_STALE_HANDLE

section \<open>Byte order\<close>

definition make_uint16_be :: "byte \<Rightarrow> byte \<Rightarrow> u16" where
  "make_uint16_be b1 b2 = push_bit 8 (ucast b1) OR ucast b2"

definition get_uint16_be :: "byte list \<Rightarrow> u16" where
  "get_uint16_be b = make_uint16_be (b ! 0) (b ! 1)"

definition put_uint16_be :: "u16 \<Rightarrow> byte list" where
  "put_uint16_be n = [ucast (drop_bit 8 n AND 0xff), ucast (n AND 0xff)]"

definition make_uint32_be :: "byte \<Rightarrow> byte \<Rightarrow> byte \<Rightarrow> byte \<Rightarrow> u32" where
  "make_uint32_be b1 b2 b3 b4 =
     push_bit 24 (ucast b1) OR push_bit 16 (ucast b2) OR push_bit 8 (ucast b3) OR ucast b4"

definition get_uint32_be :: "byte list \<Rightarrow> u32" where
  "get_uint32_be b = make_uint32_be (b ! 0) (b ! 1) (b ! 2) (b ! 3)"

definition put_uint32_be :: "u32 \<Rightarrow> byte list" where
  "put_uint32_be n =
     [ucast (drop_bit 24 n AND 0xff), ucast (drop_bit 16 n AND 0xff),
      ucast (drop_bit 8 n AND 0xff), ucast (n AND 0xff)]"

definition get_uint16_le :: "byte list \<Rightarrow> u16" where
  "get_uint16_le b = make_uint16_be (b ! 1) (b ! 0)"

definition put_uint16_le :: "u16 \<Rightarrow> byte list" where
  "put_uint16_le n = rev (put_uint16_be n)"

definition get_uint32_le :: "byte list \<Rightarrow> u32" where
  "get_uint32_le b = make_uint32_be (b ! 3) (b ! 2) (b ! 1) (b ! 0)"

definition put_uint32_le :: "u32 \<Rightarrow> byte list" where
  "put_uint32_le n = rev (put_uint32_be n)"

lemma and_255: "x AND 255 = take_bit 8 x" for x :: "'a::len word"
proof -
  have "mask 8 = (255 :: 'a word)"
    by (simp add: mask_eq_exp_minus_1)
  then show ?thesis
    by (simp add: take_bit_eq_mask)
qed

lemma make_put_uint16 [be_simps]:
  "make_uint16_be (ucast (drop_bit 8 n AND 0xff)) (ucast (n AND 0xff)) = (n :: u16)"
  by (rule bit_word_eqI) (auto simp: make_uint16_be_def and_255 bit_simps)

lemma bit_byte_high [simp]: "8 \<le> k \<Longrightarrow> \<not> bit (y :: byte) k"
  by (auto dest: bit_imp_le_length)

lemma put_make_uint16 [be_simps]: "put_uint16_be (make_uint16_be x y) = [x, y]"
  by (auto simp: put_uint16_be_def make_uint16_be_def and_255 bit_simps intro!: bit_word_eqI)

lemma make_put_uint32 [be_simps]:
  "make_uint32_be (ucast (drop_bit 24 n AND 0xff)) (ucast (drop_bit 16 n AND 0xff))
     (ucast (drop_bit 8 n AND 0xff)) (ucast (n AND 0xff)) = (n :: u32)"
proof (rule bit_word_eqI)
  fix k assume "k < LENGTH(32)"
  then have "k < 8 \<or> (8 \<le> k \<and> k < 16) \<or> (16 \<le> k \<and> k < 24) \<or> (24 \<le> k \<and> k < 32)"
    by auto
  then show "bit (make_uint32_be (ucast (drop_bit 24 n AND 0xff)) (ucast (drop_bit 16 n AND 0xff))
     (ucast (drop_bit 8 n AND 0xff)) (ucast (n AND 0xff))) k = bit n k"
    by (elim disjE) (auto simp: make_uint32_be_def and_255 bit_simps)
qed

lemma length_put [simp]:
  "length (put_uint16_be n) = 2" "length (put_uint32_be m) = 4"
  "length (put_uint16_le n) = 2" "length (put_uint32_le m) = 4"
  by (simp_all add: put_uint16_be_def put_uint32_be_def put_uint16_le_def put_uint32_le_def)

lemma get_put_uint16_be [be_simps]: "get_uint16_be (put_uint16_be n @ xs) = n"
  by (simp add: get_uint16_be_def put_uint16_be_def be_simps)

lemma get_put_uint32_be [be_simps]: "get_uint32_be (put_uint32_be n @ xs) = n"
  by (simp add: get_uint32_be_def put_uint32_be_def be_simps)

lemma get_put_uint16_le [be_simps]: "get_uint16_le (put_uint16_le n @ xs) = n"
  by (simp add: get_uint16_le_def put_uint16_le_def put_uint16_be_def be_simps)

lemma get_put_uint32_le [be_simps]: "get_uint32_le (put_uint32_le n @ xs) = n"
  by (simp add: get_uint32_le_def put_uint32_le_def put_uint32_be_def be_simps)

lemmas get_put_simps [be_simps] =
  get_put_uint16_be [where xs = "[]", simplified] get_put_uint32_be [where xs = "[]", simplified]
  get_put_uint16_le [where xs = "[]", simplified] get_put_uint32_le [where xs = "[]", simplified]

definition make_uint64_be :: "byte \<Rightarrow> byte \<Rightarrow> byte \<Rightarrow> byte \<Rightarrow> byte \<Rightarrow> byte \<Rightarrow> byte \<Rightarrow> byte \<Rightarrow> u64" where
  "make_uint64_be b1 b2 b3 b4 b5 b6 b7 b8 =
     push_bit 56 (ucast b1) OR push_bit 48 (ucast b2) OR push_bit 40 (ucast b3) OR push_bit 32 (ucast b4)
       OR push_bit 24 (ucast b5) OR push_bit 16 (ucast b6) OR push_bit 8 (ucast b7) OR ucast b8"

definition get_uint64_be :: "byte list \<Rightarrow> u64" where
  "get_uint64_be b = make_uint64_be (b ! 0) (b ! 1) (b ! 2) (b ! 3) (b ! 4) (b ! 5) (b ! 6) (b ! 7)"

definition put_uint64_be :: "u64 \<Rightarrow> byte list" where
  "put_uint64_be n =
     [ucast (drop_bit 56 n AND 0xff), ucast (drop_bit 48 n AND 0xff), ucast (drop_bit 40 n AND 0xff),
      ucast (drop_bit 32 n AND 0xff), ucast (drop_bit 24 n AND 0xff), ucast (drop_bit 16 n AND 0xff),
      ucast (drop_bit 8 n AND 0xff), ucast (n AND 0xff)]"

lemma length_put_uint64_be [simp]: "length (put_uint64_be n) = 8"
  by (simp add: put_uint64_be_def)

lemma put_uint64_halves: "put_uint64_be n = put_uint32_be (ucast (drop_bit 32 n)) @ put_uint32_be (ucast n)"
  by (auto simp: put_uint64_be_def put_uint32_be_def and_255 bit_simps intro!: bit_word_eqI)

lemma get_uint64_halves:
  "get_uint64_be b = push_bit 32 (ucast (get_uint32_be b)) OR ucast (get_uint32_be (drop 4 b))" if "8 \<le> length b"
proof -
  have o: "ucast (a OR b) = (ucast a OR ucast b :: u64)" for a b :: u32
    by (rule bit_word_eqI) (auto simp: bit_simps)
  have s: "ucast (push_bit k (ucast (c :: byte)) :: u32) = (push_bit k (ucast c) :: u64)" if "k \<le> 24" for c k
    by (rule bit_word_eqI) (use that in \<open>auto simp: bit_simps dest: bit_imp_le_length\<close>)
  have z: "ucast (ucast (c :: byte) :: u32) = (ucast c :: u64)" for c
    by (rule bit_word_eqI) (auto simp: bit_simps dest: bit_imp_le_length)
  show ?thesis
    using that by (simp add: get_uint64_be_def get_uint32_be_def make_uint64_be_def make_uint32_be_def o s z push_bit_or or.assoc)
qed

lemma get_put_uint64_be [be_simps]: "get_uint64_be (put_uint64_be n @ xs) = n"
proof -
  have "push_bit 32 (ucast (ucast (drop_bit 32 n) :: u32)) OR ucast (ucast n :: u32) = n"
    by (rule bit_word_eqI) (auto simp: bit_simps)
  then show ?thesis by (simp add: get_uint64_halves put_uint64_halves be_simps)
qed

lemma put_get_uint16_be: "length b = 2 \<Longrightarrow> put_uint16_be (get_uint16_be b) = b"
  by (auto simp: get_uint16_be_def put_make_uint16 length_Suc_conv numeral_eq_Suc)

lemma put_get_uint32_be:
  assumes "length b = 4"
  shows "put_uint32_be (get_uint32_be b) = b"
proof -
  obtain w x y z where "b = [w, x, y, z]" using assms by (auto simp: length_Suc_conv numeral_eq_Suc)
  then show ?thesis
    by (auto simp: get_uint32_be_def put_uint32_be_def make_uint32_be_def bit_or_iff bit_push_bit_iff bit_ucast_iff and_255 bit_simps intro!: bit_word_eqI)
qed

lemma put_get_uint64_be:
  assumes "length b = 8"
  shows "put_uint64_be (get_uint64_be b) = b"
proof -
  have h: "ucast (drop_bit 32 (push_bit 32 (ucast x) OR ucast y :: u64)) = x" "ucast (push_bit 32 (ucast x) OR ucast y :: u64) = y"
    for x y :: u32
    by (rule bit_word_eqI, auto simp: bit_simps dest: bit_imp_le_length)+
  have "put_uint64_be (get_uint64_be b) = put_uint32_be (get_uint32_be b) @ put_uint32_be (get_uint32_be (drop 4 b))"
    using assms by (simp only: put_uint64_halves get_uint64_halves h order_refl)
  moreover have "get_uint32_be b = get_uint32_be (take 4 b)" by (simp add: get_uint32_be_def)
  ultimately show ?thesis
    using put_get_uint32_be [of "take 4 b"] put_get_uint32_be [of "drop 4 b"] assms by simp
qed

lemma get_put_uint64_be_nil [be_simps]: "get_uint64_be (put_uint64_be n) = n"
  using get_put_uint64_be [of n "[]"] by simp

lemma unat_make_uint16_be: "unat (make_uint16_be a b) = 256 * unat a + unat b"
proof -
  have "make_uint16_be a b = push_bit 8 (ucast a) + ucast b"
    unfolding make_uint16_be_def
    by (rule disjunctive_add [symmetric])
       (auto simp: bit_simps dest: bit_imp_le_length)
  moreover have "unat a < 256" "unat b < 256"
    using unsigned_less [of a] unsigned_less [of b] by simp_all
  ultimately show ?thesis
    by (simp add: push_bit_eq_mult unat_word_ariths unsigned_ucast_eq take_bit_eq_mod)
qed

section \<open>Lists\<close>

text \<open>The part of an array from \<open>off\<close> on, \<open>n\<close> bytes long.\<close>

definition bslice :: "nat \<Rightarrow> nat \<Rightarrow> 'a list \<Rightarrow> 'a list" where
  "bslice off n xs = take n (drop off xs)"

lemma length_bslice [simp]: "off + n \<le> length xs \<Longrightarrow> length (bslice off n xs) = n"
  by (simp add: bslice_def)

lemma bslice_append_left [simp]: "off + n \<le> length xs \<Longrightarrow> bslice off n (xs @ ys) = bslice off n xs"
  by (simp add: bslice_def)

lemma bslice_append_right: "length xs \<le> off \<Longrightarrow> bslice off n (xs @ ys) = bslice (off - length xs) n ys"
  by (simp add: bslice_def)

lemma bslice_prefix [simp]: "n = length xs \<Longrightarrow> bslice 0 n (xs @ ys) = xs"
  by (simp add: bslice_def)

lemma bslice_all [simp]: "n = length xs \<Longrightarrow> bslice 0 n xs = xs"
  by (simp add: bslice_def)

lemma bslice_zero [simp]: "bslice off 0 xs = []"
  by (simp add: bslice_def)

lemma nth_bslice: "i < n \<Longrightarrow> off + n \<le> length xs \<Longrightarrow> bslice off n xs ! i = xs ! (off + i)"
  by (simp add: bslice_def)

lemma bslice_join: "bslice a n xs @ bslice (a + n) m xs = bslice a (n + m) xs"
  by (simp add: bslice_def take_add add.commute [of n a])

lemma bslice_join_eq: "b = a + n \<Longrightarrow> bslice a n xs @ bslice b m xs = bslice a (n + m) xs"
  by (simp add: bslice_join)

lemma bslice_join_append: "b = a + n \<Longrightarrow> bslice a n xs @ bslice b m xs @ ys = bslice a (n + m) xs @ ys"
  by (simp add: bslice_join flip: append_assoc)

lemma bslice_one: "k < length xs \<Longrightarrow> bslice k 1 xs = [xs ! k]"
  by (simp add: bslice_def take_Suc_conv_app_nth)

lemma bslice_two: "k + 1 < length xs \<Longrightarrow> bslice k 2 xs = [xs ! k, xs ! (k + 1)]"
  by (simp add: bslice_def numeral_2_eq_2 take_Suc_conv_app_nth)

text \<open>Writing what was read gives the bytes back.\<close>

lemma put_get_slice:
  "k + 2 \<le> length xs \<Longrightarrow> put_uint16_be (get_uint16_be (drop k xs)) = bslice k 2 xs"
  "k + 4 \<le> length xs \<Longrightarrow> put_uint32_be (get_uint32_be (drop k xs)) = bslice k 4 xs"
  "k + 8 \<le> length xs \<Longrightarrow> put_uint64_be (get_uint64_be (drop k xs)) = bslice k 8 xs"
proof -
  have t: "get_uint16_be (drop k xs) = get_uint16_be (bslice k 2 xs)" "get_uint32_be (drop k xs) = get_uint32_be (bslice k 4 xs)"
    "get_uint64_be (drop k xs) = get_uint64_be (bslice k 8 xs)"
    by (simp_all add: get_uint16_be_def get_uint32_be_def get_uint64_be_def bslice_def)
  show "k + 2 \<le> length xs \<Longrightarrow> put_uint16_be (get_uint16_be (drop k xs)) = bslice k 2 xs"
    "k + 4 \<le> length xs \<Longrightarrow> put_uint32_be (get_uint32_be (drop k xs)) = bslice k 4 xs"
    "k + 8 \<le> length xs \<Longrightarrow> put_uint64_be (get_uint64_be (drop k xs)) = bslice k 8 xs"
    unfolding t by (simp_all add: put_get_uint16_be put_get_uint32_be put_get_uint64_be)
qed

text \<open>Records of one size laid out one after the other.\<close>

lemma drop_concat_map:
  assumes "\<And>x. length (f x) = w" "i < length xs"
  shows "drop (i * w) (concat (map f xs) @ ys) = f (xs ! i) @ concat (map f (drop (Suc i) xs)) @ ys"
  using assms(2)
proof (induction xs arbitrary: i)
  case (Cons x xs)
  then show ?case using assms(1) by (cases i) simp_all
qed simp

lemma length_concat_map: "(\<And>x. length (f x) = w) \<Longrightarrow> length (concat (map f xs)) = length xs * w"
  by (induction xs) simp_all

text \<open>\<open>memcpy(dst + off, src, len)\<close>: overwrite in place, the array keeps its length.\<close>

definition overwrite :: "nat \<Rightarrow> 'a list \<Rightarrow> 'a list \<Rightarrow> 'a list" where
  "overwrite off src dst = take off dst @ src @ drop (off + length src) dst"

lemma length_overwrite [simp]:
  "off + length src \<le> length dst \<Longrightarrow> length (overwrite off src dst) = length dst"
  by (simp add: overwrite_def)

lemma nth_overwrite:
  "off + length src \<le> length dst \<Longrightarrow> i < length dst \<Longrightarrow>
   overwrite off src dst ! i =
     (if off \<le> i \<and> i < off + length src then src ! (i - off) else dst ! i)"
  by (auto simp: overwrite_def nth_append)

lemma overwrite_nil [simp]: "overwrite off [] dst = dst"
  by (simp add: overwrite_def)

lemma take_overwrite_end:
  "off + length src \<le> length dst \<Longrightarrow> take (off + length src) (overwrite off src dst) = take off dst @ src"
  by (simp add: overwrite_def)

section \<open>Tokens\<close>

text \<open>
  \<open>do { handle = next++ } while (handle == 0 || in use)\<close>, with fuel: the token and the advanced
  counter. A table of \<open>k\<close> entries needs at most \<open>k + 2\<close> rounds.
\<close>

fun next_token :: "(u32 \<Rightarrow> bool) \<Rightarrow> nat \<Rightarrow> u32 \<Rightarrow> (u32 \<times> u32) option" where
  "next_token used 0 nxt = None"
| "next_token used (Suc n) nxt =
     (if nxt \<noteq> 0 \<and> \<not> used nxt then Some (nxt, nxt + 1) else next_token used n (nxt + 1))"

lemma next_token_law: "next_token used n nxt = Some (t, nxt') \<Longrightarrow> t \<noteq> 0 \<and> \<not> used t"
  by (induction n arbitrary: nxt) (auto split: if_splits)

lemma next_token_rejects:
  "next_token used n nxt = None \<Longrightarrow> \<forall>k < n. nxt + of_nat k = 0 \<or> used (nxt + of_nat k)"
proof (induction n arbitrary: nxt)
  case (Suc n)
  then have "nxt = 0 \<or> used nxt" "\<forall>k < n. nxt + 1 + of_nat k = 0 \<or> used (nxt + 1 + of_nat k)"
    by (auto split: if_splits)
  then show ?case by (auto simp: less_Suc_eq_0_disj add.assoc)
qed simp

lemma of_nat_inj_on: "n \<le> 1000 \<Longrightarrow> inj_on (\<lambda>k. x + of_nat k :: u32) {..< n}"
proof (rule inj_onI)
  fix j k :: nat assume "n \<le> 1000" "j \<in> {..< n}" "k \<in> {..< n}" "x + of_nat j = x + of_nat k"
  then have "unat (of_nat j :: u32) = unat (of_nat k :: u32)" "j < 1000" "k < 1000" by simp_all
  then show "j = k" by (simp add: unat_of_nat)
qed

lemma next_token_some:
  assumes "finite A" "card A + 1 < n" "n \<le> 1000" "\<And>t. used t \<Longrightarrow> t \<in> A"
  obtains t nxt' where "next_token used n nxt = Some (t, nxt')"
proof (cases "next_token used n nxt")
  case None
  have "(\<lambda>k. nxt + of_nat k) ` {..< n} \<subseteq> insert 0 A"
    using next_token_rejects [OF None] assms(4) by auto
  then have "card ((\<lambda>k. nxt + of_nat k) ` {..< n}) \<le> card (insert 0 A)"
    by (rule card_mono [rotated]) (simp add: assms(1))
  also have "\<dots> \<le> card A + 1"
    using assms(1) by (simp add: card_insert_if)
  finally have False using assms(2,3) by (simp add: card_image of_nat_inj_on)
  then show thesis ..
qed (use that in auto)

end
