(* ===== verification/Tlv.thy ===== *)
theory Tlv
  imports Prelude
begin

text \<open>
  The BER-TLV reader of \<^verbatim>\<open>pico-keys-sdk/src/tlv.c\<close>. A context (\<open>tlv_ctx_t\<close>) is a byte array
  that may be NULL; the cursor \<open>p\<close> of \<open>tlv_walk\<close> is the offset of the pointer into that array
  (None for the NULL the callers start with). The item value is the bslice of the array that
  ends at the new cursor. A walk that fails returns None: every caller stops there.

  The lemmas show that a walk never reads or returns bytes outside the array, that it always
  advances (so the \<open>while (tlv_walk(...))\<close> loops end), and that it reads back what
  \<open>tlv_format_len\<close> and \<open>tlv_len_tag\<close> lay out.
\<close>

record tlv_item =
  item_tag :: u16
  item_value :: "byte list"

type_synonym tlv_ctx = "byte list option"

definition tlv_len :: "tlv_ctx \<Rightarrow> nat" where
  "tlv_len ctx = (case ctx of None \<Rightarrow> 0 | Some data \<Rightarrow> length data)"

text \<open>\<open>tlv_get_uint\<close> reads the first byte without a length check: None is that stray read.\<close>

definition tlv_get_uint :: "byte list \<Rightarrow> u32 option" where
  "tlv_get_uint data =
     (case data of [] \<Rightarrow> None
      | d # ds \<Rightarrow> Some (foldl (\<lambda>acc b. push_bit 8 acc OR ucast b) (ucast d) (take 3 ds)))"

definition tlv_format_len :: "u16 \<Rightarrow> byte list" where
  "tlv_format_len len =
     (if len < 128 then [ucast len]
      else if len < 256 then [0x81, ucast len]
      else 0x82 # put_uint16_be len)"

definition tlv_len_tag :: "u16 \<Rightarrow> u16 \<Rightarrow> u16" where
  "tlv_len_tag tag len =
     (let ret = 1 + of_nat (length (tlv_format_len len)) + len
      in if tag > 0x00ff then ret + 1 else ret)"

text \<open>The three steps of \<open>tlv_walk\<close>: the tag bytes, the length bytes, the bounds of the value.\<close>

definition tlv_walk_tag :: "byte list \<Rightarrow> nat \<Rightarrow> (u16 \<times> nat) option" where
  "tlv_walk_tag data p =
     (if length data \<le> p then None
      else if data ! p AND 0x1f = 0x1f then
        (if length data \<le> p + 1 then None
         else Some (make_uint16_be (data ! p) (data ! (p + 1)), p + 2))
      else Some (ucast (data ! p), p + 1))"

definition tlv_walk_len :: "byte list \<Rightarrow> nat \<Rightarrow> (u16 \<times> nat) option" where
  "tlv_walk_len data p =
     (if length data \<le> p then Some (0, p)
      else if data ! p = 0x82 then
        (if length data - (p + 1) < 2 then None
         else Some (make_uint16_be (data ! (p + 1)) (data ! (p + 2)), p + 3))
      else if data ! p = 0x81 then
        (if length data \<le> p + 1 then None
         else Some (ucast (data ! (p + 1)), p + 2))
      else Some (ucast (data ! p), p + 1))"

definition tlv_walk :: "tlv_ctx \<Rightarrow> nat option \<Rightarrow> (tlv_item \<times> nat) option" where
  "tlv_walk ctx p =
     (case ctx of None \<Rightarrow> None
      | Some data \<Rightarrow>
          (case tlv_walk_tag data (case p of None \<Rightarrow> 0 | Some i \<Rightarrow> i) of
             None \<Rightarrow> None
           | Some (tg, p1) \<Rightarrow>
               (case tlv_walk_len data p1 of
                  None \<Rightarrow> None
                | Some (tgl, p2) \<Rightarrow>
                    if unat tgl > length data - p2 then None
                    else Some (\<lparr>item_tag = tg, item_value = bslice p2 (unat tgl) data\<rparr>,
                               p2 + unat tgl))))"

section \<open>Bounds and progress\<close>

lemma tlv_walk_tag_bounds:
  "tlv_walk_tag data p = Some (tg, p1) \<Longrightarrow> p < p1 \<and> p1 \<le> length data"
  by (auto simp: tlv_walk_tag_def split: if_splits)

lemma tlv_walk_len_bounds:
  "tlv_walk_len data p = Some (l, p1) \<Longrightarrow> p \<le> length data \<Longrightarrow> p \<le> p1 \<and> p1 \<le> length data"
  by (auto simp: tlv_walk_len_def split: if_splits)

lemma tlv_walk_bounds:
  assumes "tlv_walk (Some data) p = Some (item, q)"
  shows "(case p of None \<Rightarrow> 0 | Some i \<Rightarrow> i) < q" and "q \<le> length data"
    and "item_value item = bslice (q - length (item_value item)) (length (item_value item)) data"
    and "length (item_value item) < q"
  using assms
  by (auto simp: tlv_walk_def split: option.splits if_splits
           dest!: tlv_walk_tag_bounds tlv_walk_len_bounds) linarith+

lemma tlv_walk_progress: "tlv_walk (Some data) (Some i) = Some (item, q) \<Longrightarrow> i < q \<and> q \<le> length data"
  using tlv_walk_bounds(1,2) [of data "Some i"] by auto

section \<open>The loops over a context\<close>

text \<open>The items \<open>while (tlv_walk(ctx, &p, &item))\<close> visits, in order, with the cursor after each.\<close>

function tlv_items :: "byte list \<Rightarrow> nat \<Rightarrow> (tlv_item \<times> nat) list" where
  "tlv_items data i =
     (case tlv_walk (Some data) (Some i) of
        None \<Rightarrow> []
      | Some (item, q) \<Rightarrow> (item, q) # tlv_items data q)"
  by pat_completeness auto
termination
  by (relation "measure (\<lambda>(data, i). length data - i)") (auto dest: tlv_walk_progress)

declare tlv_items.simps [simp del]

definition tlv_find_tag :: "tlv_ctx \<Rightarrow> u16 \<Rightarrow> byte list option" where
  "tlv_find_tag ctx itag =
     (case ctx of None \<Rightarrow> None
      | Some data \<Rightarrow>
          map_option (item_value \<circ> fst)
            (find (\<lambda>(item, _). itag = item_tag item) (tlv_items data 0)))"

lemma tlv_items_bounds:
  "(item, q) \<in> set (tlv_items data i) \<Longrightarrow>
   i < q \<and> q \<le> length data \<and> length (item_value item) < q \<and>
   item_value item = bslice (q - length (item_value item)) (length (item_value item)) data"
proof (induction data i rule: tlv_items.induct)
  case (1 data i)
  show ?case
  proof (cases "tlv_walk (Some data) (Some i)")
    case None
    with 1 show ?thesis by (simp add: tlv_items.simps [of data i])
  next
    case (Some w)
    then obtain it p where w: "tlv_walk (Some data) (Some i) = Some (it, p)" by (cases w) auto
    note b = tlv_walk_bounds [OF w]
    from 1(2) w have "(item, q) = (it, p) \<or> (item, q) \<in> set (tlv_items data p)"
      by (simp add: tlv_items.simps [of data i])
    then show ?thesis
    proof
      assume "(item, q) = (it, p)"
      with b show ?thesis by simp
    next
      assume "(item, q) \<in> set (tlv_items data p)"
      with 1(1) [OF w refl] b(1) show ?thesis by auto
    qed
  qed
qed

section \<open>Layout and round trip\<close>

text \<open>
  A tag the reader can read back: two bytes exactly when the low five bits of the first one
  are all set.
\<close>

definition tlv_tag_ok :: "u16 \<Rightarrow> bool" where
  "tlv_tag_ok t \<longleftrightarrow>
     (if t > 0x00ff then ucast (drop_bit 8 t) AND (0x1f :: byte) = 0x1f
      else ucast t AND (0x1f :: byte) \<noteq> 0x1f)"

definition tlv_tag_bytes :: "u16 \<Rightarrow> byte list" where
  "tlv_tag_bytes t = (if t > 0x00ff then put_uint16_be t else [ucast t])"

definition tlv_put :: "u16 \<Rightarrow> byte list \<Rightarrow> byte list" where
  "tlv_put t v = tlv_tag_bytes t @ tlv_format_len (of_nat (length v)) @ v"

lemma ucast_ucast_small16: "(t :: u16) < 256 \<Longrightarrow> ucast (ucast t :: byte) = t"
  by (rule word_unat_eq_iff [THEN iffD2])
     (auto simp: unsigned_ucast_eq take_bit_eq_mod word_less_nat_alt unat_mod)

lemma put_uint16_bytes:
  "put_uint16_be n = [ucast (drop_bit 8 n), ucast n]"
  by (auto simp: put_uint16_be_def and_255 intro!: bit_word_eqI simp: bit_simps)

lemma make_uint16_bytes: "make_uint16_be (ucast (drop_bit 8 n)) (ucast n) = n"
  using make_put_uint16 [of n] put_uint16_bytes [of n] by (simp add: put_uint16_be_def)

lemma tlv_walk_tag_put:
  assumes "tlv_tag_ok t"
  shows "tlv_walk_tag (xs @ tlv_tag_bytes t @ ys) (length xs) =
           Some (t, length xs + length (tlv_tag_bytes t))"
  using assms
  by (auto simp: tlv_walk_tag_def tlv_tag_bytes_def tlv_tag_ok_def put_uint16_bytes nth_append
        make_uint16_bytes word_less_nat_alt word_le_nat_alt
        intro: ucast_ucast_small16)

lemma ucast_byte_neq:
  assumes "(l :: u16) < 128"
  shows "(ucast l :: byte) \<noteq> 0x82" "(ucast l :: byte) \<noteq> 0x81"
proof -
  have "unat (ucast l :: byte) < 128"
    using assms by (simp add: unsigned_ucast_eq take_bit_eq_mod word_less_nat_alt)
  then show "(ucast l :: byte) \<noteq> 0x82" "(ucast l :: byte) \<noteq> 0x81"
    by auto
qed

lemma tlv_walk_len_put:
  "tlv_walk_len (xs @ tlv_format_len l @ ys) (length xs) =
     Some (l, length xs + length (tlv_format_len l))"
proof -
  consider "l < 128" | "\<not> l < 128" "l < 256" | "\<not> l < 128" "\<not> l < 256" by blast
  then show ?thesis
  proof cases
    case 1
    then have "l < 256" by (simp add: word_less_nat_alt)
    with 1 ucast_byte_neq [OF 1] show ?thesis
      by (simp add: tlv_walk_len_def tlv_format_len_def nth_append ucast_ucast_small16)
  next
    case 2
    then show ?thesis
      by (simp add: tlv_walk_len_def tlv_format_len_def nth_append ucast_ucast_small16)
  next
    case 3
    then show ?thesis
      by (simp add: tlv_walk_len_def tlv_format_len_def nth_append put_uint16_bytes make_uint16_bytes)
  qed
qed

lemma tlv_walk_put:
  assumes "tlv_tag_ok t" and "length v < 65536"
  shows "tlv_walk (Some (xs @ tlv_put t v @ ys)) (Some (length xs)) =
           Some (\<lparr>item_tag = t, item_value = v\<rparr>, length xs + length (tlv_put t v))"
proof -
  let ?l = "of_nat (length v) :: u16"
  let ?d = "xs @ tlv_put t v @ ys"
  have l: "unat ?l = length v"
    using assms(2) by (simp add: unat_of_nat)
  have t: "tlv_walk_tag ?d (length xs) = Some (t, length xs + length (tlv_tag_bytes t))"
    using tlv_walk_tag_put [OF assms(1), of xs "tlv_format_len ?l @ v @ ys"] by (simp add: tlv_put_def)
  have n: "tlv_walk_len ?d (length xs + length (tlv_tag_bytes t)) =
      Some (?l, length xs + length (tlv_tag_bytes t) + length (tlv_format_len ?l))"
    using tlv_walk_len_put [of "xs @ tlv_tag_bytes t" ?l "v @ ys"] by (simp add: tlv_put_def)
  show ?thesis
    by (simp add: tlv_walk_def t n l) (simp add: tlv_put_def bslice_def)
qed

definition tlv_puts :: "(u16 \<times> byte list) list \<Rightarrow> byte list" where
  "tlv_puts items = concat (map (\<lambda>(t, v). tlv_put t v) items)"

lemma tlv_puts_simps [simp]:
  "tlv_puts [] = []" "tlv_puts ((t, v) # is) = tlv_put t v @ tlv_puts is"
  by (simp_all add: tlv_puts_def)

lemma tlv_items_end: "length data \<le> i \<Longrightarrow> tlv_items data i = []"
  by (simp add: tlv_items.simps [of data i] tlv_walk_def tlv_walk_tag_def)

lemma tlv_items_puts_from:
  assumes "list_all (\<lambda>(t, v). tlv_tag_ok t \<and> length v < 65536) its"
  shows "map fst (tlv_items (xs @ tlv_puts its) (length xs)) =
           map (\<lambda>(t, v). \<lparr>item_tag = t, item_value = v\<rparr>) its"
  using assms
proof (induction its arbitrary: xs)
  case Nil
  then show ?case by (simp add: tlv_items_end)
next
  case (Cons it its)
  obtain t v where it: "it = (t, v)" by (cases it)
  with Cons.prems have "tlv_tag_ok t" "length v < 65536" by simp_all
  from tlv_walk_put [OF this, of xs "tlv_puts its"]
  show ?case
    using Cons.IH [of "xs @ tlv_put t v"] Cons.prems
    by (simp add: it tlv_items.simps [of "xs @ tlv_put t v @ tlv_puts its"])
qed

lemma find_map_fst: "find (\<lambda>(a, _). P a) xs = None \<longleftrightarrow> find P (map fst xs) = None"
  "map_option fst (find (\<lambda>(a, _). P a) xs) = find P (map fst xs)"
  by (induction xs) (auto)

lemma find_tag_map_of:
  "map_option item_value (find (\<lambda>it. t = item_tag it)
      (map (\<lambda>(t, v). \<lparr>item_tag = t, item_value = v\<rparr>) its)) = map_of its t"
  by (induction its) auto

lemma tlv_find_tag_items:
  "tlv_find_tag (Some data) t =
     map_option item_value (find (\<lambda>it. t = item_tag it) (map fst (tlv_items data 0)))"
  by (simp add: tlv_find_tag_def option.map_comp flip: find_map_fst(2))

text \<open>The reader finds exactly the first item with the tag in an encoded list.\<close>

lemma tlv_find_tag_puts:
  assumes "list_all (\<lambda>(t, v). tlv_tag_ok t \<and> length v < 65536) its"
  shows "tlv_find_tag (Some (tlv_puts its)) t = map_of its t"
  using tlv_items_puts_from [OF assms, of "[]"]
  by (simp add: tlv_find_tag_items find_tag_map_of)

lemma length_tlv_format_len: "length (tlv_format_len l) \<le> 3"
  by (simp add: tlv_format_len_def)

lemma tlv_len_tag_put:
  assumes "length v < 65531"
  shows "unat (tlv_len_tag t (of_nat (length v))) = length (tlv_put t v)"
proof -
  let ?l = "of_nat (length v) :: u16"
  have l: "unat ?l = length v"
    using assms by (simp add: unat_of_nat)
  have "length (tlv_format_len ?l) \<in> {1, 2, 3}"
    by (simp add: tlv_format_len_def)
  with assms l show ?thesis
    by (auto simp: tlv_len_tag_def tlv_put_def tlv_tag_bytes_def unat_word_ariths Let_def)
qed

section \<open>Properties\<close>

text \<open>Every item the TLV loops hand out lies inside the array: the value is the slice that ends
  at the cursor, the cursor moves forward and never passes the end.\<close>

theorem tlv_items_in_bounds:
  "\<forall>(item, q) \<in> set (tlv_items data i).
     i < q \<and> q \<le> length data \<and>
     item_value item = bslice (q - length (item_value item)) (length (item_value item)) data"
  using tlv_items_bounds by blast

theorem tlv_items_in_bounds_witness:
  "tlv_items [0x5c, 2, 7, 8] 0 = [(\<lparr>item_tag = 0x5c, item_value = [7, 8]\<rparr>, 4)] \<and>
   bslice 2 2 [0x5c, 2, 7, 8 :: byte] = [7, 8]"
proof -
  have e: "tlv_items [0x5c, 2, 7, 8] 0 = [(\<lparr>item_tag = 0x5c, item_value = [7, 8]\<rparr>, 4)]"
    by (simp add: tlv_items.simps tlv_walk_def tlv_walk_tag_def tlv_walk_len_def bslice_def)
  from tlv_items_in_bounds [of "[0x5c, 2, 7, 8]" 0]
  have "bslice 2 2 [0x5c, 2, 7, 8 :: byte] = [7, 8]"
    unfolding e by (simp add: numeral_2_eq_2)
  with e show ?thesis by simp
qed

text \<open>C32: searching a tag in a buffer laid out with the code's own length encoding yields the value
  of the first item with that tag, and nothing when there is none.\<close>

theorem tlv_find_tag_first:
  assumes "list_all (\<lambda>(t, v). tlv_tag_ok t \<and> length v < 65536) its"
  shows "tlv_find_tag (Some (tlv_puts its)) t = map_of its t"
  by (rule tlv_find_tag_puts [OF assms])

theorem tlv_find_tag_first_witness:
  "tlv_find_tag (Some (tlv_puts [(0x80, [1]), (0x5fc1, [2, 3])])) 0x5fc1 = Some [2, 3]"
  using tlv_find_tag_first [of "[(0x80, [1]), (0x5fc1, [2, 3])]" "0x5fc1"]
  by (simp add: tlv_tag_ok_def)

end
