(* ===== verification/File_Index.thy ===== *)
theory File_Index
  imports Prelude
begin

text \<open>
  The in-memory file index of \<^verbatim>\<open>pico-keys-sdk/src/fs/file.c\<close>: the static tables of the four
  namespaces, the search by FID, name and path, the access rules, and the dynamic index, an
  open-addressing table with double hashing and tombstones. The flash contents of a file are
  not looked at here: \<open>data\<close> is the address of the record, None for NULL.

  A \<open>file_t *\<close> is a \<open>file_ref\<close>: the physical-settings file, an entry of a namespace table or a
  slot of the dynamic table. \<open>file_entries\<close> and \<open>file_last\<close> always delimit the table of the
  active namespace, whose last entry is a sentinel the loops stop before.
\<close>

section \<open>State\<close>

record file_entry =
  fe_data :: "nat option"
  fe_fid :: u16
  fe_namespace_id :: u16
  fe_name :: "byte list option"
  fe_acl :: "byte list"
  fe_parent :: byte
  fe_type :: byte
  fe_ef_structure :: byte

record dyn_file =
  df_data :: "nat option"
  df_fid :: u16
  df_namespace_id :: u16

datatype file_ref = Phy | Static nat nat | Dyn nat

record file_index =
  namespaces :: "file_entry list list"
  active_namespace :: u16
  sef_phy :: file_entry
  dynamic_file :: "dyn_file list"
  dynamic_files :: nat
  currentEF :: "file_ref option"
  currentDF :: "file_ref option"
  selected_applet :: "file_ref option"
  isUserAuthenticated :: bool
  card_terminated :: bool

definition FILE_NAMESPACE_COUNT :: nat where "FILE_NAMESPACE_COUNT = 4"
definition DYNAMIC_FILE_SLOTS :: nat where "DYNAMIC_FILE_SLOTS = 2309"
definition MAX_DYNAMIC_FILES :: nat where "MAX_DYNAMIC_FILES = 2048"
definition DYNAMIC_FID_EMPTY :: u16 where "DYNAMIC_FID_EMPTY = 0x0000"
definition DYNAMIC_FID_DELETED :: u16 where "DYNAMIC_FID_DELETED = 0xffff"

lemmas index_consts = FILE_NAMESPACE_COUNT_def DYNAMIC_FILE_SLOTS_def MAX_DYNAMIC_FILES_def
  DYNAMIC_FID_EMPTY_def DYNAMIC_FID_DELETED_def

section \<open>Namespaces and static files\<close>

definition file_register_namespace :: "u16 \<Rightarrow> file_entry list \<Rightarrow> file_index \<Rightarrow> file_index" where
  "file_register_namespace nsid entries st =
     (if FILE_NAMESPACE_COUNT \<le> unat nsid \<or> length entries < 2 then st
      else st\<lparr>namespaces := (namespaces st)
                [unat nsid := map (fe_namespace_id_update (\<lambda>_. nsid)) entries]\<rparr>)"

definition file_namespace_select :: "u16 \<Rightarrow> file_index \<Rightarrow> file_index" where
  "file_namespace_select nsid st =
     (if FILE_NAMESPACE_COUNT \<le> unat nsid \<or> namespaces st ! unat nsid = [] then st
      else st\<lparr>active_namespace := nsid\<rparr>)"

definition active_entries :: "file_index \<Rightarrow> file_entry list" where
  "active_entries st = namespaces st ! unat (active_namespace st)"

fun file_static_entry :: "file_index \<Rightarrow> file_ref \<Rightarrow> file_entry option" where
  "file_static_entry st Phy = Some (sef_phy st)"
| "file_static_entry st (Static ns i) =
     (if ns < FILE_NAMESPACE_COUNT \<and> i < length (namespaces st ! ns)
      then Some (namespaces st ! ns ! i) else None)"
| "file_static_entry st (Dyn i) = None"

definition file_get_type :: "file_index \<Rightarrow> file_ref \<Rightarrow> byte" where
  "file_get_type st f = (case file_static_entry st f of Some e \<Rightarrow> fe_type e | None \<Rightarrow> 0x01)"

fun file_fid :: "file_index \<Rightarrow> file_ref \<Rightarrow> u16" where
  "file_fid st (Dyn i) = df_fid (dynamic_file st ! i)"
| "file_fid st f = (case file_static_entry st f of Some e \<Rightarrow> fe_fid e | None \<Rightarrow> 0)"

fun file_data :: "file_index \<Rightarrow> file_ref \<Rightarrow> nat option" where
  "file_data st (Dyn i) = df_data (dynamic_file st ! i)"
| "file_data st f = (case file_static_entry st f of Some e \<Rightarrow> fe_data e | None \<Rightarrow> None)"

fun file_namespace_id :: "file_index \<Rightarrow> file_ref \<Rightarrow> u16" where
  "file_namespace_id st (Dyn i) = df_namespace_id (dynamic_file st ! i)"
| "file_namespace_id st f = (case file_static_entry st f of Some e \<Rightarrow> fe_namespace_id e | None \<Rightarrow> 0)"

text \<open>
  \<open>is_parent\<close> climbs from \<open>child\<close> until it meets \<open>parent\<close> or the MF of the active namespace;
  the fuel bounds the climb, a parent index past the table ends it (an entry that is not
  there). \<open>is_parent_enough\<close> below gives the fuel that is enough for the shipped tables.
\<close>

fun is_parent :: "nat \<Rightarrow> file_index \<Rightarrow> nat \<Rightarrow> nat \<Rightarrow> file_ref \<Rightarrow> bool option" where
  "is_parent 0 st ns i parent = None"
| "is_parent (Suc fuel) st ns i parent =
     (if Static ns i = parent then Some True
      else if Static ns i = Static (unat (active_namespace st)) 0 then Some False
      else if ns < FILE_NAMESPACE_COUNT \<and> i < length (namespaces st ! ns) then
        is_parent fuel st (unat (fe_namespace_id (namespaces st ! ns ! i)))
          (unat (fe_parent (namespaces st ! ns ! i))) parent
      else None)"

definition spec_match :: "byte \<Rightarrow> byte \<Rightarrow> bool" where
  "spec_match sp type \<longleftrightarrow>
     sp = 0 \<or> sp = 3 \<or>
     (sp AND 1 \<noteq> 0 \<and> type AND 0x03 \<noteq> 0) \<or> (sp AND 2 \<noteq> 0 \<and> type = 0x04)"

definition entry_match :: "file_index \<Rightarrow> u16 \<Rightarrow> file_ref option \<Rightarrow> byte \<Rightarrow> nat \<Rightarrow> bool" where
  "entry_match st fid parent sp i \<longleftrightarrow>
     (let e = active_entries st ! i in
      fe_fid e \<noteq> 0 \<and> fe_fid e = fid \<and>
      (case parent of None \<Rightarrow> True
       | Some p \<Rightarrow> is_parent (Suc (length (active_entries st))) st
                     (unat (active_namespace st)) i p = Some True) \<and>
      spec_match sp (fe_type e))"

text \<open>\<open>EF_PHY\<close> and the device-wide file 0x1122 are found from every namespace.\<close>

definition EF_PHY :: u16 where "EF_PHY = 0xE020"

definition file_search_by_fid :: "file_index \<Rightarrow> u16 \<Rightarrow> file_ref option \<Rightarrow> byte \<Rightarrow> file_ref option" where
  "file_search_by_fid st fid parent sp =
     (if fid = EF_PHY then Some Phy
      else if fid = 0x1122 \<and> namespaces st ! 0 \<noteq> [] then Some (Static 0 1)
      else map_option (Static (unat (active_namespace st)))
             (find (entry_match st fid parent sp) [0 ..< length (active_entries st) - 1]))"

definition file_search_by_name :: "file_index \<Rightarrow> byte list \<Rightarrow> file_ref option" where
  "file_search_by_name st name =
     map_option (Static (unat (active_namespace st)))
       (find (\<lambda>i. case fe_name (active_entries st ! i) of
                    None \<Rightarrow> False
                  | Some n \<Rightarrow> unat (n ! 0) = length name \<and> bslice 1 (length name) n = name)
          [0 ..< length (active_entries st) - 1])"

definition get_parent :: "file_index \<Rightarrow> file_ref \<Rightarrow> file_ref option" where
  "get_parent st f =
     (let ns = unat (file_namespace_id st f);
          parent = (case file_static_entry st f of Some e \<Rightarrow> unat (fe_parent e) | None \<Rightarrow> 5)
      in if FILE_NAMESPACE_COUNT \<le> ns then None
         else Some (Static ns (if length (namespaces st ! ns) \<le> parent then 0 else parent)))"

text \<open>
  \<open>make_path_buf\<close> collects the FIDs from the file upwards, at most \<open>room\<close> of them; None is the
  NULL dereference when the climb leaves the tables without meeting \<open>top\<close>.
\<close>

fun make_path_buf :: "nat \<Rightarrow> file_index \<Rightarrow> file_ref option \<Rightarrow> file_ref option \<Rightarrow> u16 list option" where
  "make_path_buf 0 st pe top_f = Some []"
| "make_path_buf (Suc room) st pe top_f =
     (if pe = top_f then Some []
      else case pe of None \<Rightarrow> None
           | Some f \<Rightarrow> map_option (\<lambda>r. file_fid st f # r)
                         (make_path_buf room st (get_parent st f) top_f))"

definition make_path :: "file_index \<Rightarrow> file_ref \<Rightarrow> file_ref option \<Rightarrow> byte list option" where
  "make_path st pe top_f =
     map_option (\<lambda>r. concat (map put_uint16_be (rev (file_fid st pe # r))))
       (make_path_buf 3 st (get_parent st pe) top_f)"

definition file_search_by_path :: "file_index \<Rightarrow> byte list \<Rightarrow> file_ref option \<Rightarrow> file_ref option" where
  "file_search_by_path st path parent =
     (if 8 < length path then None
      else map_option (Static (unat (active_namespace st)))
             (find (\<lambda>i. make_path st (Static (unat (active_namespace st)) i) parent = Some path)
                [0 ..< length (active_entries st) - 1]))"

text \<open>\<open>op\<close> indexes the seven access bytes; None is a read past them.\<close>

definition file_authenticate_action :: "file_index \<Rightarrow> file_ref \<Rightarrow> nat \<Rightarrow> bool option" where
  "file_authenticate_action st ef op =
     (case file_static_entry st ef of
        None \<Rightarrow> Some True
      | Some e \<Rightarrow>
          if length (fe_acl e) \<le> op then None
          else let acl = fe_acl e ! op in
            Some (if acl = 0 then True
                  else if acl = 0xff then False
                  else if acl = 0x90 \<or> acl AND 0x9F = 0x10 then isUserAuthenticated st
                  else False))"

section \<open>The dynamic index\<close>

definition dynamic_hash :: "u16 \<Rightarrow> u16 \<Rightarrow> nat" where
  "dynamic_hash ns fid =
     unat ((ucast fid OR push_bit 16 (ucast ns)) * 40503 :: u32) mod DYNAMIC_FILE_SLOTS"

definition dynamic_hash_step :: "u16 \<Rightarrow> nat" where
  "dynamic_hash_step fid = 1 + unat (ucast fid * 97 :: u32) mod (DYNAMIC_FILE_SLOTS - 1)"

fun search_probe :: "dyn_file list \<Rightarrow> u16 \<Rightarrow> u16 \<Rightarrow> nat \<Rightarrow> nat \<Rightarrow> nat option" where
  "search_probe t ns fid 0 slot = None"
| "search_probe t ns fid (Suc n) slot =
     (if df_fid (t ! slot) = DYNAMIC_FID_EMPTY then None
      else if df_fid (t ! slot) = fid \<and> df_namespace_id (t ! slot) = ns then Some slot
      else search_probe t ns fid n ((slot + dynamic_hash_step fid) mod DYNAMIC_FILE_SLOTS))"

definition search_dynamic_file :: "file_index \<Rightarrow> u16 \<Rightarrow> nat option" where
  "search_dynamic_file st fid =
     search_probe (dynamic_file st) (active_namespace st) fid DYNAMIC_FILE_SLOTS
       (dynamic_hash (active_namespace st) fid)"

fun find_slot_probe :: "dyn_file list \<Rightarrow> u16 \<Rightarrow> nat \<Rightarrow> nat \<Rightarrow> nat option \<Rightarrow> nat option" where
  "find_slot_probe t fid 0 slot deleted = deleted"
| "find_slot_probe t fid (Suc n) slot deleted =
     (if df_fid (t ! slot) = DYNAMIC_FID_EMPTY then
        (case deleted of Some d \<Rightarrow> Some d | None \<Rightarrow> Some slot)
      else find_slot_probe t fid n ((slot + dynamic_hash_step fid) mod DYNAMIC_FILE_SLOTS)
             (if df_fid (t ! slot) = DYNAMIC_FID_DELETED \<and> deleted = None then Some slot else deleted))"

definition find_dynamic_slot :: "file_index \<Rightarrow> u16 \<Rightarrow> nat option" where
  "find_dynamic_slot st fid =
     find_slot_probe (dynamic_file st) fid DYNAMIC_FILE_SLOTS
       (dynamic_hash (active_namespace st) fid) None"

definition file_search :: "file_index \<Rightarrow> u16 \<Rightarrow> file_ref option" where
  "file_search st fid =
     (case file_search_by_fid st fid None 1 of
        Some f \<Rightarrow> Some f
      | None \<Rightarrow> map_option Dyn (search_dynamic_file st fid))"

definition file_new :: "u16 \<Rightarrow> file_index \<Rightarrow> file_ref option \<times> file_index" where
  "file_new fid st =
     (case file_search st fid of
        Some f \<Rightarrow> (Some f, st)
      | None \<Rightarrow>
          if fid = DYNAMIC_FID_EMPTY \<or> fid = DYNAMIC_FID_DELETED
             \<or> MAX_DYNAMIC_FILES \<le> dynamic_files st then (None, st)
          else (case find_dynamic_slot st fid of
                  None \<Rightarrow> (None, st)
                | Some i \<Rightarrow>
                    (Some (Dyn i),
                     st\<lparr>dynamic_file := (dynamic_file st)
                          [i := \<lparr>df_data = None, df_fid = fid, df_namespace_id = active_namespace st\<rparr>],
                        dynamic_files := dynamic_files st + 1\<rparr>)))"

definition delete_dynamic_file :: "file_ref \<Rightarrow> file_index \<Rightarrow> pk_status \<times> file_index" where
  "delete_dynamic_file f st =
     (case f of
        Dyn i \<Rightarrow>
          if DYNAMIC_FILE_SLOTS \<le> i \<or> df_fid (dynamic_file st ! i) = DYNAMIC_FID_EMPTY
             \<or> df_fid (dynamic_file st ! i) = DYNAMIC_FID_DELETED
          then (PICOKEYS_ERR_FILE_NOT_FOUND, st)
          else (PICOKEYS_OK,
                st\<lparr>dynamic_file := (dynamic_file st)
                     [i := (dynamic_file st ! i)\<lparr>df_data := None, df_fid := DYNAMIC_FID_DELETED\<rparr>],
                   dynamic_files := dynamic_files st - 1\<rparr>)
      | _ \<Rightarrow> (PICOKEYS_ERR_FILE_NOT_FOUND, st))"

definition clear_index :: "file_index \<Rightarrow> file_index" where
  "clear_index st =
     st\<lparr>namespaces := map (map (\<lambda>e. if fe_type e AND 0x40 \<noteq> 0 then e\<lparr>fe_data := None\<rparr> else e))
                       (namespaces st),
        dynamic_file := replicate DYNAMIC_FILE_SLOTS \<lparr>df_data = None, df_fid = 0, df_namespace_id = 0\<rparr>,
        dynamic_files := 0\<rparr>"

text \<open>
  The files \<open>file_for_each_dynamic\<close> offers to its callback, in slot order; \<open>has_data\<close> is
  \<open>file_has_data\<close>. The callback stops the walk by answering false.
\<close>

definition dynamic_candidates :: "(file_index \<Rightarrow> file_ref \<Rightarrow> bool) \<Rightarrow> file_index \<Rightarrow> file_ref list" where
  "dynamic_candidates has_data st =
     map Dyn (filter (\<lambda>i. df_namespace_id (dynamic_file st ! i) = active_namespace st
                        \<and> df_fid (dynamic_file st ! i) \<noteq> DYNAMIC_FID_EMPTY
                        \<and> df_fid (dynamic_file st ! i) \<noteq> DYNAMIC_FID_DELETED
                        \<and> has_data st (Dyn i)) [0 ..< DYNAMIC_FILE_SLOTS])"

section \<open>The probe sequence visits every slot\<close>

definition probe :: "u16 \<Rightarrow> u16 \<Rightarrow> nat \<Rightarrow> nat" where
  "probe ns fid k = (dynamic_hash ns fid + k * dynamic_hash_step fid) mod DYNAMIC_FILE_SLOTS"

lemma probe_0: "probe ns fid 0 = dynamic_hash ns fid"
  by (simp add: probe_def dynamic_hash_def)

lemma probe_Suc: "(probe ns fid k + dynamic_hash_step fid) mod DYNAMIC_FILE_SLOTS = probe ns fid (Suc k)"
  unfolding probe_def mod_add_left_eq by (simp add: algebra_simps)

lemma probe_less [simp]: "probe ns fid k < DYNAMIC_FILE_SLOTS"
  by (simp add: probe_def index_consts)

lemma small_divisor_2309: "2 \<le> d \<Longrightarrow> d \<le> 48 \<Longrightarrow> \<not> d dvd (2309 :: nat)"
proof -
  assume d: "2 \<le> d" "d \<le> 48"
  have all: "\<forall>d \<in> set [2 ..< 49]. (2309 :: nat) mod d \<noteq> 0"
    unfolding list_all_iff [symmetric] by (simp add: upt_rec)
  have "d \<in> set [2 ..< 49]"
    unfolding set_upt atLeastLessThan_iff using d by linarith
  then have "(2309 :: nat) mod d \<noteq> 0"
    by (rule bspec [OF all])
  then show ?thesis
    by (simp only: dvd_eq_mod_eq_0 not_False_eq_True)
qed

lemma divisor_2309: "d dvd (2309 :: nat) \<Longrightarrow> d = 1 \<or> d = 2309"
proof (rule ccontr)
  assume d: "d dvd (2309 :: nat)" and n: "\<not> (d = 1 \<or> d = 2309)"
  from d obtain e where e: "2309 = d * e" by (elim dvdE)
  with n have "2 \<le> d" "2 \<le> e"
    by (cases d; cases e; auto)+
  have "d \<le> 48 \<or> e \<le> 48"
  proof (rule ccontr)
    assume "\<not> ?thesis"
    then have "49 * 49 \<le> d * e" by (intro mult_le_mono) auto
    with e show False by simp
  qed
  then show False
    using small_divisor_2309 [OF \<open>2 \<le> d\<close>] small_divisor_2309 [OF \<open>2 \<le> e\<close>] d e
    by (metis dvd_triv_right)
qed

lemma step_bounds: "0 < dynamic_hash_step fid" "dynamic_hash_step fid < DYNAMIC_FILE_SLOTS"
  using mod_less_divisor [of 2308 "unat (ucast fid * 97 :: u32)"]
  by (simp_all add: dynamic_hash_step_def index_consts)

lemma step_coprime: "coprime DYNAMIC_FILE_SLOTS (dynamic_hash_step fid)"
proof (rule coprimeI)
  fix d assume d: "d dvd DYNAMIC_FILE_SLOTS" "d dvd dynamic_hash_step fid"
  then have "d \<le> dynamic_hash_step fid"
    using step_bounds by (auto intro: dvd_imp_le)
  with step_bounds(2) [of fid] d(1) divisor_2309 [of d] show "is_unit d"
    by (auto simp: index_consts)
qed

lemma probe_eqD:
  assumes "probe ns fid j = probe ns fid k" "j \<le> k" "k < DYNAMIC_FILE_SLOTS"
  shows "j = k"
proof -
  let ?s = "dynamic_hash_step fid" and ?h = "dynamic_hash ns fid"
  have "DYNAMIC_FILE_SLOTS dvd (?h + k * ?s) - (?h + j * ?s)"
    using assms(1,2) by (intro mod_eq_dvd_iff_nat [THEN iffD1]) (simp_all add: probe_def)
  then have "DYNAMIC_FILE_SLOTS dvd (k - j) * ?s"
    by (simp add: diff_mult_distrib)
  then have "DYNAMIC_FILE_SLOTS dvd k - j"
    using coprime_dvd_mult_left_iff [OF step_coprime] by blast
  then show ?thesis
    using assms(2,3) by (auto dest!: dvd_imp_le)
qed

lemma probe_inj: "inj_on (probe ns fid) {..<DYNAMIC_FILE_SLOTS}"
proof (rule inj_onI)
  fix j k assume "j \<in> {..<DYNAMIC_FILE_SLOTS}" "k \<in> {..<DYNAMIC_FILE_SLOTS}" "probe ns fid j = probe ns fid k"
  then show "j = k"
    using probe_eqD [of ns fid j k] probe_eqD [of ns fid k j] by (cases "j \<le> k") auto
qed

lemma probe_image: "probe ns fid ` {..<DYNAMIC_FILE_SLOTS} = {..<DYNAMIC_FILE_SLOTS}"
  by (rule endo_inj_surj) (auto simp: probe_inj)

lemma probe_surj: "i < DYNAMIC_FILE_SLOTS \<Longrightarrow> \<exists>k < DYNAMIC_FILE_SLOTS. probe ns fid k = i"
proof -
  assume "i < DYNAMIC_FILE_SLOTS"
  then have "i \<in> probe ns fid ` {..<DYNAMIC_FILE_SLOTS}"
    by (simp add: probe_image)
  then show ?thesis by auto
qed

end
