(* ===== verification/Dynamic_Index.thy ===== *)
theory Dynamic_Index
  imports File_Index
begin

text \<open>
  Correctness of the dynamic file index: its invariant, the map from (namespace, FID) to slots
  that it represents, and what \<open>file_new\<close>, \<open>delete_dynamic_file\<close> and the probing search do to
  that map. The locale \<open>fid_index\<close> is the interface the stores above rely on; it is
  interpreted on the operations of \<^verbatim>\<open>file.c\<close> at the end.
\<close>

definition fid_ok :: "u16 \<Rightarrow> bool" where
  "fid_ok fid \<longleftrightarrow> fid \<noteq> DYNAMIC_FID_EMPTY \<and> fid \<noteq> DYNAMIC_FID_DELETED"

definition live_at :: "dyn_file list \<Rightarrow> nat \<Rightarrow> bool" where
  "live_at t i \<longleftrightarrow> i < DYNAMIC_FILE_SLOTS \<and> fid_ok (df_fid (t ! i))"

definition dkey :: "dyn_file \<Rightarrow> u16 \<times> u16" where
  "dkey d = (df_namespace_id d, df_fid d)"

definition reached :: "dyn_file list \<Rightarrow> nat \<Rightarrow> bool" where
  "reached t i \<longleftrightarrow>
     (\<exists>k < DYNAMIC_FILE_SLOTS. probe (df_namespace_id (t ! i)) (df_fid (t ! i)) k = i \<and>
        (\<forall>j < k. df_fid (t ! probe (df_namespace_id (t ! i)) (df_fid (t ! i)) j) \<noteq> DYNAMIC_FID_EMPTY))"

definition dyn_inv :: "file_index \<Rightarrow> bool" where
  "dyn_inv st \<longleftrightarrow>
     length (dynamic_file st) = DYNAMIC_FILE_SLOTS \<and>
     dynamic_files st = card {i. live_at (dynamic_file st) i} \<and>
     (\<forall>i j. live_at (dynamic_file st) i \<longrightarrow> live_at (dynamic_file st) j \<longrightarrow>
        dkey (dynamic_file st ! i) = dkey (dynamic_file st ! j) \<longrightarrow> i = j) \<and>
     (\<forall>i. live_at (dynamic_file st) i \<longrightarrow> reached (dynamic_file st) i)"

text \<open>The map the table stands for: a linear scan, independent of hashing.\<close>

definition dyn_slot :: "file_index \<Rightarrow> u16 \<times> u16 \<Rightarrow> nat option" where
  "dyn_slot st k =
     find (\<lambda>i. live_at (dynamic_file st) i \<and> dkey (dynamic_file st ! i) = k) [0 ..< DYNAMIC_FILE_SLOTS]"

lemma dyn_inv_unique:
  "dyn_inv st \<Longrightarrow> live_at (dynamic_file st) i \<Longrightarrow> live_at (dynamic_file st) j \<Longrightarrow>
   dkey (dynamic_file st ! i) = dkey (dynamic_file st ! j) \<Longrightarrow> i = j"
  by (simp add: dyn_inv_def)

lemma dyn_slot_Some:
  assumes "dyn_inv st"
  shows "dyn_slot st k = Some i \<longleftrightarrow> live_at (dynamic_file st) i \<and> dkey (dynamic_file st ! i) = k"
proof
  assume "dyn_slot st k = Some i"
  then show "live_at (dynamic_file st) i \<and> dkey (dynamic_file st ! i) = k"
    by (auto simp: dyn_slot_def find_Some_iff)
next
  assume i: "live_at (dynamic_file st) i \<and> dkey (dynamic_file st ! i) = k"
  then have "i \<in> set [0 ..< DYNAMIC_FILE_SLOTS]"
    by (simp add: live_at_def)
  with i have "dyn_slot st k \<noteq> None"
    unfolding dyn_slot_def find_None_iff by blast
  then obtain j where j: "dyn_slot st k = Some j" by blast
  then have "live_at (dynamic_file st) j \<and> dkey (dynamic_file st ! j) = k"
    by (auto simp: dyn_slot_def find_Some_iff)
  with i j dyn_inv_unique [OF assms] show "dyn_slot st k = Some i" by metis
qed

lemma dyn_slot_None:
  "dyn_slot st k = None \<longleftrightarrow> (\<forall>i. live_at (dynamic_file st) i \<longrightarrow> dkey (dynamic_file st ! i) \<noteq> k)"
  by (auto simp: dyn_slot_def find_None_iff live_at_def)

section \<open>The probing search\<close>

lemma search_probe_sound:
  "search_probe t ns fid n (probe ns fid k) = Some s \<Longrightarrow>
   s < DYNAMIC_FILE_SLOTS \<and> df_fid (t ! s) \<noteq> DYNAMIC_FID_EMPTY \<and> dkey (t ! s) = (ns, fid)"
proof (induction n arbitrary: k)
  case 0
  then show ?case by simp
next
  case (Suc n)
  then consider "probe ns fid k = s" "df_fid (t ! s) \<noteq> DYNAMIC_FID_EMPTY" "dkey (t ! s) = (ns, fid)"
    | "search_probe t ns fid n (probe ns fid (Suc k)) = Some s"
    by (auto simp: probe_Suc dkey_def split: if_splits)
  then show ?case
    by cases (use probe_less [of ns fid k] Suc.IH in auto)
qed

lemma search_probe_complete:
  assumes "k \<le> m" "m < k + n" "dkey (t ! probe ns fid m) = (ns, fid)"
    and "\<forall>j. k \<le> j \<and> j \<le> m \<longrightarrow> df_fid (t ! probe ns fid j) \<noteq> DYNAMIC_FID_EMPTY"
  shows "search_probe t ns fid n (probe ns fid k) \<noteq> None"
  using assms
proof (induction n arbitrary: k)
  case 0
  then show ?case by simp
next
  case (Suc n)
  show ?case
  proof (cases "k = m")
    case True
    with Suc.prems show ?thesis by (auto simp: dkey_def)
  next
    case False
    with Suc.prems have "search_probe t ns fid n (probe ns fid (Suc k)) \<noteq> None"
      by (intro Suc.IH) auto
    with Suc.prems show ?thesis by (auto simp: probe_Suc)
  qed
qed

lemma search_dynamic_file_correct:
  assumes "dyn_inv st" "fid_ok fid"
  shows "search_dynamic_file st fid = dyn_slot st (active_namespace st, fid)"
proof -
  let ?t = "dynamic_file st" and ?ns = "active_namespace st"
  have sound: "live_at ?t i \<and> dkey (?t ! i) = (?ns, fid)"
    if "search_dynamic_file st fid = Some i" for i
    using search_probe_sound [of ?t ?ns fid _ 0 i] that assms(2)
    by (auto simp: search_dynamic_file_def probe_0 live_at_def dkey_def)
  have complete: "search_dynamic_file st fid \<noteq> None"
    if i: "live_at ?t i" "dkey (?t ! i) = (?ns, fid)" for i
  proof -
    from i(1) assms(1) have "reached ?t i" by (simp add: dyn_inv_def)
    with i obtain m where m: "m < DYNAMIC_FILE_SLOTS" "probe ?ns fid m = i"
      "\<forall>j < m. df_fid (?t ! probe ?ns fid j) \<noteq> DYNAMIC_FID_EMPTY"
      by (auto simp: reached_def dkey_def)
    with i have "\<forall>j. 0 \<le> j \<and> j \<le> m \<longrightarrow> df_fid (?t ! probe ?ns fid j) \<noteq> DYNAMIC_FID_EMPTY"
      by (auto simp: live_at_def fid_ok_def le_less)
    with m i show ?thesis
      using search_probe_complete [of 0 m DYNAMIC_FILE_SLOTS ?t ?ns fid]
      by (simp add: search_dynamic_file_def probe_0)
  qed
  show ?thesis
    using sound complete dyn_slot_Some [OF assms(1)] dyn_slot_None [of st]
    by (cases "search_dynamic_file st fid"; cases "dyn_slot st (?ns, fid)") (force, force, force, metis)
qed

lemma find_slot_sound:
  "find_slot_probe t fid n (probe ns fid k) del = Some i \<Longrightarrow>
   del = Some i \<or>
   (\<exists>m. k \<le> m \<and> m < k + n \<and> i = probe ns fid m \<and> \<not> fid_ok (df_fid (t ! i)) \<and>
      (\<forall>j. k \<le> j \<and> j < m \<longrightarrow> df_fid (t ! probe ns fid j) \<noteq> DYNAMIC_FID_EMPTY))"
proof (induction n arbitrary: k del)
  case 0
  then show ?case by simp
next
  case (Suc n)
  let ?f = "df_fid (t ! probe ns fid k)"
  show ?case
  proof (cases "?f = DYNAMIC_FID_EMPTY")
    case True
    with Suc.prems show ?thesis
      by (cases del) (auto intro!: exI [of _ k] simp: fid_ok_def)
  next
    case False
    define del' where "del' = (if ?f = DYNAMIC_FID_DELETED \<and> del = None then Some (probe ns fid k) else del)"
    from False Suc.prems have "find_slot_probe t fid n (probe ns fid (Suc k)) del' = Some i"
      by (simp add: probe_Suc del'_def)
    from Suc.IH [OF this] consider "del' = Some i"
      | m where "Suc k \<le> m" "m < Suc k + n" "i = probe ns fid m" "\<not> fid_ok (df_fid (t ! i))"
        "\<forall>j. Suc k \<le> j \<and> j < m \<longrightarrow> df_fid (t ! probe ns fid j) \<noteq> DYNAMIC_FID_EMPTY"
      by blast
    then show ?thesis
    proof cases
      case 1
      then show ?thesis
        by (auto simp: del'_def fid_ok_def split: if_splits intro!: exI [of _ k])
    next
      case 2
      have "df_fid (t ! probe ns fid j) \<noteq> DYNAMIC_FID_EMPTY" if "k \<le> j" "j < m" for j
        using 2(5) False that by (cases "j = k") auto
      with 2 show ?thesis
        by (intro disjI2 exI [of _ m]) auto
    qed
  qed
qed

lemma find_slot_None:
  "find_slot_probe t fid n (probe ns fid k) del = None \<Longrightarrow>
   del = None \<and> (\<forall>m. k \<le> m \<and> m < k + n \<longrightarrow> fid_ok (df_fid (t ! probe ns fid m)))"
proof (induction n arbitrary: k del)
  case 0
  then show ?case by auto
next
  case (Suc n)
  let ?f = "df_fid (t ! probe ns fid k)"
  have ne: "?f \<noteq> DYNAMIC_FID_EMPTY"
    using Suc.prems by (auto split: option.splits)
  with Suc.prems Suc.IH [of "Suc k"] have IH:
    "(if ?f = DYNAMIC_FID_DELETED \<and> del = None then Some (probe ns fid k) else del) = None"
    "\<forall>m. Suc k \<le> m \<and> m < Suc k + n \<longrightarrow> fid_ok (df_fid (t ! probe ns fid m))"
    by (auto simp: probe_Suc)
  with ne have "del = None" "fid_ok ?f"
    by (auto simp: fid_ok_def split: if_splits)
  moreover have "fid_ok (df_fid (t ! probe ns fid m))" if "k \<le> m" "m < k + Suc n" for m
    using IH(2) \<open>fid_ok ?f\<close> that by (cases "m = k") auto
  ultimately show ?case by blast
qed

section \<open>Creating and deleting a dynamic file\<close>

lemma reached_mono:
  assumes "reached t j" "t' ! j = t ! j"
    and "\<And>i. i < DYNAMIC_FILE_SLOTS \<Longrightarrow> df_fid (t ! i) \<noteq> DYNAMIC_FID_EMPTY \<Longrightarrow>
           df_fid (t' ! i) \<noteq> DYNAMIC_FID_EMPTY"
  shows "reached t' j"
proof -
  from assms(1) obtain k where k: "k < DYNAMIC_FILE_SLOTS"
    "probe (df_namespace_id (t ! j)) (df_fid (t ! j)) k = j"
    "\<forall>i < k. df_fid (t ! probe (df_namespace_id (t ! j)) (df_fid (t ! j)) i) \<noteq> DYNAMIC_FID_EMPTY"
    by (auto simp: reached_def)
  have "\<forall>i < k. df_fid (t' ! probe (df_namespace_id (t ! j)) (df_fid (t ! j)) i) \<noteq> DYNAMIC_FID_EMPTY"
    using k(3) assms(3) probe_less by blast
  with k show ?thesis
    unfolding reached_def assms(2) by blast
qed

lemma live_at_update:
  assumes "length t = DYNAMIC_FILE_SLOTS" "i < DYNAMIC_FILE_SLOTS"
  shows "live_at (t[i := d]) j \<longleftrightarrow> (if j = i then fid_ok (df_fid d) else live_at t j)"
  using assms by (auto simp: live_at_def nth_list_update)

lemma card_live_bound: "card {i. live_at t i} \<le> DYNAMIC_FILE_SLOTS"
proof -
  have "{i. live_at t i} \<subseteq> {..<DYNAMIC_FILE_SLOTS}"
    by (auto simp: live_at_def)
  then show ?thesis
    using card_mono [of "{..<DYNAMIC_FILE_SLOTS}"] by simp
qed

lemma finite_live [simp]: "finite {i. live_at t i}"
  by (rule finite_subset [of _ "{..<DYNAMIC_FILE_SLOTS}"]) (auto simp: live_at_def)

lemma find_dynamic_slot_free:
  assumes "dyn_inv st" "dynamic_files st < DYNAMIC_FILE_SLOTS"
  shows "find_dynamic_slot st fid \<noteq> None"
proof
  let ?t = "dynamic_file st"
  assume "find_dynamic_slot st fid = None"
  then have all: "\<forall>m < DYNAMIC_FILE_SLOTS. fid_ok (df_fid (?t ! probe (active_namespace st) fid m))"
    using find_slot_None [of ?t fid DYNAMIC_FILE_SLOTS "active_namespace st" 0 None]
    by (simp add: find_dynamic_slot_def probe_0)
  have "{i. live_at ?t i} = {..<DYNAMIC_FILE_SLOTS}"
    using all probe_surj [of _ "active_namespace st" fid] by (auto simp: live_at_def)
  with assms show False
    by (simp add: dyn_inv_def)
qed

text \<open>Writing a live entry over a free slot on its own probe path.\<close>

lemma dyn_inv_put:
  assumes inv: "dyn_inv st" and ok: "fid_ok (df_fid d)"
    and fresh: "dyn_slot st (dkey d) = None"
    and m: "m < DYNAMIC_FILE_SLOTS" "i = probe (df_namespace_id d) (df_fid d) m"
    and free: "\<not> fid_ok (df_fid (dynamic_file st ! i))"
    and path: "\<forall>j < m. df_fid (dynamic_file st ! probe (df_namespace_id d) (df_fid d) j) \<noteq> DYNAMIC_FID_EMPTY"
    and st': "dynamic_file st' = (dynamic_file st)[i := d]" "dynamic_files st' = dynamic_files st + 1"
  shows "dyn_inv st'" "dyn_slot st' = (dyn_slot st)(dkey d \<mapsto> i)"
proof -
  let ?t = "dynamic_file st" and ?t' = "dynamic_file st'"
  have len: "length ?t = DYNAMIC_FILE_SLOTS" and cnt: "dynamic_files st = card {i. live_at ?t i}"
    using inv by (auto simp: dyn_inv_def)
  have i: "i < DYNAMIC_FILE_SLOTS" using m by simp
  have lv: "live_at ?t' j \<longleftrightarrow> j = i \<or> live_at ?t j" for j
    using ok free by (auto simp: st' live_at_update [OF len i])
  have nl: "\<not> live_at ?t i" using free by (simp add: live_at_def)
  have at: "?t' ! j = (if j = i then d else ?t ! j)" if "j < DYNAMIC_FILE_SLOTS" for j
    using that len i by (simp add: st' nth_list_update)
  have at_live: "?t' ! j = ?t ! j" if "live_at ?t j" for j
    using that nl at [of j] by (auto simp: live_at_def)
  have ne: "df_fid (?t ! j) \<noteq> DYNAMIC_FID_EMPTY \<Longrightarrow> df_fid (?t' ! j) \<noteq> DYNAMIC_FID_EMPTY"
    if "j < DYNAMIC_FILE_SLOTS" for j
    using at [OF that] ok by (auto simp: fid_ok_def)
  have "{j. live_at ?t' j} = insert i {j. live_at ?t j}"
    using lv by auto
  then have c: "dynamic_files st' = card {j. live_at ?t' j}"
    using nl by (simp add: st' cnt)
  have neq: "dkey (?t ! j) \<noteq> dkey d" if "live_at ?t j" for j
    using fresh that by (simp add: dyn_slot_None)
  have r: "reached ?t' j" if "live_at ?t' j" for j
  proof (cases "j = i")
    case True
    have "\<forall>j < m. df_fid (?t' ! probe (df_namespace_id d) (df_fid d) j) \<noteq> DYNAMIC_FID_EMPTY"
      using path ne probe_less by blast
    with True at [OF i] m(1) m(2) [symmetric] show ?thesis
      unfolding reached_def by (intro exI [of _ m]) simp
  next
    case False
    with that lv have l: "live_at ?t j" by blast
    with inv have "reached ?t j" by (simp add: dyn_inv_def)
    then show ?thesis
      using at_live [OF l] ne by (rule reached_mono)
  qed
  have u: "j = k" if "live_at ?t' j" "live_at ?t' k" "dkey (?t' ! j) = dkey (?t' ! k)" for j k
    using that dyn_inv_unique [OF inv, of j k] lv [of j] lv [of k] at_live [of j] at_live [of k]
      neq [of j] neq [of k] at [OF i] by auto
  show inv': "dyn_inv st'"
    unfolding dyn_inv_def using len c r u st'(1) by simp
  show "dyn_slot st' = (dyn_slot st)(dkey d \<mapsto> i)"
  proof
    fix k
    have "dyn_slot st' k = Some j \<longleftrightarrow> ((dyn_slot st)(dkey d \<mapsto> i)) k = Some j" for j
      using lv [of j] at_live [of j] neq [of j] at [OF i] nl fresh
      by (auto simp: dyn_slot_Some [OF inv'] dyn_slot_Some [OF inv])
    then show "dyn_slot st' k = ((dyn_slot st)(dkey d \<mapsto> i)) k"
      by (metis not_Some_eq)
  qed
qed

text \<open>Turning a live entry into a tombstone.\<close>

lemma dyn_inv_del:
  assumes inv: "dyn_inv st" and i: "live_at (dynamic_file st) i"
    and del: "df_fid d = DYNAMIC_FID_DELETED"
    and st': "dynamic_file st' = (dynamic_file st)[i := d]" "dynamic_files st' = dynamic_files st - 1"
  shows "dyn_inv st'" "dyn_slot st' = (dyn_slot st)(dkey (dynamic_file st ! i) := None)"
proof -
  let ?t = "dynamic_file st" and ?t' = "dynamic_file st'"
  have len: "length ?t = DYNAMIC_FILE_SLOTS" and cnt: "dynamic_files st = card {i. live_at ?t i}"
    using inv by (auto simp: dyn_inv_def)
  have il: "i < DYNAMIC_FILE_SLOTS" using i by (simp add: live_at_def)
  have lv: "live_at ?t' j \<longleftrightarrow> j \<noteq> i \<and> live_at ?t j" for j
    using del by (simp add: st' live_at_update [OF len il] fid_ok_def)
  have at: "?t' ! j = (if j = i then d else ?t ! j)" if "j < DYNAMIC_FILE_SLOTS" for j
    using that len il by (simp add: st' nth_list_update)
  have at_live: "?t' ! j = ?t ! j" if l: "live_at ?t' j" for j
  proof -
    from l lv have "j \<noteq> i" by blast
    moreover from l have "j < DYNAMIC_FILE_SLOTS" by (simp only: live_at_def)
    ultimately show ?thesis using at [of j] by simp
  qed
  have ne: "df_fid (?t ! j) \<noteq> DYNAMIC_FID_EMPTY \<Longrightarrow> df_fid (?t' ! j) \<noteq> DYNAMIC_FID_EMPTY"
    if "j < DYNAMIC_FILE_SLOTS" for j
    using at [OF that] del by (auto simp: index_consts)
  have "{j. live_at ?t' j} = {j. live_at ?t j} - {i}"
    using lv by auto
  then have c: "dynamic_files st' = card {j. live_at ?t' j}"
    using i by (simp add: st' cnt)
  have r: "reached ?t' j" if "live_at ?t' j" for j
  proof -
    from that lv have "live_at ?t j" by blast
    with inv have "reached ?t j" by (simp add: dyn_inv_def)
    then show ?thesis
      using at_live [OF that] ne by (rule reached_mono)
  qed
  have u: "j = k" if "live_at ?t' j" "live_at ?t' k" "dkey (?t' ! j) = dkey (?t' ! k)" for j k
    using that dyn_inv_unique [OF inv, of j k] lv [of j] lv [of k] at_live [of j] at_live [of k] by simp
  show inv': "dyn_inv st'"
    unfolding dyn_inv_def using len c r u st'(1) by simp
  show "dyn_slot st' = (dyn_slot st)(dkey (?t ! i) := None)"
  proof
    fix k
    have "dyn_slot st' k = Some j \<longleftrightarrow> ((dyn_slot st)(dkey (?t ! i) := None)) k = Some j" for j
      using lv [of j] at_live [of j] dyn_inv_unique [OF inv i, of j]
      by (auto simp: dyn_slot_Some [OF inv'] dyn_slot_Some [OF inv])
    then show "dyn_slot st' k = ((dyn_slot st)(dkey (?t ! i) := None)) k"
      by (metis not_Some_eq)
  qed
qed

lemma search_by_fid_cong:
  "namespaces st' = namespaces st \<Longrightarrow> active_namespace st' = active_namespace st \<Longrightarrow>
   file_search_by_fid st' fid parent sp = file_search_by_fid st fid parent sp"
proof -
  assume eq: "namespaces st' = namespaces st" "active_namespace st' = active_namespace st"
  have "is_parent n st' ns i p = is_parent n st ns i p" for n ns i p
    by (induction n arbitrary: ns i) (simp_all add: eq)
  then have p: "is_parent n st' = is_parent n st" for n
    by (simp add: fun_eq_iff)
  have "entry_match st' fid parent sp = entry_match st fid parent sp"
    unfolding entry_match_def active_entries_def eq p ..
  then show ?thesis
    by (simp add: file_search_by_fid_def active_entries_def eq)
qed

text \<open>A FID the static tables do not answer for: it can only be a dynamic file.\<close>

definition dynamic_only :: "file_index \<Rightarrow> u16 \<Rightarrow> bool" where
  "dynamic_only st fid \<longleftrightarrow> fid_ok fid \<and> file_search_by_fid st fid None 1 = None"

lemma file_search_dynamic:
  "dyn_inv st \<Longrightarrow> dynamic_only st fid \<Longrightarrow>
   file_search st fid = map_option Dyn (dyn_slot st (active_namespace st, fid))"
  by (simp add: file_search_def dynamic_only_def search_dynamic_file_correct)

lemma file_new_fresh:
  assumes inv: "dyn_inv st" and dyn: "dynamic_only st fid"
    and fresh: "dyn_slot st (active_namespace st, fid) = None"
    and room: "dynamic_files st < MAX_DYNAMIC_FILES"
  obtains i where "file_new fid st = (Some (Dyn i), st\<lparr>dynamic_file := (dynamic_file st)
        [i := \<lparr>df_data = None, df_fid = fid, df_namespace_id = active_namespace st\<rparr>],
        dynamic_files := dynamic_files st + 1\<rparr>)"
    and "dyn_inv (snd (file_new fid st))" and "i < DYNAMIC_FILE_SLOTS"
    and "dyn_slot (snd (file_new fid st)) = (dyn_slot st)((active_namespace st, fid) \<mapsto> i)"
proof -
  let ?ns = "active_namespace st"
  let ?d = "\<lparr>df_data = None, df_fid = fid, df_namespace_id = ?ns\<rparr>"
  have ok: "fid_ok fid" using dyn by (simp add: dynamic_only_def)
  have search: "file_search st fid = None"
    using file_search_dynamic [OF inv dyn] fresh by simp
  obtain i where slot: "find_dynamic_slot st fid = Some i"
    using find_dynamic_slot_free [OF inv, of fid] room by (auto simp: index_consts)
  then obtain m where m: "m < DYNAMIC_FILE_SLOTS" "i = probe ?ns fid m"
      "\<not> fid_ok (df_fid (dynamic_file st ! i))"
      "\<forall>j < m. df_fid (dynamic_file st ! probe ?ns fid j) \<noteq> DYNAMIC_FID_EMPTY"
    using find_slot_sound [of "dynamic_file st" fid DYNAMIC_FILE_SLOTS ?ns 0 None i]
    by (auto simp: find_dynamic_slot_def probe_0)
  let ?st' = "st\<lparr>dynamic_file := (dynamic_file st)[i := ?d], dynamic_files := dynamic_files st + 1\<rparr>"
  have new: "file_new fid st = (Some (Dyn i), ?st')"
    using search ok room slot by (simp add: file_new_def fid_ok_def)
  have "dyn_inv ?st'" "dyn_slot ?st' = (dyn_slot st)(dkey ?d \<mapsto> i)"
    by (rule dyn_inv_put [OF inv, where d = ?d and m = m];
        use m ok fresh in \<open>simp add: dkey_def\<close>)+
  with new m show thesis
    by (intro that [of i]) (simp_all add: dkey_def)
qed

lemma file_new_existing:
  "dyn_inv st \<Longrightarrow> dynamic_only st fid \<Longrightarrow> dyn_slot st (active_namespace st, fid) = Some i \<Longrightarrow>
   file_new fid st = (Some (Dyn i), st)"
  by (simp add: file_new_def file_search_dynamic)

lemma file_new_full:
  "dyn_inv st \<Longrightarrow> dynamic_only st fid \<Longrightarrow> dyn_slot st (active_namespace st, fid) = None \<Longrightarrow>
   MAX_DYNAMIC_FILES \<le> dynamic_files st \<Longrightarrow> file_new fid st = (None, st)"
  by (simp add: file_new_def file_search_dynamic)

lemma delete_dynamic_file_live:
  assumes inv: "dyn_inv st" and slot: "dyn_slot st k = Some i"
  shows "fst (delete_dynamic_file (Dyn i) st) = PICOKEYS_OK"
    and "dyn_inv (snd (delete_dynamic_file (Dyn i) st))"
    and "dyn_slot (snd (delete_dynamic_file (Dyn i) st)) = (dyn_slot st)(k := None)"
proof -
  from slot have i: "live_at (dynamic_file st) i" "dkey (dynamic_file st ! i) = k"
    by (simp_all add: dyn_slot_Some [OF inv])
  let ?d = "(dynamic_file st ! i)\<lparr>df_data := None, df_fid := DYNAMIC_FID_DELETED\<rparr>"
  let ?st' = "st\<lparr>dynamic_file := (dynamic_file st)[i := ?d], dynamic_files := dynamic_files st - 1\<rparr>"
  have del: "delete_dynamic_file (Dyn i) st = (PICOKEYS_OK, ?st')"
    using i(1) by (simp add: delete_dynamic_file_def live_at_def fid_ok_def)
  have "dyn_inv ?st'" "dyn_slot ?st' = (dyn_slot st)(dkey (dynamic_file st ! i) := None)"
    by (rule dyn_inv_del [OF inv i(1), where d = ?d]; simp)+
  with del i(2) show "fst (delete_dynamic_file (Dyn i) st) = PICOKEYS_OK"
      "dyn_inv (snd (delete_dynamic_file (Dyn i) st))"
      "dyn_slot (snd (delete_dynamic_file (Dyn i) st)) = (dyn_slot st)(k := None)"
    by simp_all
qed

lemma clear_index_not_live: "\<not> live_at (dynamic_file (clear_index st)) i"
  by (simp add: live_at_def fid_ok_def clear_index_def index_consts)

lemma clear_index_dyn_inv: "dyn_inv (clear_index st)"
  using clear_index_not_live [of st] by (simp add: dyn_inv_def) (simp add: clear_index_def)

lemma clear_index_slots: "dyn_slot (clear_index st) k = None"
  by (simp add: dyn_slot_None clear_index_not_live)

section \<open>The interface of a FID index\<close>

text \<open>
  \<open>create\<close> and \<open>remove\<close> act on the set of names \<open>names\<close>; \<open>ok\<close> says which names the index may be
  asked for, \<open>room\<close> whether another name fits. The client lemmas describe any sequence of
  requests.
\<close>

text \<open>A request: create (True) or remove (False) a name; on an index, and on a bounded set of names.\<close>

definition request :: "('k \<Rightarrow> 's \<Rightarrow> 's) \<Rightarrow> ('k \<Rightarrow> 's \<Rightarrow> 's) \<Rightarrow> bool \<times> 'k \<Rightarrow> 's \<Rightarrow> 's" where
  "request cr rm r s = (if fst r then cr (snd r) s else rm (snd r) s)"

definition spec_request :: "nat \<Rightarrow> bool \<times> 'k \<Rightarrow> 'k set \<Rightarrow> 'k set" where
  "spec_request capacity r A =
     (if fst r then (if snd r \<in> A \<or> card A < capacity then insert (snd r) A else A) else A - {snd r})"

locale fid_index =
  fixes invar :: "'s \<Rightarrow> bool" and names :: "'s \<Rightarrow> 'k set" and ok :: "'s \<Rightarrow> 'k \<Rightarrow> bool"
    and capacity :: nat and create :: "'k \<Rightarrow> 's \<Rightarrow> 's" and remove :: "'k \<Rightarrow> 's \<Rightarrow> 's"
  assumes create_invar: "invar s \<Longrightarrow> ok s k \<Longrightarrow> invar (create k s)"
    and create_names: "invar s \<Longrightarrow> ok s k \<Longrightarrow>
      names (create k s) = (if k \<in> names s \<or> card (names s) < capacity then insert k (names s) else names s)"
    and create_ok: "invar s \<Longrightarrow> ok s k \<Longrightarrow> ok (create k s) = ok s"
    and remove_invar: "invar s \<Longrightarrow> ok s k \<Longrightarrow> invar (remove k s)"
    and remove_names: "invar s \<Longrightarrow> ok s k \<Longrightarrow> names (remove k s) = names s - {k}"
    and remove_ok: "invar s \<Longrightarrow> ok s k \<Longrightarrow> ok (remove k s) = ok s"
    and finite_names: "invar s \<Longrightarrow> finite (names s)"
begin

lemma request_step:
  "invar s \<Longrightarrow> ok s (snd r) \<Longrightarrow>
   invar (request create remove r s) \<and> names (request create remove r s) = spec_request capacity r (names s) \<and> ok (request create remove r s) = ok s"
  by (simp add: request_def spec_request_def create_invar create_names create_ok
      remove_invar remove_names remove_ok)

lemma requests_run:
  assumes "invar s" "\<forall>r \<in> set rs. ok s (snd r)"
  shows "invar (fold (request create remove) rs s) \<and> names (fold (request create remove) rs s) = fold (spec_request capacity) rs (names s)"
  using assms
proof (induction rs arbitrary: s)
  case Nil
  then show ?case by simp
next
  case (Cons r rs)
  from Cons.prems have st: "invar (request create remove r s)" "ok (request create remove r s) = ok s"
      "names (request create remove r s) = spec_request capacity r (names s)"
    using request_step [of s r] by simp_all
  with Cons.IH [OF st(1)] Cons.prems show ?case
    by simp
qed

lemma requests_capacity:
  assumes "invar s" "\<forall>r \<in> set rs. ok s (snd r)" "card (names s) \<le> capacity"
  shows "card (names (fold (request create remove) rs s)) \<le> capacity"
  using assms
proof (induction rs arbitrary: s)
  case Nil
  then show ?case by simp
next
  case (Cons r rs)
  have st: "invar (request create remove r s)" "ok (request create remove r s) = ok s"
      "names (request create remove r s) = spec_request capacity r (names s)"
    using request_step [of s r] Cons.prems by auto
  have fin: "finite (names s)" using Cons.prems finite_names by blast
  have "card (spec_request capacity r (names s)) \<le> capacity"
    using Cons.prems(3) fin card_Diff1_le [of "names s" "snd r"]
    by (auto simp: spec_request_def card_insert_if insert_absorb)
  with Cons.IH [OF st(1)] st Cons.prems show ?case
    by simp
qed

end

section \<open>The dynamic index provides the interface\<close>

text \<open>
  Within the active namespace: names are FIDs, creating is \<open>file_new\<close>, removing is a search
  followed by \<open>delete_dynamic_file\<close>, as \<open>file_delete_no_commit_parts\<close> does at the end.
\<close>

definition idx_names :: "file_index \<Rightarrow> (u16 \<times> u16) set" where
  "idx_names st = dom (dyn_slot st)"

definition idx_create :: "u16 \<times> u16 \<Rightarrow> file_index \<Rightarrow> file_index" where
  "idx_create k st = snd (file_new (snd k) st)"

definition idx_remove :: "u16 \<times> u16 \<Rightarrow> file_index \<Rightarrow> file_index" where
  "idx_remove k st =
     (case file_search st (snd k) of None \<Rightarrow> st | Some f \<Rightarrow> snd (delete_dynamic_file f st))"

definition idx_ok :: "file_index \<Rightarrow> u16 \<times> u16 \<Rightarrow> bool" where
  "idx_ok st k \<longleftrightarrow> fst k = active_namespace st \<and> dynamic_only st (snd k)"

lemma idx_names_card: "dyn_inv st \<Longrightarrow> finite (idx_names st) \<and> card (idx_names st) = dynamic_files st"
proof -
  assume inv: "dyn_inv st"
  have "idx_names st = (\<lambda>i. dkey (dynamic_file st ! i)) ` {i. live_at (dynamic_file st) i}"
    by (force simp: idx_names_def dom_def dyn_slot_Some [OF inv] intro: rev_image_eqI)
  moreover have "inj_on (\<lambda>i. dkey (dynamic_file st ! i)) {i. live_at (dynamic_file st) i}"
    using dyn_inv_unique [OF inv] by (auto intro!: inj_onI)
  ultimately show ?thesis
    using inv by (simp add: card_image dyn_inv_def)
qed

lemma idx_create_cases:
  assumes "dyn_inv st" "idx_ok st k"
  shows "dyn_inv (idx_create k st)" (is ?A)
    and "idx_names (idx_create k st) =
      (if k \<in> idx_names st \<or> card (idx_names st) < MAX_DYNAMIC_FILES then insert k (idx_names st)
       else idx_names st)" (is ?B)
    and "idx_ok (idx_create k st) = idx_ok st" (is ?C)
proof -
  have dyn: "dynamic_only st (snd k)" and k: "k = (active_namespace st, snd k)"
    using assms(2) by (auto simp: idx_ok_def prod_eq_iff)
  note card = idx_names_card [OF assms(1)]
  have same: "idx_create k st = st \<and> k \<in> idx_names st" if "dyn_slot st k = Some i" for i
    using file_new_existing [OF assms(1) dyn] that k by (auto simp: idx_create_def idx_names_def)
  have "?A \<and> ?B \<and> ?C"
  proof (cases "dyn_slot st k")
    case (Some i)
    with same [OF Some] assms(1) show ?thesis by (auto simp: insert_absorb)
  next
    case fresh: None
    show ?thesis
    proof (cases "dynamic_files st < MAX_DYNAMIC_FILES")
      case False
      with fresh k card assms(1) file_new_full [OF assms(1) dyn] show ?thesis
        by (auto simp: idx_create_def idx_names_def)
    next
      case True
      with fresh k obtain i where i: "file_new (snd k) st = (Some (Dyn i), st\<lparr>dynamic_file := (dynamic_file st)
          [i := \<lparr>df_data = None, df_fid = snd k, df_namespace_id = active_namespace st\<rparr>],
          dynamic_files := dynamic_files st + 1\<rparr>)" "dyn_inv (idx_create k st)"
          "dyn_slot (idx_create k st) = (dyn_slot st)(k \<mapsto> i)"
        by (metis file_new_fresh [OF assms(1) dyn] idx_create_def)
      then have same_ns: "namespaces (idx_create k st) = namespaces st"
          "active_namespace (idx_create k st) = active_namespace st"
        by (simp_all add: idx_create_def)
      have "idx_ok (idx_create k st) = idx_ok st"
        by (simp add: fun_eq_iff idx_ok_def dynamic_only_def same_ns search_by_fid_cong [OF same_ns])
      with i True card show ?thesis by (simp add: idx_names_def)
    qed
  qed
  then show ?A ?B ?C by blast+
qed

lemma idx_remove_cases:
  assumes "dyn_inv st" "idx_ok st k"
  shows "dyn_inv (idx_remove k st)" (is ?A)
    and "idx_names (idx_remove k st) = idx_names st - {k}" (is ?B)
    and "idx_ok (idx_remove k st) = idx_ok st" (is ?C)
proof -
  have dyn: "dynamic_only st (snd k)" and k: "k = (active_namespace st, snd k)"
    using assms(2) by (auto simp: idx_ok_def prod_eq_iff)
  have search: "file_search st (snd k) = map_option Dyn (dyn_slot st k)"
    using file_search_dynamic [OF assms(1) dyn] k by simp
  have "?A \<and> ?B \<and> ?C"
  proof (cases "dyn_slot st k")
    case None
    with search assms(1) show ?thesis by (auto simp: idx_remove_def idx_names_def)
  next
    case (Some i)
    note d = delete_dynamic_file_live [OF assms(1) Some]
    have rm: "idx_remove k st = snd (delete_dynamic_file (Dyn i) st)"
      using search Some by (simp add: idx_remove_def)
    have same_ns: "namespaces (idx_remove k st) = namespaces st"
        "active_namespace (idx_remove k st) = active_namespace st"
      by (simp_all add: rm delete_dynamic_file_def)
    have "idx_ok (idx_remove k st) = idx_ok st"
      by (simp add: fun_eq_iff idx_ok_def dynamic_only_def same_ns search_by_fid_cong [OF same_ns])
    with d rm show ?thesis by (simp add: idx_names_def)
  qed
  then show ?A ?B ?C by blast+
qed

interpretation dyn: fid_index dyn_inv idx_names idx_ok MAX_DYNAMIC_FILES idx_create idx_remove
  by unfold_locales
     (simp_all add: idx_create_cases idx_remove_cases idx_names_card)

section \<open>Properties\<close>

definition index_example :: file_index where
  "index_example = clear_index
     \<lparr>namespaces = [[], [], [], []], active_namespace = 1,
      sef_phy = \<lparr>fe_data = None, fe_fid = EF_PHY, fe_namespace_id = 0, fe_name = None, fe_acl = [0xff],
        fe_parent = 5, fe_type = 0x62, fe_ef_structure = 1\<rparr>,
      dynamic_file = [], dynamic_files = 0, currentEF = None, currentDF = None,
      selected_applet = None, isUserAuthenticated = False, card_terminated = False\<rparr>"

lemma index_example_ok:
  "dyn_inv index_example" "active_namespace index_example = 1" "dynamic_files index_example = 0"
  "dyn_slot index_example k = None" "fid \<noteq> EF_PHY \<Longrightarrow> fid_ok fid \<Longrightarrow> dynamic_only index_example fid"
  "idx_names index_example = {}"
  by (simp_all add: index_example_def clear_index_dyn_inv clear_index_slots idx_names_def dom_def)
     (simp_all add: clear_index_def dynamic_only_def file_search_by_fid_def active_entries_def)

text \<open>C27: the double-hashing search of a file that is not in the static tables answers what a linear
  scan of the dynamic table for its namespace and FID answers.\<close>

theorem dynamic_search_is_scan:
  assumes "dyn_inv st" "dynamic_only st fid"
  shows "file_search st fid = map_option Dyn (dyn_slot st (active_namespace st, fid))"
  by (rule file_search_dynamic [OF assms])

theorem dynamic_search_is_scan_witness: "file_search index_example 0xC100 = None"
  using dynamic_search_is_scan [OF index_example_ok(1) index_example_ok(5), of "0xC100"]
  by (simp add: index_example_ok(4) EF_PHY_def fid_ok_def index_consts)

text \<open>Creating a dynamic file that does not exist succeeds as long as fewer than 2048 exist, adds
  exactly its (namespace, FID) to the index with no data, and disturbs no other file.\<close>

theorem file_new_adds_one:
  assumes "dyn_inv st" "dynamic_only st fid" "dyn_slot st (active_namespace st, fid) = None"
    and "dynamic_files st < MAX_DYNAMIC_FILES"
  shows "\<exists>i. fst (file_new fid st) = Some (Dyn i) \<and> file_data (snd (file_new fid st)) (Dyn i) = None \<and>
           dyn_inv (snd (file_new fid st)) \<and>
           dyn_slot (snd (file_new fid st)) = (dyn_slot st)((active_namespace st, fid) \<mapsto> i)"
proof -
  have "length (dynamic_file st) = DYNAMIC_FILE_SLOTS"
    using assms(1) by (simp add: dyn_inv_def)
  then show ?thesis
    by (rule_tac file_new_fresh [OF assms]) auto
qed

theorem file_new_adds_one_witness:
  "\<exists>i. dyn_slot (snd (file_new 0xC100 index_example)) = [(1, 0xC100) \<mapsto> i]"
proof -
  have "dynamic_only index_example 0xC100"
    by (rule index_example_ok(5)) (simp_all add: EF_PHY_def fid_ok_def index_consts)
  from file_new_adds_one [OF index_example_ok(1) this index_example_ok(4)]
  obtain i where "dyn_slot (snd (file_new 0xC100 index_example)) =
      (dyn_slot index_example)((active_namespace index_example, 0xC100) \<mapsto> i)"
    by (auto simp: index_example_ok index_consts)
  moreover have "dyn_slot index_example = Map.empty"
    by (simp add: fun_eq_iff index_example_ok)
  ultimately show ?thesis by (auto simp: index_example_ok)
qed

text \<open>C26: any sequence of creations and deletions through the hash table leaves the index holding
  exactly the names that the same sequence leaves in a set of at most 2048 names.\<close>

theorem index_requests_refine_set:
  assumes "dyn_inv st" "\<forall>r \<in> set rs. idx_ok st (snd r)"
  shows "idx_names (fold (request idx_create idx_remove) rs st) = fold (spec_request MAX_DYNAMIC_FILES) rs (idx_names st)"
  using dyn.requests_run [OF assms] by blast

theorem index_requests_refine_set_witness:
  "idx_names (fold (request idx_create idx_remove) [(True, (1, 0xC100)), (False, (1, 0xC101))] index_example) = {(1, 0xC100)}"
proof -
  have "\<forall>r \<in> set [(True, (1, 0xC100)), (False, (1, 0xC101))]. idx_ok index_example (snd r)"
    by (auto simp: idx_ok_def index_example_ok EF_PHY_def fid_ok_def index_consts
             intro!: index_example_ok(5))
  from index_requests_refine_set [OF index_example_ok(1) this] show ?thesis
    by (simp add: spec_request_def index_example_ok MAX_DYNAMIC_FILES_def)
qed

text \<open>Deleting a dynamic file removes exactly it; the tombstone it leaves does not hide any file
  stored behind it on a probe path.\<close>

theorem delete_removes_one:
  assumes "dyn_inv st" "dyn_slot st k = Some i"
  shows "fst (delete_dynamic_file (Dyn i) st) = PICOKEYS_OK \<and>
         dyn_inv (snd (delete_dynamic_file (Dyn i) st)) \<and>
         dyn_slot (snd (delete_dynamic_file (Dyn i) st)) = (dyn_slot st)(k := None)"
  using delete_dynamic_file_live [OF assms] by blast

theorem delete_removes_one_witness:
  "\<exists>st i. dyn_slot st (1, 0xC100) = Some i \<and>
     dyn_slot (snd (delete_dynamic_file (Dyn i) st)) (1, 0xC100) = None"
proof -
  have d: "dynamic_only index_example 0xC100"
    by (rule index_example_ok(5)) (simp_all add: EF_PHY_def fid_ok_def index_consts)
  obtain i where i: "dyn_inv (snd (file_new 0xC100 index_example))"
      "dyn_slot (snd (file_new 0xC100 index_example)) (1, 0xC100) = Some i"
    by (rule file_new_fresh [OF index_example_ok(1) d index_example_ok(4)])
       (auto simp: index_example_ok index_consts)
  from delete_removes_one [OF i] i(2) show ?thesis
    by (metis fun_upd_same)
qed

text \<open>The reserved FID 0xffff is not refused: when the first slot of its probe path is a tombstone
  of the active namespace, searching or creating it hands out that deleted slot.\<close>

theorem reserved_fid_finds_tombstone:
  assumes "file_search_by_fid st 0xffff None 1 = None"
    and "df_fid (dynamic_file st ! dynamic_hash (active_namespace st) 0xffff) = DYNAMIC_FID_DELETED"
    and "df_namespace_id (dynamic_file st ! dynamic_hash (active_namespace st) 0xffff) = active_namespace st"
  shows "file_new 0xffff st = (Some (Dyn (dynamic_hash (active_namespace st) 0xffff)), st)"
proof -
  have "search_probe t ns 0xffff 2309 s = Some s"
    if "df_fid (t ! s) = 0xffff" "df_namespace_id (t ! s) = ns" for t ns s
  proof -
    have "(2309 :: nat) = Suc 2308" by simp
    then show ?thesis using that by (simp only: search_probe.simps) (simp add: index_consts)
  qed
  with assms show ?thesis
    by (simp add: file_new_def file_search_def search_dynamic_file_def index_consts)
qed

theorem reserved_fid_finds_tombstone_witness:
  "file_new 0xffff (index_example\<lparr>dynamic_file := (dynamic_file index_example)
       [332 := \<lparr>df_data = None, df_fid = 0xffff, df_namespace_id = 1\<rparr>]\<rparr>) =
   (Some (Dyn 332), index_example\<lparr>dynamic_file := (dynamic_file index_example)
       [332 := \<lparr>df_data = None, df_fid = 0xffff, df_namespace_id = 1\<rparr>]\<rparr>)"
proof -
  have h: "dynamic_hash 1 0xffff = 332"
    by (simp add: dynamic_hash_def index_consts)
  let ?st = "index_example\<lparr>dynamic_file := (dynamic_file index_example)
       [332 := \<lparr>df_data = None, df_fid = 0xffff, df_namespace_id = 1\<rparr>]\<rparr>"
  have l: "length (dynamic_file index_example) = 2309"
    by (simp add: index_example_def clear_index_def index_consts)
  have "file_search_by_fid ?st 0xffff None 1 = None"
    by (simp add: index_example_def clear_index_def file_search_by_fid_def active_entries_def EF_PHY_def)
  from reserved_fid_finds_tombstone [OF this] show ?thesis
    using l by (simp add: index_example_ok h index_consts)
qed

end
