(* ===== verification/Apps.thy ===== *)
theory Apps
  imports File_Index
begin

text \<open>
  The application registry of \<^verbatim>\<open>src/app_registry.c\<close> and the scoped registration of
  \<^verbatim>\<open>src/integration.c\<close>. Function pointers are values of a type \<open>'h\<close>; what a select or unload
  handler does to the system is given by the parameters \<open>run_select\<close> and \<open>run_unload\<close>. The rest
  of the device state those handlers work on is the field \<open>world\<close>.

  An AID is stored as the code stores it: a length byte, then the bytes.
\<close>

record 'h app_t =
  aid :: "byte list"
  process_apdu_fn :: "'h option"
  select_aid :: 'h
  unload :: "'h option"
  supports_secure_messaging :: bool
  file_namespace :: u16

record ('h, 'w) system =
  apps :: "'h app_t list"
  current_app :: "nat option"
  findex :: file_index
  world :: 'w

text \<open>The table of the device namespace 0; the last entry is the sentinel.\<close>

definition system_files :: "file_entry list" where
  "system_files =
     [\<lparr>fe_data = None, fe_fid = 0x3f00, fe_namespace_id = 0, fe_name = None, fe_acl = replicate 7 0,
       fe_parent = 0xff, fe_type = 0x04, fe_ef_structure = 0\<rparr>,
      \<lparr>fe_data = None, fe_fid = 0x1122, fe_namespace_id = 0, fe_name = None, fe_acl = replicate 7 0xff,
       fe_parent = 0, fe_type = 0x42, fe_ef_structure = 1\<rparr>,
      \<lparr>fe_data = None, fe_fid = 0, fe_namespace_id = 0, fe_name = None, fe_acl = replicate 7 0,
       fe_parent = 0xff, fe_type = 0, fe_ef_structure = 0\<rparr>]"

definition file_namespaces_init :: "file_index \<Rightarrow> file_index" where
  "file_namespaces_init st = file_namespace_select 0 (file_register_namespace 0 system_files st)"

definition aid_body :: "byte list \<Rightarrow> byte list" where
  "aid_body a = take (unat (a ! 0)) (drop 1 a)"

definition aid_matches :: "'h app_t \<Rightarrow> byte list \<Rightarrow> bool" where
  "aid_matches app req \<longleftrightarrow>
     unat (aid app ! 0) \<le> length req \<and> take (unat (aid app ! 0)) req = aid_body (aid app)"

definition app_exists :: "'h app_t list \<Rightarrow> byte list \<Rightarrow> bool" where
  "app_exists as req \<longleftrightarrow> list_ex (\<lambda>app. aid_matches app req) as"

definition register_app :: "'h \<Rightarrow> byte list \<Rightarrow> 'h app_t list \<Rightarrow> nat \<times> 'h app_t list" where
  "register_app sel a as =
     (if app_exists as (aid_body a) then (1, as)
      else if length as < 16 then
        (1, as @ [\<lparr>aid = a, process_apdu_fn = None, select_aid = sel, unload = None,
                   supports_secure_messaging = False, file_namespace = 0\<rparr>])
      else (0, as))"

definition register_scoped :: "'h \<Rightarrow> byte list \<Rightarrow> u16 \<Rightarrow> 'h app_t list \<Rightarrow> nat \<times> 'h app_t list" where
  "register_scoped sel a ns as =
     (let before = length as; (result, as') = register_app sel a as
      in (result, if length as' > before then as'[before := (as' ! before)\<lparr>file_namespace := ns\<rparr>] else as'))"

definition register_app_for_fido :: "'h \<Rightarrow> byte list \<Rightarrow> 'h app_t list \<Rightarrow> nat \<times> 'h app_t list" where
  "register_app_for_fido sel a = register_scoped sel a 1"

definition register_app_for_openpgp :: "'h \<Rightarrow> byte list \<Rightarrow> 'h app_t list \<Rightarrow> nat \<times> 'h app_t list" where
  "register_app_for_openpgp sel a = register_scoped sel a 2"

definition register_app_for_hsm :: "'h \<Rightarrow> byte list \<Rightarrow> 'h app_t list \<Rightarrow> nat \<times> 'h app_t list" where
  "register_app_for_hsm sel a = register_scoped sel a 3"

definition clear_selection :: "file_index \<Rightarrow> file_index" where
  "clear_selection st = st\<lparr>currentEF := None, currentDF := None, selected_applet := None,
     isUserAuthenticated := False, card_terminated := False\<rparr>"

definition app_index :: "'h app_t list \<Rightarrow> byte list \<Rightarrow> nat option" where
  "app_index as req = find (\<lambda>a. aid_matches (as ! a) req) [0 ..< length as]"

definition call_unload :: "('h \<Rightarrow> ('h, 'w) system \<Rightarrow> ('h, 'w) system) \<Rightarrow> nat option \<Rightarrow>
    ('h, 'w) system \<Rightarrow> ('h, 'w) system" where
  "call_unload run_unload a s =
     (case a of None \<Rightarrow> s
      | Some i \<Rightarrow> (case unload (apps s ! i) of None \<Rightarrow> s | Some h \<Rightarrow> run_unload h s))"

text \<open>What the newly selected application starts from: the previous one unloaded, the selection
  and the authentication state cleared, its own file namespace active.\<close>

definition switch_to :: "('h \<Rightarrow> ('h, 'w) system \<Rightarrow> ('h, 'w) system) \<Rightarrow> nat \<Rightarrow>
    ('h, 'w) system \<Rightarrow> ('h, 'w) system" where
  "switch_to run_unload a s =
     (let s1 = call_unload run_unload (current_app s) s;
          s2 = s1\<lparr>current_app := None, findex := clear_selection (findex s1)\<rparr>
      in s2\<lparr>findex := file_namespace_select (file_namespace (apps s2 ! a)) (findex s2)\<rparr>)"

definition select_app ::
    "('h \<Rightarrow> nat \<Rightarrow> bool \<Rightarrow> ('h, 'w) system \<Rightarrow> pk_status \<times> ('h, 'w) system) \<Rightarrow>
     ('h \<Rightarrow> ('h, 'w) system \<Rightarrow> ('h, 'w) system) \<Rightarrow>
     byte list option \<Rightarrow> ('h, 'w) system \<Rightarrow> pk_status \<times> ('h, 'w) system" where
  "select_app run_select run_unload req s =
     (if req = None \<or> req = Some [] then (PICOKEYS_ERR_FILE_NOT_FOUND, s)
      else case app_index (apps s) (the req) of
        None \<Rightarrow> (PICOKEYS_ERR_FILE_NOT_FOUND, s)
      | Some a \<Rightarrow>
          if current_app s = Some a then run_select (select_aid (apps s ! a)) a False s
          else
            let s3 = switch_to run_unload a s;
                (result, s4) = run_select (select_aid (apps s3 ! a)) a True s3
            in if result \<noteq> PICOKEYS_OK then
                 let s5 = call_unload run_unload (Some a) s4
                 in (result, s5\<lparr>findex := file_namespace_select 0 (clear_selection (findex s5))\<rparr>)
               else (PICOKEYS_OK, s4\<lparr>current_app := Some a\<rparr>))"

section \<open>Registration\<close>

text \<open>No application's AID is a prefix of the AID of one registered after it; at most 16.\<close>

definition registry_ok :: "'h app_t list \<Rightarrow> bool" where
  "registry_ok as \<longleftrightarrow>
     length as \<le> 16 \<and> (\<forall>app \<in> set as. unat (aid app ! 0) < length (aid app)) \<and>
     (\<forall>j < length as. \<forall>i < j. \<not> aid_matches (as ! i) (aid_body (aid (as ! j))))"

lemma registry_ok_Nil [simp]: "registry_ok []"
  by (simp add: registry_ok_def)

lemma register_app_ok:
  assumes "registry_ok as" "unat (a ! 0) < length a"
  shows "registry_ok (snd (register_app sel a as))"
  using assms
  by (auto simp: registry_ok_def register_app_def nth_append app_exists_def list_ex_iff less_Suc_eq
        all_set_conv_all_nth in_set_conv_nth)

lemma register_scoped_ok:
  assumes "registry_ok as" "unat (a ! 0) < length a"
  shows "registry_ok (snd (register_scoped sel a ns as))"
  using assms
  by (auto simp: registry_ok_def register_scoped_def register_app_def Let_def nth_append app_exists_def
        list_ex_iff less_Suc_eq all_set_conv_all_nth in_set_conv_nth aid_matches_def)

lemma aid_matches_self: "unat (aid app ! 0) < length (aid app) \<Longrightarrow> aid_matches app (aid_body (aid app))"
  by (auto simp: aid_matches_def aid_body_def min_def)

lemma app_index_own:
  assumes "registry_ok as" "j < length as"
  shows "app_index as (aid_body (aid (as ! j))) = Some j"
  using assms aid_matches_self [of "as ! j"]
  unfolding app_index_def find_Some_iff registry_ok_def
  by (intro exI [of _ j]) auto

text \<open>A registration: which family it is scoped to, the handler and the AID.\<close>

definition register_request :: "u16 \<times> 'h \<times> byte list \<Rightarrow> 'h app_t list \<Rightarrow> 'h app_t list" where
  "register_request r as = snd (register_scoped (fst (snd r)) (snd (snd r)) (fst r) as)"

lemma register_requests_ok:
  "registry_ok as \<Longrightarrow> \<forall>(ns, sel, a) \<in> set rs. unat (a ! 0) < length a \<Longrightarrow>
   registry_ok (fold register_request rs as)"
proof (induction rs arbitrary: as)
  case (Cons r rs)
  then show ?case
    by (cases r) (auto simp: register_request_def intro!: Cons.IH register_scoped_ok)
qed simp

section \<open>Properties\<close>

text \<open>However the applications are registered, selecting by the full AID of a registered
  application resolves to that application, never to another one.\<close>

theorem registered_app_resolves:
  assumes "\<forall>(ns, sel, a) \<in> set rs. unat (a ! 0) < length a"
    and "as = fold register_request rs []" and "j < length as"
  shows "app_index as (aid_body (aid (as ! j))) = Some j \<and> length as \<le> 16"
proof -
  have "registry_ok as"
    unfolding assms(2) by (rule register_requests_ok) (use assms(1) in simp_all)
  with app_index_own [OF this assms(3)] show ?thesis
    by (simp add: registry_ok_def)
qed

theorem registered_app_resolves_witness:
  "app_index (fold register_request [(1, 0 :: nat, [2, 0xA0, 1]), (2, 1, [1, 0xA0]), (3, 2, [2, 0xA0, 2])] [])
     [0xA0] = Some 1"
  using registered_app_resolves
    [of "[(1, 0 :: nat, [2, 0xA0, 1]), (2, 1, [1, 0xA0]), (3, 2, [2, 0xA0, 2])]" _ 1]
  by (simp add: register_request_def register_scoped_def register_app_def app_exists_def
      aid_matches_def aid_body_def)

text \<open>C31: switching to another application hands its select handler a system in which no
  application is current, nobody is authenticated, nothing is selected and its own file namespace
  is active; on success only the current application is set afterwards.\<close>

theorem switch_starts_clean:
  assumes "app_index (apps s) req = Some a" "req \<noteq> []" "current_app s \<noteq> Some a"
    and "\<And>h s. apps (run_unload h s) = apps s \<and> namespaces (findex (run_unload h s)) = namespaces (findex s)"
    and "unat (file_namespace (apps s ! a)) < 4"
        "namespaces (findex s) ! unat (file_namespace (apps s ! a)) \<noteq> []"
  shows "\<exists>s3. current_app s3 = None \<and> \<not> isUserAuthenticated (findex s3) \<and> selected_applet (findex s3) = None \<and>
          currentEF (findex s3) = None \<and> active_namespace (findex s3) = file_namespace (apps s ! a) \<and>
          (\<forall>s4. run_select (select_aid (apps s ! a)) a True s3 = (PICOKEYS_OK, s4) \<longrightarrow>
             select_app run_select run_unload (Some req) s = (PICOKEYS_OK, s4\<lparr>current_app := Some a\<rparr>))"
proof -
  let ?s1 = "call_unload run_unload (current_app s) s"
  let ?s3 = "switch_to run_unload a s"
  have s1: "apps ?s1 = apps s" "namespaces (findex ?s1) = namespaces (findex s)"
    using assms(4) by (auto simp: call_unload_def split: option.splits)
  have clean: "current_app ?s3 = None" "\<not> isUserAuthenticated (findex ?s3)"
      "selected_applet (findex ?s3) = None" "currentEF (findex ?s3) = None" "apps ?s3 = apps s"
      "active_namespace (findex ?s3) = file_namespace (apps s ! a)"
    using s1 assms(5,6)
    by (simp_all add: switch_to_def Let_def clear_selection_def file_namespace_select_def index_consts)
  have "select_app run_select run_unload (Some req) s = (PICOKEYS_OK, s4\<lparr>current_app := Some a\<rparr>)"
    if "run_select (select_aid (apps s ! a)) a True ?s3 = (PICOKEYS_OK, s4)" for s4
    using that assms(1-3) clean by (simp add: select_app_def)
  with clean show ?thesis by blast
qed

definition app_example :: "(nat, unit) system" where
  "app_example = \<lparr>apps = fold register_request [(1, 0, [1, 0xA0]), (2, 1, [1, 0xB0])] [], current_app = Some 0,
     findex = \<lparr>namespaces = replicate 4 system_files, active_namespace = 1, sef_phy = system_files ! 0,
       dynamic_file = [], dynamic_files = 0, currentEF = Some Phy, currentDF = None, selected_applet = None,
       isUserAuthenticated = True, card_terminated = False\<rparr>, world = ()\<rparr>"

lemma app_example_apps:
  "apps app_example =
     [\<lparr>aid = [1, 0xA0], process_apdu_fn = None, select_aid = 0, unload = None,
       supports_secure_messaging = False, file_namespace = 1\<rparr>,
      \<lparr>aid = [1, 0xB0], process_apdu_fn = None, select_aid = 1, unload = None,
       supports_secure_messaging = False, file_namespace = 2\<rparr>]"
  by (simp add: app_example_def register_request_def register_scoped_def register_app_def app_exists_def
      aid_matches_def aid_body_def)

theorem switch_starts_clean_witness:
  "\<exists>s. select_app (\<lambda>h a force s. (PICOKEYS_OK, s)) (\<lambda>h s. s) (Some [0xB0]) app_example = (PICOKEYS_OK, s) \<and>
     current_app s = Some 1 \<and> \<not> isUserAuthenticated (findex s) \<and> active_namespace (findex s) = 2"
proof -
  have idx: "app_index (apps app_example) [0xB0] = Some 1"
    unfolding app_example_apps by (simp add: app_index_def aid_matches_def aid_body_def)
  have f: "current_app app_example = Some 0" "namespaces (findex app_example) = replicate 4 system_files"
    by (simp_all add: app_example_def)
  from switch_starts_clean [OF idx, of "\<lambda>h s. s" "\<lambda>h a force s. (PICOKEYS_OK, s)"] show ?thesis
    by (auto simp: f app_example_apps system_files_def)
qed

text \<open>When the select handler of another application refuses, the failure is reported and the
  card is left with nobody authenticated and nothing selected.\<close>

theorem failed_select_is_clean:
  assumes "app_index (apps s) req = Some a" "req \<noteq> []" "current_app s \<noteq> Some a"
    and "fst (select_app run_select run_unload (Some req) s) \<noteq> PICOKEYS_OK"
  shows "\<not> isUserAuthenticated (findex (snd (select_app run_select run_unload (Some req) s))) \<and>
         selected_applet (findex (snd (select_app run_select run_unload (Some req) s))) = None \<and>
         currentEF (findex (snd (select_app run_select run_unload (Some req) s))) = None"
  using assms
  by (auto simp: select_app_def clear_selection_def file_namespace_select_def Let_def
           split: prod.splits if_splits)

theorem failed_select_is_clean_witness:
  "\<not> isUserAuthenticated (findex (snd (select_app (\<lambda>h a force s. (PICOKEYS_EXEC_ERROR, s)) (\<lambda>h s. s)
      (Some [0xB0]) app_example)))"
proof -
  have idx: "app_index (apps app_example) [0xB0] = Some 1"
    unfolding app_example_apps by (simp add: app_index_def aid_matches_def aid_body_def)
  have c: "current_app app_example \<noteq> Some 1"
    by (simp add: app_example_def)
  have "fst (select_app (\<lambda>h a force s. (PICOKEYS_EXEC_ERROR, s)) (\<lambda>h s. s) (Some [0xB0]) app_example)
      \<noteq> PICOKEYS_OK"
    using idx c by (simp add: select_app_def Let_def)
  from failed_select_is_clean [OF idx _ c this] show ?thesis by simp
qed

end
