(* ===== verification/Apdu.thy ===== *)
theory Apdu
  imports Apps
begin

text \<open>
  The APDU layer of \<^verbatim>\<open>pico-keys-sdk/src/apdu.c\<close>: parsing of a command frame, command chaining,
  dispatch to the selected application, and response chaining with GET RESPONSE.

  \<open>apdu_state\<close> holds the globals of the file: the parsed command (\<open>data\<close> is the memory at
  \<open>apdu.data\<close>, of which the first \<open>nc\<close> bytes are the command data), the response area \<open>rdata\<close>
  with \<open>rlen\<close> bytes of response, the response cursor \<open>rdata_gr\<close> (an offset into \<open>rdata\<close>) with
  the two bytes it saved, and the chaining buffer. \<open>sent\<close> collects the frames handed to the USB
  driver by the GET RESPONSE path. \<open>world\<close> of the application system is this state together
  with whatever else the applications keep. The LED calls are not modelled.
\<close>

record apdu_state =
  header :: "byte list"
  nc :: nat
  ne :: nat
  data :: "byte list"
  sw :: u16
  rdata :: "byte list"
  rlen :: nat
  rdata_gr :: "nat option"
  rdata_bk :: u16
  response_pending :: bool
  is_chaining :: bool
  chain_buf :: "byte list"
  chain_ptr :: "nat option"
  chain_header :: "byte list"
  sent :: "byte list list"

definition CLA :: "apdu_state \<Rightarrow> byte" where "CLA s = header s ! 0"
definition INS :: "apdu_state \<Rightarrow> byte" where "INS s = header s ! 1"
definition P1 :: "apdu_state \<Rightarrow> byte" where "P1 s = header s ! 2"
definition P2 :: "apdu_state \<Rightarrow> byte" where "P2 s = header s ! 3"

definition set_res_sw :: "byte \<Rightarrow> byte \<Rightarrow> apdu_state \<Rightarrow> u16 \<times> apdu_state" where
  "set_res_sw sw1 sw2 s =
     (make_uint16_be sw1 sw2,
      s\<lparr>sw := make_uint16_be sw1 sw2,
        rlen := (if sw1 \<noteq> 0x90 \<and> sw1 \<noteq> 0x61 then 0 else rlen s)\<rparr>)"

section \<open>Command parsing\<close>

text \<open>\<open>apdu_parse\<close> is the first half of \<open>apdu_process\<close>; False when it returns early.\<close>

definition le_short :: "byte \<Rightarrow> nat" where
  "le_short b = (if b = 0 then 256 else unat b)"

definition le_extended :: "u16 \<Rightarrow> nat" where
  "le_extended w = (if w = 0 then 65536 else unat w)"

definition apdu_parse :: "byte list \<Rightarrow> apdu_state \<Rightarrow> bool \<times> apdu_state" where
  "apdu_parse buffer s0 =
     (if length buffer < 4 \<or> 65535 < length buffer then (False, s0)
      else let s = s0\<lparr>header := buffer, nc := 0, ne := 0\<rparr>; size = length buffer in
        if size = 4 then (True, s\<lparr>ne := 256\<rparr>)
        else if size = 5 then (True, s\<lparr>ne := le_short (buffer ! 4)\<rparr>)
        else if buffer ! 4 = 0 \<and> 7 \<le> size then
          (if size = 7 then (True, s\<lparr>ne := le_extended (get_uint16_be (drop 5 buffer))\<rparr>)
           else let n = unat (get_uint16_be (drop 5 buffer)); expected_size = n + 7;
                    s1 = s\<lparr>nc := n, data := drop 7 buffer\<rparr>
             in if size \<noteq> expected_size \<and> size \<noteq> expected_size + 2 then (False, s1)
                else if size = expected_size + 2 then
                  (True, s1\<lparr>ne := le_extended (get_uint16_be (drop (size - 2) buffer))\<rparr>)
                else (True, s1))
        else let n = unat (buffer ! 4); expected_size = n + 5;
                 s1 = s\<lparr>nc := n, data := drop 5 buffer\<rparr>
          in if size \<noteq> expected_size \<and> size \<noteq> expected_size + 1 then (False, s1)
             else if size = expected_size + 1 then (True, s1\<lparr>ne := le_short (buffer ! (size - 1))\<rparr>)
             else (True, s1))"

section \<open>Response chaining\<close>

definition apdu_finish :: "apdu_state \<Rightarrow> apdu_state" where
  "apdu_finish s = s\<lparr>rdata := overwrite (rlen s) (put_uint16_be (sw s)) (rdata s)\<rparr>"

text \<open>
  The code that stops a response after \<open>n\<close> bytes, at offset \<open>gr\<close>: save the two bytes there, put
  61xx over them, and leave the rest pending. It occurs three times in the file.
\<close>

definition hold_back :: "nat \<Rightarrow> nat \<Rightarrow> apdu_state \<Rightarrow> apdu_state" where
  "hold_back gr n s =
     s\<lparr>rdata_gr := Some gr,
       rdata_bk := make_uint16_be (rdata s ! gr) (rdata s ! (gr + 1)),
       rdata := overwrite gr [0x61, if 256 \<le> rlen s - n then 0 else of_nat (rlen s - n)] (rdata s),
       rlen := rlen s - n, response_pending := True\<rparr>"

definition apdu_next :: "apdu_state \<Rightarrow> nat \<times> apdu_state" where
  "apdu_next s =
     (if sw s \<noteq> 0 then
        (if rlen s \<le> ne s then ((rlen s + 2) mod 65536, s\<lparr>response_pending := False\<rparr>)
         else ((ne s + 2) mod 65536, hold_back (ne s) (ne s) s))
      else (0, s\<lparr>response_pending := False\<rparr>))"

definition apdu_limit_response :: "nat \<Rightarrow> nat \<Rightarrow> apdu_state \<Rightarrow> nat \<times> apdu_state" where
  "apdu_limit_response size_next max_size s =
     (if sw s = 0 \<or> max_size < 2 \<or> size_next \<le> max_size then (size_next, s)
      else if rlen s \<le> max_size - 2 then (size_next, s)
      else (max_size, hold_back (max_size - 2) (max_size - 2) s))"

definition restore_saved :: "nat \<Rightarrow> apdu_state \<Rightarrow> apdu_state" where
  "restore_saved gr s = s\<lparr>rdata := overwrite gr (put_uint16_be (rdata_bk s)) (rdata s)\<rparr>"

definition get_response :: "apdu_state \<Rightarrow> nat \<times> apdu_state" where
  "get_response s =
     (case (response_pending s, rdata_gr s) of
        (True, Some gr) \<Rightarrow>
          let s1 = restore_saved gr s in
          if rlen s \<le> ne s then
            (0, s1\<lparr>sent := sent s @ [bslice gr (rlen s + 2) (rdata s1)],
                   sw := 0, rlen := 0, rdata_gr := Some 0, response_pending := False\<rparr>)
          else
            let s2 = hold_back (gr + ne s) (ne s) s1
            in (0, s2\<lparr>sent := sent s @ [bslice gr (ne s + 2) (rdata s2)]\<rparr>)
      | _ \<Rightarrow> (1, s\<lparr>rdata_gr := Some 0\<rparr>))"

text \<open>The result 1 tells the transport that a command is ready to be executed.\<close>

definition apdu_process :: "byte list \<Rightarrow> apdu_state \<Rightarrow> nat \<times> apdu_state" where
  "apdu_process buffer s0 =
     (case apdu_parse buffer s0 of
        (False, s) \<Rightarrow> (0, s)
      | (True, s) \<Rightarrow>
          if header s ! 1 = 0xc0 then get_response s
          else (1, s\<lparr>sw := 0, rlen := 0, rdata_gr := Some 0, response_pending := False\<rparr>))"

section \<open>Command chaining and dispatch\<close>

definition CHAIN_BUF_SIZE :: nat where "CHAIN_BUF_SIZE = 2038"

definition is_select_cmd :: "apdu_state \<Rightarrow> bool" where
  "is_select_cmd s \<longleftrightarrow> INS s = 0xA4 \<and> P1 s = 0x04 \<and> (P2 s = 0x00 \<or> P2 s = 0x04)"

definition base_header :: "apdu_state \<Rightarrow> byte list" where
  "base_header s = [CLA s AND NOT 0x10, INS s, P1 s, P2 s]"

definition clear_chain :: "apdu_state \<Rightarrow> apdu_state" where
  "clear_chain s = s\<lparr>chain_buf := replicate CHAIN_BUF_SIZE 0, chain_ptr := None, is_chaining := False\<rparr>"

definition chain_used :: "apdu_state \<Rightarrow> nat" where
  "chain_used s = (case chain_ptr s of None \<Rightarrow> 0 | Some p \<Rightarrow> p)"

text \<open>\<open>Some\<close>: the status word \<open>process_apdu\<close> returns early with; \<open>None\<close>: go on to dispatch.\<close>

definition chain_step :: "apdu_state \<Rightarrow> u16 option \<times> apdu_state" where
  "chain_step s =
     (if CLA s AND 0x10 \<noteq> 0 then
        let s1 = (if \<not> is_chaining s then s\<lparr>chain_ptr := Some 0, chain_header := base_header s\<rparr> else s)
        in if is_chaining s \<and> base_header s \<noteq> chain_header s then
             apfst Some (set_res_sw 0x68 0x83 (clear_chain s))
           else if CHAIN_BUF_SIZE \<le> chain_used s1 + nc s1 then
             apfst Some (set_res_sw 0x67 0x00 (clear_chain s1))
           else
             apfst Some (set_res_sw 0x90 0x00
               (s1\<lparr>chain_buf := overwrite (chain_used s1) (take (nc s1) (data s1)) (chain_buf s1),
                   chain_ptr := Some (chain_used s1 + nc s1), is_chaining := True\<rparr>))
      else if is_chaining s then
        if is_select_cmd s then (None, clear_chain s)
        else if base_header s \<noteq> chain_header s then apfst Some (set_res_sw 0x68 0x83 (clear_chain s))
        else if CHAIN_BUF_SIZE \<le> chain_used s + nc s then apfst Some (set_res_sw 0x67 0x00 (clear_chain s))
        else (None, clear_chain (s\<lparr>data := take (chain_used s) (chain_buf s) @ take (nc s) (data s),
                                   nc := nc s + chain_used s\<rparr>))
      else (None, s))"

type_synonym ('h, 'w) card = "('h, apdu_state \<times> 'w) system"

definition reply :: "u16 \<times> apdu_state \<Rightarrow> ('h, 'w) card \<Rightarrow> u16 \<times> ('h, 'w) card" where
  "reply r s = (fst r, s\<lparr>world := (snd r, snd (world s))\<rparr>)"

definition process_apdu ::
    "('h \<Rightarrow> nat \<Rightarrow> bool \<Rightarrow> ('h, 'w) card \<Rightarrow> pk_status \<times> ('h, 'w) card) \<Rightarrow>
     ('h \<Rightarrow> ('h, 'w) card \<Rightarrow> ('h, 'w) card) \<Rightarrow> ('h \<Rightarrow> ('h, 'w) card \<Rightarrow> u16 \<times> ('h, 'w) card) \<Rightarrow>
     ('h, 'w) card \<Rightarrow> u16 \<times> ('h, 'w) card" where
  "process_apdu run_select run_unload run_process c0 =
     (let (early, a) = chain_step (fst (world c0)); c = c0\<lparr>world := (a, snd (world c0))\<rparr> in
      case early of
        Some w \<Rightarrow> (w, c)
      | None \<Rightarrow>
          if CLA a AND 0x0C \<noteq> 0 \<and>
             (case current_app c of None \<Rightarrow> True
              | Some i \<Rightarrow> \<not> supports_secure_messaging (apps c ! i)) then
            reply (set_res_sw 0x6E 0x00 a) c
          else if is_select_cmd a then
            (case select_app run_select run_unload (Some (take (nc a) (data a))) c of
               (r, c') \<Rightarrow>
                 if r = PICOKEYS_OK then reply (set_res_sw 0x90 0x00 (fst (world c'))) c'
                 else reply (set_res_sw 0x6A 0x82 (fst (world c'))) c')
          else
            (case current_app c of
               None \<Rightarrow> reply (set_res_sw 0x6A 0x82 a) c
             | Some i \<Rightarrow>
                 (case process_apdu_fn (apps c ! i) of
                    None \<Rightarrow> reply (set_res_sw 0x6A 0x82 a) c
                  | Some h \<Rightarrow> run_process h c)))"

section \<open>Response chaining delivers the response\<close>

text \<open>\<open>pending_is s X\<close>: \<open>X\<close> (the bytes not yet sent and the status word) is what is still to go out.\<close>

definition pending_is :: "apdu_state \<Rightarrow> byte list \<Rightarrow> bool" where
  "pending_is s X \<longleftrightarrow>
     response_pending s \<and>
     (case rdata_gr s of None \<Rightarrow> False
      | Some gr \<Rightarrow> gr + rlen s + 2 \<le> length (rdata s) \<and> length X = rlen s + 2 \<and>
          bslice gr (rlen s + 2) (overwrite gr (put_uint16_be (rdata_bk s)) (rdata s)) = X)"

lemma pending_is_sent [simp]: "pending_is (s\<lparr>sent := f\<rparr>) X = pending_is s X"
  by (simp add: pending_is_def cong: option.case_cong)

lemma overwrite_restore:
  "gr + 2 \<le> length r \<Longrightarrow>
   overwrite gr (put_uint16_be (make_uint16_be (r ! gr) (r ! (gr + 1)))) (overwrite gr [a, b] r) = r"
proof (rule nth_equalityI)
  assume len: "gr + 2 \<le> length r"
  show "length (overwrite gr (put_uint16_be (make_uint16_be (r ! gr) (r ! (gr + 1)))) (overwrite gr [a, b] r))
      = length r"
    using len by simp
  fix i assume i: "i < length (overwrite gr (put_uint16_be (make_uint16_be (r ! gr) (r ! (gr + 1))))
      (overwrite gr [a, b] r))"
  show "overwrite gr (put_uint16_be (make_uint16_be (r ! gr) (r ! (gr + 1)))) (overwrite gr [a, b] r) ! i = r ! i"
  proof (cases "i < gr \<or> gr + 2 \<le> i")
    case True
    with i len show ?thesis by (auto simp: be_simps nth_overwrite)
  next
    case False
    then have "i = gr \<or> i = gr + 1" by auto
    with i len show ?thesis by (auto simp: be_simps nth_overwrite)
  qed
qed

lemma hold_back_pending:
  assumes "n < rlen s" "gr + rlen s - n + 2 \<le> length (rdata s)" "X = bslice gr (rlen s - n + 2) (rdata s)"
  shows "pending_is (hold_back gr n s) X"
  using assms overwrite_restore [of gr "rdata s"]
  by (simp add: pending_is_def hold_back_def)

lemma get_response_final:
  assumes "pending_is s X" "rlen s \<le> ne s"
  shows "\<exists>s'. get_response s = (0, s') \<and> sent s' = sent s @ [X] \<and> \<not> response_pending s'"
  using assms
  by (auto simp: pending_is_def get_response_def restore_saved_def Let_def split: option.splits)

lemma get_response_more:
  assumes "pending_is s X" "ne s < rlen s" "0 < ne s"
  shows "\<exists>s' t. get_response s = (0, s') \<and> sent s' = sent s @ [take (ne s) X @ t] \<and> length t = 2 \<and>
           hd t = 0x61 \<and> pending_is s' (drop (ne s) X) \<and> rlen s' = rlen s - ne s"
proof -
  from assms(1) obtain gr where gr: "response_pending s" "rdata_gr s = Some gr"
      "gr + rlen s + 2 \<le> length (rdata s)" "length X = rlen s + 2"
      "bslice gr (rlen s + 2) (overwrite gr (put_uint16_be (rdata_bk s)) (rdata s)) = X"
    by (auto simp: pending_is_def split: option.splits)
  let ?s1 = "restore_saved gr s"
  let ?s2 = "hold_back (gr + ne s) (ne s) ?s1"
  let ?t = "[0x61, if 256 \<le> rlen s - ne s then 0 else of_nat (rlen s - ne s)]"
  have s1: "rlen ?s1 = rlen s" "length (rdata ?s1) = length (rdata s)" "bslice gr (rlen s + 2) (rdata ?s1) = X"
    using gr by (simp_all add: restore_saved_def)
  have "bslice (gr + ne s) (rlen s - ne s + 2) (rdata ?s1) = drop (ne s) X"
    using assms(2) unfolding s1(3) [symmetric]
    by (simp add: bslice_def drop_take add.commute Suc_diff_le less_imp_le)
  then have p: "pending_is ?s2 (drop (ne s) X)"
    using assms(2) gr(3) s1 by (intro hold_back_pending) (auto simp: restore_saved_def)
  have "bslice gr (ne s + 2) (rdata ?s2) = bslice gr (ne s) (rdata ?s1) @ ?t"
    using assms(2) gr(3) s1(2)
    by (simp add: hold_back_def s1(1) bslice_def overwrite_def min_def add.commute)
       (simp add: take_drop add.commute)
  also have "bslice gr (ne s) (rdata ?s1) = take (ne s) X"
    using assms(2) unfolding s1(3) [symmetric] by (simp add: bslice_def min_def)
  finally have f: "bslice gr (ne s + 2) (rdata ?s2) = take (ne s) X @ ?t" .
  have "get_response s = (0, ?s2\<lparr>sent := sent s @ [bslice gr (ne s + 2) (rdata ?s2)]\<rparr>)"
    using gr assms(2) by (simp add: get_response_def Let_def)
  then show ?thesis
    using p f by (auto simp: hold_back_def s1(1))
qed

text \<open>A host that keeps sending GET RESPONSE with the given Le bytes.\<close>

definition get_response_cmd :: "byte \<Rightarrow> byte list" where
  "get_response_cmd le = [0x00, 0xC0, 0x00, 0x00, le]"

fun get_responses :: "byte list \<Rightarrow> apdu_state \<Rightarrow> apdu_state" where
  "get_responses [] s = s"
| "get_responses (le # les) s =
     (if response_pending s then get_responses les (snd (apdu_process (get_response_cmd le) s)) else s)"

definition payload :: "byte list \<Rightarrow> byte list" where
  "payload f = take (length f - 2) f"

definition trailer :: "byte list \<Rightarrow> byte list" where
  "trailer f = drop (length f - 2) f"

text \<open>What the host has received so far, the frames' payloads in order.\<close>

definition received :: "byte list list \<Rightarrow> byte list" where
  "received fs = concat (map payload fs)"

lemma received_snoc [simp]: "received (fs @ [f]) = received fs @ payload f"
  by (simp add: received_def)

lemma pending_is_fields:
  "response_pending s' = response_pending s \<Longrightarrow> rdata_gr s' = rdata_gr s \<Longrightarrow> rlen s' = rlen s \<Longrightarrow>
   rdata_bk s' = rdata_bk s \<Longrightarrow> rdata s' = rdata s \<Longrightarrow> pending_is s' X = pending_is s X"
  by (simp add: pending_is_def cong: option.case_cong)

lemma apdu_process_get_response:
  "apdu_process (get_response_cmd le) s =
     get_response (s\<lparr>header := get_response_cmd le, nc := 0, ne := le_short le\<rparr>)"
  by (simp add: apdu_process_def apdu_parse_def get_response_cmd_def Let_def)

lemma le_short_pos [simp]: "0 < le_short le"
  by (simp add: le_short_def unat_gt_0)

text \<open>\<open>delivers s X fs\<close>: after the frames \<open>fs\<close>, what remains of the message \<open>X\<close> (response data and
  status word) is pending, or all of it has been delivered and the last frame ends in its status word.\<close>

definition delivers :: "byte list \<Rightarrow> byte list list \<Rightarrow> apdu_state \<Rightarrow> bool" where
  "delivers X fs s \<longleftrightarrow>
     (if response_pending s then pending_is s (drop (length (received fs)) X) \<and>
        received fs = take (length (received fs)) (payload X)
      else received fs = payload X \<and> fs \<noteq> [] \<and> trailer (last fs) = trailer X)"

lemma payload_append: "length t = 2 \<Longrightarrow> payload (u @ t) = u"
  by (simp add: payload_def)

lemma payload_drop: "payload (drop r X) = drop r (payload X)"
  by (simp add: payload_def drop_take diff_diff_left add.commute)

lemma take_drop_payload: "n + r + 2 \<le> length X \<Longrightarrow> take n (drop r X) = take n (drop r (payload X))"
  by (simp add: payload_def drop_take)

lemma trailer_drop: "r + 2 \<le> length X \<Longrightarrow> trailer (drop r X) = trailer X"
  by (simp add: trailer_def)

lemma delivers_step:
  assumes "delivers X (fs @ sent s) s" "response_pending s" "2 \<le> length X"
    and "s' = snd (apdu_process (get_response_cmd le) s)"
  shows "delivers X (fs @ sent s') s'"
    and "response_pending s' \<Longrightarrow> rlen s' < rlen s"
proof -
  let ?R = "received (fs @ sent s)"
  let ?Y = "drop (length ?R) X"
  let ?s0 = "s\<lparr>header := get_response_cmd le, nc := 0, ne := le_short le\<rparr>"
  from assms(1,2) have p: "pending_is ?s0 ?Y" and R: "?R = take (length ?R) (payload X)"
    using pending_is_fields [of ?s0 s] by (simp_all add: delivers_def)
  have s': "s' = snd (get_response ?s0)"
    using assms(4) by (simp add: apdu_process_get_response)
  have Y: "length ?Y = rlen s + 2"
    using p by (auto simp: pending_is_def split: option.splits)
  then have X: "length X = length ?R + rlen s + 2"
    by (auto)
  have "delivers X (fs @ sent s') s' \<and> (response_pending s' \<longrightarrow> rlen s' < rlen s)"
  proof (cases "rlen s \<le> le_short le")
    case True
    with get_response_final [OF p] s' have n: "sent s' = sent s @ [?Y]" "\<not> response_pending s'"
      by auto
    have "?R @ payload ?Y = payload X"
      unfolding payload_drop by (subst R) (rule append_take_drop_id)
    moreover have "trailer ?Y = trailer X"
      using X by (intro trailer_drop) simp
    ultimately have "delivers X ((fs @ sent s) @ [?Y]) s'"
      using n(2) unfolding delivers_def received_snoc by simp
    with n show ?thesis by simp
  next
    case False
    then have lt: "ne ?s0 < rlen ?s0" by simp
    from get_response_more [OF p lt] s' obtain t where
      n: "sent s' = sent s @ [take (le_short le) ?Y @ t]" "length t = 2"
         "pending_is s' (drop (le_short le) ?Y)" "rlen s' = rlen s - le_short le"
      by auto
    have pl: "payload (take (le_short le) ?Y @ t) = take (le_short le) ?Y"
      using n(2) by (simp only: payload_append)
    let ?R' = "?R @ take (le_short le) ?Y"
    have len: "length ?R' = length ?R + le_short le"
      using False Y by simp
    have "take (le_short le) ?Y = take (le_short le) (drop (length ?R) (payload X))"
      using X False by (intro take_drop_payload) simp
    then have "?R' = take (length ?R) (payload X) @ take (le_short le) (drop (length ?R) (payload X))"
      using R by simp
    also have "\<dots> = take (length ?R') (payload X)"
      unfolding len by (rule take_add [symmetric])
    finally have R': "?R' = take (length ?R') (payload X)" .
    have dr: "drop (length ?R') X = drop (le_short le) ?Y"
      unfolding len drop_drop by (simp only: add.commute)
    have rp: "response_pending s'"
      using n(3) by (simp add: pending_is_def)
    have "delivers X ((fs @ sent s) @ [take (le_short le) ?Y @ t]) s'"
      unfolding delivers_def received_snoc pl if_P [OF rp] dr using n(3) R' by (intro conjI)
    moreover have "rlen s' < rlen s"
      using n(4) False by simp
    ultimately show ?thesis
      using n(1) by simp
  qed
  then show "delivers X (fs @ sent s') s'" "response_pending s' \<Longrightarrow> rlen s' < rlen s"
    by blast+
qed

lemma get_responses_delivers:
  assumes "delivers X (fs @ sent s) s" "2 \<le> length X"
  shows "delivers X (fs @ sent (get_responses les s)) (get_responses les s) \<and>
         (rlen s < length les \<longrightarrow> \<not> response_pending (get_responses les s))"
  using assms(1)
proof (induction les arbitrary: s)
  case Nil
  then show ?case by simp
next
  case (Cons le les)
  show ?case
  proof (cases "response_pending s")
    case False
    with Cons.prems show ?thesis by simp
  next
    case True
    note st = delivers_step [OF Cons.prems True assms(2) refl, of le]
    from Cons.IH [OF st(1)] True st(2) show ?thesis
      by (cases les) auto
  qed
qed

text \<open>The whole message after \<open>apdu_finish\<close>: response data, then the status word.\<close>

definition message :: "apdu_state \<Rightarrow> byte list" where
  "message s = take (rlen s) (rdata s) @ put_uint16_be (sw s)"

lemma message_finish:
  assumes "rlen s + 2 \<le> length (rdata s)"
  shows "bslice 0 (rlen s + 2) (rdata (apdu_finish s)) = message s"
  using assms by (simp add: apdu_finish_def message_def bslice_def overwrite_def min_def)

lemma payload_message: "payload (message s) = take (rlen s) (rdata s)"
  by (simp add: message_def payload_append)

lemma trailer_message: "trailer (message s) = put_uint16_be (sw s)"
  by (simp add: message_def trailer_def)

lemma hold_back_delivers:
  assumes "n < rlen s" "rlen s + 2 \<le> length (rdata s)" "X = bslice 0 (rlen s + 2) (rdata s)"
  shows "delivers X [take (n + 2) (rdata (hold_back n n s))] (hold_back n n s)"
proof -
  let ?t = "[0x61, if 256 \<le> rlen s - n then 0 else of_nat (rlen s - n)] :: byte list"
  have f: "take (n + 2) (rdata (hold_back n n s)) = take n X @ ?t"
    using assms by (simp add: hold_back_def overwrite_def bslice_def min_def)
  have p: "pending_is (hold_back n n s) (drop n X)"
    using assms
    by (intro hold_back_pending) (simp_all add: bslice_def drop_take Suc_diff_le less_imp_le)
  have n: "length (take n X) = n" "n + 0 + 2 \<le> length X"
    using assms by simp_all
  then have "take n X = take n (payload X)"
    using take_drop_payload [of n 0 X] by simp
  then show ?thesis
    unfolding f delivers_def received_def
    using p n by (simp add: payload_append hold_back_def)
qed

lemma direct_delivers:
  assumes "X = bslice 0 (rlen s + 2) (rdata s)" "\<not> response_pending s"
  shows "delivers X [take (rlen s + 2) (rdata s)] s"
  using assms by (simp add: delivers_def received_def bslice_def)

lemma apdu_next_delivers:
  assumes "rlen s + 2 \<le> length (rdata s)" "sw s \<noteq> 0" "rlen s < 65534"
    and "apdu_next (apdu_finish s) = (n, s2)"
  shows "delivers (message s) [take n (rdata s2)] s2" "rlen s2 \<le> rlen s" "sent s2 = sent s"
proof -
  let ?f = "apdu_finish s"
  have f: "rlen ?f = rlen s" "sw ?f = sw s" "ne ?f = ne s" "sent ?f = sent s"
      "rlen ?f + 2 \<le> length (rdata ?f)"
    using assms(1) by (simp_all add: apdu_finish_def)
  have X: "message s = bslice 0 (rlen ?f + 2) (rdata ?f)"
    using message_finish [OF assms(1)] f by simp
  show "delivers (message s) [take n (rdata s2)] s2"
  proof (cases "rlen s \<le> ne s")
    case True
    with assms f have "n = rlen ?f + 2" "s2 = ?f\<lparr>response_pending := False\<rparr>"
      by (auto simp: apdu_next_def)
    with direct_delivers [of "message s" "?f\<lparr>response_pending := False\<rparr>"] X show ?thesis by simp
  next
    case False
    with assms f have "n = ne s + 2" "s2 = hold_back (ne s) (ne s) ?f"
      by (auto simp: apdu_next_def)
    with hold_back_delivers [OF _ f(5) X, of "ne s"] False f show ?thesis by simp
  qed
  show "rlen s2 \<le> rlen s" "sent s2 = sent s"
    using assms(4) f by (auto simp: apdu_next_def hold_back_def split: if_splits)
qed

section \<open>Chaining assembles the command\<close>

definition chain_inv :: "apdu_state \<Rightarrow> bool" where
  "chain_inv s \<longleftrightarrow> length (chain_buf s) = CHAIN_BUF_SIZE \<and>
     (is_chaining s \<longrightarrow> (\<exists>p. chain_ptr s = Some p \<and> p < CHAIN_BUF_SIZE))"

lemma set_res_sw_chain [simp]:
  "chain_inv (snd (set_res_sw a b s)) = chain_inv s" "is_chaining (snd (set_res_sw a b s)) = is_chaining s"
  "chain_buf (snd (set_res_sw a b s)) = chain_buf s" "chain_ptr (snd (set_res_sw a b s)) = chain_ptr s"
  "chain_header (snd (set_res_sw a b s)) = chain_header s" "fst (set_res_sw a b s) = make_uint16_be a b"
  by (simp_all add: set_res_sw_def chain_inv_def)

lemma clear_chain_inv [simp]: "chain_inv (clear_chain s)" "\<not> is_chaining (clear_chain s)"
  by (simp_all add: chain_inv_def clear_chain_def)

lemma chain_step_inv:
  assumes "chain_inv s" "nc s \<le> length (data s)"
  shows "chain_inv (snd (chain_step s))"
  using assms
  by (auto simp: chain_step_def Let_def apfst_def map_prod_def split: prod.splits)
     (auto simp: chain_inv_def set_res_sw_def clear_chain_def chain_used_def split: if_splits option.splits)

text \<open>A fragment of a command whose four header bytes are \<open>h\<close> (with the chaining bit clear).\<close>

definition load_cmd :: "byte list \<Rightarrow> byte list \<Rightarrow> apdu_state \<Rightarrow> apdu_state" where
  "load_cmd h d s = s\<lparr>header := h, nc := length d, data := d\<rparr>"

definition chained :: "byte list \<Rightarrow> byte list" where
  "chained h = [h ! 0 OR 0x10, h ! 1, h ! 2, h ! 3]"

definition send_chained :: "byte list \<Rightarrow> byte list \<Rightarrow> apdu_state \<Rightarrow> apdu_state" where
  "send_chained h d s = snd (chain_step (load_cmd (chained h) d s))"

definition plain_header :: "byte list \<Rightarrow> bool" where
  "plain_header h \<longleftrightarrow> length h = 4 \<and> h ! 0 AND 0x10 = 0 \<and> \<not> (h ! 1 = 0xA4 \<and> h ! 2 = 0x04 \<and> (h ! 3 = 0 \<or> h ! 3 = 4))"

lemma bit_16_byte: "bit (16 :: byte) n \<longleftrightarrow> n = 4"
proof -
  have "(16 :: byte) = 2 ^ 4" by simp
  then show ?thesis by (simp only: bit_exp_iff) auto
qed

lemma bit_mask_lemmas:
  "(b :: byte) AND 16 = 0 \<Longrightarrow> (b OR 16) AND NOT 16 = b"
  "(b OR 16) AND 16 \<noteq> (0 :: byte)"
  "(b :: byte) AND 16 = 0 \<Longrightarrow> b AND NOT 16 = b"
proof -
  show "(b OR 16) AND 16 \<noteq> (0 :: byte)"
  proof
    assume "(b OR 16) AND 16 = (0 :: byte)"
    then have "\<not> bit ((b OR 16) AND 16 :: byte) 4" by simp
    then show False by (simp add: bit_or_iff bit_and_iff bit_16_byte)
  qed
  assume b: "(b :: byte) AND 16 = 0"
  have "\<not> bit b 4"
  proof
    assume "bit b 4"
    then have "bit (b AND 16) 4" by (simp add: bit_and_iff bit_16_byte)
    with b show False by simp
  qed
  moreover have "(b OR c) AND NOT c = b \<and> b AND NOT c = b"
    if "\<And>n. bit c n \<longleftrightarrow> n = 4" "\<not> bit b 4" for c
    using that by (auto intro!: bit_word_eqI simp: bit_or_iff bit_and_iff bit_not_iff)
  ultimately show "(b OR 16) AND NOT 16 = b" "b AND NOT 16 = b"
    using bit_16_byte by blast+
qed

lemma base_header_chained:
  "plain_header h \<Longrightarrow> base_header (load_cmd (chained h) d s) = h"
  "plain_header h \<Longrightarrow> base_header (load_cmd h d s) = h"
  by (auto simp: base_header_def load_cmd_def chained_def CLA_def INS_def P1_def P2_def plain_header_def
        bit_mask_lemmas [simplified] length_Suc_conv numeral_eq_Suc)

text \<open>The chain holds the header \<open>h\<close> and the bytes \<open>acc\<close>.\<close>

definition chain_holds :: "byte list \<Rightarrow> byte list \<Rightarrow> apdu_state \<Rightarrow> bool" where
  "chain_holds h acc s \<longleftrightarrow> is_chaining s \<and> chain_header s = h \<and> chain_ptr s = Some (length acc) \<and>
     length (chain_buf s) = CHAIN_BUF_SIZE \<and> take (length acc) (chain_buf s) = acc"

lemma send_chained_first:
  assumes "plain_header h" "\<not> is_chaining s" "length (chain_buf s) = CHAIN_BUF_SIZE" "length d < CHAIN_BUF_SIZE"
  shows "chain_holds h d (send_chained h d s)"
proof -
  have c: "CLA (load_cmd (chained h) d s) AND 0x10 \<noteq> 0"
    using bit_mask_lemmas(2) by (simp add: CLA_def load_cmd_def chained_def)
  from assms c base_header_chained(1) [OF assms(1), of d s]
  show ?thesis
    by (simp add: send_chained_def chain_step_def Let_def chain_holds_def set_res_sw_def load_cmd_def
        chain_used_def overwrite_def)
qed

lemma send_chained_next:
  assumes "plain_header h" "chain_holds h acc s" "length acc + length d < CHAIN_BUF_SIZE"
  shows "chain_holds h (acc @ d) (send_chained h d s)"
proof -
  have c: "CLA (load_cmd (chained h) d s) AND 0x10 \<noteq> 0"
    using bit_mask_lemmas(2) by (simp add: CLA_def load_cmd_def chained_def)
  from assms(2) have t: "take (length acc) (chain_buf s) = acc" by (simp add: chain_holds_def)
  from assms c base_header_chained(1) [OF assms(1), of d s]
  show ?thesis
    by (simp add: send_chained_def chain_step_def Let_def chain_holds_def set_res_sw_def load_cmd_def
        chain_used_def overwrite_def t)
qed

lemma send_chained_all:
  assumes "plain_header h" "chain_holds h acc s" "length acc + length (concat ds) < CHAIN_BUF_SIZE"
  shows "chain_holds h (acc @ concat ds) (fold (send_chained h) ds s)"
  using assms(2,3)
proof (induction ds arbitrary: acc s)
  case Nil
  then show ?case by simp
next
  case (Cons d ds)
  then have "chain_holds h (acc @ d) (send_chained h d s)"
    by (intro send_chained_next assms(1)) simp_all
  from Cons.IH [OF this] Cons.prems show ?case by simp
qed

lemma chain_final:
  assumes "plain_header h" "chain_holds h acc s" "length acc + length d < CHAIN_BUF_SIZE"
  shows "\<exists>s'. chain_step (load_cmd h d s) = (None, s') \<and> data s' = acc @ d \<and>
           nc s' = length (acc @ d) \<and> header s' = h \<and> \<not> is_chaining s'"
proof -
  have c: "CLA (load_cmd h d s) AND 0x10 = 0" "\<not> is_select_cmd (load_cmd h d s)"
    using assms(1) by (auto simp: CLA_def INS_def P1_def P2_def is_select_cmd_def load_cmd_def plain_header_def)
  with assms base_header_chained(2) [OF assms(1), of d s] show ?thesis
    by (simp add: chain_step_def chain_holds_def load_cmd_def chain_used_def clear_chain_def)
qed

lemma apdu_parse_window:
  assumes "apdu_parse b s = (True, s')"
  shows "nc s' = 0 \<or> (7 + nc s' \<le> length b \<and> data s' = drop 7 b) \<or> (5 + nc s' \<le> length b \<and> data s' = drop 5 b)"
proof -
  define n1 where "n1 = unat (get_uint16_be (drop 5 b))"
  define n2 where "n2 = unat (b ! 4)"
  consider "length b < 4 \<or> 65535 < length b" | "length b = 4" | "length b = 5"
    | "5 < length b" "length b \<le> 65535" "b ! 4 = 0" "length b = 7"
    | "5 < length b" "length b \<le> 65535" "b ! 4 = 0 \<and> 7 \<le> length b" "length b \<noteq> 7"
    | "5 < length b" "length b \<le> 65535" "\<not> (b ! 4 = 0 \<and> 7 \<le> length b)"
    by linarith
  then show ?thesis
  proof cases
    case 5
    with assms show ?thesis
      by (simp add: apdu_parse_def Let_def n1_def [symmetric] split: if_splits) auto
  next
    case 6
    with assms show ?thesis
      by (simp add: apdu_parse_def Let_def n2_def [symmetric] split: if_splits del: de_Morgan_conj) auto
  qed (use assms in \<open>auto simp: apdu_parse_def Let_def\<close>)
qed

section \<open>Properties\<close>

text \<open>C25: however the host chooses its Le bytes, the payloads of the first frame and of the GET
  RESPONSE frames are, in order, exactly the response data; the last frame ends in the status word;
  and enough GET RESPONSEs always finish the transfer.\<close>

theorem response_chaining_delivers:
  assumes "rlen s + 2 \<le> length (rdata s)" "sw s \<noteq> 0" "rlen s < 65534" "sent s = []"
    and "apdu_next (apdu_finish s) = (n, s2)" and "s3 = get_responses les s2"
    and "fs = take n (rdata s2) # sent s3"
  shows "(response_pending s3 \<longrightarrow> received fs = take (length (received fs)) (take (rlen s) (rdata s))) \<and>
         (\<not> response_pending s3 \<longrightarrow>
            received fs = take (rlen s) (rdata s) \<and> trailer (last fs) = put_uint16_be (sw s)) \<and>
         (rlen s < length les \<longrightarrow> \<not> response_pending s3)"
proof -
  note nx = apdu_next_delivers [OF assms(1-3) assms(5)]
  have "delivers (message s) ([take n (rdata s2)] @ sent s2) s2"
    using nx(1,3) assms(4) by simp
  from get_responses_delivers [OF this, of les] nx(2)
  have "delivers (message s) fs s3 \<and> (rlen s < length les \<longrightarrow> \<not> response_pending s3)"
    by (simp add: assms(6,7) message_def)
  then show ?thesis
    by (auto simp only: delivers_def payload_message trailer_message split: if_splits)
qed

definition apdu_example :: apdu_state where
  "apdu_example = \<lparr>header = [0, 0xca, 0, 0, 2], nc = 0, ne = 2, data = [], sw = 0x9000,
     rdata = [1, 2, 3, 4, 5, 0, 0, 0], rlen = 5, rdata_gr = Some 0, rdata_bk = 0, response_pending = False,
     is_chaining = False, chain_buf = replicate CHAIN_BUF_SIZE 0, chain_ptr = None, chain_header = [0, 0, 0, 0],
     sent = []\<rparr>"

theorem response_chaining_delivers_witness:
  "\<exists>fs. received fs = [1, 2, 3, 4, 5] \<and> trailer (last fs) = [0x90, 0x00]"
proof -
  obtain n s2 where n: "apdu_next (apdu_finish apdu_example) = (n, s2)"
    by fastforce
  from response_chaining_delivers [OF _ _ _ _ n refl refl, of "[2, 2, 2, 2, 2, 2]"] show ?thesis
    by (auto simp: apdu_example_def put_uint16_be_def)
qed

text \<open>The same holds when the transport cuts the first frame of an answer that fits the host's Le
  but not its block size: nothing of the answer is lost.\<close>

theorem limited_response_delivers:
  assumes "rlen s + 2 \<le> length (rdata s)" "sw s \<noteq> 0" "rlen s < 65534" "sent s = []" "rlen s \<le> ne s"
    and "apdu_next (apdu_finish s) = (n, s1)" and "apdu_limit_response n mx s1 = (m, s2)" and "2 \<le> mx"
    and "s3 = get_responses les s2" and "fs = take m (rdata s2) # sent s3" and "rlen s < length les"
  shows "m \<le> mx \<and> received fs = take (rlen s) (rdata s) \<and> trailer (last fs) = put_uint16_be (sw s)"
proof -
  let ?f = "apdu_finish s"
  have s1: "n = rlen s + 2" "s1 = ?f\<lparr>response_pending := False\<rparr>"
    using assms(2,3,5,6) by (auto simp: apdu_next_def apdu_finish_def)
  have f: "rlen s1 = rlen s" "sw s1 = sw s" "rlen s1 + 2 \<le> length (rdata s1)" "sent s1 = []"
      "\<not> response_pending s1" "rdata s1 = rdata ?f"
    using assms(1,4) s1(2) by (simp_all add: apdu_finish_def)
  have X: "message s = bslice 0 (rlen s1 + 2) (rdata s1)"
    using message_finish [OF assms(1)] f by simp
  have "delivers (message s) [take m (rdata s2)] s2 \<and> rlen s2 \<le> rlen s \<and> sent s2 = [] \<and> m \<le> mx"
  proof (cases "n \<le> mx")
    case True
    with assms(2,7) f s1(1) direct_delivers [OF X f(5)] show ?thesis
      by (auto simp: apdu_limit_response_def)
  next
    case False
    then have "\<not> rlen s \<le> mx - 2"
      using assms(8) s1(1) by linarith
    with False have m: "m = mx" "s2 = hold_back (mx - 2) (mx - 2) s1"
      using assms(2,7,8) f s1(1) by (auto simp: apdu_limit_response_def)
    have lt: "mx - 2 < rlen s1" and mx: "mx - 2 + 2 = mx"
      using False assms(8) f(1) s1(1) by linarith+
    have "rlen (hold_back (mx - 2) (mx - 2) s1) \<le> rlen s" "sent (hold_back (mx - 2) (mx - 2) s1) = []"
      using f by (simp_all add: hold_back_def)
    with hold_back_delivers [OF lt f(3) X] show ?thesis
      unfolding m mx by blast
  qed
  then have d: "delivers (message s) ([take m (rdata s2)] @ sent s2) s2" "rlen s2 \<le> rlen s" "m \<le> mx"
    by simp_all
  have "2 \<le> length (message s)" by (simp add: message_def)
  from get_responses_delivers [OF d(1) this, of les] d(2) assms(9-11)
  have "delivers (message s) fs s3" "\<not> response_pending s3"
    by simp_all
  then show ?thesis
    using d(3) unfolding delivers_def payload_message trailer_message by simp
qed

theorem limited_response_delivers_witness:
  "\<exists>fs. received fs = [1, 2, 3, 4, 5] \<and> trailer (last fs) = [0x90, 0x00]"
proof -
  obtain n s1 where n: "apdu_next (apdu_finish (apdu_example\<lparr>ne := 256\<rparr>)) = (n, s1)"
    by fastforce
  obtain m s2 where m: "apdu_limit_response n 4 s1 = (m, s2)"
    by fastforce
  from limited_response_delivers [OF _ _ _ _ _ n m _ refl refl, of "[2, 2, 2, 2, 2, 2]"] show ?thesis
    by (auto simp: apdu_example_def put_uint16_be_def)
qed

text \<open>C28: a command sent in chained fragments reaches the dispatcher as one command whose data is the
  concatenation of the fragments, as long as it stays below the 2038-byte buffer.\<close>

theorem chaining_assembles:
  assumes "plain_header h" "\<not> is_chaining s" "length (chain_buf s) = CHAIN_BUF_SIZE" "ds \<noteq> []"
    and "length (concat ds) + length d < CHAIN_BUF_SIZE"
  shows "\<exists>s'. chain_step (load_cmd h d (fold (send_chained h) ds s)) = (None, s') \<and>
           data s' = concat ds @ d \<and> nc s' = length (concat ds @ d) \<and> header s' = h \<and> \<not> is_chaining s'"
proof -
  obtain d0 ds' where ds: "ds = d0 # ds'" using assms(4) by (cases ds) auto
  have "chain_holds h d0 (send_chained h d0 s)"
    using assms ds by (intro send_chained_first) simp_all
  then have "chain_holds h (concat ds) (fold (send_chained h) ds s)"
    using send_chained_all [OF assms(1), of d0 _ ds'] assms(5) ds by simp
  from chain_final [OF assms(1) this assms(5)] show ?thesis .
qed

theorem chaining_assembles_witness:
  "\<exists>s'. chain_step (load_cmd [0, 0x2a, 0x9e, 0x9a] [3]
          (fold (send_chained [0, 0x2a, 0x9e, 0x9a]) [[1], [2]] apdu_example)) = (None, s') \<and>
        data s' = [1, 2, 3]"
  using chaining_assembles [of "[0, 0x2a, 0x9e, 0x9a]" apdu_example "[[1], [2]]" "[3]"]
  by (auto simp: plain_header_def apdu_example_def CHAIN_BUF_SIZE_def)

text \<open>C29: whatever commands arrive, the chaining buffer is never written past its 2038 bytes and its
  cursor stays inside it.\<close>

theorem chaining_stays_in_buffer:
  assumes "chain_inv s" "\<forall>(h, d) \<in> set cmds. length h = 4"
  shows "chain_inv (fold (\<lambda>(h, d) s. snd (chain_step (load_cmd h d s))) cmds s)"
  using assms
proof (induction cmds arbitrary: s)
  case Nil
  then show ?case by simp
next
  case (Cons c cs)
  obtain h d where c: "c = (h, d)" by (cases c)
  have "chain_inv (load_cmd h d s)"
    using Cons.prems(1) by (simp add: chain_inv_def load_cmd_def)
  then have "chain_inv (snd (chain_step (load_cmd h d s)))"
    by (rule chain_step_inv) (simp add: load_cmd_def)
  from Cons.IH [OF this] Cons.prems(2) show ?case by (simp add: c)
qed

theorem chaining_stays_in_buffer_witness:
  "chain_inv (fold (\<lambda>(h, d) s. snd (chain_step (load_cmd h d s))) [([0x10, 1, 0, 0], replicate 2040 7)] apdu_example)"
  by (rule chaining_stays_in_buffer) (simp_all add: chain_inv_def apdu_example_def)

text \<open>A frame that parses has its whole command data inside the received buffer: the length fields
  are checked against the size of the frame before the data is used.\<close>

theorem parsed_data_in_buffer:
  assumes "apdu_parse b s = (True, s')"
  shows "nc s' = 0 \<or> (\<exists>k. k + nc s' \<le> length b \<and> take (nc s') (data s') = bslice k (nc s') b)"
  using apdu_parse_window [OF assms]
  by (elim disjE) (auto simp: bslice_def intro: exI [of _ 7] exI [of _ 5])

theorem parsed_data_in_buffer_witness:
  "\<exists>s'. apdu_parse [0, 0xa4, 4, 0, 2, 0xA0, 0x01, 0] apdu_example = (True, s') \<and> nc s' = 2 \<and>
     (\<exists>k. k + nc s' \<le> length ([0, 0xa4, 4, 0, 2, 0xA0, 0x01, 0] :: byte list) \<and>
        take (nc s') (data s') = bslice k (nc s') [0, 0xa4, 4, 0, 2, 0xA0, 0x01, 0])"
proof -
  let ?b = "[0, 0xa4, 4, 0, 2, 0xA0, 0x01, 0] :: byte list"
  obtain s' where s': "apdu_parse ?b apdu_example = (True, s')" "nc s' = 2"
    by (simp add: apdu_parse_def Let_def)
  then have "nc s' \<noteq> 0" by simp
  with parsed_data_in_buffer [OF s'(1)] s' show ?thesis by blast
qed

lemma chain_step_last:
  assumes "CLA s AND 0x10 = 0"
  shows "fst (chain_step s) = (if is_chaining s \<and> \<not> is_select_cmd s \<and> base_header s \<noteq> chain_header s then Some 0x6883
      else if is_chaining s \<and> \<not> is_select_cmd s \<and> CHAIN_BUF_SIZE \<le> chain_used s + nc s then Some 0x6700 else None)"
    "\<not> is_chaining (snd (chain_step s))" "CLA (snd (chain_step s)) = CLA s"
  using assms by (simp_all add: chain_step_def set_res_sw_def make_uint16_be_def CLA_def clear_chain_def)

lemma chain_step_more:
  "CLA s AND 0x10 \<noteq> 0 \<Longrightarrow> fst (chain_step s) \<in> {Some 0x9000, Some 0x6700, Some 0x6883}"
  by (simp add: chain_step_def Let_def apfst_def map_prod_def case_prod_beta set_res_sw_def make_uint16_be_def)

text \<open>C30: a command with secure-messaging bits never reaches an application that does not support secure messaging, nor the
  selection of one, whether it comes alone or is the last of a chain: the answer and the state are the same whatever the
  applications do, and nothing outside the command layer changes. A fragment of a chain is collected, or refused by the chaining rules; a complete command is answered 6E00
  unless it breaks off a chain (6883) or overflows the buffer (6700), and the chain is over.\<close>

theorem secure_messaging_gate:
  assumes "CLA (fst (world c)) AND 0x0C \<noteq> 0"
    and "\<forall>i. current_app c = Some i \<longrightarrow> \<not> supports_secure_messaging (apps c ! i)"
  shows "let s = fst (world c); r = process_apdu run_select run_unload run_process c in
    process_apdu run_select' run_unload' run_process' c = r \<and>
    snd r = c\<lparr>world := (fst (world (snd r)), snd (world c))\<rparr> \<and>
    (if CLA s AND 0x10 \<noteq> 0 then fst r \<in> {0x9000, 0x6700, 0x6883}
     else \<not> is_chaining (fst (world (snd r))) \<and>
       fst r = (if is_chaining s \<and> \<not> is_select_cmd s \<and> base_header s \<noteq> chain_header s then 0x6883
         else if is_chaining s \<and> \<not> is_select_cmd s \<and> CHAIN_BUF_SIZE \<le> chain_used s + nc s then 0x6700 else 0x6E00))"
proof -
  let ?s = "fst (world c)"
  obtain early a where e: "chain_step ?s = (early, a)" by fastforce
  let ?c = "c\<lparr>world := (a, snd (world c))\<rparr>"
  have a: "CLA a = CLA ?s"
  proof (cases "CLA ?s AND 0x10 = 0")
    case True with chain_step_last(3) [of ?s] e show ?thesis by simp
  next
    case False with e show ?thesis by (auto simp: chain_step_def Let_def CLA_def clear_chain_def set_res_sw_def split: if_splits)
  qed
  have gate: "process_apdu rs ru rp c = (case early of Some w \<Rightarrow> (w, ?c) | None \<Rightarrow> reply (set_res_sw 0x6E 0x00 a) ?c)" for rs ru rp
    using assms a by (cases early; cases "current_app c"; simp add: process_apdu_def e Let_def)
  show ?thesis
  proof (cases "CLA ?s AND 0x10 = 0")
    case False
    with chain_step_more [of ?s] e show ?thesis by (auto simp: gate)
  next
    case True
    note l = chain_step_last [OF True, unfolded e, simplified]
    show ?thesis
      unfolding gate l(1) using l(2) True by (simp add: Let_def reply_def make_uint16_be_def)
  qed
qed

text \<open>The last fragment of a chain: the command is complete, and refused.\<close>

theorem secure_messaging_gate_witness:
  "process_apdu (\<lambda>h a f s. (PICOKEYS_OK, s)) (\<lambda>h s. s) (\<lambda>h s. (0x9000, s))
     \<lparr>apps = apps app_example, current_app = Some 0, findex = findex app_example,
      world = (apdu_example\<lparr>header := [0x0C, 0x20, 0, 0], is_chaining := True, chain_ptr := Some 3,
        chain_header := [0x0C, 0x20, 0, 0]\<rparr>, ())\<rparr> =
   process_apdu (\<lambda>h a f s. (PICOKEYS_OK, s)) (\<lambda>h s. s) (\<lambda>h s. (0x9001, s))
     \<lparr>apps = apps app_example, current_app = Some 0, findex = findex app_example,
      world = (apdu_example\<lparr>header := [0x0C, 0x20, 0, 0], is_chaining := True, chain_ptr := Some 3,
        chain_header := [0x0C, 0x20, 0, 0]\<rparr>, ())\<rparr> \<and>
   fst (process_apdu (\<lambda>h a f s. (PICOKEYS_OK, s)) (\<lambda>h s. s) (\<lambda>h s. (0x9000, s))
     \<lparr>apps = apps app_example, current_app = Some 0, findex = findex app_example,
      world = (apdu_example\<lparr>header := [0x0C, 0x20, 0, 0], is_chaining := True, chain_ptr := Some 3,
        chain_header := [0x0C, 0x20, 0, 0]\<rparr>, ())\<rparr>) = 0x6E00"
proof -
  let ?c = "\<lparr>apps = apps app_example, current_app = Some 0, findex = findex app_example,
      world = (apdu_example\<lparr>header := [0x0C, 0x20, 0, 0], is_chaining := True, chain_ptr := Some 3,
        chain_header := [0x0C, 0x20, 0, 0]\<rparr>, ())\<rparr>"
  have "CLA (fst (world ?c)) AND 0x0C \<noteq> 0" by (simp add: CLA_def)
  moreover have "\<forall>i. current_app ?c = Some i \<longrightarrow> \<not> supports_secure_messaging (apps ?c ! i)"
    by (simp add: app_example_apps)
  ultimately show ?thesis
    using secure_messaging_gate [of ?c "\<lambda>h a f s. (PICOKEYS_OK, s)" "\<lambda>h s. s" "\<lambda>h s. (0x9000, s)"
        "\<lambda>h a f s. (PICOKEYS_OK, s)" "\<lambda>h s. s" "\<lambda>h s. (0x9001, s)"]
    by (simp add: Let_def apdu_example_def CLA_def base_header_def INS_def P1_def P2_def chain_used_def CHAIN_BUF_SIZE_def)
qed
end
