(* ===== verification/Phy.thy ===== *)
theory Phy
  imports Prelude
begin

text \<open>
  The physical settings of the device, \<^verbatim>\<open>pico-keys-sdk/src/fs/phy.c\<close>: USB identity, LED and button
  options, kept in \<open>EF_PHY\<close> as a string of (tag, length, value) items. \<open>phy_serialize_data\<close> appends
  to a buffer; here it answers the bytes it appends. \<open>phy_unserialize_data\<close> fills a zeroed
  record item by item and stops at the first malformed one, leaving what it had filled.

  The C arrays are lists; \<open>phy_shape\<close> fixes their lengths (4, 32, 32, 10 and 7 bytes).
\<close>

section \<open>The settings\<close>

record phy_data =
  vidpid :: "byte list"
  enabled_curves :: u32
  usb_product :: "byte list"
  usb_manufacturer :: "byte list"
  opts :: u16
  led_gpio :: byte
  led_brightness :: byte
  up_btn :: byte
  enabled_usb_itf :: byte
  led_driver :: byte
  led_order :: byte
  led_status :: "byte list"
  led_notifications :: "byte list"
  led_modes :: byte
  vidpid_present :: bool
  led_gpio_present :: bool
  led_brightness_present :: bool
  up_btn_present :: bool
  usb_product_present :: bool
  usb_manufacturer_present :: bool
  enabled_curves_present :: bool
  enabled_usb_itf_present :: bool
  led_driver_present :: bool
  led_order_present :: bool
  led_status_present :: bool
  led_notifications_present :: bool
  led_modes_present :: bool

definition phy_zero :: phy_data where
  "phy_zero = \<lparr>vidpid = replicate 4 0, enabled_curves = 0, usb_product = replicate 32 0,
     usb_manufacturer = replicate 32 0, opts = 0, led_gpio = 0, led_brightness = 0, up_btn = 0,
     enabled_usb_itf = 0, led_driver = 0, led_order = 0, led_status = replicate 10 0,
     led_notifications = replicate 7 0, led_modes = 0, vidpid_present = False,
     led_gpio_present = False, led_brightness_present = False, up_btn_present = False,
     usb_product_present = False, usb_manufacturer_present = False, enabled_curves_present = False,
     enabled_usb_itf_present = False, led_driver_present = False, led_order_present = False,
     led_status_present = False, led_notifications_present = False, led_modes_present = False\<rparr>"

definition status_defaults :: "byte list" where
  "status_defaults = [1, 0, 6, 17, 6, 17, 4, 17, 3, 17]"

definition notification_defaults :: "byte list" where
  "notification_defaults = [1, 2, 17, 1, 17, 1, 17]"

definition PHY_MAX_SIZE :: nat where "PHY_MAX_SIZE = 128"
definition PHY_USB_ITF_ALL :: byte where "PHY_USB_ITF_ALL = 0x1f"

definition phy_led_defaults :: "phy_data \<Rightarrow> phy_data" where
  "phy_led_defaults phy =
     (let p1 = (if led_status_present phy then phy
                else phy\<lparr>led_status := status_defaults, led_status_present := True\<rparr>);
          p2 = (if led_notifications_present p1 then p1
                else p1\<lparr>led_notifications := notification_defaults, led_notifications_present := True\<rparr>)
      in if led_modes_present p2 then p2
         else p2\<lparr>led_modes := (if led_status p2 ! 1 \<noteq> 0 then 3 else 0), led_modes_present := True\<rparr>)"

section \<open>Writing\<close>

text \<open>\<open>strlen\<close>: the bytes before the first NUL.\<close>

definition cstr :: "byte list \<Rightarrow> byte list" where
  "cstr s = takeWhile (\<lambda>b. b \<noteq> 0) s"

definition item :: "byte \<Rightarrow> byte list \<Rightarrow> byte list" where
  "item tag v = tag # of_nat (length v) # v"

definition phy_items :: "phy_data \<Rightarrow> byte list" where
  "phy_items phy =
     (if vidpid_present phy
      then item 0x0 [vidpid phy ! 1, vidpid phy ! 0, vidpid phy ! 3, vidpid phy ! 2] else []) @
     (if led_gpio_present phy then item 0x4 [led_gpio phy] else []) @
     (if led_brightness_present phy then item 0x5 [led_brightness phy] else []) @
     item 0x6 (put_uint16_be (opts phy)) @
     (if up_btn_present phy then item 0x8 [up_btn phy] else []) @
     (if usb_product_present phy then item 0x9 (cstr (usb_product phy) @ [0]) else []) @
     (if usb_manufacturer_present phy then item 0xF (cstr (usb_manufacturer phy) @ [0]) else []) @
     (if enabled_curves_present phy then item 0xA (put_uint32_be (enabled_curves phy)) else []) @
     (if enabled_usb_itf_present phy then item 0xB [enabled_usb_itf phy] else []) @
     (if led_driver_present phy
      then item 0xC (led_driver phy # (if led_order_present phy then [led_order phy] else [])) else []) @
     (if led_order_present phy \<and> \<not> led_driver_present phy then item 0xD [led_order phy] else []) @
     item 0x10 (if led_status_present phy then led_status phy else status_defaults) @
     item 0x11 (if led_notifications_present phy then led_notifications phy else notification_defaults) @
     item 0x12 [1, if led_modes_present phy then led_modes phy
                   else if led_status_present phy \<and> led_status phy ! 1 \<noteq> 0 then 3 else 0]"

text \<open>\<open>room\<close> is what the output buffer has left.\<close>

definition phy_serialize_data :: "phy_data option \<Rightarrow> nat \<Rightarrow> pk_status \<times> byte list" where
  "phy_serialize_data phy_opt room =
     (case phy_opt of
        None \<Rightarrow> (PICOKEYS_ERR_NULL_PARAM, [])
      | Some phy \<Rightarrow>
          if room < PHY_MAX_SIZE then (PICOKEYS_ERR_NULL_PARAM, [])
          else if usb_product_present phy \<and> 0 \<notin> set (usb_product phy)
                  \<or> usb_manufacturer_present phy \<and> 0 \<notin> set (usb_manufacturer phy)
          then (PICOKEYS_WRONG_DATA, [])
          else (PICOKEYS_OK, phy_items phy))"

section \<open>Reading\<close>

text \<open>One item; None is \<open>PICOKEYS_WRONG_DATA\<close>, which no branch answers after a write.\<close>

definition fixed_len_ok :: "byte \<Rightarrow> nat \<Rightarrow> bool" where
  "fixed_len_ok tag tlen =
     (if tag = 0x0 \<or> tag = 0xA then tlen = 4
      else if tag = 0x6 then tlen = 2
      else if tag = 0x4 \<or> tag = 0x5 \<or> tag = 0x8 \<or> tag = 0xB then tlen = 1
      else True)"

definition read_name :: "byte list \<Rightarrow> byte list option" where
  "read_name v =
     (if v = [] \<or> 32 < length v then None
      else let len = length v - (if v ! (length v - 1) = 0 then 1 else 0)
           in if 32 \<le> len \<or> 0 \<in> set (take len v) then None else Some (take len v))"

definition read_item :: "byte \<Rightarrow> byte list \<Rightarrow> phy_data \<Rightarrow> phy_data option" where
  "read_item tag v phy =
     (if \<not> fixed_len_ok tag (length v) then None
      else if tag = 0x0 then
        Some (phy\<lparr>vidpid := [v ! 1, v ! 0, v ! 3, v ! 2], vidpid_present := True\<rparr>)
      else if tag = 0x4 then Some (phy\<lparr>led_gpio := v ! 0, led_gpio_present := True\<rparr>)
      else if tag = 0x5 then Some (phy\<lparr>led_brightness := v ! 0, led_brightness_present := True\<rparr>)
      else if tag = 0x6 then Some (phy\<lparr>opts := get_uint16_be v\<rparr>)
      else if tag = 0x8 then Some (phy\<lparr>up_btn := v ! 0, up_btn_present := True\<rparr>)
      else if tag = 0x9 then
        map_option (\<lambda>n. phy\<lparr>usb_product := overwrite 0 n (usb_product phy),
                            usb_product_present := n \<noteq> []\<rparr>) (read_name v)
      else if tag = 0xF then
        map_option (\<lambda>n. phy\<lparr>usb_manufacturer := overwrite 0 n (usb_manufacturer phy),
                            usb_manufacturer_present := n \<noteq> []\<rparr>) (read_name v)
      else if tag = 0xA then
        Some (phy\<lparr>enabled_curves := get_uint32_be v, enabled_curves_present := True\<rparr>)
      else if tag = 0xB then
        Some (phy\<lparr>enabled_usb_itf := v ! 0, enabled_usb_itf_present := True\<rparr>)
      else if tag = 0xC then
        (if length v \<noteq> 1 \<and> length v \<noteq> 2 then None
         else if length v = 2 \<and> 5 < v ! 1 then None
         else let p = phy\<lparr>led_driver := v ! 0, led_driver_present := True\<rparr>
              in Some (if 2 \<le> length v then p\<lparr>led_order := v ! 1, led_order_present := True\<rparr> else p))
      else if tag = 0xD then
        (if length v \<noteq> 1 \<or> 5 < v ! 0 then None
         else Some (phy\<lparr>led_order := v ! 0, led_order_present := True\<rparr>))
      else if tag = 0x12 then
        (if length v \<noteq> 2 \<or> v ! 0 \<noteq> 1 \<or> v ! 1 AND 0x80 \<noteq> 0 then None
         else Some (phy\<lparr>led_modes := v ! 1, led_modes_present := True\<rparr>))
      else if tag = 0x11 then
        (if length v \<noteq> 7 \<or> v ! 0 \<noteq> 1 then None
         else if list_ex (\<lambda>i. 7 < v ! (1 + i * 2)) [0 ..< 3] then None
         else Some (phy\<lparr>led_notifications := v, led_notifications_present := True\<rparr>))
      else if tag = 0x10 then
        (if length v \<noteq> 10 \<or> v ! 0 \<noteq> 1 \<or> 1 < v ! 1 then None
         else if list_ex (\<lambda>i. 7 < v ! (2 + i * 2)) [0 ..< 4] then None
         else Some (phy\<lparr>led_status := v, led_status_present := True\<rparr>))
      else None)"

definition read_defaults :: "phy_data \<Rightarrow> phy_data" where
  "read_defaults phy =
     (let p = (if enabled_usb_itf_present phy then phy
               else phy\<lparr>enabled_usb_itf := PHY_USB_ITF_ALL, enabled_usb_itf_present := True\<rparr>)
      in if led_order_present p then p else p\<lparr>led_order := 0\<rparr>)"

fun read_items :: "byte list \<Rightarrow> phy_data \<Rightarrow> pk_status \<times> phy_data" where
  "read_items (tag # tlen # data) phy =
     (if length data < unat tlen then (PICOKEYS_WRONG_DATA, phy)
      else case read_item tag (take (unat tlen) data) phy of
             None \<Rightarrow> (PICOKEYS_WRONG_DATA, phy)
           | Some phy' \<Rightarrow> read_items (drop (unat tlen) data) phy')"
| "read_items [b] phy = (PICOKEYS_WRONG_DATA, phy)"
| "read_items [] phy = (PICOKEYS_OK, read_defaults phy)"

definition phy_unserialize_data :: "byte list option \<Rightarrow> phy_data \<Rightarrow> pk_status \<times> phy_data" where
  "phy_unserialize_data data phy =
     (case data of
        None \<Rightarrow> (PICOKEYS_ERR_NULL_PARAM, phy)
      | Some d \<Rightarrow> if d = [] \<or> 0xffff < length d then (PICOKEYS_ERR_NULL_PARAM, phy)
                  else read_items d phy_zero)"

text \<open>\<open>stored\<close> is what \<open>EF_PHY\<close> holds, None when the file has no data.\<close>

definition phy_load :: "byte list option \<Rightarrow> phy_data \<Rightarrow> pk_status \<times> phy_data" where
  "phy_load stored phy =
     (case stored of None \<Rightarrow> (PICOKEYS_OK, phy) | Some d \<Rightarrow> phy_unserialize_data (Some d) phy)"

definition phy_init :: "byte list option \<Rightarrow> pk_status \<times> phy_data" where
  "phy_init stored =
     (let (ret, phy) = phy_load stored phy_zero
      in (ret, if ret = PICOKEYS_OK then phy_led_defaults phy else phy))"

section \<open>Reading back\<close>

definition name_ok :: "byte list \<Rightarrow> bool" where
  "name_ok s \<longleftrightarrow> length s = 32 \<and> 0 \<in> set s"

definition status_ok :: "byte list \<Rightarrow> bool" where
  "status_ok v \<longleftrightarrow> length v = 10 \<and> v ! 0 = 1 \<and> v ! 1 \<le> 1 \<and> (\<forall>i < 4. v ! (2 + i * 2) \<le> 7)"

definition notifications_ok :: "byte list \<Rightarrow> bool" where
  "notifications_ok v \<longleftrightarrow> length v = 7 \<and> v ! 0 = 1 \<and> (\<forall>i < 3. v ! (1 + i * 2) \<le> 7)"

text \<open>Settings the device can hold: the constraints \<open>phy_unserialize_data\<close> checks.\<close>

definition phy_ok :: "phy_data \<Rightarrow> bool" where
  "phy_ok phy \<longleftrightarrow>
     length (vidpid phy) = 4 \<and>
     (usb_product_present phy \<longrightarrow> name_ok (usb_product phy)) \<and>
     (usb_manufacturer_present phy \<longrightarrow> name_ok (usb_manufacturer phy)) \<and>
     (led_order_present phy \<longrightarrow> led_order phy \<le> 5) \<and>
     (led_status_present phy \<longrightarrow> status_ok (led_status phy)) \<and>
     (led_notifications_present phy \<longrightarrow> notifications_ok (led_notifications phy)) \<and>
     (led_modes_present phy \<longrightarrow> led_modes phy AND 0x80 = 0)"

definition name_norm :: "byte list \<Rightarrow> byte list" where
  "name_norm s = cstr s @ replicate (32 - length (cstr s)) 0"

text \<open>What comes back: settings that were absent read as their defaults, a name is what precedes
  its first NUL, and an empty name is no name.\<close>

definition phy_norm :: "phy_data \<Rightarrow> phy_data" where
  "phy_norm phy =
     \<lparr>vidpid = (if vidpid_present phy then vidpid phy else replicate 4 0),
      enabled_curves = (if enabled_curves_present phy then enabled_curves phy else 0),
      usb_product = (if usb_product_present phy then name_norm (usb_product phy) else replicate 32 0),
      usb_manufacturer = (if usb_manufacturer_present phy then name_norm (usb_manufacturer phy) else replicate 32 0),
      opts = opts phy,
      led_gpio = (if led_gpio_present phy then led_gpio phy else 0),
      led_brightness = (if led_brightness_present phy then led_brightness phy else 0),
      up_btn = (if up_btn_present phy then up_btn phy else 0),
      enabled_usb_itf = (if enabled_usb_itf_present phy then enabled_usb_itf phy else PHY_USB_ITF_ALL),
      led_driver = (if led_driver_present phy then led_driver phy else 0),
      led_order = (if led_order_present phy then led_order phy else 0),
      led_status = (if led_status_present phy then led_status phy else status_defaults),
      led_notifications = (if led_notifications_present phy then led_notifications phy else notification_defaults),
      led_modes = (if led_modes_present phy then led_modes phy
                   else if led_status_present phy \<and> led_status phy ! 1 \<noteq> 0 then 3 else 0),
      vidpid_present = vidpid_present phy,
      led_gpio_present = led_gpio_present phy,
      led_brightness_present = led_brightness_present phy,
      up_btn_present = up_btn_present phy,
      usb_product_present = (usb_product_present phy \<and> cstr (usb_product phy) \<noteq> []),
      usb_manufacturer_present = (usb_manufacturer_present phy \<and> cstr (usb_manufacturer phy) \<noteq> []),
      enabled_curves_present = enabled_curves_present phy,
      enabled_usb_itf_present = True,
      led_driver_present = led_driver_present phy,
      led_order_present = led_order_present phy,
      led_status_present = True,
      led_notifications_present = True,
      led_modes_present = True\<rparr>"

definition upd :: "bool \<Rightarrow> (phy_data \<Rightarrow> phy_data) \<Rightarrow> phy_data \<Rightarrow> phy_data" where
  "upd c f s = (if c then f s else s)"

lemma read_items_item:
  "length v < 256 \<Longrightarrow> read_item tag v phy = Some phy' \<Longrightarrow>
   read_items (item tag v @ data) phy = read_items data phy'"
  by (simp add: item_def unat_of_nat)

lemma cstr_length: "name_ok s \<Longrightarrow> length (cstr s) < 32"
proof -
  assume a: "name_ok s"
  then have "cstr s \<noteq> s" by (auto simp: name_ok_def cstr_def takeWhile_eq_all_conv)
  moreover have "s = cstr s @ dropWhile (\<lambda>b. b \<noteq> 0) s" by (simp add: cstr_def)
  ultimately have "0 < length (dropWhile (\<lambda>b. b \<noteq> 0) s)" by (metis append_Nil2 length_greater_0_conv)
  moreover have "length s = length (cstr s) + length (dropWhile (\<lambda>b. b \<noteq> 0) s)"
    using arg_cong [OF \<open>s = cstr s @ _\<close>, of length] by (simp only: length_append)
  ultimately show ?thesis using a unfolding name_ok_def by linarith
qed

lemma cstr_no_nul: "0 \<notin> set (cstr s)"
  by (auto simp: cstr_def dest: set_takeWhileD)

lemma read_name_cstr: "name_ok s \<Longrightarrow> read_name (cstr s @ [0]) = Some (cstr s)"
  using cstr_length [of s] cstr_no_nul [of s] by (simp add: read_name_def)

lemma overwrite_name: "overwrite 0 n (replicate 32 (0 :: byte)) = n @ replicate (32 - length n) 0"
  by (simp add: overwrite_def)


text \<open>Each kind of item, present or not.\<close>

named_theorems read_back

lemma read_items_fixed [read_back]:
  "read_items ((if c then item 0x0 [a, b, d, e] else []) @ data) s =
     read_items data (upd c (\<lambda>p. p\<lparr>vidpid := [b, a, e, d], vidpid_present := True\<rparr>) s)"
  "read_items ((if c then item 0x4 [a] else []) @ data) s =
     read_items data (upd c (\<lambda>p. p\<lparr>led_gpio := a, led_gpio_present := True\<rparr>) s)"
  "read_items ((if c then item 0x5 [a] else []) @ data) s =
     read_items data (upd c (\<lambda>p. p\<lparr>led_brightness := a, led_brightness_present := True\<rparr>) s)"
  "read_items (item 0x6 (put_uint16_be w) @ data) s = read_items data (upd True (\<lambda>p. p\<lparr>opts := w\<rparr>) s)"
  "read_items ((if c then item 0x8 [a] else []) @ data) s =
     read_items data (upd c (\<lambda>p. p\<lparr>up_btn := a, up_btn_present := True\<rparr>) s)"
  "read_items ((if c then item 0xA (put_uint32_be x) else []) @ data) s =
     read_items data (upd c (\<lambda>p. p\<lparr>enabled_curves := x, enabled_curves_present := True\<rparr>) s)"
  "read_items ((if c then item 0xB [a] else []) @ data) s =
     read_items data (upd c (\<lambda>p. p\<lparr>enabled_usb_itf := a, enabled_usb_itf_present := True\<rparr>) s)"
  by (simp_all add: upd_def read_items_item read_item_def fixed_len_ok_def get_put_simps)

lemma read_items_names:
  assumes "c \<Longrightarrow> name_ok n"
  shows "usb_product s = replicate 32 0 \<Longrightarrow>
     read_items ((if c then item 0x9 (cstr n @ [0]) else []) @ data) s =
       read_items data (upd c (\<lambda>p. p\<lparr>usb_product := name_norm n, usb_product_present := cstr n \<noteq> []\<rparr>) s)"
    and "usb_manufacturer s = replicate 32 0 \<Longrightarrow>
     read_items ((if c then item 0xF (cstr n @ [0]) else []) @ data) s =
       read_items data (upd c (\<lambda>p. p\<lparr>usb_manufacturer := name_norm n,
         usb_manufacturer_present := cstr n \<noteq> []\<rparr>) s)"
  using assms cstr_length [of n]
  by (cases c; simp add: upd_def read_items_item read_item_def fixed_len_ok_def read_name_cstr overwrite_name
      name_norm_def)+

lemma read_items_driver:
  assumes "o_present \<Longrightarrow> ord \<le> 5"
  shows "read_items ((if d_present then item 0xC (drv # (if o_present then [ord] else [])) else []) @ data) s =
     read_items data (upd (d_present \<and> o_present) (\<lambda>p. p\<lparr>led_order := ord, led_order_present := True\<rparr>)
       (upd d_present (\<lambda>p. p\<lparr>led_driver := drv, led_driver_present := True\<rparr>) s))"
    and "read_items ((if o_present \<and> \<not> d_present then item 0xD [ord] else []) @ data) s =
     read_items data (upd (o_present \<and> \<not> d_present) (\<lambda>p. p\<lparr>led_order := ord, led_order_present := True\<rparr>) s)"
  using assms
  by (auto simp: upd_def read_items_item read_item_def fixed_len_ok_def Let_def not_less)

lemma read_items_leds:
  "status_ok v \<Longrightarrow> read_items (item 0x10 v @ data) s =
     read_items data (upd True (\<lambda>p. p\<lparr>led_status := v, led_status_present := True\<rparr>) s)"
  "notifications_ok w \<Longrightarrow> read_items (item 0x11 w @ data) s =
     read_items data (upd True (\<lambda>p. p\<lparr>led_notifications := w, led_notifications_present := True\<rparr>) s)"
  "m AND 0x80 = 0 \<Longrightarrow> read_items (item 0x12 [1, m]) s =
     read_items [] (upd True (\<lambda>p. p\<lparr>led_modes := m, led_modes_present := True\<rparr>) s)"
  using read_items_item [of "[1, m]" "0x12" s "s\<lparr>led_modes := m, led_modes_present := True\<rparr>" "[]"]
  by (auto simp: upd_def read_items_item read_item_def fixed_len_ok_def status_ok_def notifications_ok_def
      list_ex_iff not_less)

lemma all_less_4: "(\<forall>i < 4. P i) \<longleftrightarrow> P 0 \<and> P 1 \<and> P 2 \<and> P (3 :: nat)"
  by (auto simp: less_Suc_eq numeral_eq_Suc)

lemma all_less_3: "(\<forall>i < 3. P i) \<longleftrightarrow> P 0 \<and> P 1 \<and> P (2 :: nat)"
  by (auto simp: less_Suc_eq numeral_eq_Suc)

lemma leds_ok:
  "status_ok status_defaults" "notifications_ok notification_defaults"
  by (simp_all add: status_ok_def notifications_ok_def status_defaults_def notification_defaults_def
      all_less_4 all_less_3)

lemma read_defaults_upd:
  "read_defaults s = upd (\<not> led_order_present s) (\<lambda>p. p\<lparr>led_order := 0\<rparr>)
     (upd (\<not> enabled_usb_itf_present s)
       (\<lambda>p. p\<lparr>enabled_usb_itf := PHY_USB_ITF_ALL, enabled_usb_itf_present := True\<rparr>) s)"
  by (simp add: read_defaults_def upd_def)

lemma upd_ignored:
  assumes "\<And>p. g (f p) = g p"
  shows "g (upd c f s) = g s"
  using assms by (simp add: upd_def)

lemma upd_push:
  "upd c (\<lambda>p. p\<lparr>vidpid := v_vidpid, vidpid_present := True\<rparr>) s =
     s\<lparr>vidpid := (if c then v_vidpid else vidpid s), vidpid_present := (c \<or> vidpid_present s)\<rparr>"
  "upd c (\<lambda>p. p\<lparr>led_gpio := v_led_gpio, led_gpio_present := True\<rparr>) s =
     s\<lparr>led_gpio := (if c then v_led_gpio else led_gpio s), led_gpio_present := (c \<or> led_gpio_present s)\<rparr>"
  "upd c (\<lambda>p. p\<lparr>led_brightness := v_led_brightness, led_brightness_present := True\<rparr>) s =
     s\<lparr>led_brightness := (if c then v_led_brightness else led_brightness s), led_brightness_present := (c \<or> led_brightness_present s)\<rparr>"
  "upd c (\<lambda>p. p\<lparr>up_btn := v_up_btn, up_btn_present := True\<rparr>) s =
     s\<lparr>up_btn := (if c then v_up_btn else up_btn s), up_btn_present := (c \<or> up_btn_present s)\<rparr>"
  "upd c (\<lambda>p. p\<lparr>enabled_curves := v_enabled_curves, enabled_curves_present := True\<rparr>) s =
     s\<lparr>enabled_curves := (if c then v_enabled_curves else enabled_curves s), enabled_curves_present := (c \<or> enabled_curves_present s)\<rparr>"
  "upd c (\<lambda>p. p\<lparr>enabled_usb_itf := v_enabled_usb_itf, enabled_usb_itf_present := True\<rparr>) s =
     s\<lparr>enabled_usb_itf := (if c then v_enabled_usb_itf else enabled_usb_itf s), enabled_usb_itf_present := (c \<or> enabled_usb_itf_present s)\<rparr>"
  "upd c (\<lambda>p. p\<lparr>led_driver := v_led_driver, led_driver_present := True\<rparr>) s =
     s\<lparr>led_driver := (if c then v_led_driver else led_driver s), led_driver_present := (c \<or> led_driver_present s)\<rparr>"
  "upd c (\<lambda>p. p\<lparr>led_order := v_led_order, led_order_present := True\<rparr>) s =
     s\<lparr>led_order := (if c then v_led_order else led_order s), led_order_present := (c \<or> led_order_present s)\<rparr>"
  "upd c (\<lambda>p. p\<lparr>led_status := v_led_status, led_status_present := True\<rparr>) s =
     s\<lparr>led_status := (if c then v_led_status else led_status s), led_status_present := (c \<or> led_status_present s)\<rparr>"
  "upd c (\<lambda>p. p\<lparr>led_notifications := v_led_notifications, led_notifications_present := True\<rparr>) s =
     s\<lparr>led_notifications := (if c then v_led_notifications else led_notifications s), led_notifications_present := (c \<or> led_notifications_present s)\<rparr>"
  "upd c (\<lambda>p. p\<lparr>led_modes := v_led_modes, led_modes_present := True\<rparr>) s =
     s\<lparr>led_modes := (if c then v_led_modes else led_modes s), led_modes_present := (c \<or> led_modes_present s)\<rparr>"
  "upd c (\<lambda>p. p\<lparr>led_order := v_led_order\<rparr>) s = s\<lparr>led_order := (if c then v_led_order else led_order s)\<rparr>"
  "upd c (\<lambda>p. p\<lparr>opts := w\<rparr>) s = s\<lparr>opts := (if c then w else opts s)\<rparr>"
  "upd c (\<lambda>p. p\<lparr>usb_product := n, usb_product_present := b\<rparr>) s =
     s\<lparr>usb_product := (if c then n else usb_product s), usb_product_present := (if c then b else usb_product_present s)\<rparr>"
  "upd c (\<lambda>p. p\<lparr>usb_manufacturer := n, usb_manufacturer_present := b\<rparr>) s =
     s\<lparr>usb_manufacturer := (if c then n else usb_manufacturer s),
       usb_manufacturer_present := (if c then b else usb_manufacturer_present s)\<rparr>"
  by (simp_all add: upd_def)

lemma length_cstr: "length (cstr s) \<le> length s"
  by (simp add: cstr_def length_takeWhile_le)

lemma vidpid_nth: "length v = 4 \<Longrightarrow> [v ! 0, v ! 1, v ! 2, v ! 3] = v"
  by (intro nth_equalityI) (auto simp: less_Suc_eq numeral_eq_Suc)

lemma phy_items_nonempty: "phy_items phy \<noteq> []"
  by (simp add: phy_items_def item_def)

lemma phy_led_defaults_norm: "phy_led_defaults (phy_norm phy) = phy_norm phy"
  by (simp add: phy_led_defaults_def phy_norm_def)

lemma phy_items_read:
  assumes "phy_ok phy"
  shows "read_items (phy_items phy) phy_zero = (PICOKEYS_OK, phy_norm phy)"
proof -
  note ok = assms [unfolded phy_ok_def]
  have shape: "read_items (phy_items phy) phy_zero = (PICOKEYS_OK, read_defaults
     (upd True (\<lambda>p. p\<lparr>led_modes := (if led_modes_present phy then led_modes phy
          else if led_status_present phy \<and> led_status phy ! 1 \<noteq> 0 then 3 else 0), led_modes_present := True\<rparr>)
     (upd True (\<lambda>p. p\<lparr>led_notifications := (if led_notifications_present phy then led_notifications phy
          else notification_defaults), led_notifications_present := True\<rparr>)
     (upd True (\<lambda>p. p\<lparr>led_status := (if led_status_present phy then led_status phy else status_defaults),
          led_status_present := True\<rparr>)
     (upd (led_order_present phy \<and> \<not> led_driver_present phy)
          (\<lambda>p. p\<lparr>led_order := led_order phy, led_order_present := True\<rparr>)
     (upd (led_driver_present phy \<and> led_order_present phy)
          (\<lambda>p. p\<lparr>led_order := led_order phy, led_order_present := True\<rparr>)
     (upd (led_driver_present phy) (\<lambda>p. p\<lparr>led_driver := led_driver phy, led_driver_present := True\<rparr>)
     (upd (enabled_usb_itf_present phy)
          (\<lambda>p. p\<lparr>enabled_usb_itf := enabled_usb_itf phy, enabled_usb_itf_present := True\<rparr>)
     (upd (enabled_curves_present phy)
          (\<lambda>p. p\<lparr>enabled_curves := enabled_curves phy, enabled_curves_present := True\<rparr>)
     (upd (usb_manufacturer_present phy) (\<lambda>p. p\<lparr>usb_manufacturer := name_norm (usb_manufacturer phy),
          usb_manufacturer_present := cstr (usb_manufacturer phy) \<noteq> []\<rparr>)
     (upd (usb_product_present phy) (\<lambda>p. p\<lparr>usb_product := name_norm (usb_product phy),
          usb_product_present := cstr (usb_product phy) \<noteq> []\<rparr>)
     (upd (up_btn_present phy) (\<lambda>p. p\<lparr>up_btn := up_btn phy, up_btn_present := True\<rparr>)
     (upd True (\<lambda>p. p\<lparr>opts := opts phy\<rparr>)
     (upd (led_brightness_present phy)
          (\<lambda>p. p\<lparr>led_brightness := led_brightness phy, led_brightness_present := True\<rparr>)
     (upd (led_gpio_present phy) (\<lambda>p. p\<lparr>led_gpio := led_gpio phy, led_gpio_present := True\<rparr>)
     (upd (vidpid_present phy) (\<lambda>p. p\<lparr>vidpid := [vidpid phy ! 0, vidpid phy ! 1, vidpid phy ! 2, vidpid phy ! 3],
          vidpid_present := True\<rparr>) phy_zero))))))))))))))))"
    unfolding phy_items_def
    apply (simp only: append_assoc read_back)
    apply (subst read_items_names(1))
      apply (use ok in simp)
     apply (simp add: upd_ignored phy_zero_def)
    apply (subst read_items_names(2))
      apply (use ok in simp)
     apply (simp add: upd_ignored phy_zero_def)
    apply (simp only: append_assoc read_back)
    apply (subst read_items_driver(1))
     apply (use ok in simp)
    apply (subst read_items_driver(2))
     apply (use ok in simp)
    apply (subst read_items_leds(1))
     apply (use ok leds_ok in simp)
    apply (subst read_items_leds(2))
     apply (use ok leds_ok in simp)
    apply (subst read_items_leds(3))
     apply (use ok in simp)
    apply (rule read_items.simps(3))
    done
  show ?thesis
    unfolding shape
    apply (rule arg_cong [of _ _ "Pair PICOKEYS_OK"])
    apply (simp add: upd_push phy_zero_def read_defaults_upd cong: if_cong split del: if_split)
    apply (unfold phy_norm_def phy_data.ext_inject)
    apply (intro conjI refl)
    using ok vidpid_nth [of "vidpid phy"] by auto
qed

lemma phy_items_length: "phy_ok phy \<Longrightarrow> length (phy_items phy) \<le> PHY_MAX_SIZE"
proof -
  assume ok: "phy_ok phy"
  have "length (phy_items phy) \<le> 6 + (3 + (3 + (4 + (3 + (34 + (34 + (6 + (3 + (4 + (3 + (12 + (9 + 4))))))))))))"
    using cstr_length [of "usb_product phy"] cstr_length [of "usb_manufacturer phy"] ok
    unfolding phy_items_def length_append
    by (intro add_mono) (auto simp: phy_ok_def item_def status_ok_def notifications_ok_def
        status_defaults_def notification_defaults_def)
  then show ?thesis by (simp add: PHY_MAX_SIZE_def)
qed

section \<open>Properties\<close>

text \<open>C36: settings the device can hold survive being written and read back at the next start: the
  written items fit the 128-byte buffer, and reading them yields the same settings with the
  absent ones at their defaults.\<close>

theorem phy_roundtrip:
  assumes "phy_ok phy" and "PHY_MAX_SIZE \<le> room"
  shows "\<exists>d. phy_serialize_data (Some phy) room = (PICOKEYS_OK, d) \<and> length d \<le> PHY_MAX_SIZE \<and>
             phy_init (Some d) = (PICOKEYS_OK, phy_norm phy)"
proof -
  have "phy_serialize_data (Some phy) room = (PICOKEYS_OK, phy_items phy)"
    using assms by (auto simp: phy_serialize_data_def phy_ok_def name_ok_def)
  moreover have "phy_init (Some (phy_items phy)) = (PICOKEYS_OK, phy_norm phy)"
    using phy_items_read [OF assms(1)] phy_items_length [OF assms(1)]
    by (simp add: phy_init_def phy_load_def phy_unserialize_data_def phy_items_nonempty PHY_MAX_SIZE_def
        phy_led_defaults_norm)
  ultimately show ?thesis
    using phy_items_length [OF assms(1)] by blast
qed

text \<open>A device with a product name, a button timeout and an LED order, other settings absent.\<close>

definition phy_example :: phy_data where
  "phy_example = phy_zero\<lparr>opts := 0x0104, usb_product := [0x50, 0x4B] @ replicate 30 0,
     usb_product_present := True, up_btn := 30, up_btn_present := True, led_order := 2, led_order_present := True\<rparr>"

theorem phy_roundtrip_witness:
  "\<exists>d. phy_serialize_data (Some phy_example) 128 = (PICOKEYS_OK, d) \<and> length d \<le> 128 \<and>
     phy_init (Some d) = (PICOKEYS_OK, phy_norm phy_example) \<and>
     up_btn (phy_norm phy_example) = 30 \<and> usb_product (phy_norm phy_example) = usb_product phy_example"
proof -
  have "phy_ok phy_example"
    by (simp add: phy_ok_def phy_example_def phy_zero_def name_ok_def)
  moreover have "up_btn (phy_norm phy_example) = 30"
      "usb_product (phy_norm phy_example) = usb_product phy_example"
    by (simp_all add: phy_example_def phy_norm_def name_norm_def cstr_def)
  ultimately show ?thesis
    using phy_roundtrip [of phy_example 128] by (simp add: PHY_MAX_SIZE_def)
qed

lemma read_name_length: "read_name v = Some n \<Longrightarrow> length n < 32"
  by (auto simp: read_name_def Let_def split: if_splits)

lemma overwrite_name_ok: "length n < 32 \<Longrightarrow> length s = 32 \<Longrightarrow> s ! 31 = 0 \<Longrightarrow>
    length (overwrite 0 n s) = 32 \<and> overwrite 0 n s ! 31 = 0"
  by (simp add: nth_overwrite)

text \<open>What every intermediate record satisfies.\<close>

definition read_inv :: "phy_data \<Rightarrow> bool" where
  "read_inv p \<longleftrightarrow> phy_ok p \<and> length (usb_product p) = 32 \<and> usb_product p ! 31 = 0 \<and>
     length (usb_manufacturer p) = 32 \<and> usb_manufacturer p ! 31 = 0"

lemma name_okI: "length s = 32 \<Longrightarrow> s ! 31 = 0 \<Longrightarrow> name_ok s"
  using nth_mem [of 31 s] by (simp add: name_ok_def)

lemma read_inv_upds:
  assumes "read_inv p"
  shows "read_inv (p\<lparr>vidpid := [a, b, c, d], vidpid_present := True\<rparr>)"
    "read_inv (p\<lparr>led_gpio := a, led_gpio_present := True\<rparr>)"
    "read_inv (p\<lparr>led_brightness := a, led_brightness_present := True\<rparr>)"
    "read_inv (p\<lparr>opts := w\<rparr>)"
    "read_inv (p\<lparr>up_btn := a, up_btn_present := True\<rparr>)"
    "length n < 32 \<Longrightarrow> read_inv (p\<lparr>usb_product := overwrite 0 n (usb_product p), usb_product_present := e\<rparr>)"
    "length n < 32 \<Longrightarrow>
       read_inv (p\<lparr>usb_manufacturer := overwrite 0 n (usb_manufacturer p), usb_manufacturer_present := e\<rparr>)"
    "read_inv (p\<lparr>enabled_curves := x, enabled_curves_present := True\<rparr>)"
    "read_inv (p\<lparr>enabled_usb_itf := a, enabled_usb_itf_present := True\<rparr>)"
    "read_inv (p\<lparr>led_driver := a, led_driver_present := True\<rparr>)"
    "a \<le> 5 \<Longrightarrow> read_inv (p\<lparr>led_driver := b, led_driver_present := True, led_order := a, led_order_present := True\<rparr>)"
    "a \<le> 5 \<Longrightarrow> read_inv (p\<lparr>led_order := a, led_order_present := True\<rparr>)"
    "a AND 0x80 = 0 \<Longrightarrow> read_inv (p\<lparr>led_modes := a, led_modes_present := True\<rparr>)"
    "notifications_ok v \<Longrightarrow> read_inv (p\<lparr>led_notifications := v, led_notifications_present := True\<rparr>)"
    "status_ok v \<Longrightarrow> read_inv (p\<lparr>led_status := v, led_status_present := True\<rparr>)"
  using assms overwrite_name_ok [of n] name_okI
  by (simp_all add: read_inv_def phy_ok_def)

lemma led_items_ok:
  "length v = 10 \<Longrightarrow> v ! 0 = 1 \<Longrightarrow> \<not> 1 < v ! 1 \<Longrightarrow> \<not> list_ex (\<lambda>i. 7 < v ! (2 + i * 2)) [0 ..< 4] \<Longrightarrow> status_ok v"
  "length v = 7 \<Longrightarrow> v ! 0 = 1 \<Longrightarrow> \<not> list_ex (\<lambda>i. 7 < v ! (1 + i * 2)) [0 ..< 3] \<Longrightarrow> notifications_ok v"
  by (auto simp: status_ok_def notifications_ok_def list_ex_iff not_less)

definition opt_inv :: "phy_data option \<Rightarrow> bool" where
  "opt_inv x = (case x of None \<Rightarrow> True | Some p \<Rightarrow> read_inv p)"

lemma opt_inv_intros:
  "opt_inv None" "read_inv p \<Longrightarrow> opt_inv (Some p)"
  "(c \<Longrightarrow> opt_inv x) \<Longrightarrow> (\<not> c \<Longrightarrow> opt_inv y) \<Longrightarrow> opt_inv (if c then x else y)"
  "(\<And>n. z = Some n \<Longrightarrow> read_inv (f n)) \<Longrightarrow> opt_inv (map_option f z)"
  by (auto simp: opt_inv_def split: option.splits)

lemma read_inv_if: "(c \<Longrightarrow> read_inv x) \<Longrightarrow> (\<not> c \<Longrightarrow> read_inv y) \<Longrightarrow> read_inv (if c then x else y)"
  by simp

lemma read_item_opt_inv:
  assumes "read_inv p"
  shows "opt_inv (read_item tag v p)"
  unfolding read_item_def Let_def
  by (intro opt_inv_intros)
     ((simp only: read_inv_upds [OF assms];
       (rule read_inv_upds [OF assms] read_inv_if, (simp add: not_less read_name_length led_items_ok; fail)?)+)+)

lemma read_items_inv: "read_inv p \<Longrightarrow> read_inv (snd (read_items data p))"
proof (induction data p rule: read_items.induct)
  case (1 tag tlen data phy)
  then show ?case
    using read_item_opt_inv [of phy tag "take (unat tlen) data"]
    by (auto simp: opt_inv_def split: option.splits)
next
  case (3 phy)
  then show ?case
    by (auto simp: read_defaults_def Let_def read_inv_def phy_ok_def)
qed simp

text \<open>Whatever bytes the settings file holds, well formed or not, the settings record they leave
  is one the device can hold: names are NUL-terminated inside their 32 bytes, the LED order and
  colours are in range, the lengths of the fixed-size settings are right.\<close>

theorem phy_init_ok:
  "phy_ok (snd (phy_init stored)) \<and>
   name_ok (usb_product (snd (phy_init stored))) \<and> name_ok (usb_manufacturer (snd (phy_init stored)))"
proof -
  have zero: "read_inv phy_zero"
    by (simp add: read_inv_def phy_ok_def phy_zero_def)
  have unser: "read_inv (snd (phy_unserialize_data d phy_zero))" for d
    using zero read_items_inv [OF zero] by (auto simp: phy_unserialize_data_def split: option.splits)
  have led: "read_inv (phy_led_defaults p)" if "read_inv p" for p
    using that leds_ok by (simp add: phy_led_defaults_def Let_def read_inv_def phy_ok_def)
  have "read_inv (snd (phy_init stored))"
    using unser led zero by (auto simp: phy_init_def phy_load_def split: option.splits prod.splits)
      (metis snd_conv)+
  then show ?thesis
    using name_okI by (auto simp: read_inv_def split: option.splits)
qed

end
