(* ===== verification/File_Store.thy ===== *)
theory File_Store
  imports Dynamic_Index Tlv
begin

text \<open>
  The files of \<^verbatim>\<open>pico-keys-sdk/src/fs/file.c\<close> at the level their users see: the index of
  \<^verbatim>\<open>File_Index\<close> and, for every file, the data its flash record holds (None when \<open>file->data\<close> is
  NULL). Where a record lies in flash and how the page cache is drained is not looked at here.

  Whether a write, an erase or a synchronous commit succeeds is decided by \<open>flash\<close>, the outcomes
  of the coming flash operations in order (all succeed once the list is used up): every statement
  that holds for all lists holds for every pattern of failures, and a power cut is the list that
  fails from some point on. A failed write answers a code other than \<open>PICOKEYS_OK\<close> and leaves the
  old data, or, when it was overwriting a record in place, any bytes.

  The metadata file \<open>EF_META\<close> keeps, for a FID, a TLV item whose value starts with that FID.
  Memory allocation is taken to succeed: the answer MEMORY_FATAL of \<open>meta_add\<close> when \<open>realloc\<close> fails is not
  modelled (its \<open>calloc\<close> and its other \<open>realloc\<close> are not checked by the code).
\<close>

section \<open>State\<close>

datatype flash_outcome = Done | Failed pk_status "byte list option"

record file_store =
  ix :: file_index
  content :: "file_ref \<Rightarrow> byte list option"
  flash :: "flash_outcome list"

definition next_outcome :: "file_store \<Rightarrow> flash_outcome \<times> file_store" where
  "next_outcome st = (case flash st of [] \<Rightarrow> (Done, st) | r # rs \<Rightarrow> (r, st\<lparr>flash := rs\<rparr>))"

definition fail_code :: "pk_status \<Rightarrow> pk_status" where
  "fail_code s = (if s = PICOKEYS_OK then PICOKEYS_ERR_NO_MEMORY else s)"

definition set_content :: "file_ref \<Rightarrow> byte list option \<Rightarrow> file_store \<Rightarrow> file_store" where
  "set_content f d st = st\<lparr>content := (content st)(f := d)\<rparr>"

section \<open>Reading\<close>

definition file_get_data :: "file_store \<Rightarrow> file_ref option \<Rightarrow> byte list" where
  "file_get_data st f =
     (case f of None \<Rightarrow> [] | Some r \<Rightarrow> (case content st r of None \<Rightarrow> [] | Some d \<Rightarrow> d))"

definition file_get_size :: "file_store \<Rightarrow> file_ref option \<Rightarrow> nat" where
  "file_get_size st f = length (file_get_data st f)"

definition file_has_data :: "file_store \<Rightarrow> file_ref option \<Rightarrow> bool" where
  "file_has_data st f \<longleftrightarrow> (\<exists>r. f = Some r \<and> content st r \<noteq> None) \<and> 0 < file_get_size st f"

definition file_read_at :: "file_store \<Rightarrow> file_ref option \<Rightarrow> nat \<Rightarrow> nat \<Rightarrow> pk_status \<times> byte list" where
  "file_read_at st f off n =
     (if f = None \<or> content st (the f) = None then (PICOKEYS_ERR_NULL_PARAM, [])
      else if file_get_size st f < off \<or> file_get_size st f - off < n then (PICOKEYS_ERR_NULL_PARAM, [])
      else (PICOKEYS_OK, bslice off n (file_get_data st f)))"

section \<open>Writing\<close>

definition flash_write :: "file_ref \<Rightarrow> byte list \<Rightarrow> file_store \<Rightarrow> pk_status \<times> file_store" where
  "flash_write f d st =
     (case next_outcome st of
        (Done, st1) \<Rightarrow> (PICOKEYS_OK, set_content f (Some d) st1)
      | (Failed s torn, st1) \<Rightarrow>
          (fail_code s,
           if content st f = None \<or> torn = None then st1 else set_content f torn st1))"

definition file_put_data :: "file_ref option \<Rightarrow> byte list \<Rightarrow> file_store \<Rightarrow> pk_status \<times> file_store" where
  "file_put_data f d st =
     (case f of None \<Rightarrow> (PICOKEYS_ERR_NULL_PARAM, st) | Some r \<Rightarrow> flash_write r d st)"

definition file_put_data_offset ::
    "file_ref option \<Rightarrow> byte list \<Rightarrow> nat \<Rightarrow> file_store \<Rightarrow> pk_status \<times> file_store" where
  "file_put_data_offset f d off st =
     (case f of None \<Rightarrow> (PICOKEYS_ERR_NULL_PARAM, st)
      | Some r \<Rightarrow>
          if file_get_size st f < off then (PICOKEYS_ERR_NO_MEMORY, st)
          else flash_write r (take off (file_get_data st f) @ d @ drop (off + length d) (file_get_data st f)) st)"

definition flash_clear_file :: "file_ref option \<Rightarrow> file_store \<Rightarrow> pk_status \<times> file_store" where
  "flash_clear_file f st =
     (case f of None \<Rightarrow> (PICOKEYS_OK, st)
      | Some r \<Rightarrow>
          if content st r = None then (PICOKEYS_OK, st)
          else case next_outcome st of
                 (Done, st1) \<Rightarrow> (PICOKEYS_OK, set_content r None st1)
               | (Failed s torn, st1) \<Rightarrow>
                   (PICOKEYS_EXEC_ERROR, if torn = None then st1 else set_content r torn st1))"

definition flash_commit_sync :: "file_store \<Rightarrow> bool \<times> file_store" where
  "flash_commit_sync st = (case next_outcome st of (r, st1) \<Rightarrow> (r = Done, st1))"

definition fs_search :: "file_store \<Rightarrow> u16 \<Rightarrow> file_ref option" where
  "fs_search st fid = file_search (ix st) fid"

definition fs_new :: "u16 \<Rightarrow> file_store \<Rightarrow> file_ref option \<times> file_store" where
  "fs_new fid st =
     (case file_new fid (ix st) of
        (None, i) \<Rightarrow> (None, st\<lparr>ix := i\<rparr>)
      | (Some f, i) \<Rightarrow>
          (Some f, if fs_search st fid = None then set_content f None (st\<lparr>ix := i\<rparr>) else st\<lparr>ix := i\<rparr>))"

section \<open>Metadata\<close>

definition EF_META :: u16 where "EF_META = 0xE010"

text \<open>The loops below visit the items of \<open>EF_META\<close> with the cursor behind each, and skip those
  too short to hold a FID.\<close>

definition meta_item :: "byte list \<Rightarrow> u16 \<Rightarrow> (tlv_item \<times> nat) option" where
  "meta_item data fid =
     find (\<lambda>(it, _). 2 \<le> length (item_value it) \<and> get_uint16_be (item_value it) = fid) (tlv_items data 0)"

definition meta_find :: "file_store \<Rightarrow> u16 \<Rightarrow> byte list option" where
  "meta_find st fid =
     (case fs_search st EF_META of
        None \<Rightarrow> None
      | Some ef \<Rightarrow> map_option (\<lambda>(it, _). drop 2 (item_value it)) (meta_item (file_get_data st (Some ef)) fid))"

text \<open>The file without the item that ends at \<open>p\<close>; the position of its tag is computed from the
  length of its value, for a one-byte tag and the shortest length encoding.\<close>

definition meta_cut :: "byte list \<Rightarrow> tlv_item \<Rightarrow> nat \<Rightarrow> byte list" where
  "meta_cut data it p =
     take (p - length (item_value it) - length (tlv_format_len (of_nat (length (item_value it)))) - 1) data
       @ drop p data"

definition meta_delete_internal :: "u16 \<Rightarrow> file_store \<Rightarrow> pk_status \<times> file_store" where
  "meta_delete_internal fid st =
     (case fs_search st EF_META of
        None \<Rightarrow> (PICOKEYS_ERR_FILE_NOT_FOUND, st)
      | Some ef \<Rightarrow>
          (case meta_item (file_get_data st (Some ef)) fid of
             None \<Rightarrow> (PICOKEYS_OK, st)
           | Some (it, p) \<Rightarrow>
               let rest = meta_cut (file_get_data st (Some ef)) it p in
               if rest = [] then flash_clear_file (Some ef) st
               else let (r, st1) = file_put_data (Some ef) rest st
                    in (if r \<noteq> PICOKEYS_OK then PICOKEYS_EXEC_ERROR else PICOKEYS_OK, st1)))"

definition meta_entry :: "byte \<Rightarrow> u16 \<Rightarrow> byte list \<Rightarrow> byte list" where
  "meta_entry tag fid data =
     tag # tlv_format_len (of_nat (length data) + 2) @ put_uint16_be fid @ data"

text \<open>
  The buffer \<open>meta_add\<close> builds when the FID has an item of another size: the items behind it move
  down over it, the size changes by the difference of the value lengths, and the new item is
  written behind them. None is a write past the end of the buffer.
\<close>

definition meta_realloc :: "byte list \<Rightarrow> tlv_item \<Rightarrow> nat \<Rightarrow> u16 \<Rightarrow> byte list \<Rightarrow> byte list option" where
  "meta_realloc fdata it p fid data =
     (let tag_len = length (item_value it);
          tpos = p - unat (tlv_len_tag (item_tag it) (of_nat tag_len));
          moved = overwrite tpos (drop p fdata) fdata;
          meta_offset = tpos + (length fdata - p);
          ef_size = length fdata + length data + 2 - tag_len;
          buffer = moved @ replicate (ef_size - length fdata) 0;
          entry = meta_entry (ucast (fid AND 0xff)) fid data
      in if length buffer < meta_offset + length entry then None
         else Some (take ef_size (overwrite meta_offset entry buffer)))"

definition meta_bytes :: "byte list \<Rightarrow> u16 \<Rightarrow> byte list \<Rightarrow> byte list option" where
  "meta_bytes fdata fid data =
     (case meta_item fdata fid of
        None \<Rightarrow> Some (fdata @ meta_entry (ucast (fid AND 0x1f)) fid data)
      | Some (it, p) \<Rightarrow>
          if length (item_value it) - 2 = length data
          then Some (overwrite (p - length (item_value it) + 2) data fdata)
          else meta_realloc fdata it p fid data)"

definition meta_add :: "u16 \<Rightarrow> byte list option \<Rightarrow> file_store \<Rightarrow> (pk_status \<times> file_store) option" where
  "meta_add fid data st =
     (if data = None \<or> 0xffff < length (the data) then Some (PICOKEYS_ERR_NULL_PARAM, st)
      else case fs_search st EF_META of
             None \<Rightarrow> Some (PICOKEYS_ERR_FILE_NOT_FOUND, st)
           | Some ef \<Rightarrow>
               (case meta_bytes (file_get_data st (Some ef)) fid (the data) of
                  None \<Rightarrow> None
                | Some fdata \<Rightarrow>
                    let (r, st1) = file_put_data (Some ef) fdata st
                    in Some (if r \<noteq> PICOKEYS_OK then PICOKEYS_EXEC_ERROR else PICOKEYS_OK, st1)))"

section \<open>Deleting\<close>

definition fs_delete_dynamic :: "file_ref \<Rightarrow> file_store \<Rightarrow> pk_status \<times> file_store" where
  "fs_delete_dynamic f st =
     (case delete_dynamic_file f (ix st) of
        (r, i) \<Rightarrow> (r, if r = PICOKEYS_OK then set_content f None (st\<lparr>ix := i\<rparr>) else st))"

text \<open>The status of the value and of the metadata.\<close>

definition file_delete_no_commit_parts :: "file_ref option \<Rightarrow> file_store \<Rightarrow> (pk_status \<times> pk_status) \<times> file_store" where
  "file_delete_no_commit_parts ef st =
     (case ef of
        None \<Rightarrow> ((PICOKEYS_OK, PICOKEYS_OK), st)
      | Some f \<Rightarrow>
          let (m, st1) = meta_delete_internal (file_fid (ix st) f) st;
              metadata = (if m = PICOKEYS_ERR_FILE_NOT_FOUND then PICOKEYS_OK else m);
              (c, st2) = flash_clear_file ef st1
          in if c \<noteq> PICOKEYS_OK then ((PICOKEYS_EXEC_ERROR, metadata), st2)
             else let (r, st3) = fs_delete_dynamic f st2
                  in ((if r \<noteq> PICOKEYS_OK \<and> r \<noteq> PICOKEYS_ERR_FILE_NOT_FOUND then PICOKEYS_EXEC_ERROR
                       else PICOKEYS_OK, metadata), st3))"

definition file_delete_no_commit :: "file_ref option \<Rightarrow> file_store \<Rightarrow> pk_status \<times> file_store" where
  "file_delete_no_commit ef st =
     (let ((value, metadata), st1) = file_delete_no_commit_parts ef st
      in (if value \<noteq> PICOKEYS_OK then value else metadata, st1))"

section \<open>Dynamic files other than the metadata\<close>

text \<open>What a client stores by FID: the data of the file, None when there is none.\<close>

definition fdata :: "file_store \<Rightarrow> u16 \<Rightarrow> byte list option" where
  "fdata st fid = (case fs_search st fid of None \<Rightarrow> None | Some f \<Rightarrow> content st f)"

definition plain :: "file_store \<Rightarrow> u16 \<Rightarrow> bool" where
  "plain st fid \<longleftrightarrow> dynamic_only (ix st) fid \<and> fid \<noteq> EF_META"

text \<open>The metadata file itself is a dynamic one: the application lists none.\<close>

definition meta_free :: "file_store \<Rightarrow> bool" where
  "meta_free st \<longleftrightarrow> dynamic_only (ix st) EF_META"

definition store_inv :: "file_store \<Rightarrow> bool" where
  "store_inv st \<longleftrightarrow> dyn_inv (ix st)"

text \<open>\<open>st'\<close> differs from \<open>st\<close> in the file \<open>fid\<close> at most, and in the metadata.\<close>

definition only_at :: "u16 \<Rightarrow> file_store \<Rightarrow> file_store \<Rightarrow> bool" where
  "only_at fid st st' \<longleftrightarrow>
     store_inv st' \<and> (\<forall>x. plain st' x = plain st x) \<and> meta_free st' = meta_free st \<and>
     (\<forall>x. plain st x \<longrightarrow> x \<noteq> fid \<longrightarrow> fdata st' x = fdata st x \<and> fs_search st' x = fs_search st x)"

lemma only_at_refl: "store_inv st \<Longrightarrow> only_at fid st st"
  by (simp add: only_at_def)

lemma only_at_trans: "only_at fid st st1 \<Longrightarrow> only_at fid st1 st2 \<Longrightarrow> only_at fid st st2"
  by (simp add: only_at_def)

lemma only_at_inv: "only_at fid st st' \<Longrightarrow> store_inv st'"
  by (simp add: only_at_def)

lemma only_at_plain: "only_at fid st st' \<Longrightarrow> plain st' x = plain st x"
  by (simp add: only_at_def)

lemma only_at_other: "only_at fid st st' \<Longrightarrow> plain st x \<Longrightarrow> x \<noteq> fid \<Longrightarrow> fdata st' x = fdata st x"
  by (simp add: only_at_def)

lemma fs_search_plain:
  "store_inv st \<Longrightarrow> plain st fid \<Longrightarrow>
   fs_search st fid = map_option Dyn (dyn_slot (ix st) (active_namespace (ix st), fid))"
  by (simp add: fs_search_def store_inv_def plain_def file_search_dynamic)

lemma search_by_fid_not_Dyn: "file_search_by_fid i fid p sp \<noteq> Some (Dyn j)"
  by (auto simp: file_search_by_fid_def)

lemma fs_search_distinct:
  assumes "store_inv st" "plain st fid" "fs_search st fid = Some f" "fs_search st g = Some f" "fid_ok g"
  shows "g = fid"
proof -
  from assms obtain i where i: "f = Dyn i" "dyn_slot (ix st) (active_namespace (ix st), fid) = Some i"
    by (auto simp: fs_search_plain)
  with assms(4) have "file_search_by_fid (ix st) g None 1 = None"
    using search_by_fid_not_Dyn by (fastforce simp: fs_search_def file_search_def split: option.splits)
  with assms(5) have "dynamic_only (ix st) g" by (simp add: dynamic_only_def)
  with assms(1,4) i(1) have "dyn_slot (ix st) (active_namespace (ix st), g) = Some i"
    by (simp add: fs_search_def store_inv_def file_search_dynamic)
  with i(2) assms(1) show ?thesis
    by (simp add: dyn_slot_Some store_inv_def dkey_def)
qed

lemma fid_ok_EF_META: "fid_ok EF_META"
  by (simp add: fid_ok_def EF_META_def index_consts)

lemma plain_fid_ok: "plain st x \<Longrightarrow> fid_ok x"
  by (simp add: plain_def dynamic_only_def)

text \<open>Steps that leave the index alone.\<close>

lemma next_outcome_fields [simp]:
  "ix (snd (next_outcome st)) = ix st" "content (snd (next_outcome st)) = content st"
  by (simp_all add: next_outcome_def split: list.split)

lemma set_content_fields [simp]:
  "ix (set_content f d st) = ix st" "content (set_content f d st) = (content st)(f := d)"
  "flash (set_content f d st) = flash st"
  by (simp_all add: set_content_def)

lemma same_ix: "ix st' = ix st \<Longrightarrow> fs_search st' = fs_search st \<and> store_inv st' = store_inv st \<and> plain st' = plain st \<and> meta_free st' = meta_free st"
  by (auto simp: fs_search_def store_inv_def plain_def meta_free_def fun_eq_iff)

lemma fail_code_neq [simp]: "fail_code s \<noteq> PICOKEYS_OK"
  by (simp add: fail_code_def)

lemma flash_write_step:
  assumes "flash_write f d st = (r, st')"
  shows "ix st' = ix st" "\<And>g. g \<noteq> f \<Longrightarrow> content st' g = content st g"
    "r = PICOKEYS_OK \<Longrightarrow> content st' f = Some d"
    "r \<noteq> PICOKEYS_OK \<Longrightarrow> content st f = None \<Longrightarrow> content st' f = None"
    "flash st = [] \<Longrightarrow> r = PICOKEYS_OK \<and> flash st' = []"
  using assms by (auto simp: flash_write_def next_outcome_def split: flash_outcome.splits list.splits)

lemma flash_clear_step:
  assumes "flash_clear_file (Some f) st = (r, st')"
  shows "ix st' = ix st" "\<And>g. g \<noteq> f \<Longrightarrow> content st' g = content st g"
    "r = PICOKEYS_OK \<Longrightarrow> content st' f = None"
    "flash st = [] \<Longrightarrow> r = PICOKEYS_OK \<and> flash st' = []"
  using assms by (auto simp: flash_clear_file_def next_outcome_def split: flash_outcome.splits list.splits if_splits)

lemma content_only_at:
  assumes "store_inv st" "plain st fid" "fs_search st fid = Some f" "ix st' = ix st"
    and "\<And>g. g \<noteq> f \<Longrightarrow> content st' g = content st g"
  shows "only_at fid st st'" "fs_search st' fid = Some f" "fdata st' fid = content st' f"
proof -
  have "fdata st' x = fdata st x" if "plain st x" "x \<noteq> fid" for x
  proof -
    have "fs_search st x \<noteq> Some f"
      using fs_search_distinct [OF assms(1-3), of x] plain_fid_ok [OF that(1)] that(2) by blast
    then show ?thesis
      using same_ix [OF assms(4)] assms(5) by (auto simp: fdata_def split: option.split)
  qed
  with assms same_ix [OF assms(4)] show "only_at fid st st'" "fs_search st' fid = Some f"
      "fdata st' fid = content st' f"
    by (simp_all add: only_at_def fdata_def)
qed

lemma put_data_law:
  assumes "store_inv st" "plain st fid" "fs_search st fid = Some f"
    and "file_put_data (Some f) d st = (r, st')"
  shows "only_at fid st st'" "fs_search st' fid = Some f" "r = PICOKEYS_OK \<Longrightarrow> fdata st' fid = Some d"
    "r \<noteq> PICOKEYS_OK \<Longrightarrow> fdata st fid = None \<Longrightarrow> fdata st' fid = None"
    "flash st = [] \<Longrightarrow> r = PICOKEYS_OK \<and> flash st' = []"
proof -
  have w: "flash_write f d st = (r, st')" using assms(4) by (simp add: file_put_data_def)
  note s = flash_write_step [OF w]
  note c = content_only_at [OF assms(1-3) s(1,2)]
  from c show "only_at fid st st'" "fs_search st' fid = Some f" by simp_all
  from c(3) s assms(3) show "r = PICOKEYS_OK \<Longrightarrow> fdata st' fid = Some d"
      "r \<noteq> PICOKEYS_OK \<Longrightarrow> fdata st fid = None \<Longrightarrow> fdata st' fid = None"
      "flash st = [] \<Longrightarrow> r = PICOKEYS_OK \<and> flash st' = []"
    by (simp_all add: fdata_def)
qed

lemma same_content:
  "ix st' = ix st \<Longrightarrow> content st' = content st \<Longrightarrow> store_inv st \<Longrightarrow>
   only_at fid st st' \<and> fs_search st' = fs_search st \<and> fdata st' = fdata st"
proof -
  assume a: "ix st' = ix st" "content st' = content st" "store_inv st"
  then have "fdata st' x = fdata st x" for x
    using same_ix [of st' st] by (simp add: fdata_def split: option.split)
  with a same_ix [of st' st] show ?thesis by (auto simp: only_at_def)
qed

lemma commit_sync_law:
  assumes "flash_commit_sync st = (b, st')" "store_inv st"
  shows "only_at fid st st'" "fs_search st' = fs_search st" "fdata st' = fdata st"
    "flash st = [] \<Longrightarrow> b \<and> flash st' = []"
proof -
  from assms(1) have "st' = snd (next_outcome st)"
    by (simp add: flash_commit_sync_def case_prod_beta)
  then show "only_at fid st st'" "fs_search st' = fs_search st" "fdata st' = fdata st"
    using same_content [of st' st fid] assms(2) by simp_all
  show "flash st = [] \<Longrightarrow> b \<and> flash st' = []"
    using assms(1) by (auto simp: flash_commit_sync_def next_outcome_def)
qed

text \<open>The metadata step of a deletion: no file of a client changes.\<close>

lemma meta_delete_law:
  assumes "meta_delete_internal fid st = (r, st')" "store_inv st"
  shows "only_at x st st'" "fs_search st' = fs_search st" "plain st y \<Longrightarrow> fdata st' y = fdata st y"
    "ix st' = ix st" "flash st = [] \<Longrightarrow> (r = PICOKEYS_OK \<or> r = PICOKEYS_ERR_FILE_NOT_FOUND) \<and> flash st' = []"
proof -
  have step: "ix st' = ix st \<and> (\<forall>g. fs_search st EF_META \<noteq> Some g \<longrightarrow> content st' g = content st g) \<and>
      (flash st = [] \<longrightarrow> (r = PICOKEYS_OK \<or> r = PICOKEYS_ERR_FILE_NOT_FOUND) \<and> flash st' = [])"
  proof (cases "fs_search st EF_META")
    case None
    with assms(1) show ?thesis by (simp add: meta_delete_internal_def)
  next
    case (Some ef)
    show ?thesis
    proof (cases "meta_item (file_get_data st (Some ef)) fid")
      case None
      with assms(1) Some show ?thesis by (simp add: meta_delete_internal_def)
    next
      case m: (Some itp)
      obtain it p where itp: "itp = (it, p)" by (cases itp)
      let ?rest = "meta_cut (file_get_data st (Some ef)) it p"
      show ?thesis
      proof (cases "?rest = []")
        case True
        with assms(1) Some m itp have "flash_clear_file (Some ef) st = (r, st')"
          by (simp add: meta_delete_internal_def)
        from flash_clear_step [OF this] Some show ?thesis by auto
      next
        case False
        obtain r1 st1 where w: "flash_write ef ?rest st = (r1, st1)" by (cases "flash_write ef ?rest st")
        with assms(1) Some m itp False have "st' = st1" "r = (if r1 \<noteq> PICOKEYS_OK then PICOKEYS_EXEC_ERROR else PICOKEYS_OK)"
          by (auto simp: meta_delete_internal_def file_put_data_def)
        with flash_write_step [OF w] Some show ?thesis by auto
      qed
    qed
  qed
  then show "ix st' = ix st"
    "flash st = [] \<Longrightarrow> (r = PICOKEYS_OK \<or> r = PICOKEYS_ERR_FILE_NOT_FOUND) \<and> flash st' = []" by blast+
  then have s: "fs_search st' = fs_search st" "store_inv st' = store_inv st" "plain st' = plain st" "meta_free st' = meta_free st"
    using same_ix [of st' st] by blast+
  have d: "fdata st' y = fdata st y" if "plain st y" for y
  proof (cases "fs_search st y")
    case None
    with s show ?thesis by (simp add: fdata_def)
  next
    case (Some f)
    have "fs_search st EF_META \<noteq> Some f"
      using fs_search_distinct [OF assms(2) that Some, of EF_META] fid_ok_EF_META that by (auto simp: plain_def)
    with step s Some show ?thesis by (simp add: fdata_def)
  qed
  then show "plain st y \<Longrightarrow> fdata st' y = fdata st y" .
  from d s assms(2) show "only_at x st st'" "fs_search st' = fs_search st"
    by (simp_all add: only_at_def)
qed

text \<open>Creating and deleting a file.\<close>

lemma fs_new_law:
  assumes "store_inv st" "plain st fid" "fs_search st fid = None" "fs_new fid st = (r, st')"
  shows "only_at fid st st'" "r = None \<Longrightarrow> st' = st" "r = Some f \<Longrightarrow> fs_search st' fid = Some f \<and> fdata st' fid = None"
    "dynamic_files (ix st) < MAX_DYNAMIC_FILES \<Longrightarrow> r \<noteq> None" "flash st' = flash st"
proof -
  let ?ns = "active_namespace (ix st)"
  have inv: "dyn_inv (ix st)" and dyn: "dynamic_only (ix st) fid" and none: "dyn_slot (ix st) (?ns, fid) = None"
    using assms fs_search_plain [OF assms(1,2)] by (auto simp: store_inv_def plain_def)
  show "flash st' = flash st"
    using assms(4) by (auto simp: fs_new_def split: prod.splits option.splits if_splits)
  show "only_at fid st st'" "r = None \<Longrightarrow> st' = st" "r = Some f \<Longrightarrow> fs_search st' fid = Some f \<and> fdata st' fid = None"
    "dynamic_files (ix st) < MAX_DYNAMIC_FILES \<Longrightarrow> r \<noteq> None"
  proof -
    consider "MAX_DYNAMIC_FILES \<le> dynamic_files (ix st)" | "dynamic_files (ix st) < MAX_DYNAMIC_FILES" by linarith
    then have "only_at fid st st' \<and> (r = None \<longrightarrow> st' = st) \<and>
      (r = Some f \<longrightarrow> fs_search st' fid = Some f \<and> fdata st' fid = None) \<and>
      (dynamic_files (ix st) < MAX_DYNAMIC_FILES \<longrightarrow> r \<noteq> None)"
    proof cases
      case 1
      then have "fs_new fid st = (None, st)"
        using file_new_full [OF inv dyn none] by (simp add: fs_new_def)
      with assms 1 show ?thesis by (simp add: only_at_refl)
    next
      case 2
      obtain i where i: "file_new fid (ix st) = (Some (Dyn i), (ix st)\<lparr>dynamic_file := (dynamic_file (ix st))
            [i := \<lparr>df_data = None, df_fid = fid, df_namespace_id = ?ns\<rparr>],
            dynamic_files := dynamic_files (ix st) + 1\<rparr>)"
          "dyn_inv (snd (file_new fid (ix st)))"
          "dyn_slot (snd (file_new fid (ix st))) = (dyn_slot (ix st))((?ns, fid) \<mapsto> i)"
        by (rule file_new_fresh [OF inv dyn none 2])
      let ?ix = "snd (file_new fid (ix st))"
      have st': "r = Some (Dyn i)" "ix st' = ?ix" "content st' = (content st)(Dyn i := None)"
        using assms(3,4) i(1) by (auto simp: fs_new_def)
      have same: "namespaces ?ix = namespaces (ix st)" "active_namespace ?ix = ?ns"
        using i(1) by simp_all
      have plain: "plain st' x = plain st x" for x
        by (simp add: plain_def dynamic_only_def st' search_by_fid_cong [OF same])
      have mf: "meta_free st' = meta_free st"
        by (simp add: meta_free_def dynamic_only_def st' search_by_fid_cong [OF same])
      have inv': "store_inv st'" using i(2) st' by (simp add: store_inv_def)
      have search: "fs_search st' x = (if x = fid then Some (Dyn i) else fs_search st x)" if "plain st x" for x
        using that plain fs_search_plain [OF inv', of x] fs_search_plain [OF assms(1), of x] i(3) st' same
        by (simp add: case_prod_beta)
      have "fs_search st x \<noteq> Some (Dyn i)" if "plain st x" "x \<noteq> fid" for x
      proof
        assume a: "fs_search st x = Some (Dyn i)"
        then have "fs_search st' x = Some (Dyn i)" using search that by simp
        with search [OF assms(2)] fs_search_distinct [OF inv', of fid "Dyn i" x] plain that plain_fid_ok [OF that(1)] assms(2)
        show False by simp
      qed
      then have "fdata st' x = fdata st x" if "plain st x" "x \<noteq> fid" for x
        using that search [of x] st' by (auto simp: fdata_def split: option.split)
      with st' plain mf inv' search assms(2) show ?thesis
        by (auto simp: only_at_def fdata_def)
    qed
    then show "only_at fid st st'" "r = None \<Longrightarrow> st' = st" "r = Some f \<Longrightarrow> fs_search st' fid = Some f \<and> fdata st' fid = None"
      "dynamic_files (ix st) < MAX_DYNAMIC_FILES \<Longrightarrow> r \<noteq> None"
      by blast+
  qed
qed

lemma fs_delete_dynamic_law:
  assumes "store_inv st" "plain st fid" "fs_search st fid = Some f" "fs_delete_dynamic f st = (r, st')"
  shows "r = PICOKEYS_OK" "only_at fid st st'" "fs_search st' fid = None" "flash st' = flash st"
proof -
  let ?ns = "active_namespace (ix st)"
  from assms obtain i where i: "f = Dyn i" "dyn_slot (ix st) (?ns, fid) = Some i"
    by (auto simp: fs_search_plain)
  have inv: "dyn_inv (ix st)" using assms(1) by (simp add: store_inv_def)
  note d = delete_dynamic_file_live [OF inv i(2)]
  let ?ix = "snd (delete_dynamic_file (Dyn i) (ix st))"
  have st': "r = PICOKEYS_OK" "ix st' = ?ix" "content st' = (content st)(f := None)" "flash st' = flash st"
    using assms(4) d(1) i(1) by (auto simp: fs_delete_dynamic_def split: prod.splits if_splits)
  then show "r = PICOKEYS_OK" "flash st' = flash st" by simp_all
  have same: "namespaces ?ix = namespaces (ix st)" "active_namespace ?ix = ?ns"
    by (simp_all add: delete_dynamic_file_def)
  have plain: "plain st' x = plain st x" for x
    by (simp add: plain_def dynamic_only_def st' search_by_fid_cong [OF same])
  have mf: "meta_free st' = meta_free st"
    by (simp add: meta_free_def dynamic_only_def st' search_by_fid_cong [OF same])
  have inv': "store_inv st'" using d(2) st' by (simp add: store_inv_def)
  have search: "fs_search st' x = (if x = fid then None else fs_search st x)" if "plain st x" for x
    using that plain fs_search_plain [OF inv', of x] fs_search_plain [OF assms(1), of x] d(3) st' same
    by simp
  then show "fs_search st' fid = None" using assms(2) by simp
  have "fdata st' x = fdata st x" if "plain st x" "x \<noteq> fid" for x
  proof -
    have "fs_search st x \<noteq> Some f"
      using fs_search_distinct [OF assms(1-3), of x] plain_fid_ok [OF that(1)] that(2) by blast
    then show ?thesis
      using that search [of x] st' by (auto simp: fdata_def split: option.split)
  qed
  with plain mf inv' search show "only_at fid st st'"
    by (simp add: only_at_def)
qed

lemma file_delete_law:
  assumes "store_inv st" "plain st fid" "fs_search st fid = Some f" "file_delete_no_commit (Some f) st = (r, st')"
  shows "only_at fid st st'" "r = PICOKEYS_OK \<Longrightarrow> fs_search st' fid = None"
    "flash st = [] \<Longrightarrow> r = PICOKEYS_OK \<and> flash st' = []"
proof -
  obtain m st1 where m: "meta_delete_internal (file_fid (ix st) f) st = (m, st1)" by fastforce
  obtain c st2 where c: "flash_clear_file (Some f) st1 = (c, st2)" by fastforce
  obtain e st3 where e: "fs_delete_dynamic f st2 = (e, st3)" by fastforce
  note ml = meta_delete_law [OF m assms(1)]
  have s1: "store_inv st1" "plain st1 fid" "fs_search st1 fid = Some f"
    using ml(1) [of fid] ml(2) assms by (simp_all add: only_at_def)
  note cl = flash_clear_step [OF c]
  note ca = content_only_at [OF s1 cl(1,2)]
  have s2: "store_inv st2" "plain st2 fid" "fs_search st2 fid = Some f"
    using ca s1(2) by (simp_all add: only_at_def)
  note dl = fs_delete_dynamic_law [OF s2 e]
  have "only_at fid st st2" using only_at_trans [OF ml(1) ca(1)] .
  with dl(2) have o3: "only_at fid st st3" using only_at_trans by blast
  define metadata where "metadata = (if m = PICOKEYS_ERR_FILE_NOT_FOUND then PICOKEYS_OK else m)"
  have res: "(r, st') = (if c \<noteq> PICOKEYS_OK then (PICOKEYS_EXEC_ERROR, st2) else (metadata, st3))"
    using assms(4) m c e dl(1)
    by (auto simp: file_delete_no_commit_def file_delete_no_commit_parts_def metadata_def split: if_splits)
  with \<open>only_at fid st st2\<close> o3 show "only_at fid st st'" by (auto split: if_splits)
  from res dl(3) show "r = PICOKEYS_OK \<Longrightarrow> fs_search st' fid = None" by (auto split: if_splits)
  from res ml(5) cl(4) dl(4) show "flash st = [] \<Longrightarrow> r = PICOKEYS_OK \<and> flash st' = []"
    by (auto simp: metadata_def split: if_splits)
qed

text \<open>Outcomes are only consumed, and what a failed operation leaves behind comes from them.\<close>

definition torn_in :: "file_store \<Rightarrow> byte list option \<Rightarrow> bool" where
  "torn_in st d \<longleftrightarrow> (\<exists>s t. Failed s (Some t) \<in> set (flash st) \<and> d = Some t)"

lemma flash_write_outcomes:
  assumes "flash_write f d st = (r, st')"
  shows "set (flash st') \<subseteq> set (flash st)"
    "r \<noteq> PICOKEYS_OK \<Longrightarrow> content st' f = content st f \<or> torn_in st (content st' f)"
  using assms
  by (auto simp: flash_write_def next_outcome_def torn_in_def split: flash_outcome.splits list.splits if_splits)

lemma flash_clear_outcomes:
  assumes "flash_clear_file (Some f) st = (r, st')"
  shows "set (flash st') \<subseteq> set (flash st)"
    "r \<noteq> PICOKEYS_OK \<Longrightarrow> content st' f = content st f \<or> torn_in st (content st' f)"
  using assms
  by (auto simp: flash_clear_file_def next_outcome_def torn_in_def split: flash_outcome.splits list.splits if_splits)

lemma put_data_outcomes:
  assumes "file_put_data (Some f) d st = (r, st')"
  shows "set (flash st') \<subseteq> set (flash st)"
  using assms flash_write_outcomes(1) [of f d st r st'] by (simp add: file_put_data_def)

lemma commit_sync_outcomes: "flash_commit_sync st = (b, st') \<Longrightarrow> set (flash st') \<subseteq> set (flash st)"
  by (auto simp: flash_commit_sync_def next_outcome_def split: list.splits)

lemma meta_delete_outcomes:
  assumes "meta_delete_internal fid st = (r, st')"
  shows "set (flash st') \<subseteq> set (flash st)"
  using assms
  by (auto simp: meta_delete_internal_def Let_def file_put_data_def split: option.splits prod.splits if_splits
      dest!: flash_write_outcomes(1) flash_clear_outcomes(1))

lemma file_delete_outcomes:
  assumes "store_inv st" "plain st fid" "fs_search st fid = Some f" "file_delete_no_commit (Some f) st = (r, st')"
  shows "set (flash st') \<subseteq> set (flash st)"
    "fdata st' fid = fdata st fid \<or> fdata st' fid = None \<or> torn_in st (fdata st' fid)"
proof -
  obtain m st1 where m: "meta_delete_internal (file_fid (ix st) f) st = (m, st1)" by fastforce
  obtain c st2 where c: "flash_clear_file (Some f) st1 = (c, st2)" by fastforce
  obtain e st3 where e: "fs_delete_dynamic f st2 = (e, st3)" by fastforce
  note ml = meta_delete_law [OF m assms(1)]
  have s1: "store_inv st1" "plain st1 fid" "fs_search st1 fid = Some f"
    using ml(1) [of fid] ml(2) assms by (simp_all add: only_at_def)
  have d1: "fdata st1 fid = fdata st fid" using ml(3) assms(2) .
  note cl = flash_clear_step [OF c]
  note ca = content_only_at [OF s1 cl(1,2)]
  have s2: "store_inv st2" "plain st2 fid" "fs_search st2 fid = Some f"
    using ca s1(2) by (simp_all add: only_at_def)
  note dl = fs_delete_dynamic_law [OF s2 e]
  have sub: "set (flash st1) \<subseteq> set (flash st)" "set (flash st2) \<subseteq> set (flash st1)"
    using meta_delete_outcomes [OF m] flash_clear_outcomes(1) [OF c] by simp_all
  have d2: "fdata st2 fid = fdata st fid \<or> torn_in st (fdata st2 fid)" if "c \<noteq> PICOKEYS_OK"
    using flash_clear_outcomes(2) [OF c that] d1 s1(3) s2(3) sub by (auto simp: fdata_def torn_in_def)
  define metadata where "metadata = (if m = PICOKEYS_ERR_FILE_NOT_FOUND then PICOKEYS_OK else m)"
  have res: "(r, st') = (if c \<noteq> PICOKEYS_OK then (PICOKEYS_EXEC_ERROR, st2) else (metadata, st3))"
    using assms(4) m c e dl(1)
    by (auto simp: file_delete_no_commit_def file_delete_no_commit_parts_def metadata_def split: if_splits)
  with sub dl(4) show "set (flash st') \<subseteq> set (flash st)" by (auto split: if_splits)
  have "fdata st3 fid = None" using dl(3) by (simp add: fdata_def)
  with res d2 show "fdata st' fid = fdata st fid \<or> fdata st' fid = None \<or> torn_in st (fdata st' fid)"
    by (auto split: if_splits)
qed

section \<open>The metadata file as a map\<close>

text \<open>A metadata file written by \<open>meta_add\<close>: a list of (tag, FID, data), each FID once.\<close>

definition meta_file :: "(byte \<times> u16 \<times> byte list) list \<Rightarrow> byte list" where
  "meta_file es = concat (map (\<lambda>(tag, fid, v). meta_entry tag fid v) es)"

definition meta_ok :: "(byte \<times> u16 \<times> byte list) list \<Rightarrow> bool" where
  "meta_ok es \<longleftrightarrow>
     list_all (\<lambda>(tag, fid, v). tag AND 0x1f \<noteq> 0x1f \<and> length v < 65000) es \<and> distinct (map (\<lambda>(tag, fid, v). fid) es)"

definition meta_map :: "(byte \<times> u16 \<times> byte list) list \<Rightarrow> u16 \<Rightarrow> byte list option" where
  "meta_map es = map_of (map snd es)"

lemma meta_file_simps [simp]:
  "meta_file [] = []" "meta_file ((tag, fid, v) # es) = meta_entry tag fid v @ meta_file es"
  "meta_file (es @ es') = meta_file es @ meta_file es'"
  by (simp_all add: meta_file_def)

lemma ucast_tag: "(ucast (tag :: byte) :: u16) \<le> 0xff"
proof -
  have "unat tag < 2 ^ LENGTH(8)" by (rule unsigned_less)
  then have "unat (ucast tag :: u16) < 256"
    by (simp add: unsigned_ucast_eq take_bit_eq_mod)
  then show ?thesis by (simp add: word_le_nat_alt)
qed

lemma ucast_ucast_byte [simp]: "ucast (ucast (b :: byte) :: u16) = b"
  by (rule bit_word_eqI) (auto simp: bit_simps)

lemma tlv_tag_ok_byte: "tag AND 0x1f \<noteq> 0x1f \<Longrightarrow> tlv_tag_ok (ucast (tag :: byte))"
  using ucast_tag [of tag] by (simp add: tlv_tag_ok_def not_less [symmetric])

lemma meta_entry_put:
  "length v < 65000 \<Longrightarrow> meta_entry tag fid v = tlv_put (ucast tag) (put_uint16_be fid @ v)"
  using ucast_tag [of tag] by (simp add: meta_entry_def tlv_put_def tlv_tag_bytes_def not_less [symmetric] add.commute)

lemma length_meta_entry:
  "length (meta_entry tag fid v) = 3 + length (tlv_format_len (of_nat (length v) + 2)) + length v"
  by (simp add: meta_entry_def)

lemma meta_items_step:
  assumes "tag AND 0x1f \<noteq> 0x1f" "length v < 65000"
  shows "tlv_items (xs @ meta_entry tag fid v @ ys) (length xs) =
     (\<lparr>item_tag = ucast tag, item_value = put_uint16_be fid @ v\<rparr>, length xs + length (meta_entry tag fid v))
       # tlv_items ((xs @ meta_entry tag fid v) @ ys) (length (xs @ meta_entry tag fid v))"
  using tlv_walk_put [OF tlv_tag_ok_byte [OF assms(1)], of "put_uint16_be fid @ v" xs ys] assms(2)
  by (simp add: meta_entry_put tlv_items.simps [of "xs @ tlv_put (ucast tag) (put_uint16_be fid @ v) @ ys"])

definition meta_fids :: "(byte \<times> u16 \<times> byte list) list \<Rightarrow> u16 set" where
  "meta_fids es = fst ` set (map snd es)"

definition entry_ok :: "byte \<times> u16 \<times> byte list \<Rightarrow> bool" where
  "entry_ok e = (case e of (tag, fid, v) \<Rightarrow> tag AND 0x1f \<noteq> 0x1f \<and> length v < 65000)"

lemma entry_ok_simp [simp]: "entry_ok (tag, fid, v) \<longleftrightarrow> tag AND 0x1f \<noteq> 0x1f \<and> length v < 65000"
  by (simp add: entry_ok_def)

lemma meta_ok_alt: "meta_ok es \<longleftrightarrow> list_all entry_ok es \<and> distinct (map (\<lambda>(tag, fid, v). fid) es)"
  by (simp add: meta_ok_def entry_ok_def [abs_def])

definition has_fid :: "u16 \<Rightarrow> tlv_item \<times> nat \<Rightarrow> bool" where
  "has_fid fid = (\<lambda>(it, _). 2 \<le> length (item_value it) \<and> get_uint16_be (item_value it) = fid)"

lemma meta_item_absent:
  "list_all entry_ok es \<Longrightarrow> fid \<notin> meta_fids es \<Longrightarrow>
   find (has_fid fid) (tlv_items (xs @ meta_file es) (length xs)) = None"
proof (induction es arbitrary: xs)
  case Nil
  then show ?case by (simp add: tlv_items_end)
next
  case (Cons e es)
  obtain tag f v where e: "e = (tag, f, v)" by (cases e)
  with Cons.prems have ok: "tag AND 0x1f \<noteq> 0x1f" "length v < 65000" "f \<noteq> fid" "fid \<notin> meta_fids es" "list_all entry_ok es"
    by (auto simp: meta_fids_def)
  show ?case
    using Cons.IH [of "xs @ meta_entry tag f v"] ok
    by (simp add: e meta_items_step [OF ok(1,2)] get_put_uint16_be has_fid_def)
qed

lemma meta_item_present:
  "list_all entry_ok (es1 @ [(tag, fid, v)]) \<Longrightarrow> fid \<notin> meta_fids es1 \<Longrightarrow>
   find (has_fid fid) (tlv_items (xs @ meta_file es1 @ meta_entry tag fid v @ ys) (length xs)) =
     Some (\<lparr>item_tag = ucast tag, item_value = put_uint16_be fid @ v\<rparr>,
           length xs + length (meta_file es1) + length (meta_entry tag fid v))"
proof (induction es1 arbitrary: xs)
  case Nil
  then have "tag AND 0x1f \<noteq> 0x1f" "length v < 65000" by simp_all
  from meta_items_step [OF this] show ?case by (simp add: has_fid_def get_put_uint16_be)
next
  case (Cons e es1)
  obtain t f w where e: "e = (t, f, w)" by (cases e)
  with Cons.prems have ok: "t AND 0x1f \<noteq> 0x1f" "length w < 65000" "f \<noteq> fid" "fid \<notin> meta_fids es1"
      "list_all entry_ok (es1 @ [(tag, fid, v)])"
    by (auto simp: meta_fids_def)
  show ?case
    using Cons.IH [of "xs @ meta_entry t f w", OF ok(5,4)] ok(3)
      meta_items_step [OF ok(1,2), of xs f "meta_file es1 @ meta_entry tag fid v @ ys"]
    by (simp add: e get_put_uint16_be has_fid_def)
qed

lemma meta_item_alt: "meta_item data fid = find (has_fid fid) (tlv_items data 0)"
  by (simp add: meta_item_def has_fid_def)

lemma split_fid:
  assumes "fid \<in> meta_fids es"
  obtains es1 tag v es2 where "es = es1 @ (tag, fid, v) # es2" "fid \<notin> meta_fids es1"
proof -
  have "\<exists>es1 tag v es2. es = es1 @ (tag, fid, v) # es2 \<and> fid \<notin> meta_fids es1"
    using assms
  proof (induction es)
    case (Cons e es)
    obtain t f w where e: "e = (t, f, w)" by (cases e)
    show ?case
    proof (cases "f = fid")
      case True
      then show ?thesis unfolding e by (intro exI [of _ "[]"]) (simp add: meta_fids_def)
    next
      case False
      with Cons obtain es1 tag v es2 where "es = es1 @ (tag, fid, v) # es2" "fid \<notin> meta_fids es1"
        by (auto simp: e meta_fids_def)
      with False show ?thesis
        unfolding e by (intro exI [of _ "(t, f, w) # es1"]) (auto simp: meta_fids_def)
    qed
  qed (simp add: meta_fids_def)
  with that show thesis by blast
qed

lemma meta_map_absent: "fid \<notin> meta_fids es \<Longrightarrow> meta_map es fid = None"
  by (simp add: meta_map_def meta_fids_def map_of_eq_None_iff)

lemma meta_map_present: "fid \<notin> meta_fids es1 \<Longrightarrow> meta_map (es1 @ (tag, fid, v) # es2) fid = Some v"
  using meta_map_absent [of fid es1] by (simp add: meta_map_def map_add_def)

lemma meta_lookup_wf:
  assumes "list_all entry_ok es"
  shows "map_option (\<lambda>(it, _). drop 2 (item_value it)) (meta_item (meta_file es) fid) = meta_map es fid"
proof (cases "fid \<in> meta_fids es")
  case True
  then obtain es1 tag v es2 where es: "es = es1 @ (tag, fid, v) # es2" "fid \<notin> meta_fids es1"
    by (rule split_fid)
  then show ?thesis
    using meta_item_present [of es1 tag fid v "[]" "meta_file es2"] assms
    by (simp add: meta_item_alt meta_map_present)
next
  case False
  then show ?thesis
    using meta_item_absent [OF assms, of fid "[]"] by (simp add: meta_item_alt meta_map_absent)
qed

section \<open>Adding metadata\<close>

lemma and_mask_full:
  fixes x :: "'a::len word"
  assumes "n \<le> LENGTH('a)"
  shows "x AND mask n = mask n \<longleftrightarrow> (\<forall>k < n. bit x k)"
  using assms by (auto simp: bit_eq_iff bit_simps) (meson less_le_trans)

lemma low_five:
  fixes fid :: u16
  shows "ucast (fid AND 0x1f) AND (0x1f :: byte) = 0x1f \<longleftrightarrow> fid AND 0x1f = 0x1f"
    and "ucast (fid AND 0xff) AND (0x1f :: byte) = 0x1f \<longleftrightarrow> fid AND 0x1f = 0x1f"
proof -
  have m: "(0x1f :: byte) = mask 5" "(0x1f :: u16) = mask 5" "(0xff :: u16) = mask 8"
    by (simp_all add: mask_eq_exp_minus_1)
  have e: "(fid AND mask 5 = mask 5) = (\<forall>k < 5. bit fid k)"
      "\<And>y :: byte. (y AND mask 5 = mask 5) = (\<forall>k < 5. bit y k)"
    by (rule and_mask_full, simp)+
  show "ucast (fid AND 0x1f) AND (0x1f :: byte) = 0x1f \<longleftrightarrow> fid AND 0x1f = 0x1f"
    "ucast (fid AND 0xff) AND (0x1f :: byte) = 0x1f \<longleftrightarrow> fid AND 0x1f = 0x1f"
    unfolding m e by (auto simp: bit_simps)
qed

lemma overwrite_mid:
  "length src = length old \<Longrightarrow> overwrite (length xs) src (xs @ old @ ys) = xs @ src @ ys"
  by (simp add: overwrite_def)

lemma moved_down:
  fixes pre old post entry :: "'a list" and z :: 'a
  defines "buffer \<equiv> overwrite (length pre) post (pre @ old @ post)
     @ replicate (length pre + length post + length entry - length (pre @ old @ post)) z"
  shows "\<not> length buffer < length pre + length post + length entry"
    and "take (length pre + length post + length entry) (overwrite (length pre + length post) entry buffer) = pre @ post @ entry"
proof -
  have "overwrite (length pre) post (pre @ old @ post) = pre @ post @ drop (length post) (old @ post)"
    by (simp add: overwrite_def)
  then have b: "buffer = (pre @ post) @ drop (length post) (old @ post)
      @ replicate (length pre + length post + length entry - length (pre @ old @ post)) z"
    by (simp add: buffer_def)
  have l: "length (drop (length post) (old @ post)) = length old" by simp
  have "length buffer = length pre + length post + (length old
      + (length pre + length post + length entry - (length pre + (length old + length post))))"
    unfolding b length_append l by simp
  then show "\<not> length buffer < length pre + length post + length entry" by linarith
  then show "take (length pre + length post + length entry) (overwrite (length pre + length post) entry buffer) = pre @ post @ entry"
    using take_overwrite_end [of "length pre + length post" entry buffer] by (simp add: b)
qed

lemma entry_len_u16: "length v < 65000 \<Longrightarrow> unat (tlv_len_tag (ucast (tag :: byte)) (of_nat (length v + 2))) = length (meta_entry tag fid v)"
  using tlv_len_tag_put [of "put_uint16_be fid @ v" "ucast tag"]
  by (simp add: meta_entry_put add.commute)

text \<open>The three ways \<open>meta_add\<close> builds the new file.\<close>

lemma meta_bytes_new:
  assumes "list_all entry_ok es" "fid \<notin> meta_fids es"
  shows "meta_bytes (meta_file es) fid data = Some (meta_file (es @ [(ucast (fid AND 0x1f), fid, data)]))"
  using meta_item_absent [OF assms, of "[]"] by (simp add: meta_bytes_def meta_item_alt)

lemma meta_bytes_same_size:
  assumes "list_all entry_ok (es1 @ (tag, fid, old) # es2)" "fid \<notin> meta_fids es1" "length old = length data"
  shows "meta_bytes (meta_file (es1 @ (tag, fid, old) # es2)) fid data = Some (meta_file (es1 @ (tag, fid, data) # es2))"
proof -
  have e: "meta_entry tag fid v = (tag # tlv_format_len (of_nat (length v) + 2) @ put_uint16_be fid) @ v" for v
    by (simp add: meta_entry_def)
  let ?hd = "meta_file es1 @ tag # tlv_format_len (of_nat (length old) + 2) @ put_uint16_be fid"
  have f: "meta_file (es1 @ (tag, fid, v) # es2) = ?hd @ v @ meta_file es2" if "length v = length old" for v
    using that by (simp add: meta_entry_def)
  have l: "length (meta_file es1) + length (meta_entry tag fid old) - length (put_uint16_be fid @ old) + 2 = length ?hd"
    by (simp add: length_meta_entry)
  have item: "meta_item (meta_file (es1 @ (tag, fid, old) # es2)) fid =
      Some (\<lparr>item_tag = ucast tag, item_value = put_uint16_be fid @ old\<rparr>, length (meta_file es1) + length (meta_entry tag fid old))"
    using meta_item_present [of es1 tag fid old "[]" "meta_file es2"] assms by (simp add: meta_item_alt)
  have "overwrite (length ?hd) data (meta_file (es1 @ (tag, fid, old) # es2)) = meta_file (es1 @ (tag, fid, data) # es2)"
    using overwrite_mid [of data old ?hd "meta_file es2"] assms(3) f [of old] f [of data] by simp
  then show ?thesis
    using assms(3) l unfolding meta_bytes_def item by simp
qed

lemma meta_bytes_other_size:
  assumes "list_all entry_ok (es1 @ (tag, fid, old) # es2)" "fid \<notin> meta_fids es1"
    and "length old \<noteq> length data" "length data < 65000"
  shows "meta_bytes (meta_file (es1 @ (tag, fid, old) # es2)) fid data =
     (if length (tlv_format_len (of_nat (length data) + 2)) = length (tlv_format_len (of_nat (length old) + 2))
      then Some (meta_file (es1 @ es2 @ [(ucast (fid AND 0xff), fid, data)]))
      else meta_bytes (meta_file (es1 @ (tag, fid, old) # es2)) fid data)"
    (is "?lhs = (if ?c then ?rhs else _)")
proof (cases ?c)
  case c: True
  let ?pre = "meta_file es1" and ?post = "meta_file es2"
  let ?fdata = "?pre @ meta_entry tag fid old @ ?post"
  let ?it = "\<lparr>item_tag = ucast tag, item_value = put_uint16_be fid @ old\<rparr>"
  let ?p = "length ?pre + length (meta_entry tag fid old)"
  let ?entry = "meta_entry (ucast (fid AND 0xff)) fid data"
  let ?stale = "drop (length ?pre + length ?post) ?fdata"
  have lt: "unat (tlv_len_tag (ucast tag) (of_nat (length old + 2))) = length (meta_entry tag fid old)"
    using assms(1) by (intro entry_len_u16) simp
  have item: "meta_item ?fdata fid = Some (?it, ?p)"
    using meta_item_present [of es1 tag fid old "[]" ?post] assms(1,2) by (simp add: meta_item_alt)
  have el: "length (meta_entry tag fid old) = 3 + length (tlv_format_len (of_nat (length old) + 2)) + length old"
      "length ?entry = 3 + length (tlv_format_len (of_nat (length old) + 2)) + length data"
    using c by (simp_all add: length_meta_entry)
  let ?ef = "length ?pre + length ?post + length ?entry"
  have ef: "length ?fdata + length data + 2 - length (put_uint16_be fid @ old) = ?ef"
    using el by simp
  have tpos: "?p - unat (tlv_len_tag (ucast tag) (of_nat (length (put_uint16_be fid @ old)))) = length ?pre"
    using lt by (simp add: add.commute)
  have dr: "drop ?p ?fdata = ?post" by simp
  have off: "length ?pre + (length ?fdata - ?p) = length ?pre + length ?post" by simp
  have "meta_realloc ?fdata ?it ?p fid data = Some (?pre @ ?post @ ?entry)"
    unfolding meta_realloc_def Let_def tlv_item.simps tpos dr ef off
    using moved_down [where pre = ?pre and post = ?post and old = "meta_entry tag fid old" and entry = ?entry and z = 0] by (simp only: if_False)
  with item c assms(3) show ?thesis by (simp add: meta_bytes_def)
qed simp

lemma meta_bytes_overflow:
  assumes "list_all entry_ok (es1 @ [(tag, fid, old)])" "fid \<notin> meta_fids es1"
    and "length old + 2 < 128" "128 \<le> length data + 2" "length data < 65000"
  shows "meta_bytes (meta_file (es1 @ [(tag, fid, old)])) fid data = None"
proof -
  let ?pre = "meta_file es1"
  let ?fdata = "?pre @ meta_entry tag fid old"
  let ?it = "\<lparr>item_tag = ucast tag, item_value = put_uint16_be fid @ old\<rparr>"
  let ?p = "length ?pre + length (meta_entry tag fid old)"
  have item: "meta_item ?fdata fid = Some (?it, ?p)"
    using meta_item_present [of es1 tag fid old "[]" "[]"] assms(1,2) by (simp add: meta_item_alt)
  have lt: "unat (tlv_len_tag (ucast tag) (of_nat (length old + 2))) = length (meta_entry tag fid old)"
    using assms(1) by (intro entry_len_u16) simp
  have o: "length (tlv_format_len (of_nat (length old) + 2)) = 1"
    using assms(3) by (simp add: tlv_format_len_def word_less_nat_alt unat_word_ariths unat_of_nat)
  have n: "2 \<le> length (tlv_format_len (of_nat (length data) + 2))"
    using assms(4,5) by (simp add: tlv_format_len_def word_less_nat_alt unat_word_ariths unat_of_nat)
  have tpos: "?p - unat (tlv_len_tag (ucast tag) (of_nat (length (put_uint16_be fid @ old)))) = length ?pre"
    using lt by (simp add: add.commute)
  have "meta_realloc ?fdata ?it ?p fid data = None"
    unfolding meta_realloc_def Let_def tlv_item.simps tpos
    using o n assms(3,4) by (simp add: length_meta_entry)
  with item assms(3,4) show ?thesis by (simp add: meta_bytes_def)
qed

lemma meta_items_skip:
  "list_all entry_ok es \<Longrightarrow> fid \<notin> meta_fids es \<Longrightarrow>
   find (has_fid fid) (tlv_items (xs @ meta_file es @ ys) (length xs)) =
   find (has_fid fid) (tlv_items (xs @ meta_file es @ ys) (length xs + length (meta_file es)))"
proof (induction es arbitrary: xs)
  case (Cons e es)
  obtain tag f v where e: "e = (tag, f, v)" by (cases e)
  with Cons.prems have ok: "tag AND 0x1f \<noteq> 0x1f" "length v < 65000" "f \<noteq> fid" "fid \<notin> meta_fids es" "list_all entry_ok es"
    by (auto simp: meta_fids_def)
  show ?case
    using Cons.IH [of "xs @ meta_entry tag f v"] ok meta_items_step [OF ok(1,2), of xs f "meta_file es @ ys"]
    by (simp add: e get_put_uint16_be has_fid_def add.assoc)
qed simp

lemma tag_1f_stops:
  assumes "length data < 126" "fid AND 0x1f = 0x1f" "drop_bit 8 fid = 0xCC"
  shows "tlv_items (xs @ meta_entry (ucast (fid AND 0x1f)) fid data) (length xs) = []"
proof -
  have c: "(ucast (of_nat (length data) + 2 :: u16) :: byte) = of_nat (length data) + 2"
    using assms(1)
    by (intro word_unat_eq_iff [THEN iffD2]) (simp add: unsigned_ucast_eq take_bit_eq_mod unat_word_ariths unat_of_nat)
  have l: "tlv_format_len (of_nat (length data) + 2) = [of_nat (length data) + 2]"
    using assms(1) by (simp add: tlv_format_len_def word_less_nat_alt unat_word_ariths unat_of_nat c)
  have hi: "put_uint16_be fid = [0xCC, ucast fid]"
    using assms(3) by (simp add: put_uint16_bytes)
  show ?thesis
    using assms(1)
    by (simp add: tlv_items.simps tlv_walk_def tlv_walk_tag_def tlv_walk_len_def meta_entry_def l hi assms(2)
        nth_append)
qed

section \<open>Properties\<close>

text \<open>C37: on a metadata file of well-formed entries, a successful adding or replacing of the metadata of a FID whose low
  five bits are not all set makes it, and only it, read back by meta_find; replacing by data of another size needs
  the length to be encoded in as many bytes as before (otherwise the entry can be lost, or the buffer overrun, as is shown below).\<close>

theorem meta_add_updates_map:
  assumes "fs_search st EF_META = Some ef" "file_get_data st (Some ef) = meta_file es" "meta_ok es"
    and "fid AND 0x1f \<noteq> 0x1f" "length data < 65000"
    and "\<forall>old. meta_map es fid = Some old \<longrightarrow> length old = length data \<or>
           length (tlv_format_len (of_nat (length data) + 2)) = length (tlv_format_len (of_nat (length old) + 2))"
    and "meta_add fid (Some data) st = Some (PICOKEYS_OK, st')"
  shows "meta_find st' = (meta_find st)(fid \<mapsto> data)"
proof -
  have ok: "list_all entry_ok es" and dist: "distinct (map (\<lambda>(tag, fid, v). fid) es)"
    using assms(3) by (simp_all add: meta_ok_alt)
  have tag: "ucast (fid AND 0x1f) AND (0x1f :: byte) \<noteq> 0x1f" "ucast (fid AND 0xff) AND (0x1f :: byte) \<noteq> 0x1f"
    using assms(4) by (simp_all add: low_five)
  obtain es' where es': "meta_bytes (meta_file es) fid data = Some (meta_file es')" "list_all entry_ok es'"
      "meta_map es' = (meta_map es)(fid \<mapsto> data)"
  proof (cases "fid \<in> meta_fids es")
    case False
    let ?es = "es @ [(ucast (fid AND 0x1f), fid, data)]"
    have "meta_map ?es x = ((meta_map es)(fid \<mapsto> data)) x" for x
      using False meta_map_absent [OF False] by (auto simp: meta_map_def map_add_def split: option.split)
    with meta_bytes_new [OF ok False] ok tag assms(5) show thesis by (intro that [of ?es]) auto
  next
    case True
    then obtain es1 t old es2 where es: "es = es1 @ (t, fid, old) # es2" "fid \<notin> meta_fids es1"
      by (rule split_fid)
    have n2: "fid \<notin> meta_fids es2" using dist es by (force simp: meta_fids_def)
    show thesis
    proof (cases "length old = length data")
      case True
      let ?es = "es1 @ (t, fid, data) # es2"
      have "meta_map ?es x = ((meta_map es)(fid \<mapsto> data)) x" for x
        using meta_map_present [OF es(2)] by (auto simp: es(1) meta_map_def map_add_def split: option.split)
      with meta_bytes_same_size [OF _ es(2) True] ok es(1) True assms(5) show thesis
        by (intro that [of ?es]) auto
    next
      case False
      let ?es = "es1 @ es2 @ [(ucast (fid AND 0xff), fid, data)]"
      have "meta_map es fid = Some old" using meta_map_present [OF es(2)] by (simp add: es(1))
      with assms(6) False have c: "length (tlv_format_len (of_nat (length data) + 2)) = length (tlv_format_len (of_nat (length old) + 2))"
        by blast
      have "meta_map ?es x = ((meta_map es)(fid \<mapsto> data)) x" for x
        using meta_map_absent [OF es(2)] meta_map_absent [OF n2]
        by (auto simp: es(1) meta_map_def map_add_def split: option.split)
      with meta_bytes_other_size [OF _ es(2) False assms(5)] ok es(1) c tag assms(5) show thesis
        by (intro that [of ?es]) auto
    qed
  qed
  obtain r st1 where w: "flash_write ef (meta_file es') st = (r, st1)" by fastforce
  with assms(1,2,5,7) es'(1) have r: "r = PICOKEYS_OK" "st' = st1"
    by (auto simp: meta_add_def file_put_data_def split: if_splits)
  note s = flash_write_step [OF w]
  have "fs_search st' EF_META = Some ef" "file_get_data st' (Some ef) = meta_file es'"
    using r s(1,3) assms(1) by (simp_all add: fs_search_def file_get_data_def)
  then have "meta_find st' x = meta_map es' x" for x
    using meta_lookup_wf [OF es'(2)] by (simp add: meta_find_def)
  moreover have "meta_find st x = meta_map es x" for x
    using assms(1,2) meta_lookup_wf [OF ok] by (simp add: meta_find_def)
  ultimately show ?thesis using es'(3) by (simp add: fun_eq_iff)
qed

text \<open>A store with an empty metadata file.\<close>

definition meta_example :: "byte list \<Rightarrow> file_store" where
  "meta_example d = \<lparr>ix = index_example\<lparr>namespaces := replicate 4 [\<lparr>fe_data = None, fe_fid = 0xE010, fe_namespace_id = 1,
       fe_name = None, fe_acl = replicate 7 0, fe_parent = 0, fe_type = 3, fe_ef_structure = 1\<rparr>,
       \<lparr>fe_data = None, fe_fid = 0, fe_namespace_id = 1, fe_name = None, fe_acl = replicate 7 0,
        fe_parent = 0, fe_type = 0, fe_ef_structure = 0\<rparr>]\<rparr>,
     content = (\<lambda>_. None)(Static 1 0 := Some d), flash = []\<rparr>"

lemma meta_example_search: "fs_search (meta_example d) EF_META = Some (Static 1 0)"
  by (simp add: fs_search_def file_search_def file_search_by_fid_def meta_example_def active_entries_def
      index_example_ok EF_META_def EF_PHY_def entry_match_def spec_match_def)

theorem meta_add_updates_map_witness:
  "\<exists>st'. meta_add 0x9B (Some [8, 1]) (meta_example (meta_file [(0x1A, 0x9A, [17, 2])])) = Some (PICOKEYS_OK, st') \<and>
     meta_find st' 0x9B = Some [8, 1] \<and> meta_find st' 0x9A = Some [17, 2]"
proof -
  let ?es = "[(0x1A, 0x9A, [17, 2])] :: (byte \<times> u16 \<times> byte list) list"
  let ?st = "meta_example (meta_file ?es)"
  have d: "file_get_data ?st (Some (Static 1 0)) = meta_file ?es"
    by (simp add: file_get_data_def meta_example_def)
  have ok: "meta_ok ?es" by (simp add: meta_ok_def)
  have b: "meta_bytes (meta_file ?es) 0x9B [8, 1] = Some (meta_file (?es @ [(0x1B, 0x9B, [8, 1])]))"
    using meta_bytes_new [of ?es "0x9B" "[8, 1]"] by (simp add: meta_fids_def)
  obtain st' where a: "meta_add 0x9B (Some [8, 1]) ?st = Some (PICOKEYS_OK, st')"
    using d b by (simp add: meta_add_def meta_example_search file_put_data_def flash_write_def next_outcome_def)
      (simp add: meta_example_def)
  have "meta_find st' = (meta_find ?st)(0x9B \<mapsto> [8, 1])"
    by (rule meta_add_updates_map [OF meta_example_search d ok _ _ _ a]) (simp_all add: meta_map_def)
  moreover have "meta_find ?st 0x9A = Some [17, 2]"
    using meta_lookup_wf [of ?es "0x9A"] d by (simp add: meta_find_def meta_example_search meta_map_def)
  ultimately show ?thesis using a by auto
qed

text \<open>The metadata of an HSM key whose number has its low five bits set (31, 63, 95, ...) is written with
  the tag 0x1f, which the TLV reader takes for the first byte of a two-byte tag: meta_add reports success
  and meta_find does not find it.\<close>

theorem meta_add_loses_tag_1f:
  assumes "fs_search st EF_META = Some ef" "file_get_data st (Some ef) = meta_file es" "meta_ok es"
    and "fid \<notin> meta_fids es" "fid AND 0x1f = 0x1f" "drop_bit 8 fid = 0xCC" "length data < 126"
    and "meta_add fid (Some data) st = Some (PICOKEYS_OK, st')"
  shows "meta_find st' fid = None"
proof -
  have ok: "list_all entry_ok es" using assms(3) by (simp add: meta_ok_alt)
  let ?d = "meta_file es @ meta_entry (ucast (fid AND 0x1f)) fid data"
  have b: "meta_bytes (meta_file es) fid data = Some ?d"
    using meta_bytes_new [OF ok assms(4)] by simp
  obtain r st1 where w: "flash_write ef ?d st = (r, st1)" by fastforce
  with assms(1,2,7,8) b have r: "r = PICOKEYS_OK" "st' = st1"
    by (auto simp: meta_add_def file_put_data_def split: if_splits)
  have "fs_search st' EF_META = Some ef" "file_get_data st' (Some ef) = ?d"
    using r flash_write_step(1,3) [OF w] assms(1) by (simp_all add: fs_search_def file_get_data_def)
  moreover have "meta_item ?d fid = None"
    using meta_items_skip [OF ok assms(4), of "[]" "meta_entry (ucast (fid AND 0x1f)) fid data"]
      tag_1f_stops [OF assms(7,5,6), of "meta_file es"]
    by (simp add: meta_item_alt)
  ultimately show ?thesis by (simp add: meta_find_def)
qed

theorem meta_add_loses_tag_1f_witness:
  "\<exists>st'. meta_add 0xCC1F (Some [1, 2, 3]) (meta_example []) = Some (PICOKEYS_OK, st') \<and> meta_find st' 0xCC1F = None"
proof -
  have d: "file_get_data (meta_example []) (Some (Static 1 0)) = meta_file []"
    by (simp add: file_get_data_def meta_example_def)
  have b: "meta_bytes [] 0xCC1F [1, 2, 3] = Some (meta_entry 0x1F 0xCC1F [1, 2, 3])"
    using meta_bytes_new [of "[]" "0xCC1F" "[1, 2, 3]"] by (simp add: meta_fids_def)
  obtain st' where a: "meta_add 0xCC1F (Some [1, 2, 3]) (meta_example []) = Some (PICOKEYS_OK, st')"
    using d b by (simp add: meta_add_def meta_example_search file_put_data_def flash_write_def next_outcome_def)
      (simp add: meta_example_def)
  have "meta_find st' 0xCC1F = None"
    by (rule meta_add_loses_tag_1f [OF meta_example_search d _ _ _ _ _ a]) (simp_all add: meta_ok_def meta_fids_def)
  with a show ?thesis by blast
qed

text \<open>C38: replacing the metadata of the last entry by data that needs a longer length encoding (past 125
  bytes) writes past the end of the reallocated buffer.\<close>

theorem meta_add_overflows:
  assumes "fs_search st EF_META = Some ef" "file_get_data st (Some ef) = meta_file (es @ [(tag, fid, old)])"
    and "meta_ok (es @ [(tag, fid, old)])" "length old < 126" "126 \<le> length data" "length data < 65000"
  shows "meta_add fid (Some data) st = None"
proof -
  have "fid \<notin> meta_fids es"
    using assms(3) by (force simp: meta_ok_alt meta_fids_def)
  then have "meta_bytes (meta_file (es @ [(tag, fid, old)])) fid data = None"
    using assms by (intro meta_bytes_overflow) (simp_all add: meta_ok_alt)
  with assms(1,2,6) show ?thesis by (simp add: meta_add_def)
qed

theorem meta_add_overflows_witness:
  "meta_add 0xCC01 (Some (replicate 200 7)) (meta_example (meta_file [(1, 0xCC01, [9])])) = None"
  by (rule meta_add_overflows [OF meta_example_search, of _ "[]" 1 "0xCC01" "[9]"])
     (simp_all add: file_get_data_def meta_example_def meta_ok_def)

end
