(* ===== verification/Object_Policy.thy ===== *)
theory Object_Policy
  imports Prelude
begin

text \<open>
  Access policies of stored objects, \<^verbatim>\<open>pico-keys-sdk/src/fs/object_policy.c\<close>: a policy is a byte
  string of a two-byte header and up to eight 14-byte rules; a request is granted when some rule
  allows the operation to the caller under the established facts, and refused otherwise.

  A NULL policy or context is None. SHA-256 is a parameter of \<open>file_object_policy_hash\<close>
  (None when mbedtls reports an error).
\<close>

section \<open>The code\<close>

definition FILE_OBJECT_OPERATION_MASK :: u16 where "FILE_OBJECT_OPERATION_MASK = 0x1fff"
definition FILE_OBJECT_FACT_MASK :: u32 where "FILE_OBJECT_FACT_MASK = 0x7ff"
definition FILE_OBJECT_POLICY_RULE_FLAG_MASK :: u16 where "FILE_OBJECT_POLICY_RULE_FLAG_MASK = 0"
definition FILE_OBJECT_POLICY_NAMESPACE_ANY :: u16 where "FILE_OBJECT_POLICY_NAMESPACE_ANY = 0xffff"

record file_object_authorization_context =
  facts :: u32
  session_epoch :: u32
  facts_epoch :: u32
  caller_namespace :: u16

definition file_object_policy_rule_valid :: "byte list \<Rightarrow> bool" where
  "file_object_policy_rule_valid rule =
     (let operations = get_uint16_be (drop 0 rule);
          required_facts = get_uint32_be (drop 2 rule);
          forbidden_facts = get_uint32_be (drop 6 rule);
          caller_ns = get_uint16_be (drop 10 rule);
          flags = get_uint16_be (drop 12 rule)
      in if operations = 0 \<or> operations AND NOT FILE_OBJECT_OPERATION_MASK \<noteq> 0 then False
         else if (required_facts OR forbidden_facts) AND NOT FILE_OBJECT_FACT_MASK \<noteq> 0
                 \<or> required_facts AND forbidden_facts \<noteq> 0 then False
         else if caller_ns = 0 \<or> flags AND NOT FILE_OBJECT_POLICY_RULE_FLAG_MASK \<noteq> 0 then False
         else True)"

definition policy_rule :: "byte list \<Rightarrow> nat \<Rightarrow> byte list" where
  "policy_rule policy i = drop (2 + i * 14) policy"

definition file_object_policy_validate :: "byte list option \<Rightarrow> pk_status" where
  "file_object_policy_validate policy =
     (case policy of
        None \<Rightarrow> PICOKEYS_ERR_NULL_PARAM
      | Some p \<Rightarrow>
          if length p < 2 \<or> p ! 0 \<noteq> 1 \<or> 8 < p ! 1 then PICOKEYS_WRONG_DATA
          else if length p \<noteq> 2 + unat (p ! 1) * 14 then PICOKEYS_WRONG_LENGTH
          else if list_ex (\<lambda>i. \<not> file_object_policy_rule_valid (policy_rule p i)) [0 ..< unat (p ! 1)]
          then PICOKEYS_WRONG_DATA
          else PICOKEYS_OK)"

definition file_object_policy_hash ::
    "(byte list \<Rightarrow> byte list option) \<Rightarrow> byte list option \<Rightarrow> pk_status \<times> byte list" where
  "file_object_policy_hash sha256 policy =
     (let r = file_object_policy_validate policy in
      if r \<noteq> PICOKEYS_OK then (r, replicate 16 0)
      else case sha256 (the policy) of
             None \<Rightarrow> (PICOKEYS_EXEC_ERROR, replicate 16 0)
           | Some full_hash \<Rightarrow> (PICOKEYS_OK, take 16 full_hash))"

definition rule_grants :: "byte list \<Rightarrow> u16 \<Rightarrow> file_object_authorization_context \<Rightarrow> bool" where
  "rule_grants rule operation context \<longleftrightarrow>
     (let operations = get_uint16_be (drop 0 rule);
          required_facts = get_uint32_be (drop 2 rule);
          forbidden_facts = get_uint32_be (drop 6 rule);
          caller_ns = get_uint16_be (drop 10 rule)
      in operations AND operation \<noteq> 0 \<and>
         (caller_ns = FILE_OBJECT_POLICY_NAMESPACE_ANY \<or> caller_ns = caller_namespace context) \<and>
         facts context AND required_facts = required_facts \<and>
         facts context AND forbidden_facts = 0)"

definition file_object_policy_authorize ::
    "byte list option \<Rightarrow> u16 \<Rightarrow> file_object_authorization_context option \<Rightarrow> bool" where
  "file_object_policy_authorize policy operation context_opt =
     (case context_opt of
        None \<Rightarrow> False
      | Some context \<Rightarrow>
          if file_object_policy_validate policy \<noteq> PICOKEYS_OK then False
          else if operation = 0 \<or> operation AND NOT FILE_OBJECT_OPERATION_MASK \<noteq> 0
                  \<or> operation AND (operation - 1) \<noteq> 0 then False
          else if caller_namespace context = 0
                  \<or> caller_namespace context = FILE_OBJECT_POLICY_NAMESPACE_ANY
                  \<or> session_epoch context = 0 \<or> session_epoch context \<noteq> facts_epoch context
                  \<or> facts context AND NOT FILE_OBJECT_FACT_MASK \<noteq> 0 then False
          else list_ex (\<lambda>i. rule_grants (policy_rule (the policy) i) operation context)
                 [0 ..< unat (the policy ! 1)])"

section \<open>What a policy means\<close>

text \<open>
  The policy language the bytes encode: a rule names sets of operations and facts, a caller
  namespace (None: any) and nothing else; the operation and fact numbers are the bit positions.
\<close>

record policy_rule_spec =
  sp_operations :: "nat set"
  sp_required :: "nat set"
  sp_forbidden :: "nat set"
  sp_caller :: "u16 option"

definition bits_of :: "'a::len word \<Rightarrow> nat set" where
  "bits_of w = {k. bit w k}"

definition encode_rule :: "u16 \<times> u32 \<times> u32 \<times> u16 \<Rightarrow> byte list" where
  "encode_rule r = (case r of (ops, req, forb, ns) \<Rightarrow>
     put_uint16_be ops @ put_uint32_be req @ put_uint32_be forb @ put_uint16_be ns @ put_uint16_be 0)"

definition encode_policy :: "(u16 \<times> u32 \<times> u32 \<times> u16) list \<Rightarrow> byte list" where
  "encode_policy rs = [1, of_nat (length rs)] @ concat (map encode_rule rs)"

definition rule_meaning :: "u16 \<times> u32 \<times> u32 \<times> u16 \<Rightarrow> policy_rule_spec" where
  "rule_meaning r = (case r of (ops, req, forb, ns) \<Rightarrow>
     \<lparr>sp_operations = bits_of ops, sp_required = bits_of req, sp_forbidden = bits_of forb,
      sp_caller = (if ns = 0xffff then None else Some ns)\<rparr>)"

definition rule_wf :: "u16 \<times> u32 \<times> u32 \<times> u16 \<Rightarrow> bool" where
  "rule_wf r \<longleftrightarrow> (case r of (ops, req, forb, ns) \<Rightarrow>
     bits_of ops \<noteq> {} \<and> bits_of ops \<subseteq> {..<13} \<and> bits_of req \<union> bits_of forb \<subseteq> {..<11} \<and>
     bits_of req \<inter> bits_of forb = {} \<and> ns \<noteq> 0)"

definition spec_grants :: "policy_rule_spec \<Rightarrow> nat \<Rightarrow> nat set \<Rightarrow> u16 \<Rightarrow> bool" where
  "spec_grants r operation have_facts caller \<longleftrightarrow>
     operation \<in> sp_operations r \<and> sp_required r \<subseteq> have_facts \<and> sp_forbidden r \<inter> have_facts = {} \<and>
     (\<forall>ns. sp_caller r = Some ns \<longrightarrow> ns = caller)"

lemma bits_of_0_iff: "bits_of w = {} \<longleftrightarrow> w = 0"
  by (auto simp: bits_of_def bit_eq_iff dest: bit_imp_le_length)

lemma bits_of_and: "bits_of (v AND w) = bits_of v \<inter> bits_of w"
  by (auto simp: bits_of_def bit_simps)

lemma bits_of_or: "bits_of (v OR w) = bits_of v \<union> bits_of w"
  by (auto simp: bits_of_def bit_simps)

lemma bits_of_inject: "bits_of v = bits_of w \<longleftrightarrow> v = w"
  by (auto simp: bits_of_def bit_eq_iff dest: bit_imp_le_length)

lemma and_0_iff: "v AND w = 0 \<longleftrightarrow> bits_of v \<inter> bits_of w = {}"
  by (simp add: bits_of_0_iff [symmetric] bits_of_and)

lemma and_eq_iff: "v AND w = w \<longleftrightarrow> bits_of w \<subseteq> bits_of v"
  by (auto simp: bits_of_inject [symmetric] bits_of_and)

lemma outside_mask: "v AND NOT (mask n) = 0 \<longleftrightarrow> bits_of v \<subseteq> {..<n}"
proof
  assume a: "v AND NOT (mask n) = 0"
  show "bits_of v \<subseteq> {..<n}"
  proof
    fix k assume k: "k \<in> bits_of v"
    then have "k < LENGTH('a)" by (auto simp: bits_of_def dest: bit_imp_le_length)
    moreover have "\<not> bit (v AND NOT (mask n)) k" using a by simp
    ultimately show "k \<in> {..<n}" using k by (simp add: bits_of_def bit_simps)
  qed
next
  assume "bits_of v \<subseteq> {..<n}"
  then show "v AND NOT (mask n) = 0"
    by (intro bit_word_eqI) (auto simp: bits_of_def bit_simps)
qed

lemma inside_mask: "bits_of v \<inter> bits_of (NOT (mask n) :: 'a::len word) = {} \<longleftrightarrow> bits_of v \<subseteq> {..<n}"
  for v :: "'a::len word"
  by (simp only: and_0_iff [symmetric] outside_mask)

lemma mask_consts: "FILE_OBJECT_OPERATION_MASK = mask 13" "FILE_OBJECT_FACT_MASK = mask 11"
  by (simp_all add: FILE_OBJECT_OPERATION_MASK_def FILE_OBJECT_FACT_MASK_def mask_eq_exp_minus_1)

section \<open>Reading an encoded policy\<close>

lemma length_encode_rule [simp]: "length (encode_rule r) = 14"
  by (simp add: encode_rule_def split: prod.splits)

lemma drop_concat_rules:
  "i < length rs \<Longrightarrow>
   drop (i * 14) (concat (map encode_rule rs)) = encode_rule (rs ! i) @ concat (map encode_rule (drop (Suc i) rs))"
proof (induction rs arbitrary: i)
  case (Cons r rs)
  then show ?case by (cases i) auto
qed simp

lemma policy_rule_encode:
  "i < length rs \<Longrightarrow>
   policy_rule (encode_policy rs) i = encode_rule (rs ! i) @ concat (map encode_rule (drop (Suc i) rs))"
  by (simp add: policy_rule_def encode_policy_def drop_concat_rules)

lemma rule_fields:
  "get_uint16_be (drop 0 (encode_rule (ops, req, forb, ns) @ xs)) = ops"
  "get_uint32_be (drop 2 (encode_rule (ops, req, forb, ns) @ xs)) = req"
  "get_uint32_be (drop 6 (encode_rule (ops, req, forb, ns) @ xs)) = forb"
  "get_uint16_be (drop 10 (encode_rule (ops, req, forb, ns) @ xs)) = ns"
  "get_uint16_be (drop 12 (encode_rule (ops, req, forb, ns) @ xs)) = 0"
  by (simp_all add: encode_rule_def be_simps)

lemmas rule_field_simps = rule_fields rule_fields [simplified]

lemma rule_valid_encode: "file_object_policy_rule_valid (encode_rule r @ xs) = rule_wf r"
  by (cases r) (auto simp: file_object_policy_rule_valid_def Let_def rule_field_simps rule_wf_def mask_consts
      outside_mask inside_mask bits_of_0_iff bits_of_or and_0_iff Int_Un_distrib2 FILE_OBJECT_POLICY_RULE_FLAG_MASK_def)

lemma rule_grants_encode:
  "rule_grants (encode_rule r @ xs) op ctx \<longleftrightarrow>
     (case r of (ops, req, forb, ns) \<Rightarrow> bits_of ops \<inter> bits_of op \<noteq> {} \<and>
        (ns = 0xffff \<or> ns = caller_namespace ctx) \<and> bits_of req \<subseteq> bits_of (facts ctx) \<and>
        bits_of (facts ctx) \<inter> bits_of forb = {})"
  by (cases r) (simp add: rule_grants_def Let_def rule_field_simps and_0_iff and_eq_iff
      FILE_OBJECT_POLICY_NAMESPACE_ANY_def)

lemma encode_policy_head:
  "length rs \<le> 8 \<Longrightarrow> encode_policy rs ! 0 = 1 \<and> unat (encode_policy rs ! 1) = length rs \<and>
     \<not> 8 < encode_policy rs ! 1 \<and> length (encode_policy rs) = 2 + length rs * 14"
proof -
  assume "length rs \<le> 8"
  then have u: "unat (of_nat (length rs) :: byte) = length rs"
    by (simp add: unat_of_nat)
  have "length (concat (map encode_rule rs)) = length rs * 14"
    by (induction rs) simp_all
  with u \<open>length rs \<le> 8\<close> show ?thesis
    by (simp add: encode_policy_def word_less_nat_alt)
qed

lemma validate_encode:
  "length rs \<le> 8 \<Longrightarrow>
   file_object_policy_validate (Some (encode_policy rs)) = PICOKEYS_OK \<longleftrightarrow> (\<forall>r \<in> set rs. rule_wf r)"
  using encode_policy_head [of rs]
  by (auto simp: file_object_policy_validate_def list_ex_iff policy_rule_encode rule_valid_encode
      all_set_conv_all_nth)

section \<open>Single operations\<close>

lemma nat_pow2: "0 < n \<Longrightarrow> n AND (n - 1) = 0 \<Longrightarrow> \<exists>k. n = 2 ^ k" for n :: nat
proof (induction n rule: less_induct)
  case (less n)
  show ?case
  proof (cases "even n")
    case True
    then obtain m where m: "n = 2 * m" by blast
    with less.prems(1) have "0 < m" by simp
    have "bit (m AND (m - 1)) j = False" for j
    proof -
      have "\<not> bit (n AND (n - 1)) (Suc j)" using less.prems by simp
      moreover have "n - 1 = 2 * (m - 1) + 1" using m \<open>0 < m\<close> by simp
      ultimately show ?thesis
        using bit_and_iff [of m "m - 1" j] bit_and_iff [of n "n - 1" "Suc j"] by (simp add: m bit_Suc)
    qed
    then have "m AND (m - 1) = 0" by (intro bit_eqI) simp
    with less.IH [of m] m \<open>0 < m\<close> obtain k where "m = 2 ^ k" by auto
    with m have "n = 2 ^ Suc k" by simp
    then show ?thesis by blast
  next
    case False
    then obtain m where m: "n = 2 * m + 1" by (auto elim: oddE)
    have "\<not> bit m j" for j
    proof -
      have "\<not> bit (n AND (n - 1)) (Suc j)" using less.prems by simp
      then show ?thesis
        using bit_and_iff [of n "n - 1" "Suc j"] by (simp add: m bit_Suc)
    qed
    then have "m = 0" by (intro bit_eqI) simp
    with m show ?thesis by (intro exI [of _ 0]) simp
  qed
qed

lemma single_bit:
  fixes w :: "'a::len word"
  assumes "w \<noteq> 0" "w AND (w - 1) = 0"
  shows "\<exists>k. w = 2 ^ k \<and> k < LENGTH('a)"
proof -
  have "0 < unat w" using assms(1) by (simp add: unat_gt_0)
  moreover have "unat w AND (unat w - 1) = 0"
    using arg_cong [OF assms(2), of unat] \<open>0 < unat w\<close> assms(1)
    by (simp add: unsigned_and_eq unat_minus_one)
  ultimately obtain k where k: "unat w = 2 ^ k" using nat_pow2 by blast
  from arg_cong [OF this, of "of_nat :: nat \<Rightarrow> 'a word"] have "w = 2 ^ k" by simp
  with assms(1) show ?thesis by (auto simp: not_le)
qed

lemma single_operation:
  "(operation = 0 \<or> operation AND NOT FILE_OBJECT_OPERATION_MASK \<noteq> 0 \<or> operation AND (operation - 1) \<noteq> 0)
     \<longleftrightarrow> (\<forall>k < 13. operation \<noteq> push_bit k 1)"
proof
  assume a: "operation = 0 \<or> operation AND NOT FILE_OBJECT_OPERATION_MASK \<noteq> 0 \<or> operation AND (operation - 1) \<noteq> 0"
  show "\<forall>k < 13. operation \<noteq> push_bit k 1"
  proof (intro allI impI notI)
    fix k :: nat assume k: "k < 13" "operation = push_bit k 1"
    then have "k \<in> {0, 1, 2, 3, 4, 5, 6, 7, 8, 9, 10, 11, 12}" by simp arith
    with a k(2) show False
      unfolding FILE_OBJECT_OPERATION_MASK_def by auto
  qed
next
  assume a: "\<forall>k < 13. operation \<noteq> push_bit k 1"
  show "operation = 0 \<or> operation AND NOT FILE_OBJECT_OPERATION_MASK \<noteq> 0 \<or> operation AND (operation - 1) \<noteq> 0"
  proof (rule ccontr)
    assume c: "\<not> ?thesis"
    with single_bit [of operation] obtain k where k: "operation = 2 ^ k" "k < 16" by auto
    then have "bits_of operation = {k}"
      by (auto simp: bits_of_def bit_exp_iff)
    moreover from c have "bits_of operation \<subseteq> {..<13}"
      by (simp add: mask_consts outside_mask)
    ultimately have "k < 13" by simp
    with a k show False by (auto simp: push_bit_eq_mult)
  qed
qed

lemma bits_of_single: "k < 13 \<Longrightarrow> bits_of (push_bit k 1 :: u16) = {k}"
  by (auto simp: bits_of_def bit_simps bit_1_iff)

lemma bex_nth: "(\<exists>x \<in> set xs. P x) \<longleftrightarrow> (\<exists>i < length xs. P (xs ! i))"
  unfolding Bex_def in_set_conv_nth by blast

section \<open>Properties\<close>

lemma authorize_policy:
  assumes "length rs \<le> 8"
  shows "file_object_policy_authorize (Some (encode_policy rs)) operation (Some ctx) \<longleftrightarrow>
     (\<forall>r \<in> set rs. rule_wf r) \<and>
     caller_namespace ctx \<notin> {0, 0xffff} \<and> session_epoch ctx \<noteq> 0 \<and> session_epoch ctx = facts_epoch ctx \<and>
     bits_of (facts ctx) \<subseteq> {..<11} \<and>
     (\<exists>k < 13. operation = push_bit k 1 \<and>
        (\<exists>r \<in> set rs. spec_grants (rule_meaning r) k (bits_of (facts ctx)) (caller_namespace ctx)))"
proof -
  let ?ok = "caller_namespace ctx \<notin> {0, 0xffff} \<and> session_epoch ctx \<noteq> 0 \<and>
     session_epoch ctx = facts_epoch ctx \<and> bits_of (facts ctx) \<subseteq> {..<11}"
  have grants: "list_ex (\<lambda>i. rule_grants (policy_rule (encode_policy rs) i) operation ctx) [0 ..< unat (encode_policy rs ! 1)]
      \<longleftrightarrow> (\<exists>r \<in> set rs. rule_grants (encode_rule r) operation ctx)"
  proof -
    have "rule_grants (policy_rule (encode_policy rs) i) operation ctx = rule_grants (encode_rule (rs ! i)) operation ctx"
      if "i < length rs" for i
      using that by (simp add: policy_rule_encode rule_grants_encode rule_grants_encode [where xs = "[]", simplified])
    with encode_policy_head [OF assms] have "list_ex (\<lambda>i. rule_grants (policy_rule (encode_policy rs) i) operation ctx)
        [0 ..< unat (encode_policy rs ! 1)] \<longleftrightarrow> (\<exists>i < length rs. rule_grants (encode_rule (rs ! i)) operation ctx)"
      by (auto simp: list_ex_iff)
    then show ?thesis
      by (simp only: bex_nth)
  qed
  have meaning: "rule_grants (encode_rule r) operation ctx \<longleftrightarrow>
      spec_grants (rule_meaning r) k (bits_of (facts ctx)) (caller_namespace ctx)"
    if "operation = push_bit k 1" "k < 13" for r k
  proof -
    have "bits_of operation = {k}"
      unfolding that(1) by (rule bits_of_single [OF that(2)])
    then show ?thesis
      by (cases r) (auto simp: rule_grants_encode [where xs = "[]", simplified] spec_grants_def rule_meaning_def)
  qed
  show ?thesis
  proof (cases "(\<forall>r \<in> set rs. rule_wf r) \<and> ?ok \<and> (\<exists>k < 13. operation = push_bit k 1)")
    case True
    then obtain k where k: "k < 13" "operation = push_bit k 1" by blast
    have uniq: "j = k" if "operation = push_bit j 1" "j < 13" for j
      using bits_of_single [OF that(2)] bits_of_single [OF k(1)] that(1) k(2) by (metis singleton_inject)
    have nf: "\<not> (operation = 0 \<or> operation AND NOT FILE_OBJECT_OPERATION_MASK \<noteq> 0 \<or> operation AND (operation - 1) \<noteq> 0)"
      unfolding single_operation using k by blast
    have "file_object_policy_authorize (Some (encode_policy rs)) operation (Some ctx) \<longleftrightarrow>
        (\<exists>r \<in> set rs. rule_grants (encode_rule r) operation ctx)"
      using True nf validate_encode [OF assms] grants
      by (auto simp: file_object_policy_authorize_def FILE_OBJECT_POLICY_NAMESPACE_ANY_def mask_consts outside_mask)
    also have "\<dots> \<longleftrightarrow> (\<exists>r \<in> set rs. spec_grants (rule_meaning r) k (bits_of (facts ctx)) (caller_namespace ctx))"
      using meaning [OF k(2,1)] by simp
    finally show ?thesis using True k uniq by blast
  next
    case False
    have "\<not> file_object_policy_authorize (Some (encode_policy rs)) operation (Some ctx)"
      using False validate_encode [OF assms] single_operation [of operation]
      by (auto simp: file_object_policy_authorize_def FILE_OBJECT_POLICY_NAMESPACE_ANY_def mask_consts outside_mask)
    with False show ?thesis by blast
  qed
qed

text \<open>C33: a request against an encoded policy is granted exactly when the policy's rules are well
  formed, the request names one of the 13 operations, the caller's context is bound to the current
  session, and one of the rules allows that operation to that caller under the established facts;
  everything else is refused.\<close>

theorem authorize_is_policy:
  assumes "length rs \<le> 8"
  shows "file_object_policy_authorize (Some (encode_policy rs)) operation (Some ctx) \<longleftrightarrow>
     (\<forall>r \<in> set rs. rule_wf r) \<and>
     caller_namespace ctx \<notin> {0, 0xffff} \<and> session_epoch ctx \<noteq> 0 \<and> session_epoch ctx = facts_epoch ctx \<and>
     bits_of (facts ctx) \<subseteq> {..<11} \<and>
     (\<exists>k < 13. operation = push_bit k 1 \<and>
        (\<exists>r \<in> set rs. spec_grants (rule_meaning r) k (bits_of (facts ctx)) (caller_namespace ctx)))"
  by (rule authorize_policy [OF assms])

text \<open>Signing (operation 3) for the FIDO family (caller 1) after presence and verification, not once terminated.\<close>

definition policy_example :: "(u16 \<times> u32 \<times> u32 \<times> u16) list" where
  "policy_example = [(0x0001, 0, 0, 0xffff), (0x0008, 0x3, 0x100, 1)]"

theorem authorize_is_policy_witness:
  "file_object_policy_authorize (Some (encode_policy policy_example)) 8
     (Some \<lparr>facts = 7, session_epoch = 5, facts_epoch = 5, caller_namespace = 1\<rparr>) \<and>
   \<not> file_object_policy_authorize (Some (encode_policy policy_example)) 8
     (Some \<lparr>facts = 7, session_epoch = 5, facts_epoch = 4, caller_namespace = 1\<rparr>)"
proof
  have l: "length policy_example \<le> 8" by (simp add: policy_example_def)
  have wf: "\<forall>r \<in> set policy_example. rule_wf r"
    by (simp add: policy_example_def rule_wf_def bits_of_0_iff outside_mask [symmetric] and_0_iff [symmetric]
        mask_eq_exp_minus_1)
  show "file_object_policy_authorize (Some (encode_policy policy_example)) 8
     (Some \<lparr>facts = 7, session_epoch = 5, facts_epoch = 5, caller_namespace = 1\<rparr>)"
    unfolding authorize_is_policy [OF l] using wf
    apply (simp add: outside_mask [symmetric] and_0_iff [symmetric] mask_eq_exp_minus_1)
    apply (rule exI [of _ 3])
    apply (simp add: policy_example_def spec_grants_def rule_meaning_def and_0_iff [symmetric] and_eq_iff [symmetric])
    apply (simp add: bits_of_def)
    done
  show "\<not> file_object_policy_authorize (Some (encode_policy policy_example)) 8
     (Some \<lparr>facts = 7, session_epoch = 5, facts_epoch = 4, caller_namespace = 1\<rparr>)"
    unfolding authorize_is_policy [OF l] by simp
qed

end
