(* ===== verification/Object_Store.thy ===== *)
theory Object_Store
  imports File_Store
begin

text \<open>
  Versioned objects in files, \<^verbatim>\<open>pico-keys-sdk/src/fs/object_store.c\<close>: a 20-byte header
  (magic, version, header size, namespace, type, FID, generation, payload size) and the payload.
  Clients read through handles, tokens into a table of eight entries that remember the generation
  they were opened at; an object rewritten since makes its handles stale.

  \<open>mem_ok\<close> says whether \<open>calloc\<close> succeeds. A NULL array with a length is None.
\<close>

section \<open>Objects and handles\<close>

record file_object_id =
  oid_namespace :: u16
  oid_type :: u16
  oid_fid :: u16

record file_object_record =
  payload_offset :: nat
  payload_size :: u32
  generation :: u32

record file_object_handle_entry =
  h_object :: file_object_id
  h_generation :: u32
  h_payload_size :: u32
  h_token :: u32

record object_handles =
  file_object_handles :: "file_object_handle_entry list"
  file_object_next_handle :: u32

definition FILE_OBJECT_HEADER_SIZE :: nat where "FILE_OBJECT_HEADER_SIZE = 20"
definition FILE_OBJECT_MAX_HANDLES :: nat where "FILE_OBJECT_MAX_HANDLES = 8"

definition no_id :: file_object_id where "no_id = \<lparr>oid_namespace = 0, oid_type = 0, oid_fid = 0\<rparr>"

definition free_entry :: file_object_handle_entry where
  "free_entry = \<lparr>h_object = no_id, h_generation = 0, h_payload_size = 0, h_token = 0\<rparr>"

definition no_handles :: object_handles where
  "no_handles = \<lparr>file_object_handles = replicate FILE_OBJECT_MAX_HANDLES free_entry, file_object_next_handle = 1\<rparr>"

definition file_object_magic :: "byte list" where "file_object_magic = [0x50, 0x4B, 0x4F, 0x31]"

definition file_object_id_valid :: "file_object_id \<Rightarrow> bool" where
  "file_object_id_valid oid \<longleftrightarrow> oid_fid oid \<noteq> 0 \<and> oid_fid oid \<noteq> 0xffff"

section \<open>Reading a record\<close>

definition header_mismatch :: "byte list \<Rightarrow> file_object_id \<Rightarrow> u16 \<Rightarrow> nat \<Rightarrow> bool" where
  "header_mismatch header oid fid file_size \<longleftrightarrow>
     take 4 header \<noteq> file_object_magic \<or> header ! 4 \<noteq> 1 \<or> header ! 5 \<noteq> 20
     \<or> get_uint16_be (drop 6 header) \<noteq> oid_namespace oid
     \<or> get_uint16_be (drop 8 header) \<noteq> oid_type oid
     \<or> get_uint16_be (drop 10 header) \<noteq> oid_fid oid \<or> fid \<noteq> oid_fid oid
     \<or> get_uint32_be (drop 12 header) = 0
     \<or> unat (get_uint32_be (drop 16 header)) \<noteq> file_size - FILE_OBJECT_HEADER_SIZE"

definition file_object_parse ::
    "file_store \<Rightarrow> file_ref option \<Rightarrow> file_object_id \<Rightarrow> pk_status + file_object_record" where
  "file_object_parse st file oid =
     (if \<not> file_object_id_valid oid \<or> \<not> file_has_data st file then Inl PICOKEYS_ERR_FILE_NOT_FOUND
      else if file_get_size st file < FILE_OBJECT_HEADER_SIZE then Inl PICOKEYS_WRONG_DATA
      else case file_read_at st file 0 FILE_OBJECT_HEADER_SIZE of (r, header) \<Rightarrow>
        if r \<noteq> PICOKEYS_OK then Inl PICOKEYS_EXEC_ERROR
        else if header_mismatch header oid (file_fid (ix st) (the file)) (file_get_size st file)
        then Inl PICOKEYS_WRONG_DATA
        else Inr \<lparr>payload_offset = FILE_OBJECT_HEADER_SIZE,
                   payload_size = get_uint32_be (drop 16 header),
                   generation = get_uint32_be (drop 12 header)\<rparr>)"

section \<open>Handles\<close>

definition file_object_find_handle :: "object_handles \<Rightarrow> u32 \<Rightarrow> nat option" where
  "file_object_find_handle hs handle =
     (if handle = 0 then None
      else find (\<lambda>i. h_token (file_object_handles hs ! i) = handle) [0 ..< FILE_OBJECT_MAX_HANDLES])"

definition file_object_handle_in_use :: "object_handles \<Rightarrow> u32 \<Rightarrow> bool" where
  "file_object_handle_in_use hs handle \<longleftrightarrow> file_object_find_handle hs handle \<noteq> None"

text \<open>The do-while loop, with ten rounds of fuel: \<open>allocate_token_some\<close> below shows they are enough.\<close>

definition token_fuel :: nat where "token_fuel = 10"

definition file_object_allocate_token :: "object_handles \<Rightarrow> (u32 \<times> object_handles) option" where
  "file_object_allocate_token hs =
     map_option (\<lambda>(token, nxt). (token, hs\<lparr>file_object_next_handle := nxt\<rparr>))
       (next_token (file_object_handle_in_use hs) token_fuel (file_object_next_handle hs))"

definition stale_status :: "pk_status \<Rightarrow> pk_status" where
  "stale_status r =
     (if r = PICOKEYS_ERR_FILE_NOT_FOUND \<or> r = PICOKEYS_WRONG_DATA then PICOKEYS_ERR_STALE_HANDLE else r)"

definition file_object_resolve ::
    "file_store \<Rightarrow> object_handles \<Rightarrow> u32 \<Rightarrow> pk_status + file_ref option \<times> file_object_record" where
  "file_object_resolve st hs handle =
     (case file_object_find_handle hs handle of
        None \<Rightarrow> Inl PICOKEYS_ERR_STALE_HANDLE
      | Some i \<Rightarrow>
          let current = file_object_handles hs ! i;
              current_file = fs_search st (oid_fid (h_object current))
          in case file_object_parse st current_file (h_object current) of
               Inl r \<Rightarrow> Inl (stale_status r)
             | Inr rec \<Rightarrow>
                 if generation rec \<noteq> h_generation current \<or> payload_size rec \<noteq> h_payload_size current
                 then Inl PICOKEYS_ERR_STALE_HANDLE
                 else Inr (current_file, rec))"

text \<open>\<open>handle\<close> is the out parameter, 0 when the call fails.\<close>

definition file_object_open ::
    "file_store \<Rightarrow> file_object_id \<Rightarrow> object_handles \<Rightarrow> (pk_status \<times> u32 \<times> object_handles) option" where
  "file_object_open st oid hs =
     (if \<not> file_object_id_valid oid then Some (PICOKEYS_ERR_NULL_PARAM, 0, hs)
      else case file_object_parse st (fs_search st (oid_fid oid)) oid of
        Inl r \<Rightarrow> Some (r, 0, hs)
      | Inr rec \<Rightarrow>
          (case find (\<lambda>i. h_token (file_object_handles hs ! i) = 0) [0 ..< FILE_OBJECT_MAX_HANDLES] of
             None \<Rightarrow> Some (PICOKEYS_ERR_NO_MEMORY, 0, hs)
           | Some i \<Rightarrow>
               map_option (\<lambda>(token, hs1).
                   (PICOKEYS_OK, token,
                    hs1\<lparr>file_object_handles := (file_object_handles hs1)
                      [i := \<lparr>h_object = oid, h_generation = generation rec,
                             h_payload_size = payload_size rec, h_token = token\<rparr>]\<rparr>))
                 (file_object_allocate_token hs)))"

definition file_object_get_info :: "file_store \<Rightarrow> object_handles \<Rightarrow> u32 \<Rightarrow> pk_status + u32 \<times> u32" where
  "file_object_get_info st hs handle =
     (case file_object_resolve st hs handle of
        Inl r \<Rightarrow> Inl r
      | Inr (file, rec) \<Rightarrow> Inr (payload_size rec, generation rec))"

definition file_object_read_at ::
    "file_store \<Rightarrow> object_handles \<Rightarrow> u32 \<Rightarrow> u32 \<Rightarrow> nat \<Rightarrow> pk_status \<times> byte list" where
  "file_object_read_at st hs handle offset n =
     (case file_object_resolve st hs handle of
        Inl r \<Rightarrow> (r, [])
      | Inr (file, rec) \<Rightarrow>
          if payload_size rec < offset \<or> unat (payload_size rec - offset) < n
          then (PICOKEYS_WRONG_LENGTH, [])
          else file_read_at st file (payload_offset rec + unat offset) n)"

definition file_object_close :: "u32 \<Rightarrow> object_handles \<Rightarrow> pk_status \<times> object_handles" where
  "file_object_close handle hs =
     (case file_object_find_handle hs handle of
        None \<Rightarrow> (PICOKEYS_ERR_STALE_HANDLE, hs)
      | Some i \<Rightarrow> (PICOKEYS_OK, hs\<lparr>file_object_handles := (file_object_handles hs)[i := free_entry]\<rparr>))"

section \<open>Writing and deleting\<close>

definition object_record :: "file_object_id \<Rightarrow> u32 \<Rightarrow> byte list \<Rightarrow> byte list" where
  "object_record oid gen data =
     file_object_magic @ [1, 20] @ put_uint16_be (oid_namespace oid) @ put_uint16_be (oid_type oid)
       @ put_uint16_be (oid_fid oid) @ put_uint32_be gen @ put_uint32_be (of_nat (length data)) @ data"

definition file_object_put ::
    "bool \<Rightarrow> file_object_id \<Rightarrow> byte list option \<Rightarrow> file_store \<Rightarrow> pk_status \<times> file_store" where
  "file_object_put mem_ok oid data_opt st =
     (case data_opt of
        None \<Rightarrow> (PICOKEYS_ERR_NULL_PARAM, st)
      | Some data \<Rightarrow>
          if \<not> file_object_id_valid oid \<or> 2 ^ 32 \<le> length data then (PICOKEYS_ERR_NULL_PARAM, st)
          else
            let file = fs_search st (oid_fid oid);
                write = (\<lambda>f gen st1.
                  if 2 ^ 32 - 1 - FILE_OBJECT_HEADER_SIZE < length data then (PICOKEYS_ERR_NO_MEMORY, st1)
                  else if \<not> mem_ok then (PICOKEYS_ERR_MEMORY_FATAL, st1)
                  else file_put_data f (object_record oid gen data) st1)
            in if file_has_data st file then
                 (case file_object_parse st file oid of
                    Inl r \<Rightarrow> (r, st)
                  | Inr current \<Rightarrow>
                      if generation current = - 1 then (PICOKEYS_WRONG_DATA, st)
                      else write file (generation current + 1) st)
               else if file = None then
                 (case fs_new (oid_fid oid) st of
                    (None, st1) \<Rightarrow> (PICOKEYS_ERR_NO_MEMORY, st1)
                  | (Some f, st1) \<Rightarrow> write (Some f) 1 st1)
               else write file 1 st)"

definition file_object_delete_no_commit :: "file_object_id \<Rightarrow> file_store \<Rightarrow> pk_status \<times> file_store" where
  "file_object_delete_no_commit oid st =
     (if \<not> file_object_id_valid oid then (PICOKEYS_ERR_NULL_PARAM, st)
      else case file_object_parse st (fs_search st (oid_fid oid)) oid of
        Inl r \<Rightarrow> (r, st)
      | Inr rec \<Rightarrow> file_delete_no_commit (fs_search st (oid_fid oid)) st)"

section \<open>Reading what was written\<close>

lemma object_record_fields:
  "take 4 (object_record oid gen data) = file_object_magic"
  "object_record oid gen data ! 4 = 1" "object_record oid gen data ! 5 = 20"
  "get_uint16_be (drop 6 (object_record oid gen data)) = oid_namespace oid"
  "get_uint16_be (drop 8 (object_record oid gen data)) = oid_type oid"
  "get_uint16_be (drop 10 (object_record oid gen data)) = oid_fid oid"
  "get_uint32_be (drop 12 (object_record oid gen data)) = gen"
  "get_uint32_be (drop 16 (object_record oid gen data)) = of_nat (length data)"
  "drop 20 (object_record oid gen data) = data"
  "length (object_record oid gen data) = 20 + length data"
  by (simp_all add: object_record_def file_object_magic_def be_simps nth_append)

lemma plain_file_fid:
  assumes "store_inv st" "plain st fid" "fs_search st fid = Some f"
  shows "file_fid (ix st) f = fid"
proof -
  from assms obtain i where "f = Dyn i" "dyn_slot (ix st) (active_namespace (ix st), fid) = Some i"
    by (auto simp: fs_search_plain)
  with assms(1) show ?thesis by (simp add: dyn_slot_Some store_inv_def dkey_def)
qed

lemma fdata_Some: "fdata st fid = Some d \<longleftrightarrow> (\<exists>f. fs_search st fid = Some f \<and> content st f = Some d)"
  by (simp add: fdata_def split: option.split)

lemma fdata_file:
  "fdata st fid = Some d \<Longrightarrow> file_get_data st (fs_search st fid) = d \<and> file_get_size st (fs_search st fid) = length d \<and>
     file_has_data st (fs_search st fid) = (d \<noteq> []) \<and> fs_search st fid \<noteq> None \<and> content st (the (fs_search st fid)) = Some d"
  by (auto simp: fdata_Some file_get_data_def file_get_size_def file_has_data_def)

lemma fdata_None: "fdata st fid = None \<Longrightarrow> \<not> file_has_data st (fs_search st fid)"
  by (auto simp: fdata_def file_has_data_def)

lemma parse_record:
  assumes "store_inv st" "plain st (oid_fid oid)" "fdata st (oid_fid oid) = Some (object_record oid gen data)"
    and "gen \<noteq> 0" "length data < 2 ^ 32" "file_object_id_valid oid"
  shows "file_object_parse st (fs_search st (oid_fid oid)) oid =
     Inr \<lparr>payload_offset = 20, payload_size = of_nat (length data), generation = gen\<rparr>"
proof -
  note d = fdata_file [OF assms(3)]
  obtain f where f: "fs_search st (oid_fid oid) = Some f" using d by blast
  have fid: "file_fid (ix st) (the (fs_search st (oid_fid oid))) = oid_fid oid"
    using plain_file_fid [OF assms(1,2) f] f by simp
  have read: "file_read_at st (fs_search st (oid_fid oid)) 0 20 = (PICOKEYS_OK, take 20 (object_record oid gen data))"
    using d by (simp add: file_read_at_def bslice_def object_record_fields)
  have ne: "object_record oid gen data \<noteq> []"
    by (simp add: object_record_def)
  have u: "unat (of_nat (length data) :: u32) = length data"
    using assms(5) by (simp add: unat_of_nat)
  have hdr: "take 20 (object_record oid gen data) = object_record oid gen data ! 0 # drop 1 (take 20 (object_record oid gen data))"
    by (simp add: object_record_def file_object_magic_def)
  have g16: "get_uint16_be (drop k (take 20 xs)) = get_uint16_be (drop k xs)" if "k < 19" for k and xs :: "byte list"
    using that by (simp add: get_uint16_be_def drop_take)
  have g32: "get_uint32_be (drop k (take 20 xs)) = get_uint32_be (drop k xs)" if "k < 17" for k and xs :: "byte list"
    using that by (simp add: get_uint32_be_def drop_take)
  have "\<not> header_mismatch (take 20 (object_record oid gen data)) oid (oid_fid oid) (length (object_record oid gen data))"
    unfolding header_mismatch_def FILE_OBJECT_HEADER_SIZE_def
    using assms(4) u by (simp add: g16 g32 object_record_fields take_take min_def)
  then show ?thesis
    unfolding file_object_parse_def FILE_OBJECT_HEADER_SIZE_def read
    using assms(6) d ne fid by (simp add: object_record_fields g32)
qed

text \<open>A successful \<open>put\<close> leaves exactly the record of the new payload, with the next generation.\<close>

lemma parse_Inr:
  assumes "file_object_parse st file oid = Inr rec"
  shows "generation rec \<noteq> 0"
  using assms by (auto simp: file_object_parse_def header_mismatch_def get_uint32_be_def drop_take
      split: if_splits prod.splits)

lemma parse_not_OK: "file_object_parse st file oid \<noteq> Inl PICOKEYS_OK"
  by (auto simp: file_object_parse_def split: prod.splits)

lemma put_law:
  assumes "store_inv st" "plain st (oid_fid oid)" "file_object_put mem_ok oid (Some data) st = (PICOKEYS_OK, st')"
  shows "only_at (oid_fid oid) st st'"
    and "\<exists>gen. fdata st' (oid_fid oid) = Some (object_record oid gen data) \<and> gen \<noteq> 0 \<and>
           (case file_object_parse st (fs_search st (oid_fid oid)) oid of
              Inr rec \<Rightarrow> gen = generation rec + 1 | Inl _ \<Rightarrow> gen = 1)"
    and "length data < 2 ^ 32 - 20" "file_object_id_valid oid"
proof -
  let ?fid = "oid_fid oid"
  have valid: "file_object_id_valid oid"
    using assms(3) by (simp add: file_object_put_def Let_def split: if_splits)
  have len: "length data < 2 ^ 32 - 20"
    using assms(3) by (auto simp: file_object_put_def Let_def FILE_OBJECT_HEADER_SIZE_def parse_not_OK
        split: if_splits sum.splits prod.splits option.splits)
  have "only_at ?fid st st' \<and> (\<exists>gen. fdata st' ?fid = Some (object_record oid gen data) \<and> gen \<noteq> 0 \<and>
           (case file_object_parse st (fs_search st ?fid) oid of Inr rec \<Rightarrow> gen = generation rec + 1 | Inl _ \<Rightarrow> gen = 1))"
  proof (cases "fs_search st ?fid")
    case None
    then have nf: "\<not> file_has_data st None" by (simp add: file_has_data_def)
    obtain r st1 where n: "fs_new ?fid st = (r, st1)" by fastforce
    obtain f where f: "r = Some f" "file_put_data (Some f) (object_record oid 1 data) st1 = (PICOKEYS_OK, st')"
      using assms(3) None nf n
      by (auto simp: file_object_put_def Let_def split: if_splits option.splits)
    note nl = fs_new_law [OF assms(1,2) None n]
    have s1: "store_inv st1" "plain st1 ?fid" "fs_search st1 ?fid = Some f"
      using nl(1,3) f(1) assms(2) by (auto simp: only_at_def)
    note pl = put_data_law [OF s1 f(2)]
    have "file_object_parse st (fs_search st ?fid) oid = Inl PICOKEYS_ERR_FILE_NOT_FOUND"
      using None nf by (simp add: file_object_parse_def)
    with only_at_trans [OF nl(1) pl(1)] pl(3) show ?thesis by auto
  next
    case (Some f)
    show ?thesis
    proof (cases "file_has_data st (Some f)")
      case True
      obtain rec where rec: "file_object_parse st (Some f) oid = Inr rec" "generation rec \<noteq> - 1"
          "file_put_data (Some f) (object_record oid (generation rec + 1) data) st = (PICOKEYS_OK, st')"
        using assms(3) Some True
        by (auto simp: file_object_put_def Let_def parse_not_OK split: if_splits sum.splits)
      note pl = put_data_law [OF assms(1,2) Some rec(3)]
      have "generation rec + 1 \<noteq> 0"
        using rec(2) by (metis add_eq_0_iff2 add.commute)
      with pl Some rec(1) show ?thesis by auto
    next
      case False
      have w: "file_put_data (Some f) (object_record oid 1 data) st = (PICOKEYS_OK, st')"
        using assms(3) Some False by (auto simp: file_object_put_def Let_def split: if_splits)
      note pl = put_data_law [OF assms(1,2) Some w]
      have "file_object_parse st (fs_search st ?fid) oid = Inl PICOKEYS_ERR_FILE_NOT_FOUND"
        using Some False by (simp add: file_object_parse_def)
      with pl show ?thesis by auto
    qed
  qed
  then show "only_at ?fid st st'" "\<exists>gen. fdata st' ?fid = Some (object_record oid gen data) \<and> gen \<noteq> 0 \<and>
           (case file_object_parse st (fs_search st ?fid) oid of Inr rec \<Rightarrow> gen = generation rec + 1 | Inl _ \<Rightarrow> gen = 1)"
    by blast+
  show "length data < 2 ^ 32 - 20" "file_object_id_valid oid" using len valid by simp_all
qed

section \<open>Tokens\<close>

definition tokens :: "object_handles \<Rightarrow> u32 set" where
  "tokens hs = {t. t \<noteq> 0 \<and> t \<in> h_token ` set (file_object_handles hs)}"

definition handles_inv :: "object_handles \<Rightarrow> bool" where
  "handles_inv hs \<longleftrightarrow> length (file_object_handles hs) = FILE_OBJECT_MAX_HANDLES \<and>
     (\<forall>i < FILE_OBJECT_MAX_HANDLES. \<forall>j < FILE_OBJECT_MAX_HANDLES.
        h_token (file_object_handles hs ! i) = h_token (file_object_handles hs ! j) \<longrightarrow>
        h_token (file_object_handles hs ! i) \<noteq> 0 \<longrightarrow> i = j)"

lemma in_use_tokens:
  "length (file_object_handles hs) = FILE_OBJECT_MAX_HANDLES \<Longrightarrow>
   file_object_handle_in_use hs h \<longleftrightarrow> h \<in> tokens hs"
proof -
  assume l: "length (file_object_handles hs) = FILE_OBJECT_MAX_HANDLES"
  have "(find P xs \<noteq> None) = (\<exists>x \<in> set xs. P x)" for P and xs :: "nat list"
    by (simp only: find_None_iff) blast
  then have "file_object_handle_in_use hs h \<longleftrightarrow> h \<noteq> 0 \<and> (\<exists>i < FILE_OBJECT_MAX_HANDLES. h_token (file_object_handles hs ! i) = h)"
    by (simp add: file_object_handle_in_use_def file_object_find_handle_def Bex_def del: not_None_eq)
  also have "\<dots> \<longleftrightarrow> h \<in> tokens hs"
    using l by (auto simp: tokens_def in_set_conv_nth image_iff) (metis nth_mem)
  finally show ?thesis .
qed

lemma tokens_finite: "finite (tokens hs)" "card (tokens hs) \<le> length (file_object_handles hs)"
proof -
  have s: "tokens hs \<subseteq> h_token ` set (file_object_handles hs)" by (auto simp: tokens_def)
  then show "finite (tokens hs)" by (rule finite_subset) simp
  have "card (tokens hs) \<le> card (h_token ` set (file_object_handles hs))"
    by (rule card_mono [OF _ s]) simp
  also have "\<dots> \<le> length (file_object_handles hs)"
    by (meson card_image_le card_length finite_set le_trans)
  finally show "card (tokens hs) \<le> length (file_object_handles hs)" .
qed

lemma allocate_token_some:
  assumes "length (file_object_handles hs) = FILE_OBJECT_MAX_HANDLES"
  shows "\<exists>t hs'. file_object_allocate_token hs = Some (t, hs')"
proof -
  have "card (tokens hs) + 1 < token_fuel"
    using tokens_finite(2) [of hs] assms by (simp add: token_fuel_def FILE_OBJECT_MAX_HANDLES_def)
  then obtain t nxt' where "next_token (file_object_handle_in_use hs) token_fuel (file_object_next_handle hs) = Some (t, nxt')"
    by (rule next_token_some [OF tokens_finite(1), where used = "file_object_handle_in_use hs"])
      (simp_all only: in_use_tokens [OF assms], simp_all add: token_fuel_def)
  then show ?thesis by (simp add: file_object_allocate_token_def)
qed

lemma allocate_token_law:
  assumes "file_object_allocate_token hs = Some (t, hs')" "length (file_object_handles hs) = FILE_OBJECT_MAX_HANDLES"
  shows "t \<noteq> 0 \<and> t \<notin> tokens hs \<and> file_object_handles hs' = file_object_handles hs"
  using assms next_token_law [of "file_object_handle_in_use hs" token_fuel]
  by (auto simp: file_object_allocate_token_def in_use_tokens)

section \<open>Opening and reading\<close>

lemma find_first: "i < n \<Longrightarrow> P i \<Longrightarrow> \<forall>j < i. \<not> P j \<Longrightarrow> find P [0 ..< n] = Some i"
  unfolding find_Some_iff by (intro exI [of _ i]) simp

lemma find_handle_fresh:
  assumes "length (file_object_handles hs) = FILE_OBJECT_MAX_HANDLES" "i < FILE_OBJECT_MAX_HANDLES"
    and "t \<noteq> 0" "t \<notin> tokens hs" "h_token e = t"
  shows "file_object_find_handle (hs\<lparr>file_object_handles := (file_object_handles hs)[i := e]\<rparr>) t = Some i"
proof -
  have old: "h_token (file_object_handles hs ! j) \<noteq> t" if "j < FILE_OBJECT_MAX_HANDLES" for j
    using assms(1,3,4) that by (auto simp: tokens_def image_iff)
  have "\<forall>j < i. h_token ((file_object_handles hs)[i := e] ! j) \<noteq> t"
    using assms(2) old by simp
  moreover have "h_token ((file_object_handles hs)[i := e] ! i) = t"
    using assms(1,2,5) by simp
  ultimately show ?thesis
    using assms(2,3) find_first [of i FILE_OBJECT_MAX_HANDLES "\<lambda>j. h_token ((file_object_handles hs)[i := e] ! j) = t"]
    by (simp add: file_object_find_handle_def)
qed

lemma open_law:
  assumes "file_object_parse st (fs_search st (oid_fid oid)) oid = Inr rec" "file_object_id_valid oid"
    and "length (file_object_handles hs) = FILE_OBJECT_MAX_HANDLES"
    and "\<exists>i < FILE_OBJECT_MAX_HANDLES. h_token (file_object_handles hs ! i) = 0"
  shows "\<exists>h hs'. file_object_open st oid hs = Some (PICOKEYS_OK, h, hs') \<and>
           length (file_object_handles hs') = FILE_OBJECT_MAX_HANDLES \<and>
           (\<exists>i. file_object_find_handle hs' h = Some i \<and> file_object_handles hs' ! i =
              \<lparr>h_object = oid, h_generation = generation rec, h_payload_size = payload_size rec, h_token = h\<rparr>)"
proof -
  obtain i where i: "find (\<lambda>i. h_token (file_object_handles hs ! i) = 0) [0 ..< FILE_OBJECT_MAX_HANDLES] = Some i"
    using assms(4) by (cases "find (\<lambda>i. h_token (file_object_handles hs ! i) = 0) [0 ..< FILE_OBJECT_MAX_HANDLES]")
      (auto simp: find_None_iff)
  then have il: "i < FILE_OBJECT_MAX_HANDLES"
    by (auto simp: find_Some_iff)
  obtain t hs1 where t: "file_object_allocate_token hs = Some (t, hs1)"
    using allocate_token_some [OF assms(3)] by blast
  note al = allocate_token_law [OF t assms(3)]
  let ?e = "\<lparr>h_object = oid, h_generation = generation rec, h_payload_size = payload_size rec, h_token = t\<rparr>"
  let ?hs' = "hs1\<lparr>file_object_handles := (file_object_handles hs1)[i := ?e]\<rparr>"
  have "file_object_open st oid hs = Some (PICOKEYS_OK, t, ?hs')"
    using assms(1,2) i t by (simp add: file_object_open_def)
  moreover have "file_object_find_handle ?hs' t = Some i"
    using al assms(3) il by (intro find_handle_fresh) (auto simp: tokens_def)
  ultimately show ?thesis using al assms(3) il by auto
qed

section \<open>Puts that succeed\<close>

lemma put_fresh_succeeds:
  assumes "store_inv st" "plain st (oid_fid oid)" "fs_search st (oid_fid oid) = None" "length data < 65536"
    and "dynamic_files (ix st) < MAX_DYNAMIC_FILES" "flash st = []" "file_object_id_valid oid"
  shows "\<exists>st'. file_object_put True oid (Some data) st = (PICOKEYS_OK, st') \<and> flash st' = []"
proof -
  obtain r st1 where n: "fs_new (oid_fid oid) st = (r, st1)" by fastforce
  note nl = fs_new_law [OF assms(1-3) n]
  obtain f where f: "r = Some f" using nl(4) assms(5) by blast
  obtain r2 st2 where w: "file_put_data (Some f) (object_record oid 1 data) st1 = (r2, st2)" by fastforce
  have "r2 = PICOKEYS_OK \<and> flash st2 = []"
    using put_data_law(5) [OF _ _ _ w, of "oid_fid oid"] nl f assms(2,6) by (auto simp: only_at_def)
  then show ?thesis
    using n f w assms(3,4,7) by (simp add: file_object_put_def Let_def file_has_data_def FILE_OBJECT_HEADER_SIZE_def)
qed

lemma put_again_succeeds:
  assumes "store_inv st" "plain st (oid_fid oid)" "fdata st (oid_fid oid) = Some (object_record oid gen old)"
    and "gen \<notin> {0, - 1}" "length old < 2 ^ 32" "file_object_id_valid oid" "flash st = []" "length data < 65536"
  shows "\<exists>st'. file_object_put True oid (Some data) st = (PICOKEYS_OK, st') \<and> flash st' = []"
proof -
  note pr = parse_record [OF assms(1-3) _ assms(5,6)]
  note d = fdata_file [OF assms(3)]
  obtain f where f: "fs_search st (oid_fid oid) = Some f" using d by blast
  obtain r st' where w: "file_put_data (Some f) (object_record oid (gen + 1) data) st = (r, st')" by fastforce
  have "r = PICOKEYS_OK \<and> flash st' = []"
    using put_data_law(5) [OF assms(1,2) f w] assms(7) by simp
  moreover have "object_record oid gen old \<noteq> []" by (simp add: object_record_def)
  ultimately show ?thesis
    using pr assms(4,6,8) d f w by (simp add: file_object_put_def Let_def FILE_OBJECT_HEADER_SIZE_def)
qed

definition store_example :: file_store where
  "store_example = \<lparr>ix = index_example, content = (\<lambda>_. None), flash = []\<rparr>"

definition oid_example :: file_object_id where
  "oid_example = \<lparr>oid_namespace = 1, oid_type = 7, oid_fid = 0xC200\<rparr>"

lemma store_example_facts:
  "store_inv store_example" "plain store_example (oid_fid oid_example)"
  "fs_search store_example (oid_fid oid_example) = None" "file_object_id_valid oid_example"
  "dynamic_files (ix store_example) < MAX_DYNAMIC_FILES" "flash store_example = []"
proof -
  have d: "dynamic_only index_example 0xC200"
    by (rule index_example_ok(5)) (simp_all add: EF_PHY_def fid_ok_def index_consts)
  then show p: "plain store_example (oid_fid oid_example)"
    by (simp add: plain_def store_example_def oid_example_def EF_META_def)
  show i: "store_inv store_example"
    by (simp add: store_inv_def store_example_def index_example_ok)
  show "fs_search store_example (oid_fid oid_example) = None"
    using fs_search_plain [OF i p] by (simp add: store_example_def index_example_ok)
  show "file_object_id_valid oid_example" "dynamic_files (ix store_example) < MAX_DYNAMIC_FILES" "flash store_example = []"
    by (simp_all add: oid_example_def file_object_id_valid_def store_example_def index_example_ok index_consts)
qed

section \<open>Properties\<close>

text \<open>C34: an object that has been put can be opened while a handle is free, and reading through the
  handle yields exactly the slices of the payload that was put; reads past its end are refused; the
  other files of the store keep their data.\<close>

theorem object_put_then_read:
  assumes "store_inv st" "plain st (oid_fid oid)" "file_object_put True oid (Some data) st = (PICOKEYS_OK, st')"
    and "length (file_object_handles hs) = FILE_OBJECT_MAX_HANDLES"
    and "\<exists>i < FILE_OBJECT_MAX_HANDLES. h_token (file_object_handles hs ! i) = 0"
  shows "\<exists>h hs'. file_object_open st' oid hs = Some (PICOKEYS_OK, h, hs') \<and>
     (\<forall>offset n. file_object_read_at st' hs' h offset n =
        (if unat offset + n \<le> length data then (PICOKEYS_OK, bslice (unat offset) n data)
         else (PICOKEYS_WRONG_LENGTH, []))) \<and>
     (\<forall>x. plain st x \<longrightarrow> x \<noteq> oid_fid oid \<longrightarrow> fdata st' x = fdata st x)"
proof -
  note pl = put_law [OF assms(1-3)]
  obtain gen where gen: "fdata st' (oid_fid oid) = Some (object_record oid gen data)" "gen \<noteq> 0"
    using pl(2) by blast
  have s': "store_inv st'" "plain st' (oid_fid oid)"
    using pl(1) assms(2) by (simp_all add: only_at_def)
  have l32: "length data < 2 ^ 32" using pl(3) by simp
  note pr = parse_record [OF s' gen l32 pl(4)]
  from open_law [OF pr pl(4) assms(4,5)] obtain h hs' i where h:
      "file_object_open st' oid hs = Some (PICOKEYS_OK, h, hs')"
      "file_object_find_handle hs' h = Some i" "file_object_handles hs' ! i =
        \<lparr>h_object = oid, h_generation = gen, h_payload_size = of_nat (length data), h_token = h\<rparr>"
    by auto
  have res: "file_object_resolve st' hs' h = Inr (fs_search st' (oid_fid oid),
      \<lparr>payload_offset = 20, payload_size = of_nat (length data), generation = gen\<rparr>)"
    using h pr by (simp add: file_object_resolve_def)
  note d = fdata_file [OF gen(1)]
  have u: "unat (of_nat (length data) :: u32) = length data"
    using l32 by (simp add: unat_of_nat)
  have "file_object_read_at st' hs' h offset n =
        (if unat offset + n \<le> length data then (PICOKEYS_OK, bslice (unat offset) n data)
         else (PICOKEYS_WRONG_LENGTH, []))" for offset n
  proof (cases "(of_nat (length data) :: u32) < offset")
    case True
    then show ?thesis using res u by (simp add: file_object_read_at_def word_less_nat_alt)
  next
    case False
    then have "unat ((of_nat (length data) :: u32) - offset) = length data - unat offset"
      using u by (simp add: unat_sub word_le_nat_alt not_less)
    moreover have "bslice (20 + k) n (object_record oid gen data) = bslice k n data" for k
      unfolding bslice_def by (metis add.commute drop_drop object_record_fields(9))
    ultimately show ?thesis using False res u d
      by (auto simp: file_object_read_at_def file_read_at_def object_record_fields word_less_nat_alt)
  qed
  with h(1) pl(1) show ?thesis by (auto simp: only_at_def)
qed

theorem object_put_then_read_witness:
  "\<exists>st' h hs'. file_object_put True oid_example (Some [1, 2, 3]) store_example = (PICOKEYS_OK, st') \<and>
     file_object_open st' oid_example no_handles = Some (PICOKEYS_OK, h, hs') \<and>
     file_object_read_at st' hs' h 1 2 = (PICOKEYS_OK, [2, 3])"
proof -
  note e = store_example_facts
  obtain st' where p: "file_object_put True oid_example (Some [1, 2, 3]) store_example = (PICOKEYS_OK, st')"
    using put_fresh_succeeds [OF e(1,2,3) _ e(5,6,4), of "[1, 2, 3]"] by auto
  have "length (file_object_handles no_handles) = FILE_OBJECT_MAX_HANDLES"
      "\<exists>i < FILE_OBJECT_MAX_HANDLES. h_token (file_object_handles no_handles ! i) = 0"
    by (auto simp: no_handles_def free_entry_def FILE_OBJECT_MAX_HANDLES_def intro!: exI [of _ 0])
  from object_put_then_read [OF e(1,2) p this] p show ?thesis
    by (fastforce simp: bslice_def)
qed

text \<open>A handle opened before the object was put again is refused, whatever it is used for.\<close>

theorem put_makes_handles_stale:
  assumes "store_inv st" "plain st (oid_fid oid)" "file_object_put True oid (Some data) st = (PICOKEYS_OK, st')"
    and "file_object_resolve st hs h = Inr (file, rec)"
    and "file_object_find_handle hs h = Some i" "h_object (file_object_handles hs ! i) = oid"
  shows "file_object_get_info st' hs h = Inl PICOKEYS_ERR_STALE_HANDLE \<and>
         file_object_read_at st' hs h offset n = (PICOKEYS_ERR_STALE_HANDLE, [])"
proof -
  note pl = put_law [OF assms(1-3)]
  have old: "file_object_parse st (fs_search st (oid_fid oid)) oid = Inr rec"
      "generation rec = h_generation (file_object_handles hs ! i)"
    using assms(4-6) by (auto simp: file_object_resolve_def Let_def split: sum.splits if_splits)
  then obtain gen where gen: "fdata st' (oid_fid oid) = Some (object_record oid gen data)" "gen \<noteq> 0"
      "gen = generation rec + 1"
    using pl(2) by auto
  have s': "store_inv st'" "plain st' (oid_fid oid)"
    using pl(1) assms(2) by (simp_all add: only_at_def)
  have l32: "length data < 2 ^ 32" using pl(3) by simp
  have "file_object_resolve st' hs h = Inl PICOKEYS_ERR_STALE_HANDLE"
    using parse_record [OF s' gen(1,2) l32 pl(4)] assms(5,6) old(2) gen(3)
    by (simp add: file_object_resolve_def Let_def)
  then show ?thesis by (simp add: file_object_get_info_def file_object_read_at_def)
qed

theorem put_makes_handles_stale_witness:
  "\<exists>st1 st2 h hs. file_object_put True oid_example (Some [1]) store_example = (PICOKEYS_OK, st1) \<and>
     file_object_open st1 oid_example no_handles = Some (PICOKEYS_OK, h, hs) \<and>
     file_object_put True oid_example (Some [1]) st1 = (PICOKEYS_OK, st2) \<and>
     file_object_read_at st2 hs h 0 1 = (PICOKEYS_ERR_STALE_HANDLE, [])"
proof -
  note e = store_example_facts
  obtain st1 where p: "file_object_put True oid_example (Some [1]) store_example = (PICOKEYS_OK, st1)" "flash st1 = []"
    using put_fresh_succeeds [OF e(1,2,3) _ e(5,6,4), of "[1]"] by auto
  note pl = put_law [OF e(1,2) p(1)]
  have nf: "file_object_parse store_example (fs_search store_example (oid_fid oid_example)) oid_example
      = Inl PICOKEYS_ERR_FILE_NOT_FOUND"
    by (simp add: file_object_parse_def e(3) file_has_data_def)
  from pl(2) have f: "fdata st1 (oid_fid oid_example) = Some (object_record oid_example 1 [1])"
    by (simp add: nf)
  have s1: "store_inv st1" "plain st1 (oid_fid oid_example)"
    using pl(1) e(2) by (simp_all add: only_at_def)
  have pr: "file_object_parse st1 (fs_search st1 (oid_fid oid_example)) oid_example =
      Inr \<lparr>payload_offset = 20, payload_size = 1, generation = 1\<rparr>"
    using parse_record [OF s1 f _ _ e(4)] by simp
  have l: "length (file_object_handles no_handles) = FILE_OBJECT_MAX_HANDLES"
      "\<exists>i < FILE_OBJECT_MAX_HANDLES. h_token (file_object_handles no_handles ! i) = 0"
    by (auto simp: no_handles_def free_entry_def FILE_OBJECT_MAX_HANDLES_def intro!: exI [of _ 0])
  obtain h hs i where h: "file_object_open st1 oid_example no_handles = Some (PICOKEYS_OK, h, hs)"
      "file_object_find_handle hs h = Some i" "file_object_handles hs ! i =
        \<lparr>h_object = oid_example, h_generation = 1, h_payload_size = 1, h_token = h\<rparr>"
    using open_law [OF pr e(4) l] by auto
  have res: "file_object_resolve st1 hs h = Inr (fs_search st1 (oid_fid oid_example),
      \<lparr>payload_offset = 20, payload_size = 1, generation = 1\<rparr>)"
    using h pr by (simp add: file_object_resolve_def)
  obtain st2 where p2: "file_object_put True oid_example (Some [1]) st1 = (PICOKEYS_OK, st2)"
    using put_again_succeeds [OF s1 f _ _ e(4) p(2), of "[1]"] by auto
  have "h_object (file_object_handles hs ! i) = oid_example" using h by simp
  from put_makes_handles_stale [OF s1 p2 res h(2) this] show ?thesis
    using p h p2 by blast
qed

text \<open>C35: opening never hangs in the search for an unused token: whatever the counter and the eight
  handles hold, at most ten candidates are tried, and the token given out is new and not zero.\<close>

theorem open_terminates:
  assumes "length (file_object_handles hs) = FILE_OBJECT_MAX_HANDLES"
  shows "\<exists>r h hs'. file_object_open st oid hs = Some (r, h, hs') \<and>
     (r = PICOKEYS_OK \<longrightarrow> h \<noteq> 0 \<and> h \<notin> tokens hs) \<and> (r \<noteq> PICOKEYS_OK \<longrightarrow> h = 0 \<and> hs' = hs)"
proof -
  obtain t hs1 where t: "file_object_allocate_token hs = Some (t, hs1)"
    using allocate_token_some [OF assms] by blast
  show ?thesis
    using allocate_token_law [OF t assms] t parse_not_OK
    by (auto simp: file_object_open_def split: sum.splits option.splits)
qed

theorem open_terminates_witness:
  "\<exists>r h hs'. file_object_open store_example oid_example no_handles = Some (r, h, hs')"
  using open_terminates [of no_handles store_example oid_example] by (auto simp: no_handles_def)

end
