(* ===== verification/Object_Txn.thy ===== *)
theory Object_Txn
  imports File_Store
begin

text \<open>
  Transactional objects, \<^verbatim>\<open>pico-keys-sdk/src/fs/object_store_txn.c\<close>: two record files hold payloads,
  two commit files say which record is current; both carry a MAC. A put or a delete removes the
  files of the slot that is not current, writes the record, waits for flash, writes the commit
  record of the next generation, and waits again, so that after a failure or a power cut one of
  the two versions is current.

  The MAC provider is a parameter, a streaming interface over a context \<open>'c\<close>; every call answers a
  status (Inl) or goes on. \<open>mem_ok\<close> says whether \<open>calloc\<close> succeeds. NULL arguments are None.
\<close>

section \<open>Layouts, states, authenticators\<close>

record txn_layout =
  l_namespace :: u16
  l_type :: u16
  l_object_id :: u32
  record_fid :: "u16 list"
  commit_fid :: "u16 list"

record txn_state =
  ts_generation :: u32
  ts_record_id :: u32
  ts_payload_size :: u32
  ts_commit_slot :: byte
  ts_record_slot :: byte
  ts_deleted :: bool

record 'c authenticator =
  au_start :: "pk_status + 'c"
  au_update :: "'c \<Rightarrow> byte list \<Rightarrow> pk_status + 'c"
  au_finish :: "'c \<Rightarrow> pk_status + byte list"

definition TXN_RECORD_HEADER_SIZE :: nat where "TXN_RECORD_HEADER_SIZE = 32"
definition TXN_COMMIT_HEADER_SIZE :: nat where "TXN_COMMIT_HEADER_SIZE = 48"
definition AUTH_TAG_SIZE :: nat where "AUTH_TAG_SIZE = 16"

lemmas txn_consts = TXN_RECORD_HEADER_SIZE_def TXN_COMMIT_HEADER_SIZE_def AUTH_TAG_SIZE_def

definition record_magic :: "byte list" where "record_magic = [0x50, 0x4B, 0x52, 0x32]"
definition commit_magic :: "byte list" where "commit_magic = [0x50, 0x4B, 0x43, 0x32]"

definition txn_layout_valid :: "file_store \<Rightarrow> txn_layout \<Rightarrow> bool" where
  "txn_layout_valid st layout \<longleftrightarrow>
     (let fids = record_fid layout @ commit_fid layout in
      list_all (\<lambda>i. fids ! i \<noteq> 0 \<and> fids ! i \<noteq> 0xffff \<and> file_search_by_fid (ix st) (fids ! i) None 3 = None \<and>
                    list_all (\<lambda>j. fids ! i \<noteq> fids ! j) [0 ..< i]) [0 ..< 4])"

definition tag_equal :: "byte list \<Rightarrow> byte list \<Rightarrow> bool" where
  "tag_equal left right \<longleftrightarrow>
     foldl (\<lambda>difference i. difference OR (left ! i XOR right ! i)) 0 [0 ..< AUTH_TAG_SIZE] = 0"

definition auth_update :: "'c authenticator \<Rightarrow> pk_status + 'c \<Rightarrow> byte list \<Rightarrow> pk_status + 'c" where
  "auth_update auth r data = (case r of Inl e \<Rightarrow> Inl e | Inr c \<Rightarrow> au_update auth c data)"

definition auth_finish :: "'c authenticator \<Rightarrow> pk_status + 'c \<Rightarrow> pk_status + byte list" where
  "auth_finish auth r = (case r of Inl e \<Rightarrow> Inl e | Inr c \<Rightarrow> au_finish auth c)"

definition auth_buffer :: "'c authenticator \<Rightarrow> byte list \<Rightarrow> byte list \<Rightarrow> pk_status + byte list" where
  "auth_buffer auth first second =
     (let r = auth_update auth (au_start auth) first
      in auth_finish auth (if second \<noteq> [] then auth_update auth r second else r))"

text \<open>The payload is fed to the MAC in chunks of 256 bytes read from the file.\<close>

function auth_chunks ::
    "'c authenticator \<Rightarrow> file_store \<Rightarrow> file_ref option \<Rightarrow> nat \<Rightarrow> nat \<Rightarrow> pk_status + 'c \<Rightarrow> pk_status + 'c" where
  "auth_chunks auth st file payload_size offset r =
     (if payload_size \<le> offset then r
      else case r of Inl e \<Rightarrow> Inl e
        | Inr c \<Rightarrow>
          (let chunk = min 256 (payload_size - offset) in
           case file_read_at st file (TXN_RECORD_HEADER_SIZE + offset) chunk of (s, buffer) \<Rightarrow>
             if s \<noteq> PICOKEYS_OK then Inl s
             else auth_chunks auth st file payload_size (offset + chunk) (au_update auth c buffer)))"
  by pat_completeness auto
termination
  by (relation "measure (\<lambda>(auth, st, file, payload_size, offset, r). payload_size - offset)") auto

declare auth_chunks.simps [simp del]

definition auth_record ::
    "'c authenticator \<Rightarrow> file_store \<Rightarrow> file_ref option \<Rightarrow> byte list \<Rightarrow> nat \<Rightarrow> pk_status + byte list" where
  "auth_record auth st file header payload_size =
     auth_finish auth (auth_chunks auth st file payload_size 0 (auth_update auth (au_start auth) header))"

section \<open>Reading records and commits\<close>

definition record_mismatch :: "txn_layout \<Rightarrow> byte list \<Rightarrow> byte \<Rightarrow> u32 \<Rightarrow> u32 \<Rightarrow> u32 \<Rightarrow> bool" where
  "record_mismatch layout header slot generation record_id payload_size \<longleftrightarrow>
     take 4 header \<noteq> record_magic \<or> header ! 4 \<noteq> 1 \<or> header ! 5 \<noteq> 32 \<or> header ! 6 \<noteq> slot \<or> header ! 7 \<noteq> 0
     \<or> get_uint16_be (drop 8 header) \<noteq> l_namespace layout
     \<or> get_uint16_be (drop 10 header) \<noteq> l_type layout
     \<or> get_uint32_be (drop 12 header) \<noteq> l_object_id layout
     \<or> get_uint32_be (drop 16 header) \<noteq> generation
     \<or> get_uint32_be (drop 20 header) \<noteq> record_id
     \<or> get_uint32_be (drop 24 header) \<noteq> payload_size
     \<or> get_uint16_be (drop 28 header) \<noteq> record_fid layout ! unat slot
     \<or> get_uint16_be (drop 30 header) \<noteq> 0"

text \<open>\<open>PICOKEYS_OK\<close> when the record of the slot is the one the commit names.\<close>

definition validate_record ::
    "file_store \<Rightarrow> txn_layout \<Rightarrow> 'c authenticator \<Rightarrow> byte \<Rightarrow> u32 \<Rightarrow> u32 \<Rightarrow> u32 \<Rightarrow> byte list \<Rightarrow> pk_status" where
  "validate_record st layout auth slot generation record_id payload_size commit_record_tag =
     (if 1 < slot then PICOKEYS_WRONG_DATA
      else let file = fs_search st (record_fid layout ! unat slot) in
        if \<not> file_has_data st file then PICOKEYS_ERR_FILE_NOT_FOUND
        else if 2 ^ 32 - 1 - TXN_RECORD_HEADER_SIZE - AUTH_TAG_SIZE < unat payload_size
             \<or> file_get_size st file \<noteq> TXN_RECORD_HEADER_SIZE + unat payload_size + AUTH_TAG_SIZE
        then PICOKEYS_WRONG_DATA
        else case file_read_at st file 0 TXN_RECORD_HEADER_SIZE of (r, header) \<Rightarrow>
          if r \<noteq> PICOKEYS_OK then r
          else if record_mismatch layout header slot generation record_id payload_size then PICOKEYS_WRONG_DATA
          else case auth_record auth st file header (unat payload_size) of
            Inl e \<Rightarrow> e
          | Inr calculated_tag \<Rightarrow>
              (case file_read_at st file (TXN_RECORD_HEADER_SIZE + unat payload_size) AUTH_TAG_SIZE of (r2, stored_tag) \<Rightarrow>
                 if r2 \<noteq> PICOKEYS_OK then r2
                 else if \<not> tag_equal calculated_tag stored_tag \<or> \<not> tag_equal calculated_tag commit_record_tag
                 then PICOKEYS_WRONG_SIGNATURE else PICOKEYS_OK))"

definition commit_mismatch :: "txn_layout \<Rightarrow> byte list \<Rightarrow> byte \<Rightarrow> bool" where
  "commit_mismatch layout commit slot \<longleftrightarrow>
     take 4 commit \<noteq> commit_magic \<or> commit ! 4 \<noteq> 1 \<or> commit ! 5 \<noteq> 48 \<or> commit ! 6 \<noteq> slot \<or> commit ! 7 \<noteq> 0x7f
     \<or> get_uint16_be (drop 8 commit) \<noteq> l_namespace layout
     \<or> get_uint16_be (drop 10 commit) \<noteq> l_type layout
     \<or> get_uint32_be (drop 12 commit) \<noteq> l_object_id layout
     \<or> get_uint32_be (drop 16 commit) = 0
     \<or> commit ! 27 AND NOT 1 \<noteq> 0"

definition commit_state ::
    "file_store \<Rightarrow> txn_layout \<Rightarrow> 'c authenticator \<Rightarrow> byte \<Rightarrow> byte list \<Rightarrow> pk_status + txn_state" where
  "commit_state st layout auth slot commit =
     (if commit_mismatch layout commit slot then Inl PICOKEYS_WRONG_DATA
      else case auth_buffer auth (take TXN_COMMIT_HEADER_SIZE commit) [] of
        Inl e \<Rightarrow> Inl e
      | Inr calculated_tag \<Rightarrow>
          if \<not> tag_equal calculated_tag (drop 48 commit) then Inl PICOKEYS_WRONG_SIGNATURE
          else
            let generation = get_uint32_be (drop 16 commit); record_id = get_uint32_be (drop 20 commit);
                rfid = get_uint16_be (drop 24 commit); record_slot = commit ! 26;
                deleted = (commit ! 27 AND 1 \<noteq> 0); payload_size = get_uint32_be (drop 28 commit);
                state = \<lparr>ts_generation = generation, ts_record_id = record_id, ts_payload_size = payload_size,
                         ts_commit_slot = slot, ts_record_slot = record_slot, ts_deleted = deleted\<rparr>
            in if deleted then
                 (if record_id \<noteq> 0 \<or> payload_size \<noteq> 0 \<or> rfid \<noteq> 0 \<or> record_slot \<noteq> 0xff
                     \<or> \<not> tag_equal (drop 32 commit) (replicate 16 0)
                  then Inl PICOKEYS_WRONG_DATA else Inr state)
               else if 1 < record_slot \<or> rfid \<noteq> record_fid layout ! unat record_slot \<or> record_id = 0
               then Inl PICOKEYS_WRONG_DATA
               else let r = validate_record st layout auth record_slot generation record_id payload_size (drop 32 commit)
                    in if r \<noteq> PICOKEYS_OK then Inl r else Inr state)"

definition parse_commit ::
    "file_store \<Rightarrow> txn_layout \<Rightarrow> 'c authenticator \<Rightarrow> byte \<Rightarrow> pk_status + txn_state" where
  "parse_commit st layout auth slot =
     (let file = fs_search st (commit_fid layout ! unat slot) in
      if \<not> file_has_data st file then Inl PICOKEYS_ERR_FILE_NOT_FOUND
      else if file_get_size st file \<noteq> TXN_COMMIT_HEADER_SIZE + AUTH_TAG_SIZE then Inl PICOKEYS_WRONG_DATA
      else case file_read_at st file 0 (TXN_COMMIT_HEADER_SIZE + AUTH_TAG_SIZE) of (r, commit) \<Rightarrow>
        if r \<noteq> PICOKEYS_OK then Inl r else commit_state st layout auth slot commit)"

definition invalid_record :: "pk_status \<Rightarrow> bool" where
  "invalid_record s \<longleftrightarrow>
     s = PICOKEYS_ERR_FILE_NOT_FOUND \<or> s = PICOKEYS_WRONG_DATA \<or> s = PICOKEYS_WRONG_SIGNATURE"

fun recover_slots ::
    "file_store \<Rightarrow> txn_layout \<Rightarrow> 'c authenticator \<Rightarrow> byte list \<Rightarrow> txn_state option \<Rightarrow> pk_status + txn_state" where
  "recover_slots st layout auth [] selected =
     (case selected of None \<Rightarrow> Inl PICOKEYS_ERR_FILE_NOT_FOUND | Some s \<Rightarrow> Inr s)"
| "recover_slots st layout auth (slot # slots) selected =
     (case parse_commit st layout auth slot of
        Inl r \<Rightarrow> if invalid_record r then recover_slots st layout auth slots selected else Inl r
      | Inr candidate \<Rightarrow>
          (case selected of
             None \<Rightarrow> recover_slots st layout auth slots (Some candidate)
           | Some s \<Rightarrow>
               if ts_generation candidate = ts_generation s then Inl PICOKEYS_WRONG_DATA
               else if ts_generation s < ts_generation candidate
               then recover_slots st layout auth slots (Some candidate)
               else recover_slots st layout auth slots selected))"

definition txn_recover :: "file_store \<Rightarrow> txn_layout \<Rightarrow> 'c authenticator \<Rightarrow> pk_status + txn_state" where
  "txn_recover st layout auth = recover_slots st layout auth [0, 1] None"

section \<open>Writing\<close>

definition txn_remove_file :: "u16 \<Rightarrow> file_store \<Rightarrow> pk_status \<times> file_store" where
  "txn_remove_file fid st =
     (case fs_search st fid of
        None \<Rightarrow> (PICOKEYS_OK, st)
      | Some f \<Rightarrow>
          if file_search_by_fid (ix st) fid None 3 \<noteq> None then (PICOKEYS_WRONG_DATA, st)
          else file_delete_no_commit (Some f) st)"

definition txn_replace_file :: "u16 \<Rightarrow> byte list \<Rightarrow> file_store \<Rightarrow> pk_status \<times> file_store" where
  "txn_replace_file fid data st =
     (case txn_remove_file fid st of (r, st1) \<Rightarrow>
        if r \<noteq> PICOKEYS_OK then (r, st1)
        else case fs_new fid st1 of
               (None, st2) \<Rightarrow> (PICOKEYS_ERR_NO_MEMORY, st2)
             | (Some f, st2) \<Rightarrow> file_put_data (Some f) data st2)"

definition record_header :: "txn_layout \<Rightarrow> byte \<Rightarrow> u32 \<Rightarrow> u32 \<Rightarrow> nat \<Rightarrow> byte list" where
  "record_header layout slot generation record_id len =
     record_magic @ [1, 32, slot, 0] @ put_uint16_be (l_namespace layout) @ put_uint16_be (l_type layout)
       @ put_uint32_be (l_object_id layout) @ put_uint32_be generation @ put_uint32_be record_id
       @ put_uint32_be (of_nat len) @ put_uint16_be (record_fid layout ! unat slot) @ [0, 0]"

text \<open>The record tag is handed back for the commit.\<close>

definition txn_write_record ::
    "bool \<Rightarrow> txn_layout \<Rightarrow> 'c authenticator \<Rightarrow> byte \<Rightarrow> u32 \<Rightarrow> u32 \<Rightarrow> byte list \<Rightarrow> file_store \<Rightarrow>
     (pk_status \<times> byte list) \<times> file_store" where
  "txn_write_record mem_ok layout auth slot generation record_id data st =
     (if 2 ^ 32 - 1 - TXN_RECORD_HEADER_SIZE - AUTH_TAG_SIZE < length data
      then ((PICOKEYS_ERR_NO_MEMORY, replicate 16 0), st)
      else if \<not> mem_ok then ((PICOKEYS_ERR_MEMORY_FATAL, replicate 16 0), st)
      else let header = record_header layout slot generation record_id (length data) in
        case auth_buffer auth header data of
          Inl e \<Rightarrow> ((e, replicate 16 0), st)
        | Inr record_tag \<Rightarrow>
            (case txn_replace_file (record_fid layout ! unat slot) (header @ data @ record_tag) st of
               (r, st1) \<Rightarrow> ((r, record_tag), st1)))"

definition commit_header ::
    "txn_layout \<Rightarrow> byte \<Rightarrow> byte \<Rightarrow> u32 \<Rightarrow> u32 \<Rightarrow> u32 \<Rightarrow> byte list \<Rightarrow> bool \<Rightarrow> byte list" where
  "commit_header layout commit_slot record_slot generation record_id payload_size record_tag deleted =
     commit_magic @ [1, 48, commit_slot, 0x7f] @ put_uint16_be (l_namespace layout)
       @ put_uint16_be (l_type layout) @ put_uint32_be (l_object_id layout) @ put_uint32_be generation
       @ (if deleted then [0, 0, 0, 0, 0, 0, 0xff, 1, 0, 0, 0, 0] @ replicate 16 0
          else put_uint32_be record_id @ put_uint16_be (record_fid layout ! unat record_slot)
                 @ [record_slot, 0] @ put_uint32_be payload_size @ record_tag)"

definition txn_write_commit ::
    "txn_layout \<Rightarrow> 'c authenticator \<Rightarrow> byte \<Rightarrow> byte \<Rightarrow> u32 \<Rightarrow> u32 \<Rightarrow> u32 \<Rightarrow> byte list \<Rightarrow> bool \<Rightarrow> file_store \<Rightarrow>
     pk_status \<times> file_store" where
  "txn_write_commit layout auth commit_slot record_slot generation record_id payload_size record_tag deleted st =
     (let header = commit_header layout commit_slot record_slot generation record_id payload_size record_tag deleted
      in case auth_buffer auth header [] of
           Inl e \<Rightarrow> (e, st)
         | Inr tag \<Rightarrow> txn_replace_file (commit_fid layout ! unat commit_slot) (header @ tag) st)"

text \<open>The slot to write and the generation to give it.\<close>

definition txn_next_state :: "file_store \<Rightarrow> txn_layout \<Rightarrow> 'c authenticator \<Rightarrow> pk_status + byte \<times> u32" where
  "txn_next_state st layout auth =
     (case txn_recover st layout auth of
        Inl r \<Rightarrow> if r = PICOKEYS_ERR_FILE_NOT_FOUND then Inr (0, 1) else Inl r
      | Inr current \<Rightarrow>
          if ts_generation current = - 1 then Inl PICOKEYS_WRONG_DATA
          else Inr (ts_commit_slot current XOR 1, ts_generation current + 1))"

definition commit_flash :: "pk_status \<times> file_store \<Rightarrow> pk_status \<times> file_store" where
  "commit_flash rst =
     (case rst of (r, st) \<Rightarrow>
        if r \<noteq> PICOKEYS_OK then (r, st)
        else case flash_commit_sync st of (b, st1) \<Rightarrow> (if b then PICOKEYS_OK else PICOKEYS_ERR_MEMORY_FATAL, st1))"

definition remove_slot :: "txn_layout \<Rightarrow> byte \<Rightarrow> file_store \<Rightarrow> pk_status \<times> file_store" where
  "remove_slot layout slot st =
     (case txn_remove_file (commit_fid layout ! unat slot) st of (r, st1) \<Rightarrow>
        if r = PICOKEYS_OK then txn_remove_file (record_fid layout ! unat slot) st1 else (r, st1))"

definition txn_put ::
    "bool \<Rightarrow> txn_layout \<Rightarrow> 'c authenticator \<Rightarrow> byte list option \<Rightarrow> file_store \<Rightarrow> pk_status \<times> file_store" where
  "txn_put mem_ok layout auth data_opt st =
     (if \<not> txn_layout_valid st layout \<or> data_opt = None then (PICOKEYS_ERR_NULL_PARAM, st)
      else if 2 ^ 32 - 1 < length (the data_opt) then (PICOKEYS_WRONG_LENGTH, st)
      else case txn_next_state st layout auth of
        Inl r \<Rightarrow> (r, st)
      | Inr (target_slot, generation) \<Rightarrow>
          (case remove_slot layout target_slot st of (r1, st1) \<Rightarrow>
             if r1 \<noteq> PICOKEYS_OK then (r1, st1)
             else case txn_write_record mem_ok layout auth target_slot generation generation (the data_opt) st1 of
               ((r2, record_tag), st2) \<Rightarrow>
                 (case commit_flash (r2, st2) of (r3, st3) \<Rightarrow>
                    if r3 \<noteq> PICOKEYS_OK then (r3, st3)
                    else commit_flash (txn_write_commit layout auth target_slot target_slot generation generation
                           (of_nat (length (the data_opt))) record_tag False st3))))"

definition txn_delete :: "txn_layout \<Rightarrow> 'c authenticator \<Rightarrow> file_store \<Rightarrow> pk_status \<times> file_store" where
  "txn_delete layout auth st =
     (if \<not> txn_layout_valid st layout then (PICOKEYS_ERR_NULL_PARAM, st)
      else case txn_recover st layout auth of
        Inl r \<Rightarrow> (r, st)
      | Inr current \<Rightarrow>
          if ts_deleted current then (PICOKEYS_ERR_FILE_NOT_FOUND, st)
          else if ts_generation current = - 1 then (PICOKEYS_WRONG_DATA, st)
          else let target_slot = ts_commit_slot current XOR 1 in
            case commit_flash (remove_slot layout target_slot st) of (r1, st1) \<Rightarrow>
              if r1 \<noteq> PICOKEYS_OK then (r1, st1)
              else commit_flash (txn_write_commit layout auth target_slot 0xff (ts_generation current + 1) 0 0
                     (replicate 16 0) True st1))"

section \<open>Reading through FIDs\<close>

lemma has_data_fdata: "file_has_data st (fs_search st fid) \<longleftrightarrow> fdata st fid \<noteq> None \<and> fdata st fid \<noteq> Some []"
  by (auto simp: file_has_data_def file_get_size_def file_get_data_def fdata_def split: option.splits)

lemma size_fdata: "file_get_size st (fs_search st fid) = (case fdata st fid of None \<Rightarrow> 0 | Some d \<Rightarrow> length d)"
  by (auto simp: file_get_size_def file_get_data_def fdata_def split: option.splits)

lemma read_fdata: "file_read_at st (fs_search st fid) off n =
    (case fdata st fid of None \<Rightarrow> (PICOKEYS_ERR_NULL_PARAM, [])
     | Some d \<Rightarrow> if length d < off \<or> length d - off < n then (PICOKEYS_ERR_NULL_PARAM, []) else (PICOKEYS_OK, bslice off n d))"
  by (auto simp: file_read_at_def file_get_size_def file_get_data_def fdata_def split: option.splits)

lemmas view_fdata = has_data_fdata size_fdata read_fdata

lemma auth_chunks_cong:
  "fdata st' fid = fdata st fid \<Longrightarrow>
   auth_chunks auth st' (fs_search st' fid) n off r = auth_chunks auth st (fs_search st fid) n off r"
proof (induction auth st "fs_search st fid" n off r rule: auth_chunks.induct)
  case (1 auth st n off r)
  then show ?case
    by (subst (1 2) auth_chunks.simps) (auto simp: read_fdata Let_def split: sum.split option.split)
qed

lemma view_cong:
  assumes "fdata st' fid = fdata st fid"
  shows "file_has_data st' (fs_search st' fid) = file_has_data st (fs_search st fid)"
    and "file_get_size st' (fs_search st' fid) = file_get_size st (fs_search st fid)"
    and "file_read_at st' (fs_search st' fid) = file_read_at st (fs_search st fid)"
    and "auth_record auth st' (fs_search st' fid) = auth_record auth st (fs_search st fid)"
  using assms by (simp_all add: view_fdata fun_eq_iff auth_record_def auth_chunks_cong [OF assms])

lemma validate_record_cong:
  assumes "fdata st' (record_fid layout ! unat slot) = fdata st (record_fid layout ! unat slot)"
  shows "validate_record st' layout auth slot g rid n tag = validate_record st layout auth slot g rid n tag"
  unfolding validate_record_def Let_def view_cong [OF assms] ..

text \<open>A commit and the record it names decide what parsing the commit answers.\<close>

lemma parse_commit_fdata:
  "parse_commit st layout auth slot =
     (case fdata st (commit_fid layout ! unat slot) of
        None \<Rightarrow> Inl PICOKEYS_ERR_FILE_NOT_FOUND
      | Some d \<Rightarrow> if d = [] then Inl PICOKEYS_ERR_FILE_NOT_FOUND
                  else if length d \<noteq> 64 then Inl PICOKEYS_WRONG_DATA
                  else commit_state st layout auth slot d)"
  by (auto simp: parse_commit_def view_fdata txn_consts split: option.split)

lemma commit_state_stays:
  assumes "commit_state st layout auth slot d = Inr s"
    and "ts_deleted s \<or> fdata st' (record_fid layout ! unat (ts_record_slot s)) = fdata st (record_fid layout ! unat (ts_record_slot s))"
  shows "commit_state st' layout auth slot d = Inr s"
proof -
  have f: "ts_record_slot s = d ! 26" "ts_deleted s = (d ! 27 AND 1 \<noteq> 0)"
    using assms(1) by (auto simp: commit_state_def Let_def split: if_splits sum.splits)
  have v: "validate_record st' layout auth (d ! 26) g rid n tag = validate_record st layout auth (d ! 26) g rid n tag"
    if "d ! 27 AND 1 = 0" for g rid n tag
    using assms(2) f that by (intro validate_record_cong) simp
  show ?thesis
    using assms(1) v by (auto simp: commit_state_def Let_def split: if_splits sum.splits)
qed

lemma parse_commit_stays:
  assumes "parse_commit st layout auth slot = Inr s"
    and "fdata st' (commit_fid layout ! unat slot) = fdata st (commit_fid layout ! unat slot)"
    and "ts_deleted s \<or> fdata st' (record_fid layout ! unat (ts_record_slot s)) = fdata st (record_fid layout ! unat (ts_record_slot s))"
  shows "parse_commit st' layout auth slot = Inr s"
  using assms(1,2) commit_state_stays [OF _ assms(3)]
  by (auto simp: parse_commit_fdata split: option.splits if_splits)

lemma parse_commit_same:
  assumes "fdata st' (commit_fid layout ! unat slot) = fdata st (commit_fid layout ! unat slot)"
    and "\<And>k. k \<le> 1 \<Longrightarrow> fdata st' (record_fid layout ! k) = fdata st (record_fid layout ! k)"
  shows "parse_commit st' layout auth slot = parse_commit st layout auth slot"
proof -
  have v: "validate_record st' layout auth = validate_record st layout auth"
  proof (intro ext)
    fix rs g rid n tag
    show "validate_record st' layout auth rs g rid n tag = validate_record st layout auth rs g rid n tag"
    proof (cases "1 < rs")
      case True
      then show ?thesis by (simp add: validate_record_def)
    next
      case False
      then have "unat rs \<le> 1" by (simp add: word_less_nat_alt)
      with assms(2) show ?thesis by (intro validate_record_cong) simp
    qed
  qed
  have "commit_state st' layout auth slot = commit_state st layout auth slot"
    unfolding commit_state_def [abs_def] v ..
  with assms(1) show ?thesis by (simp add: parse_commit_fdata split: option.split)
qed

lemma parse_commit_absent: "fdata st (commit_fid layout ! unat slot) = None \<Longrightarrow>
    parse_commit st layout auth slot = Inl PICOKEYS_ERR_FILE_NOT_FOUND"
  by (simp add: parse_commit_fdata)

lemma parse_commit_garbage:
  assumes "fdata st (commit_fid layout ! unat slot) = Some d" "take 4 d \<noteq> commit_magic"
  shows "\<exists>e. parse_commit st layout auth slot = Inl e \<and> invalid_record e"
  using assms by (auto simp: parse_commit_fdata commit_state_def commit_mismatch_def invalid_record_def)

lemma parse_commit_slot: "parse_commit st layout auth slot = Inr s \<Longrightarrow> ts_commit_slot s = slot"
  by (auto simp: parse_commit_fdata commit_state_def Let_def split: option.splits if_splits sum.splits)

section \<open>MACs\<close>

text \<open>What the code relies on in a MAC provider: feeding data in pieces or at once is the same, tags
  have 16 bytes, and a failure is not reported as success.\<close>

definition mac_ok :: "'c authenticator \<Rightarrow> bool" where
  "mac_ok auth \<longleftrightarrow>
     (\<forall>c x y. x \<noteq> [] \<longrightarrow> y \<noteq> [] \<longrightarrow> au_update auth c (x @ y) = auth_update auth (au_update auth c x) y) \<and>
     (\<forall>c tag. au_finish auth c = Inr tag \<longrightarrow> length tag = AUTH_TAG_SIZE) \<and>
     au_start auth \<noteq> Inl PICOKEYS_OK \<and> (\<forall>c x. au_update auth c x \<noteq> Inl PICOKEYS_OK) \<and>
     (\<forall>c. au_finish auth c \<noteq> Inl PICOKEYS_OK)"

lemma auth_buffer_tag:
  assumes "mac_ok auth"
  shows "auth_buffer auth x y = Inr tag \<Longrightarrow> length tag = 16" "auth_buffer auth x y \<noteq> Inl PICOKEYS_OK"
proof -
  have tl: "\<And>c tag. au_finish auth c = Inr tag \<Longrightarrow> length tag = 16"
    using assms by (simp add: mac_ok_def AUTH_TAG_SIZE_def)
  have ne: "au_start auth \<noteq> Inl PICOKEYS_OK" "\<And>c x. au_update auth c x \<noteq> Inl PICOKEYS_OK"
      "\<And>c. au_finish auth c \<noteq> Inl PICOKEYS_OK"
    using assms by (simp_all add: mac_ok_def)
  show "auth_buffer auth x y = Inr tag \<Longrightarrow> length tag = 16"
    by (auto simp: auth_buffer_def auth_finish_def Let_def dest!: tl split: sum.splits if_splits)
  show "auth_buffer auth x y \<noteq> Inl PICOKEYS_OK"
    using ne by (auto simp: auth_buffer_def auth_finish_def auth_update_def Let_def split: sum.splits)
qed

lemma foldl_or_0:
  "foldl (\<lambda>a i. a OR f i) a xs = (0 :: 'a::len word) \<longleftrightarrow> a = 0 \<and> (\<forall>i \<in> set xs. f i = 0)"
  by (induction xs arbitrary: a) (auto simp: or_eq_0_iff)

lemma xor_0_iff: "x XOR y = 0 \<longleftrightarrow> x = y" for x y :: "'a::len word"
  by (auto simp: bit_eq_iff bit_simps)

lemma tag_equal_iff:
  assumes "length x \<ge> 16" "length y \<ge> 16"
  shows "tag_equal x y \<longleftrightarrow> take 16 x = take 16 y"
proof -
  have "tag_equal x y \<longleftrightarrow> (\<forall>i < 16. x ! i = y ! i)"
    by (simp add: tag_equal_def foldl_or_0 AUTH_TAG_SIZE_def xor_0_iff Ball_def)
  also have "\<dots> \<longleftrightarrow> take 16 x = take 16 y"
    using assms by (auto simp: list_eq_iff_nth_eq)
  finally show ?thesis .
qed

lemma auth_chunks_all:
  assumes "mac_ok auth" "fdata st fid = Some (header @ data @ tail)" "length header = 32" "off \<le> length data"
  shows "auth_chunks auth st (fs_search st fid) (length data) off r =
     (if drop off data = [] then r else auth_update auth r (drop off data))"
  using assms(4)
proof (induction "length data - off" arbitrary: off r rule: less_induct)
  case less
  show ?case
  proof (cases "length data \<le> off")
    case True
    then show ?thesis by (subst auth_chunks.simps) simp
  next
    case False
    define n where "n = min 256 (length data - off)"
    have n: "0 < n" "off + n \<le> length data" using False by (auto simp: n_def)
    have read: "file_read_at st (fs_search st fid) (32 + off) n = (PICOKEYS_OK, take n (drop off data))"
      using assms(2,3) n(2) by (simp add: read_fdata bslice_def)
    have step: "auth_chunks auth st (fs_search st fid) (length data) off (Inr c) =
        auth_chunks auth st (fs_search st fid) (length data) (off + n) (au_update auth c (take n (drop off data)))" for c
      using False read unfolding n_def by (subst auth_chunks.simps) (simp add: TXN_RECORD_HEADER_SIZE_def Let_def)
    have ih: "auth_chunks auth st (fs_search st fid) (length data) (off + n) s =
        (if drop (off + n) data = [] then s else auth_update auth s (drop (off + n) data))" for s
      by (rule less.hyps) (use n in auto)
    have ne: "take n (drop off data) \<noteq> []" using n by simp
    have split: "drop off data = take n (drop off data) @ drop (off + n) data"
      by (metis add.commute append_take_drop_id drop_drop)
    show ?thesis
    proof (cases r)
      case (Inl e)
      then show ?thesis using False by (subst auth_chunks.simps) (simp add: auth_update_def)
    next
      case (Inr c)
      have "auth_chunks auth st (fs_search st fid) (length data) off r = auth_update auth (Inr c) (drop off data)"
      proof (cases "drop (off + n) data = []")
        case True
        with split have "drop off data = take n (drop off data)" by simp
        with True show ?thesis unfolding Inr step ih auth_update_def by simp
      next
        case False2: False
        have "au_update auth c (take n (drop off data) @ drop (off + n) data) =
            auth_update auth (au_update auth c (take n (drop off data))) (drop (off + n) data)"
          using assms(1) ne False2 unfolding mac_ok_def by blast
        then show ?thesis using False2 unfolding Inr step ih by (simp add: auth_update_def flip: split)
      qed
      then show ?thesis using False Inr by simp
    qed
  qed
qed

lemma auth_record_buffer:
  assumes "mac_ok auth" "fdata st fid = Some (header @ data @ tail)" "length header = 32"
  shows "auth_record auth st (fs_search st fid) header (length data) = auth_buffer auth header data"
  using auth_chunks_all [OF assms, of 0] by (simp add: auth_record_def auth_buffer_def Let_def)

section \<open>Reading back what was written\<close>

lemma length_headers:
  "length (record_header layout slot g rid n) = 32"
  "length tag = 16 \<Longrightarrow> length (commit_header layout cs rs g rid psize tag d) = 48"
  by (simp_all add: record_header_def commit_header_def record_magic_def commit_magic_def)

lemma be_zero: "get_uint16_be (0 # 0 # xs) = 0" "get_uint32_be (0 # 0 # 0 # 0 # xs) = 0"
  by (simp_all add: get_uint16_be_def get_uint32_be_def make_uint16_be_def make_uint32_be_def)

lemma record_header_fields:
  "take 4 (record_header layout slot g rid n @ xs) = record_magic"
  "(record_header layout slot g rid n @ xs) ! 4 = 1" "(record_header layout slot g rid n @ xs) ! 5 = 32"
  "(record_header layout slot g rid n @ xs) ! 6 = slot" "(record_header layout slot g rid n @ xs) ! 7 = 0"
  "get_uint16_be (drop 8 (record_header layout slot g rid n @ xs)) = l_namespace layout"
  "get_uint16_be (drop 10 (record_header layout slot g rid n @ xs)) = l_type layout"
  "get_uint32_be (drop 12 (record_header layout slot g rid n @ xs)) = l_object_id layout"
  "get_uint32_be (drop 16 (record_header layout slot g rid n @ xs)) = g"
  "get_uint32_be (drop 20 (record_header layout slot g rid n @ xs)) = rid"
  "get_uint32_be (drop 24 (record_header layout slot g rid n @ xs)) = of_nat n"
  "get_uint16_be (drop 28 (record_header layout slot g rid n @ xs)) = record_fid layout ! unat slot"
  "get_uint16_be (drop 30 (record_header layout slot g rid n @ xs)) = 0"
  by (simp_all add: record_header_def record_magic_def be_simps be_zero nth_append)

lemma commit_header_fields:
  "take 4 (commit_header layout cs rs g rid n tag d @ xs) = commit_magic"
  "(commit_header layout cs rs g rid n tag d @ xs) ! 4 = 1" "(commit_header layout cs rs g rid n tag d @ xs) ! 5 = 48"
  "(commit_header layout cs rs g rid n tag d @ xs) ! 6 = cs" "(commit_header layout cs rs g rid n tag d @ xs) ! 7 = 0x7f"
  "get_uint16_be (drop 8 (commit_header layout cs rs g rid n tag d @ xs)) = l_namespace layout"
  "get_uint16_be (drop 10 (commit_header layout cs rs g rid n tag d @ xs)) = l_type layout"
  "get_uint32_be (drop 12 (commit_header layout cs rs g rid n tag d @ xs)) = l_object_id layout"
  "get_uint32_be (drop 16 (commit_header layout cs rs g rid n tag d @ xs)) = g"
  by (simp_all add: commit_header_def commit_magic_def be_simps nth_append)

lemma commit_header_live:
  "get_uint32_be (drop 20 (commit_header layout cs rs g rid n tag False @ xs)) = rid"
  "get_uint16_be (drop 24 (commit_header layout cs rs g rid n tag False @ xs)) = record_fid layout ! unat rs"
  "(commit_header layout cs rs g rid n tag False @ xs) ! 26 = rs"
  "(commit_header layout cs rs g rid n tag False @ xs) ! 27 = 0"
  "get_uint32_be (drop 28 (commit_header layout cs rs g rid n tag False @ xs)) = n"
  "drop 32 (commit_header layout cs rs g rid n tag False @ xs) = tag @ xs"
  by (simp_all add: commit_header_def commit_magic_def be_simps nth_append)

lemma commit_header_deleted:
  "get_uint32_be (drop 20 (commit_header layout cs rs g rid n tag True @ xs)) = 0"
  "get_uint16_be (drop 24 (commit_header layout cs rs g rid n tag True @ xs)) = 0"
  "(commit_header layout cs rs g rid n tag True @ xs) ! 26 = 0xff"
  "(commit_header layout cs rs g rid n tag True @ xs) ! 27 = 1"
  "get_uint32_be (drop 28 (commit_header layout cs rs g rid n tag True @ xs)) = 0"
  "drop 32 (commit_header layout cs rs g rid n tag True @ xs) = replicate 16 0 @ xs"
  by (simp_all add: commit_header_def commit_magic_def be_simps be_zero nth_append)

text \<open>A complete record, named by a complete commit, is found.\<close>

lemma validate_written:
  assumes "mac_ok auth" "slot \<le> 1" "length data < 2 ^ 32 - 48"
    and "fdata st (record_fid layout ! unat slot) = Some (record_header layout slot g rid (length data) @ data @ tag)"
    and "auth_buffer auth (record_header layout slot g rid (length data)) data = Inr tag"
    and "take 16 ctag = tag" "16 \<le> length ctag"
  shows "validate_record st layout auth slot g rid (of_nat (length data)) ctag = PICOKEYS_OK"
proof -
  let ?h = "record_header layout slot g rid (length data)"
  let ?fid = "record_fid layout ! unat slot"
  have u: "unat (of_nat (length data) :: u32) = length data"
    using assms(3) by (simp add: unat_of_nat)
  have tag: "length tag = 16" using auth_buffer_tag(1) [OF assms(1,5)] .
  note lh = length_headers(1) [of layout slot g rid "length data"]
  have ne: "?h @ data @ tag \<noteq> []" using lh by auto
  have mm: "\<not> record_mismatch layout ?h slot g rid (of_nat (length data))"
    using record_header_fields [of layout slot g rid "length data" "[]"] by (simp add: record_mismatch_def)
  have rec: "auth_record auth st (fs_search st ?fid) ?h (length data) = Inr tag"
    using auth_record_buffer [OF assms(1,4) lh] assms(5) by simp
  have t2: "tag_equal tag ctag" "tag_equal tag tag"
    using tag_equal_iff [of tag ctag] tag_equal_iff [of tag tag] tag assms(6,7) by simp_all
  have b: "bslice 0 32 (?h @ data @ tag) = ?h" "bslice (32 + length data) 16 (?h @ data @ tag) = tag"
    using lh tag by (simp_all add: bslice_def)
  show ?thesis
    unfolding validate_record_def Let_def view_fdata assms(4) txn_consts
    using leD [OF assms(2)] assms(3) u ne lh tag mm rec t2 b by simp
qed

lemma parse_written:
  assumes "mac_ok auth" "slot \<le> 1" "length data < 2 ^ 32 - 48" "g \<noteq> 0"
    and "fdata st (record_fid layout ! unat slot) = Some (record_header layout slot g g (length data) @ data @ tag)"
    and "auth_buffer auth (record_header layout slot g g (length data)) data = Inr tag"
    and "fdata st (commit_fid layout ! unat slot) =
           Some (commit_header layout slot slot g g (of_nat (length data)) tag False @ ctag)"
    and "auth_buffer auth (commit_header layout slot slot g g (of_nat (length data)) tag False) [] = Inr ctag"
  shows "parse_commit st layout auth slot = Inr \<lparr>ts_generation = g, ts_record_id = g,
     ts_payload_size = of_nat (length data), ts_commit_slot = slot, ts_record_slot = slot, ts_deleted = False\<rparr>"
proof -
  let ?c = "commit_header layout slot slot g g (of_nat (length data)) tag False"
  have tags: "length tag = 16" "length ctag = 16"
    using auth_buffer_tag(1) [OF assms(1)] assms(6,8) by blast+
  note lc = length_headers(2) [OF tags(1), of layout slot slot g g "of_nat (length data)" False]
  have v: "validate_record st layout auth slot g g (of_nat (length data)) (tag @ ctag) = PICOKEYS_OK"
    by (rule validate_written [OF assms(1-3,5,6)]) (use tags in simp_all)
  have te: "tag_equal ctag ctag" using tag_equal_iff [of ctag ctag] tags by simp
  have d: "take 48 (?c @ ctag) = ?c" "drop 48 (?c @ ctag) = ctag" using lc by simp_all
  have m: "\<not> commit_mismatch layout (?c @ ctag) slot"
    unfolding commit_mismatch_def commit_header_fields commit_header_live using assms(4) by simp
  have s: "commit_state st layout auth slot (?c @ ctag) = Inr \<lparr>ts_generation = g, ts_record_id = g,
     ts_payload_size = of_nat (length data), ts_commit_slot = slot, ts_record_slot = slot, ts_deleted = False\<rparr>"
    unfolding commit_state_def Let_def txn_consts d commit_header_fields commit_header_live assms(8)
    using m te v leD [OF assms(2)] assms(4) by simp
  have "length (?c @ ctag) = 64" "?c @ ctag \<noteq> []" using lc tags by auto
  with s show ?thesis unfolding parse_commit_fdata assms(7) by simp
qed

lemma parse_tombstone:
  assumes "mac_ok auth" "g \<noteq> 0"
    and "fdata st (commit_fid layout ! unat slot) =
           Some (commit_header layout slot 0xff g 0 0 (replicate 16 0) True @ ctag)"
    and "auth_buffer auth (commit_header layout slot 0xff g 0 0 (replicate 16 0) True) [] = Inr ctag"
  shows "parse_commit st layout auth slot = Inr \<lparr>ts_generation = g, ts_record_id = 0,
     ts_payload_size = 0, ts_commit_slot = slot, ts_record_slot = 0xff, ts_deleted = True\<rparr>"
proof -
  let ?c = "commit_header layout slot 0xff g 0 0 (replicate 16 0) True"
  have tags: "length ctag = 16" using auth_buffer_tag(1) [OF assms(1,4)] .
  have lc: "length ?c = 48" by (rule length_headers(2)) simp
  have te: "tag_equal ctag ctag" "tag_equal (replicate 16 0 @ ctag) (replicate 16 0)"
    using tag_equal_iff [of ctag ctag] tag_equal_iff [of "replicate 16 0 @ ctag" "replicate 16 0"] tags by simp_all
  have d: "take 48 (?c @ ctag) = ?c" "drop 48 (?c @ ctag) = ctag" using lc by simp_all
  have m: "\<not> commit_mismatch layout (?c @ ctag) slot"
    unfolding commit_mismatch_def commit_header_fields commit_header_deleted using assms(2) by simp
  have s: "commit_state st layout auth slot (?c @ ctag) = Inr \<lparr>ts_generation = g, ts_record_id = 0,
     ts_payload_size = 0, ts_commit_slot = slot, ts_record_slot = 0xff, ts_deleted = True\<rparr>"
    unfolding commit_state_def Let_def txn_consts d commit_header_fields commit_header_deleted assms(4)
    using m te by simp
  have "length (?c @ ctag) = 64" "?c @ ctag \<noteq> []" using lc tags by auto
  with s show ?thesis unfolding parse_commit_fdata assms(3) by simp
qed

section \<open>Recovery\<close>

lemma slot_cases: "(slot :: byte) \<le> 1 \<Longrightarrow> slot = 0 \<or> slot = 1"
proof -
  assume "slot \<le> 1"
  then have "unat slot = 0 \<or> unat slot = 1" by (simp add: word_le_nat_alt) linarith
  then show ?thesis by (metis unsigned_1 unsigned_0 word_unat_eq_iff)
qed

lemma recover_parse:
  assumes "txn_recover st layout auth = Inr s"
  shows "ts_commit_slot s \<le> 1 \<and> parse_commit st layout auth (ts_commit_slot s) = Inr s"
  using assms by (auto simp: txn_recover_def parse_commit_slot split: sum.splits if_splits)

lemma recover_cases:
  assumes "slot \<le> 1" "parse_commit st layout auth slot = Inr s"
  shows "parse_commit st layout auth (slot XOR 1) = Inl e \<Longrightarrow> invalid_record e \<Longrightarrow> txn_recover st layout auth = Inr s"
    and "parse_commit st layout auth (slot XOR 1) = Inr s' \<Longrightarrow> ts_generation s' < ts_generation s \<Longrightarrow>
         txn_recover st layout auth = Inr s"
    and "parse_commit st layout auth (slot XOR 1) = Inr s' \<Longrightarrow> ts_generation s < ts_generation s' \<Longrightarrow>
         txn_recover st layout auth = Inr s'"
  using slot_cases [OF assms(1)] assms(2) by (auto simp: txn_recover_def)

section \<open>Steps of a transaction\<close>

text \<open>\<open>st'\<close> differs from \<open>st\<close> in the files of \<open>A\<close> at most, and consumed outcomes.\<close>

definition only_in :: "u16 set \<Rightarrow> file_store \<Rightarrow> file_store \<Rightarrow> bool" where
  "only_in A st st' \<longleftrightarrow>
     store_inv st' \<and> (\<forall>x. plain st' x = plain st x) \<and> meta_free st' = meta_free st \<and>
     (\<forall>x. plain st x \<longrightarrow> x \<notin> A \<longrightarrow> fdata st' x = fdata st x \<and> fs_search st' x = fs_search st x) \<and>
     set (flash st') \<subseteq> set (flash st)"

lemma only_in_refl: "store_inv st \<Longrightarrow> only_in A st st"
  by (simp add: only_in_def)

lemma only_in_trans: "only_in A st st1 \<Longrightarrow> only_in A st1 st2 \<Longrightarrow> only_in A st st2"
  by (auto simp: only_in_def)

lemma only_at_in: "only_at fid st st' \<Longrightarrow> fid \<in> A \<Longrightarrow> set (flash st') \<subseteq> set (flash st) \<Longrightarrow> only_in A st st'"
  by (auto simp: only_at_def only_in_def)

lemma only_inD: "only_in A st st' \<Longrightarrow> plain st x \<Longrightarrow> x \<notin> A \<Longrightarrow> fdata st' x = fdata st x"
  by (simp add: only_in_def)

lemma remove_law:
  assumes "store_inv st" "plain st fid" "txn_remove_file fid st = (r, st')"
  shows "only_at fid st st'" "set (flash st') \<subseteq> set (flash st)"
    "r = PICOKEYS_OK \<Longrightarrow> fs_search st' fid = None \<and> fdata st' fid = None"
    "fdata st' fid = fdata st fid \<or> fdata st' fid = None \<or> torn_in st (fdata st' fid)"
proof -
  have "only_at fid st st' \<and> set (flash st') \<subseteq> set (flash st) \<and>
      (r = PICOKEYS_OK \<longrightarrow> fs_search st' fid = None) \<and>
      (fdata st' fid = fdata st fid \<or> fdata st' fid = None \<or> torn_in st (fdata st' fid))"
  proof (cases "fs_search st fid")
    case None
    with assms(1,3) show ?thesis by (auto simp: txn_remove_file_def only_at_refl)
  next
    case (Some f)
    show ?thesis
    proof (cases "file_search_by_fid (ix st) fid None 3")
      case None
      then have d: "file_delete_no_commit (Some f) st = (r, st')"
        using assms(3) Some by (simp add: txn_remove_file_def)
      from file_delete_law [OF assms(1,2) Some d] file_delete_outcomes [OF assms(1,2) Some d] show ?thesis
        by blast
    next
      case s: (Some g)
      with assms(1,3) Some show ?thesis by (auto simp: txn_remove_file_def only_at_refl)
    qed
  qed
  then show "only_at fid st st'" "set (flash st') \<subseteq> set (flash st)"
    "r = PICOKEYS_OK \<Longrightarrow> fs_search st' fid = None \<and> fdata st' fid = None"
    "fdata st' fid = fdata st fid \<or> fdata st' fid = None \<or> torn_in st (fdata st' fid)"
    by (auto simp: fdata_def)
qed

lemma replace_law:
  assumes "store_inv st" "plain st fid" "fs_search st fid = None" "txn_replace_file fid data st = (r, st')"
  shows "only_at fid st st'" "set (flash st') \<subseteq> set (flash st)"
    "r = PICOKEYS_OK \<Longrightarrow> fdata st' fid = Some data" "r \<noteq> PICOKEYS_OK \<Longrightarrow> fdata st' fid = None"
proof -
  have rm: "txn_remove_file fid st = (PICOKEYS_OK, st)"
    using assms(3) by (simp add: txn_remove_file_def)
  obtain n st1 where n: "fs_new fid st = (n, st1)" by fastforce
  note nl = fs_new_law [OF assms(1-3) n]
  have "only_at fid st st' \<and> set (flash st') \<subseteq> set (flash st) \<and>
     (r = PICOKEYS_OK \<longrightarrow> fdata st' fid = Some data) \<and> (r \<noteq> PICOKEYS_OK \<longrightarrow> fdata st' fid = None)"
  proof (cases n)
    case None
    with nl assms rm n show ?thesis by (auto simp: txn_replace_file_def fdata_def)
  next
    case (Some f)
    then have w: "file_put_data (Some f) data st1 = (r, st')"
      using assms(4) rm n by (simp add: txn_replace_file_def)
    have s1: "store_inv st1" "plain st1 fid" "fs_search st1 fid = Some f" "fdata st1 fid = None"
      using nl(1,3) Some assms(2) by (auto simp: only_at_def)
    note pl = put_data_law [OF s1(1-3) w]
    have "set (flash st') \<subseteq> set (flash st)"
      using put_data_outcomes [OF w] nl(5) by simp
    with only_at_trans [OF nl(1) pl(1)] pl(3,4) s1(4) show ?thesis by blast
  qed
  then show "only_at fid st st'" "set (flash st') \<subseteq> set (flash st)"
    "r = PICOKEYS_OK \<Longrightarrow> fdata st' fid = Some data" "r \<noteq> PICOKEYS_OK \<Longrightarrow> fdata st' fid = None"
    by blast+
qed

lemma commit_flash_law:
  assumes "commit_flash (r, st) = (r', st')" "store_inv st"
  shows "only_in A st st'" "fs_search st' = fs_search st" "fdata st' = fdata st" "r' = PICOKEYS_OK \<Longrightarrow> r = PICOKEYS_OK"
proof -
  have "only_in A st st' \<and> fs_search st' = fs_search st \<and> fdata st' = fdata st \<and> (r' = PICOKEYS_OK \<longrightarrow> r = PICOKEYS_OK)"
  proof (cases "r = PICOKEYS_OK")
    case True
    obtain b st1 where c: "flash_commit_sync st = (b, st1)" by fastforce
    with assms True have "st' = st1" by (simp add: commit_flash_def)
    with commit_sync_law [OF c assms(2)] commit_sync_outcomes [OF c] True show ?thesis
      by (auto simp: only_in_def only_at_def)
  next
    case False
    with assms show ?thesis by (auto simp: commit_flash_def only_in_refl)
  qed
  then show "only_in A st st'" "fs_search st' = fs_search st" "fdata st' = fdata st"
    "r' = PICOKEYS_OK \<Longrightarrow> r = PICOKEYS_OK" by blast+
qed

text \<open>The four files of a layout are dynamic files of their own.\<close>

definition layout_ok :: "file_store \<Rightarrow> txn_layout \<Rightarrow> bool" where
  "layout_ok st layout \<longleftrightarrow>
     length (record_fid layout) = 2 \<and> length (commit_fid layout) = 2 \<and>
     (\<forall>fid \<in> set (record_fid layout @ commit_fid layout). plain st fid) \<and>
     distinct (record_fid layout @ commit_fid layout)"

lemma layout_slot:
  assumes "layout_ok st layout" "slot \<le> 1" "slot' \<le> 1"
  shows "plain st (record_fid layout ! unat slot)" "plain st (commit_fid layout ! unat slot)"
    "commit_fid layout ! unat slot \<noteq> record_fid layout ! unat slot'"
proof -
  have u: "unat slot < 2" "unat slot' < 2" using assms(2,3) by (simp_all add: word_le_nat_alt)
  have m: "record_fid layout ! unat slot \<in> set (record_fid layout)"
    "commit_fid layout ! unat slot \<in> set (commit_fid layout)"
    "record_fid layout ! unat slot' \<in> set (record_fid layout)"
    using u assms(1) by (simp_all add: layout_ok_def)
  then show "plain st (record_fid layout ! unat slot)" "plain st (commit_fid layout ! unat slot)"
    "commit_fid layout ! unat slot \<noteq> record_fid layout ! unat slot'"
    using assms(1) by (auto simp: layout_ok_def)
qed

lemma layout_other:
  assumes "layout_ok st layout" "(slot :: byte) \<le> 1"
  shows "commit_fid layout ! unat (slot XOR 1) \<noteq> commit_fid layout ! unat slot"
    "record_fid layout ! unat (slot XOR 1) \<noteq> record_fid layout ! unat slot" "slot XOR 1 \<le> 1" "(slot XOR 1) XOR 1 = slot"
  using assms slot_cases [OF assms(2)] by (auto simp: layout_ok_def nth_eq_iff_index_eq)

definition slot_files :: "txn_layout \<Rightarrow> byte \<Rightarrow> u16 set" where
  "slot_files layout slot = {commit_fid layout ! unat slot, record_fid layout ! unat slot}"

lemma layout_ok_keep: "only_in A st st' \<Longrightarrow> layout_ok st' layout = layout_ok st layout"
  by (simp add: only_in_def layout_ok_def)

text \<open>Bytes a failed overwrite may leave are not taken for a commit record.\<close>

definition torn_ok :: "file_store \<Rightarrow> bool" where
  "torn_ok st \<longleftrightarrow> (\<forall>s t. Failed s (Some t) \<in> set (flash st) \<longrightarrow> take 4 t \<noteq> commit_magic)"

lemma remove_slot_law:
  assumes "store_inv st" "layout_ok st layout" "slot \<le> 1" "remove_slot layout slot st = (r, st')"
  shows "only_in (slot_files layout slot) st st'"
    "r = PICOKEYS_OK \<Longrightarrow> fs_search st' (commit_fid layout ! unat slot) = None \<and> fs_search st' (record_fid layout ! unat slot) = None"
    "fdata st' (commit_fid layout ! unat slot) = None \<or> torn_in st (fdata st' (commit_fid layout ! unat slot)) \<or>
       (\<forall>x. plain st x \<longrightarrow> fdata st' x = fdata st x)"
proof -
  let ?c = "commit_fid layout ! unat slot" and ?r = "record_fid layout ! unat slot"
  note ls = layout_slot [OF assms(2,3,3)]
  obtain r1 st1 where c: "txn_remove_file ?c st = (r1, st1)" by fastforce
  note cl = remove_law [OF assms(1) ls(2) c]
  have "only_in (slot_files layout slot) st st' \<and>
    (r = PICOKEYS_OK \<longrightarrow> fs_search st' ?c = None \<and> fs_search st' ?r = None) \<and>
    (fdata st' ?c = None \<or> torn_in st (fdata st' ?c) \<or> (\<forall>x. plain st x \<longrightarrow> fdata st' x = fdata st x))"
  proof (cases "r1 = PICOKEYS_OK")
    case True
    then have r: "txn_remove_file ?r st1 = (r, st')" using assms(4) c by (simp add: remove_slot_def)
    have s1: "store_inv st1" "plain st1 ?r" "plain st1 ?c" using cl(1) ls by (simp_all add: only_at_def)
    note rl = remove_law [OF s1(1,2) r]
    have c1: "fs_search st1 ?c = None" "fdata st1 ?c = None" using cl(3) True by simp_all
    have "fs_search st' ?c = None" "fdata st' ?c = None"
      using rl(1) s1(3) ls(3) c1 by (simp_all add: only_at_def)
    moreover have "only_in (slot_files layout slot) st st'"
      by (rule only_in_trans [OF only_at_in [OF cl(1) _ cl(2)] only_at_in [OF rl(1) _ rl(2)]])
         (simp_all add: slot_files_def)
    ultimately show ?thesis using rl(3) by blast
  next
    case False
    then have "r = r1" "st' = st1" using assms(4) c by (simp_all add: remove_slot_def)
    moreover have "only_in (slot_files layout slot) st st1"
      by (rule only_at_in [OF cl(1) _ cl(2)]) (simp add: slot_files_def)
    moreover have "fdata st1 ?c = None \<or> torn_in st (fdata st1 ?c) \<or> (\<forall>x. plain st x \<longrightarrow> fdata st1 x = fdata st x)"
      using cl(1,4) by (auto simp: only_at_def)
    ultimately show ?thesis using False by simp
  qed
  then show "only_in (slot_files layout slot) st st'"
    "r = PICOKEYS_OK \<Longrightarrow> fs_search st' ?c = None \<and> fs_search st' ?r = None"
    "fdata st' ?c = None \<or> torn_in st (fdata st' ?c) \<or> (\<forall>x. plain st x \<longrightarrow> fdata st' x = fdata st x)"
    by blast+
qed

text \<open>Writing the two files of a slot that has neither.\<close>

lemma write_record_law:
  assumes "store_inv st" "layout_ok st layout" "slot \<le> 1"
    and "fs_search st (record_fid layout ! unat slot) = None"
    and "txn_write_record mem_ok layout auth slot g rid data st = ((r, tag), st')"
  shows "only_at (record_fid layout ! unat slot) st st'" "set (flash st') \<subseteq> set (flash st)"
    "mac_ok auth \<Longrightarrow> r = PICOKEYS_OK \<Longrightarrow>
       length data < 2 ^ 32 - 48 \<and> auth_buffer auth (record_header layout slot g rid (length data)) data = Inr tag \<and>
       fdata st' (record_fid layout ! unat slot) = Some (record_header layout slot g rid (length data) @ data @ tag)"
proof -
  note ls = layout_slot [OF assms(2,3,3)]
  let ?h = "record_header layout slot g rid (length data)"
  have "only_at (record_fid layout ! unat slot) st st' \<and> set (flash st') \<subseteq> set (flash st) \<and>
    (mac_ok auth \<longrightarrow> r = PICOKEYS_OK \<longrightarrow> length data < 2 ^ 32 - 48 \<and> auth_buffer auth ?h data = Inr tag \<and>
       fdata st' (record_fid layout ! unat slot) = Some (?h @ data @ tag))"
  proof (cases "2 ^ 32 - 49 < length data \<or> \<not> mem_ok")
    case True
    with assms(1,5) show ?thesis
      by (auto simp: txn_write_record_def txn_consts only_at_refl split: if_splits)
  next
    case False
    show ?thesis
    proof (cases "auth_buffer auth ?h data")
      case (Inl e)
      with assms(1,5) False show ?thesis
        using auth_buffer_tag(2) [of auth ?h data]
        by (auto simp: txn_write_record_def txn_consts only_at_refl Let_def)
    next
      case (Inr t)
      with assms(5) False have "txn_replace_file (record_fid layout ! unat slot) (?h @ data @ tag) st = (r, st')" "t = tag"
        by (auto simp: txn_write_record_def txn_consts Let_def split: prod.splits)
      with replace_law [OF assms(1) ls(1) assms(4) this(1)] Inr False show ?thesis by auto
    qed
  qed
  then show "only_at (record_fid layout ! unat slot) st st'" "set (flash st') \<subseteq> set (flash st)"
    "mac_ok auth \<Longrightarrow> r = PICOKEYS_OK \<Longrightarrow>
       length data < 2 ^ 32 - 48 \<and> auth_buffer auth ?h data = Inr tag \<and>
       fdata st' (record_fid layout ! unat slot) = Some (?h @ data @ tag)"
    by blast+
qed

lemma write_commit_law:
  assumes "store_inv st" "layout_ok st layout" "slot \<le> 1"
    and "fs_search st (commit_fid layout ! unat slot) = None"
    and "txn_write_commit layout auth slot rs g rid n tag d st = (r, st')"
  shows "only_at (commit_fid layout ! unat slot) st st'" "set (flash st') \<subseteq> set (flash st)"
    "mac_ok auth \<Longrightarrow> r = PICOKEYS_OK \<Longrightarrow>
       \<exists>ctag. auth_buffer auth (commit_header layout slot rs g rid n tag d) [] = Inr ctag \<and>
         fdata st' (commit_fid layout ! unat slot) = Some (commit_header layout slot rs g rid n tag d @ ctag)"
    "r \<noteq> PICOKEYS_OK \<Longrightarrow> fdata st' (commit_fid layout ! unat slot) = None"
proof -
  note ls = layout_slot [OF assms(2,3,3)]
  let ?h = "commit_header layout slot rs g rid n tag d"
  let ?c = "commit_fid layout ! unat slot"
  have n: "fdata st ?c = None" using assms(4) by (simp add: fdata_def)
  have "only_at ?c st st' \<and> set (flash st') \<subseteq> set (flash st) \<and>
    (mac_ok auth \<longrightarrow> r = PICOKEYS_OK \<longrightarrow> (\<exists>ctag. auth_buffer auth ?h [] = Inr ctag \<and> fdata st' ?c = Some (?h @ ctag))) \<and>
    (r \<noteq> PICOKEYS_OK \<longrightarrow> fdata st' ?c = None)"
  proof (cases "auth_buffer auth ?h []")
    case (Inl e)
    with assms(1,5) n show ?thesis using auth_buffer_tag(2) [of auth ?h "[]"]
      by (auto simp: txn_write_commit_def only_at_refl Let_def)
  next
    case (Inr t)
    with assms(5) have "txn_replace_file ?c (?h @ t) st = (r, st')" by (simp add: txn_write_commit_def Let_def)
    with replace_law [OF assms(1) ls(2) assms(4) this] Inr show ?thesis by auto
  qed
  then show "only_at ?c st st'" "set (flash st') \<subseteq> set (flash st)"
    "mac_ok auth \<Longrightarrow> r = PICOKEYS_OK \<Longrightarrow>
       \<exists>ctag. auth_buffer auth ?h [] = Inr ctag \<and> fdata st' ?c = Some (?h @ ctag)"
    "r \<noteq> PICOKEYS_OK \<Longrightarrow> fdata st' ?c = None"
    by blast+
qed

section \<open>Put and delete as a whole\<close>

text \<open>The payload of a version, none when it is a deletion.\<close>

definition txn_payload :: "file_store \<Rightarrow> txn_layout \<Rightarrow> txn_state \<Rightarrow> byte list option" where
  "txn_payload st layout s =
     (if ts_deleted s then None
      else map_option (bslice 32 (unat (ts_payload_size s))) (fdata st (record_fid layout ! unat (ts_record_slot s))))"

text \<open>What the files of the target slot look like after a put or delete that was cut short anywhere:
  nothing was touched, the commit is gone or unusable, or the new commit is complete.\<close>

definition commit_void :: "file_store \<Rightarrow> txn_layout \<Rightarrow> byte \<Rightarrow> bool" where
  "commit_void st layout slot \<longleftrightarrow>
     (\<forall>d. fdata st (commit_fid layout ! unat slot) = Some d \<longrightarrow> take 4 d \<noteq> commit_magic)"

definition slot_outcome ::
    "file_store \<Rightarrow> file_store \<Rightarrow> txn_layout \<Rightarrow> 'c authenticator \<Rightarrow> byte \<Rightarrow> txn_state \<Rightarrow> byte list option \<Rightarrow> bool" where
  "slot_outcome st st' layout auth slot new val \<longleftrightarrow>
     (\<forall>x. plain st x \<longrightarrow> fdata st' x = fdata st x) \<or> commit_void st' layout slot \<or>
     parse_commit st' layout auth slot = Inr new \<and> txn_payload st' layout new = val"

lemma void_parse: "commit_void st layout slot \<Longrightarrow> \<exists>e. parse_commit st layout auth slot = Inl e \<and> invalid_record e"
  using parse_commit_garbage [of st layout slot _ auth] parse_commit_absent [of st layout slot auth]
  by (cases "fdata st (commit_fid layout ! unat slot)") (auto simp: commit_void_def invalid_record_def)

lemma absent_outcome:
  "fdata st' (commit_fid layout ! unat slot) = None \<Longrightarrow> slot_outcome st st' layout auth slot new val"
  by (simp add: slot_outcome_def commit_void_def)

lemma removed_outcome:
  assumes "torn_ok st" "fdata st' (commit_fid layout ! unat slot) = None \<or>
     torn_in st (fdata st' (commit_fid layout ! unat slot)) \<or> (\<forall>x. plain st x \<longrightarrow> fdata st' x = fdata st x)"
  shows "slot_outcome st st' layout auth slot new val"
  using assms by (auto simp: slot_outcome_def commit_void_def torn_in_def torn_ok_def)

definition live_state :: "byte \<Rightarrow> u32 \<Rightarrow> byte list \<Rightarrow> txn_state" where
  "live_state slot g data = \<lparr>ts_generation = g, ts_record_id = g, ts_payload_size = of_nat (length data),
     ts_commit_slot = slot, ts_record_slot = slot, ts_deleted = False\<rparr>"

definition dead_state :: "byte \<Rightarrow> u32 \<Rightarrow> txn_state" where
  "dead_state slot g = \<lparr>ts_generation = g, ts_record_id = 0, ts_payload_size = 0,
     ts_commit_slot = slot, ts_record_slot = 0xff, ts_deleted = True\<rparr>"

lemma live_state_sel [simp]:
  "ts_generation (live_state slot g data) = g" "ts_record_slot (live_state slot g data) = slot"
  "ts_commit_slot (live_state slot g data) = slot" "ts_deleted (live_state slot g data) = False"
  "ts_payload_size (live_state slot g data) = of_nat (length data)"
  by (simp_all add: live_state_def)

lemma dead_state_sel [simp]:
  "ts_generation (dead_state slot g) = g" "ts_deleted (dead_state slot g) = True"
  by (simp_all add: dead_state_def)

lemma dead_payload [simp]: "txn_payload st layout (dead_state slot g) = None"
  by (simp add: txn_payload_def)

lemma live_payload:
  assumes "length data < 2 ^ 32 - 48" "length h = 32" "fdata st (record_fid layout ! unat slot) = Some (h @ data @ t)"
  shows "txn_payload st layout (live_state slot g data) = Some data"
proof -
  have "unat (of_nat (length data) :: u32) = length data" using assms(1) by (simp add: unat_of_nat)
  with assms(2,3) show ?thesis by (simp add: txn_payload_def bslice_def)
qed

text \<open>The steps of a put once the target slot has been chosen.\<close>

definition put_steps ::
    "bool \<Rightarrow> txn_layout \<Rightarrow> 'c authenticator \<Rightarrow> byte \<Rightarrow> u32 \<Rightarrow> byte list \<Rightarrow> file_store \<Rightarrow> pk_status \<times> file_store" where
  "put_steps mem_ok layout auth slot g data st =
     (case remove_slot layout slot st of (r1, st1) \<Rightarrow>
        if r1 \<noteq> PICOKEYS_OK then (r1, st1)
        else case txn_write_record mem_ok layout auth slot g g data st1 of
          ((r2, record_tag), st2) \<Rightarrow>
            (case commit_flash (r2, st2) of (r3, st3) \<Rightarrow>
               if r3 \<noteq> PICOKEYS_OK then (r3, st3)
               else commit_flash (txn_write_commit layout auth slot slot g g (of_nat (length data)) record_tag False st3)))"

lemma txn_put_steps:
  "txn_put mem_ok layout auth data_opt st =
     (if \<not> txn_layout_valid st layout \<or> data_opt = None then (PICOKEYS_ERR_NULL_PARAM, st)
      else if 2 ^ 32 - 1 < length (the data_opt) then (PICOKEYS_WRONG_LENGTH, st)
      else case txn_next_state st layout auth of
        Inl r \<Rightarrow> (r, st)
      | Inr (slot, g) \<Rightarrow> put_steps mem_ok layout auth slot g (the data_opt) st)"
  by (auto simp: txn_put_def put_steps_def split: sum.split)

lemma remove_slot_none:
  assumes "remove_slot layout slot st = (PICOKEYS_OK, st')" "store_inv st" "layout_ok st layout" "slot \<le> 1"
  shows "fs_search st' (commit_fid layout ! unat slot) = None" "fs_search st' (record_fid layout ! unat slot) = None"
  using remove_slot_law(2) [OF assms(2-4,1)] by simp_all

lemma only_at_search: "only_at fid st st' \<Longrightarrow> plain st x \<Longrightarrow> x \<noteq> fid \<Longrightarrow> fs_search st' x = fs_search st x"
  by (simp add: only_at_def)

lemma put_steps_law:
  assumes "store_inv st" "layout_ok st layout" "slot \<le> 1" "torn_ok st" "mac_ok auth" "g \<noteq> 0"
    and "put_steps mem_ok layout auth slot g data st = (r, st')"
  shows "only_in (slot_files layout slot) st st' \<and>
    slot_outcome st st' layout auth slot (live_state slot g data) (Some data) \<and>
    (r = PICOKEYS_OK \<longrightarrow> parse_commit st' layout auth slot = Inr (live_state slot g data) \<and>
       txn_payload st' layout (live_state slot g data) = Some data)"
proof -
  let ?A = "slot_files layout slot" and ?c = "commit_fid layout ! unat slot" and ?f = "record_fid layout ! unat slot"
  note ls = layout_slot [OF assms(2,3,3)]
  have cA: "?c \<in> ?A" "?f \<in> ?A" by (simp_all add: slot_files_def)
  obtain r1 st1 where s1: "remove_slot layout slot st = (r1, st1)" by fastforce
  note rl = remove_slot_law [OF assms(1-3) s1]
  show ?thesis
  proof (cases "r1 = PICOKEYS_OK")
    case False
    with s1 assms(7) have "r = r1" "st' = st1" by (simp_all add: put_steps_def)
    with rl removed_outcome [OF assms(4) rl(3)] False show ?thesis by simp
  next
    case True
    have i1: "store_inv st1" "layout_ok st1 layout" "plain st1 ?c" "plain st1 ?f"
      using rl(1) assms(2) ls by (simp_all add: only_in_def layout_ok_def)
    have n1: "fs_search st1 ?c = None" "fs_search st1 ?f = None" using rl(2) True by simp_all
    obtain r2 tag st2 where s2: "txn_write_record mem_ok layout auth slot g g data st1 = ((r2, tag), st2)" by (metis surj_pair)
    note wl = write_record_law [OF i1(1,2) assms(3) n1(2) s2]
    have i2: "store_inv st2" using wl(1) by (simp add: only_at_def)
    obtain r3 st3 where s3: "commit_flash (r2, st2) = (r3, st3)" by fastforce
    note cl = commit_flash_law [OF s3 i2]
    have o3: "only_in ?A st st3"
      by (rule only_in_trans [OF rl(1) only_in_trans [OF only_at_in [OF wl(1) cA(2) wl(2)] cl(1)]])
    have n3: "fs_search st3 ?c = None"
      using only_at_search [OF wl(1) i1(3)] ls(3) n1(1) cl(2) by simp
    show ?thesis
    proof (cases "r3 = PICOKEYS_OK")
      case False
      with s1 s2 s3 True assms(7) have "r = r3" "st' = st3" by (simp_all add: put_steps_def)
      moreover have "fdata st3 ?c = None" using n3 by (simp add: fdata_def)
      ultimately show ?thesis using o3 False absent_outcome by blast
    next
      case r3: True
      then have r2: "r2 = PICOKEYS_OK" using cl(4) by simp
      note rec = wl(3) [OF assms(5) r2]
      have i3: "store_inv st3" "layout_ok st3 layout" "plain st3 ?f"
        using o3 assms(2) ls by (simp_all add: only_in_def layout_ok_def)
      obtain r4 st4 where s4: "txn_write_commit layout auth slot slot g g (of_nat (length data)) tag False st3 = (r4, st4)"
        by fastforce
      note wc = write_commit_law [OF i3(1,2) assms(3) n3 s4]
      have fin: "commit_flash (r4, st4) = (r, st')"
        using s1 s2 s3 s4 True r3 assms(7) by (simp add: put_steps_def)
      have i4: "store_inv st4" using wc(1) by (simp add: only_at_def)
      note fl = commit_flash_law [OF fin i4]
      have o4: "only_in ?A st st'"
        by (rule only_in_trans [OF only_in_trans [OF o3 only_at_in [OF wc(1) cA(1) wc(2)]] fl(1)])
      have f4: "fdata st' ?f = Some (record_header layout slot g g (length data) @ data @ tag)"
        using wc(1) i3(3) ls(3) rec fl(3) cl(3) by (simp add: only_at_def)
      have new: "parse_commit st' layout auth slot = Inr (live_state slot g data)" if "r4 = PICOKEYS_OK"
        using parse_written [OF assms(5,3) _ assms(6) f4] rec wc(3) [OF assms(5) that] fl(3)
        unfolding live_state_def by fastforce
      have pay: "txn_payload st' layout (live_state slot g data) = Some data"
        using live_payload [OF _ length_headers(1) f4] rec by simp
      have "fdata st' ?c = None" if "r4 \<noteq> PICOKEYS_OK" using wc(4) [OF that] fl(3) by simp
      then have "slot_outcome st st' layout auth slot (live_state slot g data) (Some data)"
        using new pay by (cases "r4 = PICOKEYS_OK") (auto simp: slot_outcome_def commit_void_def)
      with o4 new pay fl(4) show ?thesis by blast
    qed
  qed
qed

text \<open>Of a delete, the steps after the current version has been found.\<close>

definition delete_steps ::
    "txn_layout \<Rightarrow> 'c authenticator \<Rightarrow> byte \<Rightarrow> u32 \<Rightarrow> file_store \<Rightarrow> pk_status \<times> file_store" where
  "delete_steps layout auth slot g st =
     (case commit_flash (remove_slot layout slot st) of (r1, st1) \<Rightarrow>
        if r1 \<noteq> PICOKEYS_OK then (r1, st1)
        else commit_flash (txn_write_commit layout auth slot 0xff g 0 0 (replicate 16 0) True st1))"

lemma delete_steps_law:
  assumes "store_inv st" "layout_ok st layout" "slot \<le> 1" "torn_ok st" "mac_ok auth" "g \<noteq> 0"
    and "delete_steps layout auth slot g st = (r, st')"
  shows "only_in (slot_files layout slot) st st' \<and> slot_outcome st st' layout auth slot (dead_state slot g) None \<and>
    (r = PICOKEYS_OK \<longrightarrow> parse_commit st' layout auth slot = Inr (dead_state slot g))"
proof -
  let ?A = "slot_files layout slot" and ?c = "commit_fid layout ! unat slot"
  note ls = layout_slot [OF assms(2,3,3)]
  have cA: "?c \<in> ?A" by (simp add: slot_files_def)
  obtain r1 st1 where s1: "remove_slot layout slot st = (r1, st1)" by fastforce
  note rl = remove_slot_law [OF assms(1-3) s1]
  have i1: "store_inv st1" using rl(1) by (simp add: only_in_def)
  obtain r2 st2 where s2: "commit_flash (r1, st1) = (r2, st2)" by fastforce
  note cl = commit_flash_law [OF s2 i1]
  have o2: "only_in ?A st st2" by (rule only_in_trans [OF rl(1) cl(1)])
  show ?thesis
  proof (cases "r2 = PICOKEYS_OK")
    case False
    with s1 s2 assms(7) have "r = r2" "st' = st2" by (simp_all add: delete_steps_def)
    moreover have "slot_outcome st st2 layout auth slot (dead_state slot g) None"
      by (rule removed_outcome [OF assms(4)]) (use rl(3) cl(3) in simp)
    ultimately show ?thesis using o2 False by simp
  next
    case True
    then have n2: "fs_search st2 ?c = None" using rl(2) cl(2,4) by simp
    have i2: "store_inv st2" "layout_ok st2 layout"
      using o2 assms(2) by (simp_all add: only_in_def layout_ok_def)
    obtain r3 st3 where s3: "txn_write_commit layout auth slot 0xff g 0 0 (replicate 16 0) True st2 = (r3, st3)" by fastforce
    note wc = write_commit_law [OF i2 assms(3) n2 s3]
    have fin: "commit_flash (r3, st3) = (r, st')" using s1 s2 s3 True assms(7) by (simp add: delete_steps_def)
    have i3: "store_inv st3" using wc(1) by (simp add: only_at_def)
    note fl = commit_flash_law [OF fin i3]
    have o3: "only_in ?A st st'"
      by (rule only_in_trans [OF only_in_trans [OF o2 only_at_in [OF wc(1) cA wc(2)]] fl(1)])
    have new: "parse_commit st' layout auth slot = Inr (dead_state slot g)" if "r3 = PICOKEYS_OK"
      using parse_tombstone [OF assms(5,6)] wc(3) [OF assms(5) that] fl(3) unfolding dead_state_def by fastforce
    have "fdata st' ?c = None" if "r3 \<noteq> PICOKEYS_OK" using wc(4) [OF that] fl(3) by simp
    then have "slot_outcome st st' layout auth slot (dead_state slot g) None"
      using new by (cases "r3 = PICOKEYS_OK") (auto simp: slot_outcome_def commit_void_def)
    with o3 new fl(4) show ?thesis by blast
  qed
qed

section \<open>Atomicity\<close>

text \<open>What the files of an object hold between operations: no version yet, or a current version whose
  record and commit share a slot.\<close>

definition txn_wf :: "file_store \<Rightarrow> txn_layout \<Rightarrow> 'c authenticator \<Rightarrow> bool" where
  "txn_wf st layout auth \<longleftrightarrow>
     commit_void st layout 0 \<and> commit_void st layout 1 \<or>
     (\<exists>cur. txn_recover st layout auth = Inr cur \<and> (ts_deleted cur \<or> ts_record_slot cur = ts_commit_slot cur))"

text \<open>The abstract value of an object.\<close>

definition txn_value :: "file_store \<Rightarrow> txn_layout \<Rightarrow> 'c authenticator \<Rightarrow> byte list option" where
  "txn_value st layout auth =
     (case txn_recover st layout auth of Inl e \<Rightarrow> None | Inr s \<Rightarrow> txn_payload st layout s)"

lemma recover_void:
  "commit_void st layout 0 \<Longrightarrow> commit_void st layout 1 \<Longrightarrow> txn_recover st layout auth = Inl PICOKEYS_ERR_FILE_NOT_FOUND"
  using void_parse [of st layout 0 auth] void_parse [of st layout 1 auth] by (auto simp: txn_recover_def)

lemma recover_same:
  assumes "\<forall>x. plain st x \<longrightarrow> fdata st' x = fdata st x" "layout_ok st layout"
  shows "txn_recover st' layout auth = txn_recover st layout auth" "txn_payload st' layout s = txn_payload st layout s \<or> 1 < ts_record_slot s"
    "commit_void st' layout 0 = commit_void st layout 0" "commit_void st' layout 1 = commit_void st layout 1"
proof -
  have p: "plain st (record_fid layout ! k)" "plain st (commit_fid layout ! k)" if "k \<le> 1" for k
    using assms(2) that by (auto simp: layout_ok_def)
  have same: "parse_commit st' layout auth slot = parse_commit st layout auth slot" if "unat slot \<le> 1" for slot
    using parse_commit_same [of st' layout slot st auth] assms(1) p that by simp
  have "parse_commit st' layout auth 0 = parse_commit st layout auth 0"
    "parse_commit st' layout auth 1 = parse_commit st layout auth 1"
    by (rule same, simp)+
  then show "txn_recover st' layout auth = txn_recover st layout auth"
    unfolding txn_recover_def recover_slots.simps by (simp only:)
  show "commit_void st' layout 0 = commit_void st layout 0" "commit_void st' layout 1 = commit_void st layout 1"
    using assms(1) p by (simp_all add: commit_void_def)
  show "txn_payload st' layout s = txn_payload st layout s \<or> 1 < ts_record_slot s"
    using assms(1) p(1) [of "unat (ts_record_slot s)"]
    by (auto simp: txn_payload_def word_less_nat_alt)
qed

text \<open>Once the target slot of a step has one of its three outcomes, the old version or the new one is current.\<close>

lemma slot_files_other:
  assumes "layout_ok st layout" "(slot :: byte) \<le> 1"
  shows "commit_fid layout ! unat slot \<notin> slot_files layout (slot XOR 1)" "record_fid layout ! unat slot \<notin> slot_files layout (slot XOR 1)"
  using layout_other [OF assms] layout_slot(3) [OF assms(1,2), of "slot XOR 1"]
    layout_slot(3) [OF assms(1) _ assms(2), of "slot XOR 1"] by (auto simp: slot_files_def)

lemma live_record_slot:
  assumes "parse_commit st layout auth slot = Inr s" "\<not> ts_deleted s"
  shows "ts_record_slot s \<le> 1"
  using assms by (auto simp: parse_commit_fdata commit_state_def Let_def split: option.splits if_splits sum.splits)

lemma recover_after:
  assumes "layout_ok st layout" "txn_recover st layout auth = Inr cur" "ts_deleted cur \<or> ts_record_slot cur = ts_commit_slot cur"
    and "only_in (slot_files layout (ts_commit_slot cur XOR 1)) st st'"
    and "slot_outcome st st' layout auth (ts_commit_slot cur XOR 1) new val" "ts_generation cur < ts_generation new"
  shows "(txn_recover st' layout auth = Inr cur \<and> txn_payload st' layout cur = txn_payload st layout cur) \<or>
    (txn_recover st' layout auth = Inr new \<and> txn_payload st' layout new = val)"
    "parse_commit st' layout auth (ts_commit_slot cur XOR 1) = Inr new \<Longrightarrow> txn_recover st' layout auth = Inr new"
proof -
  let ?s = "ts_commit_slot cur"
  have s: "?s \<le> 1" "parse_commit st layout auth ?s = Inr cur" using recover_parse [OF assms(2)] by simp_all
  note so = slot_files_other [OF assms(1) s(1)] and ls = layout_slot [OF assms(1) s(1) s(1)]
  note lo = layout_other [OF assms(1) s(1)]
  have keep: "fdata st' (commit_fid layout ! unat ?s) = fdata st (commit_fid layout ! unat ?s)"
     "fdata st' (record_fid layout ! unat ?s) = fdata st (record_fid layout ! unat ?s)"
    using only_inD [OF assms(4) ls(2) so(1)] only_inD [OF assms(4) ls(1) so(2)] .
  have cur: "parse_commit st' layout auth ?s = Inr cur"
    by (rule parse_commit_stays [OF s(2) keep(1)]) (use assms(3) keep(2) in auto)
  have pay: "txn_payload st' layout cur = txn_payload st layout cur"
    using assms(3) keep(2) by (auto simp: txn_payload_def)
  show new: "txn_recover st' layout auth = Inr new" if "parse_commit st' layout auth (?s XOR 1) = Inr new"
    using recover_cases(3) [OF s(1) cur that assms(6)] .
  have "txn_recover st' layout auth = Inr cur" if v: "commit_void st' layout (?s XOR 1)"
    using recover_cases(1) [OF s(1) cur] void_parse [OF v, of auth] by blast
  moreover have "txn_recover st' layout auth = Inr cur" if "\<forall>x. plain st x \<longrightarrow> fdata st' x = fdata st x"
    using recover_same(1) [OF that assms(1), of auth] assms(2) by simp
  ultimately show "(txn_recover st' layout auth = Inr cur \<and> txn_payload st' layout cur = txn_payload st layout cur) \<or>
    (txn_recover st' layout auth = Inr new \<and> txn_payload st' layout new = val)"
    using assms(5) new pay unfolding slot_outcome_def by blast
qed

lemma recover_after_fresh:
  assumes "layout_ok st layout" "commit_void st layout 0" "commit_void st layout 1"
    and "only_in (slot_files layout 0) st st'" "slot_outcome st st' layout auth 0 new val"
  shows "commit_void st' layout 0 \<and> commit_void st' layout 1 \<or>
    (txn_recover st' layout auth = Inr new \<and> txn_payload st' layout new = val)"
    "parse_commit st' layout auth 0 = Inr new \<Longrightarrow> txn_recover st' layout auth = Inr new"
proof -
  have o: "fdata st' (commit_fid layout ! 1) = fdata st (commit_fid layout ! 1)"
    using only_inD [OF assms(4)] layout_slot(2) [OF assms(1), of 1 1] slot_files_other(1) [OF assms(1), of 1] by simp
  then have v1: "commit_void st' layout 1" using assms(3) by (simp add: commit_void_def)
  show new: "txn_recover st' layout auth = Inr new" if "parse_commit st' layout auth 0 = Inr new"
    using recover_cases(1) [of 0 st' layout auth new] void_parse [OF v1, of auth] that by auto
  have "commit_void st' layout 0" if "\<forall>x. plain st x \<longrightarrow> fdata st' x = fdata st x"
    using recover_same(3) [OF that assms(1)] assms(2) by simp
  then show "commit_void st' layout 0 \<and> commit_void st' layout 1 \<or>
    (txn_recover st' layout auth = Inr new \<and> txn_payload st' layout new = val)"
    using assms(5) new v1 unfolding slot_outcome_def by blast
qed

lemma next_generation: "(g :: u32) \<noteq> - 1 \<Longrightarrow> g < g + 1 \<and> g + 1 \<noteq> 0"
proof -
  assume "g \<noteq> - 1"
  then have n: "g + 1 \<noteq> 0" by (simp add: eq_neg_iff_add_eq_0)
  have u: "unat g < 2 ^ 32" using unsigned_less [of g] by simp
  have "unat g \<noteq> 2 ^ 32 - 1"
  proof
    assume "unat g = 2 ^ 32 - 1"
    then have "unat (g + 1) = 0" by (simp add: unat_word_ariths)
    with n show False by (simp add: unsigned_eq_0_iff)
  qed
  with u have "unat (g + 1) = unat g + 1" by (simp add: unat_word_ariths)
  then show ?thesis by (auto simp: word_less_nat_alt)
qed

text \<open>What holds after a step: the abstract value is old or new, and the files are well formed again.\<close>

definition old_or_new ::
    "file_store \<Rightarrow> file_store \<Rightarrow> txn_layout \<Rightarrow> 'c authenticator \<Rightarrow> txn_state \<Rightarrow> byte list option \<Rightarrow> bool" where
  "old_or_new st st' layout auth new val \<longleftrightarrow>
     (txn_recover st' layout auth = Inr new \<and> txn_payload st' layout new = val) \<or>
     (txn_wf st' layout auth \<and> txn_value st' layout auth = txn_value st layout auth)"

lemma step_old_or_new:
  assumes "layout_ok st layout" "txn_wf st layout auth" "txn_next_state st layout auth = Inr (slot, g)"
    and "only_in (slot_files layout slot) st st'" "slot_outcome st st' layout auth slot new val" "ts_generation new = g"
  shows "old_or_new st st' layout auth new val"
    "parse_commit st' layout auth slot = Inr new \<Longrightarrow> txn_recover st' layout auth = Inr new"
proof -
  have "old_or_new st st' layout auth new val \<and> (parse_commit st' layout auth slot = Inr new \<longrightarrow> txn_recover st' layout auth = Inr new)"
  proof (cases "txn_recover st layout auth")
    case (Inl e)
    then have v: "commit_void st layout 0" "commit_void st layout 1" using assms(2) by (auto simp: txn_wf_def)
    have "slot = 0" using assms(3) recover_void [OF v, of auth] by (simp add: txn_next_state_def)
    with recover_after_fresh [OF assms(1) v, of st' auth new val] assms(4,5) recover_void [OF v, of auth] recover_void [of st' layout auth]
    show ?thesis by (auto simp: old_or_new_def txn_wf_def txn_value_def)
  next
    case (Inr cur)
    then have n: "slot = ts_commit_slot cur XOR 1" "g = ts_generation cur + 1" "ts_generation cur \<noteq> - 1"
      using assms(3) by (auto simp: txn_next_state_def split: if_splits)
    have w: "ts_deleted cur \<or> ts_record_slot cur = ts_commit_slot cur"
      using assms(2) Inr recover_void [of st layout auth] by (auto simp: txn_wf_def)
    have "ts_generation cur < ts_generation new" using n assms(6) next_generation by simp
    with recover_after [OF assms(1) Inr w, of st' new val] assms(4,5) n(1) Inr w show ?thesis
      by (auto simp: old_or_new_def txn_wf_def txn_value_def)
  qed
  then show "old_or_new st st' layout auth new val"
    "parse_commit st' layout auth slot = Inr new \<Longrightarrow> txn_recover st' layout auth = Inr new" by simp_all
qed

lemma next_state_ok:
  assumes "txn_next_state st layout auth = Inr (slot, g)"
  shows "slot \<le> 1" "g \<noteq> 0"
proof -
  have "slot \<le> 1 \<and> g \<noteq> 0"
  proof (cases "txn_recover st layout auth")
    case (Inl e)
    with assms show ?thesis by (auto simp: txn_next_state_def split: if_splits)
  next
    case (Inr cur)
    with assms have n: "slot = ts_commit_slot cur XOR 1" "g = ts_generation cur + 1" "ts_generation cur \<noteq> - 1"
      by (auto simp: txn_next_state_def split: if_splits)
    have "ts_commit_slot cur \<le> 1" using recover_parse [OF Inr] by simp
    then have "slot \<le> 1" using slot_cases n(1) by fastforce
    with n next_generation show ?thesis by simp
  qed
  then show "slot \<le> 1" "g \<noteq> 0" by simp_all
qed

lemma next_state_fails: "txn_wf st layout auth \<Longrightarrow> txn_next_state st layout auth = Inl e \<Longrightarrow> e = PICOKEYS_WRONG_DATA"
  using recover_void [of st layout auth] by (auto simp: txn_wf_def txn_next_state_def split: if_splits)

lemma untouched_files:
  assumes "only_in (slot_files layout slot) st st'" "layout_ok st layout" "slot \<le> 1" "plain st x"
    and "x \<notin> set (record_fid layout @ commit_fid layout)"
  shows "fdata st' x = fdata st x"
proof (rule only_inD [OF assms(1,4)])
  have "unat slot < 2" using assms(3) by (simp add: word_le_nat_alt)
  then show "x \<notin> slot_files layout slot"
    using assms(2,5) by (auto simp: slot_files_def layout_ok_def)
qed

lemma put_ok_state:
  assumes "store_inv st" "layout_ok st layout" "torn_ok st" "mac_ok auth" "txn_wf st layout auth"
    and "txn_put mem_ok layout auth (Some data) st = (PICOKEYS_OK, st')"
  shows "\<exists>slot g. txn_next_state st layout auth = Inr (slot, g) \<and> txn_recover st' layout auth = Inr (live_state slot g data)"
proof -
  obtain slot g where n: "txn_next_state st layout auth = Inr (slot, g)"
    using assms(6) next_state_fails [OF assms(5)]
    by (cases "txn_next_state st layout auth") (auto simp: txn_put_steps split: if_splits)
  with assms(6) have "put_steps mem_ok layout auth slot g data st = (PICOKEYS_OK, st')"
    by (auto simp: txn_put_steps split: if_splits)
  note pl = put_steps_law [OF assms(1,2) next_state_ok(1) [OF n] assms(3,4) next_state_ok(2) [OF n] this]
  show ?thesis
    using step_old_or_new(2) [OF assms(2,5) n conjunct1 [OF pl] conjunct1 [OF conjunct2 [OF pl]] live_state_sel(1)] pl n by blast
qed

lemma put_atomic:
  assumes "store_inv st" "layout_ok st layout" "torn_ok st" "mac_ok auth" "txn_wf st layout auth"
    and "txn_put mem_ok layout auth (Some data) st = (r, st')"
  shows "txn_wf st' layout auth \<and> txn_value st' layout auth \<in> {txn_value st layout auth, Some data} \<and>
    (r = PICOKEYS_OK \<longrightarrow> txn_value st' layout auth = Some data) \<and>
    (\<forall>x. plain st x \<longrightarrow> x \<notin> set (record_fid layout @ commit_fid layout) \<longrightarrow> fdata st' x = fdata st x)"
proof (cases "\<not> txn_layout_valid st layout \<or> 2 ^ 32 - 1 < length data \<or> (\<exists>e. txn_next_state st layout auth = Inl e)")
  case True
  then have "st' = st \<and> r \<noteq> PICOKEYS_OK"
    using assms(6) next_state_fails [OF assms(5)] by (auto simp: txn_put_steps split: if_splits)
  with assms(5) show ?thesis by simp
next
  case False
  then obtain slot g where n: "txn_next_state st layout auth = Inr (slot, g)" by (metis sumE surj_pair)
  with assms(6) False have "put_steps mem_ok layout auth slot g data st = (r, st')" by (auto simp: txn_put_steps split: if_splits)
  note pl = put_steps_law [OF assms(1,2) next_state_ok(1) [OF n] assms(3,4) next_state_ok(2) [OF n] this]
  note so = step_old_or_new [OF assms(2,5) n conjunct1 [OF pl] conjunct1 [OF conjunct2 [OF pl]] live_state_sel(1)]
  have new: "txn_wf st' layout auth \<and> txn_value st' layout auth = Some data"
    if "txn_recover st' layout auth = Inr (live_state slot g data)" "txn_payload st' layout (live_state slot g data) = Some data"
    using that by (simp add: txn_wf_def txn_value_def)
  have "r = PICOKEYS_OK \<longrightarrow> txn_value st' layout auth = Some data" using new so(2) pl by blast
  moreover have "txn_wf st' layout auth \<and> txn_value st' layout auth \<in> {txn_value st layout auth, Some data}"
    using so(1) new unfolding old_or_new_def by blast
  ultimately show ?thesis using untouched_files [OF conjunct1 [OF pl] assms(2) next_state_ok(1) [OF n]] by blast
qed

text \<open>A put leaves the version that was current before it in its slot.\<close>

lemma current_stays:
  assumes "layout_ok st layout" "txn_recover st layout auth = Inr cur" "ts_deleted cur \<or> ts_record_slot cur = ts_commit_slot cur"
    and "only_in (slot_files layout (ts_commit_slot cur XOR 1)) st st'"
  shows "parse_commit st' layout auth (ts_commit_slot cur) = Inr cur" "txn_payload st' layout cur = txn_payload st layout cur"
proof -
  let ?s = "ts_commit_slot cur"
  have s: "?s \<le> 1" "parse_commit st layout auth ?s = Inr cur" using recover_parse [OF assms(2)] by simp_all
  note so = slot_files_other [OF assms(1) s(1)] and ls = layout_slot [OF assms(1) s(1) s(1)]
  have keep: "fdata st' (commit_fid layout ! unat ?s) = fdata st (commit_fid layout ! unat ?s)"
     "fdata st' (record_fid layout ! unat ?s) = fdata st (record_fid layout ! unat ?s)"
    using only_inD [OF assms(4) ls(2) so(1)] only_inD [OF assms(4) ls(1) so(2)] .
  show "parse_commit st' layout auth ?s = Inr cur"
    by (rule parse_commit_stays [OF s(2) keep(1)]) (use assms(3) keep(2) in auto)
  show "txn_payload st' layout cur = txn_payload st layout cur"
    using assms(3) keep(2) by (auto simp: txn_payload_def)
qed

lemma put_keeps_store:
  assumes "store_inv st" "layout_ok st layout" "torn_ok st" "mac_ok auth" "txn_wf st layout auth"
    and "txn_put mem_ok layout auth (Some data) st = (r, st')"
  shows "store_inv st'" "layout_ok st' layout" "torn_ok st'"
    "txn_recover st layout auth = Inr cur \<Longrightarrow> parse_commit st' layout auth (ts_commit_slot cur) = Inr cur \<and>
       txn_payload st' layout cur = txn_payload st layout cur"
proof -
  have unchanged: "store_inv st' \<and> layout_ok st' layout \<and> torn_ok st' \<and>
     (\<forall>cur. txn_recover st layout auth = Inr cur \<longrightarrow> parse_commit st' layout auth (ts_commit_slot cur) = Inr cur \<and>
       txn_payload st' layout cur = txn_payload st layout cur)"
  proof (cases "\<not> txn_layout_valid st layout \<or> 2 ^ 32 - 1 < length data \<or> (\<exists>e. txn_next_state st layout auth = Inl e)")
    case True
    then have "st' = st" using assms(6) by (auto simp: txn_put_steps split: if_splits)
    with assms recover_parse show ?thesis by blast
  next
    case False
    then obtain slot g where n: "txn_next_state st layout auth = Inr (slot, g)" by (metis sumE surj_pair)
    with assms(6) False have "put_steps mem_ok layout auth slot g data st = (r, st')" by (auto simp: txn_put_steps split: if_splits)
    note o = conjunct1 [OF put_steps_law [OF assms(1,2) next_state_ok(1) [OF n] assms(3,4) next_state_ok(2) [OF n] this]]
    have "parse_commit st' layout auth (ts_commit_slot cur) = Inr cur \<and> txn_payload st' layout cur = txn_payload st layout cur"
      if c: "txn_recover st layout auth = Inr cur" for cur
    proof -
      have "slot = ts_commit_slot cur XOR 1" using n c by (auto simp: txn_next_state_def split: if_splits)
      moreover have "ts_deleted cur \<or> ts_record_slot cur = ts_commit_slot cur"
        using assms(5) c recover_void [of st layout auth] by (auto simp: txn_wf_def)
      ultimately show ?thesis using current_stays [OF assms(2) c] o by blast
    qed
    with o assms(2,3) show ?thesis by (auto simp: only_in_def layout_ok_def torn_ok_def)
  qed
  then show "store_inv st'" "layout_ok st' layout" "torn_ok st'"
    "txn_recover st layout auth = Inr cur \<Longrightarrow> parse_commit st' layout auth (ts_commit_slot cur) = Inr cur \<and>
       txn_payload st' layout cur = txn_payload st layout cur" by simp_all
qed

lemma put_only_in:
  assumes "store_inv st" "layout_ok st layout" "torn_ok st" "mac_ok auth" "txn_wf st layout auth"
    and "txn_put mem_ok layout auth (Some data) st = (r, st')"
  shows "only_in (set (record_fid layout @ commit_fid layout)) st st'"
proof (cases "\<not> txn_layout_valid st layout \<or> 2 ^ 32 - 1 < length data \<or> (\<exists>e. txn_next_state st layout auth = Inl e)")
  case True
  then have "st' = st" using assms(6) by (auto simp: txn_put_steps split: if_splits)
  with assms(1) show ?thesis by (simp add: only_in_refl)
next
  case False
  then obtain slot g where n: "txn_next_state st layout auth = Inr (slot, g)" by (metis sumE surj_pair)
  with assms(6) False have "put_steps mem_ok layout auth slot g data st = (r, st')" by (auto simp: txn_put_steps split: if_splits)
  note o = conjunct1 [OF put_steps_law [OF assms(1,2) next_state_ok(1) [OF n] assms(3,4) next_state_ok(2) [OF n] this]]
  have "unat slot < 2" using next_state_ok(1) [OF n] by (simp add: word_le_nat_alt)
  then have "slot_files layout slot \<subseteq> set (record_fid layout @ commit_fid layout)"
    using assms(2) by (auto simp: slot_files_def layout_ok_def)
  with o show ?thesis by (auto simp: only_in_def)
qed

text \<open>What a layout's object looks like depends on its four files only.\<close>

lemma txn_wf_files:
  assumes "length (record_fid layout) = 2" "length (commit_fid layout) = 2"
    and "\<forall>x \<in> set (record_fid layout @ commit_fid layout). fdata st' x = fdata st x"
  shows "txn_wf st' layout auth = txn_wf st layout auth"
proof -
  have p: "fdata st' (record_fid layout ! k) = fdata st (record_fid layout ! k)" "fdata st' (commit_fid layout ! k) = fdata st (commit_fid layout ! k)"
    if "k \<le> 1" for k
    using assms that by simp_all
  have same: "parse_commit st' layout auth slot = parse_commit st layout auth slot" if "unat slot \<le> 1" for slot
    using parse_commit_same [of st' layout slot st auth] p that by simp
  have "parse_commit st' layout auth 0 = parse_commit st layout auth 0"
    "parse_commit st' layout auth 1 = parse_commit st layout auth 1"
    by (rule same, simp)+
  then have "txn_recover st' layout auth = txn_recover st layout auth"
    unfolding txn_recover_def recover_slots.simps by (simp only:)
  moreover have "commit_void st' layout 0 = commit_void st layout 0" "commit_void st' layout 1 = commit_void st layout 1"
    using p by (simp_all add: commit_void_def)
  ultimately show ?thesis by (simp add: txn_wf_def)
qed

text \<open>C19: putting a transactional object is atomic. Whatever flash operations fail, at whatever point the
  put is cut off, the object afterwards has its old value or the new one, its files are again such
  that the next operation can work on them, and files of other objects are untouched; when the put
  reports success, recovery finds the new value. Needed of the MAC provider: tags of 16 bytes,
  feeding in pieces or at once being the same, failure not reported as success; of flash: a torn
  overwrite does not leave the commit magic.\<close>

theorem txn_put_atomic:
  assumes "store_inv st" "layout_ok st layout" "torn_ok st" "mac_ok auth" "txn_wf st layout auth"
    and "txn_put mem_ok layout auth (Some data) st = (r, st')"
  shows "txn_wf st' layout auth \<and> txn_value st' layout auth \<in> {txn_value st layout auth, Some data} \<and>
    (r = PICOKEYS_OK \<longrightarrow> txn_value st' layout auth = Some data) \<and>
    (\<forall>x. plain st x \<longrightarrow> x \<notin> set (record_fid layout @ commit_fid layout) \<longrightarrow> fdata st' x = fdata st x)"
  using assms by (rule put_atomic)

lemma txn_delete_steps:
  "txn_delete layout auth st =
     (if \<not> txn_layout_valid st layout then (PICOKEYS_ERR_NULL_PARAM, st)
      else case txn_recover st layout auth of
        Inl r \<Rightarrow> (r, st)
      | Inr current \<Rightarrow>
          if ts_deleted current then (PICOKEYS_ERR_FILE_NOT_FOUND, st)
          else if ts_generation current = - 1 then (PICOKEYS_WRONG_DATA, st)
          else delete_steps layout auth (ts_commit_slot current XOR 1) (ts_generation current + 1) st)"
  by (simp add: txn_delete_def delete_steps_def Let_def split: sum.split)

lemma live_record:
  assumes "txn_recover st layout auth = Inr cur" "\<not> ts_deleted cur"
  obtains d where "fdata st (record_fid layout ! unat (ts_record_slot cur)) = Some d" "length d = 48 + unat (ts_payload_size cur)"
proof -
  have p: "parse_commit st layout auth (ts_commit_slot cur) = Inr cur" using recover_parse [OF assms(1)] by simp
  obtain d where "commit_state st layout auth (ts_commit_slot cur) d = Inr cur"
    using p by (auto simp: parse_commit_fdata split: option.splits if_splits)
  with assms(2) obtain g rid tag where "validate_record st layout auth (ts_record_slot cur) g rid (ts_payload_size cur) tag = PICOKEYS_OK"
    by (cases cur) (fastforce simp: commit_state_def Let_def split: if_splits sum.splits)
  then have "file_has_data st (fs_search st (record_fid layout ! unat (ts_record_slot cur)))"
    "file_get_size st (fs_search st (record_fid layout ! unat (ts_record_slot cur))) = 48 + unat (ts_payload_size cur)"
    by (auto simp: validate_record_def Let_def txn_consts split: if_splits)
  then show thesis using that by (auto simp: view_fdata)
qed

lemma live_has_payload:
  "txn_recover st layout auth = Inr cur \<Longrightarrow> \<not> ts_deleted cur \<Longrightarrow> txn_payload st layout cur \<noteq> None"
  by (erule live_record) (auto simp: txn_payload_def)

text \<open>C20: deleting a transactional object is atomic in the same sense: afterwards it has its old value or
  none, none when success is reported; an object that has no value is not found.\<close>

theorem txn_delete_atomic:
  assumes "store_inv st" "layout_ok st layout" "torn_ok st" "mac_ok auth" "txn_wf st layout auth"
    and "txn_delete layout auth st = (r, st')"
  shows "txn_wf st' layout auth \<and> txn_value st' layout auth \<in> {txn_value st layout auth, None} \<and>
    (r = PICOKEYS_OK \<longrightarrow> txn_value st' layout auth = None) \<and>
    (txn_value st layout auth = None \<longrightarrow> txn_layout_valid st layout \<longrightarrow> r = PICOKEYS_ERR_FILE_NOT_FOUND) \<and>
    (\<forall>x. plain st x \<longrightarrow> x \<notin> set (record_fid layout @ commit_fid layout) \<longrightarrow> fdata st' x = fdata st x)"
proof -
  consider (invalid) "\<not> txn_layout_valid st layout"
    | (none) "txn_layout_valid st layout" "txn_recover st layout auth = Inl PICOKEYS_ERR_FILE_NOT_FOUND"
    | (dead) cur where "txn_layout_valid st layout" "txn_recover st layout auth = Inr cur" "ts_deleted cur"
    | (full) cur where "txn_layout_valid st layout" "txn_recover st layout auth = Inr cur" "\<not> ts_deleted cur" "ts_generation cur = - 1"
    | (live) cur where "txn_layout_valid st layout" "txn_recover st layout auth = Inr cur" "\<not> ts_deleted cur" "ts_generation cur \<noteq> - 1"
    using assms(5) recover_void [of st layout auth] unfolding txn_wf_def by blast
  then show ?thesis
  proof cases
    case (live cur)
    let ?slot = "ts_commit_slot cur XOR 1" and ?g = "ts_generation cur + 1"
    from live have n: "txn_next_state st layout auth = Inr (?slot, ?g)" by (simp add: txn_next_state_def)
    from live assms(6) have d: "delete_steps layout auth ?slot ?g st = (r, st')" by (simp add: txn_delete_steps)
    note dl = delete_steps_law [OF assms(1,2) next_state_ok(1) [OF n] assms(3,4) next_state_ok(2) [OF n] d]
    note so = step_old_or_new [OF assms(2,5) n conjunct1 [OF dl] conjunct1 [OF conjunct2 [OF dl]] dead_state_sel(1)]
    have new: "txn_wf st' layout auth \<and> txn_value st' layout auth = None"
      if "txn_recover st' layout auth = Inr (dead_state ?slot ?g)"
      using that by (simp add: txn_wf_def txn_value_def)
    have "r = PICOKEYS_OK \<longrightarrow> txn_value st' layout auth = None" using new so(2) dl by blast
    moreover have "txn_wf st' layout auth \<and> txn_value st' layout auth \<in> {txn_value st layout auth, None}"
      using so(1) new unfolding old_or_new_def by blast
    moreover have "txn_value st layout auth \<noteq> None" using live_has_payload [OF live(2,3)] live(2) by (simp add: txn_value_def)
    ultimately show ?thesis using untouched_files [OF conjunct1 [OF dl] assms(2) next_state_ok(1) [OF n]] by blast
  qed (use assms(5,6) live_has_payload in \<open>auto simp: txn_delete_steps txn_value_def\<close>)
qed

section \<open>Success\<close>

lemma replace_fresh_succeeds:
  assumes "store_inv st" "plain st fid" "fs_search st fid = None" "dynamic_files (ix st) < MAX_DYNAMIC_FILES" "flash st = []"
  shows "\<exists>st'. txn_replace_file fid d st = (PICOKEYS_OK, st') \<and> flash st' = [] \<and> dynamic_files (ix st') \<le> dynamic_files (ix st) + 1 \<and>
     txn_layout_valid st' = txn_layout_valid st"
proof -
  obtain n st1 where n: "fs_new fid st = (n, st1)" by fastforce
  note nl = fs_new_law [OF assms(1-3) n]
  obtain f where f: "n = Some f" using nl(4) assms(4) by blast
  obtain r st2 where w: "file_put_data (Some f) d st1 = (r, st2)" by fastforce
  have "r = PICOKEYS_OK \<and> flash st2 = []"
    using put_data_law(5) [OF _ _ _ w, of fid] nl f assms(2,5) by (auto simp: only_at_def)
  moreover have i1: "dynamic_files (ix st1) \<le> dynamic_files (ix st) + 1" "namespaces (ix st1) = namespaces (ix st)"
      "active_namespace (ix st1) = active_namespace (ix st)"
    using n by (auto simp: fs_new_def file_new_def set_content_def split: option.splits if_splits prod.splits)
  moreover have "file_search_by_fid (ix st1) x None 3 = file_search_by_fid (ix st) x None 3" for x
    by (rule search_by_fid_cong [OF i1(2,3)])
  moreover have "ix st2 = ix st1"
    using w by (auto simp: file_put_data_def flash_write_def next_outcome_def set_content_def
        split: flash_outcome.splits list.splits if_splits)
  ultimately show ?thesis
    using n f w assms(3) by (simp add: txn_replace_file_def txn_remove_file_def txn_layout_valid_def [abs_def])
qed

lemma commit_flash_works: "flash st = [] \<Longrightarrow> commit_flash (PICOKEYS_OK, st) = (PICOKEYS_OK, st)"
  by (simp add: commit_flash_def flash_commit_sync_def next_outcome_def)

lemma put_steps_fresh:
  assumes "store_inv st" "layout_ok st layout" "slot \<le> 1" "mac_ok auth" "\<And>x y. \<exists>t. auth_buffer auth x y = Inr t"
    and "fs_search st (commit_fid layout ! unat slot) = None" "fs_search st (record_fid layout ! unat slot) = None"
    and "dynamic_files (ix st) + 2 \<le> MAX_DYNAMIC_FILES" "flash st = []" "length data < 2 ^ 32 - 48"
  shows "\<exists>st'. put_steps True layout auth slot g data st = (PICOKEYS_OK, st') \<and> flash st' = [] \<and>
     dynamic_files (ix st') \<le> dynamic_files (ix st) + 2 \<and> txn_layout_valid st' = txn_layout_valid st"
proof -
  let ?h = "record_header layout slot g g (length data)"
  note ls = layout_slot [OF assms(2,3,3)]
  obtain t where t: "auth_buffer auth ?h data = Inr t" using assms(5) by blast
  obtain st1 where r: "txn_replace_file (record_fid layout ! unat slot) (?h @ data @ t) st = (PICOKEYS_OK, st1)"
      "flash st1 = []" "dynamic_files (ix st1) \<le> dynamic_files (ix st) + 1" "txn_layout_valid st1 = txn_layout_valid st"
    using replace_fresh_succeeds [OF assms(1) ls(1) assms(7) _ assms(9)] assms(8) by fastforce
  note rl = replace_law(1) [OF assms(1) ls(1) assms(7) r(1)]
  let ?c = "commit_header layout slot slot g g (of_nat (length data)) t False"
  obtain ct where ct: "auth_buffer auth ?c [] = Inr ct" using assms(5) by blast
  have s1: "store_inv st1" "plain st1 (commit_fid layout ! unat slot)" "fs_search st1 (commit_fid layout ! unat slot) = None"
    using rl ls assms(6) by (simp_all add: only_at_def)
  obtain st2 where c: "txn_replace_file (commit_fid layout ! unat slot) (?c @ ct) st1 = (PICOKEYS_OK, st2)" "flash st2 = []"
      "dynamic_files (ix st2) \<le> dynamic_files (ix st1) + 1" "txn_layout_valid st2 = txn_layout_valid st1"
    using replace_fresh_succeeds [OF s1] r(2,3) assms(8) by fastforce
  have "txn_write_record True layout auth slot g g data st = ((PICOKEYS_OK, t), st1)"
    using assms(10) t r(1) by (simp add: txn_write_record_def txn_consts Let_def)
  moreover have "txn_write_commit layout auth slot slot g g (of_nat (length data)) t False st1 = (PICOKEYS_OK, st2)"
    using ct c(1) by (simp add: txn_write_commit_def Let_def)
  moreover have "remove_slot layout slot st = (PICOKEYS_OK, st)"
    using assms(6,7) by (simp add: remove_slot_def txn_remove_file_def)
  ultimately show ?thesis using r(2-4) c(2-4) by (simp add: put_steps_def commit_flash_works)
qed

text \<open>C24: when flash works, there is room for two files and the MAC provider answers, the first put of a
  transactional object succeeds, and recovery then finds exactly the payload.\<close>

theorem txn_first_put_succeeds:
  assumes "store_inv st" "layout_ok st layout" "txn_layout_valid st layout" "mac_ok auth" "\<And>x y. \<exists>t. auth_buffer auth x y = Inr t"
    and "\<forall>fid \<in> set (record_fid layout @ commit_fid layout). fs_search st fid = None"
    and "dynamic_files (ix st) + 2 \<le> MAX_DYNAMIC_FILES" "flash st = []" "length data < 2 ^ 32 - 48"
  shows "\<exists>st'. txn_put True layout auth (Some data) st = (PICOKEYS_OK, st') \<and> txn_value st' layout auth = Some data"
proof -
  have f: "fs_search st (commit_fid layout ! k) = None" "fs_search st (record_fid layout ! k) = None" if "k \<le> 1" for k
    using assms(2,6) that by (auto simp: layout_ok_def)
  have v: "commit_void st layout 0" "commit_void st layout 1"
    using f(1) [of 0] f(1) [of 1] by (simp_all add: commit_void_def fdata_def)
  have n: "txn_next_state st layout auth = Inr (0, 1)" using recover_void [OF v, of auth] by (simp add: txn_next_state_def)
  obtain st' where s: "put_steps True layout auth 0 1 data st = (PICOKEYS_OK, st')"
    using put_steps_fresh [OF assms(1,2) _ assms(4,5) _ _ assms(7-9), of 0 1] f [of 0] by auto
  have torn: "torn_ok st" using assms(8) by (simp add: torn_ok_def)
  have one: "(0 :: byte) \<le> 1" "(1 :: u32) \<noteq> 0" by simp_all
  note pl = put_steps_law [OF assms(1,2) one(1) torn assms(4) one(2) s]
  have "txn_recover st' layout auth = Inr (live_state 0 1 data)"
    using recover_after_fresh(2) [OF assms(2) v conjunct1 [OF pl] conjunct1 [OF conjunct2 [OF pl]]] pl by blast
  with pl have "txn_value st' layout auth = Some data" by (simp add: txn_value_def)
  with n s assms(3,9) show ?thesis by (simp add: txn_put_steps)
qed

section \<open>An object\<close>

definition mac_example :: "byte list authenticator" where
  "mac_example = \<lparr>au_start = Inr [], au_update = (\<lambda>c d. Inr (c @ d)), au_finish = (\<lambda>c. Inr (replicate 16 (sum_list c)))\<rparr>"

definition layout_example :: txn_layout where
  "layout_example = \<lparr>l_namespace = 1, l_type = 2, l_object_id = 3, record_fid = [0xC300, 0xC301], commit_fid = [0xC302, 0xC303]\<rparr>"

definition txn_store :: file_store where
  "txn_store = \<lparr>ix = index_example, content = (\<lambda>_. None), flash = []\<rparr>"

lemma mac_example_ok: "mac_ok mac_example" "\<exists>t. auth_buffer mac_example x y = Inr t"
  by (auto simp: mac_ok_def mac_example_def auth_update_def auth_finish_def auth_buffer_def AUTH_TAG_SIZE_def Let_def)

lemma txn_example:
  "store_inv txn_store" "layout_ok txn_store layout_example" "txn_layout_valid txn_store layout_example"
  "\<forall>fid \<in> set (record_fid layout_example @ commit_fid layout_example). fs_search txn_store fid = None"
  "dynamic_files (ix txn_store) + 2 \<le> MAX_DYNAMIC_FILES" "flash txn_store = []" "torn_ok txn_store"
  "txn_wf txn_store layout_example auth"
proof -
  have p: "plain txn_store fid" if "fid \<in> {0xC300, 0xC301, 0xC302, 0xC303}" for fid
    using that index_example_ok(5) [of fid]
    by (auto simp: plain_def txn_store_def EF_META_def EF_PHY_def fid_ok_def index_consts)
  show i: "store_inv txn_store" by (simp add: store_inv_def txn_store_def index_example_ok)
  show l: "layout_ok txn_store layout_example" using p by (simp add: layout_ok_def layout_example_def)
  show n: "\<forall>fid \<in> set (record_fid layout_example @ commit_fid layout_example). fs_search txn_store fid = None"
    using fs_search_plain [OF i p] by (auto simp: layout_example_def txn_store_def index_example_ok)
  have st: "file_search_by_fid (ix txn_store) fid None 3 = None" if "fid \<in> {0xC300, 0xC301, 0xC302, 0xC303}" for fid
    using that by (auto simp: txn_store_def index_example_def clear_index_def file_search_by_fid_def active_entries_def EF_PHY_def)
  have u: "[0 ..< 4] = [0, 1, 2, 3 :: nat]" "[0 ..< 3] = [0, 1, 2 :: nat]" "[0 ..< 2] = [0, 1 :: nat]" "[0 ..< 1] = [0 :: nat]"
    by (simp_all add: upt_rec)
  show "txn_layout_valid txn_store layout_example"
    using st by (simp add: txn_layout_valid_def layout_example_def Let_def u)
  show "dynamic_files (ix txn_store) + 2 \<le> MAX_DYNAMIC_FILES" "flash txn_store = []" "torn_ok txn_store"
    by (simp_all add: txn_store_def index_example_ok index_consts torn_ok_def)
  show "txn_wf txn_store layout_example auth"
    using n by (simp add: txn_wf_def commit_void_def fdata_def layout_example_def)
qed

theorem txn_first_put_succeeds_witness:
  "\<exists>st. txn_put True layout_example mac_example (Some [1, 2, 3]) txn_store = (PICOKEYS_OK, st) \<and>
      txn_value st layout_example mac_example = Some [1, 2, 3]"
  by (rule txn_first_put_succeeds [OF txn_example(1-3) mac_example_ok txn_example(4-6)]) simp

text \<open>A first put whose commit record cannot be written loses nothing, and one that works stores the payload.\<close>

theorem txn_put_atomic_witness:
  "(case txn_put True layout_example mac_example (Some [1, 2]) (txn_store\<lparr>flash := [Done, Done, Failed PICOKEYS_ERR_NO_MEMORY None]\<rparr>) of
      (r, st) \<Rightarrow> txn_value st layout_example mac_example \<in> {None, Some [1, 2]}) \<and>
   (case txn_put True layout_example mac_example (Some [1, 2]) txn_store of
      (r, st) \<Rightarrow> txn_value st layout_example mac_example \<in> {None, Some [1, 2]})"
proof -
  let ?st = "txn_store\<lparr>flash := [Done, Done, Failed PICOKEYS_ERR_NO_MEMORY None]\<rparr>"
  have c: "file_search (ix ?st) = file_search (ix txn_store)" "content ?st = content txn_store" by simp_all
  have s: "store_inv ?st" "layout_ok ?st layout_example" "torn_ok ?st"
    using txn_example(1,2) by (simp_all add: store_inv_def layout_ok_def plain_def torn_ok_def)
  have none: "fdata st x = None" if "content st = (\<lambda>_. None)" for st x
    using that by (simp add: fdata_def split: option.split)
  have none: "fdata txn_store x = None" "fdata ?st x = None" for x
    by (auto intro!: none simp: txn_store_def)
  have void: "commit_void txn_store layout_example k" "commit_void ?st layout_example k" for k
    using none by (simp_all add: commit_void_def)
  have wf: "txn_wf txn_store layout_example mac_example" "txn_wf ?st layout_example mac_example"
    "txn_value txn_store layout_example mac_example = None" "txn_value ?st layout_example mac_example = None"
    using void by (simp_all add: txn_wf_def txn_value_def recover_void)
  show ?thesis
    using txn_put_atomic [OF txn_example(1,2,7) mac_example_ok(1) wf(1)] txn_put_atomic [OF s mac_example_ok(1) wf(2)] wf(3,4)
    by (fastforce split: prod.split)
qed

lemma stored_example:
  obtains st where "txn_put True layout_example mac_example (Some [1, 2]) txn_store = (PICOKEYS_OK, st)"
    "txn_recover st layout_example mac_example = Inr (live_state 0 1 [1, 2])" "txn_layout_valid st layout_example"
    "fs_search st (commit_fid layout_example ! 1) = None" "fs_search st (record_fid layout_example ! 1) = None"
    "flash st = []" "dynamic_files (ix st) + 2 \<le> MAX_DYNAMIC_FILES"
    "store_inv st" "layout_ok st layout_example" "torn_ok st" "txn_wf st layout_example mac_example"
    "txn_value st layout_example mac_example = Some [1, 2]"
proof -
  have one: "(0 :: byte) \<le> 1" "(1 :: u32) \<noteq> 0" by simp_all
  have f: "fs_search txn_store (commit_fid layout_example ! unat (0 :: byte)) = None"
    "fs_search txn_store (record_fid layout_example ! unat (0 :: byte)) = None"
    using txn_example(4) by (simp_all add: layout_example_def)
  have d0: "dynamic_files (ix txn_store) = 0" by (simp add: txn_store_def index_example_ok)
  obtain st where s: "put_steps True layout_example mac_example 0 1 [1, 2] txn_store = (PICOKEYS_OK, st)"
    "flash st = []" "dynamic_files (ix st) \<le> 2" "txn_layout_valid st layout_example"
    using put_steps_fresh [OF txn_example(1,2) one(1) mac_example_ok f txn_example(5,6), of "[1, 2]" 1] d0 txn_example(3) by auto
  note pl = put_steps_law [OF txn_example(1,2) one(1) txn_example(7) mac_example_ok(1) one(2) s(1)]
  have "content txn_store = (\<lambda>_. None)" by (simp add: txn_store_def)
  then have v: "commit_void txn_store layout_example k" for k
    by (simp add: commit_void_def fdata_def split: option.split)
  have r: "txn_recover st layout_example mac_example = Inr (live_state 0 1 [1, 2])"
    using recover_after_fresh(2) [OF txn_example(2) v v conjunct1 [OF pl] conjunct1 [OF conjunct2 [OF pl]]] pl by blast
  show thesis
  proof
    show "txn_put True layout_example mac_example (Some [1, 2]) txn_store = (PICOKEYS_OK, st)"
      using s(1) txn_example(3) recover_void [OF v v, of mac_example] by (simp add: txn_put_steps txn_next_state_def)
    show "store_inv st" "torn_ok st"
      using conjunct1 [OF pl] txn_example(6) by (auto simp: only_in_def torn_ok_def)
    show "layout_ok st layout_example" using layout_ok_keep [OF conjunct1 [OF pl]] txn_example(2) by simp
    show "txn_wf st layout_example mac_example" "txn_value st layout_example mac_example = Some [1, 2]"
      using r pl by (simp_all add: txn_wf_def txn_value_def)
    have "fs_search st x = fs_search txn_store x" if "plain txn_store x" "x \<notin> slot_files layout_example 0" for x
      using conjunct1 [OF pl] that by (simp add: only_in_def)
    then show "fs_search st (commit_fid layout_example ! 1) = None" "fs_search st (record_fid layout_example ! 1) = None"
      using txn_example(2,4) by (simp_all add: layout_ok_def layout_example_def slot_files_def)
    show "dynamic_files (ix st) + 2 \<le> MAX_DYNAMIC_FILES" using s(3) by (simp add: MAX_DYNAMIC_FILES_def)
  qed (use r s in simp_all)
qed

lemma stored_again:
  assumes "store_inv st" "layout_ok st layout_example" "txn_layout_valid st layout_example" "flash st = []"
    and "txn_recover st layout_example mac_example = Inr (live_state 0 1 [1, 2])"
    and "fs_search st (commit_fid layout_example ! 1) = None" "fs_search st (record_fid layout_example ! 1) = None"
    and "dynamic_files (ix st) + 2 \<le> MAX_DYNAMIC_FILES"
  obtains st' where "txn_put True layout_example mac_example (Some [3]) st = (PICOKEYS_OK, st')"
proof -
  have n: "txn_next_state st layout_example mac_example = Inr (1, 2)"
    using assms(5) by (simp add: txn_next_state_def)
  obtain st' where "put_steps True layout_example mac_example 1 2 [3] st = (PICOKEYS_OK, st')"
    using put_steps_fresh [OF assms(1,2) _ mac_example_ok _ _ assms(8,4), of 1 "[3]" 2] assms(6,7) by auto
  with n assms(3) show thesis by (intro that) (simp add: txn_put_steps)
qed

theorem txn_delete_atomic_witness:
  "\<exists>st. txn_value st layout_example mac_example = Some [1, 2] \<and>
     txn_value (snd (txn_delete layout_example mac_example st)) layout_example mac_example \<in> {Some [1, 2], None}"
proof -
  obtain st where s: "store_inv st" "layout_ok st layout_example" "torn_ok st" "txn_wf st layout_example mac_example"
    "txn_value st layout_example mac_example = Some [1, 2]"
    by (rule stored_example)
  from txn_delete_atomic [OF s(1,2,3) mac_example_ok(1) s(4)] s(5) show ?thesis
    by (metis prod.collapse)
qed

end
