(* ===== verification/Txn_Handles.thy ===== *)
theory Txn_Handles
  imports Object_Txn
begin

text \<open>
  The handle table of \<^verbatim>\<open>pico-keys-sdk/src/fs/object_store_txn.c\<close>: four entries, each with the layout and
  the version an object had when it was opened. Using a handle recovers the object again and refuses
  when another version is current. The validity of the authenticator pointers is not an argument:
  the model's MAC provider always has its functions. \<open>handle\<close> out parameters are 0 when a call fails.
\<close>

section \<open>Handles\<close>

record txn_handle_entry =
  th_layout :: txn_layout
  th_state :: txn_state
  th_token :: u32

record txn_handles =
  txn_entries :: "txn_handle_entry list"
  txn_next_handle :: u32

definition TXN_MAX_HANDLES :: nat where "TXN_MAX_HANDLES = 4"

definition txn_free_entry :: txn_handle_entry where
  "txn_free_entry = \<lparr>th_layout = \<lparr>l_namespace = 0, l_type = 0, l_object_id = 0, record_fid = [0, 0], commit_fid = [0, 0]\<rparr>,
     th_state = \<lparr>ts_generation = 0, ts_record_id = 0, ts_payload_size = 0, ts_commit_slot = 0, ts_record_slot = 0, ts_deleted = False\<rparr>,
     th_token = 0\<rparr>"

definition txn_no_handles :: txn_handles where
  "txn_no_handles = \<lparr>txn_entries = replicate TXN_MAX_HANDLES txn_free_entry, txn_next_handle = 1\<rparr>"

definition txn_find_handle :: "txn_handles \<Rightarrow> u32 \<Rightarrow> nat option" where
  "txn_find_handle hs handle =
     (if handle = 0 then None else find (\<lambda>i. th_token (txn_entries hs ! i) = handle) [0 ..< TXN_MAX_HANDLES])"

text \<open>The do-while loop; six rounds are enough for four entries and the reserved token 0.\<close>

definition txn_allocate_token :: "txn_handles \<Rightarrow> (u32 \<times> txn_handles) option" where
  "txn_allocate_token hs =
     map_option (\<lambda>(token, nxt). (token, hs\<lparr>txn_next_handle := nxt\<rparr>))
       (next_token (\<lambda>h. txn_find_handle hs h \<noteq> None) 6 (txn_next_handle hs))"

definition txn_resolve ::
    "file_store \<Rightarrow> 'c authenticator \<Rightarrow> txn_handles \<Rightarrow> u32 \<Rightarrow> pk_status + txn_handle_entry \<times> txn_state" where
  "txn_resolve st auth hs handle =
     (case txn_find_handle hs handle of
        None \<Rightarrow> Inl PICOKEYS_ERR_STALE_HANDLE
      | Some i \<Rightarrow>
          let current = txn_entries hs ! i in
          case txn_recover st (th_layout current) auth of
            Inl r \<Rightarrow> Inl (if invalid_record r then PICOKEYS_ERR_STALE_HANDLE else r)
          | Inr recovered \<Rightarrow>
              if ts_deleted recovered \<or> ts_generation recovered \<noteq> ts_generation (th_state current)
                 \<or> ts_record_id recovered \<noteq> ts_record_id (th_state current)
                 \<or> ts_record_slot recovered \<noteq> ts_record_slot (th_state current)
                 \<or> ts_payload_size recovered \<noteq> ts_payload_size (th_state current)
              then Inl PICOKEYS_ERR_STALE_HANDLE
              else Inr (current, recovered))"

definition txn_open ::
    "file_store \<Rightarrow> txn_layout \<Rightarrow> 'c authenticator \<Rightarrow> txn_handles \<Rightarrow> (pk_status \<times> u32 \<times> txn_handles) option" where
  "txn_open st layout auth hs =
     (if \<not> txn_layout_valid st layout then Some (PICOKEYS_ERR_NULL_PARAM, 0, hs)
      else case txn_recover st layout auth of
        Inl r \<Rightarrow> Some (r, 0, hs)
      | Inr state \<Rightarrow>
          if ts_deleted state then Some (PICOKEYS_ERR_FILE_NOT_FOUND, 0, hs)
          else case find (\<lambda>i. th_token (txn_entries hs ! i) = 0) [0 ..< TXN_MAX_HANDLES] of
                 None \<Rightarrow> Some (PICOKEYS_ERR_NO_MEMORY, 0, hs)
               | Some i \<Rightarrow>
                   map_option (\<lambda>(token, hs1).
                       (PICOKEYS_OK, token,
                        hs1\<lparr>txn_entries := (txn_entries hs1)
                          [i := \<lparr>th_layout = layout, th_state = state, th_token = token\<rparr>]\<rparr>))
                     (txn_allocate_token hs))"

definition txn_get_info :: "file_store \<Rightarrow> 'c authenticator \<Rightarrow> txn_handles \<Rightarrow> u32 \<Rightarrow> pk_status + u32 \<times> u32" where
  "txn_get_info st auth hs handle =
     (case txn_resolve st auth hs handle of
        Inl r \<Rightarrow> Inl r
      | Inr (entry, state) \<Rightarrow> Inr (ts_payload_size state, ts_generation state))"

definition txn_read_at ::
    "file_store \<Rightarrow> 'c authenticator \<Rightarrow> txn_handles \<Rightarrow> u32 \<Rightarrow> u32 \<Rightarrow> nat \<Rightarrow> pk_status \<times> byte list" where
  "txn_read_at st auth hs handle offset n =
     (case txn_resolve st auth hs handle of
        Inl r \<Rightarrow> (r, [])
      | Inr (entry, state) \<Rightarrow>
          if ts_payload_size state < offset \<or> unat (ts_payload_size state - offset) < n then (PICOKEYS_WRONG_LENGTH, [])
          else file_read_at st (fs_search st (record_fid (th_layout entry) ! unat (ts_record_slot state)))
                 (TXN_RECORD_HEADER_SIZE + unat offset) n)"

definition txn_close :: "u32 \<Rightarrow> txn_handles \<Rightarrow> pk_status \<times> txn_handles" where
  "txn_close handle hs =
     (case txn_find_handle hs handle of
        None \<Rightarrow> (PICOKEYS_ERR_STALE_HANDLE, hs)
      | Some i \<Rightarrow> (PICOKEYS_OK, hs\<lparr>txn_entries := (txn_entries hs)[i := txn_free_entry]\<rparr>))"

section \<open>Tokens\<close>

definition txn_tokens :: "txn_handles \<Rightarrow> u32 set" where
  "txn_tokens hs = {t. t \<noteq> 0 \<and> t \<in> th_token ` set (txn_entries hs)}"

definition txn_handles_inv :: "txn_handles \<Rightarrow> bool" where
  "txn_handles_inv hs \<longleftrightarrow> length (txn_entries hs) = TXN_MAX_HANDLES \<and>
     distinct (filter (\<lambda>t. t \<noteq> 0) (map th_token (txn_entries hs)))"

lemma find_handle_iff:
  "txn_find_handle hs h = Some i \<longleftrightarrow>
     h \<noteq> 0 \<and> i < TXN_MAX_HANDLES \<and> th_token (txn_entries hs ! i) = h \<and> (\<forall>j < i. th_token (txn_entries hs ! j) \<noteq> h)"
  by (auto simp: txn_find_handle_def find_Some_iff)

lemma find_handle_tokens:
  assumes "length (txn_entries hs) = TXN_MAX_HANDLES"
  shows "txn_find_handle hs h \<noteq> None \<longleftrightarrow> h \<in> txn_tokens hs"
proof -
  have "txn_find_handle hs h \<noteq> None \<longleftrightarrow> h \<noteq> 0 \<and> (\<exists>i < TXN_MAX_HANDLES. th_token (txn_entries hs ! i) = h)"
    by (auto simp: txn_find_handle_def find_None_iff simp del: not_None_eq)
  also have "\<dots> \<longleftrightarrow> h \<in> txn_tokens hs"
    using assms by (auto simp: txn_tokens_def in_set_conv_nth image_iff) (metis nth_mem)
  finally show ?thesis .
qed

lemma txn_tokens_finite: "finite (txn_tokens hs)" "card (txn_tokens hs) \<le> length (txn_entries hs)"
proof -
  have s: "txn_tokens hs \<subseteq> th_token ` set (txn_entries hs)" by (auto simp: txn_tokens_def)
  then show "finite (txn_tokens hs)" by (rule finite_subset) simp
  have "card (txn_tokens hs) \<le> card (th_token ` set (txn_entries hs))" by (rule card_mono [OF _ s]) simp
  also have "\<dots> \<le> length (txn_entries hs)" by (meson card_image_le card_length finite_set le_trans)
  finally show "card (txn_tokens hs) \<le> length (txn_entries hs)" .
qed

lemma txn_allocate_law:
  assumes "length (txn_entries hs) = TXN_MAX_HANDLES"
  obtains t n where "txn_allocate_token hs = Some (t, hs\<lparr>txn_next_handle := n\<rparr>)" "t \<noteq> 0" "t \<notin> txn_tokens hs"
proof -
  have "card (txn_tokens hs) + 1 < 6" using txn_tokens_finite(2) [of hs] assms by (simp add: TXN_MAX_HANDLES_def)
  then obtain t n where n: "next_token (\<lambda>h. txn_find_handle hs h \<noteq> None) 6 (txn_next_handle hs) = Some (t, n)"
    by (rule next_token_some [OF txn_tokens_finite(1), where used = "\<lambda>h. txn_find_handle hs h \<noteq> None" and n = 6])
      (use find_handle_tokens [OF assms] in auto)
  with next_token_law [OF n] find_handle_tokens [OF assms, of t] show thesis
    by (intro that [of t n]) (auto simp: txn_allocate_token_def)
qed

lemma txn_open_cases:
  assumes "length (txn_entries hs) = TXN_MAX_HANDLES"
  obtains (refused) r where "txn_open st layout auth hs = Some (r, 0, hs)"
      "r \<noteq> PICOKEYS_OK \<or> txn_recover st layout auth = Inl r" "\<not> txn_layout_valid st layout \<or>
       (\<forall>s. txn_recover st layout auth = Inr s \<longrightarrow> \<not> ts_deleted s \<longrightarrow> 0 \<notin> th_token ` set (txn_entries hs))"
    | (opened) i t s n where "i < TXN_MAX_HANDLES" "th_token (txn_entries hs ! i) = 0" "t \<noteq> 0" "t \<notin> txn_tokens hs"
      "txn_recover st layout auth = Inr s" "\<not> ts_deleted s"
      "txn_open st layout auth hs = Some (PICOKEYS_OK, t,
         hs\<lparr>txn_next_handle := n, txn_entries := (txn_entries hs)[i := \<lparr>th_layout = layout, th_state = s, th_token = t\<rparr>]\<rparr>)"
proof -
  obtain t n where t: "txn_allocate_token hs = Some (t, hs\<lparr>txn_next_handle := n\<rparr>)" "t \<noteq> 0" "t \<notin> txn_tokens hs"
    by (rule txn_allocate_law [OF assms])
  consider (invalid) "\<not> txn_layout_valid st layout"
    | (lost) r where "txn_layout_valid st layout" "txn_recover st layout auth = Inl r"
    | (dead) s where "txn_layout_valid st layout" "txn_recover st layout auth = Inr s" "ts_deleted s"
    | (live) s where "txn_layout_valid st layout" "txn_recover st layout auth = Inr s" "\<not> ts_deleted s"
    by (cases "txn_recover st layout auth") blast+
  then show thesis
  proof cases
    case (live s)
    show thesis
    proof (cases "find (\<lambda>i. th_token (txn_entries hs ! i) = 0) [0 ..< TXN_MAX_HANDLES]")
      case None
      then have "0 \<notin> th_token ` set (txn_entries hs)" using assms by (auto simp: find_None_iff in_set_conv_nth)
      with live None show thesis by (intro refused [of PICOKEYS_ERR_NO_MEMORY]) (auto simp: txn_open_def)
    next
      case (Some i)
      then have "i < TXN_MAX_HANDLES" "th_token (txn_entries hs ! i) = 0" by (auto simp: find_Some_iff)
      with live Some t show thesis by (intro opened [of i t s n]) (auto simp: txn_open_def)
    qed
  qed (rule refused, auto simp: txn_open_def)+
qed

lemma txn_open_tokens:
  assumes "i < TXN_MAX_HANDLES" "length (txn_entries hs) = TXN_MAX_HANDLES" "th_token (txn_entries hs ! i) = 0"
  shows "set (filter (\<lambda>t. t \<noteq> 0) (map th_token ((txn_entries hs)[i := e]))) \<subseteq> insert (th_token e) (txn_tokens hs)"
  using set_update_subset_insert [of "txn_entries hs" i e] by (auto simp: txn_tokens_def)

text \<open>Changing one entry of a table of tokens.\<close>

lemma distinct_nonzero_update:
  assumes "distinct (filter (\<lambda>t. t \<noteq> 0) xs)" "x = 0 \<or> x \<notin> set xs"
  shows "distinct (filter (\<lambda>t. t \<noteq> (0 :: u32)) (xs[i := x]))"
proof (cases "i < length xs")
  case True
  have "filter (\<lambda>t. t \<noteq> 0) xs = filter (\<lambda>t. t \<noteq> 0) (take i xs) @ filter (\<lambda>t. t \<noteq> 0) (xs ! i # drop (Suc i) xs)"
    using True by (metis Cons_nth_drop_Suc append_take_drop_id filter_append)
  moreover have "set (take i xs) \<subseteq> set xs" "set (drop (Suc i) xs) \<subseteq> set xs"
    by (rule set_take_subset, rule set_drop_subset)
  ultimately show ?thesis
    using assms True by (auto simp: upd_conv_take_nth_drop split: if_splits)
qed (use assms in \<open>simp add: list_update_beyond\<close>)

section \<open>Reading through a handle\<close>

lemma bslice_bslice: "off + n \<le> m \<Longrightarrow> bslice (k + off) n d = bslice off n (bslice k m d)"
  by (simp add: bslice_def drop_take min_def add.commute)

lemma read_at_state:
  assumes "txn_find_handle hs h = Some i" "txn_entries hs ! i = \<lparr>th_layout = layout, th_state = s, th_token = h\<rparr>"
    and "txn_recover st layout auth = Inr s" "\<not> ts_deleted s" "txn_payload st layout s = Some data"
  shows "txn_read_at st auth hs h offset n =
     (if unat offset + n \<le> length data then (PICOKEYS_OK, bslice (unat offset) n data) else (PICOKEYS_WRONG_LENGTH, []))"
    "txn_get_info st auth hs h = Inr (ts_payload_size s, ts_generation s)"
proof -
  obtain d where d: "fdata st (record_fid layout ! unat (ts_record_slot s)) = Some d" "length d = 48 + unat (ts_payload_size s)"
    by (rule live_record [OF assms(3,4)])
  have data: "data = bslice 32 (unat (ts_payload_size s)) d" "length data = unat (ts_payload_size s)"
    using assms(4,5) d by (auto simp: txn_payload_def bslice_def)
  have r: "txn_resolve st auth hs h = Inr (txn_entries hs ! i, s)"
    using assms by (simp add: txn_resolve_def)
  show "txn_get_info st auth hs h = Inr (ts_payload_size s, ts_generation s)" by (simp add: txn_get_info_def r)
  show "txn_read_at st auth hs h offset n =
     (if unat offset + n \<le> length data then (PICOKEYS_OK, bslice (unat offset) n data) else (PICOKEYS_WRONG_LENGTH, []))"
  proof (cases "ts_payload_size s < offset")
    case True
    then show ?thesis using data(2) by (simp add: txn_read_at_def r word_less_nat_alt)
  next
    case False
    then have u: "unat (ts_payload_size s - offset) = unat (ts_payload_size s) - unat offset" "unat offset \<le> unat (ts_payload_size s)"
      by (simp_all add: unat_sub word_le_nat_alt not_less)
    have b: "bslice (32 + unat offset) n d = bslice (unat offset) n data" if "unat offset + n \<le> length data"
      using bslice_bslice [of "unat offset" n _ 32 d] that data by simp
    show ?thesis
      using False u d data(2) b assms(2) by (auto simp: txn_read_at_def r read_fdata txn_consts)
  qed
qed

text \<open>Opening and closing keep the table.\<close>

lemma handles_stay_unique:
  assumes "txn_handles_inv hs"
  shows "(\<exists>r h hs'. txn_open st layout auth hs = Some (r, h, hs') \<and> txn_handles_inv hs' \<and>
           (h \<noteq> 0 \<longrightarrow> h \<notin> txn_tokens hs)) \<and> txn_handles_inv (snd (txn_close handle hs))"
proof (intro conjI)
  have l: "length (txn_entries hs) = TXN_MAX_HANDLES" using assms by (simp add: txn_handles_inv_def)
  show "\<exists>r h hs'. txn_open st layout auth hs = Some (r, h, hs') \<and> txn_handles_inv hs' \<and> (h \<noteq> 0 \<longrightarrow> h \<notin> txn_tokens hs)"
  proof (cases rule: txn_open_cases [OF l, of st layout auth, case_names refused opened])
    case (refused r)
    with assms show ?thesis by auto
  next
    case (opened i t s n)
    then have "t \<notin> set (map th_token (txn_entries hs))" by (auto simp: txn_tokens_def)
    with assms opened show ?thesis
      by (auto simp: txn_handles_inv_def map_update intro: distinct_nonzero_update)
  qed
  show "txn_handles_inv (snd (txn_close handle hs))"
    using assms by (auto simp: txn_close_def txn_handles_inv_def map_update txn_free_entry_def
        intro: distinct_nonzero_update split: option.split)
qed

section \<open>Properties\<close>

text \<open>C39: tokens stay unique: opening and closing keep the table's four entries and never hand out or leave
  two equal handles; opening always returns.\<close>

theorem txn_handles_stay_unique:
  assumes "txn_handles_inv hs"
  shows "(\<exists>r h hs'. txn_open st layout auth hs = Some (r, h, hs') \<and> txn_handles_inv hs' \<and>
           (h \<noteq> 0 \<longrightarrow> h \<notin> txn_tokens hs)) \<and> txn_handles_inv (snd (txn_close handle hs))"
  using assms by (rule handles_stay_unique)

lemma no_handles_ok: "txn_handles_inv txn_no_handles" "length (txn_entries txn_no_handles) = TXN_MAX_HANDLES"
    "0 \<in> th_token ` set (txn_entries txn_no_handles)"
  by (simp_all add: txn_handles_inv_def txn_no_handles_def txn_free_entry_def TXN_MAX_HANDLES_def)

theorem txn_handles_stay_unique_witness:
  "txn_handles_inv (snd (txn_close 1 txn_no_handles)) \<and>
   (\<exists>r h hs. txn_open txn_store layout_example mac_example txn_no_handles = Some (r, h, hs) \<and> txn_handles_inv hs)"
  using txn_handles_stay_unique [OF no_handles_ok(1)] by blast

text \<open>C23: an object with a current version can be opened while one of the four handles is free, and reading
  through the handle yields exactly the slices of its payload; reads past its end are refused.\<close>

theorem txn_open_then_read:
  assumes "txn_layout_valid st layout" "txn_value st layout auth = Some data"
    and "length (txn_entries hs) = TXN_MAX_HANDLES" "0 \<in> th_token ` set (txn_entries hs)"
  shows "\<exists>h hs'. txn_open st layout auth hs = Some (PICOKEYS_OK, h, hs') \<and>
     (\<forall>offset n. txn_read_at st auth hs' h offset n =
        (if unat offset + n \<le> length data then (PICOKEYS_OK, bslice (unat offset) n data) else (PICOKEYS_WRONG_LENGTH, [])))"
proof -
  obtain s where s: "txn_recover st layout auth = Inr s" "\<not> ts_deleted s" "txn_payload st layout s = Some data"
    using assms(2) by (auto simp: txn_value_def txn_payload_def split: sum.splits if_splits)
  show ?thesis
  proof (cases rule: txn_open_cases [OF assms(3), of st layout auth, case_names refused opened])
    case (refused r)
    with assms(1,4) s show ?thesis by auto
  next
    case (opened i t s' n)
    let ?hs = "hs\<lparr>txn_next_handle := n, txn_entries := (txn_entries hs)[i := \<lparr>th_layout = layout, th_state = s', th_token = t\<rparr>]\<rparr>"
    have "th_token (txn_entries hs ! j) \<noteq> t" if "j < i" for j
      using opened that assms(3) by (auto simp: txn_tokens_def image_iff)
    then have "txn_find_handle ?hs t = Some i" "txn_entries ?hs ! i = \<lparr>th_layout = layout, th_state = s', th_token = t\<rparr>"
      using opened assms(3) by (auto simp: find_handle_iff)
    from read_at_state(1) [OF this opened(5,6)] opened(5,7) s show ?thesis by auto
  qed
qed

text \<open>Putting an object again makes the handles opened on its earlier version stale: reading through
  them is refused.\<close>

theorem txn_put_makes_stale:
  assumes "store_inv st" "layout_ok st layout" "torn_ok st" "mac_ok auth" "txn_wf st layout auth"
    and "txn_put mem_ok layout auth (Some data) st = (PICOKEYS_OK, st')"
    and "txn_resolve st auth hs h = Inr (entry, s)" "th_layout entry = layout"
  shows "txn_read_at st' auth hs h offset n = (PICOKEYS_ERR_STALE_HANDLE, []) \<and>
         txn_get_info st' auth hs h = Inl PICOKEYS_ERR_STALE_HANDLE"
proof -
  obtain slot g where sg: "txn_next_state st layout auth = Inr (slot, g)" "txn_recover st' layout auth = Inr (live_state slot g data)"
    using put_ok_state [OF assms(1-6)] by blast
  obtain i where i: "txn_find_handle hs h = Some i" "txn_entries hs ! i = entry" "txn_recover st layout auth = Inr s"
    "ts_generation s = ts_generation (th_state entry)"
    using assms(7,8) by (auto simp: txn_resolve_def Let_def split: option.splits sum.splits if_splits)
  then have "g \<noteq> ts_generation (th_state entry)"
    using sg(1) by (auto simp: txn_next_state_def split: if_splits)
  then have "txn_resolve st' auth hs h = Inl PICOKEYS_ERR_STALE_HANDLE"
    using i sg(2) assms(8) by (simp add: txn_resolve_def)
  then show ?thesis by (simp add: txn_read_at_def txn_get_info_def)
qed

theorem txn_open_then_read_witness:
  "\<exists>st h hs. txn_open st layout_example mac_example txn_no_handles = Some (PICOKEYS_OK, h, hs) \<and>
     txn_read_at st mac_example hs h 1 1 = (PICOKEYS_OK, [2]) \<and>
     txn_read_at st mac_example hs h 1 2 = (PICOKEYS_WRONG_LENGTH, [])"
proof -
  obtain st where s: "txn_layout_valid st layout_example" "txn_value st layout_example mac_example = Some [1, 2]"
    by (rule stored_example)
  from txn_open_then_read [OF s no_handles_ok(2,3)] show ?thesis
    by (fastforce simp: bslice_def)
qed

theorem txn_put_makes_stale_witness:
  "\<exists>st st' hs h. txn_put True layout_example mac_example (Some [3]) st = (PICOKEYS_OK, st') \<and>
     txn_read_at st' mac_example hs h 0 1 = (PICOKEYS_ERR_STALE_HANDLE, [])"
proof -
  obtain st where s: "txn_recover st layout_example mac_example = Inr (live_state 0 1 [1, 2])" "txn_layout_valid st layout_example"
    "fs_search st (commit_fid layout_example ! 1) = None" "fs_search st (record_fid layout_example ! 1) = None"
    "flash st = []" "dynamic_files (ix st) + 2 \<le> MAX_DYNAMIC_FILES"
    "store_inv st" "layout_ok st layout_example" "torn_ok st" "txn_wf st layout_example mac_example"
    by (rule stored_example)
  obtain st' where p: "txn_put True layout_example mac_example (Some [3]) st = (PICOKEYS_OK, st')"
    by (rule stored_again [OF s(7,8,2,5,1,3,4,6)])
  let ?e = "\<lparr>th_layout = layout_example, th_state = live_state 0 1 [1, 2], th_token = 5\<rparr>"
  let ?hs = "\<lparr>txn_entries = [?e, txn_free_entry, txn_free_entry, txn_free_entry], txn_next_handle = 6\<rparr>"
  have "txn_find_handle ?hs 5 = Some 0" by (simp add: find_handle_iff TXN_MAX_HANDLES_def)
  then have "txn_resolve st mac_example ?hs 5 = Inr (?e, live_state 0 1 [1, 2])"
    using s(1) by (simp add: txn_resolve_def)
  from txn_put_makes_stale [OF s(7-9) mac_example_ok(1) s(10) p this, of 0 1] p show ?thesis by auto
qed

end
