(* ===== verification/Object_Container.thy ===== *)
theory Object_Container
  imports Txn_Handles
begin

text \<open>
  Object containers, \<^verbatim>\<open>pico-keys-sdk/src/fs/object_container.c\<close>: the manifest that lists a container's
  objects, authenticated by a MAC over all its bytes; the framing of one object record and the
  additional data it is sealed with; the allocator of record identifiers, which keeps its high-water
  mark in a transactional object.

  An output buffer is the number of bytes it has left, and the bytes a call appends are returned.
  The array of eight descriptors in a manifest is a list; \<open>object\<close>, the union's other name for its
  first element, is that element. The record protector (an AEAD) is a parameter. The authenticator's \<open>abort\<close>,
  which only drops a MAC computation after an error, is left out.
\<close>

section \<open>Manifests\<close>

record file_object_descriptor =
  object_type :: u16
  object_tag :: u16
  d_generation :: u32
  logical_size :: u32
  record_id :: u64
  stored_size :: u32
  policy_id :: u16
  key_domain :: byte
  protection :: byte
  d_flags :: u16
  d_extension_offset :: u16
  d_extension_size :: u16
  transaction_group :: u16

record file_object_manifest =
  m_flags :: u16
  namespace_id :: u16
  container_kind :: u16
  container_id :: u32
  m_generation :: u32
  previous_generation :: u32
  m_extension_offset :: u16
  m_extension_size :: u16
  total_size :: u16
  object_count :: u16
  has_object :: bool
  objects :: "file_object_descriptor list"

definition MAX_OBJECTS :: nat where "MAX_OBJECTS = 8"
definition MANIFEST_HEADER_SIZE :: nat where "MANIFEST_HEADER_SIZE = 32"
definition DESCRIPTOR_SIZE :: nat where "DESCRIPTOR_SIZE = 36"
definition EXTENSION_HEADER_SIZE :: nat where "EXTENSION_HEADER_SIZE = 4"

lemmas container_consts = MAX_OBJECTS_def MANIFEST_HEADER_SIZE_def DESCRIPTOR_SIZE_def EXTENSION_HEADER_SIZE_def AUTH_TAG_SIZE_def

definition manifest_magic :: "byte list" where "manifest_magic = [0x50, 0x4B, 0x4F, 0x43]"
definition record_magic_r :: "byte list" where "record_magic_r = [0x50, 0x4B, 0x4F, 0x52]"
definition record_id_magic :: "byte list" where "record_id_magic = [0x50, 0x4B, 0x52, 0x49]"

definition FLAG_MASK :: u16 where "FLAG_MASK = 0x3f"
definition FLAG_INLINE :: u16 where "FLAG_INLINE = 1"
definition FLAG_TRANSACTION_GROUP :: u16 where "FLAG_TRANSACTION_GROUP = 0x10"

definition manifest_authenticate :: "'c authenticator \<Rightarrow> byte list \<Rightarrow> pk_status + byte list" where
  "manifest_authenticate auth data =
     (case au_start auth of Inl e \<Rightarrow> Inl e
      | Inr c \<Rightarrow> (case au_update auth c data of Inl e \<Rightarrow> Inl e | Inr c' \<Rightarrow> au_finish auth c'))"

definition descriptor_core_valid :: "file_object_descriptor \<Rightarrow> bool" where
  "descriptor_core_valid object \<longleftrightarrow>
     object_type object \<noteq> 0 \<and> object_type object \<noteq> 0xffff \<and> d_generation object \<noteq> 0 \<and> record_id object \<noteq> 0
     \<and> 1 \<le> protection object \<and> protection object \<le> 3 \<and> d_flags object AND NOT FLAG_MASK = 0
     \<and> d_flags object AND FLAG_INLINE = 0
     \<and> (d_flags object AND FLAG_TRANSACTION_GROUP \<noteq> 0) = (transaction_group object \<noteq> 0)
     \<and> (d_extension_offset object = 0) = (d_extension_size object = 0)"

definition descriptor_valid :: "file_object_descriptor \<Rightarrow> u16 \<Rightarrow> u16 \<Rightarrow> bool" where
  "descriptor_valid object extension_start extension_end \<longleftrightarrow>
     descriptor_core_valid object \<and>
     \<not> (0 < d_extension_size object \<and>
        (d_extension_offset object < extension_start \<or> extension_end < d_extension_offset object
         \<or> unat extension_end - unat (d_extension_offset object) < unat (d_extension_size object)))"

definition descriptors_valid :: "file_object_descriptor list \<Rightarrow> nat \<Rightarrow> u16 \<Rightarrow> u16 \<Rightarrow> bool" where
  "descriptors_valid objs n extension_start extension_end \<longleftrightarrow>
     list_all (\<lambda>i. descriptor_valid (objs ! i) extension_start extension_end \<and>
        (0 < i \<longrightarrow> \<not> (object_type (objs ! i) < object_type (objs ! (i - 1))
           \<or> object_type (objs ! (i - 1)) = object_type (objs ! i) \<and> object_tag (objs ! i) \<le> object_tag (objs ! (i - 1)))))
       [0 ..< n]"

text \<open>The list of extensions; \<open>supported\<close> is the caller's predicate, never true when it passed none.\<close>

function extensions_validate :: "(byte \<Rightarrow> bool) \<Rightarrow> byte list \<Rightarrow> pk_status" where
  "extensions_validate supported extensions =
     (if extensions = [] then PICOKEYS_OK
      else if length extensions < EXTENSION_HEADER_SIZE then PICOKEYS_WRONG_DATA
      else let kind = extensions ! 0; flags = extensions ! 1; value_size = unat (get_uint16_be (drop 2 extensions)) in
        if kind = 0 \<or> flags AND NOT 1 \<noteq> 0 \<or> length extensions - EXTENSION_HEADER_SIZE < value_size
        then PICOKEYS_WRONG_DATA
        else if flags AND 1 \<noteq> 0 \<and> \<not> supported kind then PICOKEYS_WRONG_DATA
        else extensions_validate supported (drop (EXTENSION_HEADER_SIZE + value_size) extensions))"
  by pat_completeness auto
termination
  by (relation "measure (\<lambda>(supported, extensions). length extensions)") (auto simp: EXTENSION_HEADER_SIZE_def)

declare extensions_validate.simps [simp del]

definition extension_accept_all :: "byte \<Rightarrow> bool" where
  "extension_accept_all kind = True"

definition descriptor_encode :: "file_object_descriptor \<Rightarrow> byte list" where
  "descriptor_encode object =
     put_uint16_be (object_type object) @ put_uint16_be (object_tag object)
       @ put_uint32_be (d_generation object) @ put_uint32_be (logical_size object)
       @ put_uint64_be (record_id object) @ put_uint32_be (stored_size object)
       @ put_uint16_be (policy_id object) @ [key_domain object, protection object]
       @ put_uint16_be (d_flags object) @ put_uint16_be (d_extension_offset object)
       @ put_uint16_be (d_extension_size object) @ put_uint16_be (transaction_group object)"

definition descriptor_decode :: "byte list \<Rightarrow> file_object_descriptor" where
  "descriptor_decode data =
     \<lparr>object_type = get_uint16_be data, object_tag = get_uint16_be (drop 2 data),
      d_generation = get_uint32_be (drop 4 data), logical_size = get_uint32_be (drop 8 data),
      record_id = get_uint64_be (drop 12 data), stored_size = get_uint32_be (drop 20 data),
      policy_id = get_uint16_be (drop 24 data), key_domain = data ! 26, protection = data ! 27,
      d_flags = get_uint16_be (drop 28 data), d_extension_offset = get_uint16_be (drop 30 data),
      d_extension_size = get_uint16_be (drop 32 data), transaction_group = get_uint16_be (drop 34 data)\<rparr>"

definition zero_descriptor :: file_object_descriptor where
  "zero_descriptor = descriptor_decode (replicate 36 0)"

text \<open>The extensions of each object, checked one after the other; the first failure is answered.\<close>

fun object_extensions_validate :: "(byte \<Rightarrow> bool) \<Rightarrow> byte list \<Rightarrow> nat \<Rightarrow> file_object_descriptor list \<Rightarrow> pk_status" where
  "object_extensions_validate supported data base [] = PICOKEYS_OK"
| "object_extensions_validate supported data base (object # objs) =
     (let r = if 0 < d_extension_size object
              then extensions_validate supported
                     (bslice (unat (d_extension_offset object) - base) (unat (d_extension_size object)) data)
              else PICOKEYS_OK
      in if r \<noteq> PICOKEYS_OK then r else object_extensions_validate supported data base objs)"

definition build_count :: "file_object_manifest \<Rightarrow> nat" where
  "build_count manifest =
     (if object_count manifest = 0 \<and> has_object manifest then 1 else unat (object_count manifest))"

definition manifest_header :: "file_object_manifest \<Rightarrow> nat \<Rightarrow> nat \<Rightarrow> nat \<Rightarrow> byte list" where
  "manifest_header manifest n extensions_size tsize =
     manifest_magic @ [1, 32] @ put_uint16_be (m_flags manifest) @ put_uint16_be (namespace_id manifest)
       @ put_uint16_be (container_kind manifest) @ put_uint32_be (container_id manifest)
       @ put_uint32_be (m_generation manifest) @ put_uint32_be (previous_generation manifest)
       @ put_uint16_be (of_nat n) @ [36, 0] @ put_uint16_be (of_nat extensions_size) @ put_uint16_be (of_nat tsize)"

definition manifest_build ::
    "file_object_manifest \<Rightarrow> byte list option \<Rightarrow> 'c authenticator \<Rightarrow> nat \<Rightarrow> pk_status + byte list" where
  "manifest_build manifest extensions_opt auth room =
     (if extensions_opt = None \<or> 0xffff < length (the extensions_opt) then Inl PICOKEYS_ERR_NULL_PARAM
      else let extensions = the extensions_opt; extensions_size = length extensions; n = build_count manifest in
        if MAX_OBJECTS < n then Inl PICOKEYS_WRONG_DATA
        else let descriptor_bytes = n * DESCRIPTOR_SIZE;
                 tsize = MANIFEST_HEADER_SIZE + descriptor_bytes + extensions_size + AUTH_TAG_SIZE in
          if m_generation manifest = 0 \<or> m_generation manifest \<le> previous_generation manifest then Inl PICOKEYS_WRONG_DATA
          else if 0xffff < tsize \<or> room < tsize then Inl PICOKEYS_WRONG_LENGTH
          else let start = MANIFEST_HEADER_SIZE + descriptor_bytes in
            if \<not> descriptors_valid (objects manifest) n (of_nat start) (of_nat (start + extensions_size))
            then Inl PICOKEYS_WRONG_DATA
            else let r = extensions_validate extension_accept_all extensions;
                     r2 = object_extensions_validate extension_accept_all extensions start (take n (objects manifest)) in
              if r \<noteq> PICOKEYS_OK then Inl r
              else if r2 \<noteq> PICOKEYS_OK then Inl r2
              else let data = manifest_header manifest n extensions_size tsize
                              @ concat (map descriptor_encode (take n (objects manifest))) @ extensions in
                case manifest_authenticate auth data of Inl e \<Rightarrow> Inl e | Inr tag \<Rightarrow> Inr (data @ tag))"

definition manifest_parse ::
    "byte list option \<Rightarrow> 'c authenticator \<Rightarrow> (byte \<Rightarrow> bool) \<Rightarrow> pk_status + file_object_manifest" where
  "manifest_parse data_opt auth supported =
     (case data_opt of None \<Rightarrow> Inl PICOKEYS_ERR_NULL_PARAM
      | Some data \<Rightarrow>
        if length data < MANIFEST_HEADER_SIZE + AUTH_TAG_SIZE \<or> 0xffff < length data then Inl PICOKEYS_WRONG_LENGTH
        else let n = unat (get_uint16_be (drop 24 data)); extensions_size = unat (get_uint16_be (drop 28 data));
                 tsize = unat (get_uint16_be (drop 30 data)) in
          if take 4 data \<noteq> manifest_magic \<or> data ! 4 \<noteq> 1 \<or> data ! 5 \<noteq> 32 \<or> MAX_OBJECTS < n
             \<or> data ! 26 \<noteq> 36 \<or> data ! 27 \<noteq> 0 \<or> tsize \<noteq> length data
          then Inl PICOKEYS_WRONG_DATA
          else if MANIFEST_HEADER_SIZE + n * DESCRIPTOR_SIZE + extensions_size + AUTH_TAG_SIZE \<noteq> length data
          then Inl PICOKEYS_WRONG_DATA
          else case manifest_authenticate auth (take (length data - AUTH_TAG_SIZE) data) of
            Inl e \<Rightarrow> Inl e
          | Inr tag \<Rightarrow>
            if \<not> tag_equal tag (drop (length data - AUTH_TAG_SIZE) data) then Inl PICOKEYS_WRONG_SIGNATURE
            else let start = MANIFEST_HEADER_SIZE + n * DESCRIPTOR_SIZE;
                     r = extensions_validate supported (bslice start extensions_size data) in
              if r \<noteq> PICOKEYS_OK then Inl r
              else let generation = get_uint32_be (drop 16 data); previous = get_uint32_be (drop 20 data);
                       objs = map (\<lambda>i. descriptor_decode (drop (MANIFEST_HEADER_SIZE + i * DESCRIPTOR_SIZE) data)) [0 ..< n]
                   in if generation = 0 \<or> generation \<le> previous then Inl PICOKEYS_WRONG_DATA
                      else if \<not> descriptors_valid objs n (of_nat start) (of_nat (start + extensions_size))
                      then Inl PICOKEYS_WRONG_DATA
                      else let r2 = object_extensions_validate supported data 0 objs in
                        if r2 \<noteq> PICOKEYS_OK then Inl r2
                        else Inr \<lparr>m_flags = get_uint16_be (drop 6 data), namespace_id = get_uint16_be (drop 8 data),
                                  container_kind = get_uint16_be (drop 10 data), container_id = get_uint32_be (drop 12 data),
                                  m_generation = generation, previous_generation = previous,
                                  m_extension_offset = of_nat start, m_extension_size = of_nat extensions_size,
                                  total_size = of_nat tsize, object_count = of_nat n, has_object = (0 < n),
                                  objects = objs @ replicate (MAX_OBJECTS - n) zero_descriptor\<rparr>)"

section \<open>Records\<close>

record file_object_record_info =
  i_record_id :: u64
  i_stored_size :: u32
  i_logical_size :: u32
  i_generation :: u32
  i_protection :: byte
  i_payload_offset :: u32
  i_tag_offset :: u32

record file_object_record_identity =
  r_namespace_id :: u16
  r_container_kind :: u16
  r_container_id :: u32
  r_object_type :: u16
  r_object_tag :: u16
  r_generation :: u32
  r_logical_size :: u32
  r_policy_id :: u16
  r_policy_hash :: "byte list"
  r_key_domain :: byte
  r_protection :: byte
  r_flags :: u16
  r_record_id :: u64

text \<open>\<open>seal\<close>: identity, nonce, additional data and plaintext to stored bytes and tag.\<close>

record record_protector =
  pr_seal :: "file_object_record_identity \<Rightarrow> byte list \<Rightarrow> byte list \<Rightarrow> byte list \<Rightarrow> pk_status + byte list \<times> byte list"
  pr_unseal :: "file_object_record_identity \<Rightarrow> byte list \<Rightarrow> byte list \<Rightarrow> byte list \<Rightarrow> byte list \<Rightarrow> pk_status + byte list"

definition RECORD_HEADER_SIZE :: nat where "RECORD_HEADER_SIZE = 40"

text \<open>The microcontrollers have 32-bit sizes.\<close>

definition SIZE_MAX :: nat where "SIZE_MAX = 2 ^ 32 - 1"

definition record_nonce :: "file_object_descriptor \<Rightarrow> byte list" where
  "record_nonce object = put_uint64_be (record_id object) @ put_uint32_be (d_generation object)"

definition record_header_build :: "file_object_descriptor \<Rightarrow> pk_status + byte list" where
  "record_header_build object =
     (if \<not> descriptor_core_valid object then Inl PICOKEYS_WRONG_DATA
      else Inr (record_magic_r @ [1, protection object] @ put_uint16_be 40 @ put_uint64_be (record_id object)
                @ put_uint32_be (stored_size object) @ put_uint32_be (logical_size object)
                @ put_uint32_be (d_generation object) @ record_nonce object))"

definition record_header_parse ::
    "byte list option \<Rightarrow> file_object_descriptor \<Rightarrow> pk_status + file_object_record_info" where
  "record_header_parse record_opt object =
     (case record_opt of None \<Rightarrow> Inl PICOKEYS_ERR_NULL_PARAM
      | Some rec \<Rightarrow>
        if \<not> descriptor_core_valid object then Inl PICOKEYS_WRONG_DATA
        else if length rec < RECORD_HEADER_SIZE + AUTH_TAG_SIZE
                \<or> SIZE_MAX < RECORD_HEADER_SIZE + unat (stored_size object) + AUTH_TAG_SIZE
                \<or> length rec \<noteq> RECORD_HEADER_SIZE + unat (stored_size object) + AUTH_TAG_SIZE
        then Inl PICOKEYS_WRONG_LENGTH
        else let rid = get_uint64_be (drop 8 rec); stored = get_uint32_be (drop 16 rec);
                 logical = get_uint32_be (drop 20 rec); generation = get_uint32_be (drop 24 rec) in
          if take 4 rec \<noteq> record_magic_r \<or> rec ! 4 \<noteq> 1 \<or> rec ! 5 \<noteq> protection object
             \<or> get_uint16_be (drop 6 rec) \<noteq> 40
             \<or> rid \<noteq> record_id object \<or> stored \<noteq> stored_size object \<or> logical \<noteq> logical_size object
             \<or> generation \<noteq> d_generation object \<or> get_uint64_be (drop 28 rec) \<noteq> rid
             \<or> get_uint32_be (drop 36 rec) \<noteq> generation
          then Inl PICOKEYS_WRONG_DATA
          else Inr \<lparr>i_record_id = rid, i_stored_size = stored, i_logical_size = logical, i_generation = generation,
                    i_protection = rec ! 5, i_payload_offset = 40, i_tag_offset = 40 + stored\<rparr>)"

definition identity_of :: "file_object_manifest \<Rightarrow> byte list \<Rightarrow> file_object_record_identity" where
  "identity_of manifest policy_hash =
     (let object = objects manifest ! 0 in
      \<lparr>r_namespace_id = namespace_id manifest, r_container_kind = container_kind manifest,
       r_container_id = container_id manifest, r_object_type = object_type object, r_object_tag = object_tag object,
       r_generation = d_generation object, r_logical_size = logical_size object, r_policy_id = policy_id object,
       r_policy_hash = policy_hash, r_key_domain = key_domain object, r_protection = protection object,
       r_flags = d_flags object, r_record_id = record_id object\<rparr>)"

definition record_aad :: "file_object_record_identity \<Rightarrow> byte list" where
  "record_aad identity =
     record_magic_r @ [1] @ put_uint16_be (r_namespace_id identity) @ put_uint16_be (r_container_kind identity)
       @ put_uint32_be (r_container_id identity) @ put_uint16_be (r_object_type identity)
       @ put_uint16_be (r_object_tag identity) @ put_uint32_be (r_generation identity)
       @ put_uint32_be (r_logical_size identity) @ put_uint16_be (r_policy_id identity)
       @ r_policy_hash identity @ [r_key_domain identity, r_protection identity]
       @ put_uint16_be (r_flags identity) @ put_uint64_be (r_record_id identity)"

definition record_identity_build ::
    "file_object_manifest \<Rightarrow> byte list \<Rightarrow> pk_status + file_object_record_identity \<times> byte list" where
  "record_identity_build manifest policy_hash =
     (if \<not> has_object manifest \<or> \<not> descriptor_core_valid (objects manifest ! 0) then Inl PICOKEYS_WRONG_DATA
      else let identity = identity_of manifest policy_hash in Inr (identity, record_aad identity))"

definition record_seal ::
    "file_object_manifest \<Rightarrow> byte list \<Rightarrow> record_protector \<Rightarrow> byte list \<Rightarrow> nat \<Rightarrow> pk_status + byte list" where
  "record_seal manifest policy_hash protector plaintext room =
     (let object = objects manifest ! 0 in
      if \<not> has_object manifest \<or> length plaintext \<noteq> unat (logical_size object)
         \<or> length plaintext \<noteq> unat (stored_size object) then Inl PICOKEYS_WRONG_LENGTH
      else if SIZE_MAX < RECORD_HEADER_SIZE + length plaintext + AUTH_TAG_SIZE
              \<or> room < RECORD_HEADER_SIZE + length plaintext + AUTH_TAG_SIZE then Inl PICOKEYS_WRONG_LENGTH
      else case record_identity_build manifest policy_hash of Inl e \<Rightarrow> Inl e
        | Inr (identity, aad) \<Rightarrow>
          (case record_header_build object of Inl e \<Rightarrow> Inl e
           | Inr header \<Rightarrow>
             (case pr_seal protector identity (bslice 28 12 header) aad plaintext of Inl e \<Rightarrow> Inl e
              | Inr (stored, tag) \<Rightarrow>
                  if length stored \<noteq> length plaintext then Inl PICOKEYS_WRONG_LENGTH
                  else Inr (header @ stored @ tag))))"

definition record_unseal ::
    "file_object_manifest \<Rightarrow> byte list \<Rightarrow> record_protector \<Rightarrow> byte list option \<Rightarrow> nat \<Rightarrow> pk_status + byte list" where
  "record_unseal manifest policy_hash protector record_opt room =
     (let object = objects manifest ! 0 in
      if record_opt = None then Inl PICOKEYS_ERR_NULL_PARAM
      else if \<not> has_object manifest \<or> room < unat (logical_size object) \<or> logical_size object \<noteq> stored_size object
      then Inl PICOKEYS_WRONG_LENGTH
      else case record_header_parse record_opt object of Inl e \<Rightarrow> Inl e
        | Inr info \<Rightarrow>
          (case record_identity_build manifest policy_hash of Inl e \<Rightarrow> Inl e
           | Inr (identity, aad) \<Rightarrow>
             (case pr_unseal protector identity (bslice 28 12 (the record_opt)) aad
                     (bslice (unat (i_payload_offset info)) (unat (i_stored_size info)) (the record_opt))
                     (bslice (unat (i_tag_offset info)) AUTH_TAG_SIZE (the record_opt)) of
                Inl e \<Rightarrow> Inl e
              | Inr plaintext \<Rightarrow>
                  if length plaintext \<noteq> unat (i_logical_size info) then Inl PICOKEYS_WRONG_LENGTH
                  else Inr plaintext)))"

section \<open>Record identifiers\<close>

definition record_id_state :: "u64 \<Rightarrow> byte list" where
  "record_id_state rid = record_id_magic @ [1, 0, 0, 0] @ put_uint64_be rid"

text \<open>The identifier after the one in a state.\<close>

definition next_record_id :: "byte list \<Rightarrow> pk_status + u64" where
  "next_record_id state =
     (if take 4 state \<noteq> record_id_magic \<or> state ! 4 \<noteq> 1 \<or> state ! 5 \<noteq> 0 \<or> state ! 6 \<noteq> 0 \<or> state ! 7 \<noteq> 0
      then Inl PICOKEYS_WRONG_DATA
      else let previous_id = get_uint64_be (drop 8 state) in
        if previous_id = 0 \<or> previous_id = - 1 then Inl PICOKEYS_WRONG_DATA else Inr (previous_id + 1))"

text \<open>Reading the state through the handle just opened; the handle is closed in every case.\<close>

definition record_id_read ::
    "file_store \<Rightarrow> 'c authenticator \<Rightarrow> u32 \<Rightarrow> txn_handles \<Rightarrow> (pk_status + u64) \<times> txn_handles" where
  "record_id_read st auth handle hs =
     (let r = (case txn_get_info st auth hs handle of
                 Inl e \<Rightarrow> Inl e
               | Inr (psize, generation) \<Rightarrow>
                   if psize \<noteq> 16 then Inl PICOKEYS_WRONG_DATA
                   else case txn_read_at st auth hs handle 0 16 of (s, state) \<Rightarrow>
                     if s \<noteq> PICOKEYS_OK then Inl s else next_record_id state);
          (close_result, hs') = txn_close handle hs
      in (case r of Inl e \<Rightarrow> Inl e | Inr v \<Rightarrow> if close_result \<noteq> PICOKEYS_OK then Inl close_result else Inr v, hs'))"

text \<open>\<open>record_id\<close> is the out parameter, 0 when the call fails. \<open>mem_ok\<close>: whether \<open>calloc\<close> succeeds in each of the two puts.\<close>

definition record_id_allocate ::
    "bool \<times> bool \<Rightarrow> txn_layout \<Rightarrow> 'c authenticator \<Rightarrow> txn_handles \<Rightarrow> file_store \<Rightarrow>
     ((pk_status \<times> u64) \<times> txn_handles \<times> file_store) option" where
  "record_id_allocate mem_ok layout auth hs st =
     (case txn_open st layout auth hs of None \<Rightarrow> None
      | Some (r, handle, hs1) \<Rightarrow>
          let (next, hs2) = (if r = PICOKEYS_OK then record_id_read st auth handle hs1
                             else if r = PICOKEYS_ERR_FILE_NOT_FOUND then (Inr 1, hs1) else (Inl r, hs1))
          in Some (case next of
               Inl e \<Rightarrow> ((e, 0), hs2, st)
             | Inr next_id \<Rightarrow>
                 (case txn_put (fst mem_ok) layout auth (Some (record_id_state next_id)) st of (r1, st1) \<Rightarrow>
                    if r1 \<noteq> PICOKEYS_OK then ((r1, 0), hs2, st1)
                    else case txn_put (snd mem_ok) layout auth (Some (record_id_state next_id)) st1 of (r2, st2) \<Rightarrow>
                      ((r2, if r2 = PICOKEYS_OK then next_id else 0), hs2, st2))))"

section \<open>Encoding\<close>

lemma length_descriptor_encode [simp]: "length (descriptor_encode d) = 36"
  by (simp add: descriptor_encode_def)

lemma descriptor_decode_encode [simp]: "descriptor_decode (descriptor_encode d @ xs) = d"
  by (cases d) (simp add: descriptor_decode_def descriptor_encode_def be_simps nth_append)

lemma descriptor_encode_decode:
  assumes "off + 36 \<le> length xs"
  shows "descriptor_encode (descriptor_decode (drop off xs)) = bslice off 36 xs"
proof -
  have "[xs ! (off + 26), xs ! (off + 27)] = bslice (off + 26) 2 xs" 
    by (subst bslice_two) (use assms in \<open>simp_all add: add.commute\<close>)
  with assms show ?thesis
    by (simp add: descriptor_encode_def descriptor_decode_def put_get_slice bslice_join_append bslice_join_eq add.commute)
qed

lemma length_manifest_header [simp]: "length (manifest_header m n es t) = 32"
  by (simp add: manifest_header_def manifest_magic_def)

lemma manifest_header_fields:
  "take 4 (manifest_header m n es t @ xs) = manifest_magic"
  "(manifest_header m n es t @ xs) ! 4 = 1" "(manifest_header m n es t @ xs) ! 5 = 32"
  "get_uint16_be (drop 6 (manifest_header m n es t @ xs)) = m_flags m"
  "get_uint16_be (drop 8 (manifest_header m n es t @ xs)) = namespace_id m"
  "get_uint16_be (drop 10 (manifest_header m n es t @ xs)) = container_kind m"
  "get_uint32_be (drop 12 (manifest_header m n es t @ xs)) = container_id m"
  "get_uint32_be (drop 16 (manifest_header m n es t @ xs)) = m_generation m"
  "get_uint32_be (drop 20 (manifest_header m n es t @ xs)) = previous_generation m"
  "get_uint16_be (drop 24 (manifest_header m n es t @ xs)) = of_nat n"
  "(manifest_header m n es t @ xs) ! 26 = 36" "(manifest_header m n es t @ xs) ! 27 = 0"
  "get_uint16_be (drop 28 (manifest_header m n es t @ xs)) = of_nat es"
  "get_uint16_be (drop 30 (manifest_header m n es t @ xs)) = of_nat t"
  by (simp_all add: manifest_header_def manifest_magic_def be_simps nth_append)

lemma manifest_authenticate_tag:
  "mac_ok auth \<Longrightarrow> manifest_authenticate auth data = Inr tag \<Longrightarrow> length tag = 16"
  by (auto simp: manifest_authenticate_def mac_ok_def AUTH_TAG_SIZE_def split: sum.splits)

lemma extensions_validate_mono:
  "extensions_validate supported xs = PICOKEYS_OK \<Longrightarrow> (\<And>k. supported k \<Longrightarrow> supported' k) \<Longrightarrow>
   extensions_validate supported' xs = PICOKEYS_OK"
proof (induction "length xs" arbitrary: xs rule: less_induct)
  case less
  show ?case
  proof (cases "xs = []")
    case True
    then show ?thesis by (simp add: extensions_validate.simps)
  next
    case False
    let ?n = "EXTENSION_HEADER_SIZE + unat (get_uint16_be (drop 2 xs))"
    have ih: "extensions_validate supported (drop ?n xs) = PICOKEYS_OK \<Longrightarrow> extensions_validate supported' (drop ?n xs) = PICOKEYS_OK"
      using less.hyps [of "drop ?n xs"] less.prems(2) False by (simp add: EXTENSION_HEADER_SIZE_def)
    show ?thesis
      using less.prems(1) less.prems(2) [of "xs ! 0"] ih False
      unfolding extensions_validate.simps [of supported xs] extensions_validate.simps [of supported' xs] Let_def
      by (auto split: if_splits)
  qed
qed

lemma object_extensions_mono:
  "object_extensions_validate supported xs base objs = PICOKEYS_OK \<Longrightarrow> (\<And>k. supported k \<Longrightarrow> supported' k) \<Longrightarrow>
   object_extensions_validate supported' xs base objs = PICOKEYS_OK"
  by (induction objs) (auto simp: Let_def extensions_validate_mono split: if_splits)

text \<open>The extensions of the objects, seen in the extension list or in the whole manifest.\<close>

lemma object_extensions_place:
  assumes "\<forall>object \<in> set objs. 0 < d_extension_size object \<longrightarrow>
     base \<le> unat (d_extension_offset object) \<and> unat (d_extension_offset object) + unat (d_extension_size object) \<le> base + length exts"
    and "length pre = base"
  shows "object_extensions_validate supported (pre @ exts @ rest) 0 objs = object_extensions_validate supported exts base objs"
  using assms(1)
proof (induction objs)
  case (Cons object objs)
  then have "0 < d_extension_size object \<longrightarrow>
      bslice (unat (d_extension_offset object)) (unat (d_extension_size object)) (pre @ exts @ rest) =
      bslice (unat (d_extension_offset object) - base) (unat (d_extension_size object)) exts"
    using assms(2) by (auto simp: bslice_def)
  with Cons show ?case by (simp add: Let_def)
qed simp

lemma descriptors_in_extensions:
  assumes "descriptors_valid objs n (of_nat start) (of_nat (start + es))" "start + es \<le> 0xffff" "n \<le> length objs"
    and "object \<in> set (take n objs)" "0 < d_extension_size object"
  shows "start \<le> unat (d_extension_offset object) \<and> unat (d_extension_offset object) + unat (d_extension_size object) \<le> start + es"
proof -
  obtain i where i: "i < n" "object = objs ! i" using assms(3,4) by (auto simp: in_set_conv_nth)
  have u: "unat (of_nat start :: u16) = start" "unat (of_nat (start + es) :: u16) = start + es"
    using assms(2) by (simp_all add: unat_of_nat del: of_nat_add)
  from assms(1) i have "descriptor_valid object (of_nat start) (of_nat (start + es))"
    by (auto simp: descriptors_valid_def list_all_iff)
  with assms(5) u show ?thesis
    by (auto simp: descriptor_valid_def word_less_nat_alt not_less simp del: of_nat_add)
qed

text \<open>The parts of a manifest that has been built.\<close>

lemma manifest_build_parts:
  assumes "manifest_build m (Some exts) auth room = Inr data"
  obtains tag n start body where "n = build_count m" "n \<le> MAX_OBJECTS" "start = 32 + n * 36"
    "start + length exts + 16 \<le> 0xffff" "start + length exts + 16 \<le> room"
    "m_generation m \<noteq> 0" "previous_generation m < m_generation m"
    "descriptors_valid (objects m) n (of_nat start) (of_nat (start + length exts))"
    "extensions_validate extension_accept_all exts = PICOKEYS_OK"
    "object_extensions_validate extension_accept_all exts start (take n (objects m)) = PICOKEYS_OK"
    "body = manifest_header m n (length exts) (start + length exts + 16) @ concat (map descriptor_encode (take n (objects m))) @ exts"
    "manifest_authenticate auth body = Inr tag" "data = body @ tag"
  using assms
  by (auto simp: manifest_build_def Let_def container_consts ac_simps split: if_splits sum.splits)

lemma decode_objects:
  assumes "n \<le> length ds" "length pre = 32"
  shows "map (\<lambda>i. descriptor_decode (drop (32 + i * 36) (pre @ concat (map descriptor_encode (take n ds)) @ rest))) [0 ..< n] = take n ds"
proof (rule nth_equalityI)
  fix i assume "i < length (map (\<lambda>i. descriptor_decode (drop (32 + i * 36) (pre @ concat (map descriptor_encode (take n ds)) @ rest))) [0 ..< n])"
  then have i: "i < n" by simp
  then have "drop (32 + i * 36) (pre @ concat (map descriptor_encode (take n ds)) @ rest) =
      descriptor_encode (take n ds ! i) @ concat (map descriptor_encode (drop (Suc i) (take n ds))) @ rest"
    using drop_concat_map [of descriptor_encode 36 i "take n ds" rest] assms by (simp add: add.commute flip: drop_drop)
  with i assms show "map (\<lambda>i. descriptor_decode (drop (32 + i * 36) (pre @ concat (map descriptor_encode (take n ds)) @ rest))) [0 ..< n] ! i = take n ds ! i"
    by simp
qed (use assms in simp)

text \<open>What parsing makes of a manifest: counts and offsets are those of the bytes, the unused
  descriptors are cleared.\<close>

definition manifest_norm :: "file_object_manifest \<Rightarrow> nat \<Rightarrow> file_object_manifest" where
  "manifest_norm m es =
     (let n = build_count m; start = 32 + n * 36 in
      m\<lparr>m_extension_offset := of_nat start, m_extension_size := of_nat es, total_size := of_nat (start + es + 16),
        object_count := of_nat n, has_object := (0 < n), objects := take n (objects m) @ replicate (MAX_OBJECTS - n) zero_descriptor\<rparr>)"

lemma manifest_parse_built:
  assumes "mac_ok auth" "manifest_build m (Some exts) auth room = Inr data" "length (objects m) = MAX_OBJECTS" "\<And>k. supported k"
  shows "manifest_parse (Some data) auth supported = Inr (manifest_norm m (length exts))"
proof -
  obtain tag n start body where b: "n = build_count m" "n \<le> MAX_OBJECTS" "start = 32 + n * 36"
    "start + length exts + 16 \<le> 0xffff" "start + length exts + 16 \<le> room"
    "m_generation m \<noteq> 0" "previous_generation m < m_generation m"
    "descriptors_valid (objects m) n (of_nat start) (of_nat (start + length exts))"
    "extensions_validate extension_accept_all exts = PICOKEYS_OK"
    "object_extensions_validate extension_accept_all exts start (take n (objects m)) = PICOKEYS_OK"
    "body = manifest_header m n (length exts) (start + length exts + 16) @ concat (map descriptor_encode (take n (objects m))) @ exts"
    "manifest_authenticate auth body = Inr tag" "data = body @ tag"
    by (rule manifest_build_parts [OF assms(2)])
  have tag: "length tag = 16" by (rule manifest_authenticate_tag [OF assms(1) b(12)])
  let ?h = "manifest_header m n (length exts) (start + length exts + 16)"
  let ?d = "concat (map descriptor_encode (take n (objects m)))"
  have n: "n \<le> length (objects m)" using b(2) assms(3) by simp
  have ld: "length ?d = n * 36" using length_concat_map [of descriptor_encode 36 "take n (objects m)"] n by simp
  have lb: "length body = start + length exts" using b(3,11) ld by simp
  have sup: "supported = extension_accept_all" using assms(4) by (simp add: fun_eq_iff extension_accept_all_def)
  have u: "unat (of_nat n :: u16) = n" "unat (of_nat (length exts) :: u16) = length exts"
    "unat (of_nat (start + length exts + 16) :: u16) = start + length exts + 16"
    using b(3,4) by (simp_all add: unat_of_nat del: of_nat_add)
  have data: "data = ?h @ ?d @ exts @ tag" using b(11,13) by simp
  note f = manifest_header_fields [of m n "length exts" "start + length exts + 16" "?d @ exts @ tag", folded data]
  have ext: "bslice start (length exts) data = exts" using b(3) ld by (simp add: data bslice_def)
  have objs: "map (\<lambda>i. descriptor_decode (drop (32 + i * 36) data)) [0 ..< n] = take n (objects m)"
    unfolding data by (rule decode_objects [OF n]) simp
  have oe: "object_extensions_validate extension_accept_all data 0 (take n (objects m)) = PICOKEYS_OK"
  proof -
    have "object_extensions_validate extension_accept_all ((?h @ ?d) @ exts @ tag) 0 (take n (objects m)) =
        object_extensions_validate extension_accept_all exts start (take n (objects m))"
      by (rule object_extensions_place) (use descriptors_in_extensions [OF b(8) _ n] b(3,4) ld in auto)
    with b(10) data show ?thesis by simp
  qed
  have dv: "descriptors_valid (take n (objects m)) n (of_nat start) (of_nat (start + length exts))"
    using b(8) by (auto simp: descriptors_valid_def list_all_iff)
  have te: "tag_equal tag (drop (length data - 16) data)"
    using tag tag_equal_iff [of tag tag] by (simp add: b(13))
  have tk: "take (length data - 16) data = body" using tag by (simp add: b(13))
  have len: "length data = start + length exts + 16" using b(13) lb tag by simp
  have c: "\<not> length data < 48" "\<not> 65535 < length data" "\<not> 8 < n" "start + length exts + 16 = length data"
    using len b(2-4) by (simp_all add: MAX_OBJECTS_def)
  have g: "\<not> m_generation m \<le> previous_generation m" using b(7) by simp
  have st: "32 + n * 36 = start" using b(3) by simp
  show ?thesis
    unfolding manifest_parse_def option.case Let_def container_consts sup f u st objs tk b(12) sum.case manifest_norm_def b(1) [symmetric]
    using b(6,9) ext oe dv te c g by simp
qed

text \<open>A manifest that is accepted is, byte for byte, what building the parsed manifest writes.\<close>

lemma concat_slices:
  "32 + n * 36 \<le> length data \<Longrightarrow>
   concat (map descriptor_encode (map (\<lambda>i. descriptor_decode (drop (32 + i * 36) data)) [0 ..< n])) = bslice 32 (n * 36) data"
proof (induction n)
  case (Suc n)
  then have "descriptor_encode (descriptor_decode (drop (32 + n * 36) data)) = bslice (32 + n * 36) 36 data"
    by (intro descriptor_encode_decode) simp
  with Suc show ?case by (simp add: bslice_join add.commute)
qed simp

lemma manifest_header_slices:
  assumes "32 \<le> length data" "take 4 data = manifest_magic" "data ! 4 = 1" "data ! 5 = 32" "data ! 26 = 36" "data ! 27 = 0"
    and "m_flags m = get_uint16_be (drop 6 data)" "namespace_id m = get_uint16_be (drop 8 data)"
    "container_kind m = get_uint16_be (drop 10 data)" "container_id m = get_uint32_be (drop 12 data)"
    "m_generation m = get_uint32_be (drop 16 data)" "previous_generation m = get_uint32_be (drop 20 data)"
    and "of_nat n = get_uint16_be (drop 24 data)" "of_nat es = get_uint16_be (drop 28 data)" "of_nat t = get_uint16_be (drop 30 data)"
  shows "manifest_header m n es t = take 32 data"
proof -
  have c: "manifest_magic = bslice 0 4 data" "[1, 32] = bslice 4 2 data" "[36, 0] = bslice 26 2 data"
    using assms(1-6) by (simp_all add: bslice_two) (simp add: bslice_def)
  have "bslice 0 32 data = take 32 data" by (simp add: bslice_def)
  then show ?thesis
    unfolding manifest_header_def c assms(7-15)
    using assms(1) by (simp add: put_get_slice bslice_join_append bslice_join_eq)
qed

lemma manifest_build_parsed:
  assumes "mac_ok auth" "manifest_parse (Some data) auth supported = Inr m" "length data \<le> room"
  shows "\<exists>exts. manifest_build m (Some exts) auth room = Inr data \<and> length (objects m) = MAX_OBJECTS"
proof -
  define n where "n = unat (get_uint16_be (drop 24 data))"
  define es where "es = unat (get_uint16_be (drop 28 data))"
  define start where "start = 32 + n * 36"
  define objs where "objs = map (\<lambda>i. descriptor_decode (drop (32 + i * 36) data)) [0 ..< n]"
  have p: "take 4 data = manifest_magic" "data ! 4 = 1" "data ! 5 = 32" "n \<le> 8" "data ! 26 = 36" "data ! 27 = 0"
      "unat (get_uint16_be (drop 30 data)) = length data" "start + es + 16 = length data" "length data \<le> 0xffff"
    and q: "extensions_validate supported (bslice start es data) = PICOKEYS_OK"
      "get_uint32_be (drop 16 data) \<noteq> 0" "get_uint32_be (drop 20 data) < get_uint32_be (drop 16 data)"
      "descriptors_valid objs n (of_nat start) (of_nat (start + es))"
      "object_extensions_validate supported data 0 objs = PICOKEYS_OK"
    and m: "m = \<lparr>m_flags = get_uint16_be (drop 6 data), namespace_id = get_uint16_be (drop 8 data),
              container_kind = get_uint16_be (drop 10 data), container_id = get_uint32_be (drop 12 data),
              m_generation = get_uint32_be (drop 16 data), previous_generation = get_uint32_be (drop 20 data),
              m_extension_offset = of_nat start, m_extension_size = of_nat es,
              total_size = of_nat (length data), object_count = of_nat n, has_object = (0 < n),
              objects = objs @ replicate (MAX_OBJECTS - n) zero_descriptor\<rparr>"
    using assms(2) unfolding manifest_parse_def option.case Let_def container_consts n_def es_def start_def objs_def
    by (auto split: if_splits sum.splits)
  obtain tag where t: "manifest_authenticate auth (take (length data - 16) data) = Inr tag"
      "tag_equal tag (drop (length data - 16) data)"
    using assms(2) unfolding manifest_parse_def option.case Let_def container_consts
    by (auto split: if_splits sum.splits)
  have tag: "drop (length data - 16) data = tag"
    using t manifest_authenticate_tag [OF assms(1) t(1)] tag_equal_iff [of tag "drop (length data - 16) data"] p(8) by simp
  have lo: "length objs = n" by (simp add: objs_def)
  have bc: "build_count m = n" and tk: "take n (objects m) = objs"
  proof -
    have u: "unat (of_nat n :: u16) = n" using p(4) by (simp add: unat_of_nat)
    have "unat (of_nat n :: u16) = 0 \<longleftrightarrow> (of_nat n :: u16) = 0" by (rule unsigned_eq_0_iff)
    then have z: "(of_nat n :: u16) = 0 \<longleftrightarrow> n = 0" unfolding u by blast
    have c: "object_count m = of_nat n" "has_object m = (0 < n)" by (simp_all add: m)
    show "build_count m = n" unfolding build_count_def c u z by auto
  qed (simp add: m lo)
  let ?exts = "bslice start es data"
  have le: "length ?exts = es" using p(8) by simp
  have u: "of_nat n = get_uint16_be (drop 24 data)" "of_nat es = get_uint16_be (drop 28 data)" "of_nat (start + es + 16) = get_uint16_be (drop 30 data)"
    unfolding p(8) by (simp_all add: n_def es_def flip: p(7))
  have h: "manifest_header m n es (start + es + 16) = take 32 data"
    by (rule manifest_header_slices) (use p u in \<open>simp_all add: m start_def del: of_nat_add\<close>)
  have body: "take 32 data @ concat (map descriptor_encode objs) @ ?exts = take (length data - 16) data"
  proof -
    have "take 32 data = bslice 0 32 data" "take (length data - 16) data = bslice 0 (length data - 16) data" by (simp_all add: bslice_def)
    moreover have "length data - 16 = 32 + n * 36 + es" using p(8) by (simp add: start_def)
    ultimately show ?thesis
      using concat_slices [of n data] p(8) by (simp add: objs_def start_def bslice_join_append bslice_join_eq add.assoc)
  qed
  have oe: "object_extensions_validate extension_accept_all ?exts start objs = PICOKEYS_OK"
  proof -
    have "data = bslice 0 start data @ ?exts @ drop (start + es) data"
      by (simp add: bslice_def add.commute [of start es] flip: drop_drop)
    moreover have "object_extensions_validate supported (bslice 0 start data @ ?exts @ drop (start + es) data) 0 objs =
        object_extensions_validate supported ?exts start objs"
      by (rule object_extensions_place) (use descriptors_in_extensions [OF q(4), of] lo p(8,9) le in \<open>auto simp: bslice_def\<close>)
    ultimately have "object_extensions_validate supported ?exts start objs = PICOKEYS_OK" using q(5) by simp
    then show ?thesis by (rule object_extensions_mono) (simp add: extension_accept_all_def)
  qed
  have dv: "descriptors_valid (objects m) n (of_nat start) (of_nat (start + es))"
    using q(4) lo by (auto simp: descriptors_valid_def list_all_iff m nth_append)
  have ev: "extensions_validate extension_accept_all ?exts = PICOKEYS_OK"
    using q(1) by (rule extensions_validate_mono) (simp add: extension_accept_all_def)
  have g: "m_generation m \<noteq> 0" "\<not> m_generation m \<le> previous_generation m" using q(2,3) by (simp_all add: m)
  have c: "\<not> 65535 < es" "\<not> 8 < n" "\<not> (65535 < start + es + 16 \<or> room < start + es + 16)" "32 + n * 36 = start"
    using p(4,8,9) assms(3) by (simp_all add: start_def)
  have "manifest_build m (Some ?exts) auth room = Inr (take (length data - 16) data @ tag)"
    unfolding manifest_build_def Let_def container_consts option.sel le bc c(4) h tk body t(1) sum.case
    using c g dv ev oe by simp
  moreover have "length (objects m) = MAX_OBJECTS" using p(4) lo by (simp add: m MAX_OBJECTS_def)
  moreover have "take (length data - 16) data @ tag = data" using tag by (metis append_take_drop_id)
  ultimately show ?thesis by metis
qed

section \<open>Records, sealed and framed\<close>

lemma record_header_fields_r:
  assumes "record_header_build object = Inr header"
  shows "length header = 40" "bslice 28 12 header = record_nonce object" "descriptor_core_valid object"
    "header = record_magic_r @ [1, protection object] @ put_uint16_be 40 @ put_uint64_be (record_id object)
                @ put_uint32_be (stored_size object) @ put_uint32_be (logical_size object)
                @ put_uint32_be (d_generation object) @ put_uint64_be (record_id object) @ put_uint32_be (d_generation object)"
  using assms
  by (auto simp: record_header_build_def record_nonce_def record_magic_r_def be_simps nth_append bslice_def split: if_splits)

lemma record_header_roundtrip:
  assumes "record_header_build object = Inr header" "length body = unat (stored_size object) + 16"
    and "40 + unat (stored_size object) + 16 \<le> SIZE_MAX"
  shows "record_header_parse (Some (header @ body)) object =
     Inr \<lparr>i_record_id = record_id object, i_stored_size = stored_size object, i_logical_size = logical_size object,
          i_generation = d_generation object, i_protection = protection object, i_payload_offset = 40,
          i_tag_offset = 40 + stored_size object\<rparr>"
proof -
  note h = record_header_fields_r [OF assms(1)]
  have f: "take 4 (header @ xs) = record_magic_r" "(header @ xs) ! 4 = 1" "(header @ xs) ! 5 = protection object"
    "get_uint16_be (drop 6 (header @ xs)) = 40" "get_uint64_be (drop 8 (header @ xs)) = record_id object"
    "get_uint32_be (drop 16 (header @ xs)) = stored_size object" "get_uint32_be (drop 20 (header @ xs)) = logical_size object"
    "get_uint32_be (drop 24 (header @ xs)) = d_generation object"
    "get_uint64_be (drop 28 (header @ xs)) = record_id object" "get_uint32_be (drop 36 (header @ xs)) = d_generation object" for xs
    unfolding h(4) by (simp_all add: record_magic_r_def be_simps nth_append)
  show ?thesis
    using f [of body] h(1,3) assms(2,3)
    by (simp add: record_header_parse_def Let_def RECORD_HEADER_SIZE_def AUTH_TAG_SIZE_def)
qed

text \<open>What a record's reader relies on in an AEAD: opening what was sealed, with the same identity, nonce
  and additional data, gives the plaintext back; tags have 16 bytes.\<close>

definition protector_ok :: "record_protector \<Rightarrow> bool" where
  "protector_ok protector \<longleftrightarrow>
     (\<forall>identity nonce aad plaintext stored tag.
        pr_seal protector identity nonce aad plaintext = Inr (stored, tag) \<longrightarrow>
        length tag = AUTH_TAG_SIZE \<and> pr_unseal protector identity nonce aad stored tag = Inr plaintext)"

lemma put_be_inj:
  "put_uint16_be a = put_uint16_be b \<longleftrightarrow> a = b" "put_uint32_be c = put_uint32_be d \<longleftrightarrow> c = d" "put_uint64_be e = put_uint64_be f \<longleftrightarrow> e = f"
  by (metis get_put_simps(1), metis get_put_simps(2), metis get_put_uint64_be_nil)

section \<open>Allocating record identifiers\<close>

text \<open>The greatest identifier given out, 0 for none.\<close>

definition high_water :: "file_store \<Rightarrow> txn_layout \<Rightarrow> 'c authenticator \<Rightarrow> nat" where
  "high_water st layout auth =
     (case txn_value st layout auth of None \<Rightarrow> 0 | Some state \<Rightarrow> unat (get_uint64_be (drop 8 state)))"

lemma next_id: "(x :: u64) \<noteq> - 1 \<Longrightarrow> unat (x + 1) = unat x + 1"
proof -
  assume "x \<noteq> - 1"
  then have n: "x + 1 \<noteq> 0" by (simp add: eq_neg_iff_add_eq_0)
  have u: "unat x < 2 ^ 64" using unsigned_less [of x] by simp
  have "unat x \<noteq> 2 ^ 64 - 1"
  proof
    assume "unat x = 2 ^ 64 - 1"
    then have "unat (x + 1) = 0" by (simp add: unat_word_ariths)
    with n show False by (simp add: unsigned_eq_0_iff)
  qed
  with u show ?thesis by (simp add: unat_word_ariths)
qed

lemma record_id_state_value: "get_uint64_be (drop 8 (record_id_state rid)) = rid" "length (record_id_state rid) = 16"
  by (simp_all add: record_id_state_def record_id_magic_def be_simps)

lemma open_not_found:
  "txn_open st layout auth hs = Some (PICOKEYS_ERR_FILE_NOT_FOUND, h, hs') \<Longrightarrow> txn_value st layout auth = None"
  by (auto simp: txn_open_def txn_value_def txn_payload_def split: if_splits sum.splits option.splits)

lemma record_id_read_law:
  assumes "txn_find_handle hs h = Some i" "txn_entries hs ! i = \<lparr>th_layout = layout, th_state = s, th_token = h\<rparr>"
    and "txn_recover st layout auth = Inr s" "\<not> ts_deleted s" "record_id_read st auth h hs = (Inr rid, hs')"
  shows "unat rid = high_water st layout auth + 1"
proof -
  obtain data where d: "txn_payload st layout s = Some data" using live_has_payload [OF assms(3,4)] by blast
  note rd = read_at_state [OF assms(1-4) d]
  obtain dd where dd: "fdata st (record_fid layout ! unat (ts_record_slot s)) = Some dd" "length dd = 48 + unat (ts_payload_size s)"
    by (rule live_record [OF assms(3,4)])
  have l: "length data = unat (ts_payload_size s)" using d dd assms(4) by (auto simp: txn_payload_def)
  have v: "txn_value st layout auth = Some data" using assms(3) d by (simp add: txn_value_def)
  from assms(5) rd(2) have z: "ts_payload_size s = 16"
    by (auto simp: record_id_read_def Let_def split: sum.splits prod.splits if_splits)
  then have "length data = 16" using l by simp
  then have r: "txn_read_at st auth hs h 0 16 = (PICOKEYS_OK, data)" using rd(1) [of 0 16] by simp
  from assms(5) have "next_record_id data = Inr rid"
    by (auto simp: record_id_read_def rd(2) z r Let_def split: sum.splits prod.splits if_splits)
  then have "rid = get_uint64_be (drop 8 data) + 1" "get_uint64_be (drop 8 data) \<noteq> - 1"
    by (auto simp: next_record_id_def Let_def split: if_splits)
  with v next_id show ?thesis by (simp add: high_water_def)
qed

lemma record_id_read_error:
  assumes "txn_find_handle hs h = Some i" "txn_entries hs ! i = \<lparr>th_layout = layout, th_state = s, th_token = h\<rparr>"
    and "txn_recover st layout auth = Inr s" "\<not> ts_deleted s" "record_id_read st auth h hs = (Inl e, hs')"
  shows "e \<noteq> PICOKEYS_OK"
proof -
  obtain data where d: "txn_payload st layout s = Some data" using live_has_payload [OF assms(3,4)] by blast
  note rd = read_at_state [OF assms(1-4) d]
  have "next_record_id x \<noteq> Inl PICOKEYS_OK" for x by (simp add: next_record_id_def Let_def)
  with assms(5) show ?thesis
    by (auto simp: record_id_read_def rd(2) Let_def split: sum.splits prod.splits if_splits)
qed

lemma wf_recover: "txn_wf st layout auth \<Longrightarrow> txn_recover st layout auth = Inl e \<Longrightarrow> e = PICOKEYS_ERR_FILE_NOT_FOUND"
  using recover_void [of st layout auth] by (auto simp: txn_wf_def)

text \<open>Whatever identifier is tried next is one above the high-water mark.\<close>

lemma allocate_next:
  assumes "txn_handles_inv hs" "txn_wf st layout auth" "record_id_allocate mem_ok layout auth hs st = Some (res, hs', st')"
  obtains (failed) r where "res = (r, 0)" "r \<noteq> PICOKEYS_OK" "st' = st"
    | (first) rid r where "unat rid = high_water st layout auth + 1"
        "txn_put (fst mem_ok) layout auth (Some (record_id_state rid)) st = (r, st')" "r \<noteq> PICOKEYS_OK" "res = (r, 0)"
    | (both) rid st1 r where "unat rid = high_water st layout auth + 1"
        "txn_put (fst mem_ok) layout auth (Some (record_id_state rid)) st = (PICOKEYS_OK, st1)"
        "txn_put (snd mem_ok) layout auth (Some (record_id_state rid)) st1 = (r, st')"
        "res = (r, if r = PICOKEYS_OK then rid else 0)"
proof -
  have l: "length (txn_entries hs) = TXN_MAX_HANDLES" using assms(1) by (simp add: txn_handles_inv_def)
  obtain r handle hs1 where o: "txn_open st layout auth hs = Some (r, handle, hs1)"
    using assms(3) by (auto simp: record_id_allocate_def split: option.splits)
  define next2 where "next2 = (if r = PICOKEYS_OK then record_id_read st auth handle hs1
       else if r = PICOKEYS_ERR_FILE_NOT_FOUND then (Inr 1, hs1) else (Inl r, hs1))"
  have nx: "(\<exists>e. fst next2 = Inl e \<and> e \<noteq> PICOKEYS_OK) \<or> (\<exists>rid. fst next2 = Inr rid \<and> unat rid = high_water st layout auth + 1)"
  proof (cases rule: txn_open_cases [OF l, of st layout auth, case_names refused opened])
    case (refused r')
    then have r: "r = r'" "r \<noteq> PICOKEYS_OK"
      using o wf_recover [OF assms(2), of r'] by auto
    show ?thesis
    proof (cases "r = PICOKEYS_ERR_FILE_NOT_FOUND")
      case True
      with open_not_found [of st layout auth hs] o have "txn_value st layout auth = None" by auto
      with True show ?thesis by (simp add: next2_def high_water_def)
    qed (use r in \<open>simp add: next2_def\<close>)
  next
    case (opened i t s n)
    let ?hs = "hs\<lparr>txn_next_handle := n, txn_entries := (txn_entries hs)[i := \<lparr>th_layout = layout, th_state = s, th_token = t\<rparr>]\<rparr>"
    have "th_token (txn_entries hs ! j) \<noteq> t" if "j < i" for j
      using opened that l by (auto simp: txn_tokens_def image_iff)
    then have f: "txn_find_handle ?hs t = Some i" "txn_entries ?hs ! i = \<lparr>th_layout = layout, th_state = s, th_token = t\<rparr>"
      using opened l by (auto simp: find_handle_iff)
    have e: "r = PICOKEYS_OK" "handle = t" "hs1 = ?hs" using o opened(7) by auto
    obtain x hs2 where x: "record_id_read st auth t ?hs = (x, hs2)" by fastforce
    then have n2: "fst next2 = x" by (simp add: next2_def e)
    show ?thesis
      using record_id_read_law [OF f opened(5,6)] record_id_read_error [OF f opened(5,6)] x unfolding n2 by (cases x) auto
  qed
  from nx show thesis
  proof (elim disjE exE conjE)
    fix e assume e: "fst next2 = Inl e" "e \<noteq> PICOKEYS_OK"
    then have "res = (e, 0)" "st' = st"
      using assms(3) o by (auto simp: record_id_allocate_def next2_def [symmetric] split: prod.splits)
    with e(2) show thesis by (intro failed)
  next
    fix rid assume n: "fst next2 = Inr rid" "unat rid = high_water st layout auth + 1"
    obtain r1 st1 where p1: "txn_put (fst mem_ok) layout auth (Some (record_id_state rid)) st = (r1, st1)" by fastforce
    obtain r2 st2 where p2: "txn_put (snd mem_ok) layout auth (Some (record_id_state rid)) st1 = (r2, st2)" by fastforce
    have res: "(res, st') = (if r1 \<noteq> PICOKEYS_OK then ((r1, 0), st1) else ((r2, if r2 = PICOKEYS_OK then rid else 0), st2))"
      using assms(3) o n(1) p1 p2 by (auto simp: record_id_allocate_def next2_def [symmetric] split: prod.splits)
    show thesis
    proof (cases "r1 = PICOKEYS_OK")
      case True
      with res p1 p2 show thesis by (intro both [OF n(2), of st1 r2]) simp_all
    next
      case False
      with res p1 show thesis by (intro first [OF n(2), of r1]) simp_all
    qed
  qed
qed

lemma put_high_water:
  assumes "store_inv st" "layout_ok st layout" "torn_ok st" "mac_ok auth" "txn_wf st layout auth"
    and "txn_put mem_ok layout auth (Some (record_id_state rid)) st = (r, st')" "unat rid = w"
  shows "high_water st' layout auth \<in> {high_water st layout auth, w}" "r = PICOKEYS_OK \<Longrightarrow> high_water st' layout auth = w"
  using put_atomic [OF assms(1-6)] assms(7) record_id_state_value [of rid]
  by (auto simp: high_water_def)

text \<open>A sealed record opens.\<close>

lemma record_opens:
  assumes "protector_ok protector" "record_seal m policy_hash protector plaintext room = Inr rec" "length plaintext \<le> room'"
  shows "record_unseal m policy_hash protector (Some rec) room' = Inr plaintext \<and>
    length rec = 56 + length plaintext \<and> length rec \<le> room"
proof -
  let ?o = "objects m ! 0"
  from assms(2) obtain identity aad header stored tag where s:
    "has_object m" "length plaintext = unat (logical_size ?o)" "length plaintext = unat (stored_size ?o)"
    "40 + length plaintext + 16 \<le> SIZE_MAX" "40 + length plaintext + 16 \<le> room"
    "record_identity_build m policy_hash = Inr (identity, aad)" "record_header_build ?o = Inr header"
    "pr_seal protector identity (bslice 28 12 header) aad plaintext = Inr (stored, tag)"
    "length stored = length plaintext" "rec = header @ stored @ tag"
    by (auto simp: record_seal_def Let_def RECORD_HEADER_SIZE_def AUTH_TAG_SIZE_def split: if_splits sum.splits)
  have t: "length tag = 16" "pr_unseal protector identity (bslice 28 12 header) aad stored tag = Inr plaintext"
    using assms(1) s(8) by (auto simp: protector_ok_def AUTH_TAG_SIZE_def)
  note h = record_header_fields_r(1) [OF s(7)]
  have eq: "logical_size ?o = stored_size ?o" using s(2,3) by (simp add: word_unat_eq_iff)
  have p: "record_header_parse (Some rec) ?o =
     Inr \<lparr>i_record_id = record_id ?o, i_stored_size = stored_size ?o, i_logical_size = logical_size ?o,
          i_generation = d_generation ?o, i_protection = protection ?o, i_payload_offset = 40, i_tag_offset = 40 + stored_size ?o\<rparr>"
    unfolding s(10) by (rule record_header_roundtrip [OF s(7)]) (use s t in simp_all)
  have u: "unat (40 + stored_size ?o) = 40 + length plaintext" using s(3,4) by (simp add: unat_word_ariths SIZE_MAX_def)
  have b: "bslice 40 (length plaintext) rec = stored" "bslice (40 + length plaintext) AUTH_TAG_SIZE rec = tag"
    "bslice 28 12 rec = bslice 28 12 header"
    using h s(9) t(1) by (simp_all add: s(10) bslice_def AUTH_TAG_SIZE_def)
  have "length rec = 56 + length plaintext" using h s(9,10) t(1) by simp
  then show ?thesis
    using s(1,2,5) eq t(2) b u assms(3) s(3)
    by (simp add: record_unseal_def Let_def p s(6) b(3))
qed

text \<open>What an allocation leaves behind, whatever its outcome.\<close>

lemma record_id_allocate_law:
  assumes "store_inv st" "layout_ok st layout" "torn_ok st" "mac_ok auth" "txn_wf st layout auth" "txn_handles_inv hs"
  obtains r rid hs' st' where "record_id_allocate mem_ok layout auth hs st = Some ((r, rid), hs', st')"
    "txn_wf st' layout auth" "txn_handles_inv hs'" "layout_ok st' layout" "torn_ok st'"
    "only_in (set (record_fid layout @ commit_fid layout)) st st'"
    "r = PICOKEYS_OK \<Longrightarrow> unat rid = high_water st layout auth + 1"
proof -
  obtain r h hs1 where o: "txn_open st layout auth hs = Some (r, h, hs1)" "txn_handles_inv hs1"
    using handles_stay_unique [OF assms(6), of st layout auth] by blast
  have rr: "txn_handles_inv (snd (record_id_read st auth h hs1))"
  proof -
    obtain s hs2 where c: "txn_close h hs1 = (s, hs2)" by fastforce
    then have "snd (record_id_read st auth h hs1) = hs2" by (simp add: record_id_read_def Let_def)
    moreover have "txn_handles_inv hs2" using handles_stay_unique [OF o(2), of st layout auth h] c by simp
    ultimately show ?thesis by simp
  qed
  obtain res hs' st' where a: "record_id_allocate mem_ok layout auth hs st = Some (res, hs', st')" "txn_handles_inv hs'"
  proof -
    have "\<exists>res hs' st'. record_id_allocate mem_ok layout auth hs st = Some (res, hs', st') \<and> txn_handles_inv hs'"
      using o rr by (auto simp: record_id_allocate_def split: prod.splits sum.splits)
    with that show thesis by blast
  qed
  show thesis
  proof (cases rule: allocate_next [OF assms(6,5) a(1), case_names failed first both])
    case (failed r')
    with a assms show thesis by (intro that [of r' 0 hs' st]) (simp_all add: only_in_refl)
  next
    case (first rid r')
    note put = put_atomic [OF assms(1-5) first(2)] and keep = put_keeps_store(1-3) [OF assms(1-5) first(2)]
    show thesis
      using that [of r' 0 hs' st'] a put keep put_only_in [OF assms(1-5) first(2)] first(3,4) by simp
  next
    case (both rid st1 r')
    note put1 = put_atomic [OF assms(1-5) both(2)] and keep1 = put_keeps_store(1-3) [OF assms(1-5) both(2)]
    have wf1: "txn_wf st1 layout auth" using put1 by simp
    note put2 = put_atomic [OF keep1 assms(4) wf1 both(3)] and keep2 = put_keeps_store(1-3) [OF keep1 assms(4) wf1 both(3)]
    note oi = only_in_trans [OF put_only_in [OF assms(1-5) both(2)] put_only_in [OF keep1 assms(4) wf1 both(3)]]
    show thesis
      using that [of r' "if r' = PICOKEYS_OK then rid else 0" hs' st'] a put2 keep2 oi both(1,4) by auto
  qed
qed

section \<open>Properties\<close>

text \<open>C22: a manifest that can be built is read back as it was written, whatever extensions and objects it
  has, by a reader that supports its extensions; the counts, offsets and sizes are those of the bytes.\<close>

theorem manifest_roundtrip:
  assumes "mac_ok auth" "manifest_build m (Some exts) auth room = Inr data" "length (objects m) = MAX_OBJECTS" "\<And>k. supported k"
  shows "manifest_parse (Some data) auth supported = Inr (manifest_norm m (length exts))"
  using assms by (rule manifest_parse_built)

text \<open>Manifests have one encoding: bytes that are accepted are exactly the bytes that building the
  parsed manifest produces, authentication tag included, so that no second byte string is accepted
  for the same content and no accepted byte is outside the MAC.\<close>

theorem manifest_canonical:
  assumes "mac_ok auth" "manifest_parse (Some data) auth supported = Inr m" "length data \<le> room"
  shows "\<exists>exts. manifest_build m (Some exts) auth room = Inr data \<and> length (objects m) = MAX_OBJECTS"
  using assms by (rule manifest_build_parsed)

text \<open>C40: a sealed record is opened again, with the same manifest entry, policy hash and protector, to the
  same plaintext.\<close>

theorem record_roundtrip:
  assumes "protector_ok protector" "record_seal m policy_hash protector plaintext room = Inr rec" "length plaintext \<le> room'"
  shows "record_unseal m policy_hash protector (Some rec) room' = Inr plaintext \<and>
    length rec = 56 + length plaintext \<and> length rec \<le> room"
  using assms by (rule record_opens)

text \<open>The additional data a record is sealed with determines its identity: a record cannot be moved to
  another container, object, generation or policy without its tag failing.\<close>

theorem aad_binds_identity:
  assumes "record_aad i = record_aad j" "length (r_policy_hash i) = 16" "length (r_policy_hash j) = 16"
  shows "i = j"
  using assms by (cases i; cases j) (simp add: record_aad_def put_be_inj append_eq_append_conv)

text \<open>C21: record identifiers are never given out twice. An identifier that is returned is one above the
  high-water mark, and when it is returned both recovery slots hold the new mark, so that losing
  either of them does not bring an old one back; a failed allocation answers 0 and leaves the mark
  where it was or one higher. This holds whatever flash operations fail.\<close>

theorem record_id_never_reused:
  assumes "store_inv st" "layout_ok st layout" "torn_ok st" "mac_ok auth" "txn_wf st layout auth" "txn_handles_inv hs"
    and "record_id_allocate mem_ok layout auth hs st = Some ((r, rid), hs', st')"
  shows "txn_wf st' layout auth \<and>
    (if r = PICOKEYS_OK
     then unat rid = high_water st layout auth + 1 \<and> high_water st' layout auth = unat rid \<and>
       (\<forall>slot \<in> {0, 1}. \<exists>s. parse_commit st' layout auth slot = Inr s \<and> txn_payload st' layout s = Some (record_id_state rid))
     else rid = 0 \<and> high_water st' layout auth \<in> {high_water st layout auth, high_water st layout auth + 1})"
proof (cases rule: allocate_next [OF assms(6,5,7), case_names failed first both])
  case (failed r')
  with assms(5) show ?thesis by simp
next
  case (first next_id r')
  note put = put_atomic [OF assms(1-5) first(2)] and hw = put_high_water [OF assms(1-5) first(2,1)]
  from put hw first show ?thesis by simp
next
  case (both next_id st1 r')
  note put1 = put_atomic [OF assms(1-5) both(2)] and hw1 = put_high_water [OF assms(1-5) both(2,1)]
  note keep = put_keeps_store(1-3) [OF assms(1-5) both(2)]
  have wf1: "txn_wf st1 layout auth" using put1 by simp
  note put2 = put_atomic [OF keep assms(4) wf1 both(3)] and hw2 = put_high_water [OF keep assms(4) wf1 both(3,1)]
  show ?thesis
  proof (cases "r' = PICOKEYS_OK")
    case False
    with put2 hw1 hw2 both(4) show ?thesis by simp
  next
    case True
    obtain slot g where s1: "txn_recover st1 layout auth = Inr (live_state slot g (record_id_state next_id))"
      using put_ok_state [OF assms(1-5) both(2)] by blast
    have v1: "txn_payload st1 layout (live_state slot g (record_id_state next_id)) = Some (record_id_state next_id)"
      using put1 s1 by (simp add: txn_value_def)
    have old: "parse_commit st' layout auth slot = Inr (live_state slot g (record_id_state next_id))"
        "txn_payload st' layout (live_state slot g (record_id_state next_id)) = Some (record_id_state next_id)"
      using put_keeps_store(4) [OF keep assms(4) wf1 both(3) s1] v1 by simp_all
    obtain slot2 g2 where s2: "txn_next_state st1 layout auth = Inr (slot2, g2)"
        "txn_recover st' layout auth = Inr (live_state slot2 g2 (record_id_state next_id))"
      using put_ok_state [OF keep assms(4) wf1] both(3) True by blast
    have new: "parse_commit st' layout auth slot2 = Inr (live_state slot2 g2 (record_id_state next_id))"
      using recover_parse [OF s2(2)] by simp
    have v2: "txn_payload st' layout (live_state slot2 g2 (record_id_state next_id)) = Some (record_id_state next_id)"
      using put2 True s2(2) by (simp add: txn_value_def)
    have x: "slot2 = slot XOR 1" using s1 s2(1) by (auto simp: txn_next_state_def split: if_splits)
    have "slot \<le> 1" using recover_parse [OF s1] by simp
    then have "slot = 0 \<and> slot2 = 1 \<or> slot = 1 \<and> slot2 = 0" using slot_cases x by fastforce
    then have "\<forall>k \<in> {0, 1}. \<exists>s. parse_commit st' layout auth k = Inr s \<and> txn_payload st' layout s = Some (record_id_state next_id)"
      using old new v2 by auto
    with put2 hw2 both True show ?thesis by simp
  qed
qed

section \<open>A container\<close>

definition descriptor_example :: file_object_descriptor where
  "descriptor_example = \<lparr>object_type = 5, object_tag = 1, d_generation = 2, logical_size = 3, record_id = 9, stored_size = 3,
     policy_id = 0, key_domain = 1, protection = 2, d_flags = 2, d_extension_offset = 0, d_extension_size = 0, transaction_group = 0\<rparr>"

definition manifest_example :: file_object_manifest where
  "manifest_example = \<lparr>m_flags = 0, namespace_id = 1, container_kind = 4, container_id = 7, m_generation = 2, previous_generation = 1,
     m_extension_offset = 0, m_extension_size = 0, total_size = 0, object_count = 1, has_object = True,
     objects = descriptor_example # replicate 7 zero_descriptor\<rparr>"

definition protector_example :: record_protector where
  "protector_example = \<lparr>pr_seal = (\<lambda>i n a p. Inr (rev p, replicate 16 0)), pr_unseal = (\<lambda>i n a s t. Inr (rev s))\<rparr>"

definition hash_example :: "byte list" where "hash_example = replicate 16 7"

lemma descriptor_example_ok: "descriptor_core_valid descriptor_example"
  by (simp add: descriptor_core_valid_def descriptor_example_def FLAG_MASK_def FLAG_INLINE_def FLAG_TRANSACTION_GROUP_def)

lemma manifest_example_ok:
  obtains data where "manifest_build manifest_example (Some [8, 1, 0, 1, 5]) mac_example 200 = Inr data"
    "length (objects manifest_example) = MAX_OBJECTS" "length data = 89"
proof -
  have v: "descriptors_valid (objects manifest_example) 1 s e" for s e
    using descriptor_example_ok
    by (simp add: descriptors_valid_def descriptor_valid_def manifest_example_def descriptor_example_def)
  have x: "extensions_validate extension_accept_all [8, 1, 0, 1, 5] = PICOKEYS_OK"
  proof -
    have "get_uint16_be [0, 1, 5] = 1" by (simp add: get_uint16_be_def make_uint16_be_def)
    then show ?thesis
      by (simp add: extensions_validate.simps [of _ "[8, 1, 0, 1, 5]"] extensions_validate.simps [of _ "[]"]
          extension_accept_all_def EXTENSION_HEADER_SIZE_def Let_def)
  qed
  have b: "build_count manifest_example = 1" "m_generation manifest_example = 2" "previous_generation manifest_example = 1"
    "take 1 (objects manifest_example) = [descriptor_example]"
    by (simp_all add: build_count_def manifest_example_def)
  have g: "\<not> (2 :: u32) \<le> 1" by (simp add: word_le_nat_alt)
  have "d_extension_size descriptor_example = 0" by (simp add: descriptor_example_def)
  then have "\<exists>data. manifest_build manifest_example (Some [8, 1, 0, 1, 5]) mac_example 200 = Inr data \<and> length data = 89"
    using v b x g by (simp add: manifest_build_def Let_def container_consts manifest_authenticate_def mac_example_def)
  moreover have "length (objects manifest_example) = MAX_OBJECTS"
    by (simp add: manifest_example_def MAX_OBJECTS_def)
  ultimately show thesis using that by blast
qed

theorem manifest_roundtrip_witness:
  "\<exists>data. manifest_build manifest_example (Some [8, 1, 0, 1, 5]) mac_example 200 = Inr data \<and>
     manifest_parse (Some data) mac_example (\<lambda>_. True) = Inr (manifest_norm manifest_example 5)"
proof -
  obtain data where d: "manifest_build manifest_example (Some [8, 1, 0, 1, 5]) mac_example 200 = Inr data"
    "length (objects manifest_example) = MAX_OBJECTS" by (rule manifest_example_ok)
  have "manifest_parse (Some data) mac_example (\<lambda>_. True) = Inr (manifest_norm manifest_example (length [8, 1, 0, 1, 5 :: byte]))"
    by (rule manifest_roundtrip [OF mac_example_ok(1) d]) simp
  with d(1) show ?thesis by (intro exI [of _ data]) (simp add: eval_nat_numeral)
qed

theorem manifest_canonical_witness:
  "\<exists>data m exts. manifest_parse (Some data) mac_example (\<lambda>_. True) = Inr m \<and>
     manifest_build m (Some exts) mac_example 200 = Inr data"
proof -
  obtain data where d: "manifest_build manifest_example (Some [8, 1, 0, 1, 5]) mac_example 200 = Inr data"
    "length (objects manifest_example) = MAX_OBJECTS" "length data = 89" by (rule manifest_example_ok)
  have p: "manifest_parse (Some data) mac_example (\<lambda>_. True) = Inr (manifest_norm manifest_example (length [8, 1, 0, 1, 5 :: byte]))"
    by (rule manifest_parse_built [OF mac_example_ok(1) d(1,2)]) simp
  have "length data \<le> 200" using d(3) by simp
  from manifest_canonical [OF mac_example_ok(1) p this] p show ?thesis by blast
qed

theorem record_roundtrip_witness:
  "\<exists>rec. record_seal manifest_example hash_example protector_example [1, 2, 3] 100 = Inr rec \<and>
     record_unseal manifest_example hash_example protector_example (Some rec) 3 = Inr [1, 2, 3]"
proof -
  have ok: "protector_ok protector_example" by (auto simp: protector_ok_def protector_example_def AUTH_TAG_SIZE_def)
  have o: "has_object manifest_example" "objects manifest_example ! 0 = descriptor_example" by (simp_all add: manifest_example_def)
  obtain i a h where b: "record_identity_build manifest_example hash_example = Inr (i, a)"
      "record_header_build descriptor_example = Inr h"
    using descriptor_example_ok o by (simp add: record_identity_build_def record_header_build_def Let_def)
  have z: "unat (logical_size descriptor_example) = 3" "unat (stored_size descriptor_example) = 3"
    by (simp_all add: descriptor_example_def)
  have "record_seal manifest_example hash_example protector_example [1, 2, 3] 100 = Inr (h @ [3, 2, 1] @ replicate 16 0)"
    by (simp add: record_seal_def Let_def o b z RECORD_HEADER_SIZE_def AUTH_TAG_SIZE_def SIZE_MAX_def protector_example_def)
  from this record_roundtrip [OF ok this, of 3] show ?thesis
    by (intro exI [of _ "h @ [3, 2, 1] @ replicate 16 0"]) simp
qed

theorem aad_binds_identity_witness:
  "identity_of manifest_example hash_example = identity_of manifest_example (replicate 16 7)"
  by (rule aad_binds_identity) (simp_all add: hash_example_def identity_of_def Let_def)

theorem record_id_never_reused_witness:
  "\<exists>r rid hs st. record_id_allocate (True, True) layout_example mac_example txn_no_handles txn_store = Some ((r, rid), hs, st) \<and>
     txn_wf st layout_example mac_example \<and> (r = PICOKEYS_OK \<longrightarrow> unat rid = 1)"
proof -
  have "length (txn_entries txn_no_handles) = TXN_MAX_HANDLES" by (rule no_handles_ok)
  then obtain r h hs where "txn_open txn_store layout_example mac_example txn_no_handles = Some (r, h, hs)"
    by (rule txn_open_cases) auto
  then obtain r rid hs st where a: "record_id_allocate (True, True) layout_example mac_example txn_no_handles txn_store = Some ((r, rid), hs, st)"
    by (fastforce simp: record_id_allocate_def split: prod.splits sum.splits)
  have "fdata txn_store x = None" for x by (simp add: fdata_def txn_store_def split: option.split)
  then have "commit_void txn_store layout_example k" for k by (simp add: commit_void_def)
  then have "high_water txn_store layout_example mac_example = 0"
    by (simp add: high_water_def txn_value_def recover_void)
  with record_id_never_reused [OF txn_example(1,2,7) mac_example_ok(1) txn_example(8) no_handles_ok(1) a] a show ?thesis
    by (auto split: if_splits)
qed

end
