(* ===== verification/Container_Store.thy ===== *)
theory Container_Store
  imports Object_Container
begin

text \<open>
  The store of object containers, \<^verbatim>\<open>pico-keys-sdk/src/fs/object_container_store.c\<close>. A container has two
  manifest files; the valid one with the greater generation is current. An update writes new
  records, then the manifest of the other slot. Where manifests and records lie, how a record gets
  its identifier, and what happens when a container appears, disappears or a version is superseded,
  is the layout's business: five applications have a layout of their own.

  The state is the file store, the handle table of transactional objects (a layout may use it to
  allocate identifiers), and the outcomes of the coming memory allocations (all succeed once the
  list is used up). A layout's function pointer that may be NULL is the function that does nothing
  (\<open>write_valid\<close>, \<open>descriptor_valid\<close>: accepts everything). \<open>flash_commit\<close>, which only schedules work,
  leaves no trace in the contents of files, so that \<open>defer_commits\<close> does not appear.
\<close>

section \<open>State and layouts\<close>

record cstore =
  fs :: file_store
  txh :: txn_handles
  mem :: "bool list"

definition next_mem :: "cstore \<Rightarrow> bool \<times> cstore" where
  "next_mem st = (case mem st of [] \<Rightarrow> (True, st) | b # bs \<Rightarrow> (b, st\<lparr>mem := bs\<rparr>))"

definition on_fs :: "(file_store \<Rightarrow> 'a \<times> file_store) \<Rightarrow> cstore \<Rightarrow> 'a \<times> cstore" where
  "on_fs f st = (case f (fs st) of (a, s) \<Rightarrow> (a, st\<lparr>fs := s\<rparr>))"

record container_write =
  w_type :: u16
  w_tag :: u16
  w_data :: "byte list option"
  w_policy_id :: u16
  w_key_domain :: byte
  w_protection :: byte
  w_flags :: u16
  w_group :: u16

record candidate =
  c_manifest :: file_object_manifest
  c_slot :: byte
  c_valid :: bool

record 'c container_crypto =
  cr_auth :: "'c authenticator"
  cr_protector :: record_protector

record 'c container_state =
  candidates :: "candidate list"
  crypto :: "'c container_crypto"
  current_slot :: byte

definition SLOT_COUNT :: nat where "SLOT_COUNT = 2"
definition INVALID_SLOT :: byte where "INVALID_SLOT = 0xff"

record 'c container_layout =
  cl_namespace :: u16
  cl_kind :: u16
  manifest_fid :: "u32 \<Rightarrow> byte \<Rightarrow> u16"
  record_fid_of :: "u32 \<Rightarrow> file_object_descriptor \<Rightarrow> pk_status + u16"
  record_allocate :: "u32 \<Rightarrow> byte \<Rightarrow> container_write \<Rightarrow> 'c authenticator \<Rightarrow> cstore \<Rightarrow> (pk_status + u64 \<times> u16) \<times> cstore"
  policy_hash_of :: "u16 \<Rightarrow> pk_status + byte list"
  write_valid :: "container_write \<Rightarrow> bool"
  descriptor_valid_in :: "u32 \<Rightarrow> file_object_descriptor \<Rightarrow> bool"
  activate :: "u32 \<Rightarrow> cstore \<Rightarrow> pk_status \<times> cstore"
  deactivate :: "u32 \<Rightarrow> cstore \<Rightarrow> pk_status \<times> cstore"
  retire :: "u32 \<Rightarrow> 'c container_state \<Rightarrow> file_object_manifest \<Rightarrow> byte \<Rightarrow> byte \<Rightarrow> cstore \<Rightarrow> pk_status \<times> cstore"
  rollback_new_records :: bool

definition container_layout_valid :: "'c container_layout \<Rightarrow> bool" where
  "container_layout_valid layout \<longleftrightarrow> cl_namespace layout \<noteq> 0 \<and> cl_kind layout \<noteq> 0"

definition zero_manifest :: file_object_manifest where
  "zero_manifest = \<lparr>m_flags = 0, namespace_id = 0, container_kind = 0, container_id = 0, m_generation = 0,
     previous_generation = 0, m_extension_offset = 0, m_extension_size = 0, total_size = 0, object_count = 0,
     has_object = False, objects = replicate MAX_OBJECTS zero_descriptor\<rparr>"

definition zero_candidate :: candidate where
  "zero_candidate = \<lparr>c_manifest = zero_manifest, c_slot = 0, c_valid = False\<rparr>"

definition container_current :: "'c container_state \<Rightarrow> candidate option" where
  "container_current state =
     (if SLOT_COUNT \<le> unat (current_slot state) then None else Some (candidates state ! unat (current_slot state)))"

text \<open>The objects a manifest lists.\<close>

definition listed :: "file_object_manifest \<Rightarrow> file_object_descriptor list" where
  "listed m = take (unat (object_count m)) (objects m)"

section \<open>Loading\<close>

definition container_replace_file :: "u16 \<Rightarrow> byte list \<Rightarrow> file_store \<Rightarrow> pk_status \<times> file_store" where
  "container_replace_file fid data st =
     (let file = fs_search st fid;
          (r, st1) = (if file = None then (PICOKEYS_OK, st) else file_delete_no_commit file st)
      in if r \<noteq> PICOKEYS_OK then (PICOKEYS_EXEC_ERROR, st1)
         else case fs_new fid st1 of
                (None, st2) \<Rightarrow> (PICOKEYS_ERR_NO_MEMORY, st2)
              | (Some f, st2) \<Rightarrow> file_put_data (Some f) data st2)"

text \<open>The records of a manifest are there and framed as their descriptors say.\<close>

fun records_present ::
    "'c container_layout \<Rightarrow> u32 \<Rightarrow> file_store \<Rightarrow> file_object_descriptor list \<Rightarrow> pk_status" where
  "records_present layout cid st [] = PICOKEYS_OK"
| "records_present layout cid st (object # objs) =
     (if \<not> descriptor_valid_in layout cid object then PICOKEYS_WRONG_DATA
      else case record_fid_of layout cid object of
        Inl r \<Rightarrow> r
      | Inr fid \<Rightarrow>
          let rec = fs_search st fid in
          if \<not> file_has_data st rec then PICOKEYS_WRONG_DATA
          else case record_header_parse (Some (file_get_data st rec)) object of
                 Inl _ \<Rightarrow> PICOKEYS_WRONG_DATA
               | Inr info \<Rightarrow> records_present layout cid st objs)"

definition parse_slot ::
    "'c container_layout \<Rightarrow> u32 \<Rightarrow> byte \<Rightarrow> 'c authenticator \<Rightarrow> file_store \<Rightarrow> pk_status + candidate" where
  "parse_slot layout cid slot auth st =
     (let file = fs_search st (manifest_fid layout cid slot) in
      if \<not> file_has_data st file then Inl PICOKEYS_ERR_FILE_NOT_FOUND
      else case manifest_parse (Some (file_get_data st file)) auth (\<lambda>_. False) of
        Inl r \<Rightarrow> Inl r
      | Inr m \<Rightarrow>
          if namespace_id m \<noteq> cl_namespace layout \<or> container_kind m \<noteq> cl_kind layout
             \<or> container_id m \<noteq> cid \<or> object_count m = 0 then Inl PICOKEYS_WRONG_DATA
          else let r = records_present layout cid st (listed m) in
            if r \<noteq> PICOKEYS_OK then Inl r else Inr \<lparr>c_manifest = m, c_slot = slot, c_valid = True\<rparr>)"

text \<open>The loop over the slots; \<open>present\<close> says that some manifest file has data.\<close>

fun load_slots ::
    "'c container_layout \<Rightarrow> u32 \<Rightarrow> 'c container_crypto \<Rightarrow> file_store \<Rightarrow> byte list \<Rightarrow> bool \<Rightarrow> 'c container_state \<Rightarrow>
     pk_status + 'c container_state" where
  "load_slots layout cid cr st [] present state =
     (if current_slot state = INVALID_SLOT
      then Inl (if present then PICOKEYS_WRONG_DATA else PICOKEYS_ERR_FILE_NOT_FOUND)
      else Inr state)"
| "load_slots layout cid cr st (slot # slots) present state =
     (let present' = (present \<or> file_has_data st (fs_search st (manifest_fid layout cid slot))) in
      case parse_slot layout cid slot (cr_auth cr) st of
        Inr cand \<Rightarrow>
          (let state' = state\<lparr>candidates := (candidates state)[unat slot := cand]\<rparr>;
               cur = c_manifest (candidates state ! unat (current_slot state))
           in if current_slot state \<noteq> INVALID_SLOT \<and> m_generation cur = m_generation (c_manifest cand)
              then Inl PICOKEYS_WRONG_DATA
              else if current_slot state = INVALID_SLOT \<or> m_generation cur < m_generation (c_manifest cand)
              then load_slots layout cid cr st slots present' (state'\<lparr>current_slot := slot\<rparr>)
              else load_slots layout cid cr st slots present' state')
      | Inl r \<Rightarrow>
          if r \<noteq> PICOKEYS_ERR_FILE_NOT_FOUND \<and> r \<noteq> PICOKEYS_WRONG_DATA \<and> r \<noteq> PICOKEYS_WRONG_SIGNATURE then Inl r
          else load_slots layout cid cr st slots present' state)"

definition load_with_crypto ::
    "'c container_layout \<Rightarrow> u32 \<Rightarrow> 'c container_crypto \<Rightarrow> file_store \<Rightarrow> pk_status + 'c container_state" where
  "load_with_crypto layout cid cr st =
     load_slots layout cid cr st [0, 1] False
       \<lparr>candidates = [zero_candidate, zero_candidate], crypto = cr, current_slot = INVALID_SLOT\<rparr>"

definition container_load ::
    "'c container_layout \<Rightarrow> u32 \<Rightarrow> 'c container_crypto \<Rightarrow> 'c container_crypto option \<Rightarrow> file_store \<Rightarrow>
     pk_status + 'c container_state" where
  "container_load layout cid primary legacy st =
     (if \<not> container_layout_valid layout then Inl PICOKEYS_ERR_NULL_PARAM
      else case load_with_crypto layout cid primary st of
        Inr state \<Rightarrow> Inr state
      | Inl r \<Rightarrow>
          if r = PICOKEYS_ERR_FILE_NOT_FOUND then Inl r
          else case legacy of None \<Rightarrow> Inl r
            | Some l \<Rightarrow>
                (case load_with_crypto layout cid l st of Inl _ \<Rightarrow> Inl r | Inr state \<Rightarrow> Inr state))"

text \<open>Position of an object in the manifest.\<close>

definition container_find :: "file_object_manifest \<Rightarrow> u16 \<Rightarrow> u16 \<Rightarrow> nat option" where
  "container_find m otype tag =
     find (\<lambda>i. object_type (objects m ! i) = otype \<and> object_tag (objects m ! i) = tag) [0 ..< unat (object_count m)]"

definition container_references :: "file_object_manifest \<Rightarrow> u64 \<Rightarrow> bool" where
  "container_references m rid \<longleftrightarrow> list_ex (\<lambda>i. record_id (objects m ! i) = rid) [0 ..< unat (object_count m)]"

section \<open>Reading\<close>

text \<open>A manifest that lists one object only.\<close>

definition single :: "file_object_manifest \<Rightarrow> file_object_descriptor \<Rightarrow> file_object_manifest" where
  "single m object = m\<lparr>object_count := 1, has_object := True, objects := (objects m)[0 := object]\<rparr>"

definition container_unseal ::
    "'c container_layout \<Rightarrow> u32 \<Rightarrow> file_object_manifest \<Rightarrow> file_object_descriptor \<Rightarrow> record_protector \<Rightarrow> nat \<Rightarrow>
     file_store \<Rightarrow> pk_status + byte list" where
  "container_unseal layout cid m object protector room st =
     (case policy_hash_of layout (policy_id object) of
        Inl r \<Rightarrow> Inl r
      | Inr hash \<Rightarrow>
          (case record_fid_of layout cid object of
             Inl r \<Rightarrow> Inl r
           | Inr fid \<Rightarrow>
               let rec = fs_search st fid in
               if \<not> file_has_data st rec then Inl PICOKEYS_ERR_FILE_NOT_FOUND
               else record_unseal (single m object) hash protector (Some (file_get_data st rec)) room))"

fun validate_objects ::
    "'c container_layout \<Rightarrow> u32 \<Rightarrow> file_object_manifest \<Rightarrow> record_protector \<Rightarrow> file_object_descriptor list \<Rightarrow> cstore \<Rightarrow>
     pk_status \<times> cstore" where
  "validate_objects layout cid m protector [] st = (PICOKEYS_OK, st)"
| "validate_objects layout cid m protector (object # objs) st =
     (let (ok, st1) = (if 0 < logical_size object then next_mem st else (True, st)) in
      if \<not> ok then (PICOKEYS_ERR_MEMORY_FATAL, st1)
      else case container_unseal layout cid m object protector (unat (logical_size object)) (fs st1) of
        Inl r \<Rightarrow> (r, st1)
      | Inr plaintext \<Rightarrow>
          if length plaintext \<noteq> unat (logical_size object) then (PICOKEYS_WRONG_LENGTH, st1)
          else validate_objects layout cid m protector objs st1)"

definition container_validate ::
    "'c container_layout \<Rightarrow> u32 \<Rightarrow> candidate \<Rightarrow> record_protector \<Rightarrow> cstore \<Rightarrow> pk_status \<times> cstore" where
  "container_validate layout cid cand protector st =
     (if \<not> container_layout_valid layout \<or> \<not> c_valid cand then (PICOKEYS_ERR_NULL_PARAM, st)
      else validate_objects layout cid (c_manifest cand) protector (listed (c_manifest cand)) st)"

definition select_valid ::
    "'c container_layout \<Rightarrow> u32 \<Rightarrow> 'c container_state \<Rightarrow> cstore \<Rightarrow> (pk_status \<times> 'c container_state) \<times> cstore" where
  "select_valid layout cid state st =
     (case container_current state of
        None \<Rightarrow> ((PICOKEYS_ERR_FILE_NOT_FOUND, state), st)
      | Some current \<Rightarrow>
          (case container_validate layout cid current (cr_protector (crypto state)) st of (r, st1) \<Rightarrow>
             let previous = candidates state ! unat (c_slot current XOR 1) in
             if r \<noteq> PICOKEYS_OK \<and> c_valid previous
             then (case container_validate layout cid previous (cr_protector (crypto state)) st1 of (r2, st2) \<Rightarrow>
                     if r2 = PICOKEYS_OK then ((PICOKEYS_OK, state\<lparr>current_slot := c_slot previous\<rparr>), st2)
                     else ((r, state), st2))
             else ((r, state), st1)))"

text \<open>\<open>access\<close> is the caller's check of an object, always \<open>PICOKEYS_OK\<close> when it passed none.\<close>

definition container_object_size ::
    "'c container_layout \<Rightarrow> u32 \<Rightarrow> u16 \<Rightarrow> u16 \<Rightarrow> 'c container_crypto \<Rightarrow> 'c container_crypto option \<Rightarrow>
     (file_object_descriptor \<Rightarrow> pk_status) \<Rightarrow> file_store \<Rightarrow> pk_status + u32" where
  "container_object_size layout cid otype tag primary legacy access st =
     (case container_load layout cid primary legacy st of
        Inl r \<Rightarrow> Inl r
      | Inr state \<Rightarrow>
          let m = c_manifest (candidates state ! unat (current_slot state)) in
          case container_find m otype tag of
            None \<Rightarrow> Inl PICOKEYS_ERR_FILE_NOT_FOUND
          | Some i \<Rightarrow>
              if access (objects m ! i) \<noteq> PICOKEYS_OK then Inl (access (objects m ! i))
              else Inr (logical_size (objects m ! i)))"

text \<open>One attempt of a read: None when the slot has nothing to offer, the status or the data otherwise;
  a refusal of \<open>access\<close> ends the read, a failure to unseal does not.\<close>

datatype attempt = Skip | Stop pk_status | Retry pk_status | Data "byte list"

definition read_attempt ::
    "'c container_layout \<Rightarrow> u32 \<Rightarrow> u16 \<Rightarrow> u16 \<Rightarrow> 'c container_state \<Rightarrow> (file_object_descriptor \<Rightarrow> pk_status) \<Rightarrow> nat \<Rightarrow>
     file_store \<Rightarrow> byte \<Rightarrow> attempt" where
  "read_attempt layout cid otype tag state access room st slot =
     (let cand = candidates state ! unat slot; m = c_manifest cand in
      if \<not> c_valid cand then Skip
      else case container_find m otype tag of
        None \<Rightarrow> Skip
      | Some i \<Rightarrow>
          let object = objects m ! i in
          if access object \<noteq> PICOKEYS_OK then Stop (access object)
          else case container_unseal layout cid m object (cr_protector (crypto state)) room st of
                 Inl r \<Rightarrow> Retry r | Inr data \<Rightarrow> Data data)"

fun read_attempts :: "attempt list \<Rightarrow> pk_status \<Rightarrow> pk_status + byte list" where
  "read_attempts [] r = Inl r"
| "read_attempts (Skip # as) r = read_attempts as r"
| "read_attempts (Stop r' # as) r = Inl r'"
| "read_attempts (Retry r' # as) r = read_attempts as r'"
| "read_attempts (Data d # as) r = Inr d"

definition container_read ::
    "'c container_layout \<Rightarrow> u32 \<Rightarrow> u16 \<Rightarrow> u16 \<Rightarrow> 'c container_crypto \<Rightarrow> 'c container_crypto option \<Rightarrow>
     (file_object_descriptor \<Rightarrow> pk_status) \<Rightarrow> nat \<Rightarrow> file_store \<Rightarrow> pk_status + byte list" where
  "container_read layout cid otype tag primary legacy access room st =
     (case container_load layout cid primary legacy st of
        Inl r \<Rightarrow> Inl r
      | Inr state \<Rightarrow>
          let m = c_manifest (candidates state ! unat (current_slot state)) in
          case container_find m otype tag of
            None \<Rightarrow> Inl PICOKEYS_ERR_FILE_NOT_FOUND
          | Some i \<Rightarrow>
              read_attempts (map (read_attempt layout cid otype tag state access room st)
                [current_slot state, current_slot state XOR 1]) PICOKEYS_OK)"

section \<open>Updating\<close>

definition descriptor_compare :: "file_object_descriptor \<Rightarrow> file_object_descriptor \<Rightarrow> int" where
  "descriptor_compare a b =
     (if object_type a \<noteq> object_type b then (if object_type a < object_type b then -1 else 1)
      else if object_tag a \<noteq> object_tag b then (if object_tag a < object_tag b then -1 else 1)
      else 0)"

text \<open>\<open>qsort\<close> with \<open>descriptor_compare\<close>: an array whose neighbours are in order. Insertion sort stands for
  it; on distinct keys every sorting algorithm gives the same array.\<close>

fun insert_descriptor :: "file_object_descriptor \<Rightarrow> file_object_descriptor list \<Rightarrow> file_object_descriptor list" where
  "insert_descriptor x [] = [x]"
| "insert_descriptor x (y # ys) = (if descriptor_compare x y \<le> 0 then x # y # ys else y # insert_descriptor x ys)"

definition sort_descriptors :: "file_object_descriptor list \<Rightarrow> file_object_descriptor list" where
  "sort_descriptors ds = foldr insert_descriptor ds []"

definition sort_objects :: "file_object_manifest \<Rightarrow> file_object_manifest" where
  "sort_objects m = m\<lparr>objects := sort_descriptors (listed m) @ drop (unat (object_count m)) (objects m)\<rparr>"

text \<open>The descriptor of a record about to be written.\<close>

definition new_descriptor :: "container_write \<Rightarrow> u32 \<Rightarrow> u64 \<Rightarrow> file_object_descriptor" where
  "new_descriptor write generation rid =
     (let len = (case w_data write of None \<Rightarrow> 0 | Some d \<Rightarrow> length d) in
      \<lparr>object_type = w_type write, object_tag = w_tag write, d_generation = generation, logical_size = of_nat len,
       record_id = rid, stored_size = of_nat len, policy_id = w_policy_id write, key_domain = w_key_domain write,
       protection = w_protection write, d_flags = w_flags write, d_extension_offset = 0, d_extension_size = 0,
       transaction_group = w_group write\<rparr>)"

text \<open>A write without data has length 0.\<close>

definition write_bytes :: "container_write \<Rightarrow> byte list" where
  "write_bytes write = (case w_data write of None \<Rightarrow> [] | Some d \<Rightarrow> d)"

definition container_write_record ::
    "'c container_layout \<Rightarrow> u32 \<Rightarrow> byte \<Rightarrow> container_write \<Rightarrow> u32 \<Rightarrow> file_object_manifest \<Rightarrow> 'c container_crypto \<Rightarrow>
     cstore \<Rightarrow> (pk_status + file_object_descriptor \<times> u16) \<times> cstore" where
  "container_write_record layout cid target_slot write generation nxt cr st =
     (case record_allocate layout cid target_slot write (cr_auth cr) st of
        (Inl r, st1) \<Rightarrow> (Inl r, st1)
      | (Inr (rid, fid), st1) \<Rightarrow>
          let descriptor = new_descriptor write generation rid; data = write_bytes write;
              record_size = RECORD_HEADER_SIZE + length data + AUTH_TAG_SIZE in
          case policy_hash_of layout (w_policy_id write) of
            Inl r \<Rightarrow> (Inl r, st1)
          | Inr hash \<Rightarrow>
              if 2 ^ 32 - 1 - RECORD_HEADER_SIZE - AUTH_TAG_SIZE < length data then (Inl PICOKEYS_WRONG_LENGTH, st1)
              else let (ok, st2) = next_mem st1 in
                if \<not> ok then (Inl PICOKEYS_ERR_MEMORY_FATAL, st2)
                else case record_seal (single nxt descriptor) hash (cr_protector cr) data record_size of
                  Inl r \<Rightarrow> (Inl r, st2)
                | Inr rec \<Rightarrow>
                    if length rec \<noteq> record_size then (Inl PICOKEYS_WRONG_LENGTH, st2)
                    else case on_fs (container_replace_file fid rec) st2 of (r, st3) \<Rightarrow>
                      (if r \<noteq> PICOKEYS_OK then Inl r else Inr (descriptor, fid), st3))"

fun container_rollback :: "u16 list \<Rightarrow> file_store \<Rightarrow> file_store" where
  "container_rollback [] st = st"
| "container_rollback (fid # fids) st =
     container_rollback fids
       (let rec = fs_search st fid in if rec = None then st else snd (file_delete_no_commit rec st))"

definition write_refused :: "'c container_layout \<Rightarrow> container_write \<Rightarrow> bool" where
  "write_refused layout write \<longleftrightarrow>
     w_type write = 0 \<or> w_type write = 0xffff \<or> w_flags write AND FLAG_INLINE \<noteq> 0 \<or> \<not> write_valid layout write"

text \<open>The writes one after the other: the manifest being put together, the files of the new records.
  \<open>earlier\<close> are the writes already done.\<close>

fun container_writes ::
    "'c container_layout \<Rightarrow> u32 \<Rightarrow> byte \<Rightarrow> 'c container_crypto \<Rightarrow> container_write list \<Rightarrow> container_write list \<Rightarrow>
     file_object_manifest \<Rightarrow> u16 list \<Rightarrow> cstore \<Rightarrow> (pk_status \<times> file_object_manifest \<times> u16 list) \<times> cstore" where
  "container_writes layout cid target_slot cr earlier [] nxt fids st = ((PICOKEYS_OK, nxt, fids), st)"
| "container_writes layout cid target_slot cr earlier (write # writes) nxt fids st =
     (if write_refused layout write
         \<or> list_ex (\<lambda>w. w_type w = w_type write \<and> w_tag w = w_tag write) earlier
      then ((PICOKEYS_WRONG_DATA, nxt, fids), st)
      else let found = container_find nxt (w_type write) (w_tag write);
               old = (case found of None \<Rightarrow> 0 | Some i \<Rightarrow> d_generation (objects nxt ! i)) in
        if found \<noteq> None \<and> old = - 1 then ((PICOKEYS_WRONG_DATA, nxt, fids), st)
        else case container_write_record layout cid target_slot write (old + 1) nxt cr st of
          (Inl r, st1) \<Rightarrow> ((r, nxt, fids), st1)
        | (Inr (replacement, fid), st1) \<Rightarrow>
            (case found of
               Some i \<Rightarrow>
                 container_writes layout cid target_slot cr (earlier @ [write]) writes
                   (nxt\<lparr>objects := (objects nxt)[i := replacement]\<rparr>) (fids @ [fid]) st1
             | None \<Rightarrow>
                 if unat (object_count nxt) < MAX_OBJECTS
                 then container_writes layout cid target_slot cr (earlier @ [write]) writes
                        (nxt\<lparr>objects := (objects nxt)[unat (object_count nxt) := replacement],
                             object_count := object_count nxt + 1, has_object := True\<rparr>) (fids @ [fid]) st1
                 else ((PICOKEYS_ERR_NO_MEMORY, nxt, fids @ [fid]), st1)))"

text \<open>The manifest an update starts from; Inl when the current one cannot be updated.\<close>

definition next_manifest :: "'c container_layout \<Rightarrow> u32 \<Rightarrow> candidate option \<Rightarrow> pk_status + file_object_manifest" where
  "next_manifest layout cid current =
     (case current of
        Some cand \<Rightarrow>
          let nxt = c_manifest cand in
          if m_generation nxt = - 1 \<or> m_extension_size nxt \<noteq> 0 then Inl PICOKEYS_WRONG_DATA
          else if list_ex (\<lambda>object. d_extension_size object \<noteq> 0) (listed nxt) then Inl PICOKEYS_WRONG_DATA
          else Inr (nxt\<lparr>previous_generation := m_generation nxt, m_generation := m_generation nxt + 1\<rparr>)
      | None \<Rightarrow>
          Inr (zero_manifest\<lparr>namespace_id := cl_namespace layout, container_kind := cl_kind layout,
                 container_id := cid, m_generation := 1\<rparr>))"

definition MAX_MANIFEST_SIZE :: nat where
  "MAX_MANIFEST_SIZE = MANIFEST_HEADER_SIZE + MAX_OBJECTS * DESCRIPTOR_SIZE + AUTH_TAG_SIZE"

definition write_manifest ::
    "'c container_layout \<Rightarrow> u32 \<Rightarrow> byte \<Rightarrow> 'c authenticator \<Rightarrow> file_object_manifest \<Rightarrow> cstore \<Rightarrow> pk_status \<times> cstore" where
  "write_manifest layout cid target_slot auth nxt st =
     (case manifest_build nxt (Some []) auth MAX_MANIFEST_SIZE of
        Inl r \<Rightarrow> (r, st)
      | Inr data \<Rightarrow> on_fs (container_replace_file (manifest_fid layout cid target_slot) data) st)"

definition roll_back :: "'c container_layout \<Rightarrow> u16 list \<Rightarrow> cstore \<Rightarrow> cstore" where
  "roll_back layout fids st =
     (if rollback_new_records layout then st\<lparr>fs := container_rollback fids (fs st)\<rparr> else st)"

text \<open>\<open>r\<close> is what loading answered: the update goes on with a state that has been found, or with none.\<close>

definition update_loaded ::
    "'c container_layout \<Rightarrow> u32 \<Rightarrow> container_write list \<Rightarrow> 'c container_state \<Rightarrow> cstore \<Rightarrow> pk_status \<times> cstore" where
  "update_loaded layout cid writes state st =
     (let current = container_current state in
      case next_manifest layout cid current of
        Inl r \<Rightarrow> (r, st)
      | Inr nxt0 \<Rightarrow>
          let target_slot = (case current of None \<Rightarrow> 0 | Some cand \<Rightarrow> c_slot cand XOR 1) in
          case container_writes layout cid target_slot (crypto state) [] writes nxt0 [] st of
            ((r, nxt1, fids), st1) \<Rightarrow>
              if r \<noteq> PICOKEYS_OK then (r, roll_back layout fids st1)
              else let nxt = sort_objects nxt1 in
                case write_manifest layout cid target_slot (cr_auth (crypto state)) nxt st1 of (r2, st2) \<Rightarrow>
                  if r2 \<noteq> PICOKEYS_OK then (r2, roll_back layout fids st2)
                  else case activate layout cid st2 of (r3, st3) \<Rightarrow>
                    if r3 \<noteq> PICOKEYS_OK then (r3, st3)
                    else retire layout cid state nxt
                           (case current of None \<Rightarrow> INVALID_SLOT | Some cand \<Rightarrow> c_slot cand) target_slot st3)"

definition container_update_internal ::
    "'c container_layout \<Rightarrow> u32 \<Rightarrow> container_write list \<Rightarrow> 'c container_crypto \<Rightarrow> 'c container_crypto option \<Rightarrow> bool \<Rightarrow>
     cstore \<Rightarrow> pk_status \<times> cstore" where
  "container_update_internal layout cid writes primary legacy validate_records st =
     (if \<not> container_layout_valid layout \<or> writes = [] \<or> MAX_OBJECTS < length writes
      then (PICOKEYS_ERR_NULL_PARAM, st)
      else case container_load layout cid primary legacy (fs st) of
        Inl r \<Rightarrow>
          if r \<noteq> PICOKEYS_ERR_FILE_NOT_FOUND then (r, st)
          else update_loaded layout cid writes
                 \<lparr>candidates = [zero_candidate, zero_candidate], crypto = primary, current_slot = INVALID_SLOT\<rparr> st
      | Inr state \<Rightarrow>
          if validate_records
          then case select_valid layout cid state st of ((r, state'), st1) \<Rightarrow>
            if r \<noteq> PICOKEYS_OK then (r, st1) else update_loaded layout cid writes state' st1
          else update_loaded layout cid writes state st)"

definition container_update ::
    "'c container_layout \<Rightarrow> u32 \<Rightarrow> container_write list \<Rightarrow> 'c container_crypto \<Rightarrow> 'c container_crypto option \<Rightarrow>
     cstore \<Rightarrow> pk_status \<times> cstore" where
  "container_update layout cid writes primary legacy st =
     container_update_internal layout cid writes primary legacy True st"

definition container_update_without_record_validation ::
    "'c container_layout \<Rightarrow> u32 \<Rightarrow> container_write list \<Rightarrow> 'c container_crypto \<Rightarrow> 'c container_crypto option \<Rightarrow>
     cstore \<Rightarrow> pk_status \<times> cstore" where
  "container_update_without_record_validation layout cid writes primary legacy st =
     container_update_internal layout cid writes primary legacy False st"

section \<open>Removing and deleting\<close>

text \<open>The manifest without its object number \<open>i\<close>.\<close>

definition without_object :: "file_object_manifest \<Rightarrow> nat \<Rightarrow> file_object_manifest" where
  "without_object m i =
     (let n = unat (object_count m) in
      m\<lparr>objects := (take i (objects m) @ drop (i + 1) (take n (objects m)) @ drop (n - 1) (objects m))[n - 1 := zero_descriptor],
        object_count := object_count m - 1,
        previous_generation := m_generation m, m_generation := m_generation m + 1\<rparr>)"

definition container_remove ::
    "'c container_layout \<Rightarrow> u32 \<Rightarrow> u16 \<Rightarrow> u16 \<Rightarrow> 'c container_crypto \<Rightarrow> 'c container_crypto option \<Rightarrow> cstore \<Rightarrow>
     pk_status \<times> cstore" where
  "container_remove layout cid otype tag primary legacy st =
     (if \<not> container_layout_valid layout then (PICOKEYS_ERR_NULL_PARAM, st)
      else case container_load layout cid primary legacy (fs st) of
        Inl r \<Rightarrow> (r, st)
      | Inr state0 \<Rightarrow>
          (case select_valid layout cid state0 st of ((r, state), st1) \<Rightarrow>
             if r \<noteq> PICOKEYS_OK then (r, st1)
             else let current = candidates state ! unat (current_slot state); nxt0 = c_manifest current in
               case container_find nxt0 otype tag of
                 None \<Rightarrow> (PICOKEYS_ERR_FILE_NOT_FOUND, st1)
               | Some i \<Rightarrow>
                   if m_generation nxt0 = - 1 \<or> object_count nxt0 \<le> 1 \<or> m_extension_size nxt0 \<noteq> 0
                      \<or> d_extension_size (objects nxt0 ! i) \<noteq> 0
                   then (PICOKEYS_WRONG_DATA, st1)
                   else let nxt = without_object nxt0 i; target_slot = c_slot current XOR 1 in
                     case write_manifest layout cid target_slot (cr_auth (crypto state)) nxt st1 of (r2, st2) \<Rightarrow>
                       if r2 \<noteq> PICOKEYS_OK then (r2, st2)
                       else retire layout cid state nxt (c_slot current) target_slot st2))"

fun delete_records ::
    "'c container_layout \<Rightarrow> u32 \<Rightarrow> file_object_descriptor list \<Rightarrow> file_store \<Rightarrow> pk_status \<times> file_store" where
  "delete_records layout cid [] st = (PICOKEYS_OK, st)"
| "delete_records layout cid (object # objs) st =
     (case record_fid_of layout cid object of
        Inl r \<Rightarrow> (r, st)
      | Inr fid \<Rightarrow>
          let rec = fs_search st fid; (r, st1) = (if rec = None then (PICOKEYS_OK, st) else file_delete_no_commit rec st) in
          if r \<noteq> PICOKEYS_OK then (r, st1) else delete_records layout cid objs st1)"

fun delete_slots :: "'c container_layout \<Rightarrow> u32 \<Rightarrow> 'c container_state \<Rightarrow> byte list \<Rightarrow> file_store \<Rightarrow> pk_status \<times> file_store" where
  "delete_slots layout cid state [] st = (PICOKEYS_OK, st)"
| "delete_slots layout cid state (slot # slots) st =
     (let cand = candidates state ! unat slot;
          (r, st1) = (if c_valid cand then delete_records layout cid (listed (c_manifest cand)) st else (PICOKEYS_OK, st))
      in if r \<noteq> PICOKEYS_OK then (r, st1)
         else let file = fs_search st1 (manifest_fid layout cid slot);
                  (r2, st2) = (if file = None then (PICOKEYS_OK, st1) else file_delete_no_commit file st1)
              in if r2 \<noteq> PICOKEYS_OK then (r2, st2) else delete_slots layout cid state slots st2)"

definition container_delete ::
    "'c container_layout \<Rightarrow> u32 \<Rightarrow> 'c container_crypto \<Rightarrow> 'c container_crypto option \<Rightarrow> cstore \<Rightarrow> pk_status \<times> cstore" where
  "container_delete layout cid primary legacy st =
     (if \<not> container_layout_valid layout then (PICOKEYS_ERR_NULL_PARAM, st)
      else case container_load layout cid primary legacy (fs st) of
        Inl r \<Rightarrow> (r, st)
      | Inr state \<Rightarrow>
          (case on_fs (delete_slots layout cid state [0, 1]) st of (r, st1) \<Rightarrow>
             if r \<noteq> PICOKEYS_OK then (r, st1) else deactivate layout cid st1))"

section \<open>What loading finds\<close>

lemma parse_slot_valid:
  "parse_slot layout cid slot auth st = Inr cand \<Longrightarrow> c_valid cand \<and> c_slot cand = slot"
  by (auto simp: parse_slot_def Let_def split: if_splits sum.splits)

text \<open>The slots of a loaded container: the current one parses; the other does not, or is older.\<close>

lemma load_with_crypto_cases:
  assumes "load_with_crypto layout cid cr st = Inr state"
  obtains cand where "current_slot state \<in> {0, 1}" "crypto state = cr" "length (candidates state) = 2"
    "parse_slot layout cid (current_slot state) (cr_auth cr) st = Inr cand"
    "candidates state ! unat (current_slot state) = cand"
    "(\<exists>other. parse_slot layout cid (current_slot state XOR 1) (cr_auth cr) st = Inr other \<and>
        candidates state ! unat (current_slot state XOR 1) = other \<and>
        m_generation (c_manifest other) < m_generation (c_manifest cand)) \<or>
     (\<exists>e. parse_slot layout cid (current_slot state XOR 1) (cr_auth cr) st = Inl e \<and>
        candidates state ! unat (current_slot state XOR 1) = zero_candidate)"
  using assms
  by (auto simp: load_with_crypto_def INVALID_SLOT_def Let_def not_less neq_iff split: sum.splits if_splits)

lemma load_from_slots:
  assumes "slot \<in> {0, 1}" "parse_slot layout cid slot (cr_auth cr) st = Inr cand"
    and "(\<exists>other. parse_slot layout cid (slot XOR 1) (cr_auth cr) st = Inr other \<and> m_generation (c_manifest other) < m_generation (c_manifest cand)) \<or>
     (\<exists>e. parse_slot layout cid (slot XOR 1) (cr_auth cr) st = Inl e \<and>
        e \<in> {PICOKEYS_ERR_FILE_NOT_FOUND, PICOKEYS_WRONG_DATA, PICOKEYS_WRONG_SIGNATURE})"
  shows "\<exists>state. load_with_crypto layout cid cr st = Inr state \<and> current_slot state = slot \<and> candidates state ! unat slot = cand"
  using assms
  by (auto simp: load_with_crypto_def INVALID_SLOT_def Let_def)

end
