(* ===== verification/Container_Update.thy ===== *)
theory Container_Update
  imports Container_Store
begin

text \<open>
  What an update of a container promises, \<^verbatim>\<open>pico-keys-sdk/src/fs/object_container_store.c\<close>: whatever
  flash operations fail, the container afterwards holds its old objects or the new ones. The
  layouts that keep this promise are those with the laws of the locale \<open>container_client\<close>: records
  of a new version go to files that did not exist, superseded records are deleted only when neither
  version lists them, and the client's own files are apart from those of the container.
\<close>

section \<open>Versions\<close>

definition recoverable :: "pk_status \<Rightarrow> bool" where
  "recoverable e \<longleftrightarrow> e \<in> {PICOKEYS_ERR_FILE_NOT_FOUND, PICOKEYS_WRONG_DATA, PICOKEYS_WRONG_SIGNATURE}"

text \<open>The manifest in a slot, whether or not its records are there.\<close>

definition slot_manifest ::
    "'c container_layout \<Rightarrow> u32 \<Rightarrow> byte \<Rightarrow> 'c authenticator \<Rightarrow> file_store \<Rightarrow> pk_status + file_object_manifest" where
  "slot_manifest layout cid slot auth st =
     (case fdata st (manifest_fid layout cid slot) of
        None \<Rightarrow> Inl PICOKEYS_ERR_FILE_NOT_FOUND
      | Some d \<Rightarrow>
          if d = [] then Inl PICOKEYS_ERR_FILE_NOT_FOUND
          else case manifest_parse (Some d) auth (\<lambda>_. False) of
            Inl r \<Rightarrow> Inl r
          | Inr m \<Rightarrow>
              if namespace_id m \<noteq> cl_namespace layout \<or> container_kind m \<noteq> cl_kind layout
                 \<or> container_id m \<noteq> cid \<or> object_count m = 0 then Inl PICOKEYS_WRONG_DATA else Inr m)"

lemma data_fdata: "file_get_data st (fs_search st fid) = (case fdata st fid of None \<Rightarrow> [] | Some d \<Rightarrow> d)"
  by (auto simp: file_get_data_def fdata_def split: option.split)

lemma parse_slot_manifest:
  "parse_slot layout cid slot auth st =
     (case slot_manifest layout cid slot auth st of
        Inl r \<Rightarrow> Inl r
      | Inr m \<Rightarrow> let r = records_present layout cid st (listed m) in
          if r \<noteq> PICOKEYS_OK then Inl r else Inr \<lparr>c_manifest = m, c_slot = slot, c_valid = True\<rparr>)"
  by (auto simp: parse_slot_def slot_manifest_def has_data_fdata data_fdata Let_def split: option.split sum.split)

text \<open>A record is read gone: its file is a dynamic one and opens.\<close>

definition record_sound ::
    "'c container_layout \<Rightarrow> u32 \<Rightarrow> record_protector \<Rightarrow> file_store \<Rightarrow> file_object_manifest \<Rightarrow> file_object_descriptor \<Rightarrow> bool" where
  "record_sound layout cid pr st m d \<longleftrightarrow>
     descriptor_valid_in layout cid d \<and>
     (\<exists>fid. record_fid_of layout cid d = Inr fid \<and> plain st fid) \<and>
     (\<exists>p. container_unseal layout cid m d pr (unat (logical_size d)) st = Inr p)"

definition descriptor_key :: "file_object_descriptor \<Rightarrow> u16 \<times> u16" where
  "descriptor_key d = (object_type d, object_tag d)"

text \<open>A manifest that can be a version of the container, all its records there.\<close>

definition version_ok ::
    "'c container_layout \<Rightarrow> u32 \<Rightarrow> record_protector \<Rightarrow> file_store \<Rightarrow> file_object_manifest \<Rightarrow> bool" where
  "version_ok layout cid pr st m \<longleftrightarrow>
     namespace_id m = cl_namespace layout \<and> container_kind m = cl_kind layout \<and> container_id m = cid \<and>
     length (objects m) = MAX_OBJECTS \<and> unat (object_count m) \<le> MAX_OBJECTS \<and>
     distinct (map descriptor_key (listed m)) \<and> (\<forall>d \<in> set (listed m). record_sound layout cid pr st m d)"

definition version_value ::
    "'c container_layout \<Rightarrow> u32 \<Rightarrow> record_protector \<Rightarrow> file_store \<Rightarrow> file_object_manifest \<Rightarrow> u16 \<times> u16 \<Rightarrow> byte list option" where
  "version_value layout cid pr st m k =
     (case find (\<lambda>d. descriptor_key d = k) (listed m) of
        None \<Rightarrow> None
      | Some d \<Rightarrow> (case container_unseal layout cid m d pr (unat (logical_size d)) st of Inl _ \<Rightarrow> None | Inr p \<Rightarrow> Some p))"

text \<open>What a reader finds in the container: object type and tag to plaintext.\<close>

definition container_value ::
    "'c container_layout \<Rightarrow> u32 \<Rightarrow> 'c container_crypto \<Rightarrow> file_store \<Rightarrow> u16 \<times> u16 \<Rightarrow> byte list option" where
  "container_value layout cid cr st =
     (case load_with_crypto layout cid cr st of
        Inl _ \<Rightarrow> (\<lambda>_. None)
      | Inr state \<Rightarrow>
          version_value layout cid (cr_protector cr) st (c_manifest (candidates state ! unat (current_slot state))))"

fun apply_writes :: "container_write list \<Rightarrow> (u16 \<times> u16 \<Rightarrow> byte list option) \<Rightarrow> u16 \<times> u16 \<Rightarrow> byte list option" where
  "apply_writes [] v = v"
| "apply_writes (w # ws) v = apply_writes ws (v((w_type w, w_tag w) \<mapsto> write_bytes w))"

text \<open>The version in a slot is the current one: complete, and newer than what the other slot has, if
  that is a manifest at all.\<close>

definition slot_holds ::
    "'c container_layout \<Rightarrow> u32 \<Rightarrow> 'c container_crypto \<Rightarrow> file_store \<Rightarrow> byte \<Rightarrow> file_object_manifest \<Rightarrow> bool" where
  "slot_holds layout cid cr st slot m \<longleftrightarrow>
     slot \<in> {0, 1} \<and> slot_manifest layout cid slot (cr_auth cr) st = Inr m \<and>
     version_ok layout cid (cr_protector cr) st m \<and>
     (case slot_manifest layout cid (slot XOR 1) (cr_auth cr) st of
        Inl e \<Rightarrow> recoverable e
      | Inr m' \<Rightarrow> m_generation m' < m_generation m \<and>
          (\<forall>d \<in> set (listed m'). \<exists>fid. record_fid_of layout cid d = Inr fid \<and> plain st fid))"

definition container_absent :: "'c container_layout \<Rightarrow> u32 \<Rightarrow> file_store \<Rightarrow> bool" where
  "container_absent layout cid st \<longleftrightarrow>
     fdata st (manifest_fid layout cid 0) = None \<and> fdata st (manifest_fid layout cid 1) = None"

definition container_wf :: "'c container_layout \<Rightarrow> u32 \<Rightarrow> 'c container_crypto \<Rightarrow> file_store \<Rightarrow> bool" where
  "container_wf layout cid cr st \<longleftrightarrow> container_absent layout cid st \<or> (\<exists>slot m. slot_holds layout cid cr st slot m)"

section \<open>Reading records through the files\<close>

lemma container_unseal_fdata:
  "container_unseal layout cid m d pr room st =
     (case policy_hash_of layout (policy_id d) of Inl r \<Rightarrow> Inl r
      | Inr hash \<Rightarrow> (case record_fid_of layout cid d of Inl r \<Rightarrow> Inl r
        | Inr fid \<Rightarrow> (case fdata st fid of None \<Rightarrow> Inl PICOKEYS_ERR_FILE_NOT_FOUND
          | Some data \<Rightarrow> if data = [] then Inl PICOKEYS_ERR_FILE_NOT_FOUND
              else record_unseal (single m d) hash pr (Some data) room)))"
  by (auto simp: container_unseal_def has_data_fdata data_fdata Let_def split: option.split sum.split)

lemma container_unseal_cong:
  "(\<And>fid. record_fid_of layout cid d = Inr fid \<Longrightarrow> fdata st' fid = fdata st fid) \<Longrightarrow>
   container_unseal layout cid m d pr room st' = container_unseal layout cid m d pr room st"
  by (simp add: container_unseal_fdata split: sum.split)

lemma single_first [simp]: "objects m \<noteq> [] \<Longrightarrow> objects (single m d) ! 0 = d"
  by (cases "objects m") (simp_all add: single_def)

lemma single_fields [simp]:
  "has_object (single m d)" "namespace_id (single m d) = namespace_id m" "container_kind (single m d) = container_kind m"
  "container_id (single m d) = container_id m"
  by (simp_all add: single_def)

text \<open>Which manifest lists the record matters only through the container's identity.\<close>

lemma container_unseal_manifest:
  assumes "namespace_id m' = namespace_id m" "container_kind m' = container_kind m" "container_id m' = container_id m"
    and "objects m \<noteq> []" "objects m' \<noteq> []"
  shows "container_unseal layout cid m' d pr room st = container_unseal layout cid m d pr room st"
proof -
  have i: "identity_of (single m' d) = identity_of (single m d)"
    using single_first [OF assms(4)] single_first [OF assms(5)] assms(1-3)
    by (simp add: identity_of_def fun_eq_iff Let_def)
  have b: "record_identity_build (single m' d) = record_identity_build (single m d)"
    using single_first [OF assms(4)] single_first [OF assms(5)] by (simp add: record_identity_build_def fun_eq_iff i)
  have r: "record_unseal (single m' d) h pr x room = record_unseal (single m d) h pr x room" for h x
    unfolding record_unseal_def Let_def b single_first [OF assms(4)] single_first [OF assms(5)] by (simp only: single_fields)
  show ?thesis unfolding container_unseal_fdata r ..
qed

lemma unsealed_record:
  assumes "container_unseal layout cid m d pr room st = Inr p" "objects m \<noteq> []"
  obtains fid data info where "record_fid_of layout cid d = Inr fid" "fdata st fid = Some data" "data \<noteq> []"
    "record_header_parse (Some data) d = Inr info" "length p = unat (logical_size d)"
  using assms
  by (auto simp: container_unseal_fdata record_unseal_def record_header_parse_def Let_def split: sum.splits option.splits if_splits)

lemma container_unseal_room:
  "container_unseal layout cid m d pr (unat (logical_size d)) st = Inr p \<Longrightarrow> objects m \<noteq> [] \<Longrightarrow> length p \<le> room \<Longrightarrow>
   container_unseal layout cid m d pr room st = Inr p"
  by (auto simp: container_unseal_fdata record_unseal_def record_header_parse_def Let_def split: sum.splits option.splits if_splits)

lemma record_header_id: "record_header_parse (Some data) d = Inr info \<Longrightarrow> get_uint64_be (drop 8 data) = record_id d"
  by (auto simp: record_header_parse_def Let_def split: if_splits)

lemma records_present_cases:
  assumes "\<And>d e. record_fid_of layout cid d = Inl e \<Longrightarrow> recoverable e"
  shows "records_present layout cid st ds = PICOKEYS_OK \<or> recoverable (records_present layout cid st ds)"
  using assms by (induction ds) (auto simp: recoverable_def Let_def split: sum.split)

lemma records_present_ok:
  assumes "\<forall>d \<in> set ds. record_sound layout cid pr st m d" "objects m \<noteq> []"
  shows "records_present layout cid st ds = PICOKEYS_OK"
  using assms(1)
proof (induction ds)
  case (Cons d ds)
  then obtain p where p: "container_unseal layout cid m d pr (unat (logical_size d)) st = Inr p" "descriptor_valid_in layout cid d"
    by (auto simp: record_sound_def)
  obtain fid data info where f: "record_fid_of layout cid d = Inr fid" "fdata st fid = Some data" "data \<noteq> []"
      "record_header_parse (Some data) d = Inr info"
    by (rule unsealed_record [OF p(1) assms(2)])
  have "records_present layout cid st ds = PICOKEYS_OK" using Cons by simp
  then show ?case by (simp add: f p(2) has_data_fdata data_fdata Let_def)
qed simp

lemma parse_slotD:
  "parse_slot layout cid slot auth st = Inr cand \<Longrightarrow>
   slot_manifest layout cid slot auth st = Inr (c_manifest cand) \<and> c_slot cand = slot \<and> c_valid cand \<and>
   records_present layout cid st (listed (c_manifest cand)) = PICOKEYS_OK"
  by (auto simp: parse_slot_manifest Let_def split: sum.splits if_splits)

text \<open>The version a slot holds is the one that is loaded.\<close>

lemma load_holds:
  assumes "\<And>d e. record_fid_of layout cid d = Inl e \<Longrightarrow> recoverable e" "slot_holds layout cid cr st slot m"
  obtains state where "load_with_crypto layout cid cr st = Inr state" "current_slot state = slot" "crypto state = cr"
    "candidates state ! unat slot = \<lparr>c_manifest = m, c_slot = slot, c_valid = True\<rparr>"
    "c_valid (candidates state ! unat (slot XOR 1)) \<Longrightarrow>
       slot_manifest layout cid (slot XOR 1) (cr_auth cr) st = Inr (c_manifest (candidates state ! unat (slot XOR 1))) \<and>
       c_slot (candidates state ! unat (slot XOR 1)) = slot XOR 1 \<and>
       records_present layout cid st (listed (c_manifest (candidates state ! unat (slot XOR 1)))) = PICOKEYS_OK"
proof -
  let ?other = "slot XOR 1"
  have v: "objects m \<noteq> []" using assms(2) by (auto simp: slot_holds_def version_ok_def MAX_OBJECTS_def)
  have s: "slot \<in> {0, 1}" using assms(2) by (simp add: slot_holds_def)
  have p: "parse_slot layout cid slot (cr_auth cr) st = Inr \<lparr>c_manifest = m, c_slot = slot, c_valid = True\<rparr>"
  proof -
    have h: "\<forall>d \<in> set (listed m). record_sound layout cid (cr_protector cr) st m d" "slot_manifest layout cid slot (cr_auth cr) st = Inr m"
      using assms(2) by (simp_all add: slot_holds_def version_ok_def)
    show ?thesis using records_present_ok [OF h(1) v] h(2) by (simp add: parse_slot_manifest)
  qed
  have rc: "records_present layout cid st ds = PICOKEYS_OK \<or> recoverable (records_present layout cid st ds)" for ds
    by (rule records_present_cases [OF assms(1)])
  have o: "(\<exists>other. parse_slot layout cid ?other (cr_auth cr) st = Inr other \<and> m_generation (c_manifest other) < m_generation m) \<or>
     (\<exists>e. parse_slot layout cid ?other (cr_auth cr) st = Inl e \<and> e \<in> {PICOKEYS_ERR_FILE_NOT_FOUND, PICOKEYS_WRONG_DATA, PICOKEYS_WRONG_SIGNATURE})"
  proof (cases "slot_manifest layout cid ?other (cr_auth cr) st")
    case (Inl e)
    with assms(2) show ?thesis by (auto simp: slot_holds_def parse_slot_manifest recoverable_def)
  next
    case (Inr m')
    with assms(2) rc [of "listed m'"] show ?thesis
      by (auto simp: slot_holds_def parse_slot_manifest recoverable_def Let_def)
  qed
  obtain state where l: "load_with_crypto layout cid cr st = Inr state" "current_slot state = slot"
      "candidates state ! unat slot = \<lparr>c_manifest = m, c_slot = slot, c_valid = True\<rparr>"
    using load_from_slots [OF s p] o by auto
  show thesis
  proof (cases rule: load_with_crypto_cases [OF l(1)])
    case (1 cand)
    from 1(6) have "c_valid (candidates state ! unat ?other) \<Longrightarrow>
       parse_slot layout cid ?other (cr_auth cr) st = Inr (candidates state ! unat ?other)"
      unfolding l(2) by (auto simp: zero_candidate_def)
    with l 1(2) show ?thesis by (intro that) (auto dest!: parse_slotD)
  qed
qed

lemma value_holds:
  assumes "\<And>d e. record_fid_of layout cid d = Inl e \<Longrightarrow> recoverable e" "slot_holds layout cid cr st slot m"
  shows "container_value layout cid cr st = version_value layout cid (cr_protector cr) st m"
  by (rule load_holds [OF assms]) (simp_all add: container_value_def)

lemma load_absent:
  "container_absent layout cid st \<Longrightarrow> load_with_crypto layout cid cr st = Inl PICOKEYS_ERR_FILE_NOT_FOUND"
  by (simp add: container_absent_def load_with_crypto_def Let_def parse_slot_manifest slot_manifest_def has_data_fdata INVALID_SLOT_def)

lemma value_absent: "container_absent layout cid st \<Longrightarrow> container_value layout cid cr st = (\<lambda>_. None)"
  by (simp add: container_value_def load_absent)

section \<open>Files\<close>

definition manifest_fids :: "'c container_layout \<Rightarrow> u32 \<Rightarrow> u16 set" where
  "manifest_fids layout cid = {manifest_fid layout cid 0, manifest_fid layout cid 1}"

text \<open>Between two states, files that had data keep it, and so do those of \<open>keep\<close>, with or without
  data; the files of \<open>own\<close> are not looked at.\<close>

definition grows :: "u16 set \<Rightarrow> u16 set \<Rightarrow> file_store \<Rightarrow> file_store \<Rightarrow> bool" where
  "grows own keep st st' \<longleftrightarrow>
     (\<forall>x. plain st' x = plain st x) \<and>
     (\<forall>x. plain st x \<longrightarrow> x \<notin> own \<longrightarrow> fdata st x \<noteq> None \<or> x \<in> keep \<longrightarrow> fdata st' x = fdata st x)"

lemma grows_refl: "grows own keep st st"
  by (simp add: grows_def)

lemma grows_trans: "grows own keep st st1 \<Longrightarrow> grows own keep st1 st2 \<Longrightarrow> grows own keep st st2"
  by (simp add: grows_def)

lemma grows_own: "only_in A st st' \<Longrightarrow> A \<subseteq> own \<Longrightarrow> grows own keep st st'"
  by (auto simp: grows_def only_in_def)

lemma grows_fresh:
  "grows own keep st st1 \<Longrightarrow> only_in A st1 st2 \<Longrightarrow> \<forall>x \<in> A. fdata st x = None \<and> x \<notin> keep \<Longrightarrow> grows own keep st st2"
  by (auto simp: grows_def only_in_def)

lemma growsD:
  "grows own keep st st' \<Longrightarrow> plain st x \<Longrightarrow> x \<notin> own \<Longrightarrow> fdata st x \<noteq> None \<or> x \<in> keep \<Longrightarrow> fdata st' x = fdata st x"
  unfolding grows_def by blast

lemma grows_plain: "grows own keep st st' \<Longrightarrow> plain st' x = plain st x"
  by (simp add: grows_def)

lemma delete_absent:
  assumes "store_inv st" "plain st fid" "fs_search st fid = Some f" "fdata st fid = None" "file_delete_no_commit (Some f) st = (r, st')"
  shows "fdata st' fid = None"
proof -
  obtain m st1 where m: "meta_delete_internal (file_fid (ix st) f) st = (m, st1)" by fastforce
  note ml = meta_delete_law [OF m assms(1)]
  have s1: "store_inv st1" "plain st1 fid" "fs_search st1 fid = Some f" "fdata st1 fid = None"
    using ml(1) [of fid] ml(2,3) assms by (simp_all add: only_at_def)
  have c: "flash_clear_file (Some f) st1 = (PICOKEYS_OK, st1)"
    using s1(3,4) by (simp add: flash_clear_file_def fdata_def)
  obtain e st3 where e: "fs_delete_dynamic f st1 = (e, st3)" by fastforce
  note dl = fs_delete_dynamic_law [OF s1(1-3) e]
  have "st' = st3"
    using assms(5) m c e by (auto simp: file_delete_no_commit_def file_delete_no_commit_parts_def split: if_splits)
  with dl(3) show ?thesis by (simp add: fdata_def)
qed

lemma container_replace_law:
  assumes "store_inv st" "plain st fid" "container_replace_file fid data st = (r, st')"
  shows "only_in {fid} st st'" "r = PICOKEYS_OK \<Longrightarrow> fdata st' fid = Some data"
    "r \<noteq> PICOKEYS_OK \<Longrightarrow> fdata st' fid = fdata st fid \<or> fdata st' fid = None \<or> torn_in st (fdata st' fid)"
    "r \<noteq> PICOKEYS_OK \<Longrightarrow> fdata st fid = None \<Longrightarrow> fdata st' fid = None"
proof -
  have same: "container_replace_file fid data s = txn_replace_file fid data s" if "fs_search s fid = None" for s
    using that by (simp add: container_replace_file_def txn_replace_file_def txn_remove_file_def)
  have "only_in {fid} st st' \<and> (r = PICOKEYS_OK \<longrightarrow> fdata st' fid = Some data) \<and>
    (r \<noteq> PICOKEYS_OK \<longrightarrow> fdata st' fid = fdata st fid \<or> fdata st' fid = None \<or> torn_in st (fdata st' fid)) \<and>
    (r \<noteq> PICOKEYS_OK \<longrightarrow> fdata st fid = None \<longrightarrow> fdata st' fid = None)"
  proof (cases "fs_search st fid")
    case None
    with assms(3) same have "txn_replace_file fid data st = (r, st')" by simp
    from replace_law [OF assms(1,2) None this] show ?thesis by (auto intro: only_at_in)
  next
    case (Some f)
    obtain r1 st1 where d: "file_delete_no_commit (Some f) st = (r1, st1)" by fastforce
    note dl = file_delete_law [OF assms(1,2) Some d] and do = file_delete_outcomes [OF assms(1,2) Some d]
    have o1: "only_in {fid} st st1" using only_at_in [OF dl(1) _ do(1)] by simp
    show ?thesis
    proof (cases "r1 = PICOKEYS_OK")
      case False
      with assms(3) Some d o1 do(2) delete_absent [OF assms(1,2) Some _ d] show ?thesis by (auto simp: container_replace_file_def)
    next
      case True
      note n = dl(2) [OF True]
      have "txn_replace_file fid data st1 = (r, st')"
        using assms(3) Some d True n same [OF n] by (simp add: container_replace_file_def)
      moreover have "store_inv st1" "plain st1 fid" using o1 assms(2) by (simp_all add: only_in_def)
      ultimately show ?thesis
        using replace_law [of st1 fid data r st'] n only_in_trans [OF o1] by (auto intro: only_at_in)
    qed
  qed
  then show "only_in {fid} st st'" "r = PICOKEYS_OK \<Longrightarrow> fdata st' fid = Some data"
    "r \<noteq> PICOKEYS_OK \<Longrightarrow> fdata st' fid = fdata st fid \<or> fdata st' fid = None \<or> torn_in st (fdata st' fid)"
    "r \<noteq> PICOKEYS_OK \<Longrightarrow> fdata st fid = None \<Longrightarrow> fdata st' fid = None" by blast+
qed

lemma delete_plain_law:
  assumes "store_inv st" "plain st fid"
  shows "only_in {fid} st (let rec = fs_search st fid in if rec = None then st else snd (file_delete_no_commit rec st))"
proof (cases "fs_search st fid")
  case None
  with assms show ?thesis by (simp add: only_in_refl)
next
  case (Some f)
  obtain r1 st1 where d: "file_delete_no_commit (Some f) st = (r1, st1)" by fastforce
  with only_at_in [OF file_delete_law(1) [OF assms Some d] _ file_delete_outcomes(1) [OF assms Some d]] Some show ?thesis by simp
qed

lemma only_in_mono: "only_in A st st' \<Longrightarrow> A \<subseteq> B \<Longrightarrow> only_in B st st'"
  by (auto simp: only_in_def)

lemma container_rollback_law:
  "store_inv st \<Longrightarrow> \<forall>x \<in> set fids. plain st x \<Longrightarrow> only_in (set fids) st (container_rollback fids st)"
proof (induction fids arbitrary: st)
  case Nil
  then show ?case by (simp add: only_in_refl)
next
  case (Cons fid fids)
  let ?st1 = "let rec = fs_search st fid in if rec = None then st else snd (file_delete_no_commit rec st)"
  have o: "only_in {fid} st ?st1" using Cons.prems delete_plain_law by simp
  then have "only_in (set fids) ?st1 (container_rollback fids ?st1)"
    using Cons by (intro Cons.IH) (simp_all add: only_in_def)
  with o show ?case
    by (simp del: Let_def) (blast intro: only_in_trans only_in_mono)
qed

section \<open>Sorting\<close>

lemma insert_descriptor_set: "set (insert_descriptor x ys) = insert x (set ys)" "length (insert_descriptor x ys) = Suc (length ys)"
  by (induction ys) auto

lemma insert_descriptor_distinct:
  "distinct (map descriptor_key (x # ys)) \<Longrightarrow> distinct (map descriptor_key (insert_descriptor x ys))"
  by (induction ys) (auto simp: insert_descriptor_set)

lemma sort_descriptors_law:
  "set (sort_descriptors ds) = set ds" "length (sort_descriptors ds) = length ds"
  "distinct (map descriptor_key ds) \<Longrightarrow> distinct (map descriptor_key (sort_descriptors ds))"
proof -
  show s: "set (sort_descriptors ds) = set ds" for ds
    by (induction ds) (simp_all add: sort_descriptors_def insert_descriptor_set)
  show "length (sort_descriptors ds) = length ds"
    by (induction ds) (simp_all add: sort_descriptors_def insert_descriptor_set)
  show "distinct (map descriptor_key ds) \<Longrightarrow> distinct (map descriptor_key (sort_descriptors ds))"
  proof (induction ds)
    case (Cons d ds)
    then have "distinct (map descriptor_key (d # sort_descriptors ds))" using s [of ds] by auto
    then show ?case using insert_descriptor_distinct by (simp add: sort_descriptors_def)
  qed (simp add: sort_descriptors_def)
qed

text \<open>With distinct keys, the value of a version depends on the set of its objects.\<close>

lemma find_member: "find P ds = Some d \<Longrightarrow> d \<in> set ds"
  by (auto simp: find_Some_iff)

lemma find_key:
  assumes "distinct (map descriptor_key ds)"
  shows "find (\<lambda>d. descriptor_key d = k) ds = Some d \<longleftrightarrow> d \<in> set ds \<and> descriptor_key d = k"
proof -
  have "find (\<lambda>d. descriptor_key d = k) ds = Some d \<Longrightarrow> d \<in> set ds \<and> descriptor_key d = k"
    by (auto simp: find_Some_iff)
  moreover have "\<exists>e. find (\<lambda>d. descriptor_key d = k) ds = Some e \<and> e \<in> set ds \<and> descriptor_key e = k" if "d \<in> set ds" "descriptor_key d = k"
    using that by (cases "find (\<lambda>d. descriptor_key d = k) ds") (auto simp: find_None_iff find_Some_iff)
  moreover have "d = e" if "d \<in> set ds" "e \<in> set ds" "descriptor_key d = descriptor_key e" for e
    using assms that by (simp add: distinct_map inj_on_def)
  ultimately show ?thesis by metis
qed

lemma find_key_set:
  assumes "distinct (map descriptor_key ds)" "distinct (map descriptor_key es)" "set ds = set es"
  shows "find (\<lambda>d. descriptor_key d = k) ds = find (\<lambda>d. descriptor_key d = k) es"
proof -
  have "find (\<lambda>d. descriptor_key d = k) ds = Some d \<longleftrightarrow> find (\<lambda>d. descriptor_key d = k) es = Some d" for d
    using find_key assms by blast
  then show ?thesis by (metis option.exhaust)
qed

section \<open>Where an update starts and ends\<close>

text \<open>What loading, and selecting a version, hand to the rest of an update: no container yet, or a
  complete version and the other slot's candidate. \<open>v\<close> is the value of that version.\<close>

definition starts_from ::
    "'c container_layout \<Rightarrow> u32 \<Rightarrow> 'c container_crypto \<Rightarrow> 'c container_state \<Rightarrow> file_store \<Rightarrow> (u16 \<times> u16 \<Rightarrow> byte list option) \<Rightarrow> bool" where
  "starts_from layout cid cr state st v \<longleftrightarrow> crypto state = cr \<and>
     (case container_current state of
        None \<Rightarrow> container_absent layout cid st \<and> v = (\<lambda>_. None) \<and> \<not> c_valid (candidates state ! 0)
      | Some cand \<Rightarrow>
          c_slot cand \<in> {0, 1} \<and> slot_manifest layout cid (c_slot cand) (cr_auth cr) st = Inr (c_manifest cand) \<and>
          version_ok layout cid (cr_protector cr) st (c_manifest cand) \<and>
          v = version_value layout cid (cr_protector cr) st (c_manifest cand) \<and>
          (let other = candidates state ! unat (c_slot cand XOR 1) in c_valid other \<longrightarrow>
             records_present layout cid st (listed (c_manifest other)) = PICOKEYS_OK \<and>
             (\<forall>d \<in> set (listed (c_manifest other)). \<exists>fid. record_fid_of layout cid d = Inr fid \<and> plain st fid)))"

definition target_of :: "'c container_state \<Rightarrow> byte" where
  "target_of state = (case container_current state of None \<Rightarrow> 0 | Some cand \<Rightarrow> c_slot cand XOR 1)"

text \<open>The version the update started from is still there; the target slot has the manifest it had or
  none.\<close>

definition version_kept ::
    "'c container_layout \<Rightarrow> u32 \<Rightarrow> 'c container_crypto \<Rightarrow> u16 set \<Rightarrow> byte \<Rightarrow> file_store \<Rightarrow> file_store \<Rightarrow> bool" where
  "version_kept layout cid cr own target st st' \<longleftrightarrow>
     grows (insert (manifest_fid layout cid target) own) {manifest_fid layout cid (target XOR 1)} st st' \<and>
     (slot_manifest layout cid target (cr_auth cr) st' = slot_manifest layout cid target (cr_auth cr) st \<or>
      (\<exists>e. recoverable e \<and> slot_manifest layout cid target (cr_auth cr) st' = Inl e)) \<and>
     (fdata st (manifest_fid layout cid target) = None \<longrightarrow> fdata st' (manifest_fid layout cid target) = None)"

definition version_switched ::
    "'c container_layout \<Rightarrow> u32 \<Rightarrow> 'c container_crypto \<Rightarrow> byte \<Rightarrow> file_store \<Rightarrow> (u16 \<times> u16 \<Rightarrow> byte list option) \<Rightarrow> bool" where
  "version_switched layout cid cr target st' v \<longleftrightarrow>
     (\<exists>m. slot_holds layout cid cr st' target m \<and> version_value layout cid (cr_protector cr) st' m = v)"

section \<open>Writing the manifest\<close>

lemma object_extensions_none:
  "\<forall>d \<in> set ds. d_extension_size d = 0 \<Longrightarrow> object_extensions_validate supported data base ds = PICOKEYS_OK"
  by (induction ds) (auto simp: Let_def)

text \<open>Without extensions, what extensions the reader supports does not matter.\<close>

lemma manifest_parse_no_extension:
  assumes "manifest_parse (Some data) auth supported = Inr m" "m_extension_size m = 0" "\<forall>d \<in> set (listed m). d_extension_size d = 0"
  shows "manifest_parse (Some data) auth supported' = Inr m"
proof -
  let ?n = "unat (get_uint16_be (drop 24 data))" and ?es = "unat (get_uint16_be (drop 28 data))"
  let ?objs = "map (\<lambda>i. descriptor_decode (drop (32 + i * 36) data)) [0 ..< ?n]"
  have m: "m_extension_size m = get_uint16_be (drop 28 data)" "?n \<le> 8"
      "object_count m = of_nat ?n" "objects m = ?objs @ replicate (8 - ?n) zero_descriptor"
    using assms(1) unfolding manifest_parse_def option.case Let_def container_consts
    by (auto split: if_splits sum.splits)
  have "listed m = ?objs" using m(2) by (simp add: listed_def m(3,4))
  then have o: "object_extensions_validate sup data 0 ?objs = PICOKEYS_OK" for sup
    using object_extensions_none assms(3) by metis
  have e: "extensions_validate sup [] = PICOKEYS_OK" for sup by (simp add: extensions_validate.simps)
  have z: "?es = 0" using m(1) assms(2) by simp
  show ?thesis
    using assms(1) unfolding manifest_parse_def option.case Let_def container_consts z bslice_zero e o by simp
qed

lemma manifest_built:
  assumes "mac_ok auth" "manifest_build m (Some []) auth room = Inr data" "length (objects m) = MAX_OBJECTS"
    and "object_count m \<noteq> 0" "unat (object_count m) \<le> MAX_OBJECTS" "\<forall>d \<in> set (listed m). d_extension_size d = 0"
  shows "manifest_parse (Some data) auth supported = Inr (manifest_norm m 0)" "listed (manifest_norm m 0) = listed m" "data \<noteq> []"
proof -
  have b: "build_count m = unat (object_count m)" using assms(4) by (simp add: build_count_def)
  show l: "listed (manifest_norm m 0) = listed m"
    using assms(3,5) by (simp add: listed_def manifest_norm_def Let_def b)
  have "manifest_parse (Some data) auth (\<lambda>_. True) = Inr (manifest_norm m (length ([] :: byte list)))"
    by (rule manifest_parse_built [OF assms(1-3)]) simp
  then have p: "manifest_parse (Some data) auth (\<lambda>_. True) = Inr (manifest_norm m 0)" by simp
  then show "manifest_parse (Some data) auth supported = Inr (manifest_norm m 0)"
    by (rule manifest_parse_no_extension) (use l assms(6) in \<open>simp_all add: manifest_norm_def Let_def\<close>)
  from p show "data \<noteq> []" by (auto simp: manifest_parse_def container_consts)
qed

lemma manifest_norm_fields [simp]:
  "namespace_id (manifest_norm m es) = namespace_id m" "container_kind (manifest_norm m es) = container_kind m"
  "container_id (manifest_norm m es) = container_id m" "m_generation (manifest_norm m es) = m_generation m"
  by (simp_all add: manifest_norm_def Let_def)

lemma manifest_build_error: "mac_ok auth \<Longrightarrow> manifest_build m exts auth room \<noteq> Inl PICOKEYS_OK"
  by (auto simp: manifest_build_def Let_def manifest_authenticate_def mac_ok_def split: sum.split)

section \<open>Clients\<close>

definition torn_refused :: "'c authenticator \<Rightarrow> file_store \<Rightarrow> bool" where
  "torn_refused auth st \<longleftrightarrow>
     (\<forall>s t. Failed s (Some t) \<in> set (flash st) \<longrightarrow>
        t = [] \<or> (\<exists>e. manifest_parse (Some t) auth (\<lambda>_. False) = Inl e \<and> recoverable e))"

definition seal_reports :: "record_protector \<Rightarrow> bool" where
  "seal_reports pr \<longleftrightarrow> (\<forall>i n a p. pr_seal pr i n a p \<noteq> Inl PICOKEYS_OK)"

lemma record_seal_error: "seal_reports pr \<Longrightarrow> record_seal m h pr p room \<noteq> Inl PICOKEYS_OK"
  by (auto simp: record_seal_def record_identity_build_def record_header_build_def seal_reports_def Let_def split: sum.split prod.split)

lemma new_descriptor_fields [simp]:
  "policy_id (new_descriptor w g rid) = w_policy_id w" "record_id (new_descriptor w g rid) = rid"
  "descriptor_key (new_descriptor w g rid) = (w_type w, w_tag w)" "d_extension_size (new_descriptor w g rid) = 0"
  by (simp_all add: new_descriptor_def descriptor_key_def Let_def)

lemma container_find_Some:
  assumes "container_find m otype tag = Some i" "unat (object_count m) \<le> length (objects m)"
  shows "i < length (listed m)" "listed m ! i = objects m ! i" "descriptor_key (listed m ! i) = (otype, tag)"
  using assms by (auto simp: container_find_def find_Some_iff listed_def descriptor_key_def)

lemma container_find_None:
  assumes "container_find m otype tag = None" "d \<in> set (listed m)"
  shows "descriptor_key d \<noteq> (otype, tag)"
proof -
  obtain j where j: "j < unat (object_count m)" "d = objects m ! j"
    using assms(2) by (auto simp: listed_def in_set_conv_nth)
  then have "j \<in> set [0 ..< unat (object_count m)]" by simp
  with assms(1) j(2) show ?thesis
    unfolding container_find_def find_None_iff descriptor_key_def by blast
qed

text \<open>The manifest after one object was replaced or appended.\<close>

lemma listed_replace:
  assumes "i < length (listed m)" "distinct (map descriptor_key (listed m))" "descriptor_key (listed m ! i) = descriptor_key d"
    and "m' = m\<lparr>objects := (objects m)[i := d]\<rparr>"
  shows "set (listed m') = insert d {e \<in> set (listed m). descriptor_key e \<noteq> descriptor_key d}" "distinct (map descriptor_key (listed m'))"
proof -
  have i: "i < unat (object_count m)" using assms(1) by (simp add: listed_def)
  have l: "listed m' = (listed m)[i := d]" using i by (simp add: assms(4) listed_def take_update_swap)
  have "map descriptor_key ((listed m)[i := d]) = (map descriptor_key (listed m))[i := descriptor_key (listed m ! i)]"
    by (simp add: map_update assms(3))
  also have "\<dots> = map descriptor_key (listed m)" using assms(1) by (metis list_update_id length_map nth_map)
  finally have k: "map descriptor_key (listed m') = map descriptor_key (listed m)" using l by simp
  with assms(2) show "distinct (map descriptor_key (listed m'))" by simp
  have "listed m ! j = listed m ! i" if "j < length (listed m)" "descriptor_key (listed m ! j) = descriptor_key d" for j
    using assms(1-3) that by (metis distinct_map inj_onD nth_mem)
  then have "e \<in> set (listed m) \<Longrightarrow> descriptor_key e = descriptor_key d \<Longrightarrow> e = listed m ! i" for e
    by (auto simp: in_set_conv_nth)
  moreover have "distinct (listed m)" using assms(2) by (simp add: distinct_map)
  ultimately show "set (listed m') = insert d {e \<in> set (listed m). descriptor_key e \<noteq> descriptor_key d}"
    using set_update_distinct [of "listed m" i d] assms(1,3) l by auto
qed

lemma listed_append:
  assumes "unat (object_count m) < length (objects m)" "unat (object_count m) < MAX_OBJECTS"
    and "m' = m\<lparr>objects := (objects m)[unat (object_count m) := d], object_count := object_count m + 1, has_object := True\<rparr>"
  shows "listed m' = listed m @ [d]" "unat (object_count m') = unat (object_count m) + 1" "length (objects m') = length (objects m)"
proof -
  show u: "unat (object_count m') = unat (object_count m) + 1"
    using assms(2) by (simp add: assms(3) unat_word_ariths MAX_OBJECTS_def)
  show "length (objects m') = length (objects m)" by (simp add: assms(3))
  show "listed m' = listed m @ [d]"
    unfolding listed_def u using assms(1) by (simp add: assms(3) take_Suc_conv_app_nth)
qed

text \<open>
  What the store relies on in a layout. \<open>inv\<close> is the client's invariant, \<open>own\<close> the files it keeps for
  itself (an allocator's state, markers): no record and no manifest is among them. An allocation
  answers a file that does not exist; a retirement deletes records of the superseded version that
  the new one does not list.
\<close>

locale container_client =
  fixes layout :: "'c container_layout" and cid :: u32 and cr :: "'c container_crypto"
    and inv :: "cstore \<Rightarrow> bool" and own :: "u16 set"
  assumes store: "inv st \<Longrightarrow> store_inv (fs st) \<and> mac_ok (cr_auth cr) \<and> protector_ok (cr_protector cr) \<and>
       seal_reports (cr_protector cr) \<and> torn_refused (cr_auth cr) (fs st)"
    and manifest_plain: "inv st \<Longrightarrow> x \<in> manifest_fids layout cid \<Longrightarrow> plain (fs st) x"
    and manifest_own: "x \<in> manifest_fids layout cid \<Longrightarrow> x \<notin> own"
    and manifest_distinct: "manifest_fid layout cid 0 \<noteq> manifest_fid layout cid 1"
    and kept: "inv st \<Longrightarrow> only_in A (fs st) s \<Longrightarrow> A \<inter> own = {} \<Longrightarrow> inv (st\<lparr>fs := s\<rparr>)"
    and kept_mem: "inv st \<Longrightarrow> inv (st\<lparr>mem := bs\<rparr>)"
    and record_fid_error: "record_fid_of layout cid d = Inl e \<Longrightarrow> recoverable e"
    and record_fid_apart: "record_fid_of layout cid d = Inr fid \<Longrightarrow> fid \<notin> own \<and> fid \<notin> manifest_fids layout cid"
    and policy_error: "policy_hash_of layout p \<noteq> Inl PICOKEYS_OK"
    and allocate: "inv st \<Longrightarrow> record_allocate layout cid slot w (cr_auth cr) st = (r, st') \<Longrightarrow>
       inv st' \<and> only_in own (fs st) (fs st')"
    and allocate_error: "inv st \<Longrightarrow> record_allocate layout cid slot w (cr_auth cr) st = (Inl e, st') \<Longrightarrow> e \<noteq> PICOKEYS_OK"
    and allocated: "inv st \<Longrightarrow> record_allocate layout cid slot w (cr_auth cr) st = (Inr (rid, fid), st') \<Longrightarrow>
       fs_search (fs st') fid = None \<and> plain (fs st) fid"
    and allocated_record: "inv st \<Longrightarrow> record_allocate layout cid slot w (cr_auth cr) st = (Inr (rid, fid), st') \<Longrightarrow>
       \<not> write_refused layout w \<Longrightarrow>
       record_fid_of layout cid (new_descriptor w g rid) = Inr fid \<and> descriptor_valid_in layout cid (new_descriptor w g rid)"
    and activated: "inv st \<Longrightarrow> activate layout cid st = (q, st') \<Longrightarrow> inv st' \<and> only_in own (fs st) (fs st')"
    and retired: "inv st \<Longrightarrow> retire layout cid state nxt cur target st = (q, st') \<Longrightarrow>
       (c_valid (candidates state ! unat target) \<Longrightarrow> \<forall>d \<in> set (listed (c_manifest (candidates state ! unat target))).
          \<exists>fid. record_fid_of layout cid d = Inr fid \<and> plain (fs st) fid) \<Longrightarrow>
       inv st' \<and> only_in (own \<union> {x. c_valid (candidates state ! unat target) \<and>
          (\<exists>d \<in> set (listed (c_manifest (candidates state ! unat target))).
             record_fid_of layout cid d = Inr x \<and> \<not> container_references nxt (record_id d))}) (fs st) (fs st')"
begin

lemma sound_stays:
  assumes "record_sound layout cid pr st m d" "objects m \<noteq> []" "grows A keep st st'" "A \<subseteq> own \<union> manifest_fids layout cid"
  shows "record_sound layout cid pr st' m d"
    "container_unseal layout cid m d pr room st' = container_unseal layout cid m d pr room st"
proof -
  obtain fid p where f: "record_fid_of layout cid d = Inr fid" "plain st fid" "descriptor_valid_in layout cid d"
      "container_unseal layout cid m d pr (unat (logical_size d)) st = Inr p"
    using assms(1) by (auto simp: record_sound_def)
  obtain data where "fdata st fid = Some data"
    by (rule unsealed_record [OF f(4) assms(2)]) (use f(1) in auto)
  moreover have "fid \<notin> A" using record_fid_apart [OF f(1)] assms(4) by blast
  ultimately have k: "fdata st' fid = fdata st fid"
    using growsD [OF assms(3) f(2)] by simp
  show u: "container_unseal layout cid m d pr room st' = container_unseal layout cid m d pr room st" for room
    by (rule container_unseal_cong) (use k f(1) in simp)
  show "record_sound layout cid pr st' m d"
    using f grows_plain [OF assms(3)] u by (simp add: record_sound_def)
qed

lemma version_stays:
  assumes "version_ok layout cid pr st m" "grows A keep st st'" "A \<subseteq> own \<union> manifest_fids layout cid"
  shows "version_ok layout cid pr st' m" "version_value layout cid pr st' m = version_value layout cid pr st m"
proof -
  have o: "objects m \<noteq> []" using assms(1) by (auto simp: version_ok_def MAX_OBJECTS_def)
  have s: "record_sound layout cid pr st m d" if "d \<in> set (listed m)" for d
    using assms(1) that by (simp add: version_ok_def)
  show "version_ok layout cid pr st' m"
    using assms(1) sound_stays(1) [OF s o assms(2,3)] by (simp add: version_ok_def)
  show "version_value layout cid pr st' m = version_value layout cid pr st m"
  proof
    fix k
    show "version_value layout cid pr st' m k = version_value layout cid pr st m k"
      using sound_stays(2) [OF s o assms(2,3)] find_member [of _ "listed m"]
      by (cases "find (\<lambda>d. descriptor_key d = k) (listed m)") (auto simp: version_value_def)
  qed
qed

text \<open>A new or replaced object.\<close>

lemma value_add:
  assumes "version_ok layout cid pr st m" "grows own keep st st'"
    and "namespace_id m' = namespace_id m" "container_kind m' = container_kind m" "container_id m' = container_id m"
    and "length (objects m') = MAX_OBJECTS" "unat (object_count m') \<le> MAX_OBJECTS" "distinct (map descriptor_key (listed m'))"
    and "set (listed m') = insert d {e \<in> set (listed m). descriptor_key e \<noteq> descriptor_key d}"
    and "record_sound layout cid pr st' m d" "container_unseal layout cid m d pr (unat (logical_size d)) st' = Inr p"
  shows "version_ok layout cid pr st' m'"
    "version_value layout cid pr st' m' = (version_value layout cid pr st m)(descriptor_key d \<mapsto> p)"
proof -
  have o: "objects m \<noteq> []" "objects m' \<noteq> []" using assms(1,6) by (auto simp: version_ok_def MAX_OBJECTS_def)
  have u: "container_unseal layout cid m' e pr room s = container_unseal layout cid m e pr room s" for e room s
    by (rule container_unseal_manifest [OF assms(3-5) o])
  have rs: "record_sound layout cid pr s m' e = record_sound layout cid pr s m e" for s e
    by (simp add: record_sound_def u)
  note vs = version_stays [OF assms(1,2) Un_upper1]
  have "record_sound layout cid pr st' m' e" if "e \<in> set (listed m')" for e
    using that vs(1) assms(9,10) by (auto simp: rs version_ok_def)
  then show "version_ok layout cid pr st' m'"
    using assms by (simp add: version_ok_def)
  have dm: "distinct (map descriptor_key (listed m))" using assms(1) by (simp add: version_ok_def)
  show "version_value layout cid pr st' m' = (version_value layout cid pr st m)(descriptor_key d \<mapsto> p)"
  proof
    fix k
    show "version_value layout cid pr st' m' k = ((version_value layout cid pr st m)(descriptor_key d \<mapsto> p)) k"
    proof (cases "k = descriptor_key d")
      case True
      then have "find (\<lambda>d. descriptor_key d = k) (listed m') = Some d"
        using find_key [OF assms(8)] assms(9) by simp
      with True assms(11) show ?thesis by (simp add: version_value_def u)
    next
      case False
      then have "find (\<lambda>d. descriptor_key d = k) (listed m') = Some e \<longleftrightarrow> find (\<lambda>d. descriptor_key d = k) (listed m) = Some e" for e
        using find_key [OF assms(8)] find_key [OF dm] assms(9) by auto
      then have "find (\<lambda>d. descriptor_key d = k) (listed m') = find (\<lambda>d. descriptor_key d = k) (listed m)"
        by (metis option.exhaust)
      then have "version_value layout cid pr st' m' k = version_value layout cid pr st' m k"
        unfolding version_value_def u by simp
      with False vs(2) show ?thesis by simp
    qed
  qed
qed

text \<open>One record.\<close>

lemma record_step:
  assumes "inv st" "objects nxt \<noteq> []" "\<not> write_refused layout w"
    and "container_write_record layout cid slot w g nxt cr st = (r, st')"
  shows "inv st' \<and> grows own (manifest_fids layout cid) (fs st) (fs st') \<and> r \<noteq> Inl PICOKEYS_OK \<and>
    (\<forall>d fid. r = Inr (d, fid) \<longrightarrow>
       (\<exists>rid. d = new_descriptor w g rid) \<and> record_fid_of layout cid d = Inr fid \<and> fdata (fs st) fid = None \<and> plain (fs st) fid \<and>
       record_sound layout cid (cr_protector cr) (fs st') nxt d \<and>
       container_unseal layout cid nxt d (cr_protector cr) (unat (logical_size d)) (fs st') = Inr (write_bytes w))"
proof -
  let ?M = "manifest_fids layout cid"
  obtain a st1 where a: "record_allocate layout cid slot w (cr_auth cr) st = (a, st1)" by fastforce
  note al = allocate [OF assms(1) a]
  have g1: "grows own ?M (fs st) (fs st1)" using al by (auto intro: grows_own)
  show ?thesis
  proof (cases a)
    case (Inl e)
    with assms(4) a al g1 allocate_error [OF assms(1), of slot w e] show ?thesis
      by (auto simp: container_write_record_def)
  next
    case (Inr x)
    obtain rid fid where x: "a = Inr (rid, fid)" using Inr by (cases x) auto
    let ?d = "new_descriptor w g rid" and ?data = "write_bytes w"
    have f: "fs_search (fs st1) fid = None" "plain (fs st) fid" "record_fid_of layout cid ?d = Inr fid" "descriptor_valid_in layout cid ?d"
      using allocated [OF assms(1)] allocated_record [OF assms(1) _ assms(3)] a x by auto
    note ap = record_fid_apart [OF f(3)]
    have n: "fdata (fs st) fid = None"
      using al ap f(1,2) by (simp add: fdata_def only_in_def)
    obtain ok st2 where m: "next_mem st1 = (ok, st2)" by fastforce
    have s2: "fs st2 = fs st1" "inv st2"
      using m al kept_mem by (auto simp: next_mem_def split: list.splits)
    have unwritten: ?thesis if "st' = st1 \<or> st' = st2" "\<exists>e. r = Inl e \<and> e \<noteq> PICOKEYS_OK"
      using that al g1 s2 by auto
    show ?thesis
    proof (cases "policy_hash_of layout (w_policy_id w)")
      case (Inl e)
      with assms(4) a x policy_error [of "w_policy_id w"] show ?thesis
        by (intro unwritten) (auto simp: container_write_record_def Let_def)
    next
      case (Inr hash)
      let ?rs = "RECORD_HEADER_SIZE + length ?data + AUTH_TAG_SIZE"
      let ?seal = "record_seal (single nxt ?d) hash (cr_protector cr) ?data ?rs"
      show ?thesis
      proof (cases "2 ^ 32 - 1 - RECORD_HEADER_SIZE - AUTH_TAG_SIZE < length ?data \<or> \<not> ok \<or> (\<forall>rec. ?seal = Inr rec \<longrightarrow> length rec \<noteq> ?rs)")
        case True
        have "?seal \<noteq> Inl PICOKEYS_OK"
          using store [OF assms(1)] by (intro record_seal_error) simp
        with True assms(4) a x Inr m show ?thesis
          by (intro unwritten) (auto simp: container_write_record_def Let_def split: if_splits sum.splits)
      next
        case False
        then obtain rec where rec: "?seal = Inr rec" "length rec = ?rs" by auto
        obtain q s3 where q: "container_replace_file fid rec (fs st1) = (q, s3)" by fastforce
        have r: "r = (if q \<noteq> PICOKEYS_OK then Inl q else Inr (?d, fid))" "st' = st2\<lparr>fs := s3\<rparr>"
          using assms(4) a x Inr m False rec q s2
          by (auto simp: container_write_record_def Let_def on_fs_def split: if_splits)
        have i1: "store_inv (fs st1)" "plain (fs st1) fid" using al f(2) store by (auto simp: only_in_def)
        note rl = container_replace_law [OF i1 q]
        have i3: "inv st'" using kept [OF s2(2), of "{fid}" s3] s2(1) rl(1) ap by (simp add: r(2))
        have g3: "grows own ?M (fs st) (fs st')"
          using grows_fresh [OF g1 rl(1)] n ap by (simp add: r(2))
        have "container_unseal layout cid nxt ?d (cr_protector cr) (unat (logical_size ?d)) (fs st') = Inr ?data" if "q = PICOKEYS_OK"
        proof -
          have "fdata (fs st') fid = Some rec" using rl(2) that r(2) by simp
          moreover have "record_unseal (single nxt ?d) hash (cr_protector cr) (Some rec) (unat (logical_size ?d)) = Inr ?data"
          proof -
            have "length ?data = unat (logical_size ?d)"
              using rec(1) single_first [OF assms(2), of ?d] by (auto simp: record_seal_def Let_def split: if_splits)
            then show ?thesis using record_opens [OF _ rec(1)] store [OF assms(1)] by simp
          qed
          moreover have "rec \<noteq> []" using rec(2) by (auto simp: RECORD_HEADER_SIZE_def)
          moreover have "policy_id ?d = w_policy_id w" by simp
          ultimately show ?thesis using Inr f(3) by (simp add: container_unseal_fdata)
        qed
        moreover have "plain (fs st') fid" using grows_plain [OF g3] f(2) by simp
        ultimately show ?thesis
          using r f i3 g3 n by (auto simp: record_sound_def)
      qed
    qed
  qed
qed

text \<open>The loop over the writes: the manifest under construction is a version all along, and files are
  only added.\<close>

definition new_fids :: "file_store \<Rightarrow> u16 list \<Rightarrow> bool" where
  "new_fids st fids \<longleftrightarrow> (\<forall>x \<in> set fids. fdata st x = None \<and> plain st x \<and> x \<notin> own \<and> x \<notin> manifest_fids layout cid)"

definition listed_from :: "file_store \<Rightarrow> file_object_manifest \<Rightarrow> file_object_manifest \<Rightarrow> bool" where
  "listed_from st m m' \<longleftrightarrow>
     (\<forall>d \<in> set (listed m'). d \<in> set (listed m) \<or> (\<forall>fid. record_fid_of layout cid d = Inr fid \<longrightarrow> fdata st fid = None))"

definition no_extensions :: "file_object_manifest \<Rightarrow> bool" where
  "no_extensions m \<longleftrightarrow> (\<forall>d \<in> set (listed m). d_extension_size d = 0)"

lemma writes_law:
  assumes "inv st" "version_ok layout cid (cr_protector cr) (fs st) nxt" "no_extensions nxt"
    and "container_writes layout cid slot cr earlier writes nxt fids st = ((r, nxt', fids'), st')"
  shows "inv st' \<and> grows own (manifest_fids layout cid) (fs st) (fs st') \<and>
    (\<exists>new. fids' = fids @ new \<and> new_fids (fs st) new) \<and>
    (r = PICOKEYS_OK \<longrightarrow>
       version_ok layout cid (cr_protector cr) (fs st') nxt' \<and> no_extensions nxt' \<and> listed_from (fs st) nxt nxt' \<and>
       version_value layout cid (cr_protector cr) (fs st') nxt' = apply_writes writes (version_value layout cid (cr_protector cr) (fs st) nxt) \<and>
       m_generation nxt' = m_generation nxt \<and> (writes \<noteq> [] \<or> object_count nxt \<noteq> 0 \<longrightarrow> object_count nxt' \<noteq> 0))"
  using assms
proof (induction writes arbitrary: earlier nxt fids st)
  case Nil
  then have "new_fids (fs st) []" "listed_from (fs st) nxt nxt" by (simp_all add: new_fids_def listed_from_def)
  with Nil show ?case by (auto simp: grows_refl)
next
  case (Cons w ws)
  let ?M = "manifest_fids layout cid" and ?pr = "cr_protector cr"
  note v = Cons.prems(2)
  have o: "objects nxt \<noteq> []" "unat (object_count nxt) \<le> length (objects nxt)" "length (objects nxt) = MAX_OBJECTS"
      "distinct (map descriptor_key (listed nxt))"
    using v by (auto simp: version_ok_def MAX_OBJECTS_def)
  have none: "\<exists>new. fids = fids @ new \<and> new_fids (fs st) new" by (intro exI [of _ "[]"]) (simp add: new_fids_def)
  define found where "found = container_find nxt (w_type w) (w_tag w)"
  define old where "old = (case found of None \<Rightarrow> 0 | Some i \<Rightarrow> d_generation (objects nxt ! i))"
  show ?case
  proof (cases "write_refused layout w \<or> list_ex (\<lambda>w'. w_type w' = w_type w \<and> w_tag w' = w_tag w) earlier \<or> found \<noteq> None \<and> old = - 1")
    case True
    with Cons.prems(4) have "r = PICOKEYS_WRONG_DATA \<and> fids' = fids \<and> st' = st"
      by (auto simp: found_def [symmetric] old_def [symmetric] split: if_splits)
    with Cons.prems(1) none show ?thesis by (simp add: grows_refl)
  next
    case False
    obtain q st1 where q: "container_write_record layout cid slot w (old + 1) nxt cr st = (q, st1)" by fastforce
    note wl = record_step [OF Cons.prems(1) o(1) _ q]
    have i1: "inv st1" "grows own ?M (fs st) (fs st1)" "q \<noteq> Inl PICOKEYS_OK" using wl False by blast+
    have step: "container_writes layout cid slot cr earlier (w # ws) nxt fids st =
       (case q of Inl e \<Rightarrow> ((e, nxt, fids), st1)
        | Inr (replacement, fid) \<Rightarrow>
          (case found of
             Some i \<Rightarrow> container_writes layout cid slot cr (earlier @ [w]) ws (nxt\<lparr>objects := (objects nxt)[i := replacement]\<rparr>) (fids @ [fid]) st1
           | None \<Rightarrow>
               if unat (object_count nxt) < MAX_OBJECTS
               then container_writes layout cid slot cr (earlier @ [w]) ws
                      (nxt\<lparr>objects := (objects nxt)[unat (object_count nxt) := replacement],
                           object_count := object_count nxt + 1, has_object := True\<rparr>) (fids @ [fid]) st1
               else ((PICOKEYS_ERR_NO_MEMORY, nxt, fids @ [fid]), st1)))"
      using False q by (auto simp: found_def [symmetric] old_def [symmetric] Let_def split: sum.split)
    show ?thesis
    proof (cases q)
      case (Inl e)
      then have "r = e" "fids' = fids" "st' = st1" using Cons.prems(4) unfolding step by simp_all
      with Inl i1 none show ?thesis by simp
    next
      case (Inr df)
      obtain d fid where d: "q = Inr (d, fid)" using Inr by (cases df) auto
      have w: "\<exists>rid. d = new_descriptor w (old + 1) rid" "record_fid_of layout cid d = Inr fid" "fdata (fs st) fid = None" "plain (fs st) fid"
          "record_sound layout cid ?pr (fs st1) nxt d"
          "container_unseal layout cid nxt d ?pr (unat (logical_size d)) (fs st1) = Inr (write_bytes w)"
        using wl False d by blast+
      have k: "descriptor_key d = (w_type w, w_tag w)" "d_extension_size d = 0" using w(1) by auto
      have nf: "new_fids (fs st) [fid]" using w(3,4) record_fid_apart [OF w(2)] by (simp add: new_fids_def)
      have continue: ?thesis
        if c: "container_writes layout cid slot cr (earlier @ [w]) ws nxt1 (fids @ [fid]) st1 = ((r, nxt', fids'), st')"
          and n: "namespace_id nxt1 = namespace_id nxt" "container_kind nxt1 = container_kind nxt" "container_id nxt1 = container_id nxt"
          "m_generation nxt1 = m_generation nxt" "length (objects nxt1) = MAX_OBJECTS" "unat (object_count nxt1) \<le> MAX_OBJECTS"
          "object_count nxt1 \<noteq> 0" "distinct (map descriptor_key (listed nxt1))"
          "set (listed nxt1) = insert d {e \<in> set (listed nxt). descriptor_key e \<noteq> descriptor_key d}" for nxt1
      proof -
        note va = value_add [OF v i1(2) n(1-3,5,6,8,9) w(5,6)]
        have "no_extensions nxt1" using Cons.prems(3) k(2) n(9) by (auto simp: no_extensions_def)
        note ih = Cons.IH [OF i1(1) va(1) this c]
        have g: "grows own ?M (fs st) (fs st')" using ih grows_trans [OF i1(2)] by blast
        have gone: "fdata (fs st1) x = None \<Longrightarrow> plain (fs st) x \<Longrightarrow> x \<notin> own \<Longrightarrow> fdata (fs st) x = None" for x
          using growsD [OF i1(2), of x] by (cases "fdata (fs st) x") auto
        have "\<exists>new. fids' = fids @ new \<and> new_fids (fs st) new"
        proof -
          obtain new where new: "fids' = (fids @ [fid]) @ new" "new_fids (fs st1) new" using ih by blast
          have "new_fids (fs st) (fid # new)"
            using nf new(2) gone grows_plain [OF i1(2)] by (simp add: new_fids_def)
          with new(1) show ?thesis by (intro exI [of _ "fid # new"]) simp
        qed
        moreover have "listed_from (fs st) nxt nxt'" if "r = PICOKEYS_OK"
        proof -
          have lf: "listed_from (fs st1) nxt1 nxt'" "version_ok layout cid ?pr (fs st') nxt'" using ih that by blast+
          show ?thesis unfolding listed_from_def
          proof (intro ballI)
            fix e assume e: "e \<in> set (listed nxt')"
            obtain x where x: "record_fid_of layout cid e = Inr x" "plain (fs st') x"
              using lf(2) e by (auto simp: version_ok_def record_sound_def)
            have "e = d \<or> e \<in> set (listed nxt) \<or> fdata (fs st1) x = None"
              using lf(1) e n(9) x(1) by (auto simp: listed_from_def)
            then show "e \<in> set (listed nxt) \<or> (\<forall>fid. record_fid_of layout cid e = Inr fid \<longrightarrow> fdata (fs st) fid = None)"
              using w(2,3) x gone [of x] record_fid_apart [OF x(1)] grows_plain [OF g] by auto
          qed
        qed
        ultimately show ?thesis using ih g va(2) n(4,7) k(1) by (simp add: fun_upd_def)
      qed
      show ?thesis
      proof (cases found)
        case (Some i)
        note fi = container_find_Some [OF Some [unfolded found_def] o(2)]
        let ?n = "nxt\<lparr>objects := (objects nxt)[i := d]\<rparr>"
        have "descriptor_key (listed nxt ! i) = descriptor_key d" using fi(3) k(1) by simp
        note l = listed_replace [OF fi(1) o(4) this refl]
        have "object_count nxt \<noteq> 0" using fi(1) by (auto simp: listed_def)
        moreover have "container_writes layout cid slot cr (earlier @ [w]) ws ?n (fids @ [fid]) st1 = ((r, nxt', fids'), st')"
          using Cons.prems(4) d Some unfolding step by simp
        ultimately show ?thesis
          using v l by (intro continue [of ?n]) (simp_all add: version_ok_def)
      next
        case None
        show ?thesis
        proof (cases "unat (object_count nxt) < MAX_OBJECTS")
          case False
          then have "r = PICOKEYS_ERR_NO_MEMORY" "fids' = fids @ [fid]" "st' = st1"
            using Cons.prems(4) d None unfolding step by simp_all
          with i1 nf show ?thesis by auto
        next
          case True
          let ?n = "nxt\<lparr>objects := (objects nxt)[unat (object_count nxt) := d], object_count := object_count nxt + 1, has_object := True\<rparr>"
          note l = listed_append [OF _ True refl, of d]
          have "\<forall>e \<in> set (listed nxt). descriptor_key e \<noteq> descriptor_key d"
            using container_find_None [OF None [unfolded found_def]] k(1) by auto
          moreover have "container_writes layout cid slot cr (earlier @ [w]) ws ?n (fids @ [fid]) st1 = ((r, nxt', fids'), st')"
            using Cons.prems(4) d None True unfolding step by simp
          moreover have "object_count ?n \<noteq> 0" using l(2) True o(3) by (metis Suc_eq_plus1 nat.distinct(1) unsigned_0)
          ultimately show ?thesis
            using l True o by (intro continue [of ?n]) (auto simp: MAX_OBJECTS_def)
        qed
      qed
    qed
  qed
qed

lemma slot_holds_stays:
  assumes "slot_holds layout cid cr st slot m" "only_in A st st'" "\<And>x. x \<in> manifest_fids layout cid \<Longrightarrow> plain st x \<and> x \<notin> A"
    and "\<And>d fid. d \<in> set (listed m) \<Longrightarrow> record_fid_of layout cid d = Inr fid \<Longrightarrow> fid \<notin> A"
  shows "slot_holds layout cid cr st' slot m"
    "version_value layout cid (cr_protector cr) st' m = version_value layout cid (cr_protector cr) st m"
proof -
  have s: "slot \<in> {0, 1}" using assms(1) by (simp add: slot_holds_def)
  have d: "fdata st' x = fdata st x" if "x \<in> manifest_fids layout cid" for x
    using only_inD [OF assms(2)] assms(3) [OF that] by simp
  have sm: "slot_manifest layout cid k auth st' = slot_manifest layout cid k auth st" if "k \<in> {0, 1}" for k and auth :: "'c authenticator"
    using d that by (auto simp: slot_manifest_def manifest_fids_def)
  have pl: "plain st' = plain st" using assms(2) by (simp add: only_in_def fun_eq_iff)
  have u: "container_unseal layout cid m e pr room st' = container_unseal layout cid m e pr room st"
    if e: "e \<in> set (listed m)" for e pr room
  proof (rule container_unseal_cong)
    fix fid assume f: "record_fid_of layout cid e = Inr fid"
    have "plain st fid" using assms(1) e f by (auto simp: slot_holds_def version_ok_def record_sound_def)
    with only_inD [OF assms(2)] assms(4) [OF e f] show "fdata st' fid = fdata st fid" by simp
  qed
  have "version_ok layout cid (cr_protector cr) st' m"
    using assms(1) u by (simp add: slot_holds_def version_ok_def record_sound_def pl)
  moreover have "slot XOR 1 \<in> {0, 1}" using s by auto
  ultimately show "slot_holds layout cid cr st' slot m"
    using assms(1) s unfolding slot_holds_def pl by (simp add: sm)
  show "version_value layout cid (cr_protector cr) st' m = version_value layout cid (cr_protector cr) st m"
  proof
    fix k
    show "version_value layout cid (cr_protector cr) st' m k = version_value layout cid (cr_protector cr) st m k"
      using u find_member [of _ "listed m"]
      by (cases "find (\<lambda>d. descriptor_key d = k) (listed m)") (auto simp: version_value_def)
  qed
qed

text \<open>Manifests with the same set of objects are the same version.\<close>

lemma version_same:
  assumes "version_ok layout cid pr st m" "namespace_id m' = namespace_id m" "container_kind m' = container_kind m" "container_id m' = container_id m"
    and "length (objects m') = MAX_OBJECTS" "unat (object_count m') \<le> MAX_OBJECTS" "distinct (map descriptor_key (listed m'))"
    and "set (listed m') = set (listed m)"
  shows "version_ok layout cid pr st m'" "version_value layout cid pr st m' = version_value layout cid pr st m"
proof -
  have o: "objects m \<noteq> []" "objects m' \<noteq> []" using assms(1,5) by (auto simp: version_ok_def MAX_OBJECTS_def)
  have u: "container_unseal layout cid m' e pr room s = container_unseal layout cid m e pr room s" for e room s
    by (rule container_unseal_manifest [OF assms(2-4) o])
  show "version_ok layout cid pr st m'"
    using assms by (simp add: version_ok_def record_sound_def u)
  have "find (\<lambda>d. descriptor_key d = k) (listed m') = find (\<lambda>d. descriptor_key d = k) (listed m)" for k
    by (rule find_key_set) (use assms in \<open>simp_all add: version_ok_def\<close>)
  then show "version_value layout cid pr st m' = version_value layout cid pr st m"
    unfolding version_value_def u by simp
qed

lemma version_sorted:
  assumes "version_ok layout cid pr st m"
  shows "version_ok layout cid pr st (sort_objects m)" "version_value layout cid pr st (sort_objects m) = version_value layout cid pr st m"
    "set (listed (sort_objects m)) = set (listed m)" "m_generation (sort_objects m) = m_generation m"
    "object_count (sort_objects m) = object_count m"
proof -
  have l: "unat (object_count m) \<le> length (objects m)" "length (objects m) = MAX_OBJECTS" "distinct (map descriptor_key (listed m))"
    using assms by (simp_all add: version_ok_def)
  have n: "length (listed m) = unat (object_count m)" using l(1) by (simp add: listed_def)
  then have s: "listed (sort_objects m) = sort_descriptors (listed m)"
    by (simp add: listed_def [of "sort_objects m"]) (simp add: sort_objects_def sort_descriptors_law(2))
  show f: "m_generation (sort_objects m) = m_generation m" "object_count (sort_objects m) = object_count m"
    by (simp_all add: sort_objects_def)
  show m: "set (listed (sort_objects m)) = set (listed m)" using s sort_descriptors_law(1) by simp
  have g: "length (objects (sort_objects m)) = MAX_OBJECTS" "namespace_id (sort_objects m) = namespace_id m"
    "container_kind (sort_objects m) = container_kind m" "container_id (sort_objects m) = container_id m"
    using n l(1,2) sort_descriptors_law(2) [of "listed m"] by (simp_all add: sort_objects_def)
  have c: "unat (object_count (sort_objects m)) \<le> MAX_OBJECTS" using l(1,2) f(2) by simp
  have d: "distinct (map descriptor_key (listed (sort_objects m)))" unfolding s by (rule sort_descriptors_law(3) [OF l(3)])
  note vs = version_same [OF assms g(2-4,1) c d m]
  show "version_ok layout cid pr st (sort_objects m)" by (rule vs(1))
  show "version_value layout cid pr st (sort_objects m) = version_value layout cid pr st m" by (rule vs(2))
qed

lemma references_iff:
  "unat (object_count m) \<le> length (objects m) \<Longrightarrow> container_references m rid \<longleftrightarrow> (\<exists>d \<in> set (listed m). record_id d = rid)"
  by (auto simp: container_references_def list_ex_iff listed_def in_set_conv_nth Bex_def)

lemma records_present_record:
  "records_present layout cid st ds = PICOKEYS_OK \<Longrightarrow> d \<in> set ds \<Longrightarrow> record_fid_of layout cid d = Inr x \<Longrightarrow>
   \<exists>data info. fdata st x = Some data \<and> record_header_parse (Some data) d = Inr info"
proof (induction ds)
  case (Cons e es)
  note prems = Cons.prems
  have ok: "records_present layout cid st es = PICOKEYS_OK"
    using prems(1) record_fid_error [of e] by (auto simp: Let_def recoverable_def split: if_splits sum.splits)
  show ?case
  proof (cases "d = e")
    case True
    then show ?thesis
      using prems(1,3) by (auto simp: Let_def has_data_fdata data_fdata split: if_splits sum.splits option.splits)
  next
    case False
    with Cons.IH ok prems show ?thesis by simp
  qed
qed simp

text \<open>A record listed by two manifests of the same store is the same record.\<close>

lemma same_record:
  assumes "records_present layout cid st (listed m1) = PICOKEYS_OK" "d1 \<in> set (listed m1)" "record_fid_of layout cid d1 = Inr x"
    and "record_sound layout cid pr st m d" "objects m \<noteq> []" "record_fid_of layout cid d = Inr x"
  shows "record_id d = record_id d1"
proof -
  obtain data info where d: "fdata st x = Some data" "record_header_parse (Some data) d = Inr info"
  proof -
    obtain p where p: "container_unseal layout cid m d pr (unat (logical_size d)) st = Inr p"
      using assms(4) by (auto simp: record_sound_def)
    show ?thesis by (rule unsealed_record [OF p assms(5)]) (use assms(6) that in auto)
  qed
  have "\<exists>info. record_header_parse (Some data) d1 = Inr info"
    using records_present_record [OF assms(1-3)] d(1) by auto
  with d(2) record_header_id show ?thesis by metis
qed

text \<open>The manifest an update starts from.\<close>

lemma next_manifest_law:
  assumes "starts_from layout cid cr state st v" "next_manifest layout cid (container_current state) = Inr nxt"
  shows "version_ok layout cid (cr_protector cr) st nxt" "no_extensions nxt" "version_value layout cid (cr_protector cr) st nxt = v"
    "container_current state = Some cand \<Longrightarrow> m_generation (c_manifest cand) < m_generation nxt \<and> listed nxt = listed (c_manifest cand)"
    "container_current state = None \<Longrightarrow> listed nxt = []"
proof -
  have "version_ok layout cid (cr_protector cr) st nxt \<and> no_extensions nxt \<and> version_value layout cid (cr_protector cr) st nxt = v \<and>
    (\<forall>cand. container_current state = Some cand \<longrightarrow> m_generation (c_manifest cand) < m_generation nxt \<and> listed nxt = listed (c_manifest cand)) \<and>
    (container_current state = None \<longrightarrow> listed nxt = [])"
  proof (cases "container_current state")
    case None
    with assms(2) have n: "nxt = zero_manifest\<lparr>namespace_id := cl_namespace layout, container_kind := cl_kind layout,
         container_id := cid, m_generation := 1\<rparr>" by (simp add: next_manifest_def)
    then have l: "listed nxt = []" by (simp add: listed_def zero_manifest_def)
    then have "version_ok layout cid (cr_protector cr) st nxt" by (simp add: version_ok_def n zero_manifest_def)
    with None l assms(1) show ?thesis by (simp add: starts_from_def no_extensions_def version_value_def fun_eq_iff)
  next
    case (Some cand)
    let ?m = "c_manifest cand"
    have s: "version_ok layout cid (cr_protector cr) st ?m" "v = version_value layout cid (cr_protector cr) st ?m"
      using assms(1) Some by (simp_all add: starts_from_def)
    have g: "m_generation ?m \<noteq> - 1" "\<not> list_ex (\<lambda>d. d_extension_size d \<noteq> 0) (listed ?m)"
      and n: "nxt = ?m\<lparr>previous_generation := m_generation ?m, m_generation := m_generation ?m + 1\<rparr>"
      using assms(2) Some by (auto simp: next_manifest_def Let_def split: if_splits)
    have l: "listed nxt = listed ?m" by (simp add: n listed_def)
    have "version_ok layout cid (cr_protector cr) st nxt" "version_value layout cid (cr_protector cr) st nxt = v"
      using version_same [OF s(1), of nxt] s l by (simp_all add: n version_ok_def)
    moreover have "m_generation ?m < m_generation nxt" using next_generation [OF g(1)] by (simp add: n)
    moreover have "no_extensions nxt" using g(2) by (simp add: no_extensions_def l list_ex_iff)
    ultimately show ?thesis using Some l by simp
  qed
  then show "version_ok layout cid (cr_protector cr) st nxt" "no_extensions nxt" "version_value layout cid (cr_protector cr) st nxt = v"
    "container_current state = Some cand \<Longrightarrow> m_generation (c_manifest cand) < m_generation nxt \<and> listed nxt = listed (c_manifest cand)"
    "container_current state = None \<Longrightarrow> listed nxt = []" by blast+
qed

lemma roll_back_law:
  assumes "inv st" "\<forall>x \<in> set fids. plain (fs st) x \<and> x \<notin> own"
  shows "inv (roll_back layout fids st)" "only_in (set fids) (fs st) (fs (roll_back layout fids st))"
proof -
  have s: "store_inv (fs st)" using store [OF assms(1)] by simp
  then have o: "only_in (set fids) (fs st) (container_rollback fids (fs st))"
    by (rule container_rollback_law) (use assms(2) in simp)
  then show "only_in (set fids) (fs st) (fs (roll_back layout fids st))"
    using s by (simp add: roll_back_def only_in_refl)
  show "inv (roll_back layout fids st)"
    using kept [OF assms(1) o] assms by (auto simp: roll_back_def)
qed

text \<open>The manifest of the new version.\<close>

lemma slot_manifest_cong:
  "fdata st' (manifest_fid layout cid slot) = fdata st (manifest_fid layout cid slot) \<Longrightarrow>
   slot_manifest layout cid slot auth st' = slot_manifest layout cid slot auth st"
  by (simp add: slot_manifest_def)

lemma slot_manifest_torn:
  assumes "torn_refused auth st" "torn_in st (fdata st' (manifest_fid layout cid slot))"
  shows "\<exists>e. recoverable e \<and> slot_manifest layout cid slot auth st' = Inl e"
proof -
  obtain s t where t: "Failed s (Some t) \<in> set (flash st)" "fdata st' (manifest_fid layout cid slot) = Some t"
    using assms(2) by (auto simp: torn_in_def)
  with assms(1) have "t = [] \<or> (\<exists>e. manifest_parse (Some t) auth (\<lambda>_. False) = Inl e \<and> recoverable e)"
    by (auto simp: torn_refused_def)
  with t(2) show ?thesis by (auto simp: slot_manifest_def recoverable_def)
qed

lemma write_manifest_law:
  assumes "inv st" "version_ok layout cid (cr_protector cr) (fs st) nxt" "no_extensions nxt" "object_count nxt \<noteq> 0" "slot \<in> {0, 1}"
    and "write_manifest layout cid slot (cr_auth cr) nxt st = (r, st')"
  shows "inv st'" "only_in {manifest_fid layout cid slot} (fs st) (fs st')"
    "r = PICOKEYS_OK \<Longrightarrow> \<exists>m. slot_manifest layout cid slot (cr_auth cr) (fs st') = Inr m \<and> listed m = listed nxt \<and>
       version_ok layout cid (cr_protector cr) (fs st') m \<and>
       version_value layout cid (cr_protector cr) (fs st') m = version_value layout cid (cr_protector cr) (fs st) nxt \<and>
       m_generation m = m_generation nxt"
    "r \<noteq> PICOKEYS_OK \<Longrightarrow>
       slot_manifest layout cid slot (cr_auth cr) (fs st') = slot_manifest layout cid slot (cr_auth cr) (fs st) \<or>
       (\<exists>e. recoverable e \<and> slot_manifest layout cid slot (cr_auth cr) (fs st') = Inl e)"
    "r \<noteq> PICOKEYS_OK \<Longrightarrow> fdata (fs st) (manifest_fid layout cid slot) = None \<Longrightarrow> fdata (fs st') (manifest_fid layout cid slot) = None"
proof -
  let ?f = "manifest_fid layout cid slot"
  have c: "store_inv (fs st)" "mac_ok (cr_auth cr)" "torn_refused (cr_auth cr) (fs st)"
    using store [OF assms(1)] by simp_all
  have f: "?f \<in> manifest_fids layout cid" using assms(5) by (auto simp: manifest_fids_def)
  then have p: "plain (fs st) ?f" "?f \<notin> own" using manifest_plain [OF assms(1)] manifest_own by simp_all
  have "inv st' \<and> only_in {?f} (fs st) (fs st') \<and>
    (r = PICOKEYS_OK \<longrightarrow> (\<exists>m. slot_manifest layout cid slot (cr_auth cr) (fs st') = Inr m \<and> listed m = listed nxt \<and>
       version_ok layout cid (cr_protector cr) (fs st') m \<and>
       version_value layout cid (cr_protector cr) (fs st') m = version_value layout cid (cr_protector cr) (fs st) nxt \<and>
       m_generation m = m_generation nxt)) \<and>
    (r \<noteq> PICOKEYS_OK \<longrightarrow>
       (slot_manifest layout cid slot (cr_auth cr) (fs st') = slot_manifest layout cid slot (cr_auth cr) (fs st) \<or>
       (\<exists>e. recoverable e \<and> slot_manifest layout cid slot (cr_auth cr) (fs st') = Inl e)) \<and>
       (fdata (fs st) ?f = None \<longrightarrow> fdata (fs st') ?f = None))"
  proof (cases "manifest_build nxt (Some []) (cr_auth cr) MAX_MANIFEST_SIZE")
    case (Inl e)
    with assms(1,6) c manifest_build_error [OF c(2)] show ?thesis
      by (auto simp: write_manifest_def only_in_refl)
  next
    case (Inr data)
    obtain s' where w: "container_replace_file ?f data (fs st) = (r, s')" "st' = st\<lparr>fs := s'\<rparr>"
      using assms(6) Inr by (auto simp: write_manifest_def on_fs_def split: prod.splits)
    note rl = container_replace_law [OF c(1) p(1) w(1)]
    have i: "inv st'" using kept [OF assms(1) rl(1)] p(2) by (simp add: w(2))
    have n: "length (objects nxt) = MAX_OBJECTS" "unat (object_count nxt) \<le> MAX_OBJECTS" "namespace_id nxt = cl_namespace layout"
        "container_kind nxt = cl_kind layout" "container_id nxt = cid" "distinct (map descriptor_key (listed nxt))"
      using assms(2) by (simp_all add: version_ok_def)
    note b = manifest_built [OF c(2) Inr n(1) assms(4) n(2) assms(3) [unfolded no_extensions_def]]
    let ?m = "manifest_norm nxt 0"
    have oc: "object_count ?m = object_count nxt" "length (objects ?m) = MAX_OBJECTS"
      using assms(4) n(1,2) by (simp_all add: manifest_norm_def build_count_def Let_def)
    have "\<exists>m. slot_manifest layout cid slot (cr_auth cr) (fs st') = Inr m \<and> listed m = listed nxt \<and>
       version_ok layout cid (cr_protector cr) (fs st') m \<and>
       version_value layout cid (cr_protector cr) (fs st') m = version_value layout cid (cr_protector cr) (fs st) nxt \<and>
       m_generation m = m_generation nxt" if ok: "r = PICOKEYS_OK"
    proof (intro exI [of _ ?m] conjI)
      show "slot_manifest layout cid slot (cr_auth cr) (fs st') = Inr ?m"
        using rl(2) [OF ok] b(3) n assms(4) by (simp add: slot_manifest_def w(2) b(1) oc)
      show "listed ?m = listed nxt" by (rule b(2))
      have g: "grows {?f} {} (fs st) (fs st')" using grows_own [OF rl(1)] by (simp add: w(2))
      note vs = version_stays [OF assms(2) g]
      have v: "version_ok layout cid (cr_protector cr) (fs st') nxt"
        "version_value layout cid (cr_protector cr) (fs st') nxt = version_value layout cid (cr_protector cr) (fs st) nxt"
        using vs f by simp_all
      note same = version_same [OF v(1), of ?m]
      show "version_ok layout cid (cr_protector cr) (fs st') ?m"
        by (rule same(1)) (use oc b(2) n in simp_all)
      have "version_value layout cid (cr_protector cr) (fs st') ?m = version_value layout cid (cr_protector cr) (fs st') nxt"
        by (rule same(2)) (use oc b(2) n in simp_all)
      with v(2) show "version_value layout cid (cr_protector cr) (fs st') ?m = version_value layout cid (cr_protector cr) (fs st) nxt"
        by simp
      show "m_generation ?m = m_generation nxt" by simp
    qed
    moreover have "slot_manifest layout cid slot (cr_auth cr) (fs st') = slot_manifest layout cid slot (cr_auth cr) (fs st) \<or>
       (\<exists>e. recoverable e \<and> slot_manifest layout cid slot (cr_auth cr) (fs st') = Inl e)" if bad: "r \<noteq> PICOKEYS_OK"
    proof -
      consider "fdata (fs st') ?f = fdata (fs st) ?f" | "fdata (fs st') ?f = None" | "torn_in (fs st) (fdata (fs st') ?f)"
        using rl(3) [OF bad] by (auto simp: w(2))
      then show ?thesis
      proof cases
        case 1
        then show ?thesis using slot_manifest_cong by blast
      next
        case 2
        then show ?thesis by (simp add: slot_manifest_def recoverable_def)
      next
        case 3
        then show ?thesis using slot_manifest_torn [OF c(3)] by blast
      qed
    qed
    ultimately show ?thesis using i rl(1,4) by (simp add: w(2))
  qed
  then show "inv st'" "only_in {?f} (fs st) (fs st')"
    "r = PICOKEYS_OK \<Longrightarrow> \<exists>m. slot_manifest layout cid slot (cr_auth cr) (fs st') = Inr m \<and> listed m = listed nxt \<and>
       version_ok layout cid (cr_protector cr) (fs st') m \<and>
       version_value layout cid (cr_protector cr) (fs st') m = version_value layout cid (cr_protector cr) (fs st) nxt \<and>
       m_generation m = m_generation nxt"
    "r \<noteq> PICOKEYS_OK \<Longrightarrow>
       slot_manifest layout cid slot (cr_auth cr) (fs st') = slot_manifest layout cid slot (cr_auth cr) (fs st) \<or>
       (\<exists>e. recoverable e \<and> slot_manifest layout cid slot (cr_auth cr) (fs st') = Inl e)"
    "r \<noteq> PICOKEYS_OK \<Longrightarrow> fdata (fs st) ?f = None \<Longrightarrow> fdata (fs st') ?f = None" by blast+
qed

text \<open>Retiring superseded records does not touch those of the version just written: a file that both
  versions name holds one record, and the new version refers to it.\<close>

lemma retire_apart:
  assumes "starts_from layout cid cr state st v" "next_manifest layout cid (container_current state) = Inr nxt0"
    and "listed_from st nxt0 nxt" "unat (object_count nxt) \<le> length (objects nxt)"
    and "c_valid (candidates state ! unat (target_of state))"
    and "d' \<in> set (listed (c_manifest (candidates state ! unat (target_of state))))" "record_fid_of layout cid d' = Inr x"
    and "\<not> container_references nxt (record_id d')" "d \<in> set (listed nxt)"
  shows "record_fid_of layout cid d \<noteq> Inr x"
proof
  assume x: "record_fid_of layout cid d = Inr x"
  obtain cand where c: "container_current state = Some cand"
    using assms(1,5) by (cases "container_current state") (auto simp: starts_from_def target_of_def)
  let ?m = "c_manifest cand" and ?o = "c_manifest (candidates state ! unat (target_of state))"
  have o: "records_present layout cid st (listed ?o) = PICOKEYS_OK"
    using assms(1,5) c by (simp add: starts_from_def target_of_def Let_def)
  have v: "version_ok layout cid (cr_protector cr) st ?m" using assms(1) c by (simp add: starts_from_def)
  have "fdata st x \<noteq> None" using records_present_record [OF o assms(6,7)] by auto
  then have "d \<in> set (listed nxt0)" using assms(3,9) x by (auto simp: listed_from_def)
  then have "d \<in> set (listed ?m)" using next_manifest_law(4) [OF assms(1,2) c] by simp
  then have "record_sound layout cid (cr_protector cr) st ?m d" "objects ?m \<noteq> []"
    using v by (auto simp: version_ok_def MAX_OBJECTS_def)
  from same_record [OF o assms(6,7) this x] have "record_id d = record_id d'" .
  with references_iff [OF assms(4)] assms(8,9) show False by blast
qed

lemma starts_target:
  assumes "starts_from layout cid cr state st v"
  shows "target_of state \<in> {0, 1}" "container_current state = Some cand \<Longrightarrow> target_of state XOR 1 = c_slot cand"
proof -
  show "target_of state \<in> {0, 1}"
    using assms by (auto simp: starts_from_def target_of_def split: option.splits)
  show "container_current state = Some cand \<Longrightarrow> target_of state XOR 1 = c_slot cand"
    using assms by (auto simp: starts_from_def target_of_def)
qed

text \<open>What the other slot says once the new manifest is in place.\<close>

lemma other_slot:
  assumes "starts_from layout cid cr state st v" "next_manifest layout cid (container_current state) = Inr nxt"
    and "fdata st' (manifest_fid layout cid (target_of state XOR 1)) = fdata st (manifest_fid layout cid (target_of state XOR 1))"
    and "plain st' = plain st"
  shows "case slot_manifest layout cid (target_of state XOR 1) (cr_auth cr) st' of
        Inl e \<Rightarrow> recoverable e
      | Inr m' \<Rightarrow> m_generation m' < m_generation nxt \<and>
          (\<forall>d \<in> set (listed m'). \<exists>fid. record_fid_of layout cid d = Inr fid \<and> plain st' fid)"
proof (cases "container_current state")
  case None
  then have "fdata st (manifest_fid layout cid 1) = None" using assms(1) by (simp add: starts_from_def container_absent_def)
  with None assms(3) show ?thesis by (simp add: target_of_def slot_manifest_def recoverable_def)
next
  case (Some cand)
  have "slot_manifest layout cid (target_of state XOR 1) (cr_auth cr) st = Inr (c_manifest cand)"
    "version_ok layout cid (cr_protector cr) st (c_manifest cand)"
    using assms(1) Some starts_target(2) [OF assms(1) Some] by (simp_all add: starts_from_def)
  moreover note slot_manifest_cong [OF assms(3), of "cr_auth cr"]
  ultimately show ?thesis
    using next_manifest_law(4) [OF assms(1,2) Some] unfolding assms(4) by (auto simp: version_ok_def record_sound_def)
qed

lemma grows_mono: "grows A K st st' \<Longrightarrow> A \<subseteq> B \<Longrightarrow> K' \<subseteq> K \<Longrightarrow> grows B K' st st'"
  by (auto simp: grows_def)

text \<open>A step that fails before the new manifest is in place.\<close>

lemma kept_after:
  assumes "grows own (manifest_fids layout cid) (fs st) (fs st1)" "new_fids (fs st) fids" "slot \<in> {0, 1}" "inv st" "inv st2"
    and "only_in {manifest_fid layout cid slot} (fs st1) (fs st2)"
    and "slot_manifest layout cid slot (cr_auth cr) (fs st2) = slot_manifest layout cid slot (cr_auth cr) (fs st1) \<or>
       (\<exists>e. recoverable e \<and> slot_manifest layout cid slot (cr_auth cr) (fs st2) = Inl e)"
    and "fdata (fs st1) (manifest_fid layout cid slot) = None \<longrightarrow> fdata (fs st2) (manifest_fid layout cid slot) = None"
  shows "inv (roll_back layout fids st2) \<and> version_kept layout cid cr own slot (fs st) (fs (roll_back layout fids st2))"
proof -
  let ?f = "manifest_fid layout cid slot" and ?o = "manifest_fid layout cid (slot XOR 1)"
  have fo: "?f \<in> manifest_fids layout cid" "?o \<in> manifest_fids layout cid" "?f \<noteq> ?o"
    using assms(3) manifest_distinct by (auto simp: manifest_fids_def)
  have pl: "plain (fs st2) = plain (fs st)"
    using assms(6) grows_plain [OF assms(1)] by (simp add: only_in_def fun_eq_iff)
  note rb = roll_back_law [OF assms(5), of fids]
  have r: "inv (roll_back layout fids st2)" "only_in (set fids) (fs st2) (fs (roll_back layout fids st2))"
    using rb assms(2) pl by (simp_all add: new_fids_def)
  have g1: "grows (insert ?f own) {?o} (fs st) (fs st1)"
    using assms(1) fo by (auto intro: grows_mono)
  have "grows (insert ?f own) {?o} (fs st1) (fs st2)" using assms(6) by (rule grows_own) simp
  with g1 have g2: "grows (insert ?f own) {?o} (fs st) (fs st2)" by (rule grows_trans)
  have g3: "grows (insert ?f own) {?o} (fs st) (fs (roll_back layout fids st2))"
    using grows_fresh [OF g2 r(2)] assms(2) fo(2) by (auto simp: new_fids_def)
  have p: "plain (fs st) ?f" "?f \<notin> own" using manifest_plain [OF assms(4)] manifest_own fo(1) by simp_all
  have d1: "fdata (fs st1) ?f = fdata (fs st) ?f" using growsD [OF assms(1) p] fo(1) by simp
  have "?f \<notin> set fids" using assms(2) fo(1) by (auto simp: new_fids_def)
  then have d3: "fdata (fs (roll_back layout fids st2)) ?f = fdata (fs st2) ?f" using only_inD [OF r(2)] p(1) pl by simp
  show ?thesis
    using r(1) g3 assms(7,8) d1 slot_manifest_cong [OF d1] slot_manifest_cong [OF d3] d3
    by (simp add: version_kept_def)
qed

text \<open>Activation and retirement leave the new version in place.\<close>

lemma finish_law:
  assumes "starts_from layout cid cr state (fs st) v" "next_manifest layout cid (container_current state) = Inr nxt0"
    and "listed_from (fs st) nxt0 nxt" "unat (object_count nxt) \<le> length (objects nxt)"
    and "inv st2" "\<forall>x. plain (fs st2) x = plain (fs st) x" "slot_holds layout cid cr (fs st2) (target_of state) m" "listed m = listed nxt"
    and "activate layout cid st2 = (r3, st3)" "retire layout cid state nxt cur (target_of state) st3 = (r4, st4)"
  shows "inv st3" "inv st4" "slot_holds layout cid cr (fs st3) (target_of state) m" "slot_holds layout cid cr (fs st4) (target_of state) m"
    "version_value layout cid (cr_protector cr) (fs st3) m = version_value layout cid (cr_protector cr) (fs st2) m"
    "version_value layout cid (cr_protector cr) (fs st4) m = version_value layout cid (cr_protector cr) (fs st2) m"
proof -
  let ?o = "candidates state ! unat (target_of state)"
  note ac = activated [OF assms(5,9)]
  have p3: "plain (fs st3) x = plain (fs st) x" for x using ac assms(6) by (simp add: only_in_def)
  have mf: "plain (fs s) x \<and> x \<notin> own" if "inv s" "x \<in> manifest_fids layout cid" for s x
    using manifest_plain manifest_own that by blast
  have own_apart: "fid \<notin> own" if "record_fid_of layout cid d = Inr fid" for d fid
    using record_fid_apart that by blast
  note h3 = slot_holds_stays [OF assms(7) conjunct2 [OF ac] mf [OF assms(5)] own_apart]
  show "inv st3" "slot_holds layout cid cr (fs st3) (target_of state) m"
    "version_value layout cid (cr_protector cr) (fs st3) m = version_value layout cid (cr_protector cr) (fs st2) m"
    using ac h3 by simp_all
  have op: "\<forall>d \<in> set (listed (c_manifest ?o)). \<exists>fid. record_fid_of layout cid d = Inr fid \<and> plain (fs st3) fid" if "c_valid ?o"
  proof (cases "container_current state")
    case None
    with assms(1) that show ?thesis by (simp add: starts_from_def target_of_def)
  next
    case (Some cand)
    with assms(1) that show ?thesis by (simp add: starts_from_def target_of_def Let_def p3)
  qed
  let ?A = "own \<union> {x. c_valid ?o \<and> (\<exists>d \<in> set (listed (c_manifest ?o)). record_fid_of layout cid d = Inr x \<and> \<not> container_references nxt (record_id d))}"
  note re = retired [OF conjunct1 [OF ac] assms(10) op]
  have a: "plain (fs st3) x \<and> x \<notin> ?A" if "x \<in> manifest_fids layout cid" for x
    using mf [OF conjunct1 [OF ac] that] record_fid_apart that by auto
  have b: "fid \<notin> ?A" if "d \<in> set (listed m)" "record_fid_of layout cid d = Inr fid" for d fid
    using own_apart [OF that(2)] retire_apart [OF assms(1-4), where d = d and x = fid] that assms(8) by auto
  note h4 = slot_holds_stays [OF h3(1) conjunct2 [OF re] a b]
  show "inv st4" "slot_holds layout cid cr (fs st4) (target_of state) m"
    "version_value layout cid (cr_protector cr) (fs st4) m = version_value layout cid (cr_protector cr) (fs st2) m"
    using re h4 h3(2) by simp_all
qed

text \<open>An update from a version, whatever fails: that version stays, or the new one is in place.\<close>

lemma update_loaded_law:
  assumes "inv st" "starts_from layout cid cr state (fs st) v" "writes \<noteq> []" "update_loaded layout cid writes state st = (r, st')"
  shows "inv st' \<and>
    (version_kept layout cid cr own (target_of state) (fs st) (fs st') \<and> r \<noteq> PICOKEYS_OK \<or>
     version_switched layout cid cr (target_of state) (fs st') (apply_writes writes v))"
proof -
  let ?t = "target_of state" and ?cur = "case container_current state of None \<Rightarrow> INVALID_SLOT | Some cand \<Rightarrow> c_slot cand"
  note t = starts_target(1) [OF assms(2)]
  have crypto: "crypto state = cr" using assms(2) by (simp add: starts_from_def)
  have refl: "version_kept layout cid cr own ?t (fs st) (fs st)" by (simp add: version_kept_def grows_refl)
  show ?thesis
  proof (cases "next_manifest layout cid (container_current state)")
    case (Inl e)
    then have "e = PICOKEYS_WRONG_DATA"
      by (auto simp: next_manifest_def Let_def split: option.splits if_splits)
    with assms(1,4) Inl refl show ?thesis by (simp add: update_loaded_def Let_def)
  next
    case (Inr nxt0)
    note nm = next_manifest_law [OF assms(2) Inr]
    obtain q nxt1 fids st1 where w: "container_writes layout cid ?t cr [] writes nxt0 [] st = ((q, nxt1, fids), st1)"
      by (metis prod_cases4 surj_pair)
    note wl = writes_law [OF assms(1) nm(1,2) w]
    have i1: "inv st1" and g1: "grows own (manifest_fids layout cid) (fs st) (fs st1)" and nf: "new_fids (fs st) fids" using wl by auto
    have upd: "update_loaded layout cid writes state st =
       (if q \<noteq> PICOKEYS_OK then (q, roll_back layout fids st1)
        else case write_manifest layout cid ?t (cr_auth cr) (sort_objects nxt1) st1 of (r2, st2) \<Rightarrow>
          if r2 \<noteq> PICOKEYS_OK then (r2, roll_back layout fids st2)
          else case activate layout cid st2 of (r3, st3) \<Rightarrow>
            if r3 \<noteq> PICOKEYS_OK then (r3, st3) else retire layout cid state (sort_objects nxt1) ?cur ?t st3)"
      unfolding update_loaded_def Let_def crypto Inr sum.case target_of_def [symmetric] w prod.case ..
    show ?thesis
    proof (cases "q = PICOKEYS_OK")
      case False
      then have "r = q" "st' = roll_back layout fids st1" using assms(4) unfolding upd by simp_all
      with kept_after [OF g1 nf t assms(1) i1 only_in_refl] store [OF i1] False show ?thesis by simp
    next
      case True
      have n1: "version_ok layout cid (cr_protector cr) (fs st1) nxt1" "no_extensions nxt1" "listed_from (fs st) nxt0 nxt1"
          "version_value layout cid (cr_protector cr) (fs st1) nxt1 = apply_writes writes v"
          "m_generation nxt1 = m_generation nxt0" "object_count nxt1 \<noteq> 0"
        using wl True nm(3) assms(3) by simp_all
      let ?n = "sort_objects nxt1"
      note so = version_sorted [OF n1(1)]
      have n: "no_extensions ?n" "listed_from (fs st) nxt0 ?n" "object_count ?n \<noteq> 0" "unat (object_count ?n) \<le> length (objects ?n)"
        using n1 so(1,3,5) by (simp_all add: no_extensions_def listed_from_def version_ok_def)
      obtain r2 st2 where m: "write_manifest layout cid ?t (cr_auth cr) ?n st1 = (r2, st2)" by fastforce
      note ml = write_manifest_law [OF i1 so(1) n(1,3) t m]
      show ?thesis
      proof (cases "r2 = PICOKEYS_OK")
        case False
        then have "r = r2" "st' = roll_back layout fids st2" using assms(4) True m unfolding upd by simp_all
        with kept_after [OF g1 nf t assms(1) ml(1,2)] ml(4,5) False show ?thesis by simp
      next
        case r2: True
        obtain mm where mm: "slot_manifest layout cid ?t (cr_auth cr) (fs st2) = Inr mm" "listed mm = listed ?n"
            "version_ok layout cid (cr_protector cr) (fs st2) mm"
            "version_value layout cid (cr_protector cr) (fs st2) mm = version_value layout cid (cr_protector cr) (fs st1) ?n"
            "m_generation mm = m_generation ?n"
          using ml(3) [OF r2] by blast
        have pl: "plain (fs st2) = plain (fs st)"
          using ml(2) grows_plain [OF g1] by (simp add: only_in_def fun_eq_iff)
        let ?o = "manifest_fid layout cid (?t XOR 1)"
        have o: "?o \<in> manifest_fids layout cid" "?o \<noteq> manifest_fid layout cid ?t"
          using t manifest_distinct by (auto simp: manifest_fids_def)
        have "fdata (fs st1) ?o = fdata (fs st) ?o"
          using growsD [OF g1] manifest_plain [OF assms(1) o(1)] manifest_own [OF o(1)] o(1) by simp
        then have "fdata (fs st2) ?o = fdata (fs st) ?o"
          using only_inD [OF ml(2)] manifest_plain [OF i1 o(1)] o(2) by simp
        note os = other_slot [OF assms(2) Inr this pl]
        have gen: "m_generation mm = m_generation nxt0" using mm(5) so(4) n1(5) by simp
        have h2: "slot_holds layout cid cr (fs st2) ?t mm"
          using os t mm(1,3) unfolding slot_holds_def gen by simp
        obtain r3 st3 where a: "activate layout cid st2 = (r3, st3)" by fastforce
        obtain r4 st4 where re: "retire layout cid state ?n ?cur ?t st3 = (r4, st4)" by fastforce
        have pl': "\<forall>x. plain (fs st2) x = plain (fs st) x" using pl by simp
        note fl = finish_law [OF assms(2) Inr n(2,4) ml(1) pl' h2 mm(2) a re]
        have "st' = (if r3 \<noteq> PICOKEYS_OK then st3 else st4)"
          using assms(4) True m r2 a re unfolding upd by (simp split: if_splits)
        moreover have "version_value layout cid (cr_protector cr) (fs st2) mm = apply_writes writes v" using mm(4) so(2) n1(4) by simp
        ultimately show ?thesis using fl unfolding version_switched_def by (auto split: if_splits)
      qed
    qed
  qed
qed

text \<open>Validating a complete version only fails for want of memory.\<close>

lemma validate_objects_sound:
  "\<forall>d \<in> set ds. record_sound layout cid pr (fs st) m d \<Longrightarrow> objects m \<noteq> [] \<Longrightarrow>
   \<exists>r bs. validate_objects layout cid m pr ds st = (r, st\<lparr>mem := bs\<rparr>) \<and>
     (False \<notin> set (take (length ds) (mem st)) \<longrightarrow> r = PICOKEYS_OK)"
proof (induction ds arbitrary: st)
  case Nil
  then show ?case by (auto intro: exI [of _ "mem st"])
next
  case (Cons d ds)
  obtain p where p: "container_unseal layout cid m d pr (unat (logical_size d)) (fs st) = Inr p"
    using Cons.prems(1) by (auto simp: record_sound_def)
  have l: "length p = unat (logical_size d)" by (rule unsealed_record [OF p Cons.prems(2)])
  obtain ok bs where m: "(if 0 < logical_size d then next_mem st else (True, st)) = (ok, st\<lparr>mem := bs\<rparr>)"
      "False \<notin> set (take (length (d # ds)) (mem st)) \<longrightarrow> ok \<and> False \<notin> set (take (length ds) bs)"
  proof (cases "0 < logical_size d")
    case False
    then show ?thesis
      using that [of True "mem st"] set_take_subset_set_take [of "length ds" "Suc (length ds)" "mem st"] by auto
  next
    case True
    then show ?thesis
      using that [of True "[]"] that [of "hd (mem st)" "tl (mem st)"] by (cases "mem st") (simp_all add: next_mem_def)
  qed
  let ?s = "st\<lparr>mem := bs\<rparr>"
  show ?case
  proof (cases ok)
    case False
    then have "validate_objects layout cid m pr (d # ds) st = (PICOKEYS_ERR_MEMORY_FATAL, ?s)" by (simp add: m(1))
    with False m(2) show ?thesis by blast
  next
    case True
    have "validate_objects layout cid m pr (d # ds) st = validate_objects layout cid m pr ds ?s"
      using True p l by (simp add: m(1))
    moreover obtain r cs where "validate_objects layout cid m pr ds ?s = (r, ?s\<lparr>mem := cs\<rparr>)"
        "False \<notin> set (take (length ds) bs) \<longrightarrow> r = PICOKEYS_OK"
      using Cons.IH [of ?s] Cons.prems by auto
    ultimately show ?thesis using m(2) by auto
  qed
qed

lemma load_starts:
  assumes "slot_holds layout cid cr st slot m"
  obtains state where "container_load layout cid cr legacy st = (if container_layout_valid layout then Inr state else Inl PICOKEYS_ERR_NULL_PARAM)"
    "container_current state = Some \<lparr>c_manifest = m, c_slot = slot, c_valid = True\<rparr>"
    "starts_from layout cid cr state st (version_value layout cid (cr_protector cr) st m)"
    "target_of state = slot XOR 1"
proof (rule load_holds [OF record_fid_error assms])
  fix state
  assume l: "load_with_crypto layout cid cr st = Inr state" "current_slot state = slot" "crypto state = cr"
    "candidates state ! unat slot = \<lparr>c_manifest = m, c_slot = slot, c_valid = True\<rparr>"
    and other: "c_valid (candidates state ! unat (slot XOR 1)) \<Longrightarrow>
       slot_manifest layout cid (slot XOR 1) (cr_auth cr) st = Inr (c_manifest (candidates state ! unat (slot XOR 1))) \<and>
       c_slot (candidates state ! unat (slot XOR 1)) = slot XOR 1 \<and>
       records_present layout cid st (listed (c_manifest (candidates state ! unat (slot XOR 1)))) = PICOKEYS_OK"
  have s: "slot \<in> {0, 1}" "slot_manifest layout cid slot (cr_auth cr) st = Inr m" "version_ok layout cid (cr_protector cr) st m"
    using assms by (simp_all add: slot_holds_def)
  have c: "container_current state = Some \<lparr>c_manifest = m, c_slot = slot, c_valid = True\<rparr>"
    using s(1) l(2,4) by (auto simp: container_current_def SLOT_COUNT_def)
  moreover have "starts_from layout cid cr state st (version_value layout cid (cr_protector cr) st m)"
    using c s l(3) other assms by (auto simp: starts_from_def slot_holds_def Let_def)
  moreover have "target_of state = slot XOR 1" using c by (simp add: target_of_def)
  ultimately show thesis using that [of state] l(1) by (simp add: container_load_def)
qed

lemma kept_holds:
  assumes "inv st" "slot_holds layout cid cr (fs st) slot m" "version_kept layout cid cr own (slot XOR 1) (fs st) (fs st')"
  shows "slot_holds layout cid cr (fs st') slot m"
    "version_value layout cid (cr_protector cr) (fs st') m = version_value layout cid (cr_protector cr) (fs st) m"
proof -
  let ?o = "slot XOR 1" and ?s = "fs st" and ?s' = "fs st'"
  have s: "slot \<in> {0, 1}" "version_ok layout cid (cr_protector cr) ?s m" "slot_manifest layout cid slot (cr_auth cr) ?s = Inr m"
    using assms(2) by (simp_all add: slot_holds_def)
  have x: "?o XOR 1 = slot" using s(1) by auto
  have mf: "manifest_fid layout cid slot \<in> manifest_fids layout cid" "manifest_fid layout cid ?o \<in> manifest_fids layout cid"
      "manifest_fid layout cid slot \<noteq> manifest_fid layout cid ?o"
    using s(1) manifest_distinct by (auto simp: manifest_fids_def)
  have g: "grows (insert (manifest_fid layout cid ?o) own) {manifest_fid layout cid slot} ?s ?s'"
    using assms(3) x by (simp add: version_kept_def)
  have "insert (manifest_fid layout cid ?o) own \<subseteq> own \<union> manifest_fids layout cid" using mf(2) by blast
  note vs = version_stays [OF s(2) g this]
  show "version_value layout cid (cr_protector cr) ?s' m = version_value layout cid (cr_protector cr) ?s m" by (rule vs(2))
  have pl: "plain ?s' = plain ?s" using grows_plain [OF g] by (simp add: fun_eq_iff)
  have "fdata ?s' (manifest_fid layout cid slot) = fdata ?s (manifest_fid layout cid slot)"
    using growsD [OF g] manifest_plain [OF assms(1) mf(1)] manifest_own [OF mf(1)] mf(3) by simp
  from slot_manifest_cong [OF this, of "cr_auth cr"] s(3)
  have sm: "slot_manifest layout cid slot (cr_auth cr) ?s' = Inr m" by simp
  have "slot_manifest layout cid ?o (cr_auth cr) ?s' = slot_manifest layout cid ?o (cr_auth cr) ?s \<or>
      (\<exists>e. recoverable e \<and> slot_manifest layout cid ?o (cr_auth cr) ?s' = Inl e)"
    using assms(3) by (simp add: version_kept_def)
  moreover have "case slot_manifest layout cid ?o (cr_auth cr) ?s of Inl e \<Rightarrow> recoverable e
      | Inr m' \<Rightarrow> m_generation m' < m_generation m \<and> (\<forall>d \<in> set (listed m'). \<exists>fid. record_fid_of layout cid d = Inr fid \<and> plain ?s fid)"
    using assms(2) by (simp add: slot_holds_def)
  ultimately show "slot_holds layout cid cr ?s' slot m"
    unfolding slot_holds_def pl using s(1) sm vs(1) by auto
qed

text \<open>An update is atomic: whatever flash operations fail, the container has its old value afterwards
  or the new one, and a complete version is current. The allocations that validating the current
  version makes must succeed; the later ones need not.\<close>

theorem update_atomic:
  assumes "inv st" "container_wf layout cid cr (fs st)" "validate \<longrightarrow> False \<notin> set (take MAX_OBJECTS (mem st))"
    and "container_update_internal layout cid writes cr None validate st = (r, st')"
  shows "inv st' \<and> container_wf layout cid cr (fs st') \<and>
    (container_value layout cid cr (fs st') = container_value layout cid cr (fs st) \<and> r \<noteq> PICOKEYS_OK \<or>
     container_value layout cid cr (fs st') = apply_writes writes (container_value layout cid cr (fs st)))"
proof (cases "\<not> container_layout_valid layout \<or> writes = [] \<or> MAX_OBJECTS < length writes")
  case True
  with assms show ?thesis by (auto simp: container_update_internal_def)
next
  case False
  have switched: "container_wf layout cid cr (fs s) \<and> container_value layout cid cr (fs s) = v"
    if "version_switched layout cid cr slot (fs s) v" for s slot v
    using that value_holds [OF record_fid_error] by (auto simp: version_switched_def container_wf_def)
  from assms(2) consider (absent) "container_absent layout cid (fs st)" | (holds) slot m where "slot_holds layout cid cr (fs st) slot m"
    by (auto simp: container_wf_def)
  then show ?thesis
  proof cases
    case absent
    let ?state = "\<lparr>candidates = [zero_candidate, zero_candidate], crypto = cr, current_slot = INVALID_SLOT\<rparr>"
    have none: "container_current ?state = None" by (simp add: container_current_def SLOT_COUNT_def INVALID_SLOT_def)
    have s: "starts_from layout cid cr ?state (fs st) (container_value layout cid cr (fs st))"
      using absent none value_absent [OF absent] by (simp add: starts_from_def zero_candidate_def)
    have "update_loaded layout cid writes ?state st = (r, st')"
      using assms(4) False load_absent [OF absent, of cr] by (simp add: container_update_internal_def container_load_def)
    note ul = update_loaded_law [OF assms(1) s _ this]
    have t: "target_of ?state = 0" using none by (simp add: target_of_def)
    show ?thesis
    proof (cases "version_kept layout cid cr own 0 (fs st) (fs st') \<and> r \<noteq> PICOKEYS_OK")
      case True
      have m1: "manifest_fid layout cid 1 \<in> manifest_fids layout cid" by (simp add: manifest_fids_def)
      have absent': "container_absent layout cid (fs st')"
        using True absent manifest_plain [OF assms(1) m1] manifest_own [OF m1] manifest_distinct
        by (auto simp: version_kept_def container_absent_def grows_def)
      then show ?thesis
        using ul False True value_absent [OF absent, of cr] value_absent [OF absent', of cr] absent' by (simp add: container_wf_def)
    next
      case f: False
      have "version_switched layout cid cr 0 (fs st') (apply_writes writes (container_value layout cid cr (fs st)))"
        using f ul False t by auto
      from switched [OF this] ul False show ?thesis by simp
    qed
  next
    case holds
    obtain state where l: "container_load layout cid cr None (fs st) = Inr state"
        "container_current state = Some \<lparr>c_manifest = m, c_slot = slot, c_valid = True\<rparr>"
        "starts_from layout cid cr state (fs st) (version_value layout cid (cr_protector cr) (fs st) m)" "target_of state = slot XOR 1"
      using load_starts [OF holds, of None] False by metis
    have val: "container_value layout cid cr (fs st) = version_value layout cid (cr_protector cr) (fs st) m"
      by (rule value_holds [OF record_fid_error holds])
    have mv: "objects m \<noteq> []" "\<forall>d \<in> set (listed m). record_sound layout cid (cr_protector cr) (fs st) m d" "length (listed m) \<le> MAX_OBJECTS"
      using holds by (auto simp: slot_holds_def version_ok_def MAX_OBJECTS_def listed_def)
    obtain bs where u: "update_loaded layout cid writes state (st\<lparr>mem := bs\<rparr>) = (r, st')"
    proof (cases validate)
      case True
      obtain q bs where q: "validate_objects layout cid m (cr_protector cr) (listed m) st = (q, st\<lparr>mem := bs\<rparr>)"
          "False \<notin> set (take (length (listed m)) (mem st)) \<longrightarrow> q = PICOKEYS_OK"
        using validate_objects_sound [OF mv(2,1)] by blast
      have "False \<notin> set (take (length (listed m)) (mem st))"
        using assms(3) True set_take_subset_set_take [OF mv(3), of "mem st"] by blast
      with q have "container_validate layout cid \<lparr>c_manifest = m, c_slot = slot, c_valid = True\<rparr> (cr_protector cr) st = (PICOKEYS_OK, st\<lparr>mem := bs\<rparr>)"
        using False by (simp add: container_validate_def)
      then have "select_valid layout cid state st = ((PICOKEYS_OK, state), st\<lparr>mem := bs\<rparr>)"
        using l(2,3) by (simp add: select_valid_def starts_from_def Let_def)
      with assms(4) False l(1) True that show ?thesis by (simp add: container_update_internal_def)
    next
      case no: False
      with assms(4) False l(1) that [of "mem st"] show ?thesis by (simp add: container_update_internal_def)
    qed
    have i: "inv (st\<lparr>mem := bs\<rparr>)" by (rule kept_mem [OF assms(1)])
    have s: "starts_from layout cid cr state (fs (st\<lparr>mem := bs\<rparr>)) (version_value layout cid (cr_protector cr) (fs st) m)" using l(3) by simp
    note ul = update_loaded_law [OF i s _ u]
    show ?thesis
    proof (cases "version_kept layout cid cr own (slot XOR 1) (fs st) (fs st') \<and> r \<noteq> PICOKEYS_OK")
      case True
      note kh = kept_holds [OF assms(1) holds conjunct1 [OF True]]
      have "container_value layout cid cr (fs st') = container_value layout cid cr (fs st)"
        using value_holds [OF record_fid_error kh(1)] kh(2) val by simp
      with True ul False kh(1) show ?thesis by (auto simp: container_wf_def)
    next
      case f: False
      have "version_switched layout cid cr (slot XOR 1) (fs st') (apply_writes writes (container_value layout cid cr (fs st)))"
        using f ul False l(4) val by auto
      from switched [OF this] ul False show ?thesis by simp
    qed
  qed
qed

text \<open>Reading answers the value of the container.\<close>

theorem read_value:
  assumes "container_wf layout cid cr st" "container_layout_valid layout"
  shows "container_value layout cid cr st (otype, tag) = Some p \<Longrightarrow> \<forall>d. access d = PICOKEYS_OK \<Longrightarrow> length p \<le> room \<Longrightarrow>
      container_read layout cid otype tag cr legacy access room st = Inr p"
    and "container_value layout cid cr st (otype, tag) = None \<Longrightarrow>
      container_read layout cid otype tag cr None access room st = Inl PICOKEYS_ERR_FILE_NOT_FOUND"
proof -
  have "(container_value layout cid cr st (otype, tag) = Some p \<longrightarrow> (\<forall>d. access d = PICOKEYS_OK) \<longrightarrow> length p \<le> room \<longrightarrow>
      container_read layout cid otype tag cr legacy access room st = Inr p) \<and>
    (container_value layout cid cr st (otype, tag) = None \<longrightarrow>
      container_read layout cid otype tag cr None access room st = Inl PICOKEYS_ERR_FILE_NOT_FOUND)"
  proof (cases "container_absent layout cid st")
    case True
    then show ?thesis
      using value_absent [OF True, of cr] load_absent [OF True, of cr] assms(2) by (simp add: container_read_def container_load_def)
  next
    case False
    then obtain slot m where h: "slot_holds layout cid cr st slot m" using assms(1) by (auto simp: container_wf_def)
    have v: "container_value layout cid cr st = version_value layout cid (cr_protector cr) st m"
      by (rule value_holds [OF record_fid_error h])
    have m: "unat (object_count m) \<le> length (objects m)" "objects m \<noteq> []" "distinct (map descriptor_key (listed m))"
        "\<And>d. d \<in> set (listed m) \<Longrightarrow> record_sound layout cid (cr_protector cr) st m d"
      using h by (auto simp: slot_holds_def version_ok_def MAX_OBJECTS_def)
    show ?thesis
    proof (cases "container_find m otype tag")
      case None
      then have "find (\<lambda>d. descriptor_key d = (otype, tag)) (listed m) = None"
        using container_find_None [OF None] by (auto simp: find_None_iff)
      then have "version_value layout cid (cr_protector cr) st m (otype, tag) = None" by (simp add: version_value_def)
      moreover have "container_read layout cid otype tag cr None access room st = Inl PICOKEYS_ERR_FILE_NOT_FOUND"
        by (rule load_starts [OF h, of None])
          (use None assms(2) in \<open>auto simp: container_read_def container_current_def split: if_splits\<close>)
      ultimately show ?thesis using v by simp
    next
      case (Some i)
      note f = container_find_Some [OF Some m(1)]
      let ?d = "objects m ! i"
      have d: "?d \<in> set (listed m)" using f(1,2) nth_mem [OF f(1)] by simp
      then have "find (\<lambda>d. descriptor_key d = (otype, tag)) (listed m) = Some ?d"
        using find_key [OF m(3)] f(2,3) by simp
      moreover obtain p' where p': "container_unseal layout cid m ?d (cr_protector cr) (unat (logical_size ?d)) st = Inr p'"
        using m(4) [OF d] by (auto simp: record_sound_def)
      ultimately have vv: "version_value layout cid (cr_protector cr) st m (otype, tag) = Some p'" by (simp add: version_value_def)
      have "container_read layout cid otype tag cr legacy access room st = Inr p'"
        if "\<forall>d. access d = PICOKEYS_OK" "length p' \<le> room"
      proof (rule load_starts [OF h, of legacy])
        fix state
        assume l: "container_load layout cid cr legacy st = (if container_layout_valid layout then Inr state else Inl PICOKEYS_ERR_NULL_PARAM)"
          "container_current state = Some \<lparr>c_manifest = m, c_slot = slot, c_valid = True\<rparr>"
          "starts_from layout cid cr state st (version_value layout cid (cr_protector cr) st m)"
        have c: "candidates state ! unat (current_slot state) = \<lparr>c_manifest = m, c_slot = slot, c_valid = True\<rparr>"
          using l(2) by (auto simp: container_current_def split: if_splits)
        have "read_attempt layout cid otype tag state access room st (current_slot state) = Data p'"
          using c Some that container_unseal_room [OF p' m(2)] l(3) by (simp add: read_attempt_def Let_def starts_from_def)
        then show ?thesis
          using l(1) assms(2) c Some by (simp add: container_read_def Let_def)
      qed
      with vv v show ?thesis by simp
    qed
  qed
  then show "container_value layout cid cr st (otype, tag) = Some p \<Longrightarrow> \<forall>d. access d = PICOKEYS_OK \<Longrightarrow> length p \<le> room \<Longrightarrow>
      container_read layout cid otype tag cr legacy access room st = Inr p"
    "container_value layout cid cr st (otype, tag) = None \<Longrightarrow>
      container_read layout cid otype tag cr None access room st = Inl PICOKEYS_ERR_FILE_NOT_FOUND" by blast+
qed

end

end
