(* ===== verification/Hsm_Keys.thy ===== *)
theory Hsm_Keys
  imports Container_Update Object_Policy
begin

text \<open>
  The SmartCard-HSM application's key containers: who may do what with a private key
  (\<^verbatim>\<open>src/hsm/object_authorization.c\<close>) and the layout of a key's container with the operations on
  it (\<^verbatim>\<open>src/hsm/key_container.c\<close>). A key container is the pair of manifest files \<open>0xD0kk\<close>, \<open>0xD1kk\<close>,
  record files from \<open>0xE000\<close> up, numbered by an allocator that all keys share, and the marker
  \<open>0xC7kk\<close> that makes the key visible.

  SHA-256 is a parameter, and so is the crypto provider (None when it cannot be initialised). The
  state of the application that the module reads (\<open>isUserAuthenticated\<close>, \<open>has_session_pin\<close>,
  \<open>has_session_sopin\<close>) is a record. The outcome of each \<open>calloc\<close> comes from the store's \<open>mem\<close>; an
  attempt to allocate an identifier takes two.
\<close>

section \<open>Authorization\<close>

record hsm_session =
  hsm_object_session_epoch :: u32
  hsm_object_secure_messaging :: bool
  isUserAuthenticated :: bool
  has_session_pin :: bool
  has_session_sopin :: bool

definition HSM_OBJECT_NAMESPACE :: u16 where "HSM_OBJECT_NAMESPACE = 1"

definition FACT_USER_VERIFICATION :: u32 where "FACT_USER_VERIFICATION = 0x02"
definition FACT_APP_PIN :: u32 where "FACT_APP_PIN = 0x04"
definition FACT_ADMIN :: u32 where "FACT_ADMIN = 0x08"
definition FACT_SECURE_MESSAGING :: u32 where "FACT_SECURE_MESSAGING = 0x10"
definition FACT_INTERNAL_FIRMWARE :: u32 where "FACT_INTERNAL_FIRMWARE = 0x20"
definition FACT_OWNING_APPLICATION :: u32 where "FACT_OWNING_APPLICATION = 0x40"
definition FACT_SESSION_BOUND :: u32 where "FACT_SESSION_BOUND = 0x400"

lemmas fact_defs = FACT_USER_VERIFICATION_def FACT_APP_PIN_def FACT_ADMIN_def FACT_SECURE_MESSAGING_def
  FACT_INTERNAL_FIRMWARE_def FACT_OWNING_APPLICATION_def FACT_SESSION_BOUND_def

definition OPERATION_READ :: u16 where "OPERATION_READ = 0x0001"
definition OPERATION_UPDATE :: u16 where "OPERATION_UPDATE = 0x0200"
definition OPERATION_DELETE :: u16 where "OPERATION_DELETE = 0x0400"

definition hsm_object_key_policy :: "byte list" where
  "hsm_object_key_policy =
     [1, 3,
      0x0f, 0x7c, 0x00, 0x00, 0x04, 0x46, 0x00, 0x00, 0x00, 0x00, 0x00, 0x01, 0x00, 0x00,
      0x0f, 0x7c, 0x00, 0x00, 0x04, 0x4a, 0x00, 0x00, 0x00, 0x00, 0x00, 0x01, 0x00, 0x00,
      0x0f, 0x7c, 0x00, 0x00, 0x04, 0x60, 0x00, 0x00, 0x00, 0x00, 0x00, 0x01, 0x00, 0x00]"

definition hsm_object_authorization_session_invalidate :: "hsm_session \<Rightarrow> hsm_session" where
  "hsm_object_authorization_session_invalidate s =
     (let epoch = hsm_object_session_epoch s + 1
      in s\<lparr>hsm_object_secure_messaging := False, hsm_object_session_epoch := (if epoch = 0 then 1 else epoch)\<rparr>)"

definition hsm_object_authorization_command_set_secure_messaging :: "bool \<Rightarrow> hsm_session \<Rightarrow> hsm_session" where
  "hsm_object_authorization_command_set_secure_messaging active s = s\<lparr>hsm_object_secure_messaging := active\<rparr>"

definition hsm_object_authorization_context_build :: "bool \<Rightarrow> hsm_session \<Rightarrow> file_object_authorization_context" where
  "hsm_object_authorization_context_build internal_firmware s =
     \<lparr>facts = FACT_OWNING_APPLICATION OR FACT_SESSION_BOUND OR
        (if internal_firmware then FACT_INTERNAL_FIRMWARE
         else (if isUserAuthenticated s then FACT_USER_VERIFICATION else 0) OR (if has_session_pin s then FACT_APP_PIN else 0) OR
              (if has_session_sopin s then FACT_ADMIN else 0) OR
              (if hsm_object_secure_messaging s then FACT_SECURE_MESSAGING else 0)),
      session_epoch = hsm_object_session_epoch s, facts_epoch = hsm_object_session_epoch s, caller_namespace = HSM_OBJECT_NAMESPACE\<rparr>"

definition hsm_object_authorization_key_operation :: "u16 \<Rightarrow> bool \<Rightarrow> hsm_session \<Rightarrow> bool" where
  "hsm_object_authorization_key_operation operation internal_firmware s =
     file_object_policy_authorize (Some hsm_object_key_policy) operation (Some (hsm_object_authorization_context_build internal_firmware s))"

section \<open>File identifiers\<close>

definition HSM_KEY_ALLOCATOR_MARKER_FID :: u16 where "HSM_KEY_ALLOCATOR_MARKER_FID = 0xd2ef"
definition HSM_KEY_ALLOCATOR_RECORD_0_FID :: u16 where "HSM_KEY_ALLOCATOR_RECORD_0_FID = 0xd2f0"
definition HSM_KEY_ALLOCATOR_RECORD_1_FID :: u16 where "HSM_KEY_ALLOCATOR_RECORD_1_FID = 0xd2f1"
definition HSM_KEY_ALLOCATOR_COMMIT_0_FID :: u16 where "HSM_KEY_ALLOCATOR_COMMIT_0_FID = 0xd2f2"
definition HSM_KEY_ALLOCATOR_COMMIT_1_FID :: u16 where "HSM_KEY_ALLOCATOR_COMMIT_1_FID = 0xd2f3"

lemmas allocator_fids = HSM_KEY_ALLOCATOR_MARKER_FID_def HSM_KEY_ALLOCATOR_RECORD_0_FID_def HSM_KEY_ALLOCATOR_RECORD_1_FID_def
  HSM_KEY_ALLOCATOR_COMMIT_0_FID_def HSM_KEY_ALLOCATOR_COMMIT_1_FID_def

definition hsm_key_container_marker_magic :: "byte list" where "hsm_key_container_marker_magic = [0x50, 0x4B, 0x48, 0x31]"
definition hsm_key_allocator_marker_magic :: "byte list" where "hsm_key_allocator_marker_magic = [0x50, 0x4B, 0x41, 0x31]"

definition hsm_key_internal_policy :: "byte list" where
  "hsm_key_internal_policy = [1, 1, 0x1f, 0xff, 0x00, 0x00, 0x04, 0x60, 0x00, 0x00, 0x00, 0x00, 0x00, 0x01, 0x00, 0x00]"

definition hsm_key_record_id_layout :: txn_layout where
  "hsm_key_record_id_layout = \<lparr>l_namespace = HSM_OBJECT_NAMESPACE, l_type = 0xfffe, l_object_id = 0,
     record_fid = [HSM_KEY_ALLOCATOR_RECORD_0_FID, HSM_KEY_ALLOCATOR_RECORD_1_FID],
     commit_fid = [HSM_KEY_ALLOCATOR_COMMIT_0_FID, HSM_KEY_ALLOCATOR_COMMIT_1_FID]\<rparr>"

text \<open>The file identifier made of a prefix byte and a key number.\<close>

definition prefixed :: "byte \<Rightarrow> byte \<Rightarrow> u16" where
  "prefixed prefix key_id = push_bit 8 (ucast prefix) OR ucast key_id"

definition HSM_OBJECT_PREFIX :: byte where "HSM_OBJECT_PREFIX = 0xC7"
definition PRKD_PREFIX :: byte where "PRKD_PREFIX = 0xC4"
definition EE_CERTIFICATE_PREFIX :: byte where "EE_CERTIFICATE_PREFIX = 0xCE"

definition hsm_key_manifest_fid :: "byte \<Rightarrow> byte \<Rightarrow> u16" where
  "hsm_key_manifest_fid key_id slot = prefixed (if slot = 0 then 0xd0 else 0xd1) key_id"

definition hsm_key_record_fid :: "u64 \<Rightarrow> u16" where
  "hsm_key_record_fid rid = 0xe000 OR ucast (rid AND 0x1fff)"

section \<open>Markers\<close>

definition hsm_key_file_magic :: "u16 \<Rightarrow> byte list \<Rightarrow> file_store \<Rightarrow> bool" where
  "hsm_key_file_magic fid magic st \<longleftrightarrow>
     (let file = fs_search st fid in
      file_has_data st file \<and> 4 \<le> file_get_size st file \<and> take 4 (file_get_data st file) = magic)"

definition hsm_key_container_is_marker :: "file_ref option \<Rightarrow> file_store \<Rightarrow> bool" where
  "hsm_key_container_is_marker file st \<longleftrightarrow>
     file_has_data st file \<and> file_get_size st file = 8 \<and>
     (let data = file_get_data st file in
      take 4 data = hsm_key_container_marker_magic \<and> data ! 4 = 1 \<and> data ! 5 = ucast (file_fid (ix st) (the file)) \<and>
      data ! 6 = 0 \<and> data ! 7 = 0)"

definition hsm_key_allocator_marker_valid :: "file_store \<Rightarrow> bool" where
  "hsm_key_allocator_marker_valid st \<longleftrightarrow>
     (let file = fs_search st HSM_KEY_ALLOCATOR_MARKER_FID in
      file_has_data st file \<and> file_get_size st file = 4 \<and> take 4 (file_get_data st file) = hsm_key_allocator_marker_magic)"

definition hsm_key_container_physical_fid :: "u16 \<Rightarrow> file_store \<Rightarrow> bool" where
  "hsm_key_container_physical_fid fid st \<longleftrightarrow>
     (let prefix = ucast (drop_bit 8 fid) :: byte in
      if prefix = 0xd0 \<or> prefix = 0xd1
      then hsm_key_container_is_marker (fs_search st (prefixed HSM_OBJECT_PREFIX (ucast fid))) st
           \<or> hsm_key_file_magic fid manifest_magic st
      else if fid = HSM_KEY_ALLOCATOR_MARKER_FID then hsm_key_file_magic fid hsm_key_allocator_marker_magic st
      else if fid = HSM_KEY_ALLOCATOR_RECORD_0_FID \<or> fid = HSM_KEY_ALLOCATOR_RECORD_1_FID
      then hsm_key_allocator_marker_valid st \<or> hsm_key_file_magic fid record_magic st
      else if fid = HSM_KEY_ALLOCATOR_COMMIT_0_FID \<or> fid = HSM_KEY_ALLOCATOR_COMMIT_1_FID
      then hsm_key_allocator_marker_valid st \<or> hsm_key_file_magic fid commit_magic st
      else 0xe000 \<le> fid \<and> hsm_key_file_magic fid record_magic_r st)"

definition HSM_KEY_OBJECT_PRIVATE :: u16 where "HSM_KEY_OBJECT_PRIVATE = 1"
definition HSM_KEY_OBJECT_PRKD :: u16 where "HSM_KEY_OBJECT_PRKD = 2"
definition HSM_KEY_OBJECT_CERTIFICATE :: u16 where "HSM_KEY_OBJECT_CERTIFICATE = 3"
definition HSM_KEY_OBJECT_METADATA :: u16 where "HSM_KEY_OBJECT_METADATA = 4"

definition hsm_key_container_fid_object :: "u16 \<Rightarrow> u16 option" where
  "hsm_key_container_fid_object fid =
     (if ucast (drop_bit 8 fid) = PRKD_PREFIX then Some HSM_KEY_OBJECT_PRKD
      else if ucast (drop_bit 8 fid) = EE_CERTIFICATE_PREFIX then Some HSM_KEY_OBJECT_CERTIFICATE
      else None)"

section \<open>The layout\<close>

text \<open>\<open>hsm_key_replace_file\<close> is, word for word, the container store's \<open>container_replace_file\<close>.\<close>

definition hsm_key_replace_file :: "u16 \<Rightarrow> byte list \<Rightarrow> file_store \<Rightarrow> pk_status \<times> file_store" where
  "hsm_key_replace_file fid data st =
     (let file = fs_search st fid;
          (r, st1) = (if file = None then (PICOKEYS_OK, st) else file_delete_no_commit file st)
      in if r \<noteq> PICOKEYS_OK then (PICOKEYS_EXEC_ERROR, st1)
         else case fs_new fid st1 of
                (None, st2) \<Rightarrow> (PICOKEYS_ERR_NO_MEMORY, st2)
              | (Some f, st2) \<Rightarrow> file_put_data (Some f) data st2)"

definition allocator_fid_taken :: "file_store \<Rightarrow> bool" where
  "allocator_fid_taken st \<longleftrightarrow>
     list_ex (\<lambda>fid. fs_search st fid \<noteq> None)
       [HSM_KEY_ALLOCATOR_MARKER_FID, HSM_KEY_ALLOCATOR_RECORD_0_FID, HSM_KEY_ALLOCATOR_RECORD_1_FID,
        HSM_KEY_ALLOCATOR_COMMIT_0_FID, HSM_KEY_ALLOCATOR_COMMIT_1_FID]"

definition hsm_key_allocator_claim :: "file_store \<Rightarrow> pk_status \<times> file_store" where
  "hsm_key_allocator_claim st =
     (if hsm_key_allocator_marker_valid st then (PICOKEYS_OK, st)
      else if allocator_fid_taken st then (PICOKEYS_WRONG_DATA, st)
      else commit_flash (hsm_key_replace_file HSM_KEY_ALLOCATOR_MARKER_FID hsm_key_allocator_marker_magic st))"

definition hsm_key_policy_hash :: "(byte list \<Rightarrow> byte list option) \<Rightarrow> u16 \<Rightarrow> pk_status + byte list" where
  "hsm_key_policy_hash sha256 pid =
     (if pid \<noteq> 0x0101 \<and> pid \<noteq> 0x01ff then Inl PICOKEYS_WRONG_DATA
      else case file_object_policy_hash sha256 (Some (if pid = 0x0101 then hsm_object_key_policy else hsm_key_internal_policy)) of
             (r, h) \<Rightarrow> if r = PICOKEYS_OK then Inr h else Inl r)"

definition hsm_key_layout_record_fid :: "u32 \<Rightarrow> file_object_descriptor \<Rightarrow> pk_status + u16" where
  "hsm_key_layout_record_fid cid object =
     (let fid = hsm_key_record_fid (record_id object) in if fid = 0xffff then Inl PICOKEYS_WRONG_DATA else Inr fid)"

definition hsm_key_container_can_create :: "byte \<Rightarrow> file_store \<Rightarrow> bool" where
  "hsm_key_container_can_create key_id st \<longleftrightarrow>
     fs_search st (hsm_key_manifest_fid key_id 0) = None \<and> fs_search st (hsm_key_manifest_fid key_id 1) = None \<and>
     (hsm_key_allocator_marker_valid st \<or> \<not> allocator_fid_taken st)"

text \<open>The loop that allocates identifiers until one names a file that does not exist.\<close>

fun record_id_attempts :: "nat \<Rightarrow> 'c authenticator \<Rightarrow> cstore \<Rightarrow> (pk_status + u64) \<times> cstore" where
  "record_id_attempts 0 auth st = (Inl PICOKEYS_ERR_NO_MEMORY, st)"
| "record_id_attempts (Suc attempts) auth st =
     (let (m1, st1) = next_mem st; (m2, st2) = next_mem st1 in
      case the (record_id_allocate (m1, m2) hsm_key_record_id_layout auth (txh st2) (fs st2)) of ((r, rid), hs, s) \<Rightarrow>
        let st3 = st2\<lparr>txh := hs, fs := s\<rparr>; fid = hsm_key_record_fid rid in
        if r \<noteq> PICOKEYS_OK then (Inl r, st3)
        else if fid \<noteq> 0xffff \<and> fs_search s fid = None then (Inr rid, st3)
        else record_id_attempts attempts auth st3)"

definition RECORD_ID_ATTEMPTS :: nat where "RECORD_ID_ATTEMPTS = 0x2000"

definition hsm_key_record_id_allocate :: "'c authenticator \<Rightarrow> cstore \<Rightarrow> (pk_status + u64) \<times> cstore" where
  "hsm_key_record_id_allocate auth st =
     (case on_fs hsm_key_allocator_claim st of (r, st1) \<Rightarrow>
        if r \<noteq> PICOKEYS_OK then (Inl r, st1) else record_id_attempts RECORD_ID_ATTEMPTS auth st1)"

definition hsm_key_layout_record_allocate ::
    "u32 \<Rightarrow> byte \<Rightarrow> container_write \<Rightarrow> 'c authenticator \<Rightarrow> cstore \<Rightarrow> (pk_status + u64 \<times> u16) \<times> cstore" where
  "hsm_key_layout_record_allocate cid target_slot write auth st =
     (case hsm_key_record_id_allocate auth st of
        (Inl r, st1) \<Rightarrow> (Inl r, st1)
      | (Inr rid, st1) \<Rightarrow> (Inr (rid, hsm_key_record_fid rid), st1))"

definition hsm_key_marker_write :: "byte \<Rightarrow> file_store \<Rightarrow> pk_status \<times> file_store" where
  "hsm_key_marker_write key_id st =
     commit_flash (hsm_key_replace_file (prefixed HSM_OBJECT_PREFIX key_id) (hsm_key_container_marker_magic @ [1, key_id, 0, 0]) st)"

definition hsm_key_layout_activate :: "u32 \<Rightarrow> cstore \<Rightarrow> pk_status \<times> cstore" where
  "hsm_key_layout_activate cid st =
     (if hsm_key_container_is_marker (fs_search (fs st) (prefixed HSM_OBJECT_PREFIX (ucast cid))) (fs st) then (PICOKEYS_OK, st)
      else on_fs (hsm_key_marker_write (ucast cid)) st)"

definition hsm_key_layout_deactivate :: "u32 \<Rightarrow> cstore \<Rightarrow> pk_status \<times> cstore" where
  "hsm_key_layout_deactivate cid st =
     (let marker = fs_search (fs st) (prefixed HSM_OBJECT_PREFIX (ucast cid)) in
      if marker = None then (PICOKEYS_OK, st) else on_fs (file_delete_no_commit marker) st)"

text \<open>The records of the overwritten version that neither the next nor the current one lists.\<close>

fun retire_records ::
    "file_object_manifest \<Rightarrow> file_object_manifest option \<Rightarrow> file_object_descriptor list \<Rightarrow> file_store \<Rightarrow> file_store" where
  "retire_records nxt current [] st = st"
| "retire_records nxt current (object # objs) st =
     (let rid = record_id object; rec = fs_search st (hsm_key_record_fid rid) in
      retire_records nxt current objs
        (if \<not> container_references nxt rid \<and> (current = None \<or> \<not> container_references (the current) rid) \<and> rec \<noteq> None
         then snd (file_delete_no_commit rec st) else st))"

definition hsm_key_layout_retire ::
    "u32 \<Rightarrow> 'c container_state \<Rightarrow> file_object_manifest \<Rightarrow> byte \<Rightarrow> byte \<Rightarrow> cstore \<Rightarrow> pk_status \<times> cstore" where
  "hsm_key_layout_retire cid state nxt current target_slot st =
     (let overwritten = candidates state ! unat target_slot in
      if \<not> c_valid overwritten then (PICOKEYS_OK, st)
      else (PICOKEYS_OK, st\<lparr>fs := retire_records nxt
              (if unat current < SLOT_COUNT then Some (c_manifest (candidates state ! unat current)) else None)
              (listed (c_manifest overwritten)) (fs st)\<rparr>))"

definition hsm_key_container_layout :: "(byte list \<Rightarrow> byte list option) \<Rightarrow> 'c container_layout" where
  "hsm_key_container_layout sha256 =
     \<lparr>cl_namespace = HSM_OBJECT_NAMESPACE, cl_kind = 1,
      manifest_fid = (\<lambda>cid slot. hsm_key_manifest_fid (ucast cid) slot),
      record_fid_of = hsm_key_layout_record_fid, record_allocate = hsm_key_layout_record_allocate,
      policy_hash_of = hsm_key_policy_hash sha256, write_valid = (\<lambda>_. True), descriptor_valid_in = (\<lambda>_ _. True),
      activate = hsm_key_layout_activate, deactivate = hsm_key_layout_deactivate, retire = hsm_key_layout_retire,
      rollback_new_records = True\<rparr>"

section \<open>Operations on a key\<close>

record hsm_key_container_write =
  k_type :: u16
  k_data :: "byte list option"
  k_policy_id :: u16
  k_key_domain :: byte
  k_protection :: byte
  k_flags :: u16

definition container_write_of :: "hsm_key_container_write \<Rightarrow> container_write" where
  "container_write_of w = \<lparr>w_type = k_type w, w_tag = 0, w_data = k_data w, w_policy_id = k_policy_id w,
     w_key_domain = k_key_domain w, w_protection = k_protection w, w_flags = k_flags w, w_group = 0\<rparr>"

definition hsm_key_container_can_resume :: "(byte list \<Rightarrow> byte list option) \<Rightarrow> 'c container_crypto option \<Rightarrow> byte \<Rightarrow> cstore \<Rightarrow> bool" where
  "hsm_key_container_can_resume sha256 crypto_opt key_id st =
     (case crypto_opt of None \<Rightarrow> False
      | Some cr \<Rightarrow> (case container_load (hsm_key_container_layout sha256) (ucast key_id) cr None (fs st) of Inl _ \<Rightarrow> False | Inr _ \<Rightarrow> True))"

definition hsm_key_container_update ::
    "(byte list \<Rightarrow> byte list option) \<Rightarrow> 'c container_crypto option \<Rightarrow> hsm_session \<Rightarrow> byte \<Rightarrow> hsm_key_container_write list \<Rightarrow>
     cstore \<Rightarrow> pk_status \<times> cstore" where
  "hsm_key_container_update sha256 crypto_opt session key_id writes st =
     (if writes = [] \<or> MAX_OBJECTS < length writes then (PICOKEYS_ERR_NULL_PARAM, st)
      else if \<not> hsm_object_authorization_key_operation OPERATION_UPDATE False session then (PICOKEYS_NO_LOGIN, st)
      else case crypto_opt of None \<Rightarrow> (PICOKEYS_EXEC_ERROR, st)
        | Some cr \<Rightarrow>
          if \<not> file_has_data (fs st) (fs_search (fs st) (hsm_key_manifest_fid key_id 0))
             \<and> \<not> file_has_data (fs st) (fs_search (fs st) (hsm_key_manifest_fid key_id 1))
             \<and> \<not> hsm_key_container_can_create key_id (fs st)
          then (PICOKEYS_WRONG_DATA, st)
          else container_update (hsm_key_container_layout sha256) (ucast key_id) (map container_write_of writes) cr None st)"

definition hsm_key_container_store_object ::
    "(byte list \<Rightarrow> byte list option) \<Rightarrow> 'c container_crypto option \<Rightarrow> hsm_session \<Rightarrow> byte \<Rightarrow> u16 \<Rightarrow> byte list option \<Rightarrow>
     cstore \<Rightarrow> pk_status \<times> cstore" where
  "hsm_key_container_store_object sha256 crypto_opt session key_id otype data st =
     (if \<not> hsm_key_container_is_marker (fs_search (fs st) (prefixed HSM_OBJECT_PREFIX key_id)) (fs st)
      then (PICOKEYS_ERR_FILE_NOT_FOUND, st)
      else if otype \<noteq> HSM_KEY_OBJECT_PRKD \<and> otype \<noteq> HSM_KEY_OBJECT_CERTIFICATE \<and> otype \<noteq> HSM_KEY_OBJECT_METADATA
      then (PICOKEYS_WRONG_DATA, st)
      else hsm_key_container_update sha256 crypto_opt session key_id
             [\<lparr>k_type = otype, k_data = data, k_policy_id = 0x01ff, k_key_domain = 0, k_protection = 1,
               k_flags = (if otype = HSM_KEY_OBJECT_PRKD \<or> otype = HSM_KEY_OBJECT_CERTIFICATE then 2 OR 8 else 2)\<rparr>] st)"

definition hsm_key_object_access :: "u16 \<Rightarrow> bool \<Rightarrow> hsm_session \<Rightarrow> file_object_descriptor \<Rightarrow> pk_status" where
  "hsm_key_object_access operation internal_firmware session object =
     (if internal_firmware then PICOKEYS_OK
      else if object_type object = HSM_KEY_OBJECT_PRIVATE
      then if hsm_object_authorization_key_operation operation False session then PICOKEYS_OK else PICOKEYS_NO_LOGIN
      else if operation = OPERATION_READ \<and> protection object = 1 \<and> d_flags object AND 8 \<noteq> 0 then PICOKEYS_OK
      else PICOKEYS_NO_LOGIN)"

definition hsm_key_container_object_size ::
    "(byte list \<Rightarrow> byte list option) \<Rightarrow> 'c container_crypto option \<Rightarrow> hsm_session \<Rightarrow> byte \<Rightarrow> u16 \<Rightarrow> bool \<Rightarrow> cstore \<Rightarrow> pk_status + u32" where
  "hsm_key_container_object_size sha256 crypto_opt session key_id otype internal_firmware st =
     (case crypto_opt of None \<Rightarrow> Inl PICOKEYS_EXEC_ERROR
      | Some cr \<Rightarrow> container_object_size (hsm_key_container_layout sha256) (ucast key_id) otype 0 cr None
          (hsm_key_object_access OPERATION_READ internal_firmware session) (fs st))"

definition hsm_key_container_read ::
    "(byte list \<Rightarrow> byte list option) \<Rightarrow> 'c container_crypto option \<Rightarrow> hsm_session \<Rightarrow> byte \<Rightarrow> u16 \<Rightarrow> u16 \<Rightarrow> bool \<Rightarrow> nat \<Rightarrow>
     cstore \<Rightarrow> pk_status + byte list" where
  "hsm_key_container_read sha256 crypto_opt session key_id otype operation internal_firmware room st =
     (case crypto_opt of None \<Rightarrow> Inl PICOKEYS_EXEC_ERROR
      | Some cr \<Rightarrow> container_read (hsm_key_container_layout sha256) (ucast key_id) otype 0 cr None
          (hsm_key_object_access operation internal_firmware session) room (fs st))"

definition hsm_key_container_remove_object ::
    "(byte list \<Rightarrow> byte list option) \<Rightarrow> 'c container_crypto option \<Rightarrow> hsm_session \<Rightarrow> byte \<Rightarrow> u16 \<Rightarrow> cstore \<Rightarrow> pk_status \<times> cstore" where
  "hsm_key_container_remove_object sha256 crypto_opt session key_id otype st =
     (if otype \<noteq> HSM_KEY_OBJECT_PRKD \<and> otype \<noteq> HSM_KEY_OBJECT_CERTIFICATE then (PICOKEYS_WRONG_DATA, st)
      else if \<not> hsm_object_authorization_key_operation OPERATION_DELETE False session then (PICOKEYS_NO_LOGIN, st)
      else case crypto_opt of None \<Rightarrow> (PICOKEYS_EXEC_ERROR, st)
        | Some cr \<Rightarrow> container_remove (hsm_key_container_layout sha256) (ucast key_id) otype 0 cr None st)"

definition hsm_key_container_delete ::
    "(byte list \<Rightarrow> byte list option) \<Rightarrow> 'c container_crypto option \<Rightarrow> hsm_session \<Rightarrow> byte \<Rightarrow> cstore \<Rightarrow> pk_status \<times> cstore" where
  "hsm_key_container_delete sha256 crypto_opt session key_id st =
     (if \<not> hsm_object_authorization_key_operation OPERATION_DELETE False session then (PICOKEYS_NO_LOGIN, st)
      else case crypto_opt of None \<Rightarrow> (PICOKEYS_EXEC_ERROR, st)
        | Some cr \<Rightarrow> container_delete (hsm_key_container_layout sha256) (ucast key_id) cr None st)"

text \<open>The objects that also appear as files of their own.\<close>

fun detach_objects ::
    "(byte list \<Rightarrow> byte list option) \<Rightarrow> 'c container_crypto option \<Rightarrow> hsm_session \<Rightarrow> byte \<Rightarrow> (u16 \<times> byte) list \<Rightarrow> cstore \<Rightarrow> pk_status \<times> cstore" where
  "detach_objects sha256 crypto_opt session key_id [] st = (PICOKEYS_OK, st)"
| "detach_objects sha256 crypto_opt session key_id ((otype, prefix) # sidecars) st =
     (case hsm_key_container_object_size sha256 crypto_opt session key_id otype True st of
        Inl r \<Rightarrow> if r = PICOKEYS_ERR_FILE_NOT_FOUND then detach_objects sha256 crypto_opt session key_id sidecars st else (r, st)
      | Inr object_size \<Rightarrow>
          let (ok, st1) = (if 0 < object_size then next_mem st else (True, st)) in
          if \<not> ok then (PICOKEYS_ERR_MEMORY_FATAL, st1)
          else case hsm_key_container_read sha256 crypto_opt session key_id otype OPERATION_READ True (unat object_size) st1 of
            Inl r \<Rightarrow> (r, st1)
          | Inr data \<Rightarrow>
              if length data \<noteq> unat object_size then (PICOKEYS_WRONG_LENGTH, st1)
              else case on_fs (hsm_key_replace_file (prefixed prefix key_id) data) st1 of (r, st2) \<Rightarrow>
                if r \<noteq> PICOKEYS_OK then (r, st2) else detach_objects sha256 crypto_opt session key_id sidecars st2)"

definition hsm_key_container_detach_sidecars ::
    "(byte list \<Rightarrow> byte list option) \<Rightarrow> 'c container_crypto option \<Rightarrow> hsm_session \<Rightarrow> byte \<Rightarrow> cstore \<Rightarrow> pk_status \<times> cstore" where
  "hsm_key_container_detach_sidecars sha256 crypto_opt session key_id st =
     detach_objects sha256 crypto_opt session key_id
       [(HSM_KEY_OBJECT_PRKD, PRKD_PREFIX), (HSM_KEY_OBJECT_CERTIFICATE, EE_CERTIFICATE_PREFIX)] st"

section \<open>Which files are whose\<close>

definition allocator_files :: "u16 set" where
  "allocator_files = set (record_fid hsm_key_record_id_layout @ commit_fid hsm_key_record_id_layout)"

text \<open>The files of the module apart from manifests and records.\<close>

definition hsm_own :: "byte \<Rightarrow> u16 set" where
  "hsm_own key_id = insert HSM_KEY_ALLOCATOR_MARKER_FID (insert (prefixed HSM_OBJECT_PREFIX key_id) allocator_files)"

lemma allocator_files_eq: "allocator_files = {0xd2f0, 0xd2f1, 0xd2f2, 0xd2f3}"
  by (auto simp: allocator_files_def hsm_key_record_id_layout_def allocator_fids)

lemma unat_prefixed: "unat (prefixed p k) = 256 * unat p + unat k"
  using unat_make_uint16_be [of p k] by (simp add: prefixed_def make_uint16_be_def)

lemma record_fid_range: "0xe000 \<le> hsm_key_record_fid rid"
proof -
  have "(57344 :: int) \<le> 57344 OR uint (ucast (rid AND 0x1fff) :: u16)" by (rule or_greater_eq) simp
  then show ?thesis by (simp add: hsm_key_record_fid_def word_le_def unsigned_or_eq)
qed

lemma prefixed_small: "p < 0xe0 \<Longrightarrow> \<not> 0xe000 \<le> prefixed p k"
proof -
  assume "p < 0xe0"
  then have "unat p < 224" by (simp add: word_less_nat_alt)
  moreover have "unat k < 256" using unsigned_less [of k] by simp
  ultimately have "\<not> 57344 \<le> 256 * unat p + unat k" by linarith
  then show ?thesis by (simp add: word_le_nat_alt unat_prefixed)
qed

lemma prefixed_d2:
  assumes "p \<noteq> 0xd2" "unat x div 256 = 0xd2"
  shows "prefixed p k \<noteq> x"
proof
  assume "prefixed p k = x"
  then have "unat x = 256 * unat p + unat k" using unat_prefixed [of p k] by simp
  moreover have "unat k < 256" using unsigned_less [of k] by simp
  ultimately have "unat p = 0xd2" using assms(2) by simp
  then have "p = 0xd2" by (simp add: word_unat_eq_iff)
  with assms(1) show False by simp
qed

lemma prefixed_inj: "prefixed p k = prefixed q l \<Longrightarrow> p = q \<and> k = l"
proof -
  assume "prefixed p k = prefixed q l"
  then have "256 * unat p + unat k = 256 * unat q + unat l" by (metis unat_prefixed)
  moreover have "unat k < 256" "unat l < 256" using unsigned_less [of k] unsigned_less [of l] by simp_all
  moreover from this have "(256 * unat p + unat k) div 256 = unat p" "(256 * unat q + unat l) div 256 = unat q" by simp_all
  ultimately have "unat p = unat q" "256 * unat p + unat k = 256 * unat q + unat l" by simp_all
  then show ?thesis by (simp add: word_unat_eq_iff)
qed

lemma own_apart:
  "hsm_key_manifest_fid key slot \<notin> hsm_own key" "0xe000 \<le> x \<Longrightarrow> x \<notin> hsm_own key" "0xe000 \<le> x \<Longrightarrow> x \<noteq> hsm_key_manifest_fid key slot"
  "hsm_key_manifest_fid key 0 \<noteq> hsm_key_manifest_fid key 1"
proof -
  show "hsm_key_manifest_fid key slot \<notin> hsm_own key"
    using prefixed_d2 [of "0xd0" _ key] prefixed_d2 [of "0xd1" _ key] prefixed_inj [of "0xd0" key HSM_OBJECT_PREFIX key]
      prefixed_inj [of "0xd1" key HSM_OBJECT_PREFIX key]
    by (auto simp: hsm_key_manifest_fid_def hsm_own_def allocator_files_eq allocator_fids HSM_OBJECT_PREFIX_def)
  show "0xe000 \<le> x \<Longrightarrow> x \<notin> hsm_own key"
    using prefixed_small [of HSM_OBJECT_PREFIX key]
    by (auto simp: hsm_own_def allocator_files_eq allocator_fids HSM_OBJECT_PREFIX_def word_le_nat_alt)
  show "0xe000 \<le> x \<Longrightarrow> x \<noteq> hsm_key_manifest_fid key slot"
    using prefixed_small [of "0xd0" key] prefixed_small [of "0xd1" key] by (auto simp: hsm_key_manifest_fid_def)
  show "hsm_key_manifest_fid key 0 \<noteq> hsm_key_manifest_fid key 1"
    using prefixed_inj [of "0xd0" key "0xd1" key] by (auto simp: hsm_key_manifest_fid_def)
qed

text \<open>The application lists none of these files in its table, except the metadata and the device settings file, which lie in
  the range of the records.\<close>

definition hsm_plain :: "byte \<Rightarrow> file_store \<Rightarrow> bool" where
  "hsm_plain key_id st \<longleftrightarrow>
     (\<forall>x \<in> hsm_own key_id. plain st x) \<and> plain st (hsm_key_manifest_fid key_id 0) \<and> plain st (hsm_key_manifest_fid key_id 1) \<and>
     \<not> meta_free st \<and> (\<forall>x. 0xe000 \<le> x \<longrightarrow> x \<notin> {0xffff, EF_META, EF_PHY} \<longrightarrow> plain st x)"

definition hsm_inv :: "'c container_crypto \<Rightarrow> byte \<Rightarrow> cstore \<Rightarrow> bool" where
  "hsm_inv cr key_id st \<longleftrightarrow>
     store_inv (fs st) \<and> mac_ok (cr_auth cr) \<and> protector_ok (cr_protector cr) \<and> seal_reports (cr_protector cr) \<and>
     torn_refused (cr_auth cr) (fs st) \<and> torn_ok (fs st) \<and> hsm_plain key_id (fs st) \<and>
     txn_handles_inv (txh st) \<and> txn_wf (fs st) hsm_key_record_id_layout (cr_auth cr)"

lemma hsm_inv_step:
  assumes "hsm_inv cr key st" "only_in A (fs st) (fs st')" "txn_wf (fs st') hsm_key_record_id_layout (cr_auth cr)" "txn_handles_inv (txh st')"
  shows "hsm_inv cr key st'"
proof -
  have f: "set (flash (fs st')) \<subseteq> set (flash (fs st))" using assms(2) by (simp add: only_in_def)
  then have "torn_refused (cr_auth cr) (fs st')" "torn_ok (fs st')"
    using assms(1) unfolding hsm_inv_def torn_refused_def torn_ok_def by blast+
  moreover have "hsm_plain key (fs st')" "store_inv (fs st')"
    using assms(1,2) by (simp_all add: hsm_inv_def hsm_plain_def only_in_def)
  ultimately show ?thesis using assms(1,3,4) by (simp add: hsm_inv_def)
qed

lemma hsm_layout_ok: "hsm_inv cr key st \<Longrightarrow> layout_ok (fs st) hsm_key_record_id_layout"
proof -
  assume "hsm_inv cr key st"
  then have "\<forall>x \<in> allocator_files. plain (fs st) x" by (simp add: hsm_inv_def hsm_plain_def hsm_own_def)
  then show ?thesis
    by (simp add: layout_ok_def allocator_files_def) (simp add: hsm_key_record_id_layout_def allocator_fids)
qed

lemma hsm_inv_foreign:
  assumes "hsm_inv cr key st" "only_in A (fs st) (fs st')" "A \<inter> allocator_files = {}" "txh st' = txh st"
  shows "hsm_inv cr key st'"
proof (rule hsm_inv_step [OF assms(1,2)])
  have "\<forall>x \<in> allocator_files. fdata (fs st') x = fdata (fs st) x"
    using only_inD [OF assms(2)] hsm_layout_ok [OF assms(1)] assms(3) by (auto simp: layout_ok_def allocator_files_def)
  then have "txn_wf (fs st') hsm_key_record_id_layout (cr_auth cr) = txn_wf (fs st) hsm_key_record_id_layout (cr_auth cr)"
    by (intro txn_wf_files) (auto simp: allocator_files_def hsm_key_record_id_layout_def)
  then show "txn_wf (fs st') hsm_key_record_id_layout (cr_auth cr)" using assms(1) by (simp add: hsm_inv_def)
  show "txn_handles_inv (txh st')" using assms(1,4) by (simp add: hsm_inv_def)
qed

lemma meta_static: "\<not> meta_free st \<Longrightarrow> fs_search st EF_META \<noteq> None"
  using fid_ok_EF_META by (auto simp: meta_free_def dynamic_only_def fs_search_def file_search_def split: option.splits)

text \<open>A file of the module is rewritten and flash waited for.\<close>

lemma replace_is_container: "hsm_key_replace_file = container_replace_file"
  by (simp add: fun_eq_iff hsm_key_replace_file_def container_replace_file_def)

lemma rewrite_law:
  assumes "store_inv st" "plain st fid" "commit_flash (hsm_key_replace_file fid data st) = (r, st')"
  shows "only_in {fid} st st'"
proof -
  obtain r1 st1 where r: "container_replace_file fid data st = (r1, st1)" by fastforce
  note rl = container_replace_law(1) [OF assms(1,2) r]
  have "store_inv st1" using rl by (simp add: only_in_def)
  then have "only_in {fid} st1 st'" using assms(3) r commit_flash_law [of r1 st1 r st'] by (auto simp: replace_is_container)
  with rl show ?thesis by (rule only_in_trans)
qed

section \<open>The layout keeps its promises\<close>

lemma attempts_law:
  assumes "record_id_attempts n (cr_auth cr) st = (r, st')" "hsm_inv cr key st"
  shows "hsm_inv cr key st' \<and> only_in allocator_files (fs st) (fs st') \<and> r \<noteq> Inl PICOKEYS_OK \<and>
    (\<forall>rid. r = Inr rid \<longrightarrow> hsm_key_record_fid rid \<noteq> 0xffff \<and> fs_search (fs st') (hsm_key_record_fid rid) = None)"
  using assms
proof (induction n arbitrary: st)
  case 0
  then have "store_inv (fs st)" by (simp add: hsm_inv_def)
  with 0 show ?case by (auto simp: only_in_refl)
next
  case (Suc n)
  obtain m1 st1 where m1: "next_mem st = (m1, st1)" by fastforce
  obtain m2 st2 where m2: "next_mem st1 = (m2, st2)" by fastforce
  have s2: "fs st2 = fs st" "txh st2 = txh st"
    using m1 m2 by (auto simp: next_mem_def split: list.splits)
  have i: "store_inv (fs st)" "layout_ok (fs st) hsm_key_record_id_layout" "torn_ok (fs st)" "mac_ok (cr_auth cr)"
      "txn_wf (fs st) hsm_key_record_id_layout (cr_auth cr)" "txn_handles_inv (txh st)"
    using Suc.prems(2) hsm_layout_ok [OF Suc.prems(2)] by (simp_all add: hsm_inv_def)
  obtain q rid hs s where a: "record_id_allocate (m1, m2) hsm_key_record_id_layout (cr_auth cr) (txh st) (fs st) = Some ((q, rid), hs, s)"
      "txn_wf s hsm_key_record_id_layout (cr_auth cr)" "txn_handles_inv hs" "only_in allocator_files (fs st) s"
    by (rule record_id_allocate_law [OF i, of "(m1, m2)"]) (auto simp: allocator_files_def)
  let ?st3 = "st2\<lparr>txh := hs, fs := s\<rparr>" and ?fid = "hsm_key_record_fid rid"
  have inv3: "hsm_inv cr key ?st3"
    by (rule hsm_inv_step [OF Suc.prems(2), of allocator_files]) (use a in simp_all)
  have step: "record_id_attempts (Suc n) (cr_auth cr) st =
     (if q \<noteq> PICOKEYS_OK then (Inl q, ?st3)
      else if ?fid \<noteq> 0xffff \<and> fs_search s ?fid = None then (Inr rid, ?st3) else record_id_attempts n (cr_auth cr) ?st3)"
    by (simp add: m1 m2 s2 a(1) Let_def)
  show ?case
  proof (cases "q = PICOKEYS_OK \<and> \<not> (?fid \<noteq> 0xffff \<and> fs_search s ?fid = None)")
    case True
    with Suc.prems(1) step have "record_id_attempts n (cr_auth cr) ?st3 = (r, st')" by auto
    from Suc.IH [OF this inv3] a(4) show ?thesis using only_in_trans [OF a(4)] by auto
  next
    case False
    with Suc.prems(1) step have "st' = ?st3" "r = (if q \<noteq> PICOKEYS_OK then Inl q else Inr rid)" "q = PICOKEYS_OK \<Longrightarrow> ?fid \<noteq> 0xffff \<and> fs_search s ?fid = None"
      by (auto split: if_splits)
    with inv3 a(4) show ?thesis by auto
  qed
qed

lemma hsm_own_plain: "hsm_inv cr key st \<Longrightarrow> x \<in> hsm_own key \<Longrightarrow> store_inv (fs st) \<and> plain (fs st) x"
  by (simp add: hsm_inv_def hsm_plain_def)

lemma marker_own: "HSM_KEY_ALLOCATOR_MARKER_FID \<in> hsm_own key" "prefixed HSM_OBJECT_PREFIX key \<in> hsm_own key"
    "{HSM_KEY_ALLOCATOR_MARKER_FID} \<inter> allocator_files = {}" "{prefixed HSM_OBJECT_PREFIX key} \<inter> allocator_files = {}"
  using prefixed_d2 [of HSM_OBJECT_PREFIX _ key]
  by (auto simp: hsm_own_def allocator_files_eq allocator_fids HSM_OBJECT_PREFIX_def)

lemma rewrite_own:
  assumes "hsm_inv cr key st" "x \<in> hsm_own key" "{x} \<inter> allocator_files = {}"
    and "commit_flash (hsm_key_replace_file x data (fs st)) = (r, s)"
  shows "hsm_inv cr key (st\<lparr>fs := s\<rparr>)" "only_in (hsm_own key) (fs st) s"
proof -
  have o: "only_in {x} (fs st) s"
    using rewrite_law [OF _ _ assms(4)] hsm_own_plain [OF assms(1,2)] by simp
  with assms(2) show "only_in (hsm_own key) (fs st) s" by (auto intro: only_in_mono)
  show "hsm_inv cr key (st\<lparr>fs := s\<rparr>)"
    by (rule hsm_inv_foreign [OF assms(1) _ assms(3)]) (use o in simp_all)
qed

lemma claim_law:
  assumes "hsm_inv cr key st" "hsm_key_allocator_claim (fs st) = (r, s)"
  shows "hsm_inv cr key (st\<lparr>fs := s\<rparr>)" "only_in (hsm_own key) (fs st) s"
proof -
  have "store_inv (fs st)" using assms(1) by (simp add: hsm_inv_def)
  then have same: "hsm_inv cr key (st\<lparr>fs := s\<rparr>) \<and> only_in (hsm_own key) (fs st) s" if "s = fs st"
    using that assms(1) by (simp add: only_in_refl)
  have "hsm_inv cr key (st\<lparr>fs := s\<rparr>) \<and> only_in (hsm_own key) (fs st) s"
    using assms(2) same rewrite_own [OF assms(1) marker_own(1,3)]
    by (auto simp: hsm_key_allocator_claim_def split: if_splits)
  then show "hsm_inv cr key (st\<lparr>fs := s\<rparr>)" "only_in (hsm_own key) (fs st) s" by simp_all
qed

lemma record_id_law:
  assumes "hsm_key_record_id_allocate (cr_auth cr) st = (r, st')" "hsm_inv cr key st"
  shows "hsm_inv cr key st'" "only_in (hsm_own key) (fs st) (fs st')" "r \<noteq> Inl PICOKEYS_OK"
    "r = Inr rid \<Longrightarrow> hsm_key_record_fid rid \<noteq> 0xffff \<and> fs_search (fs st') (hsm_key_record_fid rid) = None"
proof -
  obtain q s where c: "hsm_key_allocator_claim (fs st) = (q, s)" by fastforce
  note cl = claim_law [OF assms(2) c]
  have "hsm_inv cr key st' \<and> only_in (hsm_own key) (fs st) (fs st') \<and> r \<noteq> Inl PICOKEYS_OK \<and>
    (\<forall>rid. r = Inr rid \<longrightarrow> hsm_key_record_fid rid \<noteq> 0xffff \<and> fs_search (fs st') (hsm_key_record_fid rid) = None)"
  proof (cases "q = PICOKEYS_OK")
    case False
    with assms(1) c cl show ?thesis by (auto simp: hsm_key_record_id_allocate_def on_fs_def)
  next
    case True
    then have "record_id_attempts RECORD_ID_ATTEMPTS (cr_auth cr) (st\<lparr>fs := s\<rparr>) = (r, st')"
      using assms(1) c by (simp add: hsm_key_record_id_allocate_def on_fs_def)
    from attempts_law [OF this cl(1)] cl(2) show ?thesis
      using only_in_trans [OF cl(2) only_in_mono, of allocator_files "fs st'"] by (auto simp: hsm_own_def)
  qed
  then show "hsm_inv cr key st'" "only_in (hsm_own key) (fs st) (fs st')" "r \<noteq> Inl PICOKEYS_OK"
    "r = Inr rid \<Longrightarrow> hsm_key_record_fid rid \<noteq> 0xffff \<and> fs_search (fs st') (hsm_key_record_fid rid) = None" by blast+
qed

lemma fresh_record_plain:
  assumes "hsm_inv cr key st" "hsm_key_record_fid rid \<noteq> 0xffff" "fs_search (fs st) (hsm_key_record_fid rid) = None"
  shows "plain (fs st) (hsm_key_record_fid rid)"
proof -
  have "hsm_key_record_fid rid \<noteq> EF_META"
    using meta_static [of "fs st"] assms(1,3) by (auto simp: hsm_inv_def hsm_plain_def)
  moreover have "hsm_key_record_fid rid \<noteq> EF_PHY"
    using assms(3) by (auto simp: fs_search_def file_search_def file_search_by_fid_def)
  ultimately show ?thesis using assms(1,2) record_fid_range [of rid] by (simp add: hsm_inv_def hsm_plain_def)
qed

lemma retire_records_law:
  assumes "store_inv st" "\<forall>d \<in> set ds. plain st (hsm_key_record_fid (record_id d))"
  shows "only_in {x. \<exists>d \<in> set ds. x = hsm_key_record_fid (record_id d) \<and> \<not> container_references nxt (record_id d)}
    st (retire_records nxt cur ds st)"
  using assms
proof (induction ds arbitrary: st)
  case Nil
  then show ?case by (simp add: only_in_refl)
next
  case (Cons d ds)
  let ?fid = "hsm_key_record_fid (record_id d)"
  let ?go = "\<not> container_references nxt (record_id d) \<and> (cur = None \<or> \<not> container_references (the cur) (record_id d)) \<and> fs_search st ?fid \<noteq> None"
  let ?st1 = "if ?go then snd (file_delete_no_commit (fs_search st ?fid) st) else st"
  let ?A = "\<lambda>ds. {x. \<exists>d \<in> set ds. x = hsm_key_record_fid (record_id d) \<and> \<not> container_references nxt (record_id d)}"
  have "only_in (?A (d # ds)) st ?st1"
  proof (cases ?go)
    case True
    with delete_plain_law [of st ?fid] Cons.prems have "only_in {?fid} st ?st1" by simp
    then show ?thesis by (rule only_in_mono) (use True in auto)
  next
    case False
    then have same: "?st1 = st" by (rule if_not_P)
    show ?thesis unfolding same by (rule only_in_refl [OF Cons.prems(1)])
  qed
  moreover have "only_in (?A ds) ?st1 (retire_records nxt cur ds ?st1)"
    using calculation Cons.prems(2) by (intro Cons.IH) (simp_all add: only_in_def)
  then have "only_in (?A (d # ds)) ?st1 (retire_records nxt cur ds ?st1)" by (rule only_in_mono) auto
  ultimately show ?case by (simp only: retire_records.simps Let_def) (rule only_in_trans)
qed

lemma retire_law:
  assumes "hsm_inv cr key st" "hsm_key_layout_retire cid state nxt cur target st = (r, st')"
    and "c_valid (candidates state ! unat target) \<Longrightarrow> \<forall>d \<in> set (listed (c_manifest (candidates state ! unat target))).
          \<exists>fid. hsm_key_layout_record_fid cid d = Inr fid \<and> plain (fs st) fid"
  shows "hsm_inv cr key st' \<and> only_in {x. c_valid (candidates state ! unat target) \<and>
     (\<exists>d \<in> set (listed (c_manifest (candidates state ! unat target))).
        hsm_key_layout_record_fid cid d = Inr x \<and> \<not> container_references nxt (record_id d))} (fs st) (fs st')"
proof (cases "c_valid (candidates state ! unat target)")
  case False
  with assms(1,2) show ?thesis by (auto simp: hsm_key_layout_retire_def Let_def only_in_refl hsm_inv_def)
next
  case True
  let ?ds = "listed (c_manifest (candidates state ! unat target))"
  let ?A = "{x. \<exists>d \<in> set ?ds. x = hsm_key_record_fid (record_id d) \<and> \<not> container_references nxt (record_id d)}"
  obtain cur' where st': "st' = st\<lparr>fs := retire_records nxt cur' ?ds (fs st)\<rparr>"
    using assms(2) True by (auto simp: hsm_key_layout_retire_def Let_def)
  have f: "hsm_key_layout_record_fid cid d = Inr (hsm_key_record_fid (record_id d))" "plain (fs st) (hsm_key_record_fid (record_id d))"
    if "d \<in> set ?ds" for d
    using assms(3) [OF True] that by (auto simp: hsm_key_layout_record_fid_def Let_def split: if_splits)
  have o: "only_in ?A (fs st) (fs st')"
    using retire_records_law [of "fs st" ?ds nxt cur'] assms(1) f(2) by (simp add: st' hsm_inv_def)
  have "?A \<inter> allocator_files = {}"
    using record_fid_range own_apart(2) by (auto simp: hsm_own_def)
  then have "hsm_inv cr key st'" by (rule hsm_inv_foreign [OF assms(1) o]) (simp add: st')
  moreover have "?A \<subseteq> {x. c_valid (candidates state ! unat target) \<and>
     (\<exists>d \<in> set ?ds. hsm_key_layout_record_fid cid d = Inr x \<and> \<not> container_references nxt (record_id d))}"
    using True f(1) by auto
  ultimately show ?thesis using only_in_mono [OF o] by blast
qed

text \<open>The laws a client of the container store asks for, one by one.\<close>

lemma hsm_layout_simps:
  "manifest_fid (hsm_key_container_layout sha256) cid slot = hsm_key_manifest_fid (ucast cid) slot"
  "record_fid_of (hsm_key_container_layout sha256) = hsm_key_layout_record_fid"
  "record_allocate (hsm_key_container_layout sha256) = hsm_key_layout_record_allocate"
  "policy_hash_of (hsm_key_container_layout sha256) = hsm_key_policy_hash sha256"
  "activate (hsm_key_container_layout sha256) = hsm_key_layout_activate"
  "retire (hsm_key_container_layout sha256) = hsm_key_layout_retire"
  "descriptor_valid_in (hsm_key_container_layout sha256) = (\<lambda>_ _. True)"
  by (simp_all add: hsm_key_container_layout_def)

lemma byte_u32: "ucast (ucast (k :: byte) :: u32) = k"
  by (rule bit_eqI) (auto simp: bit_simps)

lemma hsm_manifest_fids:
  "manifest_fids (hsm_key_container_layout sha256) (ucast key) = {hsm_key_manifest_fid key 0, hsm_key_manifest_fid key 1}"
  by (auto simp: manifest_fids_def hsm_layout_simps byte_u32)

lemma hsm_record_fid_cases:
  "hsm_key_layout_record_fid cid d = r \<Longrightarrow> (hsm_key_record_fid (record_id d) = 0xffff \<and> r = Inl PICOKEYS_WRONG_DATA) \<or>
     (hsm_key_record_fid (record_id d) \<noteq> 0xffff \<and> r = Inr (hsm_key_record_fid (record_id d)))"
  by (simp add: hsm_key_layout_record_fid_def Let_def split: if_splits)

lemma hsm_policy_error: "hsm_key_policy_hash sha256 p \<noteq> Inl PICOKEYS_OK"
  by (auto simp: hsm_key_policy_hash_def split: prod.splits)

lemma hsm_allocate_law:
  assumes "hsm_inv cr key st" "hsm_key_layout_record_allocate cid slot w (cr_auth cr) st = (r, st')"
  shows "hsm_inv cr key st'" "only_in (hsm_own key) (fs st) (fs st')" "r \<noteq> Inl PICOKEYS_OK"
    "r = Inr (rid, fid) \<Longrightarrow> fid = hsm_key_record_fid rid \<and> fid \<noteq> 0xffff \<and> fs_search (fs st') fid = None \<and> plain (fs st) fid"
proof -
  obtain q st1 where a: "hsm_key_record_id_allocate (cr_auth cr) st = (q, st1)" by fastforce
  note l = record_id_law [OF a assms(1)]
  have e: "st' = st1" "r = (case q of Inl e \<Rightarrow> Inl e | Inr rid \<Rightarrow> Inr (rid, hsm_key_record_fid rid))"
    using assms(2) a by (auto simp: hsm_key_layout_record_allocate_def split: sum.splits)
  show "hsm_inv cr key st'" "only_in (hsm_own key) (fs st) (fs st')" "r \<noteq> Inl PICOKEYS_OK"
    using l(1-3) by (auto simp: e split: sum.splits)
  assume "r = Inr (rid, fid)"
  with e have q: "q = Inr rid" "fid = hsm_key_record_fid rid" by (auto split: sum.splits)
  have "plain (fs st1) fid = plain (fs st) fid" using l(2) by (simp add: only_in_def)
  with l(4) [OF q(1)] fresh_record_plain [OF l(1), of rid] q(2) e(1)
  show "fid = hsm_key_record_fid rid \<and> fid \<noteq> 0xffff \<and> fs_search (fs st') fid = None \<and> plain (fs st) fid" by simp
qed

lemma hsm_activate_law:
  assumes "hsm_inv cr key st" "hsm_key_layout_activate (ucast key) st = (q, st')"
  shows "hsm_inv cr key st' \<and> only_in (hsm_own key) (fs st) (fs st')"
proof -
  have "only_in (hsm_own key) (fs st) (fs st)" using assms(1) by (simp add: hsm_inv_def only_in_refl)
  with assms rewrite_own [OF assms(1) marker_own(2,4)] show ?thesis
    by (auto simp: hsm_key_layout_activate_def hsm_key_marker_write_def on_fs_def byte_u32 split: if_splits prod.splits)
qed

interpretation hsm: container_client "hsm_key_container_layout sha256" "ucast (key_id :: byte)" cr "hsm_inv cr key_id" "hsm_own key_id"
  for sha256 key_id cr
proof (unfold_locales, unfold hsm_layout_simps hsm_manifest_fids byte_u32, goal_cases)
  case (1 st) then show ?case by (simp add: hsm_inv_def)
next
  case (2 st x) then show ?case by (auto simp: hsm_inv_def hsm_plain_def)
next
  case (3 x) then show ?case using own_apart(1) by auto
next
  case 4 then show ?case by (rule own_apart(4))
next
  case (5 st A s)
  then have "A \<inter> allocator_files = {}" by (auto simp: hsm_own_def)
  from 5(1) _ this show ?case by (rule hsm_inv_foreign) (use 5(2) in simp_all)
next
  case (6 st bs) then show ?case by (simp add: hsm_inv_def)
next
  case (7 d e) then show ?case by (auto simp: recoverable_def dest: hsm_record_fid_cases)
next
  case (8 d fid)
  then have "fid = hsm_key_record_fid (record_id d)" by (auto dest: hsm_record_fid_cases)
  with record_fid_range have r: "0xe000 \<le> fid" by simp
  with own_apart(2,3) show ?case by auto
next
  case (9 p) show ?case by (rule hsm_policy_error)
next
  case (10 st slot w r st') then show ?case using hsm_allocate_law(1,2) by blast
next
  case (11 st slot w e st') then show ?case using hsm_allocate_law(3) by blast
next
  case (12 st slot w rid fid st') then show ?case using hsm_allocate_law(4) by blast
next
  case (13 st slot w rid fid st' g)
  with hsm_allocate_law(4) [OF 13(1,2)] have "fid = hsm_key_record_fid rid" "fid \<noteq> 0xffff" by auto
  then show ?case by (simp add: hsm_key_layout_record_fid_def new_descriptor_def Let_def)
next
  case (14 st q st') then show ?case by (rule hsm_activate_law)
next
  case (15 st state nxt cur target q st')
  note l = retire_law [OF 15(1,2) 15(3)]
  then show ?case using only_in_mono by blast
qed

section \<open>Who may do what with a key\<close>

definition hsm_key_rules :: "(u16 \<times> u32 \<times> u32 \<times> u16) list" where
  "hsm_key_rules = [(0x0f7c, 0x446, 0, 1), (0x0f7c, 0x44a, 0, 1), (0x0f7c, 0x460, 0, 1)]"

lemma hsm_key_policy_encodes: "hsm_object_key_policy = encode_policy hsm_key_rules"
  by (simp add: hsm_object_key_policy_def encode_policy_def encode_rule_def hsm_key_rules_def put_uint16_be_def put_uint32_be_def)

lemma hsm_rules_wf: "rule_wf r" if "r \<in> set hsm_key_rules"
  using that
  by (auto simp: hsm_key_rules_def rule_wf_def bits_of_0_iff outside_mask [symmetric] and_0_iff [symmetric] mask_eq_exp_minus_1)

text \<open>What the session has proved, as the policies count it.\<close>

definition hsm_user_present :: "bool \<Rightarrow> hsm_session \<Rightarrow> bool" where
  "hsm_user_present internal_firmware s \<longleftrightarrow>
     internal_firmware \<or> isUserAuthenticated s \<and> (has_session_pin s \<or> has_session_sopin s)"

lemma hsm_facts:
  "bits_of (facts (hsm_object_authorization_context_build internal s)) \<subseteq> {..<11}"
  "(\<exists>q \<in> {0x446, 0x44a, 0x460 :: u32}. bits_of q \<subseteq> bits_of (facts (hsm_object_authorization_context_build internal s)))
     \<longleftrightarrow> hsm_user_present internal s"
  by (cases internal; cases "isUserAuthenticated s"; cases "has_session_pin s"; cases "has_session_sopin s";
      cases "hsm_object_secure_messaging s";
      simp add: hsm_object_authorization_context_build_def fact_defs outside_mask [symmetric] mask_eq_exp_minus_1
        and_eq_iff [symmetric] hsm_user_present_def)+

lemma hsm_rules_cover:
  "k < 13 \<Longrightarrow> (\<exists>r \<in> set hsm_key_rules. spec_grants (rule_meaning r) k have 1) \<longleftrightarrow>
     k \<in> {2, 3, 4, 5, 6, 8, 9, 10, 11} \<and> (\<exists>q \<in> {0x446, 0x44a, 0x460 :: u32}. bits_of q \<subseteq> have)"
proof -
  assume "k < 13"
  then have "k = 0 \<or> k = 1 \<or> k = 2 \<or> k = 3 \<or> k = 4 \<or> k = 5 \<or> k = 6 \<or> k = 7 \<or> k = 8 \<or> k = 9 \<or> k = 10 \<or> k = 11 \<or> k = 12"
    by arith
  then have "bit (0x0f7c :: u16) k \<longleftrightarrow> k \<in> {2, 3, 4, 5, 6, 8, 9, 10, 11}"
    by (elim disjE; hypsubst; simp add: bit_iff_odd)
  then have b: "k \<in> bits_of (0x0f7c :: u16) \<longleftrightarrow> k \<in> {2, 3, 4, 5, 6, 8, 9, 10, 11}" by (simp only: bits_of_def mem_Collect_eq)
  have z: "bits_of (0 :: u32) = {}" by (simp add: bits_of_0_iff)
  have g: "spec_grants (rule_meaning (0x0f7c, q, 0, 1)) k have 1 \<longleftrightarrow> k \<in> {2, 3, 4, 5, 6, 8, 9, 10, 11} \<and> bits_of q \<subseteq> have" for q
    using b by (simp add: spec_grants_def rule_meaning_def z)
  show ?thesis by (simp only: hsm_key_rules_def list.set bex_simps g) blast
qed

lemma hsm_key_operation_granted:
  "hsm_object_authorization_key_operation operation internal s \<longleftrightarrow>
     hsm_object_session_epoch s \<noteq> 0 \<and> hsm_user_present internal s \<and>
     (\<exists>k \<in> {2, 3, 4, 5, 6, 8, 9, 10, 11}. operation = push_bit k 1)"
proof -
  let ?ctx = "hsm_object_authorization_context_build internal s"
  have ctx: "caller_namespace ?ctx = 1" "session_epoch ?ctx = hsm_object_session_epoch s" "facts_epoch ?ctx = hsm_object_session_epoch s"
    by (simp_all add: hsm_object_authorization_context_build_def HSM_OBJECT_NAMESPACE_def)
  have l: "length hsm_key_rules \<le> 8" by (simp add: hsm_key_rules_def)
  have cover: "(\<exists>k < 13. operation = push_bit k 1 \<and> (\<exists>r \<in> set hsm_key_rules. spec_grants (rule_meaning r) k (bits_of (facts ?ctx)) 1)) \<longleftrightarrow>
      (\<exists>k < 13. operation = push_bit k 1 \<and> k \<in> {2, 3, 4, 5, 6, 8, 9, 10, 11} \<and> hsm_user_present internal s)"
    using hsm_rules_cover [of _ "bits_of (facts ?ctx)"] by (simp only: hsm_facts(2) cong: conj_cong)
  have le: "\<forall>k \<in> {2, 3, 4, 5, 6, 8, 9, 10, 11 :: nat}. k < 13" by simp
  have small: "(\<exists>k < 13. operation = push_bit k 1 \<and> k \<in> {2, 3, 4, 5, 6, 8, 9, 10, 11} \<and> hsm_user_present internal s) \<longleftrightarrow>
      hsm_user_present internal s \<and> (\<exists>k \<in> {2, 3, 4, 5, 6, 8, 9, 10, 11}. operation = push_bit k 1)"
    using le by blast
  have w: "\<forall>r \<in> set hsm_key_rules. rule_wf r" using hsm_rules_wf by blast
  show ?thesis
    unfolding hsm_object_authorization_key_operation_def hsm_key_policy_encodes authorize_policy [OF l] ctx cover small
    using w hsm_facts(1) [of internal s] by auto
qed

text \<open>C18: an operation on a key is granted exactly when it is one of the nine the key policy names - every
  one but reading, enumerating, unwrapping and administrative recovery - the session is open, and it is the
  firmware's own or the user's, verified with the user or the security officer PIN.\<close>

theorem hsm_key_operation_policy:
  "hsm_object_authorization_key_operation operation internal s \<longleftrightarrow>
     hsm_object_session_epoch s \<noteq> 0 \<and> hsm_user_present internal s \<and>
     (\<exists>k \<in> {2, 3, 4, 5, 6, 8, 9, 10, 11}. operation = push_bit k 1)"
  by (rule hsm_key_operation_granted)

lemma read_needs_access:
  assumes "container_read layout cid otype tag cr legacy access room st = Inr p"
  shows "\<exists>d. object_type d = otype \<and> access d = PICOKEYS_OK"
proof -
  have data: "read_attempts as q = Inr p \<Longrightarrow> Data p \<in> set as" for as q
    by (induction as q rule: read_attempts.induct) auto
  have "\<exists>d. object_type d = otype \<and> access d = PICOKEYS_OK" if "read_attempt layout cid otype tag state access room st slot = Data p" for state slot
    using that by (auto simp: read_attempt_def Let_def container_find_def find_Some_iff split: if_splits option.splits sum.splits)
  with assms data show ?thesis
    unfolding container_read_def by (fastforce simp: Let_def split: sum.splits option.splits)
qed

text \<open>C17: no session, whatever it has proved, reads a private key out of its container: the policy of a key
  never grants reading.\<close>

theorem hsm_private_key_stays_inside:
  "hsm_key_container_read sha256 crypto_opt session key_id HSM_KEY_OBJECT_PRIVATE OPERATION_READ False room st \<noteq> Inr p"
proof
  assume "hsm_key_container_read sha256 crypto_opt session key_id HSM_KEY_OBJECT_PRIVATE OPERATION_READ False room st = Inr p"
  then obtain d where "object_type d = HSM_KEY_OBJECT_PRIVATE" "hsm_key_object_access OPERATION_READ False session d = PICOKEYS_OK"
    by (auto simp: hsm_key_container_read_def split: option.splits dest!: read_needs_access)
  then have "hsm_object_authorization_key_operation OPERATION_READ False session"
    by (auto simp: hsm_key_object_access_def split: if_splits)
  then obtain k where k: "k \<in> {2, 3, 4, 5, 6, 8, 9, 10, 11 :: nat}" "OPERATION_READ = push_bit k 1"
    unfolding hsm_key_operation_granted by blast
  have "k < 13" "k \<noteq> 0" using k(1) by auto
  moreover have "OPERATION_READ = push_bit 0 1" by (simp add: OPERATION_READ_def)
  ultimately show False using bits_of_single [of k] bits_of_single [of 0] k(2) by simp
qed

section \<open>Updating a key\<close>

lemma hsm_layout_valid: "container_layout_valid (hsm_key_container_layout sha256)"
  by (simp add: container_layout_valid_def hsm_key_container_layout_def HSM_OBJECT_NAMESPACE_def)

lemma hsm_update_law:
  assumes "hsm_inv cr key_id st" "container_wf (hsm_key_container_layout sha256) (ucast key_id) cr (fs st)"
    and "False \<notin> set (take MAX_OBJECTS (mem st))"
    and "hsm_key_container_update sha256 (Some cr) session key_id writes st = (r, st')"
  shows "hsm_inv cr key_id st' \<and> container_wf (hsm_key_container_layout sha256) (ucast key_id) cr (fs st') \<and>
    (container_value (hsm_key_container_layout sha256) (ucast key_id) cr (fs st') =
       container_value (hsm_key_container_layout sha256) (ucast key_id) cr (fs st) \<and> r \<noteq> PICOKEYS_OK \<or>
     hsm_object_authorization_key_operation OPERATION_UPDATE False session \<and>
     container_value (hsm_key_container_layout sha256) (ucast key_id) cr (fs st') =
       apply_writes (map container_write_of writes) (container_value (hsm_key_container_layout sha256) (ucast key_id) cr (fs st)))"
proof -
  have "(st' = st \<and> r \<noteq> PICOKEYS_OK) \<or> (hsm_object_authorization_key_operation OPERATION_UPDATE False session \<and>
      container_update_internal (hsm_key_container_layout sha256) (ucast key_id) (map container_write_of writes) cr None True st = (r, st'))"
    using assms(4) by (auto simp: hsm_key_container_update_def container_update_def split: if_splits)
  then show ?thesis
    using hsm.update_atomic [OF assms(1,2), of True "map container_write_of writes" r st'] assms(1-3) by blast
qed

text \<open>C11: an update of a key's container is atomic: whatever flash writes fail, and however much of a failed
  write reached the flash, what readers find is either unchanged, and then the update reported an error, or the
  old contents with all the writes applied, and then the session was allowed to update; the file system and the
  identifier allocator stay well formed for the next operation.\<close>

theorem hsm_update_atomic:
  assumes "hsm_inv cr key_id st" "container_wf (hsm_key_container_layout sha256) (ucast key_id) cr (fs st)"
    and "False \<notin> set (take MAX_OBJECTS (mem st))"
    and "hsm_key_container_update sha256 (Some cr) session key_id writes st = (r, st')"
  shows "hsm_inv cr key_id st' \<and> container_wf (hsm_key_container_layout sha256) (ucast key_id) cr (fs st') \<and>
    (container_value (hsm_key_container_layout sha256) (ucast key_id) cr (fs st') =
       container_value (hsm_key_container_layout sha256) (ucast key_id) cr (fs st) \<and> r \<noteq> PICOKEYS_OK \<or>
     hsm_object_authorization_key_operation OPERATION_UPDATE False session \<and>
     container_value (hsm_key_container_layout sha256) (ucast key_id) cr (fs st') =
       apply_writes (map container_write_of writes) (container_value (hsm_key_container_layout sha256) (ucast key_id) cr (fs st)))"
  by (rule hsm_update_law [OF assms])

text \<open>C12: after an update, with or without an error, the firmware reads back - every object alike - either what
  the container held before or what it held with all the writes applied, and the latter if the update succeeded;
  an object that should not exist is reported as not found.\<close>

theorem hsm_update_then_read:
  assumes "hsm_inv cr key_id st" "container_wf (hsm_key_container_layout sha256) (ucast key_id) cr (fs st)"
    and "False \<notin> set (take MAX_OBJECTS (mem st))"
    and "hsm_key_container_update sha256 (Some cr) session key_id writes st = (r, st')"
    and "old = container_value (hsm_key_container_layout sha256) (ucast key_id) cr (fs st)"
    and "new = apply_writes (map container_write_of writes) old"
    and "\<forall>p \<in> ran old \<union> ran new. length p \<le> room"
  shows "\<exists>v \<in> {old, new}. (r = PICOKEYS_OK \<longrightarrow> v = new) \<and>
    (\<forall>otype. hsm_key_container_read sha256 (Some cr) session' key_id otype operation True room st' =
       (case v (otype, 0) of None \<Rightarrow> Inl PICOKEYS_ERR_FILE_NOT_FOUND | Some p \<Rightarrow> Inr p))"
proof -
  let ?layout = "hsm_key_container_layout sha256"
  define v where "v = container_value ?layout (ucast key_id) cr (fs st')"
  have wf: "container_wf ?layout (ucast key_id) cr (fs st')" and v: "v \<in> {old, new}" "r = PICOKEYS_OK \<longrightarrow> v = new"
    using hsm_update_law [OF assms(1-4)] by (auto simp: assms(5,6) v_def)
  have "hsm_key_container_read sha256 (Some cr) session' key_id otype operation True room st' =
       (case v (otype, 0) of None \<Rightarrow> Inl PICOKEYS_ERR_FILE_NOT_FOUND | Some p \<Rightarrow> Inr p)" for otype
  proof (cases "v (otype, 0)")
    case None
    then show ?thesis
      using hsm.read_value(2) [OF wf hsm_layout_valid, of otype 0] by (simp add: v_def hsm_key_container_read_def)
  next
    case (Some p)
    then have "p \<in> ran v" by (rule ranI)
    with v(1) assms(7) have "length p \<le> room" by blast
    with Some show ?thesis
      using hsm.read_value(1) [OF wf hsm_layout_valid, of otype 0 p] by (simp add: v_def hsm_key_container_read_def hsm_key_object_access_def)
  qed
  with v show ?thesis by blast
qed

section \<open>An example\<close>

text \<open>The metadata file is in the application's table, everything else is dynamic and none of it there.\<close>

definition hsm_index :: file_index where
  "hsm_index = index_example\<lparr>namespaces :=
     [[], replicate 2 \<lparr>fe_data = None, fe_fid = EF_META, fe_namespace_id = 1, fe_name = None, fe_acl = [],
        fe_parent = 5, fe_type = 1, fe_ef_structure = 1\<rparr>, [], []]\<rparr>"

definition hsm_store :: "flash_outcome list \<Rightarrow> cstore" where
  "hsm_store events = \<lparr>fs = \<lparr>ix = hsm_index, content = (\<lambda>_. None), flash = events\<rparr>, txh = txn_no_handles, mem = []\<rparr>"

definition hsm_crypto :: "byte list container_crypto" where
  "hsm_crypto = \<lparr>cr_auth = mac_example, cr_protector = protector_example\<rparr>"

definition hsm_sha256 :: "byte list \<Rightarrow> byte list option" where
  "hsm_sha256 data = Some (replicate 32 (sum_list data))"

definition hsm_user :: hsm_session where
  "hsm_user = \<lparr>hsm_object_session_epoch = 1, hsm_object_secure_messaging = False, isUserAuthenticated = True,
     has_session_pin = True, has_session_sopin = False\<rparr>"

lemma hsm_index_dynamic:
  "fid \<noteq> EF_PHY \<Longrightarrow> fid \<noteq> EF_META \<Longrightarrow> fid_ok fid \<Longrightarrow> dynamic_only hsm_index fid" "\<not> dynamic_only hsm_index EF_META"
  by (auto simp: hsm_index_def index_example_def clear_index_def dynamic_only_def file_search_by_fid_def active_entries_def
      entry_match_def spec_match_def EF_PHY_def EF_META_def)

text \<open>Flash that fails once it has written so much, leaving a torn write of zeros behind.\<close>

definition torn_flash :: "nat \<Rightarrow> flash_outcome list" where
  "torn_flash n = replicate n Done @ [Failed PICOKEYS_ERR_NO_MEMORY (Some (replicate 48 0)), Failed PICOKEYS_EXEC_ERROR None]"

definition hsm_example_write :: hsm_key_container_write where
  "hsm_example_write = \<lparr>k_type = 4, k_data = Some [1, 2, 3], k_policy_id = 0x01ff, k_key_domain = 0, k_protection = 1, k_flags = 2\<rparr>"

lemma hsm_store_ok:
  "hsm_inv hsm_crypto key (hsm_store (torn_flash n))" "container_wf (hsm_key_container_layout sha256) (ucast key) hsm_crypto (fs (hsm_store (torn_flash n)))"
  "container_value (hsm_key_container_layout sha256) (ucast key) hsm_crypto (fs (hsm_store (torn_flash n))) = (\<lambda>_. None)"
proof -
  let ?st = "fs (hsm_store (torn_flash n))"
  have none: "fdata ?st x = None" for x
    by (simp add: fdata_def hsm_store_def split: option.split)
  have f: "Failed s (Some t) \<in> set (flash ?st) \<longleftrightarrow> s = PICOKEYS_ERR_NO_MEMORY \<and> t = replicate 48 0" for s t
    by (auto simp: hsm_store_def torn_flash_def)
  have i: "store_inv ?st"
    using index_example_ok(1) by (simp add: store_inv_def hsm_store_def hsm_index_def dyn_inv_def)
  have p: "plain ?st x" if "x \<notin> {EF_PHY, EF_META}" "fid_ok x" for x
    using that hsm_index_dynamic(1) [of x] by (simp add: plain_def hsm_store_def)
  have m: "\<not> meta_free ?st" using hsm_index_dynamic(2) by (simp add: meta_free_def hsm_store_def)
  have "plain ?st (hsm_key_manifest_fid key slot)" for slot
    using prefixed_small [of "0xd0" key] prefixed_small [of "0xd1" key] prefixed_inj [of "0xd0" key 0 0] prefixed_inj [of "0xd1" key 0 0]
    by (intro p) (auto simp: hsm_key_manifest_fid_def EF_PHY_def EF_META_def fid_ok_def index_consts prefixed_def)
  moreover have "plain ?st x" if "x \<in> hsm_own key" for x
    using that prefixed_small [of HSM_OBJECT_PREFIX key] prefixed_inj [of HSM_OBJECT_PREFIX key 0 0]
    by (intro p) (auto simp: hsm_own_def allocator_files_eq allocator_fids EF_PHY_def EF_META_def fid_ok_def index_consts HSM_OBJECT_PREFIX_def prefixed_def)
  moreover have "plain ?st x" if "0xe000 \<le> x" "x \<notin> {0xffff, EF_META, EF_PHY}" for x
    using that by (intro p) (auto simp: fid_ok_def index_consts word_le_nat_alt)
  ultimately have "hsm_plain key ?st" using m by (simp add: hsm_plain_def)
  moreover have z: "replicate 4 (0 :: byte) \<noteq> c # xs" if "c \<noteq> 0" for c xs
    using that by (simp add: numeral_eq_Suc)
  moreover have "torn_refused mac_example ?st"
    using z by (auto simp: torn_refused_def f manifest_parse_def container_consts manifest_magic_def recoverable_def Let_def)
  moreover have "torn_ok ?st" using z by (auto simp: torn_ok_def f commit_magic_def)
  moreover have "txn_wf ?st hsm_key_record_id_layout mac_example" using none by (simp add: txn_wf_def commit_void_def)
  moreover have "protector_ok protector_example" "seal_reports protector_example"
    by (auto simp: protector_ok_def seal_reports_def protector_example_def AUTH_TAG_SIZE_def)
  ultimately show "hsm_inv hsm_crypto key (hsm_store (torn_flash n))"
    using i mac_example_ok(1) no_handles_ok(1) by (simp add: hsm_inv_def hsm_crypto_def) (simp add: hsm_store_def)
  have a: "container_absent (hsm_key_container_layout sha256 :: byte list container_layout) (ucast key) ?st" using none by (simp add: container_absent_def)
  then show "container_wf (hsm_key_container_layout sha256) (ucast key) hsm_crypto ?st" by (simp add: container_wf_def)
  show "container_value (hsm_key_container_layout sha256) (ucast key) hsm_crypto ?st = (\<lambda>_. None)"
    using a by (rule value_absent)
qed

theorem hsm_update_atomic_witness:
  "\<forall>n. case hsm_key_container_update hsm_sha256 (Some hsm_crypto) hsm_user 1 [hsm_example_write] (hsm_store (torn_flash n)) of
      (r, st') \<Rightarrow> container_value (hsm_key_container_layout hsm_sha256) 1 hsm_crypto (fs st') \<in> {\<lambda>_. None, [(4, 0) \<mapsto> [1, 2, 3]]}"
proof
  fix n
  let ?layout = "hsm_key_container_layout hsm_sha256"
  obtain r st' where u: "hsm_key_container_update hsm_sha256 (Some hsm_crypto) hsm_user 1 [hsm_example_write] (hsm_store (torn_flash n)) = (r, st')"
    by fastforce
  have v: "container_value ?layout (ucast (1 :: byte)) hsm_crypto (fs (hsm_store (torn_flash n))) = (\<lambda>_. None)"
    by (rule hsm_store_ok(3))
  have "False \<notin> set (take MAX_OBJECTS (mem (hsm_store (torn_flash n))))" by (simp add: hsm_store_def)
  from hsm_update_atomic [OF hsm_store_ok(1,2) this u] v
  show "case hsm_key_container_update hsm_sha256 (Some hsm_crypto) hsm_user 1 [hsm_example_write] (hsm_store (torn_flash n)) of
      (r, st') \<Rightarrow> container_value ?layout 1 hsm_crypto (fs st') \<in> {\<lambda>_. None, [(4, 0) \<mapsto> [1, 2, 3]]}"
    unfolding u prod.case by (auto simp: container_write_of_def hsm_example_write_def write_bytes_def)
qed

theorem hsm_update_then_read_witness:
  "\<forall>n. case hsm_key_container_update hsm_sha256 (Some hsm_crypto) hsm_user 1 [hsm_example_write] (hsm_store (torn_flash n)) of
      (r, st') \<Rightarrow> hsm_key_container_read hsm_sha256 (Some hsm_crypto) hsm_user 1 4 OPERATION_READ True 100 st'
        \<in> {Inl PICOKEYS_ERR_FILE_NOT_FOUND, Inr [1, 2, 3]}"
proof
  fix n
  obtain r st' where u: "hsm_key_container_update hsm_sha256 (Some hsm_crypto) hsm_user 1 [hsm_example_write] (hsm_store (torn_flash n)) = (r, st')"
    by fastforce
  have w: "apply_writes (map container_write_of [hsm_example_write]) (\<lambda>_. None) = [(4, 0) \<mapsto> [1, 2, 3]]"
    by (simp add: container_write_of_def hsm_example_write_def write_bytes_def)
  have "False \<notin> set (take MAX_OBJECTS (mem (hsm_store (torn_flash n))))" by (simp add: hsm_store_def)
  from hsm_update_then_read [OF hsm_store_ok(1,2) this u hsm_store_ok(3) [symmetric] w [symmetric], of 100 hsm_user OPERATION_READ]
  show "case hsm_key_container_update hsm_sha256 (Some hsm_crypto) hsm_user 1 [hsm_example_write] (hsm_store (torn_flash n)) of
      (r, st') \<Rightarrow> hsm_key_container_read hsm_sha256 (Some hsm_crypto) hsm_user 1 4 OPERATION_READ True 100 st'
        \<in> {Inl PICOKEYS_ERR_FILE_NOT_FOUND, Inr [1, 2, 3]}"
    by (auto simp: u)
qed

end
