(* ===== verification/Low_Flash.thy ===== *)
theory Low_Flash
  imports Prelude
begin

text \<open>
  The flash driver of the device, \<^verbatim>\<open>pico-keys-sdk/src/fs/low_flash.c\<close>, as it is built for the RP2
  boards: writes go to a cache of six sectors; the task of the other core copies them, first into a
  redo journal and then to their sectors, and marks the journal done. Reads look into the cache first.
  Addresses are natural numbers: the code compares before it subtracts, except for the sector
  below \<open>last_base\<close>, and flash starts far above address 0. The state ends with the outcomes of the coming
  hardware operations: done, refused (the other core could not be stopped: nothing was written, which is
  also what a loss of power just before the operation looks like), or done but reported late.
\<close>

section \<open>Hardware\<close>

definition FLASH_SECTOR_SIZE :: nat where "FLASH_SECTOR_SIZE = 4096"
definition FLASH_PAGE_SIZE :: nat where "FLASH_PAGE_SIZE = 256"
definition TOTAL_FLASH_PAGES :: nat where "TOTAL_FLASH_PAGES = 6"
definition JOURNAL_SIZE :: nat where "JOURNAL_SIZE = 32"
definition UINTPTR_MAX :: u32 where "UINTPTR_MAX = 0xffffffff"

definition FLASH_SECTOR :: "nat \<Rightarrow> nat" where
  "FLASH_SECTOR x = x - x mod FLASH_SECTOR_SIZE"

datatype op_outcome = Op_Done | Op_Refused | Op_Late

record page_flash =
  page :: "nat \<Rightarrow> byte"
  address :: nat
  ready :: bool
  erase :: bool
  page_size :: nat

record low_flash =
  nor :: "nat \<Rightarrow> byte"
  flash_pages :: "page_flash list"
  ready_pages :: nat
  flash_available :: bool
  locked_out :: bool
  last_base :: nat
  start_data_pool :: nat
  end_data_pool :: nat
  journal_slot :: nat
  last_journal_sector :: nat
  journal_pending :: bool
  journal_finalize_pending :: bool
  pending_journal_addr :: nat
  patience :: nat
  outcomes :: "op_outcome list"

definition next_op :: "low_flash \<Rightarrow> op_outcome \<times> low_flash" where
  "next_op st = (case outcomes st of [] \<Rightarrow> (Op_Done, st) | x # xs \<Rightarrow> (x, st\<lparr>outcomes := xs\<rparr>))"

text \<open>Erasing sets all bits of a sector, programming clears bits.\<close>

definition flash_range_erase :: "nat \<Rightarrow> (nat \<Rightarrow> byte) \<Rightarrow> nat \<Rightarrow> byte" where
  "flash_range_erase addr m = (\<lambda>a. if addr \<le> a \<and> a < addr + FLASH_SECTOR_SIZE then 0xff else m a)"

definition flash_range_program :: "nat \<Rightarrow> (nat \<Rightarrow> byte) \<Rightarrow> nat \<Rightarrow> (nat \<Rightarrow> byte) \<Rightarrow> nat \<Rightarrow> byte" where
  "flash_range_program addr data n m = (\<lambda>a. if addr \<le> a \<and> a < addr + n then m a AND data (a - addr) else m a)"

definition flash_op :: "((nat \<Rightarrow> byte) \<Rightarrow> nat \<Rightarrow> byte) \<Rightarrow> low_flash \<Rightarrow> pk_status \<times> low_flash" where
  "flash_op f st =
     (case next_op st of (x, st1) \<Rightarrow>
        if x = Op_Refused then (PICOKEYS_ERR_NO_MEMORY, st1)
        else (if x = Op_Late then PICOKEYS_EXEC_ERROR else PICOKEYS_OK, st1\<lparr>nor := f (nor st1)\<rparr>))"

definition do_flash_op_erase :: "nat \<Rightarrow> low_flash \<Rightarrow> pk_status \<times> low_flash" where
  "do_flash_op_erase addr = flash_op (flash_range_erase addr)"

definition do_flash_op_program :: "nat \<Rightarrow> (nat \<Rightarrow> byte) \<Rightarrow> nat \<Rightarrow> low_flash \<Rightarrow> pk_status \<times> low_flash" where
  "do_flash_op_program addr data n = flash_op (flash_range_program addr data n)"

definition do_flash_op_erase_program :: "nat \<Rightarrow> (nat \<Rightarrow> byte) \<Rightarrow> nat \<Rightarrow> low_flash \<Rightarrow> pk_status \<times> low_flash" where
  "do_flash_op_erase_program addr data n = flash_op (flash_range_program addr data n \<circ> flash_range_erase addr)"

section \<open>The redo journal\<close>

text \<open>An entry of 32 bytes: magic, six target addresses, status, three reserved bytes.\<close>

record flash_journal =
  magic :: u32
  target_addr :: "u32 list"
  status :: byte

definition JOURNAL_MAGIC :: u32 where "JOURNAL_MAGIC = 0x504A524E"
definition JOURNAL_STATUS_EMPTY :: byte where "JOURNAL_STATUS_EMPTY = 0xFF"
definition JOURNAL_STATUS_PENDING :: byte where "JOURNAL_STATUS_PENDING = 0xFE"
definition JOURNAL_STATUS_DONE :: byte where "JOURNAL_STATUS_DONE = 0xFC"

lemmas journal_consts = JOURNAL_MAGIC_def JOURNAL_STATUS_EMPTY_def JOURNAL_STATUS_PENDING_def JOURNAL_STATUS_DONE_def

definition journal_bytes :: "flash_journal \<Rightarrow> byte list" where
  "journal_bytes e = put_uint32_le (magic e) @ concat (map put_uint32_le (target_addr e)) @ [status e, 0xff, 0xff, 0xff]"

definition journal_decode :: "byte list \<Rightarrow> flash_journal" where
  "journal_decode b =
     \<lparr>magic = get_uint32_le b, target_addr = map (\<lambda>i. get_uint32_le (drop (4 + 4 * i) b)) [0 ..< TOTAL_FLASH_PAGES], status = b ! 28\<rparr>"

text \<open>A page of erased bytes with one entry in it, as \<open>data_page\<close> is filled.\<close>

definition entry_page :: "nat \<Rightarrow> byte list \<Rightarrow> nat \<Rightarrow> byte" where
  "entry_page off b = (\<lambda>i. if off \<le> i \<and> i < off + length b then b ! (i - off) else 0xff)"

definition blank_entry :: flash_journal where
  "blank_entry = \<lparr>magic = 0xffffffff, target_addr = replicate TOTAL_FLASH_PAGES 0xffffffff, status = 0xff\<rparr>"

definition journal_mark_done :: "low_flash \<Rightarrow> pk_status \<times> low_flash" where
  "journal_mark_done st =
     (let entry_offset = journal_slot st * JOURNAL_SIZE mod FLASH_PAGE_SIZE in
      case do_flash_op_program (pending_journal_addr st)
             (entry_page entry_offset (journal_bytes (blank_entry\<lparr>status := JOURNAL_STATUS_DONE\<rparr>))) FLASH_PAGE_SIZE st of
        (r, st1) \<Rightarrow>
          if r = PICOKEYS_ERR_NO_MEMORY then (r, st1)
          else (r, st1\<lparr>journal_pending := False, journal_finalize_pending := False,
                   journal_slot := (journal_slot st1 + 1) mod (FLASH_SECTOR_SIZE div JOURNAL_SIZE)\<rparr>))"

text \<open>The redo copies of the ready pages, from page \<open>i\<close> on; the answer says whether all were written, and
  the targets to enter.\<close>

fun write_redo :: "nat \<Rightarrow> page_flash list \<Rightarrow> nat \<Rightarrow> u32 list \<Rightarrow> low_flash \<Rightarrow> (bool \<times> u32 list) \<times> low_flash" where
  "write_redo i [] redo_sector targets st = ((True, targets), st)"
| "write_redo i (p # ps) redo_sector targets st =
     (if \<not> ready p then write_redo (Suc i) ps redo_sector targets st
      else let redo_offset = i * FLASH_SECTOR_SIZE in
        if redo_sector < start_data_pool st + redo_offset then ((False, targets), st)
        else case do_flash_op_erase_program (redo_sector - redo_offset) (page p) FLASH_SECTOR_SIZE st of (r, st1) \<Rightarrow>
          if r = PICOKEYS_ERR_NO_MEMORY then ((False, targets), st1)
          else write_redo (Suc i) ps redo_sector (targets[i := of_nat (address p)]) st1)"

definition journal_sector_of :: "low_flash \<Rightarrow> nat" where
  "journal_sector_of st = FLASH_SECTOR (last_base st) - FLASH_SECTOR_SIZE"

text \<open>Everything up to the journal entry being pending; False leaves the task through \<open>goto out\<close>.\<close>

definition open_sector :: "nat \<Rightarrow> low_flash \<Rightarrow> bool \<times> low_flash" where
  "open_sector journal_sector st =
     (if journal_sector \<noteq> last_journal_sector st \<or> journal_slot st = 0
      then case do_flash_op_erase journal_sector st of (r, st1) \<Rightarrow>
        if r = PICOKEYS_ERR_NO_MEMORY then (False, st1)
        else (True, st1\<lparr>last_journal_sector := journal_sector, journal_slot := 0\<rparr>)
      else (True, st))"

definition enter_journal :: "nat \<Rightarrow> u32 list \<Rightarrow> low_flash \<Rightarrow> bool \<times> low_flash" where
  "enter_journal journal_sector targets st =
     (let addr_journal = journal_sector + (journal_slot st * JOURNAL_SIZE div FLASH_PAGE_SIZE) * FLASH_PAGE_SIZE;
          off = journal_slot st * JOURNAL_SIZE mod FLASH_PAGE_SIZE;
          entry = \<lparr>magic = JOURNAL_MAGIC, target_addr = targets, status = JOURNAL_STATUS_EMPTY\<rparr> in
      case do_flash_op_program addr_journal (entry_page off (journal_bytes entry)) FLASH_PAGE_SIZE st of (r, st1) \<Rightarrow>
        if r = PICOKEYS_ERR_NO_MEMORY then (False, st1)
        else case do_flash_op_program addr_journal
                    (entry_page off (journal_bytes (blank_entry\<lparr>status := JOURNAL_STATUS_PENDING\<rparr>))) FLASH_PAGE_SIZE st1 of (r, st2) \<Rightarrow>
          if r = PICOKEYS_ERR_NO_MEMORY then (False, st2)
          else (True, st2\<lparr>journal_pending := True, pending_journal_addr := addr_journal\<rparr>))"

definition write_journal :: "low_flash \<Rightarrow> bool \<times> low_flash" where
  "write_journal st =
     (let journal_sector = journal_sector_of st in
      if journal_sector < start_data_pool st + FLASH_SECTOR_SIZE then (False, st)
      else case open_sector journal_sector st of (ok, st1) \<Rightarrow>
        if \<not> ok then (False, st1)
        else case write_redo 0 (flash_pages st1) (journal_sector - FLASH_SECTOR_SIZE) (replicate TOTAL_FLASH_PAGES 0xffffffff) st1 of
               ((ok, targets), st2) \<Rightarrow>
          if \<not> ok then (False, st2) else enter_journal journal_sector targets st2)"

section \<open>The task of the other core\<close>

text \<open>The pages from number \<open>r\<close> on; the answer is \<open>transaction_ok\<close>.\<close>

fun drain :: "nat \<Rightarrow> page_flash list \<Rightarrow> low_flash \<Rightarrow> bool \<times> low_flash" where
  "drain r [] st = (True, st)"
| "drain r (p # ps) st =
     (if ready p
      then case do_flash_op_erase_program (address p) (page p) FLASH_SECTOR_SIZE st of (ret, st1) \<Rightarrow>
        if ret = PICOKEYS_ERR_NO_MEMORY then (False, st1)
        else drain (Suc r) ps (st1\<lparr>flash_pages := (flash_pages st1)[r := p\<lparr>ready := False\<rparr>], ready_pages := ready_pages st1 - 1\<rparr>)
      else if erase p
      then case do_flash_op_erase (address p) st of (ret, st1) \<Rightarrow>
        if ret = PICOKEYS_ERR_NO_MEMORY then drain (Suc r) ps st1
        else drain (Suc r) ps (st1\<lparr>flash_pages := (flash_pages st1)[r := p\<lparr>erase := False\<rparr>], ready_pages := ready_pages st1 - 1\<rparr>)
      else drain (Suc r) ps st)"

definition finish_task :: "low_flash \<Rightarrow> low_flash" where
  "finish_task st = (if ready_pages st = 0 then st\<lparr>flash_available := False\<rparr> else st)"

definition drain_pages :: "low_flash \<Rightarrow> low_flash" where
  "drain_pages st =
     (case drain 0 (flash_pages st) st of (transaction_ok, st1) \<Rightarrow>
        if transaction_ok \<and> ready_pages st1 = 0
        then case journal_mark_done (st1\<lparr>journal_finalize_pending := True\<rparr>) of (ret, st2) \<Rightarrow>
          if ret = PICOKEYS_ERR_NO_MEMORY then st2 else finish_task st2
        else finish_task st1)"

definition low_flash_task :: "low_flash \<Rightarrow> low_flash" where
  "low_flash_task st =
     (case (if locked_out st \<and> journal_finalize_pending st then journal_mark_done st else (PICOKEYS_OK, st)) of (ret, st1) \<Rightarrow>
        if ret = PICOKEYS_ERR_NO_MEMORY then st1
        else if locked_out st1 \<and> flash_available st1 \<and> 0 < ready_pages st1
        then case (if journal_pending st1 then (True, st1) else write_journal st1) of (ok, st2) \<Rightarrow>
          if \<not> ok then st2 else drain_pages st2
        else finish_task st1)"

section \<open>The cache\<close>

definition low_flash_commit :: "low_flash \<Rightarrow> low_flash" where
  "low_flash_commit st = st\<lparr>flash_available := True\<rparr>"

text \<open>Waiting for the other core: \<open>patience\<close> is how many turns of its task fit in the time allowed.\<close>

fun wait_turns :: "nat \<Rightarrow> low_flash \<Rightarrow> bool \<times> low_flash" where
  "wait_turns 0 st = (\<not> flash_available st, st)"
| "wait_turns (Suc n) st = (if \<not> flash_available st then (True, st) else wait_turns n (low_flash_task st))"

definition low_flash_commit_sync :: "low_flash \<Rightarrow> bool \<times> low_flash" where
  "low_flash_commit_sync st = (let st1 = low_flash_commit st in wait_turns (patience st1) st1)"

definition cached :: "low_flash \<Rightarrow> nat \<Rightarrow> nat option" where
  "cached st s = find (\<lambda>r. (ready (flash_pages st ! r) \<or> erase (flash_pages st ! r)) \<and> address (flash_pages st ! r) = s) [0 ..< TOTAL_FLASH_PAGES]"

definition free_page :: "low_flash \<Rightarrow> nat option" where
  "free_page st = find (\<lambda>r. \<not> ready (flash_pages st ! r) \<and> \<not> erase (flash_pages st ! r)) [0 ..< TOTAL_FLASH_PAGES]"

definition new_data_sector :: "low_flash \<Rightarrow> nat \<Rightarrow> bool" where
  "new_data_sector st s \<longleftrightarrow> s \<le> end_data_pool st \<and> start_data_pool st \<le> s + FLASH_SECTOR_SIZE \<and>
     s < FLASH_SECTOR (last_base st) \<and> s \<noteq> FLASH_SECTOR (end_data_pool st - 1)"

definition find_free_page :: "nat \<Rightarrow> low_flash \<Rightarrow> nat option \<times> low_flash" where
  "find_free_page addr st =
     (let s = FLASH_SECTOR addr in
      case cached st s of
        Some r \<Rightarrow> (Some r,
          if erase (flash_pages st ! r)
          then st\<lparr>flash_pages := (flash_pages st)[r := (flash_pages st ! r)\<lparr>erase := False, ready := True, page_size := 0\<rparr>]\<rparr>
          else st)
      | None \<Rightarrow> (case free_page st of
          None \<Rightarrow> (None, st)
        | Some r \<Rightarrow> (Some r,
            st\<lparr>flash_pages := (flash_pages st)[r := \<lparr>page = (if new_data_sector st s then (\<lambda>_. 0xff) else (\<lambda>i. nor st (s + i))),
                 address = s, ready = True, erase = False, page_size = 0\<rparr>],
               ready_pages := ready_pages st + 1\<rparr>)))"

definition write_page :: "nat \<Rightarrow> nat \<Rightarrow> byte list \<Rightarrow> low_flash \<Rightarrow> low_flash" where
  "write_page r off data st =
     st\<lparr>flash_pages := (flash_pages st)[r := (flash_pages st ! r)\<lparr>page :=
        (\<lambda>i. if off \<le> i \<and> i < off + length data then data ! (i - off) else page (flash_pages st ! r) i)\<rparr>]\<rparr>"

text \<open>The loop of \<open>flash_program_block\<close> with fuel for its turns: one per sector, and one more for each wait.\<close>

fun program_sectors :: "nat \<Rightarrow> nat \<Rightarrow> byte list \<Rightarrow> low_flash \<Rightarrow> (pk_status \<times> low_flash) option" where
  "program_sectors 0 addr data st = None"
| "program_sectors (Suc n) addr data st =
     (if data = [] then Some (PICOKEYS_OK, st)
      else let page_offset = addr mod FLASH_SECTOR_SIZE; chunk = min (length data) (FLASH_SECTOR_SIZE - page_offset) in
        case find_free_page addr st of
          (Some r, st1) \<Rightarrow> program_sectors n (addr + chunk) (drop chunk data) (write_page r page_offset (take chunk data) st1)
        | (None, st1) \<Rightarrow> (case low_flash_commit_sync st1 of (ok, st2) \<Rightarrow>
            if \<not> ok then Some (PICOKEYS_ERR_NO_MEMORY, st2) else program_sectors n addr data st2))"

definition flash_program_block :: "nat \<Rightarrow> byte list \<Rightarrow> low_flash \<Rightarrow> (pk_status \<times> low_flash) option" where
  "flash_program_block addr data st =
     (if data = [] then Some (PICOKEYS_ERR_NULL_PARAM, st) else program_sectors (2 * length data + 1) addr data st)"

definition flash_program_halfword :: "nat \<Rightarrow> u16 \<Rightarrow> low_flash \<Rightarrow> (pk_status \<times> low_flash) option" where
  "flash_program_halfword addr v = flash_program_block addr (put_uint16_le v)"

definition flash_program_word :: "nat \<Rightarrow> u32 \<Rightarrow> low_flash \<Rightarrow> (pk_status \<times> low_flash) option" where
  "flash_program_word addr v = flash_program_block addr (put_uint32_le v)"

text \<open>Addresses are 32 bits wide.\<close>

definition flash_program_uintptr :: "nat \<Rightarrow> u32 \<Rightarrow> low_flash \<Rightarrow> (pk_status \<times> low_flash) option" where
  "flash_program_uintptr addr v = flash_program_block addr (put_uint32_le v)"

text \<open>What a read of one address finds.\<close>

definition flash_byte :: "low_flash \<Rightarrow> nat \<Rightarrow> byte" where
  "flash_byte st addr =
     (case find (\<lambda>r. ready (flash_pages st ! r) \<and> address (flash_pages st ! r) = FLASH_SECTOR addr) [0 ..< TOTAL_FLASH_PAGES] of
        Some r \<Rightarrow> page (flash_pages st ! r) (addr mod FLASH_SECTOR_SIZE)
      | None \<Rightarrow> nor st addr)"

definition flash_read :: "nat \<Rightarrow> low_flash \<Rightarrow> byte" where
  "flash_read addr st = (if 0 < ready_pages st then flash_byte st addr else nor st addr)"

definition flash_read_block :: "nat \<Rightarrow> nat \<Rightarrow> low_flash \<Rightarrow> pk_status + byte list" where
  "flash_read_block addr n st =
     (if n = 0 then Inl PICOKEYS_ERR_NULL_PARAM else Inr (map (\<lambda>i. flash_byte st (addr + i)) [0 ..< n]))"

definition flash_read_uint16 :: "nat \<Rightarrow> low_flash \<Rightarrow> u16" where
  "flash_read_uint16 addr st = get_uint16_le (map (\<lambda>i. flash_byte st (addr + i)) [0 ..< 2])"

definition flash_read_uint32 :: "nat \<Rightarrow> low_flash \<Rightarrow> u32" where
  "flash_read_uint32 addr st = get_uint32_le (map (\<lambda>i. flash_byte st (addr + i)) [0 ..< 4])"

definition flash_read_uintptr :: "nat \<Rightarrow> low_flash \<Rightarrow> u32" where
  "flash_read_uintptr addr st = get_uint32_le (map (\<lambda>i. flash_byte st (addr + i)) [0 ..< 4])"

definition flash_check_blank :: "byte list \<Rightarrow> bool" where
  "flash_check_blank data \<longleftrightarrow> list_all (\<lambda>x. x = 0xff) data"

definition flash_erase_page :: "nat \<Rightarrow> nat \<Rightarrow> low_flash \<Rightarrow> pk_status \<times> low_flash" where
  "flash_erase_page addr n st =
     (if ready_pages st = TOTAL_FLASH_PAGES then (PICOKEYS_ERR_NO_MEMORY, st)
      else case find_free_page addr st of
        (None, st1) \<Rightarrow> (PICOKEYS_ERR_MEMORY_FATAL, st1)
      | (Some r, st1) \<Rightarrow> (PICOKEYS_OK, st1\<lparr>flash_pages :=
          (flash_pages st1)[r := (flash_pages st1 ! r)\<lparr>erase := True, ready := False, page_size := n\<rparr>]\<rparr>))"

section \<open>Recovery\<close>

definition entry_at :: "low_flash \<Rightarrow> nat \<Rightarrow> byte list" where
  "entry_at st addr = map (\<lambda>i. flash_read (addr + i) st) [0 ..< JOURNAL_SIZE]"

definition journal_entry_is_erased :: "byte list \<Rightarrow> bool" where
  "journal_entry_is_erased b \<longleftrightarrow> list_all (\<lambda>x. x = 0xff) b"

definition target_used :: "u32 \<Rightarrow> bool" where
  "target_used t \<longleftrightarrow> t \<noteq> 0 \<and> t \<noteq> UINTPTR_MAX"

definition journal_entry_header_valid :: "flash_journal \<Rightarrow> low_flash \<Rightarrow> bool" where
  "journal_entry_header_valid e st \<longleftrightarrow>
     magic e = JOURNAL_MAGIC \<and>
     list_all (\<lambda>t. target_used t \<longrightarrow> start_data_pool st \<le> unat t \<and> unat t < end_data_pool st \<and> unat t mod FLASH_SECTOR_SIZE = 0)
       (target_addr e) \<and>
     list_ex target_used (target_addr e)"

definition journal_entry_valid_at :: "flash_journal \<Rightarrow> nat \<Rightarrow> low_flash \<Rightarrow> bool" where
  "journal_entry_valid_at e journal_sector st \<longleftrightarrow>
     journal_entry_header_valid e st \<and> (status e = JOURNAL_STATUS_PENDING \<or> status e = JOURNAL_STATUS_DONE) \<and>
     list_all (\<lambda>i. target_used (target_addr e ! i) \<longrightarrow> start_data_pool st + (i + 1) * FLASH_SECTOR_SIZE \<le> journal_sector)
       [0 ..< TOTAL_FLASH_PAGES]"

text \<open>The entries of a sector, from a list of positions on: whether a valid one was found, and the one to restore.\<close>

fun scan_entries :: "bool \<Rightarrow> nat \<Rightarrow> nat list \<Rightarrow> low_flash \<Rightarrow> bool \<times> nat option" where
  "scan_entries force journal_sector [] st = (False, None)"
| "scan_entries force journal_sector (pos # ps) st =
     (let b = entry_at st (journal_sector + pos); e = journal_decode b; (found, candidate) = scan_entries force journal_sector ps st in
      if journal_entry_is_erased b then (False, None)
      else if \<not> journal_entry_valid_at e journal_sector st then (found, candidate)
      else if force then (True, if candidate = None then Some pos else candidate)
      else if status e \<noteq> JOURNAL_STATUS_PENDING then (True, candidate)
      else (True, Some pos))"

definition entry_positions :: "nat list" where
  "entry_positions = map (\<lambda>k. k * JOURNAL_SIZE) [0 ..< FLASH_SECTOR_SIZE div JOURNAL_SIZE]"

text \<open>The targets from number \<open>i\<close> on are restored from their redo copies.\<close>

fun restore_targets :: "nat \<Rightarrow> u32 list \<Rightarrow> nat \<Rightarrow> low_flash \<Rightarrow> pk_status \<times> low_flash" where
  "restore_targets i [] journal_sector st = (PICOKEYS_OK, st)"
| "restore_targets i (t # ts) journal_sector st =
     (let target = unat t; redo_offset = (i + 1) * FLASH_SECTOR_SIZE in
      if \<not> target_used t then restore_targets (Suc i) ts journal_sector st
      else if target < start_data_pool st \<or> end_data_pool st \<le> target then (PICOKEYS_ERR_MEMORY_FATAL, st)
      else if journal_sector < start_data_pool st + redo_offset then (PICOKEYS_ERR_MEMORY_FATAL, st)
      else let redo = journal_sector - redo_offset; data = (\<lambda>k. nor st (redo + k)) in
        case do_flash_op_erase_program target data FLASH_SECTOR_SIZE
               (st\<lparr>flash_pages := (flash_pages st)[i := (flash_pages st ! i)\<lparr>page := data\<rparr>]\<rparr>) of (r, st1) \<Rightarrow>
          if r = PICOKEYS_ERR_NO_MEMORY then (PICOKEYS_EXEC_ERROR, st1)
          else restore_targets (Suc i) ts journal_sector st1)"

definition restore_entry :: "nat \<Rightarrow> nat \<Rightarrow> low_flash \<Rightarrow> pk_status \<times> low_flash" where
  "restore_entry journal_sector pos st =
     (case restore_targets 0 (target_addr (journal_decode (entry_at st (journal_sector + pos)))) journal_sector st of (r, st1) \<Rightarrow>
        if r \<noteq> PICOKEYS_OK then (r, st1)
        else case do_flash_op_program (journal_sector + (pos div FLASH_PAGE_SIZE) * FLASH_PAGE_SIZE)
                    (entry_page (pos mod FLASH_PAGE_SIZE) (journal_bytes (blank_entry\<lparr>status := JOURNAL_STATUS_DONE\<rparr>))) FLASH_PAGE_SIZE st1 of
          (r, st2) \<Rightarrow> (if r = PICOKEYS_ERR_NO_MEMORY then PICOKEYS_EXEC_ERROR else PICOKEYS_OK, st2))"

text \<open>The loop walks down from the sector below \<open>last_base\<close> until a sector has a valid entry.\<close>

function recover_from :: "bool \<Rightarrow> nat \<Rightarrow> low_flash \<Rightarrow> pk_status \<times> low_flash" where
  "recover_from force journal_sector st =
     (if journal_sector < start_data_pool st then (PICOKEYS_ERR_MEMORY_FATAL, st)
      else case scan_entries force journal_sector entry_positions st of
        (found, Some pos) \<Rightarrow> restore_entry journal_sector pos st
      | (found, None) \<Rightarrow>
          if journal_sector < start_data_pool st + FLASH_SECTOR_SIZE then (PICOKEYS_ERR_MEMORY_FATAL, st)
          else if found then (PICOKEYS_ERR_NO_MEMORY, st)
          else recover_from force (journal_sector - FLASH_SECTOR_SIZE) st)"
  by pat_completeness auto
termination
  by (relation "measure (\<lambda>(force, journal_sector, st). journal_sector)") (auto simp: FLASH_SECTOR_SIZE_def)

declare recover_from.simps [simp del]

definition low_flash_recover_journal :: "bool \<Rightarrow> low_flash \<Rightarrow> pk_status \<times> low_flash" where
  "low_flash_recover_journal force st = recover_from force (journal_sector_of st) st"

text \<open>The first initialisation: both lists of files are empty, and the journal holds an entry that is done. The results of
  the programming are ignored.\<close>

definition low_flash_first_init :: "nat \<Rightarrow> low_flash \<Rightarrow> (pk_status \<times> low_flash) option" where
  "low_flash_first_init end_rom_pool st =
     (case flash_program_block (end_data_pool st) (replicate 8 0) st of None \<Rightarrow> None | Some (_, st1) \<Rightarrow>
      (case flash_program_block end_rom_pool (replicate 8 0) st1 of None \<Rightarrow> None | Some (_, st2) \<Rightarrow>
        let journal_sector = FLASH_SECTOR (end_data_pool st) - FLASH_SECTOR_SIZE;
            entry = blank_entry\<lparr>magic := JOURNAL_MAGIC, status := JOURNAL_STATUS_DONE,
              target_addr := (target_addr blank_entry)[0 := of_nat (FLASH_SECTOR (end_data_pool st))]\<rparr> in
        if journal_sector < start_data_pool st then Some (PICOKEYS_ERR_MEMORY_FATAL, st2)
        else (case flash_program_block journal_sector (journal_bytes entry) st2 of None \<Rightarrow> None | Some (_, st3) \<Rightarrow>
          Some (PICOKEYS_OK, st3\<lparr>last_journal_sector := journal_sector, journal_slot := 1\<rparr>))))"

definition low_flash_init_core1 :: "low_flash \<Rightarrow> low_flash" where
  "low_flash_init_core1 st = st\<lparr>locked_out := True\<rparr>"

section \<open>Invariant\<close>

lemma sector_pos: "0 < FLASH_SECTOR_SIZE" by (simp add: FLASH_SECTOR_SIZE_def)

lemma sector_le: "FLASH_SECTOR a \<le> a" by (simp add: FLASH_SECTOR_def)

lemma sector_offset: "a - FLASH_SECTOR a = a mod FLASH_SECTOR_SIZE" by (simp add: FLASH_SECTOR_def)

lemma sector_decomp: "a = FLASH_SECTOR a + a mod FLASH_SECTOR_SIZE" by (simp add: FLASH_SECTOR_def)

lemma sector_mod: "FLASH_SECTOR a mod FLASH_SECTOR_SIZE = 0" by (simp add: FLASH_SECTOR_def minus_mod_eq_mult_div)

lemma sector_eq: "s mod FLASH_SECTOR_SIZE = 0 \<Longrightarrow> FLASH_SECTOR a = s \<longleftrightarrow> s \<le> a \<and> a < s + FLASH_SECTOR_SIZE"
proof
  assume "s mod FLASH_SECTOR_SIZE = 0" "FLASH_SECTOR a = s"
  then show "s \<le> a \<and> a < s + FLASH_SECTOR_SIZE"
    using sector_decomp [of a] mod_less_divisor [OF sector_pos, of a] by linarith
next
  assume s: "s mod FLASH_SECTOR_SIZE = 0" and a: "s \<le> a \<and> a < s + FLASH_SECTOR_SIZE"
  then obtain k where k: "s = FLASH_SECTOR_SIZE * k" by (metis mod_0_imp_dvd dvdE)
  from a have "a mod FLASH_SECTOR_SIZE = a - s"
    by (metis k le_add_diff_inverse less_diff_conv2 add.commute mod_less mod_mult_self2)
  with a show "FLASH_SECTOR a = s" by (simp add: FLASH_SECTOR_def)
qed

definition used :: "page_flash \<Rightarrow> bool" where "used p \<longleftrightarrow> ready p \<or> erase p"

text \<open>Six pages, none waiting to be erased (nothing calls \<open>flash_erase_page\<close>), the ready ones on different
  sectors, and counted.\<close>

definition cache_wf :: "low_flash \<Rightarrow> bool" where
  "cache_wf st \<longleftrightarrow>
     length (flash_pages st) = TOTAL_FLASH_PAGES \<and> (\<forall>p \<in> set (flash_pages st). \<not> erase p \<and> (ready p \<longrightarrow> address p mod FLASH_SECTOR_SIZE = 0)) \<and>
     distinct (map address (filter ready (flash_pages st))) \<and> ready_pages st = length (filter ready (flash_pages st))"

definition journal_wf :: "low_flash \<Rightarrow> bool" where
  "journal_wf st \<longleftrightarrow> journal_slot st < FLASH_SECTOR_SIZE div JOURNAL_SIZE \<and>
     (journal_pending st \<or> journal_finalize_pending st \<longrightarrow> pending_journal_addr st + FLASH_PAGE_SIZE \<le> FLASH_SECTOR (last_base st))"

definition bounds :: "low_flash \<Rightarrow> nat \<times> nat \<times> nat \<times> bool \<times> nat" where
  "bounds st = (last_base st, start_data_pool st, end_data_pool st, locked_out st, patience st)"

text \<open>The page that holds a sector.\<close>

lemma find_index_filter:
  assumes "distinct (map address (filter ready ps))" "r < length ps" "ready (ps ! r)" "address (ps ! r) = s"
  shows "find (\<lambda>r. ready (ps ! r) \<and> address (ps ! r) = s) [0 ..< length ps] = Some r"
  using assms
proof (induction ps arbitrary: r rule: rev_induct)
  case (snoc p ps)
  show ?case
  proof (cases "r < length ps")
    case True
    with snoc have "find (\<lambda>r. ready (ps ! r) \<and> address (ps ! r) = s) [0 ..< length ps] = Some r"
      by (auto simp: nth_append split: if_splits)
    then show ?thesis by (auto simp: find_Some_iff nth_append)
  next
    case False
    with snoc.prems(2) have e: "r = length ps" by simp
    with snoc.prems have r: "r = length ps" "ready p" "address p = s" by simp_all
    have "\<not> (ready (ps ! j) \<and> address (ps ! j) = s)" if "j < length ps" for j
      using that snoc.prems(1) r by (auto simp: image_iff dest: nth_mem)
    with r show ?thesis by (auto simp: find_Some_iff nth_append)
  qed
qed simp

lemma flash_byte_ready:
  assumes "cache_wf st" "r < TOTAL_FLASH_PAGES" "ready (flash_pages st ! r)" "address (flash_pages st ! r) = FLASH_SECTOR a"
  shows "flash_byte st a = page (flash_pages st ! r) (a mod FLASH_SECTOR_SIZE)"
proof -
  have "find (\<lambda>r. ready (flash_pages st ! r) \<and> address (flash_pages st ! r) = FLASH_SECTOR a) [0 ..< TOTAL_FLASH_PAGES] = Some r"
    using find_index_filter [of "flash_pages st" r "FLASH_SECTOR a"] assms by (simp add: cache_wf_def)
  then show ?thesis by (simp add: flash_byte_def)
qed

lemma flash_byte_nor:
  assumes "\<And>r. r < TOTAL_FLASH_PAGES \<Longrightarrow> ready (flash_pages st ! r) \<Longrightarrow> address (flash_pages st ! r) \<noteq> FLASH_SECTOR a"
  shows "flash_byte st a = nor st a"
proof -
  have "find (\<lambda>r. ready (flash_pages st ! r) \<and> address (flash_pages st ! r) = FLASH_SECTOR a) [0 ..< TOTAL_FLASH_PAGES] = None"
    using assms by (auto simp: find_None_iff)
  then show ?thesis by (simp add: flash_byte_def)
qed

lemma flash_byte_cong: "flash_pages st' = flash_pages st \<Longrightarrow> nor st' a = nor st a \<Longrightarrow> flash_byte st' a = flash_byte st a"
  by (simp add: flash_byte_def cong: option.case_cong)

lemma flash_op_cases:
  assumes "flash_op f st = (r, st')"
  obtains (refused) os where "r = PICOKEYS_ERR_NO_MEMORY" "st' = st\<lparr>outcomes := os\<rparr>"
    | (performed) os where "r \<noteq> PICOKEYS_ERR_NO_MEMORY" "st' = st\<lparr>nor := f (nor st), outcomes := os\<rparr>"
proof -
  obtain x os where n: "next_op st = (x, st\<lparr>outcomes := os\<rparr>)"
  proof (cases "outcomes st")
    case Nil
    then have "st\<lparr>outcomes := []\<rparr> = st" by simp
    with Nil show thesis by (intro that [of Op_Done "[]"]) (simp add: next_op_def)
  qed (auto simp: next_op_def intro: that)
  have c: "st\<lparr>outcomes := os, nor := m\<rparr> = st\<lparr>nor := m, outcomes := os\<rparr>" for m by simp
  from n assms show thesis by (cases x) (auto simp: flash_op_def c intro: that)
qed

lemma flash_op_done: "outcomes st = [] \<Longrightarrow> flash_op f st = (PICOKEYS_OK, st\<lparr>nor := f (nor st)\<rparr>)"
  by (simp add: flash_op_def next_op_def)

lemma and_ones [simp]: "(255 :: byte) AND x = x"
  by (rule bit_eqI) (auto simp: bit_simps numeral_eq_Suc less_Suc_eq)

lemma erase_program_byte:
  "(flash_range_program s d FLASH_SECTOR_SIZE \<circ> flash_range_erase s) m a =
     (if s \<le> a \<and> a < s + FLASH_SECTOR_SIZE then d (a - s) else m a)"
  by (simp add: flash_range_program_def flash_range_erase_def)

definition journal_fields :: "low_flash \<Rightarrow> nat \<times> nat \<times> bool \<times> bool \<times> nat" where
  "journal_fields st = (journal_slot st, last_journal_sector st, journal_pending st, journal_finalize_pending st, pending_journal_addr st)"

lemma filter_split:
  assumes "r < length ps"
  shows "filter ready ps = filter ready (take r ps) @ (if ready (ps ! r) then [ps ! r] else []) @ filter ready (drop (Suc r) ps)"
    "filter ready (ps[r := q]) = filter ready (take r ps) @ (if ready q then [q] else []) @ filter ready (drop (Suc r) ps)"
  by (subst id_take_nth_drop [OF assms], simp) (simp add: upd_conv_take_nth_drop [OF assms])

text \<open>One sector reaches the flash and leaves the cache.\<close>

definition drained :: "nat \<Rightarrow> op_outcome list \<Rightarrow> low_flash \<Rightarrow> low_flash" where
  "drained r os st =
     (let p = flash_pages st ! r in
      st\<lparr>nor := (flash_range_program (address p) (page p) FLASH_SECTOR_SIZE \<circ> flash_range_erase (address p)) (nor st),
         outcomes := os, flash_pages := (flash_pages st)[r := p\<lparr>ready := False\<rparr>], ready_pages := ready_pages st - 1\<rparr>)"

lemma ready_sector:
  assumes "cache_wf st" "r < TOTAL_FLASH_PAGES" "ready (flash_pages st ! r)"
  shows "FLASH_SECTOR a = address (flash_pages st ! r) \<longleftrightarrow> address (flash_pages st ! r) \<le> a \<and> a < address (flash_pages st ! r) + FLASH_SECTOR_SIZE"
  using assms nth_mem [of r "flash_pages st"] by (intro sector_eq) (auto simp: cache_wf_def)

lemma ready_apart:
  assumes "cache_wf st" "i < TOTAL_FLASH_PAGES" "j < TOTAL_FLASH_PAGES" "i \<noteq> j" "ready (flash_pages st ! i)" "ready (flash_pages st ! j)"
  shows "address (flash_pages st ! i) \<noteq> address (flash_pages st ! j)"
proof
  assume e: "address (flash_pages st ! i) = address (flash_pages st ! j)"
  have d: "distinct (map address (filter ready (flash_pages st)))" "length (flash_pages st) = TOTAL_FLASH_PAGES"
    using assms(1) by (simp_all add: cache_wf_def)
  from find_index_filter [OF d(1), of i] find_index_filter [OF d(1), of j] assms d(2) e show False by simp
qed

lemma drained_law:
  assumes "cache_wf st" "r < TOTAL_FLASH_PAGES" "ready (flash_pages st ! r)"
  shows "cache_wf (drained r os st)" "flash_byte (drained r os st) a = flash_byte st a"
    "nor (drained r os st) a = nor st a \<or> nor (drained r os st) a = flash_byte st a"
proof -
  let ?p = "flash_pages st ! r" and ?st = "drained r os st"
  have l: "length (flash_pages st) = TOTAL_FLASH_PAGES" using assms(1) by (simp add: cache_wf_def)
  then have rl: "r < length (flash_pages st)" using assms(2) by simp
  show wf: "cache_wf ?st"
    using assms(1,3) nth_mem [OF rl] filter_split [OF rl] set_update_subset_insert [of "flash_pages st" r "?p\<lparr>ready := False\<rparr>"]
    by (auto simp: cache_wf_def drained_def Let_def)
  have n: "nor ?st a = (if FLASH_SECTOR a = address ?p then page ?p (a mod FLASH_SECTOR_SIZE) else nor st a)" for a
    unfolding ready_sector [OF assms] drained_def Let_def
    using sector_offset [of a] ready_sector [OF assms, of a]
    by (auto simp: flash_range_program_def flash_range_erase_def)
  have pages: "flash_pages ?st ! i = (if i = r then ?p\<lparr>ready := False\<rparr> else flash_pages st ! i)" for i
    using rl by (simp add: drained_def Let_def nth_list_update)
  show "flash_byte ?st a = flash_byte st a"
  proof (cases "\<exists>i < TOTAL_FLASH_PAGES. ready (flash_pages st ! i) \<and> address (flash_pages st ! i) = FLASH_SECTOR a")
    case True
    then obtain i where i: "i < TOTAL_FLASH_PAGES" "ready (flash_pages st ! i)" "address (flash_pages st ! i) = FLASH_SECTOR a" by blast
    show ?thesis
    proof (cases "i = r")
      case True
      have "address (flash_pages ?st ! j) \<noteq> FLASH_SECTOR a" if "j < TOTAL_FLASH_PAGES" "ready (flash_pages ?st ! j)" for j
      proof (cases "j = r")
        case True then show ?thesis using that(2) by (simp add: pages)
      next
        case False
        then show ?thesis using ready_apart [OF assms(1) that(1) i(1)] that(2) i(2,3) \<open>i = r\<close> by (simp add: pages)
      qed
      then have "flash_byte ?st a = nor ?st a" by (rule flash_byte_nor)
      then show ?thesis using n [of a] i True flash_byte_ready [OF assms(1) i] by simp
    next
      case False
      with i have "flash_byte ?st a = page (flash_pages ?st ! i) (a mod FLASH_SECTOR_SIZE)"
        by (intro flash_byte_ready [OF wf i(1)]) (simp_all add: pages)
      with False show ?thesis using flash_byte_ready [OF assms(1) i] by (simp add: pages)
    qed
  next
    case False
    then have "flash_byte ?st a = nor ?st a" by (intro flash_byte_nor) (auto simp: pages)
    moreover have "flash_byte st a = nor st a" using False by (intro flash_byte_nor) auto
    moreover have "FLASH_SECTOR a \<noteq> address ?p" using False assms(2,3) by auto
    ultimately show ?thesis using n [of a] by simp
  qed
  show "nor ?st a = nor st a \<or> nor ?st a = flash_byte st a"
    using n [of a] flash_byte_ready [OF assms(1-3), of a] by auto
qed

lemma drain_law:
  assumes "drain r ps st = (ok, st')" "cache_wf st" "ps = drop r (flash_pages st)"
  shows "cache_wf st' \<and> bounds st' = bounds st \<and> journal_fields st' = journal_fields st \<and> flash_available st' = flash_available st \<and>
    (\<forall>a. flash_byte st' a = flash_byte st a) \<and> (\<forall>a. nor st' a = nor st a \<or> nor st' a = flash_byte st a) \<and>
    (\<forall>i < r. flash_pages st' ! i = flash_pages st ! i) \<and>
    (ok \<longrightarrow> (\<forall>i < TOTAL_FLASH_PAGES. r \<le> i \<longrightarrow> \<not> ready (flash_pages st' ! i)))"
  using assms
proof (induction ps arbitrary: r st)
  case Nil
  then have "TOTAL_FLASH_PAGES \<le> r" by (simp add: cache_wf_def)
  with Nil show ?case by auto
next
  case (Cons p ps)
  have rl: "r < length (flash_pages st)" using Cons.prems(3) by (metis drop_eq_Nil list.distinct(1) not_le)
  then have r6: "r < TOTAL_FLASH_PAGES" using Cons.prems(2) by (simp add: cache_wf_def)
  have "p # ps = flash_pages st ! r # drop (Suc r) (flash_pages st)"
    using Cons.prems(3) Cons_nth_drop_Suc [OF rl] by metis
  then have p: "p = flash_pages st ! r" "ps = drop (Suc r) (flash_pages st)" by simp_all
  have ne: "\<not> erase p" using Cons.prems(2) nth_mem [OF rl] p(1) by (simp add: cache_wf_def)
  show ?case
  proof (cases "ready p")
    case False
    with Cons.prems(1) ne have d: "drain (Suc r) ps st = (ok, st')" by simp
    from Cons.IH [OF d Cons.prems(2) p(2)] have ih: "cache_wf st' \<and> bounds st' = bounds st \<and> journal_fields st' = journal_fields st \<and> flash_available st' = flash_available st \<and>
        (\<forall>a. flash_byte st' a = flash_byte st a) \<and> (\<forall>a. nor st' a = nor st a \<or> nor st' a = flash_byte st a) \<and>
        (\<forall>i < Suc r. flash_pages st' ! i = flash_pages st ! i) \<and>
        (ok \<longrightarrow> (\<forall>i < TOTAL_FLASH_PAGES. Suc r \<le> i \<longrightarrow> \<not> ready (flash_pages st' ! i)))" .
    with False p(1) show ?thesis by (metis le_antisym less_Suc_eq not_less_eq_eq)
  next
    case True
    obtain ret st1 where o: "do_flash_op_erase_program (address p) (page p) FLASH_SECTOR_SIZE st = (ret, st1)" by fastforce
    show ?thesis
    proof (cases rule: flash_op_cases [OF o [unfolded do_flash_op_erase_program_def]])
      case (1 os)
      with Cons.prems(1) True o have "ok = False" "st' = st\<lparr>outcomes := os\<rparr>" by simp_all
      moreover from this have "flash_byte st' a = flash_byte st a" for a by (intro flash_byte_cong) simp_all
      ultimately show ?thesis using Cons.prems(2) by (simp add: cache_wf_def bounds_def journal_fields_def)
    next
      case (2 os)
      let ?st = "drained r os st"
      have e: "st1\<lparr>flash_pages := (flash_pages st1)[r := p\<lparr>ready := False\<rparr>], ready_pages := ready_pages st1 - 1\<rparr> = ?st"
        by (simp add: 2 drained_def Let_def p(1))
      with Cons.prems(1) True o 2(1) have d: "drain (Suc r) ps ?st = (ok, st')" by simp
      note dl = drained_law [OF Cons.prems(2) r6 True [unfolded p(1)], of os]
      have "ps = drop (Suc r) (flash_pages ?st)" by (simp add: p(2) drained_def Let_def)
      from Cons.IH [OF d dl(1) this] dl(2,3)
      have ih: "cache_wf st' \<and> bounds st' = bounds ?st \<and> journal_fields st' = journal_fields ?st \<and> flash_available st' = flash_available ?st \<and>
        (\<forall>a. flash_byte st' a = flash_byte st a) \<and> (\<forall>a. nor st' a = nor st a \<or> nor st' a = flash_byte st a) \<and>
        (\<forall>i < Suc r. flash_pages st' ! i = flash_pages ?st ! i) \<and>
        (ok \<longrightarrow> (\<forall>i < TOTAL_FLASH_PAGES. Suc r \<le> i \<longrightarrow> \<not> ready (flash_pages st' ! i)))" by metis
      have pg: "flash_pages ?st ! i = (if i = r then p\<lparr>ready := False\<rparr> else flash_pages st ! i)" for i
        using rl by (simp add: drained_def Let_def nth_list_update p(1))
      have "\<forall>i < TOTAL_FLASH_PAGES. r \<le> i \<longrightarrow> \<not> ready (flash_pages st' ! i)" if ok
      proof (intro allI impI)
        fix i assume "i < TOTAL_FLASH_PAGES" "r \<le> i"
        then show "\<not> ready (flash_pages st' ! i)" using ih that pg [of r] by (cases "i = r") auto
      qed
      with ih pg show ?thesis
        by (simp add: drained_def Let_def bounds_def journal_fields_def)
    qed
  qed
qed

text \<open>The journal is below the data: what is at \<open>last_base\<close>'s sector and above stays as it is.\<close>

definition cache_same :: "low_flash \<Rightarrow> low_flash \<Rightarrow> bool" where
  "cache_same st st' \<longleftrightarrow> flash_pages st' = flash_pages st \<and> ready_pages st' = ready_pages st \<and> bounds st' = bounds st \<and>
     flash_available st' = flash_available st"

lemma cache_sameD:
  "cache_same st st' \<Longrightarrow> cache_wf st \<Longrightarrow> cache_wf st'"
  "cache_same st st' \<Longrightarrow> last_base st' = last_base st \<and> start_data_pool st' = start_data_pool st \<and> end_data_pool st' = end_data_pool st \<and>
     locked_out st' = locked_out st \<and> patience st' = patience st \<and> flash_pages st' = flash_pages st \<and> ready_pages st' = ready_pages st \<and>
     flash_available st' = flash_available st"
  "cache_same st st' \<Longrightarrow> nor st' a = nor st a \<Longrightarrow> flash_byte st' a = flash_byte st a"
  by (auto simp: cache_same_def cache_wf_def bounds_def intro: flash_byte_cong)

lemma cache_same_trans: "cache_same s t \<Longrightarrow> cache_same t u \<Longrightarrow> cache_same s u"
  by (simp add: cache_same_def)

lemma cache_same_refl [simp]: "cache_same s s" by (simp add: cache_same_def)

lemma flash_op_same: "flash_op f st = (r, st') \<Longrightarrow> cache_same st st' \<and> journal_fields st' = journal_fields st"
  by (erule flash_op_cases) (simp_all add: cache_same_def bounds_def journal_fields_def)

lemma mark_done_law:
  assumes "journal_mark_done st = (r, st')"
  shows "cache_same st st'" "a < pending_journal_addr st \<or> pending_journal_addr st + FLASH_PAGE_SIZE \<le> a \<Longrightarrow> nor st' a = nor st a"
    "r = PICOKEYS_ERR_NO_MEMORY \<Longrightarrow> journal_fields st' = journal_fields st \<and> nor st' = nor st"
    "r \<noteq> PICOKEYS_ERR_NO_MEMORY \<Longrightarrow> \<not> journal_pending st' \<and> \<not> journal_finalize_pending st' \<and>
       journal_slot st' = (journal_slot st + 1) mod (FLASH_SECTOR_SIZE div JOURNAL_SIZE) \<and> last_journal_sector st' = last_journal_sector st"
proof -
  let ?d = "entry_page (journal_slot st * JOURNAL_SIZE mod FLASH_PAGE_SIZE) (journal_bytes (blank_entry\<lparr>status := JOURNAL_STATUS_DONE\<rparr>))"
  obtain r1 st1 where o: "do_flash_op_program (pending_journal_addr st) ?d FLASH_PAGE_SIZE st = (r1, st1)" by fastforce
  have s: "st' = (if r1 = PICOKEYS_ERR_NO_MEMORY then st1 else st1\<lparr>journal_pending := False, journal_finalize_pending := False,
                   journal_slot := (journal_slot st1 + 1) mod (FLASH_SECTOR_SIZE div JOURNAL_SIZE)\<rparr>)" "r = r1"
    using assms o by (auto simp: journal_mark_done_def Let_def split: if_splits)
  have "cache_same st st1" "journal_fields st1 = journal_fields st" using flash_op_same o unfolding do_flash_op_program_def by blast+
  then show "cache_same st st'" by (simp add: s cache_same_def bounds_def)
  have n: "nor st' = nor st1" by (simp add: s)
  show "a < pending_journal_addr st \<or> pending_journal_addr st + FLASH_PAGE_SIZE \<le> a \<Longrightarrow> nor st' a = nor st a"
    using o unfolding do_flash_op_program_def n by (elim flash_op_cases) (auto simp: flash_range_program_def)
  show "r = PICOKEYS_ERR_NO_MEMORY \<Longrightarrow> journal_fields st' = journal_fields st \<and> nor st' = nor st"
    using o s unfolding do_flash_op_program_def by (elim flash_op_cases) (auto simp: journal_fields_def)
  show "r \<noteq> PICOKEYS_ERR_NO_MEMORY \<Longrightarrow> \<not> journal_pending st' \<and> \<not> journal_finalize_pending st' \<and>
       journal_slot st' = (journal_slot st + 1) mod (FLASH_SECTOR_SIZE div JOURNAL_SIZE) \<and> last_journal_sector st' = last_journal_sector st"
    using s \<open>journal_fields st1 = journal_fields st\<close> by (simp add: journal_fields_def)
qed

definition redo_done :: "low_flash \<Rightarrow> nat \<Rightarrow> nat \<Rightarrow> u32 list \<Rightarrow> u32 list \<Rightarrow> nat \<Rightarrow> page_flash \<Rightarrow> bool" where
  "redo_done st start redo targets targets' n p \<longleftrightarrow>
     (if ready p
      then start + n * FLASH_SECTOR_SIZE \<le> redo \<and> targets' ! n = of_nat (address p) \<and>
        (\<forall>k < FLASH_SECTOR_SIZE. nor st (redo - n * FLASH_SECTOR_SIZE + k) = page p k)
      else targets' ! n = targets ! n)"

lemma write_redo_law:
  assumes "write_redo i ps redo targets st = ((ok, targets'), st')" "i + length ps \<le> length targets"
  shows "cache_same st st' \<and> journal_fields st' = journal_fields st \<and> (\<forall>a. redo + FLASH_SECTOR_SIZE \<le> a + i * FLASH_SECTOR_SIZE \<longrightarrow> nor st' a = nor st a) \<and>
    length targets' = length targets \<and> (\<forall>j < i. targets' ! j = targets ! j) \<and>
    (ok \<longrightarrow> (\<forall>j < length ps. redo_done st' (start_data_pool st) redo targets targets' (i + j) (ps ! j)))"
  using assms
proof (induction ps arbitrary: i targets st)
  case (Cons p ps)
  show ?case
  proof (cases "ready p")
    case False
    with Cons.prems have "write_redo (Suc i) ps redo targets st = ((ok, targets'), st')" "Suc i + length ps \<le> length targets" by simp_all
    note ih = Cons.IH [OF this]
    then have "redo_done st' (start_data_pool st) redo targets targets' i p" using False by (simp add: redo_done_def)
    moreover have "\<forall>j < i. targets' ! j = targets ! j" using ih by simp
    ultimately show ?thesis using ih by (simp only: All_less_Suc2 length_Cons) simp
  next
    case True
    show ?thesis
    proof (cases "redo < start_data_pool st + i * FLASH_SECTOR_SIZE")
      case True
      with Cons.prems \<open>ready p\<close> show ?thesis by (simp add: Let_def)
    next
      case False
      let ?s = "redo - i * FLASH_SECTOR_SIZE" and ?t = "targets[i := of_nat (address p)]"
      obtain r st1 where o: "do_flash_op_erase_program ?s (page p) FLASH_SECTOR_SIZE st = (r, st1)" by fastforce
      note same = flash_op_same [OF o [unfolded do_flash_op_erase_program_def]]
      show ?thesis
      proof (cases rule: flash_op_cases [OF o [unfolded do_flash_op_erase_program_def]])
        case (1 os)
        with Cons.prems True False o same show ?thesis by (simp add: Let_def) (auto simp: 1)
      next
        case (2 os)
        with Cons.prems True False o
        have "write_redo (Suc i) ps redo ?t st1 = ((ok, targets'), st')" "Suc i + length ps \<le> length ?t"
          by (simp_all add: Let_def)
        note ih = Cons.IH [OF this]
        have n: "nor st1 a = (if ?s \<le> a \<and> a < ?s + FLASH_SECTOR_SIZE then page p (a - ?s) else nor st a)" for a
          by (simp add: 2 flash_range_program_def flash_range_erase_def)
        have b: "start_data_pool st1 = start_data_pool st" using same by (simp add: cache_same_def bounds_def)
        have le: "i * FLASH_SECTOR_SIZE \<le> redo" using False by simp
        have keep: "nor st' a = nor st a" if "redo + FLASH_SECTOR_SIZE \<le> a + i * FLASH_SECTOR_SIZE" for a
        proof -
          have "nor st' a = nor st1 a" using ih that by simp
          then show ?thesis using n [of a] that le by auto
        qed
        have mine: "nor st' (?s + k) = page p k" if "k < FLASH_SECTOR_SIZE" for k
        proof -
          have "nor st' (?s + k) = nor st1 (?s + k)" using ih le by simp
          then show ?thesis using n [of "?s + k"] that by simp
        qed
        have ti: "targets' ! i = of_nat (address p)" using ih Cons.prems(2) by simp
        have first: "redo_done st' (start_data_pool st) redo targets targets' i p"
          using mine ti True False by (simp add: redo_done_def)
        have rest: "redo_done st' (start_data_pool st) redo targets targets' (Suc (i + j)) (ps ! j)" if ok "j < length ps" for j
        proof -
          have "redo_done st' (start_data_pool st1) redo ?t targets' (Suc i + j) (ps ! j)" using ih that by simp
          moreover have "?t ! Suc (i + j) = targets ! Suc (i + j)" by simp
          ultimately show ?thesis unfolding redo_done_def b add_Suc by metis
        qed
        have "cache_same st st' \<and> journal_fields st' = journal_fields st" "length targets' = length targets" "\<forall>j < i. targets' ! j = targets ! j"
          using ih same cache_same_trans [of st st1 st'] by auto
        with keep first rest show ?thesis by (simp add: All_less_Suc2)
      qed
    qed
  qed
qed simp

lemma flash_sizes: "FLASH_SECTOR_SIZE div JOURNAL_SIZE = 128" "FLASH_SECTOR_SIZE = 4096" "FLASH_PAGE_SIZE = 256" "JOURNAL_SIZE = 32" "TOTAL_FLASH_PAGES = 6"
  by (simp_all add: FLASH_SECTOR_SIZE_def JOURNAL_SIZE_def FLASH_PAGE_SIZE_def TOTAL_FLASH_PAGES_def)

definition journal_page :: "nat \<Rightarrow> nat" where
  "journal_page slot = (slot * JOURNAL_SIZE div FLASH_PAGE_SIZE) * FLASH_PAGE_SIZE"

lemma journal_page_law:
  assumes "slot < FLASH_SECTOR_SIZE div JOURNAL_SIZE"
  shows "journal_page slot + FLASH_PAGE_SIZE \<le> FLASH_SECTOR_SIZE" "journal_page slot + slot * JOURNAL_SIZE mod FLASH_PAGE_SIZE = slot * JOURNAL_SIZE"
    "slot * JOURNAL_SIZE mod FLASH_PAGE_SIZE + JOURNAL_SIZE \<le> FLASH_PAGE_SIZE"
proof -
  have "slot * 32 div 256 \<le> 15" using assms by (simp add: flash_sizes)
  then show "journal_page slot + FLASH_PAGE_SIZE \<le> FLASH_SECTOR_SIZE" by (simp add: journal_page_def flash_sizes)
  show "journal_page slot + slot * JOURNAL_SIZE mod FLASH_PAGE_SIZE = slot * JOURNAL_SIZE"
    by (simp add: journal_page_def)
  have "slot * 32 mod 256 = 32 * (slot mod 8)" by (simp add: mult.commute [of slot] mult_mod_right)
  moreover have "slot mod 8 \<le> 7" by simp
  ultimately show "slot * JOURNAL_SIZE mod FLASH_PAGE_SIZE + JOURNAL_SIZE \<le> FLASH_PAGE_SIZE" by (simp add: flash_sizes)
qed

lemma open_sector_law:
  assumes "open_sector J st = (ok, st')" "journal_wf st"
  shows "cache_same st st'" "a < J \<or> J + FLASH_SECTOR_SIZE \<le> a \<Longrightarrow> nor st' a = nor st a"
    "journal_pending st' = journal_pending st \<and> journal_finalize_pending st' = journal_finalize_pending st \<and> pending_journal_addr st' = pending_journal_addr st"
    "journal_slot st' < FLASH_SECTOR_SIZE div JOURNAL_SIZE" "ok \<Longrightarrow> last_journal_sector st' = J"
    "\<not> ok \<Longrightarrow> nor st' = nor st \<and> journal_fields st' = journal_fields st"
    "J = last_journal_sector st \<Longrightarrow> journal_slot st \<noteq> 0 \<Longrightarrow> ok \<and> st' = st"
proof -
  have s0: "(0 :: nat) < FLASH_SECTOR_SIZE div JOURNAL_SIZE" "journal_slot st < FLASH_SECTOR_SIZE div JOURNAL_SIZE"
    using assms(2) by (simp_all add: flash_sizes journal_wf_def)
  obtain r st1 where o: "do_flash_op_erase J st = (r, st1)" by fastforce
  note same = flash_op_same [OF o [unfolded do_flash_op_erase_def]]
  have "cache_same st st' \<and> (a < J \<or> J + FLASH_SECTOR_SIZE \<le> a \<longrightarrow> nor st' a = nor st a) \<and>
    (journal_pending st' = journal_pending st \<and> journal_finalize_pending st' = journal_finalize_pending st \<and> pending_journal_addr st' = pending_journal_addr st) \<and>
    journal_slot st' < FLASH_SECTOR_SIZE div JOURNAL_SIZE \<and> (ok \<longrightarrow> last_journal_sector st' = J) \<and>
    (\<not> ok \<longrightarrow> nor st' = nor st \<and> journal_fields st' = journal_fields st) \<and>
    (J = last_journal_sector st \<longrightarrow> journal_slot st \<noteq> 0 \<longrightarrow> ok \<and> st' = st)"
  proof (cases "J \<noteq> last_journal_sector st \<or> journal_slot st = 0")
    case False
    with assms(1) s0 show ?thesis by (auto simp: open_sector_def)
  next
    case True
    show ?thesis
    proof (cases rule: flash_op_cases [OF o [unfolded do_flash_op_erase_def]])
      case (1 os)
      with True assms(1) o same s0 show ?thesis by (auto simp: open_sector_def journal_fields_def)
    next
      case (2 os)
      with True assms(1) o have e: "ok" "st' = st1\<lparr>last_journal_sector := J, journal_slot := 0\<rparr>" by (auto simp: open_sector_def)
      have "nor st1 a = nor st a" if "a < J \<or> J + FLASH_SECTOR_SIZE \<le> a"
        using that by (auto simp: 2 flash_range_erase_def)
      with e same s0 True show ?thesis by (auto simp: journal_fields_def cache_same_def bounds_def)
    qed
  qed
  then show "cache_same st st'" "a < J \<or> J + FLASH_SECTOR_SIZE \<le> a \<Longrightarrow> nor st' a = nor st a"
    "journal_pending st' = journal_pending st \<and> journal_finalize_pending st' = journal_finalize_pending st \<and> pending_journal_addr st' = pending_journal_addr st"
    "journal_slot st' < FLASH_SECTOR_SIZE div JOURNAL_SIZE" "ok \<Longrightarrow> last_journal_sector st' = J"
    "\<not> ok \<Longrightarrow> nor st' = nor st \<and> journal_fields st' = journal_fields st"
    "J = last_journal_sector st \<Longrightarrow> journal_slot st \<noteq> 0 \<Longrightarrow> ok \<and> st' = st" by blast+
qed

text \<open>The journal entry, once its first half is written, and once it is pending.\<close>

lemma enter_journal_law:
  assumes "enter_journal J targets st = (ok, st')" "journal_slot st < FLASH_SECTOR_SIZE div JOURNAL_SIZE"
  shows "cache_same st st'" "a < J \<or> J + FLASH_SECTOR_SIZE \<le> a \<Longrightarrow> nor st' a = nor st a"
    "journal_slot st' = journal_slot st \<and> last_journal_sector st' = last_journal_sector st \<and> journal_finalize_pending st' = journal_finalize_pending st"
    "ok \<Longrightarrow> journal_pending st' \<and> pending_journal_addr st' = J + journal_page (journal_slot st)"
    "\<not> ok \<Longrightarrow> journal_fields st' = journal_fields st"
proof -
  let ?a = "J + journal_page (journal_slot st)" and ?off = "journal_slot st * JOURNAL_SIZE mod FLASH_PAGE_SIZE"
  let ?d1 = "entry_page ?off (journal_bytes \<lparr>magic = JOURNAL_MAGIC, target_addr = targets, status = JOURNAL_STATUS_EMPTY\<rparr>)"
  let ?d2 = "entry_page ?off (journal_bytes (blank_entry\<lparr>status := JOURNAL_STATUS_PENDING\<rparr>))"
  obtain r1 st1 where o1: "do_flash_op_program ?a ?d1 FLASH_PAGE_SIZE st = (r1, st1)" by fastforce
  obtain r2 st2 where o2: "do_flash_op_program ?a ?d2 FLASH_PAGE_SIZE st1 = (r2, st2)" by fastforce
  note same1 = flash_op_same [OF o1 [unfolded do_flash_op_program_def]] and same2 = flash_op_same [OF o2 [unfolded do_flash_op_program_def]]
  have js: "journal_slot st1 = journal_slot st" using same1 by (simp add: journal_fields_def)
  have e: "ok = (r1 \<noteq> PICOKEYS_ERR_NO_MEMORY \<and> r2 \<noteq> PICOKEYS_ERR_NO_MEMORY)"
    "st' = (if r1 = PICOKEYS_ERR_NO_MEMORY then st1 else if r2 = PICOKEYS_ERR_NO_MEMORY then st2
       else st2\<lparr>journal_pending := True, pending_journal_addr := ?a\<rparr>)"
    using assms(1) o1 o2 by (auto simp: enter_journal_def Let_def journal_page_def split: if_splits)
  show "cache_same st st'" using same1 same2 by (auto simp: e cache_same_def bounds_def)
  have prog: "nor t' a = nor t a" if "do_flash_op_program ?a d FLASH_PAGE_SIZE t = (r, t')" "a < ?a \<or> ?a + FLASH_PAGE_SIZE \<le> a" for d r t t' a
    using that unfolding do_flash_op_program_def by (elim flash_op_cases) (auto simp: flash_range_program_def)
  show "a < J \<or> J + FLASH_SECTOR_SIZE \<le> a \<Longrightarrow> nor st' a = nor st a"
    using prog [OF o1, of a] prog [OF o2, of a] journal_page_law(1) [OF assms(2)] by (auto simp: e)
  show "journal_slot st' = journal_slot st \<and> last_journal_sector st' = last_journal_sector st \<and> journal_finalize_pending st' = journal_finalize_pending st"
    "ok \<Longrightarrow> journal_pending st' \<and> pending_journal_addr st' = ?a" "\<not> ok \<Longrightarrow> journal_fields st' = journal_fields st"
    using same1 same2 by (auto simp: e journal_fields_def)
qed

lemma write_journal_law:
  assumes "write_journal st = (ok, st')" "cache_wf st" "journal_wf st" "\<not> journal_pending st" "\<not> journal_finalize_pending st"
  shows "cache_same st st' \<and> journal_wf st' \<and> (\<forall>a \<ge> FLASH_SECTOR (last_base st). nor st' a = nor st a) \<and> (ok \<longrightarrow> journal_pending st')"
proof (cases "journal_sector_of st < start_data_pool st + FLASH_SECTOR_SIZE")
  case True
  with assms show ?thesis by (simp add: write_journal_def Let_def)
next
  case False
  note room = False
  let ?J = "journal_sector_of st"
  have J: "?J + FLASH_SECTOR_SIZE = FLASH_SECTOR (last_base st)" "FLASH_SECTOR_SIZE \<le> ?J" using False sector_pos by (simp_all add: journal_sector_of_def)
  obtain ok1 st1 where s1: "open_sector ?J st = (ok1, st1)" by fastforce
  note o = open_sector_law [OF s1 assms(3)]
  have jf: "\<not> journal_pending st1" "\<not> journal_finalize_pending st1" using o(3) assms(4,5) by simp_all
  have n1: "\<forall>a \<ge> FLASH_SECTOR (last_base st). nor st1 a = nor st a" using o(2) J by auto
  show ?thesis
  proof (cases ok1)
    case False
    with assms(1) s1 room have "ok = False" "st' = st1" by (simp_all add: write_journal_def Let_def)
    with o(1,4) jf n1 show ?thesis by (simp add: journal_wf_def)
  next
    case True
    let ?ts = "replicate TOTAL_FLASH_PAGES 0xffffffff :: u32 list"
    obtain ok2 targets st2 where s2: "write_redo 0 (flash_pages st1) (?J - FLASH_SECTOR_SIZE) ?ts st1 = ((ok2, targets), st2)" by (metis prod.exhaust)
    have len: "0 + length (flash_pages st1) \<le> length ?ts" using cache_sameD(1,2) [OF o(1)] assms(2) by (simp add: cache_wf_def)
    note w = write_redo_law [OF s2 len]
    have n2: "\<forall>a \<ge> FLASH_SECTOR (last_base st). nor st2 a = nor st a" using w n1 J by auto
    have same2: "cache_same st st2" using o(1) w cache_same_trans by blast
    have jf2: "\<not> journal_pending st2" "\<not> journal_finalize_pending st2" "journal_slot st2 < FLASH_SECTOR_SIZE div JOURNAL_SIZE"
      using w jf o(4) by (simp_all add: journal_fields_def)
    show ?thesis
    proof (cases ok2)
      case False
      with assms(1) s1 s2 room \<open>ok1\<close> have "ok = False" "st' = st2" by (simp_all add: write_journal_def Let_def)
      with same2 jf2 n2 show ?thesis by (simp add: journal_wf_def)
    next
      case True
      with assms(1) s1 s2 room \<open>ok1\<close> have s3: "enter_journal ?J targets st2 = (ok, st')" by (simp add: write_journal_def Let_def)
      note e = enter_journal_law [OF s3 jf2(3)]
      have "\<forall>a \<ge> FLASH_SECTOR (last_base st). nor st' a = nor st a" using e(2) n2 J by auto
      moreover have same: "cache_same st st'" using same2 e(1) cache_same_trans by blast
      moreover have "journal_wf st'"
        using e jf2 J journal_page_law(1) [OF jf2(3)] cache_sameD(2) [OF same] by (cases ok) (auto simp: journal_wf_def journal_fields_def)
      ultimately show ?thesis using e(4) by blast
    qed
  qed
qed

text \<open>What every step of the other core keeps.\<close>

definition data_kept :: "low_flash \<Rightarrow> low_flash \<Rightarrow> bool" where
  "data_kept st st' \<longleftrightarrow> cache_wf st' \<and> journal_wf st' \<and> bounds st' = bounds st \<and>
     (\<forall>a \<ge> FLASH_SECTOR (last_base st). flash_byte st' a = flash_byte st a)"

lemma data_kept_trans: "data_kept s t \<Longrightarrow> data_kept t u \<Longrightarrow> data_kept s u"
  by (simp add: data_kept_def bounds_def)

lemma mark_done_kept:
  assumes "journal_mark_done st = (r, st')" "cache_wf st" "journal_wf st" "journal_pending st \<or> journal_finalize_pending st"
  shows "data_kept st st' \<and> flash_available st' = flash_available st \<and> ready_pages st' = ready_pages st"
proof -
  note m = mark_done_law [OF assms(1)]
  have p: "pending_journal_addr st + FLASH_PAGE_SIZE \<le> FLASH_SECTOR (last_base st)" using assms(3,4) by (auto simp: journal_wf_def)
  have f: "flash_byte st' a = flash_byte st a" if "FLASH_SECTOR (last_base st) \<le> a" for a
    by (rule cache_sameD(3) [OF m(1) m(2)]) (use p that in simp)
  have "journal_wf st'"
  proof (cases "r = PICOKEYS_ERR_NO_MEMORY")
    case True
    then show ?thesis using m(3) assms(3) cache_sameD(2) [OF m(1)] by (simp add: journal_wf_def journal_fields_def)
  next
    case False
    then show ?thesis using m(4) by (simp add: journal_wf_def flash_sizes)
  qed
  with f cache_sameD(1,2) [OF m(1)] assms(2) show ?thesis by (simp add: data_kept_def bounds_def)
qed

lemma finish_task_kept:
  "cache_wf st \<Longrightarrow> journal_wf st \<Longrightarrow> data_kept st (finish_task st) \<and> (\<not> flash_available (finish_task st) \<longrightarrow> flash_available st \<longrightarrow> ready_pages (finish_task st) = 0)"
  by (auto simp: finish_task_def data_kept_def cache_wf_def journal_wf_def bounds_def intro!: flash_byte_cong)

lemma drain_pages_kept:
  assumes "cache_wf st" "journal_wf st" "journal_pending st"
  shows "data_kept st (drain_pages st) \<and> (\<not> flash_available (drain_pages st) \<longrightarrow> flash_available st \<longrightarrow> ready_pages (drain_pages st) = 0)"
proof -
  obtain ok st1 where d: "drain 0 (flash_pages st) st = (ok, st1)" by fastforce
  have dl: "cache_wf st1" "bounds st1 = bounds st" "journal_fields st1 = journal_fields st" "flash_available st1 = flash_available st"
    "\<forall>a. flash_byte st1 a = flash_byte st a"
    using drain_law [OF d assms(1)] by simp_all
  have k1: "journal_wf st1" "journal_pending st1" "data_kept st st1"
    using dl assms(2,3) by (auto simp: journal_wf_def journal_fields_def bounds_def data_kept_def)
  show ?thesis
  proof (cases "ok \<and> ready_pages st1 = 0")
    case False
    then have "drain_pages st = finish_task st1" using d by (auto simp: drain_pages_def)
    then show ?thesis using finish_task_kept [OF dl(1) k1(1)] data_kept_trans [OF k1(3)] dl(4) by auto
  next
    case True
    let ?st1 = "st1\<lparr>journal_finalize_pending := True\<rparr>"
    obtain ret st2 where m: "journal_mark_done ?st1 = (ret, st2)" by fastforce
    have w: "cache_wf ?st1" "journal_wf ?st1" using dl(1) k1(1,2) by (simp_all add: cache_wf_def journal_wf_def)
    have k2: "data_kept st ?st1"
      using k1(3) w by (auto simp: data_kept_def bounds_def intro: trans [OF flash_byte_cong])
    note mk = mark_done_kept [OF m w, simplified]
    have k3: "data_kept st st2" using data_kept_trans [OF k2] mk by blast
    have w2: "cache_wf st2" "journal_wf st2" using mk by (simp_all add: data_kept_def)
    have e: "drain_pages st = (if ret = PICOKEYS_ERR_NO_MEMORY then st2 else finish_task st2)" using d True m by (simp add: drain_pages_def)
    show ?thesis
    proof (cases "ret = PICOKEYS_ERR_NO_MEMORY")
      case True
      with e k3 mk dl(4) show ?thesis by auto
    next
      case False
      with e finish_task_kept [OF w2] data_kept_trans [OF k3] mk dl(4) show ?thesis by auto
    qed
  qed
qed

lemma task_law:
  assumes "cache_wf st" "journal_wf st"
  shows "data_kept st (low_flash_task st)"
    "flash_available st \<Longrightarrow> \<not> flash_available (low_flash_task st) \<Longrightarrow> ready_pages (low_flash_task st) = 0"
proof -
  obtain ret st1 where f: "(if locked_out st \<and> journal_finalize_pending st then journal_mark_done st else (PICOKEYS_OK, st)) = (ret, st1)" by fastforce
  have k1: "data_kept st st1 \<and> flash_available st1 = flash_available st"
  proof (cases "locked_out st \<and> journal_finalize_pending st")
    case True
    with f have "journal_mark_done st = (ret, st1)" by simp
    from mark_done_kept [OF this assms] True show ?thesis by simp
  next
    case False
    with f assms show ?thesis by (auto simp: data_kept_def)
  qed
  then have w1: "cache_wf st1" "journal_wf st1" by (simp_all add: data_kept_def)
  have "data_kept st (low_flash_task st) \<and> (\<not> flash_available (low_flash_task st) \<longrightarrow> flash_available st \<longrightarrow> ready_pages (low_flash_task st) = 0)"
  proof (cases "ret = PICOKEYS_ERR_NO_MEMORY")
    case True
    with f have "low_flash_task st = st1" by (simp add: low_flash_task_def)
    with k1 show ?thesis by auto
  next
    case not_refused: False
    show ?thesis
    proof (cases "locked_out st1 \<and> flash_available st1 \<and> 0 < ready_pages st1")
      case False
      with f not_refused have "low_flash_task st = finish_task st1" unfolding low_flash_task_def by (simp only: f prod.case if_False)
      with finish_task_kept [OF w1] k1 data_kept_trans show ?thesis by metis
    next
      case True
      obtain ok st2 where j: "(if journal_pending st1 then (True, st1) else write_journal st1) = (ok, st2)" by fastforce
      have e: "low_flash_task st = (if \<not> ok then st2 else drain_pages st2)"
        using not_refused True unfolding low_flash_task_def by (simp only: f j prod.case if_False if_True simp_thms)
      have fin: "\<not> journal_finalize_pending st1"
      proof (cases "locked_out st \<and> journal_finalize_pending st")
        case True
        with f have "journal_mark_done st = (ret, st1)" by simp
        from mark_done_law(4) [OF this not_refused] show ?thesis by simp
      next
        case False
        with f have "st1 = st" by simp
        with False True show ?thesis by simp
      qed
      have k2: "data_kept st1 st2 \<and> flash_available st2 = flash_available st1 \<and> (ok \<longrightarrow> journal_pending st2)"
      proof (cases "journal_pending st1")
        case True
        with j w1 show ?thesis by (auto simp: data_kept_def)
      next
        case False
        with j have "write_journal st1 = (ok, st2)" by simp
        note wl = write_journal_law [OF this w1 False fin]
        have "flash_byte st2 a = flash_byte st1 a" if "FLASH_SECTOR (last_base st1) \<le> a" for a
          using cache_sameD(3) [of st1 st2 a] wl that by simp
        with wl cache_sameD(1,2) [of st1 st2] w1 show ?thesis by (simp add: data_kept_def bounds_def)
      qed
      have w2: "cache_wf st2" "journal_wf st2" using k2 by (simp_all add: data_kept_def)
      have k: "data_kept st st2" using k1 k2 data_kept_trans by blast
      show ?thesis
      proof (cases ok)
        case True
        with e drain_pages_kept [OF w2] k2 k1 data_kept_trans [OF k] show ?thesis by auto
      next
        case False
        with e k k1 k2 \<open>locked_out st1 \<and> flash_available st1 \<and> 0 < ready_pages st1\<close> show ?thesis by auto
      qed
    qed
  qed
  then show "data_kept st (low_flash_task st)"
    "flash_available st \<Longrightarrow> \<not> flash_available (low_flash_task st) \<Longrightarrow> ready_pages (low_flash_task st) = 0" by blast+
qed

section \<open>Programming\<close>

lemma data_kept_refl: "cache_wf st \<Longrightarrow> journal_wf st \<Longrightarrow> data_kept st st" by (simp add: data_kept_def)

lemma wait_turns_law:
  assumes "wait_turns n st = (ok, st')" "cache_wf st" "journal_wf st" "flash_available st \<or> ready_pages st = 0"
  shows "data_kept st st' \<and> (ok \<longrightarrow> ready_pages st' = 0)"
  using assms
proof (induction n arbitrary: st)
  case 0
  then show ?case using data_kept_refl by auto
next
  case (Suc n)
  show ?case
  proof (cases "flash_available st")
    case False
    with Suc.prems show ?thesis using data_kept_refl by auto
  next
    case True
    note tl = task_law [OF Suc.prems(2,3)]
    from Suc.prems(1) True have "wait_turns n (low_flash_task st) = (ok, st')" by simp
    moreover have "cache_wf (low_flash_task st)" "journal_wf (low_flash_task st)" using tl(1) by (simp_all add: data_kept_def)
    moreover have "flash_available (low_flash_task st) \<or> ready_pages (low_flash_task st) = 0" using tl(2) [OF True] by (cases "flash_available (low_flash_task st)") simp_all
    ultimately have "data_kept (low_flash_task st) st' \<and> (ok \<longrightarrow> ready_pages st' = 0)" by (rule Suc.IH)
    then show ?thesis using data_kept_trans [OF tl(1)] by blast
  qed
qed

lemma low_commit_sync_law:
  assumes "low_flash_commit_sync st = (ok, st')" "cache_wf st" "journal_wf st"
  shows "data_kept st st' \<and> (ok \<longrightarrow> ready_pages st' = 0)"
proof -
  let ?st = "low_flash_commit st"
  have w: "cache_wf ?st" "journal_wf ?st" "data_kept st ?st" "flash_available ?st"
    using assms(2,3) by (auto simp: low_flash_commit_def cache_wf_def journal_wf_def data_kept_def bounds_def intro!: flash_byte_cong)
  from assms(1) have "wait_turns (patience ?st) ?st = (ok, st')" by (simp add: low_flash_commit_sync_def Let_def)
  from wait_turns_law [OF this w(1,2)] w(3,4) show ?thesis using data_kept_trans by blast
qed

lemma cached_ready:
  assumes "cache_wf st" "r < TOTAL_FLASH_PAGES"
  shows "ready (flash_pages st ! r) \<or> erase (flash_pages st ! r) \<longleftrightarrow> ready (flash_pages st ! r)" "\<not> erase (flash_pages st ! r)"
  using assms nth_mem [of r "flash_pages st"] by (auto simp: cache_wf_def)

text \<open>The sector of \<open>addr\<close> is in page \<open>r\<close> afterwards, with the bytes a read finds there before, unless it is
  a fresh sector below the data.\<close>

lemma find_free_page_law:
  assumes "find_free_page addr st = (x, st')" "cache_wf st" "journal_wf st"
  shows "x = None \<Longrightarrow> st' = st \<and> ready_pages st \<noteq> 0"
    "x = Some r \<Longrightarrow> r < TOTAL_FLASH_PAGES \<and> ready (flash_pages st' ! r) \<and> address (flash_pages st' ! r) = FLASH_SECTOR addr"
    "cache_wf st' \<and> journal_wf st' \<and> bounds st' = bounds st \<and> nor st' = nor st"
    "\<not> new_data_sector st (FLASH_SECTOR a) \<Longrightarrow> flash_byte st' a = flash_byte st a"
    "new_data_sector st (FLASH_SECTOR addr) \<Longrightarrow> cached st (FLASH_SECTOR addr) = None \<Longrightarrow> x = Some r \<Longrightarrow> page (flash_pages st' ! r) = (\<lambda>_. 0xff)"
proof -
  let ?s = "FLASH_SECTOR addr"
  have len: "length (flash_pages st) = TOTAL_FLASH_PAGES" using assms(2) by (simp add: cache_wf_def)
  have "(x = None \<longrightarrow> st' = st \<and> ready_pages st \<noteq> 0) \<and>
    (\<forall>r. x = Some r \<longrightarrow> r < TOTAL_FLASH_PAGES \<and> ready (flash_pages st' ! r) \<and> address (flash_pages st' ! r) = ?s) \<and>
    (cache_wf st' \<and> journal_wf st' \<and> bounds st' = bounds st \<and> nor st' = nor st) \<and>
    (\<forall>a. \<not> new_data_sector st (FLASH_SECTOR a) \<longrightarrow> flash_byte st' a = flash_byte st a) \<and>
    (new_data_sector st ?s \<longrightarrow> cached st ?s = None \<longrightarrow> (\<forall>r. x = Some r \<longrightarrow> page (flash_pages st' ! r) = (\<lambda>_. 0xff)))"
  proof (cases "cached st ?s")
    case (Some r)
    then have r: "r < TOTAL_FLASH_PAGES" "ready (flash_pages st ! r)" "address (flash_pages st ! r) = ?s"
      using cached_ready [OF assms(2)] by (auto simp: cached_def find_Some_iff)
    with Some assms cached_ready(2) [OF assms(2) r(1)] have "x = Some r" "st' = st" by (auto simp: find_free_page_def Let_def)
    with r assms Some show ?thesis by simp
  next
    case None
    then have away: "\<not> (ready (flash_pages st ! r) \<and> address (flash_pages st ! r) = ?s)" if "r < TOTAL_FLASH_PAGES" for r
      using that by (auto simp: cached_def find_None_iff)
    show ?thesis
    proof (cases "free_page st")
      case none: None
      then have "ready (flash_pages st ! 0)" using cached_ready(2) [OF assms(2), of 0] by (auto simp: free_page_def find_None_iff flash_sizes dest!: spec [of _ 0])
      then have "filter ready (flash_pages st) \<noteq> []" using nth_mem [of 0 "flash_pages st"] len by (auto simp: filter_empty_conv flash_sizes)
      then have "ready_pages st \<noteq> 0" using assms(2) by (simp add: cache_wf_def)
      with none None assms show ?thesis by (auto simp: find_free_page_def Let_def)
    next
      case (Some r)
      then have r: "r < TOTAL_FLASH_PAGES" "\<not> ready (flash_pages st ! r)" by (auto simp: free_page_def find_Some_iff)
      let ?p = "\<lparr>page = (if new_data_sector st ?s then (\<lambda>_. 0xff) else (\<lambda>i. nor st (?s + i))), address = ?s, ready = True, erase = False, page_size = 0\<rparr>"
      have e: "x = Some r" "st' = st\<lparr>flash_pages := (flash_pages st)[r := ?p], ready_pages := ready_pages st + 1\<rparr>"
        using assms(1) None Some by (simp_all add: find_free_page_def Let_def)
      have rl: "r < length (flash_pages st)" using r len by simp
      have pg: "flash_pages st' ! i = (if i = r then ?p else flash_pages st ! i)" for i
        using rl by (simp add: e nth_list_update)
      have "?s \<notin> address ` {x \<in> set (flash_pages st). ready x}" 
      proof
        assume "?s \<in> address ` {x \<in> set (flash_pages st). ready x}"
        then obtain i where "i < length (flash_pages st)" "ready (flash_pages st ! i)" "address (flash_pages st ! i) = ?s"
          by (auto simp: in_set_conv_nth)
        with away [of i] len show False by simp
      qed
      then have "?s \<notin> address ` set (filter ready (take r (flash_pages st)))" "?s \<notin> address ` set (filter ready (drop (Suc r) (flash_pages st)))"
        by (auto dest: in_set_takeD in_set_dropD)
      then have wf: "cache_wf st'"
        using assms(2) filter_split [OF rl] r(2) set_update_subset_insert [of "flash_pages st" r ?p] sector_mod [of addr]
        by (auto simp: cache_wf_def e(2))
      have byte: "flash_byte st' a = flash_byte st a" if fresh: "\<not> new_data_sector st (FLASH_SECTOR a)" for a
      proof (cases "FLASH_SECTOR a = ?s")
        case True
        have "flash_byte st' a = page ?p (a mod FLASH_SECTOR_SIZE)"
          using flash_byte_ready [OF wf r(1), of a] pg [of r] True by simp
        also have "\<dots> = nor st a" using fresh True sector_decomp [of a] by simp
        also have "\<dots> = flash_byte st a" using away True flash_byte_nor [of st a] by auto
        finally show ?thesis .
      next
        case False
        have "flash_byte st' a = flash_byte st a"
        proof (cases "\<exists>i < TOTAL_FLASH_PAGES. ready (flash_pages st ! i) \<and> address (flash_pages st ! i) = FLASH_SECTOR a")
          case True
          then obtain i where i: "i < TOTAL_FLASH_PAGES" "ready (flash_pages st ! i)" "address (flash_pages st ! i) = FLASH_SECTOR a" by blast
          with r(2) have "i \<noteq> r" by auto
          with flash_byte_ready [OF assms(2) i] flash_byte_ready [OF wf i(1), of a] i(2,3) pg [of i] show ?thesis by simp
        next
          case nobody: False
          have "flash_byte st' a = nor st' a" using nobody False by (intro flash_byte_nor) (auto simp: pg split: if_splits)
          moreover have "flash_byte st a = nor st a" using nobody by (intro flash_byte_nor) auto
          ultimately show ?thesis by (simp add: e)
        qed
        then show ?thesis .
      qed
      from wf byte r(1) e(1) pg [of r] assms(3) show ?thesis
        by (auto simp: e(2) journal_wf_def bounds_def)
    qed
  qed
  then show "x = None \<Longrightarrow> st' = st \<and> ready_pages st \<noteq> 0"
    "x = Some r \<Longrightarrow> r < TOTAL_FLASH_PAGES \<and> ready (flash_pages st' ! r) \<and> address (flash_pages st' ! r) = FLASH_SECTOR addr"
    "cache_wf st' \<and> journal_wf st' \<and> bounds st' = bounds st \<and> nor st' = nor st"
    "\<not> new_data_sector st (FLASH_SECTOR a) \<Longrightarrow> flash_byte st' a = flash_byte st a"
    "new_data_sector st (FLASH_SECTOR addr) \<Longrightarrow> cached st (FLASH_SECTOR addr) = None \<Longrightarrow> x = Some r \<Longrightarrow> page (flash_pages st' ! r) = (\<lambda>_. 0xff)" by blast+
qed

lemma write_page_law:
  assumes "cache_wf st" "journal_wf st" "r < TOTAL_FLASH_PAGES" "ready (flash_pages st ! r)" "address (flash_pages st ! r) = FLASH_SECTOR addr"
    and "addr mod FLASH_SECTOR_SIZE + length d \<le> FLASH_SECTOR_SIZE"
  shows "cache_wf (write_page r (addr mod FLASH_SECTOR_SIZE) d st)" "journal_wf (write_page r (addr mod FLASH_SECTOR_SIZE) d st)"
    "bounds (write_page r (addr mod FLASH_SECTOR_SIZE) d st) = bounds st"
    "flash_byte (write_page r (addr mod FLASH_SECTOR_SIZE) d st) a = (if addr \<le> a \<and> a < addr + length d then d ! (a - addr) else flash_byte st a)"
proof -
  let ?off = "addr mod FLASH_SECTOR_SIZE" and ?s = "FLASH_SECTOR addr"
  let ?st = "write_page r ?off d st" and ?p = "flash_pages st ! r"
  have rl: "r < length (flash_pages st)" using assms(1,3) by (simp add: cache_wf_def)
  define q where "q = ?p\<lparr>page := (\<lambda>i. if ?off \<le> i \<and> i < ?off + length d then d ! (i - ?off) else page ?p i)\<rparr>"
  have q: "\<not> erase q" "address q mod FLASH_SECTOR_SIZE = 0" "ready q" "address q = address ?p"
    using assms(1,4) nth_mem [OF rl] by (auto simp: cache_wf_def q_def)
  have "\<not> erase x \<and> (ready x \<longrightarrow> address x mod FLASH_SECTOR_SIZE = 0)" if "x \<in> set ((flash_pages st)[r := q])" for x
  proof -
    from that have "x = q \<or> x \<in> set (flash_pages st)" using set_update_subset_insert [of "flash_pages st" r q] by blast
    with q assms(1) show ?thesis by (auto simp: cache_wf_def)
  qed
  moreover have m: "map address (filter ready ((flash_pages st)[r := q])) = map address (filter ready (flash_pages st))"
    using filter_split [OF rl] assms(4) q by simp
  moreover have "length (filter ready ((flash_pages st)[r := q])) = length (filter ready (flash_pages st))"
    by (metis m length_map)
  moreover have "flash_pages ?st = (flash_pages st)[r := q]" "ready_pages ?st = ready_pages st" by (simp_all add: write_page_def q_def)
  ultimately show wf: "cache_wf ?st"
    using assms(1) by (simp add: cache_wf_def)
  show "journal_wf ?st" "bounds ?st = bounds st" using assms(2) by (simp_all add: journal_wf_def write_page_def bounds_def)
  have pg: "flash_pages ?st ! i = (if i = r then ?p\<lparr>page := (\<lambda>i. if ?off \<le> i \<and> i < ?off + length d then d ! (i - ?off) else page ?p i)\<rparr> else flash_pages st ! i)" for i
    using rl by (simp add: write_page_def nth_list_update)
  have ad: "addr = ?s + ?off" by (rule sector_decomp)
  show "flash_byte ?st a = (if addr \<le> a \<and> a < addr + length d then d ! (a - addr) else flash_byte st a)"
  proof (cases "FLASH_SECTOR a = ?s")
    case True
    then have a: "a = ?s + a mod FLASH_SECTOR_SIZE" using sector_decomp [of a] by simp
    have c: "addr \<le> a \<and> a < addr + length d \<longleftrightarrow> ?off \<le> a mod FLASH_SECTOR_SIZE \<and> a mod FLASH_SECTOR_SIZE < ?off + length d"
      "a - addr = a mod FLASH_SECTOR_SIZE - ?off" using a ad by linarith+
    have "flash_byte ?st a = page (flash_pages ?st ! r) (a mod FLASH_SECTOR_SIZE)" "flash_byte st a = page ?p (a mod FLASH_SECTOR_SIZE)"
      using flash_byte_ready [OF wf assms(3), of a] flash_byte_ready [OF assms(1,3,4), of a] assms(4,5) True pg [of r] by simp_all
    then show ?thesis using pg [of r] by (simp only: c) simp
  next
    case False
    have out: "\<not> (addr \<le> a \<and> a < addr + length d)"
    proof
      assume "addr \<le> a \<and> a < addr + length d"
      with ad assms(6) have "?s \<le> a \<and> a < ?s + FLASH_SECTOR_SIZE" by linarith
      with sector_eq [OF sector_mod, of a addr] False show False by simp
    qed
    moreover have "flash_byte ?st a = flash_byte st a"
    proof (cases "\<exists>i < TOTAL_FLASH_PAGES. ready (flash_pages st ! i) \<and> address (flash_pages st ! i) = FLASH_SECTOR a")
      case True
      then obtain i where i: "i < TOTAL_FLASH_PAGES" "ready (flash_pages st ! i)" "address (flash_pages st ! i) = FLASH_SECTOR a" by blast
      with False assms(5) have "i \<noteq> r" by auto
      with flash_byte_ready [OF assms(1) i] flash_byte_ready [OF wf i(1), of a] i(2,3) pg [of i] show ?thesis by simp
    next
      case nobody: False
      have "flash_byte ?st a = nor ?st a" using nobody False assms(5) by (intro flash_byte_nor) (auto simp: pg split: if_splits)
      moreover have "flash_byte st a = nor st a" using nobody by (intro flash_byte_nor) auto
      ultimately show ?thesis by (simp add: write_page_def)
    qed
    ultimately show ?thesis unfolding if_not_P [OF out] by simp
  qed
qed

lemma sector_mono: "a \<le> b \<Longrightarrow> FLASH_SECTOR a \<le> FLASH_SECTOR b"
  by (simp add: FLASH_SECTOR_def minus_mod_eq_mult_div div_le_mono)

lemma not_fresh: "FLASH_SECTOR (last_base st) \<le> a \<Longrightarrow> \<not> new_data_sector st (FLASH_SECTOR a)"
  using sector_mono [of "FLASH_SECTOR (last_base st)" a] sector_eq [OF sector_mod, of "FLASH_SECTOR (last_base st)" "last_base st"] sector_pos
  by (auto simp: new_data_sector_def)

lemma program_sectors_law:
  assumes "program_sectors n addr data st = Some (r, st')" "cache_wf st" "journal_wf st" "FLASH_SECTOR (last_base st) \<le> addr"
  shows "cache_wf st' \<and> journal_wf st' \<and> bounds st' = bounds st \<and>
    (\<forall>a \<ge> FLASH_SECTOR (last_base st). flash_byte st' a = flash_byte st a \<or>
       addr \<le> a \<and> a < addr + length data \<and> flash_byte st' a = data ! (a - addr)) \<and>
    (r = PICOKEYS_OK \<longrightarrow> (\<forall>i < length data. flash_byte st' (addr + i) = data ! i))"
  using assms
proof (induction n arbitrary: addr data st)
  case (Suc n)
  show ?case
  proof (cases "data = []")
    case True
    with Suc.prems show ?thesis by auto
  next
    case False
    let ?off = "addr mod FLASH_SECTOR_SIZE"
    define c where "c = min (length data) (FLASH_SECTOR_SIZE - ?off)"
    have c: "c \<le> length data" "?off + c \<le> FLASH_SECTOR_SIZE" using mod_less_divisor [OF sector_pos, of addr] by (simp_all add: c_def)
    obtain x st1 where f: "find_free_page addr st = (x, st1)" by fastforce
    note fl = find_free_page_law [OF f Suc.prems(2,3)]
    have step: "program_sectors (Suc n) addr data st =
      (case x of Some r \<Rightarrow> program_sectors n (addr + c) (drop c data) (write_page r ?off (take c data) st1)
       | None \<Rightarrow> (case low_flash_commit_sync st1 of (ok, st2) \<Rightarrow>
            if \<not> ok then Some (PICOKEYS_ERR_NO_MEMORY, st2) else program_sectors n addr data st2))"
      using False by (simp add: f Let_def c_def split: option.split)
    show ?thesis
    proof (cases x)
      case None
      then have e: "st1 = st" using fl(1) by simp
      obtain ok st2 where cs: "low_flash_commit_sync st = (ok, st2)" by fastforce
      note cl = low_commit_sync_law [OF cs Suc.prems(2,3)]
      then have w: "cache_wf st2" "journal_wf st2" "bounds st2 = bounds st" "last_base st2 = last_base st"
        by (simp_all add: data_kept_def bounds_def)
      show ?thesis
      proof (cases ok)
        case False
        with Suc.prems(1) step None cs e have "r = PICOKEYS_ERR_NO_MEMORY" "st' = st2" by simp_all
        with cl show ?thesis by (simp add: data_kept_def)
      next
        case True
        with Suc.prems(1) step None cs e have "program_sectors n addr data st2 = Some (r, st')" by simp
        from Suc.IH [OF this w(1,2)] Suc.prems(4) w(3,4) cl show ?thesis by (simp add: data_kept_def)
      qed
    next
      case (Some p)
      let ?d = "take c data"
      let ?st2 = "write_page p ?off ?d st1"
      have ld: "length ?d = c" using c(1) by simp
      have b1: "last_base st1 = last_base st" "bounds st1 = bounds st" "cache_wf st1" "journal_wf st1" using fl(3) by (simp_all add: bounds_def)
      have fits: "?off + length ?d \<le> FLASH_SECTOR_SIZE" using c(2) ld by simp
      note wl = write_page_law [OF b1(3,4) _ _ _ fits, of p]
      have p: "p < TOTAL_FLASH_PAGES" "ready (flash_pages st1 ! p)" "address (flash_pages st1 ! p) = FLASH_SECTOR addr" using fl(2) [OF Some] by simp_all
      note w = wl [OF p]
      have b2: "last_base ?st2 = last_base st" "bounds ?st2 = bounds st" using w(3) b1 by (simp_all add: bounds_def)
      from Suc.prems(1) step Some have "program_sectors n (addr + c) (drop c data) ?st2 = Some (r, st')" by simp
      from Suc.IH [OF this w(1,2)] Suc.prems(4) b2
      have ih: "cache_wf st'" "journal_wf st'" "bounds st' = bounds st"
        "\<And>a. FLASH_SECTOR (last_base st) \<le> a \<Longrightarrow> flash_byte st' a = flash_byte ?st2 a \<or>
           addr + c \<le> a \<and> a < addr + c + length (drop c data) \<and> flash_byte st' a = drop c data ! (a - (addr + c))"
        "r = PICOKEYS_OK \<Longrightarrow> \<forall>i < length (drop c data). flash_byte st' (addr + c + i) = drop c data ! i"
        by auto
      have byte: "flash_byte ?st2 a = (if addr \<le> a \<and> a < addr + c then data ! (a - addr) else flash_byte st a)"
        if "FLASH_SECTOR (last_base st) \<le> a" for a
        using w(4) [of a] fl(4) [OF not_fresh [OF that]] ld by auto
      have old: "flash_byte st' a = flash_byte st a \<or> addr \<le> a \<and> a < addr + length data \<and> flash_byte st' a = data ! (a - addr)"
        if a: "FLASH_SECTOR (last_base st) \<le> a" for a
        using ih(4) [OF a] byte [OF a] c(1) by (auto split: if_splits)
      have new: "flash_byte st' (addr + i) = data ! i" if "r = PICOKEYS_OK" "i < length data" for i
      proof (cases "i < c")
        case True
        then have "flash_byte ?st2 (addr + i) = data ! i" using byte [of "addr + i"] Suc.prems(4) by simp
        then show ?thesis using ih(4) [of "addr + i"] True Suc.prems(4) by auto
      next
        case False
        then obtain j where j: "i = c + j" using nat_le_iff_add [of c i] by auto
        with that ih(5) have "flash_byte st' (addr + c + j) = drop c data ! j" by simp
        with j c(1) show ?thesis by (simp add: add.assoc)
      qed
      from ih(1-3) old new show ?thesis by blast
    qed
  qed
qed simp

lemma program_sectors_total:
  assumes "2 * length data + 1 \<le> n" "cache_wf st" "journal_wf st"
  shows "program_sectors n addr data st \<noteq> None"
  using assms
proof (induction "length data" arbitrary: n addr data st rule: less_induct)
  case less
  show ?case
  proof (cases "data = []")
    case True
    with less.prems(1) show ?thesis by (cases n) simp_all
  next
    case False
    define c where "c = min (length data) (FLASH_SECTOR_SIZE - addr mod FLASH_SECTOR_SIZE)"
    have ch: "0 < c" "c \<le> length data" "addr mod FLASH_SECTOR_SIZE + c \<le> FLASH_SECTOR_SIZE"
      using False mod_less_divisor [OF sector_pos, of addr] by (simp_all add: c_def)
    have page: "program_sectors m addr data s \<noteq> None"
      if as: "2 * length data \<le> m" "cache_wf s" "journal_wf s" "fst (find_free_page addr s) \<noteq> None" for m s
    proof -
      obtain p s1 where f: "find_free_page addr s = (Some p, s1)" using as(4) by (cases "find_free_page addr s") auto
      note fl = find_free_page_law [OF f as(2,3)]
      have "addr mod FLASH_SECTOR_SIZE + length (take c data) \<le> FLASH_SECTOR_SIZE" using ch by simp
      from write_page_law(1,2) [OF _ _ _ _ _ this] fl
      have w: "cache_wf (write_page p (addr mod FLASH_SECTOR_SIZE) (take c data) s1)" "journal_wf (write_page p (addr mod FLASH_SECTOR_SIZE) (take c data) s1)"
        by blast+
      obtain k where k: "m = Suc k" using as(1) False by (cases m) auto
      have "length (drop c data) < length data" "2 * length (drop c data) + 1 \<le> k"
        unfolding length_drop using ch k as(1) by linarith+
      from less.hyps [OF this w] show ?thesis using False f k by (simp add: Let_def c_def)
    qed
    obtain k where k: "n = Suc k" using less.prems(1) by (cases n) auto
    show ?thesis
    proof (cases "fst (find_free_page addr st)")
      case (Some p)
      then show ?thesis using page [of n st] less.prems by simp
    next
      case None
      then obtain st1 where f: "find_free_page addr st = (None, st1)" by (cases "find_free_page addr st") auto
      then have e: "st1 = st" using find_free_page_law(1) [OF f less.prems(2,3)] by simp
      obtain ok st2 where cs: "low_flash_commit_sync st = (ok, st2)" by fastforce
      note cl = low_commit_sync_law [OF cs less.prems(2,3)]
      have "program_sectors k addr data st2 \<noteq> None" if ok
      proof (rule page)
        show "2 * length data \<le> k" using less.prems(1) k by simp
        show w: "cache_wf st2" "journal_wf st2" using cl by (simp_all add: data_kept_def)
        show "fst (find_free_page addr st2) \<noteq> None"
          using find_free_page_law(1) [OF _ w, of addr] cl that by (cases "find_free_page addr st2") auto
      qed
      then show ?thesis using False f k e cs by (simp add: Let_def)
    qed
  qed
qed

section \<open>The task with working hardware\<close>

lemma drain_done:
  "outcomes st = [] \<Longrightarrow> \<exists>st'. drain r ps st = (True, st') \<and> outcomes st' = []"
proof (induction ps arbitrary: r st)
  case (Cons p ps)
  then show ?case by (simp add: do_flash_op_erase_program_def do_flash_op_erase_def flash_op_done)
qed simp

lemma write_redo_done:
  assumes "outcomes st = []" "start_data_pool st + (i + length ps) * FLASH_SECTOR_SIZE \<le> redo + FLASH_SECTOR_SIZE"
  shows "\<exists>targets' st'. write_redo i ps redo targets st = ((True, targets'), st') \<and> outcomes st' = []"
  using assms
proof (induction ps arbitrary: i targets st)
  case (Cons p ps)
  have "\<not> redo < start_data_pool st + i * FLASH_SECTOR_SIZE" using Cons.prems(2) by (simp add: algebra_simps)
  then show ?case using Cons.IH Cons.prems by (simp add: Let_def do_flash_op_erase_program_def flash_op_done)
qed simp

lemma write_journal_done:
  assumes "outcomes st = []" "start_data_pool st + 8 * FLASH_SECTOR_SIZE \<le> FLASH_SECTOR (last_base st)" "cache_wf st" "journal_wf st"
  shows "\<exists>st'. write_journal st = (True, st') \<and> outcomes st' = []"
proof -
  let ?J = "journal_sector_of st"
  have J: "\<not> ?J < start_data_pool st + FLASH_SECTOR_SIZE" "start_data_pool st + 7 * FLASH_SECTOR_SIZE \<le> ?J"
    using assms(2) by (simp_all add: journal_sector_of_def)
  have "\<exists>st1. open_sector ?J st = (True, st1) \<and> outcomes st1 = []"
    using assms(1) by (cases "?J \<noteq> last_journal_sector st \<or> journal_slot st = 0") (simp_all add: open_sector_def do_flash_op_erase_def flash_op_done)
  then obtain st1 where s1: "open_sector ?J st = (True, st1)" "outcomes st1 = []" by blast
  note o = open_sector_law [OF s1(1) assms(4)]
  have "start_data_pool st1 + (0 + length (flash_pages st1)) * FLASH_SECTOR_SIZE \<le> ?J - FLASH_SECTOR_SIZE + FLASH_SECTOR_SIZE"
    using J(2) cache_sameD(2) [OF o(1)] assms(3) by (simp add: cache_wf_def flash_sizes)
  from write_redo_done [OF s1(2) this] obtain ts st2
    where s2: "write_redo 0 (flash_pages st1) (?J - FLASH_SECTOR_SIZE) (replicate TOTAL_FLASH_PAGES 0xffffffff) st1 = ((True, ts), st2)" "outcomes st2 = []" by blast
  have "\<exists>st3. enter_journal ?J ts st2 = (True, st3) \<and> outcomes st3 = []"
    using s2(2) by (simp add: enter_journal_def do_flash_op_program_def flash_op_done Let_def)
  with J(1) s1(1) s2(1) show ?thesis by (simp add: write_journal_def Let_def)
qed

lemma task_drains:
  assumes "cache_wf st" "journal_wf st" "\<not> journal_pending st" "\<not> journal_finalize_pending st" "outcomes st = []" "locked_out st"
    and "flash_available st" "start_data_pool st + 8 * FLASH_SECTOR_SIZE \<le> FLASH_SECTOR (last_base st)"
  shows "ready_pages (low_flash_task st) = 0" "\<not> flash_available (low_flash_task st)"
proof -
  have "ready_pages (low_flash_task st) = 0 \<and> \<not> flash_available (low_flash_task st)"
  proof (cases "ready_pages st = 0")
    case True
    with assms show ?thesis by (simp add: low_flash_task_def finish_task_def)
  next
    case False
    obtain st1 where j: "write_journal st = (True, st1)" "outcomes st1 = []" using write_journal_done [OF assms(5,8,1,2)] by blast
    note wl = write_journal_law [OF j(1) assms(1-4)]
    then have w1: "cache_wf st1" using cache_sameD(1) assms(1) by blast
    obtain st2 where d: "drain 0 (flash_pages st1) st1 = (True, st2)" "outcomes st2 = []" using drain_done [OF j(2)] by blast
    have dl: "cache_wf st2" "\<forall>i < TOTAL_FLASH_PAGES. \<not> ready (flash_pages st2 ! i)" using drain_law [OF d(1) w1] by simp_all
    then have "filter ready (flash_pages st2) = []" by (auto simp: filter_empty_conv cache_wf_def in_set_conv_nth)
    with dl(1) have z: "ready_pages st2 = 0" by (simp add: cache_wf_def)
    obtain st3 where m: "journal_mark_done (st2\<lparr>journal_finalize_pending := True\<rparr>) = (PICOKEYS_OK, st3)"
      using d(2) by (simp add: journal_mark_done_def Let_def do_flash_op_program_def flash_op_done)
    have "ready_pages st3 = 0" using mark_done_law(1) [OF m] z by (simp add: cache_same_def)
    moreover have "low_flash_task st = finish_task st3"
      using False assms(3,4,6,7) j(1) d(1) z m by (simp add: low_flash_task_def drain_pages_def)
    ultimately show ?thesis by (simp add: finish_task_def)
  qed
  then show "ready_pages (low_flash_task st) = 0" "\<not> flash_available (low_flash_task st)" by simp_all
qed

section \<open>Two cores\<close>

text \<open>What the two cores do, interleaved: core 1 programs within a sector, at any address, asks for commits, and lowers
  last_base, as the writing of a record does, while no transaction of the journal is under way; core 0 runs the task. \<open>ws\<close> lists the writes so far.\<close>

inductive core_run :: "low_flash \<Rightarrow> (nat \<times> byte list) list \<Rightarrow> low_flash \<Rightarrow> bool" for st where
  start: "core_run st [] st"
| task: "core_run st ws st1 \<Longrightarrow> core_run st ws (low_flash_task st1)"
| commit: "core_run st ws st1 \<Longrightarrow> core_run st ws (low_flash_commit st1)"
| lower: "core_run st ws st1 \<Longrightarrow> base \<le> last_base st1 \<Longrightarrow> \<not> journal_pending st1 \<Longrightarrow> \<not> journal_finalize_pending st1 \<Longrightarrow>
    core_run st ws (st1\<lparr>last_base := base\<rparr>)"
| program: "core_run st ws st1 \<Longrightarrow> addr mod FLASH_SECTOR_SIZE + length d \<le> FLASH_SECTOR_SIZE \<Longrightarrow>
    find_free_page addr st1 = (Some r, st2) \<Longrightarrow> core_run st (ws @ [(addr, d)]) (write_page r (addr mod FLASH_SECTOR_SIZE) d st2)"

definition mem_write :: "nat \<times> byte list \<Rightarrow> (nat \<Rightarrow> byte) \<Rightarrow> nat \<Rightarrow> byte" where
  "mem_write w m = (case w of (addr, d) \<Rightarrow> (\<lambda>a. if addr \<le> a \<and> a < addr + length d then d ! (a - addr) else m a))"

lemma core_run_law:
  "core_run st ws st' \<Longrightarrow> cache_wf st \<Longrightarrow> journal_wf st \<Longrightarrow>
   cache_wf st' \<and> journal_wf st' \<and> last_base st' \<le> last_base st \<and>
   (\<forall>a \<ge> FLASH_SECTOR (last_base st). flash_byte st' a = fold mem_write ws (flash_byte st) a)"
proof (induction rule: core_run.induct)
  case start
  then show ?case by simp
next
  case (task ws st1)
  then have ih: "cache_wf st1" "journal_wf st1" "last_base st1 \<le> last_base st" "\<forall>a \<ge> FLASH_SECTOR (last_base st). flash_byte st1 a = fold mem_write ws (flash_byte st) a" by simp_all
  from task_law(1) [OF ih(1,2)] ih(3,4) sector_mono [OF ih(3)] show ?case by (simp add: data_kept_def bounds_def)
next
  case (commit ws st1)
  then have ih: "cache_wf st1" "journal_wf st1" "last_base st1 \<le> last_base st" "\<forall>a \<ge> FLASH_SECTOR (last_base st). flash_byte st1 a = fold mem_write ws (flash_byte st) a" by simp_all
  have "flash_byte (low_flash_commit st1) a = flash_byte st1 a" for a by (intro flash_byte_cong) (simp_all add: low_flash_commit_def)
  with ih show ?case by (simp add: low_flash_commit_def cache_wf_def journal_wf_def)
next
  case (lower ws st1 base)
  then have ih: "cache_wf st1" "journal_wf st1" "last_base st1 \<le> last_base st" "\<forall>a \<ge> FLASH_SECTOR (last_base st). flash_byte st1 a = fold mem_write ws (flash_byte st) a" by blast+
  have "flash_byte (st1\<lparr>last_base := base\<rparr>) a = flash_byte st1 a" for a by (rule flash_byte_cong) simp_all
  with ih lower.hyps(2-4) show ?case by (simp add: cache_wf_def journal_wf_def)
next
  case (program ws st1 addr d r st2)
  then have ih: "cache_wf st1" "journal_wf st1" "last_base st1 \<le> last_base st"
    "\<forall>a \<ge> FLASH_SECTOR (last_base st). flash_byte st1 a = fold mem_write ws (flash_byte st) a" by simp_all
  note fl = find_free_page_law [OF program.hyps(3) ih(1,2)]
  have f: "cache_wf st2" "journal_wf st2" "r < TOTAL_FLASH_PAGES" "ready (flash_pages st2 ! r)" "address (flash_pages st2 ! r) = FLASH_SECTOR addr" "bounds st2 = bounds st1"
    using fl(2) [of r] fl(3) by simp_all
  note wl = write_page_law [OF f(1-5) program.hyps(2)]
  have "flash_byte (write_page r (addr mod FLASH_SECTOR_SIZE) d st2) a = fold mem_write (ws @ [(addr, d)]) (flash_byte st) a"
    if "FLASH_SECTOR (last_base st) \<le> a" for a
    using wl(4) [of a] fl(4) [of a] not_fresh [of st1 a] that sector_mono [OF ih(3)] ih(4) by (simp add: mem_write_def)
  with wl(1-3) f(6) ih(3) show ?case by (simp add: bounds_def)
qed

text \<open>C9: behind the page cache and the redo journal, flash at and above the sector of last_base is a flat memory: in whatever order the two
  cores work, whichever hardware operations are refused, and wherever core 1 programs, a read there finds the
  bytes written there last, and the cache stays well formed. last_base is that of the start; it may be lowered meanwhile, while no journal
  transaction is under way. Below it data can be lost (fresh_sector_forgets).\<close>

theorem flash_is_memory:
  assumes "cache_wf st" "journal_wf st" "core_run st ws st'" "FLASH_SECTOR (last_base st) \<le> a"
  shows "cache_wf st' \<and> journal_wf st' \<and> flash_byte st' a = fold mem_write ws (flash_byte st) a"
  using core_run_law [OF assms(3,1,2)] assms(4) by simp

text \<open>Programming a block ends, whatever the other core does; if it reports success the block reads back; and at
  or above the sector of last_base no byte outside the block changes.\<close>

theorem program_block_law:
  assumes "cache_wf st" "journal_wf st" "data \<noteq> []" "FLASH_SECTOR (last_base st) \<le> addr"
  shows "\<exists>r st'. flash_program_block addr data st = Some (r, st') \<and> cache_wf st' \<and> journal_wf st' \<and>
    (r = PICOKEYS_OK \<longrightarrow> flash_read_block addr (length data) st' = Inr data) \<and>
    (\<forall>a \<ge> FLASH_SECTOR (last_base st). a < addr \<or> addr + length data \<le> a \<longrightarrow> flash_byte st' a = flash_byte st a)"
proof -
  obtain r st' where p: "program_sectors (2 * length data + 1) addr data st = Some (r, st')"
    using program_sectors_total [OF _ assms(1,2), of data "2 * length data + 1" addr] by auto
  note l = program_sectors_law [OF p assms(1,2,4)]
  have "flash_read_block addr (length data) st' = Inr data" if "r = PICOKEYS_OK"
    using l that assms(3) by (auto simp: flash_read_block_def intro: nth_equalityI)
  with l p assms(3) show ?thesis by (intro exI [of _ r] exI [of _ st']) (auto simp: flash_program_block_def)
qed

text \<open>The sectors below last_base are not safe: a sector that was programmed for the first time and then
  written out by the other core, before last_base was lowered, is started again from erased bytes by the next
  programming, and what had been programmed there is lost. The allocation of a record (allocate_free_addr) programs the two links of a new
  record in that state.\<close>

theorem fresh_sector_forgets:
  assumes "cache_wf st" "journal_wf st" "new_data_sector st (FLASH_SECTOR addr)"
    and "find_free_page addr st = (Some r, st1)" "addr mod FLASH_SECTOR_SIZE + length d \<le> FLASH_SECTOR_SIZE"
    and "st2 = low_flash_task (write_page r (addr mod FLASH_SECTOR_SIZE) d st1)" "ready_pages st2 = 0"
    and "find_free_page addr' st2 = (Some r', st3)" "FLASH_SECTOR addr' = FLASH_SECTOR addr" "addr' mod FLASH_SECTOR_SIZE + length d' \<le> FLASH_SECTOR_SIZE"
    and "addr \<le> a" "a < addr + length d" "a < addr' \<or> addr' + length d' \<le> a"
  shows "flash_byte (write_page r' (addr' mod FLASH_SECTOR_SIZE) d' st3) a = 0xff"
proof -
  note f1 = find_free_page_law [OF assms(4,1,2)]
  have p1: "cache_wf st1" "journal_wf st1" "r < TOTAL_FLASH_PAGES" "ready (flash_pages st1 ! r)" "address (flash_pages st1 ! r) = FLASH_SECTOR addr" "bounds st1 = bounds st"
    using f1(2) [of r] f1(3) by simp_all
  note w1 = write_page_law [OF p1(1-5) assms(5)]
  have k: "data_kept (write_page r (addr mod FLASH_SECTOR_SIZE) d st1) st2" unfolding assms(6) by (rule task_law(1) [OF w1(1,2)])
  then have s2: "cache_wf st2" "journal_wf st2" "bounds st2 = bounds st" using w1(3) p1(6) by (simp_all add: data_kept_def)
  then have fresh: "new_data_sector st2 (FLASH_SECTOR addr)" using assms(3) by (simp add: new_data_sector_def bounds_def)
  have "filter ready (flash_pages st2) = []" using s2(1) assms(7) by (simp add: cache_wf_def)
  then have "\<not> ready (flash_pages st2 ! i)" if "i < TOTAL_FLASH_PAGES" for i
    using that s2(1) nth_mem [of i "flash_pages st2"] by (auto simp: filter_empty_conv cache_wf_def)
  then have "cached st2 (FLASH_SECTOR addr') = None"
    using cached_ready [OF s2(1)] by (auto simp: cached_def find_None_iff)
  note f3 = find_free_page_law [OF assms(8) s2(1,2)]
  have p3: "cache_wf st3" "journal_wf st3" "r' < TOTAL_FLASH_PAGES" "ready (flash_pages st3 ! r')" "address (flash_pages st3 ! r') = FLASH_SECTOR addr'"
    "page (flash_pages st3 ! r') = (\<lambda>_. 0xff)"
    using f3(2) [of r'] f3(3) f3(5) [of r'] fresh assms(9) \<open>cached st2 (FLASH_SECTOR addr') = None\<close> by simp_all
  have "FLASH_SECTOR a = FLASH_SECTOR addr"
    using assms(5,11,12) sector_decomp [of addr] unfolding sector_eq [OF sector_mod] by linarith
  then have "flash_byte st3 a = 0xff" using flash_byte_ready [OF p3(1,3,4), of a] p3(5,6) assms(9) by simp
  then show ?thesis using write_page_law(4) [OF p3(1-5) assms(10), of a] assms(13) by auto
qed

section \<open>Journal entries\<close>

lemma journal_bytes_length: "length (target_addr e) = TOTAL_FLASH_PAGES \<Longrightarrow> length (journal_bytes e) = JOURNAL_SIZE"
  using length_concat_map [of put_uint32_le 4 "target_addr e"] by (simp add: journal_bytes_def flash_sizes)

lemma journal_bytes_status:
  assumes "length (target_addr e) = TOTAL_FLASH_PAGES"
  shows "journal_bytes (e\<lparr>status := s\<rparr>) = (journal_bytes e)[28 := s]" "journal_bytes e ! 28 = status e"
proof -
  have "length (put_uint32_le (magic e) @ concat (map put_uint32_le (target_addr e))) = 28"
    using length_concat_map [of put_uint32_le 4 "target_addr e"] assms by (simp add: flash_sizes)
  then show "journal_bytes (e\<lparr>status := s\<rparr>) = (journal_bytes e)[28 := s]" "journal_bytes e ! 28 = status e"
    unfolding journal_bytes_def append_assoc [symmetric] by (simp_all add: list_update_append nth_append)
qed

lemma journal_roundtrip: "length (target_addr e) = TOTAL_FLASH_PAGES \<Longrightarrow> journal_decode (journal_bytes e) = e"
proof -
  assume l: "length (target_addr e) = TOTAL_FLASH_PAGES"
  have s: "journal_bytes e ! 28 = status e" by (rule journal_bytes_status(2) [OF l])
  have t: "get_uint32_le (drop (4 + 4 * i) (journal_bytes e)) = target_addr e ! i" if "i < TOTAL_FLASH_PAGES" for i
  proof -
    have "drop (4 + 4 * i) (journal_bytes e) = drop (i * 4) (concat (map put_uint32_le (target_addr e)) @ [status e, 0xff, 0xff, 0xff])"
      by (simp add: journal_bytes_def mult.commute)
    also have "\<dots> = put_uint32_le (target_addr e ! i) @ concat (map put_uint32_le (drop (Suc i) (target_addr e))) @ [status e, 0xff, 0xff, 0xff]"
      by (rule drop_concat_map) (use that l in simp_all)
    finally show ?thesis by (simp add: be_simps)
  qed
  have "map (\<lambda>i. get_uint32_le (drop (4 + 4 * i) (journal_bytes e))) [0 ..< TOTAL_FLASH_PAGES] = target_addr e"
    using t l by (intro nth_equalityI) simp_all
  moreover have "get_uint32_le (journal_bytes e) = magic e" by (simp add: journal_bytes_def be_simps)
  ultimately show ?thesis by (simp add: journal_decode_def s)
qed

lemma blank_bytes: "journal_bytes (blank_entry\<lparr>status := s\<rparr>) = replicate 28 0xff @ [s, 0xff, 0xff, 0xff]"
proof -
  have "put_uint32_le 0xffffffff = replicate 4 0xff"
    by (simp add: put_uint32_le_def put_uint32_be_def numeral_eq_Suc)
       (simp add: drop_bit_eq_div and_255 take_bit_eq_mod flip: numeral_eq_Suc)
  then show ?thesis by (simp add: journal_bytes_def blank_entry_def TOTAL_FLASH_PAGES_def numeral_eq_Suc)
qed

text \<open>Programming a journal page changes the entry only.\<close>

lemma program_entry:
  assumes "slot < FLASH_SECTOR_SIZE div JOURNAL_SIZE" "length b = JOURNAL_SIZE"
  shows "flash_range_program (J + journal_page slot) (entry_page (slot * JOURNAL_SIZE mod FLASH_PAGE_SIZE) b) FLASH_PAGE_SIZE m a =
     (if J + slot * JOURNAL_SIZE \<le> a \<and> a < J + slot * JOURNAL_SIZE + JOURNAL_SIZE then m a AND b ! (a - (J + slot * JOURNAL_SIZE)) else m a)"
proof -
  let ?o = "slot * JOURNAL_SIZE mod FLASH_PAGE_SIZE" and ?p = "journal_page slot"
  note jp = journal_page_law [OF assms(1)]
  have ones: "x AND (0xff :: byte) = x" for x by (simp add: and.commute [of x])
  have r: "J + slot * JOURNAL_SIZE = J + ?p + ?o" using jp(2) by simp
  show ?thesis
  proof (cases "J + ?p \<le> a \<and> a < J + ?p + FLASH_PAGE_SIZE")
    case True
    have "?o \<le> a - (J + ?p) \<and> a - (J + ?p) < ?o + JOURNAL_SIZE \<longleftrightarrow> J + ?p + ?o \<le> a \<and> a < J + ?p + ?o + JOURNAL_SIZE"
      using True by linarith
    moreover have "a - (J + ?p) - ?o = a - (J + ?p + ?o)" by simp
    ultimately show ?thesis using True by (simp add: flash_range_program_def entry_page_def assms(2) ones r)
  next
    case False
    then have "\<not> (J + ?p + ?o \<le> a \<and> a < J + ?p + ?o + JOURNAL_SIZE)" using jp(3) by linarith
    then show ?thesis using False unfolding r flash_range_program_def by (simp only: if_False)
  qed
qed

section \<open>Recovery after a loss of power\<close>

definition empty_page :: page_flash where
  "empty_page = \<lparr>page = (\<lambda>_. 0), address = 0, ready = False, erase = False, page_size = 0\<rparr>"

text \<open>What is left of the state: the flash itself, and the bounds. In RAM last_base is lost too; the scan of the lists of files
  (scan_region_internal, modelled as \<open>scan_region\<close> in Flash_Records) finds it again as the lowest record of the data pool, and asks for recovery without force when the lists are
  in order. Here last_base is the one before the loss, and recovery is called with force = False: the case that the scan finds the lowest record again and no corruption.\<close>

definition power_cycle :: "low_flash \<Rightarrow> low_flash" where
  "power_cycle st = st\<lparr>flash_pages := replicate TOTAL_FLASH_PAGES empty_page, ready_pages := 0, flash_available := False,
     locked_out := False, journal_slot := 0, last_journal_sector := 0, journal_pending := False,
     journal_finalize_pending := False, pending_journal_addr := 0, outcomes := []\<rparr>"

abbreviation entry_number :: "low_flash \<Rightarrow> nat \<Rightarrow> nat \<Rightarrow> byte list" where
  "entry_number st J k \<equiv> entry_at st (J + k * JOURNAL_SIZE)"

definition entry_done :: "low_flash \<Rightarrow> nat \<Rightarrow> nat \<Rightarrow> bool" where
  "entry_done st J k \<longleftrightarrow> \<not> journal_entry_is_erased (entry_number st J k) \<and>
     \<not> (journal_entry_valid_at (journal_decode (entry_number st J k)) J st \<and> status (journal_decode (entry_number st J k)) = JOURNAL_STATUS_PENDING)"

lemma scan_none:
  assumes "\<forall>k. i \<le> k \<and> k < n \<longrightarrow> entry_done st J k" "n < m \<longrightarrow> journal_entry_is_erased (entry_number st J n)" "i \<le> n" "n \<le> m"
  shows "scan_entries False J (map (\<lambda>k. k * JOURNAL_SIZE) [i ..< m]) st =
     (\<exists>k. i \<le> k \<and> k < n \<and> journal_entry_valid_at (journal_decode (entry_number st J k)) J st, None)"
  using assms
proof (induction "m - i" arbitrary: i)
  case 0
  then show ?case by simp
next
  case (Suc d)
  then have im: "i < m" by simp
  show ?case
  proof (cases "i = n")
    case True
    with Suc.prems(2) im show ?thesis by (simp add: upt_conv_Cons split: prod.split)
  next
    case False
    with Suc.prems(3) have "i < n" by simp
    then have s: "scan_entries False J (map (\<lambda>k. k * JOURNAL_SIZE) [Suc i ..< m]) st =
       (\<exists>k. Suc i \<le> k \<and> k < n \<and> journal_entry_valid_at (journal_decode (entry_number st J k)) J st, None)"
      using Suc.hyps(2) Suc.prems by (intro Suc.hyps(1)) auto
    have split: "(\<exists>k. i \<le> k \<and> k < n \<and> Q k) \<longleftrightarrow> Q i \<or> (\<exists>k. Suc i \<le> k \<and> k < n \<and> Q k)" for Q
      using \<open>i < n\<close> by (metis Suc_leD Suc_leI le_neq_implies_less order_refl)
    have "entry_done st J i" using Suc.prems(1) \<open>i < n\<close> by simp
    with s im show ?thesis unfolding split by (auto simp: upt_conv_Cons entry_done_def Let_def)
  qed
qed

lemma scan_some:
  assumes "\<forall>k. i \<le> k \<and> k < n \<longrightarrow> entry_done st J k" "n < m" "i \<le> n"
    and "\<not> journal_entry_is_erased (entry_number st J n)" "journal_entry_valid_at (journal_decode (entry_number st J n)) J st"
    and "status (journal_decode (entry_number st J n)) = JOURNAL_STATUS_PENDING"
  shows "scan_entries False J (map (\<lambda>k. k * JOURNAL_SIZE) [i ..< m]) st = (True, Some (n * JOURNAL_SIZE))"
  using assms(1,3)
proof (induction "n - i" arbitrary: i)
  case 0
  then have "i = n" by simp
  with assms(2,4-6) show ?case by (simp add: upt_conv_Cons Let_def split: prod.split)
next
  case (Suc d)
  then have "i < n" by simp
  then have s: "scan_entries False J (map (\<lambda>k. k * JOURNAL_SIZE) [Suc i ..< m]) st = (True, Some (n * JOURNAL_SIZE))"
    using Suc.hyps(2) Suc.prems by (intro Suc.hyps(1)) auto
  have "entry_done st J i" using Suc.prems(1) \<open>i < n\<close> by simp
  with s \<open>i < n\<close> assms(2) show ?case by (auto simp: upt_conv_Cons entry_done_def Let_def)
qed

lemma restore_law:
  assumes "outcomes st = []"
    and "\<forall>j < length ts. target_used (ts ! j) \<longrightarrow> start_data_pool st \<le> unat (ts ! j) \<and> unat (ts ! j) < end_data_pool st \<and>
       start_data_pool st + (i + j + 1) * FLASH_SECTOR_SIZE \<le> J \<and> J \<le> unat (ts ! j) \<and>
       (\<forall>k < FLASH_SECTOR_SIZE. nor st (J - (i + j + 1) * FLASH_SECTOR_SIZE + k) = F (unat (ts ! j) + k))"
  shows "\<exists>st'. restore_targets i ts J st = (PICOKEYS_OK, st') \<and> outcomes st' = [] \<and> (\<forall>a. nor st' a = nor st a \<or> J \<le> a \<and> nor st' a = F a) \<and>
    (\<forall>j < length ts. target_used (ts ! j) \<longrightarrow> (\<forall>k < FLASH_SECTOR_SIZE. nor st' (unat (ts ! j) + k) = F (unat (ts ! j) + k)))"
  using assms
proof (induction ts arbitrary: i st)
  case (Cons t ts)
  have rest: "\<forall>j < length ts. target_used (ts ! j) \<longrightarrow> start_data_pool st \<le> unat (ts ! j) \<and> unat (ts ! j) < end_data_pool st \<and>
       start_data_pool st + (Suc i + j + 1) * FLASH_SECTOR_SIZE \<le> J \<and> J \<le> unat (ts ! j) \<and>
       (\<forall>k < FLASH_SECTOR_SIZE. nor st (J - (Suc i + j + 1) * FLASH_SECTOR_SIZE + k) = F (unat (ts ! j) + k))"
    using Cons.prems(2) [THEN spec, of "Suc j" for j] by auto
  show ?case
  proof (cases "target_used t")
    case False
    from Cons.IH [OF Cons.prems(1) rest] False show ?thesis by (simp add: All_less_Suc2 Let_def)
  next
    case True
    let ?redo = "J - (i + 1) * FLASH_SECTOR_SIZE"
    have h: "start_data_pool st \<le> unat t" "unat t < end_data_pool st" "start_data_pool st + (i + 1) * FLASH_SECTOR_SIZE \<le> J" "J \<le> unat t"
      "\<forall>k < FLASH_SECTOR_SIZE. nor st (?redo + k) = F (unat t + k)"
      using mp [OF mp [OF spec [OF Cons.prems(2), of 0], unfolded length_Cons nth_Cons_0 add_0_right], OF zero_less_Suc True] by blast+
    define st1 where "st1 = st\<lparr>flash_pages := (flash_pages st)[i := (flash_pages st ! i)\<lparr>page := (\<lambda>k. nor st (?redo + k))\<rparr>],
        nor := (flash_range_program (unat t) (\<lambda>k. nor st (?redo + k)) FLASH_SECTOR_SIZE \<circ> flash_range_erase (unat t)) (nor st)\<rparr>"
    have step: "restore_targets i (t # ts) J st = restore_targets (Suc i) ts J st1"
      using True h(1-3) Cons.prems(1) by (simp add: do_flash_op_erase_program_def flash_op_done st1_def Let_def)
    have n: "nor st1 a = (if unat t \<le> a \<and> a < unat t + FLASH_SECTOR_SIZE then F a else nor st a)" for a
    proof -
      have "nor st1 a = (if unat t \<le> a \<and> a < unat t + FLASH_SECTOR_SIZE then nor st (?redo + (a - unat t)) else nor st a)"
        by (simp add: st1_def flash_range_program_def flash_range_erase_def)
      then show ?thesis using h(5) [THEN spec, of "a - unat t"] by auto
    qed
    have low: "nor st1 a = nor st a" if "a < J" for a using n [of a] h(4) that by simp
    have redo_low: "J - (Suc i + j + 1) * FLASH_SECTOR_SIZE + k < J" if "k < FLASH_SECTOR_SIZE" "start_data_pool st + (Suc i + j + 1) * FLASH_SECTOR_SIZE \<le> J" for j k
      using that by simp
    have b: "start_data_pool st1 = start_data_pool st" "end_data_pool st1 = end_data_pool st" "outcomes st1 = []" using Cons.prems(1) by (simp_all add: st1_def)
    have "\<forall>j < length ts. target_used (ts ! j) \<longrightarrow> start_data_pool st1 \<le> unat (ts ! j) \<and> unat (ts ! j) < end_data_pool st1 \<and>
       start_data_pool st1 + (Suc i + j + 1) * FLASH_SECTOR_SIZE \<le> J \<and> J \<le> unat (ts ! j) \<and>
       (\<forall>k < FLASH_SECTOR_SIZE. nor st1 (J - (Suc i + j + 1) * FLASH_SECTOR_SIZE + k) = F (unat (ts ! j) + k))"
      using rest low [OF redo_low] unfolding b by metis
    from Cons.IH [OF b(3) this] obtain st' where r: "restore_targets (Suc i) ts J st1 = (PICOKEYS_OK, st')" "outcomes st' = []"
      "\<forall>a. nor st' a = nor st1 a \<or> J \<le> a \<and> nor st' a = F a"
      "\<forall>j < length ts. target_used (ts ! j) \<longrightarrow> (\<forall>k < FLASH_SECTOR_SIZE. nor st' (unat (ts ! j) + k) = F (unat (ts ! j) + k))" by blast
    have "nor st' a = nor st a \<or> J \<le> a \<and> nor st' a = F a" for a
      using r(3) [THEN spec, of a] n [of a] h(4) by (cases "unat t \<le> a \<and> a < unat t + FLASH_SECTOR_SIZE") auto
    moreover have "nor st' (unat t + k) = F (unat t + k)" if "k < FLASH_SECTOR_SIZE" for k
      using r(3) [THEN spec, of "unat t + k"] n [of "unat t + k"] that by auto
    ultimately show ?thesis using r(1,2,4) unfolding step by (auto simp: All_less_Suc2)
  qed
qed simp

text \<open>The entry number \<open>k\<close> of a journal sector, in raw memory.\<close>

definition raw_entry :: "(nat \<Rightarrow> byte) \<Rightarrow> nat \<Rightarrow> nat \<Rightarrow> byte list" where
  "raw_entry m J k = map (\<lambda>i. m (J + k * JOURNAL_SIZE + i)) [0 ..< JOURNAL_SIZE]"

lemma entry_number_raw: "ready_pages st = 0 \<Longrightarrow> entry_number st J k = raw_entry (nor st) J k"
  by (simp add: entry_at_def raw_entry_def flash_read_def)

lemma raw_entry_length: "length (raw_entry m J k) = JOURNAL_SIZE" by (simp add: raw_entry_def)

lemma raw_entry_cong: "(\<And>a. J + k * JOURNAL_SIZE \<le> a \<Longrightarrow> a < J + k * JOURNAL_SIZE + JOURNAL_SIZE \<Longrightarrow> m a = m' a) \<Longrightarrow> raw_entry m J k = raw_entry m' J k"
  by (simp add: raw_entry_def)

lemma raw_entry_program:
  assumes "slot < FLASH_SECTOR_SIZE div JOURNAL_SIZE" "length b = JOURNAL_SIZE"
  shows "raw_entry (flash_range_program (J + journal_page slot) (entry_page (slot * JOURNAL_SIZE mod FLASH_PAGE_SIZE) b) FLASH_PAGE_SIZE m) J k =
     (if k = slot then map2 (AND) (raw_entry m J k) b else raw_entry m J k)"
proof (cases "k = slot")
  case True
  then show ?thesis
    using assms(2) by (intro nth_equalityI) (simp_all add: raw_entry_def program_entry [OF assms])
next
  case False
  have "k * JOURNAL_SIZE + JOURNAL_SIZE \<le> slot * JOURNAL_SIZE \<or> slot * JOURNAL_SIZE + JOURNAL_SIZE \<le> k * JOURNAL_SIZE"
    using False by (simp add: flash_sizes) arith
  then have "raw_entry (flash_range_program (J + journal_page slot) (entry_page (slot * JOURNAL_SIZE mod FLASH_PAGE_SIZE) b) FLASH_PAGE_SIZE m) J k = raw_entry m J k"
    by (intro raw_entry_cong) (auto simp: program_entry [OF assms])
  with False show ?thesis by simp
qed

lemma ones_and: "length b = n \<Longrightarrow> map2 (AND) (replicate n (0xff :: byte)) b = b"
  by (intro nth_equalityI) simp_all

lemma status_and:
  fixes s :: byte
  assumes "length b = JOURNAL_SIZE"
  shows "map2 (AND) b (replicate 28 0xff @ [s, 0xff, 0xff, 0xff]) = b[28 := b ! 28 AND s]"
proof (rule nth_equalityI)
  fix i assume "i < length (map2 (AND) b (replicate 28 0xff @ [s, 0xff, 0xff, 0xff]))"
  then have i: "i < 32" using assms by (simp add: flash_sizes)
  have ones: "x AND (0xff :: byte) = x" for x by (simp add: and.commute [of x])
  have "(replicate 28 0xff @ [s, 0xff, 0xff, 0xff :: byte]) ! i = (if i = 28 then s else 0xff)"
  proof (cases "i < 28")
    case False
    then have "i = 28 \<or> i = 29 \<or> i = 30 \<or> i = 31" using i by arith
    then show ?thesis by (elim disjE) (simp_all add: nth_append)
  qed (simp add: nth_append)
  with i assms show "map2 (AND) b (replicate 28 0xff @ [s, 0xff, 0xff, 0xff]) ! i = b[28 := b ! 28 AND s] ! i"
    by (simp add: flash_sizes ones nth_list_update)
qed (use assms in \<open>simp add: flash_sizes\<close>)

text \<open>Programming a status into an entry.\<close>

lemma raw_entry_status:
  assumes "slot < FLASH_SECTOR_SIZE div JOURNAL_SIZE" "length (target_addr e) = TOTAL_FLASH_PAGES" "raw_entry m J slot = journal_bytes e"
  shows "raw_entry (flash_range_program (J + journal_page slot) (entry_page (slot * JOURNAL_SIZE mod FLASH_PAGE_SIZE)
       (journal_bytes (blank_entry\<lparr>status := s\<rparr>))) FLASH_PAGE_SIZE m) J k =
     (if k = slot then journal_bytes (e\<lparr>status := status e AND s\<rparr>) else raw_entry m J k)"
proof -
  have l: "length (journal_bytes (blank_entry\<lparr>status := s\<rparr>)) = JOURNAL_SIZE" by (simp add: blank_bytes flash_sizes)
  show ?thesis
    unfolding raw_entry_program [OF assms(1) l]
    using assms(3) status_and [OF journal_bytes_length [OF assms(2)], of s] journal_bytes_status [OF assms(2)]
    by (simp add: blank_bytes)
qed

lemma erased_raw: "journal_entry_is_erased (raw_entry m J k) \<longleftrightarrow> raw_entry m J k = replicate JOURNAL_SIZE 0xff"
  using replicate_length_same [of "raw_entry m J k" "0xff"]
  by (auto simp: journal_entry_is_erased_def list_all_iff raw_entry_length)

lemma entry_positions_map: "entry_positions = map (\<lambda>k. k * JOURNAL_SIZE) [0 ..< FLASH_SECTOR_SIZE div JOURNAL_SIZE]"
  by (simp add: entry_positions_def)

text \<open>A journal without a pending entry is left alone.\<close>

lemma recover_none:
  assumes "start_data_pool st + FLASH_SECTOR_SIZE \<le> J" "journal_sector_of st = J" "ready_pages st = 0" "\<forall>k < n. entry_done st J k"
    and "n < FLASH_SECTOR_SIZE div JOURNAL_SIZE \<longrightarrow> raw_entry (nor st) J n = replicate JOURNAL_SIZE 0xff"
    and "n \<le> FLASH_SECTOR_SIZE div JOURNAL_SIZE" "k < n" "journal_entry_valid_at (journal_decode (raw_entry (nor st) J k)) J st"
  shows "low_flash_recover_journal False st = (PICOKEYS_ERR_NO_MEMORY, st)"
proof -
  have er: "n < FLASH_SECTOR_SIZE div JOURNAL_SIZE \<longrightarrow> journal_entry_is_erased (entry_number st J n)"
    using assms(5) unfolding entry_number_raw [OF assms(3)] erased_raw .
  have v: "journal_entry_valid_at (journal_decode (entry_number st J k)) J st"
    using assms(8) unfolding entry_number_raw [OF assms(3)] .
  have "scan_entries False J entry_positions st = (True, None)"
    unfolding entry_positions_map using scan_none [of 0 n st J "FLASH_SECTOR_SIZE div JOURNAL_SIZE"] assms(4,6,7) er v by auto
  with assms(1,2) show ?thesis by (simp add: low_flash_recover_journal_def recover_from.simps [of False J])
qed

text \<open>A journal in use, between transactions; and a cache that holds only sectors from that of last_base up to the one with the head of the data pool.\<close>

definition journal_steady :: "low_flash \<Rightarrow> bool" where
  "journal_steady st \<longleftrightarrow>
     (let J = journal_sector_of st in
      start_data_pool st + FLASH_SECTOR_SIZE \<le> J \<and> last_journal_sector st = J \<and> 0 < journal_slot st \<and>
      journal_slot st < FLASH_SECTOR_SIZE div JOURNAL_SIZE \<and> \<not> journal_pending st \<and> \<not> journal_finalize_pending st \<and>
      (\<forall>k < journal_slot st. entry_done (power_cycle st) J k) \<and>
      (\<exists>k < journal_slot st. journal_entry_valid_at (journal_decode (raw_entry (nor st) J k)) J (power_cycle st)) \<and>
      (\<forall>k. journal_slot st \<le> k \<and> k < FLASH_SECTOR_SIZE div JOURNAL_SIZE \<longrightarrow> raw_entry (nor st) J k = replicate JOURNAL_SIZE 0xff))"

definition pages_in_data :: "low_flash \<Rightarrow> bool" where
  "pages_in_data st \<longleftrightarrow> end_data_pool st < 2 ^ 32 \<and>
     (\<forall>p \<in> set (flash_pages st). ready p \<longrightarrow> FLASH_SECTOR (last_base st) \<le> address p \<and> start_data_pool st \<le> address p \<and>
        address p < end_data_pool st)"

lemma steadyD:
  assumes "journal_steady st"
  shows "start_data_pool st + FLASH_SECTOR_SIZE \<le> journal_sector_of st" "last_journal_sector st = journal_sector_of st" "journal_slot st \<noteq> 0"
    "journal_slot st < FLASH_SECTOR_SIZE div JOURNAL_SIZE" "\<not> journal_pending st" "\<not> journal_finalize_pending st"
    "journal_sector_of st + FLASH_SECTOR_SIZE = FLASH_SECTOR (last_base st)" "journal_wf st"
    "raw_entry (nor st) (journal_sector_of st) (journal_slot st) = replicate JOURNAL_SIZE 0xff"
proof -
  show s: "start_data_pool st + FLASH_SECTOR_SIZE \<le> journal_sector_of st" "last_journal_sector st = journal_sector_of st" "journal_slot st \<noteq> 0"
    "journal_slot st < FLASH_SECTOR_SIZE div JOURNAL_SIZE" "\<not> journal_pending st" "\<not> journal_finalize_pending st"
    "raw_entry (nor st) (journal_sector_of st) (journal_slot st) = replicate JOURNAL_SIZE 0xff"
    using assms by (auto simp: journal_steady_def Let_def)
  show "journal_sector_of st + FLASH_SECTOR_SIZE = FLASH_SECTOR (last_base st)"
    using s(1) sector_pos by (simp add: journal_sector_of_def)
  show "journal_wf st" using s by (simp add: journal_wf_def)
qed

lemma pools_same:
  assumes "bounds st' = bounds st"
  shows "journal_sector_of (power_cycle st') = journal_sector_of st" "start_data_pool (power_cycle st') = start_data_pool st"
    "journal_entry_valid_at e J (power_cycle st') = journal_entry_valid_at e J (power_cycle st)"
    "entry_number (power_cycle st') J k = raw_entry (nor st') J k"
  using assms entry_number_raw [of "power_cycle st'" J k]
  by (simp_all add: bounds_def power_cycle_def journal_sector_of_def journal_entry_valid_at_def journal_entry_header_valid_def)

lemma entry_done_cong:
  "bounds st' = bounds st \<Longrightarrow> raw_entry (nor st') J k = raw_entry (nor st) J k \<Longrightarrow> entry_done (power_cycle st') J k = entry_done (power_cycle st) J k"
  using pools_same [of st' st] pools_same(4) [of st st] by (simp add: entry_done_def)

text \<open>After a crash with the entry of this transaction not pending: nothing is restored.\<close>

lemma recover_quiet:
  assumes "journal_steady st" "bounds st' = bounds st"
    and "\<And>k. k < FLASH_SECTOR_SIZE div JOURNAL_SIZE \<Longrightarrow> k \<noteq> journal_slot st \<Longrightarrow> raw_entry (nor st') (journal_sector_of st) k = raw_entry (nor st) (journal_sector_of st) k"
    and "raw_entry (nor st') (journal_sector_of st) (journal_slot st) = replicate JOURNAL_SIZE 0xff \<or>
         entry_done (power_cycle st') (journal_sector_of st) (journal_slot st)"
  shows "low_flash_recover_journal False (power_cycle st') = (PICOKEYS_ERR_NO_MEMORY, power_cycle st')"
proof -
  let ?J = "journal_sector_of st" and ?n = "journal_slot st"
  note ps = pools_same [OF assms(2)] and sd = steadyD [OF assms(1)]
  have d: "entry_done (power_cycle st') ?J k" if "k < ?n" for k
    using entry_done_cong [OF assms(2), of ?J k] assms(1,3) sd(4) that by (simp add: journal_steady_def Let_def)
  obtain k where k: "k < ?n" "journal_entry_valid_at (journal_decode (raw_entry (nor st') ?J k)) ?J (power_cycle st')"
  proof -
    obtain k where k: "k < ?n" "journal_entry_valid_at (journal_decode (raw_entry (nor st) ?J k)) ?J (power_cycle st)"
      using assms(1) by (auto simp: journal_steady_def Let_def)
    then show thesis using that [of k] assms(3) [of k] ps(3) sd(4) by simp
  qed
  have f: "raw_entry (nor st') ?J (Suc ?n) = replicate JOURNAL_SIZE 0xff" if "Suc ?n < FLASH_SECTOR_SIZE div JOURNAL_SIZE"
    using assms(1,3) that by (simp add: journal_steady_def Let_def)
  have pc: "nor (power_cycle st') = nor st'" "ready_pages (power_cycle st') = 0" by (simp_all add: power_cycle_def)
  have lo: "start_data_pool (power_cycle st') + FLASH_SECTOR_SIZE \<le> ?J" using sd(1) ps(2) by simp
  from assms(4) show ?thesis
  proof
    assume e: "raw_entry (nor st') ?J ?n = replicate JOURNAL_SIZE 0xff"
    show ?thesis by (rule recover_none [OF lo ps(1) pc(2), of ?n k]) (use d e sd(4) k in \<open>simp_all add: pc\<close>)
  next
    assume "entry_done (power_cycle st') ?J ?n"
    with d have "\<forall>k < Suc ?n. entry_done (power_cycle st') ?J k" by (simp add: less_Suc_eq)
    then show ?thesis by (intro recover_none [OF lo ps(1) pc(2), of "Suc ?n" k]) (use f sd(4) k in \<open>simp_all add: pc\<close>)
  qed
qed

lemma entry_done_bytes:
  assumes "raw_entry (nor st) J k = journal_bytes e" "length (target_addr e) = TOTAL_FLASH_PAGES" "magic e = JOURNAL_MAGIC"
  shows "\<not> journal_entry_is_erased (raw_entry (nor st) J k)"
    "status e \<noteq> JOURNAL_STATUS_PENDING \<Longrightarrow> entry_done (power_cycle st) J k"
proof -
  have "journal_bytes e ! 0 = 0x4E" using assms(3) by (simp add: journal_bytes_def journal_consts put_uint32_le_def put_uint32_be_def)
  moreover have "journal_bytes e ! 0 \<in> set (journal_bytes e)" using journal_bytes_length [OF assms(2)] by (intro nth_mem) (simp add: flash_sizes)
  ultimately have m: "0x4E \<in> set (raw_entry (nor st) J k)" using assms(1) by simp
  show n: "\<not> journal_entry_is_erased (raw_entry (nor st) J k)"
  proof
    assume "journal_entry_is_erased (raw_entry (nor st) J k)"
    with m have "(0x4E :: byte) = 0xff" by (simp only: journal_entry_is_erased_def list_all_iff)
    then show False by simp
  qed
  show "status e \<noteq> JOURNAL_STATUS_PENDING \<Longrightarrow> entry_done (power_cycle st) J k"
    using n assms(1) journal_roundtrip [OF assms(2)] pools_same(4) [of st st J k] by (simp add: entry_done_def)
qed

text \<open>Writing the journal: without success nothing is pending; with it, the entry lists the ready sectors and
  their copies are below.\<close>

definition redo_ready :: "low_flash \<Rightarrow> nat \<Rightarrow> u32 list \<Rightarrow> page_flash list \<Rightarrow> bool" where
  "redo_ready st J targets ps \<longleftrightarrow> length targets = TOTAL_FLASH_PAGES \<and>
     (\<forall>j < TOTAL_FLASH_PAGES. redo_done st (start_data_pool st) (J - FLASH_SECTOR_SIZE) (replicate TOTAL_FLASH_PAGES 0xffffffff) targets j (ps ! j))"

lemma write_journal_steady:
  assumes "journal_steady st" "cache_wf st" "write_journal st = (ok, st')"
  shows "cache_same st st' \<and> (\<forall>a \<ge> FLASH_SECTOR (last_base st). nor st' a = nor st a) \<and>
    (\<forall>k. k \<noteq> journal_slot st \<longrightarrow> raw_entry (nor st') (journal_sector_of st) k = raw_entry (nor st) (journal_sector_of st) k) \<and>
    (\<not> ok \<longrightarrow> raw_entry (nor st') (journal_sector_of st) (journal_slot st) = replicate JOURNAL_SIZE 0xff \<or>
         entry_done (power_cycle st') (journal_sector_of st) (journal_slot st)) \<and>
    (ok \<longrightarrow> (\<exists>targets. redo_ready st' (journal_sector_of st) targets (flash_pages st) \<and>
         raw_entry (nor st') (journal_sector_of st) (journal_slot st) =
           journal_bytes \<lparr>magic = JOURNAL_MAGIC, target_addr = targets, status = JOURNAL_STATUS_PENDING\<rparr>) \<and>
       journal_wf st' \<and> journal_pending st' \<and> journal_slot st' = journal_slot st \<and>
       pending_journal_addr st' = journal_sector_of st + journal_page (journal_slot st))"
proof -
  let ?J = "journal_sector_of st" and ?n = "journal_slot st" and ?ts = "replicate TOTAL_FLASH_PAGES 0xffffffff :: u32 list"
  note sd = steadyD [OF assms(1)]
  have room: "\<not> ?J < start_data_pool st + FLASH_SECTOR_SIZE" using sd(1) by simp
  have s1: "open_sector ?J st = (True, st)" using sd(2,3) by (simp add: open_sector_def)
  have len: "length (flash_pages st) = TOTAL_FLASH_PAGES" using assms(2) by (simp add: cache_wf_def)
  obtain ok2 targets st2 where s2: "write_redo 0 (flash_pages st) (?J - FLASH_SECTOR_SIZE) ?ts st = ((ok2, targets), st2)" by (metis prod.exhaust)
  have "0 + length (flash_pages st) \<le> length ?ts" using len by simp
  note w = write_redo_law [OF s2 this]
  have J: "FLASH_SECTOR_SIZE \<le> ?J" using sd(1) by simp
  have n2: "nor st2 a = nor st a" if "?J \<le> a" for a using w that J by simp
  have same2: "cache_same st st2" and js2: "journal_slot st2 = ?n" using w by (simp_all add: journal_fields_def)
  have raw2: "raw_entry (nor st2) ?J k = raw_entry (nor st) ?J k" for k by (rule raw_entry_cong) (use n2 in simp)
  show ?thesis
  proof (cases ok2)
    case False
    then have e: "ok = False" "st' = st2" using assms(3) s1 s2 room by (simp_all add: write_journal_def Let_def)
    show ?thesis using same2 n2 raw2 sd(7,9) by (auto simp: e)
  next
    case True
    then have s3: "enter_journal ?J targets st2 = (ok, st')" using assms(3) s1 s2 room by (simp add: write_journal_def Let_def)
    note el = enter_journal_law [OF s3, unfolded js2, OF sd(4)]
    have n3: "\<forall>a \<ge> FLASH_SECTOR (last_base st). nor st' a = nor st a" using el(2) n2 sd(7) by simp
    have same: "cache_same st st'" by (rule cache_same_trans [OF same2 el(1)])
    have lt: "length targets = TOTAL_FLASH_PAGES" using w by simp
    let ?e = "\<lambda>s. \<lparr>magic = JOURNAL_MAGIC, target_addr = targets, status = s\<rparr>"
    let ?a = "?J + journal_page ?n" and ?o = "?n * JOURNAL_SIZE mod FLASH_PAGE_SIZE"
    obtain r1 st3 where o1: "do_flash_op_program ?a (entry_page ?o (journal_bytes (?e JOURNAL_STATUS_EMPTY))) FLASH_PAGE_SIZE st2 = (r1, st3)" by fastforce
    obtain r2 st4 where o2: "do_flash_op_program ?a (entry_page ?o (journal_bytes (blank_entry\<lparr>status := JOURNAL_STATUS_PENDING\<rparr>))) FLASH_PAGE_SIZE st3 = (r2, st4)" by fastforce
    have e: "ok = (r1 \<noteq> PICOKEYS_ERR_NO_MEMORY \<and> r2 \<noteq> PICOKEYS_ERR_NO_MEMORY)"
      "st' = (if r1 = PICOKEYS_ERR_NO_MEMORY then st3 else if r2 = PICOKEYS_ERR_NO_MEMORY then st4
         else st4\<lparr>journal_pending := True, pending_journal_addr := ?a\<rparr>)"
      using s3 o1 o2 by (auto simp: enter_journal_def Let_def journal_page_def js2 split: if_splits)
    have l1: "length (journal_bytes (?e JOURNAL_STATUS_EMPTY)) = JOURNAL_SIZE" by (rule journal_bytes_length) (simp add: lt)
    have low: "nor st' a = nor st2 a" if "a < ?J" for a using el(2) that by simp
    have redo: "redo_ready st' ?J targets (flash_pages st)"
      unfolding redo_ready_def
    proof (intro conjI allI impI lt)
      fix j assume j: "j < TOTAL_FLASH_PAGES"
      then have d: "redo_done st2 (start_data_pool st) (?J - FLASH_SECTOR_SIZE) ?ts targets j (flash_pages st ! j)" using w True len by simp
      have "?J - FLASH_SECTOR_SIZE - j * FLASH_SECTOR_SIZE + k < ?J" if "k < FLASH_SECTOR_SIZE" for k using that J by simp
      with d low show "redo_done st' (start_data_pool st') (?J - FLASH_SECTOR_SIZE) ?ts targets j (flash_pages st ! j)"
        using cache_sameD(2) [OF same] by (auto simp: redo_done_def split: if_splits)
    qed
    have first: "raw_entry (nor st3) ?J k = (if k = ?n then journal_bytes (?e JOURNAL_STATUS_EMPTY) else raw_entry (nor st) ?J k)"
      if "r1 \<noteq> PICOKEYS_ERR_NO_MEMORY" for k
    proof -
      have "nor st3 = flash_range_program ?a (entry_page ?o (journal_bytes (?e JOURNAL_STATUS_EMPTY))) FLASH_PAGE_SIZE (nor st2)"
        using flash_op_cases [OF o1 [unfolded do_flash_op_program_def]] that by fastforce
      then show ?thesis using raw_entry_program [OF sd(4) l1] raw2 sd(9) ones_and [OF l1] by simp
    qed
    have second: "raw_entry (nor st4) ?J k = (if k = ?n then journal_bytes (?e JOURNAL_STATUS_PENDING) else raw_entry (nor st) ?J k)"
      if "r1 \<noteq> PICOKEYS_ERR_NO_MEMORY" "r2 \<noteq> PICOKEYS_ERR_NO_MEMORY" for k
    proof -
      have "nor st4 = flash_range_program ?a (entry_page ?o (journal_bytes (blank_entry\<lparr>status := JOURNAL_STATUS_PENDING\<rparr>))) FLASH_PAGE_SIZE (nor st3)"
        using flash_op_cases [OF o2 [unfolded do_flash_op_program_def]] that(2) by fastforce
      moreover have "raw_entry (nor st3) ?J ?n = journal_bytes (?e JOURNAL_STATUS_EMPTY)" using first [OF that(1), of ?n] by simp
      ultimately show ?thesis
        using raw_entry_status [OF sd(4), of "?e JOURNAL_STATUS_EMPTY" "nor st3" ?J JOURNAL_STATUS_PENDING k] first [OF that(1), of k] lt
        by (simp add: journal_consts)
    qed
    have refused1: "nor st3 = nor st2" if "r1 = PICOKEYS_ERR_NO_MEMORY"
      using flash_op_cases [OF o1 [unfolded do_flash_op_program_def]] that by fastforce
    have refused2: "nor st4 = nor st3" if "r2 = PICOKEYS_ERR_NO_MEMORY"
      using flash_op_cases [OF o2 [unfolded do_flash_op_program_def]] that by fastforce
    have raw: "raw_entry (nor st') ?J k = raw_entry (nor st) ?J k" if "k \<noteq> ?n" for k
      using first [of k] second [of k] refused1 refused2 raw2 [of k] that by (auto simp: e(2))
    have fail: "raw_entry (nor st') ?J ?n = replicate JOURNAL_SIZE 0xff \<or> entry_done (power_cycle st') ?J ?n" if "\<not> ok"
    proof (cases "r1 = PICOKEYS_ERR_NO_MEMORY")
      case True
      then show ?thesis using refused1 raw2 [of ?n] sd(9) by (simp add: e(2))
    next
      case False
      with that have "r2 = PICOKEYS_ERR_NO_MEMORY" by (simp add: e(1))
      with False have "raw_entry (nor st') ?J ?n = journal_bytes (?e JOURNAL_STATUS_EMPTY)" using first [of ?n] refused2 by (simp add: e(2))
      from entry_done_bytes(2) [OF this] lt show ?thesis by (simp add: journal_consts)
    qed
    have good: "raw_entry (nor st') ?J ?n = journal_bytes (?e JOURNAL_STATUS_PENDING)" if ok
      using that second [of ?n] by (simp add: e)
    have wf: "journal_wf st' \<and> journal_pending st'" if ok
      using el(3,4) that sd(4,7) js2 w journal_page_law(1) [OF sd(4)] cache_sameD(2) [OF same]
      by (simp add: journal_wf_def)
    show ?thesis using same n3 raw fail good redo wf el(3,4) js2 by auto
  qed
qed

lemma page_bytes:
  assumes "cache_wf st" "j < TOTAL_FLASH_PAGES" "ready (flash_pages st ! j)" "k < FLASH_SECTOR_SIZE"
  shows "flash_byte st (address (flash_pages st ! j) + k) = page (flash_pages st ! j) k"
proof -
  let ?s = "address (flash_pages st ! j)"
  have s: "?s mod FLASH_SECTOR_SIZE = 0" using assms(1-3) nth_mem [of j "flash_pages st"] by (auto simp: cache_wf_def)
  then have f: "FLASH_SECTOR (?s + k) = ?s" using sector_eq [OF s, of "?s + k"] assms(4) by simp
  moreover have "(?s + k) mod FLASH_SECTOR_SIZE = k" using sector_offset [of "?s + k"] f by simp
  ultimately show ?thesis using flash_byte_ready [OF assms(1-3), of "?s + k"] by simp
qed

text \<open>After a crash with the entry pending: every sector of the transaction is restored.\<close>

lemma recover_pending:
  assumes "journal_steady st" "cache_wf st" "pages_in_data st" "bounds st' = bounds st" "ready_pages st \<noteq> 0"
    and "\<And>k. k < FLASH_SECTOR_SIZE div JOURNAL_SIZE \<Longrightarrow> k \<noteq> journal_slot st \<Longrightarrow> raw_entry (nor st') (journal_sector_of st) k = raw_entry (nor st) (journal_sector_of st) k"
    and "redo_ready st' (journal_sector_of st) targets (flash_pages st)"
    and "raw_entry (nor st') (journal_sector_of st) (journal_slot st) =
       journal_bytes \<lparr>magic = JOURNAL_MAGIC, target_addr = targets, status = JOURNAL_STATUS_PENDING\<rparr>"
    and "\<forall>a \<ge> FLASH_SECTOR (last_base st). nor st' a = nor st a \<or> nor st' a = flash_byte st a"
  shows "\<forall>a \<ge> FLASH_SECTOR (last_base st). nor (snd (low_flash_recover_journal False (power_cycle st'))) a = flash_byte st a"
proof -
  let ?J = "journal_sector_of st" and ?n = "journal_slot st" and ?p = "power_cycle st'"
  let ?e = "\<lparr>magic = JOURNAL_MAGIC, target_addr = targets, status = JOURNAL_STATUS_PENDING\<rparr>"
  note sd = steadyD [OF assms(1)] and ps = pools_same [OF assms(4)]
  have len: "length (flash_pages st) = TOTAL_FLASH_PAGES" "length targets = TOTAL_FLASH_PAGES"
    using assms(2,7) by (simp_all add: cache_wf_def redo_ready_def)
  have b: "start_data_pool st' = start_data_pool st" "end_data_pool st' = end_data_pool st" "nor ?p = nor st'" "outcomes ?p = []"
    "start_data_pool ?p = start_data_pool st" "end_data_pool ?p = end_data_pool st"
    using assms(4) by (simp_all add: bounds_def power_cycle_def)
  have J: "FLASH_SECTOR_SIZE \<le> ?J" using sd(1) by simp
  have page_j: "ready (flash_pages st ! j) \<Longrightarrow> target_used (targets ! j) \<and> unat (targets ! j) = address (flash_pages st ! j) \<and>
      start_data_pool st \<le> unat (targets ! j) \<and> unat (targets ! j) < end_data_pool st \<and> unat (targets ! j) mod FLASH_SECTOR_SIZE = 0 \<and>
      start_data_pool st + (j + 1) * FLASH_SECTOR_SIZE \<le> ?J \<and> ?J \<le> unat (targets ! j) \<and>
      (\<forall>k < FLASH_SECTOR_SIZE. nor st' (?J - (j + 1) * FLASH_SECTOR_SIZE + k) = flash_byte st (unat (targets ! j) + k))"
    "\<not> ready (flash_pages st ! j) \<Longrightarrow> \<not> target_used (targets ! j)" if j: "j < TOTAL_FLASH_PAGES" for j
  proof -
    have d: "redo_done st' (start_data_pool st) (?J - FLASH_SECTOR_SIZE) (replicate TOTAL_FLASH_PAGES 0xffffffff) targets j (flash_pages st ! j)"
      using assms(7) j by (simp add: redo_ready_def b)
    show "\<not> target_used (targets ! j)" if "\<not> ready (flash_pages st ! j)"
      using d that j by (simp add: redo_done_def target_used_def UINTPTR_MAX_def)
    assume r: "ready (flash_pages st ! j)"
    have m: "flash_pages st ! j \<in> set (flash_pages st)" using j len by simp
    have a: "FLASH_SECTOR (last_base st) \<le> address (flash_pages st ! j)" "start_data_pool st \<le> address (flash_pages st ! j)"
      "address (flash_pages st ! j) < end_data_pool st" "end_data_pool st < 2 ^ 32"
      "address (flash_pages st ! j) mod FLASH_SECTOR_SIZE = 0"
      using assms(2,3) r m by (auto simp: pages_in_data_def cache_wf_def)
    have t: "targets ! j = of_nat (address (flash_pages st ! j))" "start_data_pool st + j * FLASH_SECTOR_SIZE \<le> ?J - FLASH_SECTOR_SIZE"
      "\<forall>k < FLASH_SECTOR_SIZE. nor st' (?J - FLASH_SECTOR_SIZE - j * FLASH_SECTOR_SIZE + k) = page (flash_pages st ! j) k"
      using d r by (simp_all add: redo_done_def)
    have u: "unat (targets ! j) = address (flash_pages st ! j)" using a(3,4) by (simp add: t(1) unat_of_nat)
    have "address (flash_pages st ! j) \<noteq> 0" using a(1) sd(1,7) sector_pos by linarith
    moreover have "address (flash_pages st ! j) < 2 ^ 32 - 1" using a(3,4) by (simp add: flash_sizes)
    ultimately have "target_used (targets ! j)"
      using u by (auto simp: target_used_def UINTPTR_MAX_def)
    moreover have "?J - (j + 1) * FLASH_SECTOR_SIZE = ?J - FLASH_SECTOR_SIZE - j * FLASH_SECTOR_SIZE" by simp
    moreover have "start_data_pool st + (j + 1) * FLASH_SECTOR_SIZE \<le> ?J" using t(2) J by simp
    moreover have "address (flash_pages st ! j) < end_data_pool st" "?J \<le> address (flash_pages st ! j)" using a(1,3) sd(7) sector_pos by linarith+
    ultimately show "target_used (targets ! j) \<and> unat (targets ! j) = address (flash_pages st ! j) \<and>
      start_data_pool st \<le> unat (targets ! j) \<and> unat (targets ! j) < end_data_pool st \<and> unat (targets ! j) mod FLASH_SECTOR_SIZE = 0 \<and>
      start_data_pool st + (j + 1) * FLASH_SECTOR_SIZE \<le> ?J \<and> ?J \<le> unat (targets ! j) \<and>
      (\<forall>k < FLASH_SECTOR_SIZE. nor st' (?J - (j + 1) * FLASH_SECTOR_SIZE + k) = flash_byte st (unat (targets ! j) + k))"
      using u a t(3) page_bytes [OF assms(2) j r] by metis
  qed
  obtain p where "p \<in> set (flash_pages st)" "ready p"
    using assms(2,5) by (auto simp: cache_wf_def filter_empty_conv)
  then obtain j0 where j0: "j0 < TOTAL_FLASH_PAGES" "ready (flash_pages st ! j0)" using len(1) by (auto simp: in_set_conv_nth)
  have "list_ex target_used targets" unfolding list_ex_length using page_j(1) [OF j0] j0(1) len(2) by metis
  moreover have "list_all (\<lambda>t. target_used t \<longrightarrow> start_data_pool st \<le> unat t \<and> unat t < end_data_pool st \<and> unat t mod FLASH_SECTOR_SIZE = 0) targets"
    using page_j len(2) by (fastforce simp: list_all_length)
  moreover have "list_all (\<lambda>i. target_used (targets ! i) \<longrightarrow> start_data_pool st + (i + 1) * FLASH_SECTOR_SIZE \<le> ?J) [0 ..< TOTAL_FLASH_PAGES]"
    using page_j by (fastforce simp: list_all_iff)
  ultimately have v: "journal_entry_valid_at ?e ?J ?p"
    by (simp add: journal_entry_valid_at_def journal_entry_header_valid_def b)
  have dec: "journal_decode (entry_number ?p ?J ?n) = ?e" unfolding ps(4) assms(8) by (rule journal_roundtrip) (simp add: len)
  have "\<forall>k. 0 \<le> k \<and> k < ?n \<longrightarrow> entry_done ?p ?J k"
    using entry_done_cong [OF assms(4)] assms(1,6) sd(4) by (simp add: journal_steady_def Let_def)
  moreover have "\<not> journal_entry_is_erased (entry_number ?p ?J ?n)" unfolding ps(4) by (rule entry_done_bytes(1) [OF assms(8)]) (simp_all add: len)
  ultimately have scan: "scan_entries False ?J entry_positions ?p = (True, Some (?n * JOURNAL_SIZE))"
    unfolding entry_positions_map using scan_some [of 0 ?n ?p ?J] sd(4) dec v by simp
  have "\<forall>j < length targets. target_used (targets ! j) \<longrightarrow> start_data_pool ?p \<le> unat (targets ! j) \<and> unat (targets ! j) < end_data_pool ?p \<and>
       start_data_pool ?p + (0 + j + 1) * FLASH_SECTOR_SIZE \<le> ?J \<and> ?J \<le> unat (targets ! j) \<and>
       (\<forall>k < FLASH_SECTOR_SIZE. nor ?p (?J - (0 + j + 1) * FLASH_SECTOR_SIZE + k) = flash_byte st (unat (targets ! j) + k))"
    unfolding b len add_0 using page_j by metis
  from restore_law [OF b(4) this] obtain s1 where s1: "restore_targets 0 targets ?J ?p = (PICOKEYS_OK, s1)" "outcomes s1 = []"
    "\<forall>a. nor s1 a = nor ?p a \<or> ?J \<le> a \<and> nor s1 a = flash_byte st a"
    "\<forall>j < length targets. target_used (targets ! j) \<longrightarrow> (\<forall>k < FLASH_SECTOR_SIZE. nor s1 (unat (targets ! j) + k) = flash_byte st (unat (targets ! j) + k))" by blast
  let ?f = "flash_range_program (?J + journal_page ?n) (entry_page (?n * JOURNAL_SIZE mod FLASH_PAGE_SIZE) (journal_bytes (blank_entry\<lparr>status := JOURNAL_STATUS_DONE\<rparr>))) FLASH_PAGE_SIZE"
  have rec: "low_flash_recover_journal False ?p = (PICOKEYS_OK, s1\<lparr>nor := ?f (nor s1)\<rparr>)"
    using sd(1) ps(1) b(5) scan dec s1(1,2)
    by (simp add: low_flash_recover_journal_def recover_from.simps [of False ?J] restore_entry_def do_flash_op_program_def flash_op_done journal_page_def)
  show ?thesis
  proof (intro allI impI)
    fix a assume a: "FLASH_SECTOR (last_base st) \<le> a"
    have "nor (snd (low_flash_recover_journal False ?p)) a = nor s1 a"
      using a sd(7) journal_page_law(1) [OF sd(4)] by (simp add: rec flash_range_program_def)
    also have "nor s1 a = flash_byte st a"
    proof (cases "\<exists>j < TOTAL_FLASH_PAGES. ready (flash_pages st ! j) \<and> address (flash_pages st ! j) = FLASH_SECTOR a")
      case True
      then obtain j where j: "j < TOTAL_FLASH_PAGES" "ready (flash_pages st ! j)" "address (flash_pages st ! j) = FLASH_SECTOR a" by blast
      have t: "target_used (targets ! j)" "unat (targets ! j) = FLASH_SECTOR a" using page_j(1) [OF j(1,2)] j(3) by simp_all
      have "nor s1 (FLASH_SECTOR a + a mod FLASH_SECTOR_SIZE) = flash_byte st (FLASH_SECTOR a + a mod FLASH_SECTOR_SIZE)"
        using s1(4) t j(1) len(2) mod_less_divisor [OF sector_pos, of a] by metis
      then show ?thesis using sector_decomp [of a] by simp
    next
      case False
      then have "flash_byte st a = nor st a" by (intro flash_byte_nor) auto
      then show ?thesis using s1(3) assms(9) a b(3) by metis
    qed
    finally show "nor (snd (low_flash_recover_journal False ?p)) a = flash_byte st a" .
  qed
qed

lemma raw_above: "(\<And>a. J \<le> a \<Longrightarrow> a < J + FLASH_SECTOR_SIZE \<Longrightarrow> m a = m' a) \<Longrightarrow> k < FLASH_SECTOR_SIZE div JOURNAL_SIZE \<Longrightarrow> raw_entry m J k = raw_entry m' J k"
  by (rule raw_entry_cong) (simp add: flash_sizes)

text \<open>Copying the sectors, and marking the journal done.\<close>

lemma drain_steady:
  assumes "drain 0 (flash_pages st) st = (ok, st')" "cache_wf st" "pages_in_data st" "a < FLASH_SECTOR (last_base st)"
  shows "nor st' a = nor st a"
proof -
  have "flash_byte st a = nor st a"
  proof (rule flash_byte_nor)
    fix r assume "r < TOTAL_FLASH_PAGES" "ready (flash_pages st ! r)"
    then have "FLASH_SECTOR (last_base st) \<le> address (flash_pages st ! r)"
      using assms(2,3) nth_mem [of r "flash_pages st"] by (auto simp: pages_in_data_def cache_wf_def)
    then show "address (flash_pages st ! r) \<noteq> FLASH_SECTOR a" using sector_le [of a] assms(4) by linarith
  qed
  moreover have "nor st' a = nor st a \<or> nor st' a = flash_byte st a"
    using drain_law [OF assms(1,2) drop_0 [symmetric]] by blast
  ultimately show ?thesis by simp
qed

lemma redo_ready_cong:
  assumes "start_data_pool st' = start_data_pool st"
    and "\<And>j k. k < FLASH_SECTOR_SIZE \<Longrightarrow> nor st' (J - FLASH_SECTOR_SIZE - j * FLASH_SECTOR_SIZE + k) = nor st (J - FLASH_SECTOR_SIZE - j * FLASH_SECTOR_SIZE + k)"
    and "redo_ready st J targets ps"
  shows "redo_ready st' J targets ps"
proof -
  have "redo_done st' s (J - FLASH_SECTOR_SIZE) ts targets j p = redo_done st s (J - FLASH_SECTOR_SIZE) ts targets j p" for s ts j p
  proof -
    have "(\<forall>k < FLASH_SECTOR_SIZE. nor st' (J - FLASH_SECTOR_SIZE - j * FLASH_SECTOR_SIZE + k) = page p k) =
      (\<forall>k < FLASH_SECTOR_SIZE. nor st (J - FLASH_SECTOR_SIZE - j * FLASH_SECTOR_SIZE + k) = page p k)"
      using assms(2) [where j = j] by metis
    then show ?thesis by (simp only: redo_done_def)
  qed
  with assms(1,3) show ?thesis unfolding redo_ready_def by simp
qed

lemma crash_law:
  assumes "journal_steady st" "cache_wf st" "pages_in_data st"
  shows "(\<forall>a \<ge> FLASH_SECTOR (last_base st). nor (snd (low_flash_recover_journal False (power_cycle (low_flash_task st)))) a = nor st a) \<or>
    (\<forall>a \<ge> FLASH_SECTOR (last_base st). nor (snd (low_flash_recover_journal False (power_cycle (low_flash_task st)))) a = flash_byte st a)"
proof -
  let ?J = "journal_sector_of st" and ?n = "journal_slot st"
  note sd = steadyD [OF assms(1)]
  have quiet: "\<forall>a \<ge> FLASH_SECTOR (last_base st). nor (snd (low_flash_recover_journal False (power_cycle s))) a = F a"
    if "bounds s = bounds st" "\<And>k. k < FLASH_SECTOR_SIZE div JOURNAL_SIZE \<Longrightarrow> k \<noteq> ?n \<Longrightarrow> raw_entry (nor s) ?J k = raw_entry (nor st) ?J k"
      "raw_entry (nor s) ?J ?n = replicate JOURNAL_SIZE 0xff \<or> entry_done (power_cycle s) ?J ?n"
      "\<forall>a \<ge> FLASH_SECTOR (last_base st). nor s a = F a" for s F
    using recover_quiet [OF assms(1) that(1-3)] that(4) by (simp add: power_cycle_def)
  have fin: "nor (finish_task s) = nor s" "bounds (finish_task s) = bounds s" for s by (simp_all add: finish_task_def bounds_def)
  show ?thesis
  proof (cases "locked_out st \<and> flash_available st \<and> 0 < ready_pages st")
    case False
    then have "low_flash_task st = finish_task st" using sd(6) unfolding low_flash_task_def by auto
    with quiet [of "finish_task st" "nor st"] sd(9) show ?thesis by (simp add: fin)
  next
    case True
    obtain ok s1 where j: "write_journal st = (ok, s1)" by fastforce
    note wj = write_journal_steady [OF assms(1,2) j]
    have b1: "bounds s1 = bounds st" using wj by (simp add: cache_same_def)
    have task: "low_flash_task st = (if ok then drain_pages s1 else s1)"
      using True sd(5,6) j by (simp add: low_flash_task_def)
    show ?thesis
    proof (cases ok)
      case False
      with wj task quiet [of s1 "nor st"] b1 show ?thesis by simp
    next
      case True
      obtain targets where t: "redo_ready s1 ?J targets (flash_pages st)"
        "raw_entry (nor s1) ?J ?n = journal_bytes \<lparr>magic = JOURNAL_MAGIC, target_addr = targets, status = JOURNAL_STATUS_PENDING\<rparr>"
        using wj True by blast
      have lt: "length targets = TOTAL_FLASH_PAGES" using t(1) by (simp add: redo_ready_def)
      have w1: "cache_wf s1" "pages_in_data s1" "last_base s1 = last_base st" "flash_pages s1 = flash_pages st" "start_data_pool s1 = start_data_pool st"
        using cache_sameD(1,2) [of st s1] wj assms(2,3) by (simp_all add: pages_in_data_def)
      have f1: "flash_byte s1 a = flash_byte st a" "nor s1 a = nor st a" if "FLASH_SECTOR (last_base st) \<le> a" for a
        using wj that cache_sameD(3) [of st s1 a] by simp_all
      obtain tr s2 where d: "drain 0 (flash_pages s1) s1 = (tr, s2)" by fastforce
      note dl = drain_law [OF d w1(1) drop_0 [symmetric]] and low = drain_steady [OF d w1(1,2)]
      have b2: "bounds s2 = bounds st" using dl b1 by simp
      have raw2: "raw_entry (nor s2) ?J k = raw_entry (nor s1) ?J k" if "k < FLASH_SECTOR_SIZE div JOURNAL_SIZE" for k
        by (rule raw_above [OF _ that]) (use low sd(7) w1(3) in simp)
      have redo2: "redo_ready s2 ?J targets (flash_pages st)"
      proof -
        have "start_data_pool s2 = start_data_pool s1" using b1 b2 by (simp add: bounds_def)
        moreover have "nor s2 (?J - FLASH_SECTOR_SIZE - j * FLASH_SECTOR_SIZE + k) = nor s1 (?J - FLASH_SECTOR_SIZE - j * FLASH_SECTOR_SIZE + k)"
          if "k < FLASH_SECTOR_SIZE" for j k
        proof (rule low)
          have "?J - FLASH_SECTOR_SIZE - j * FLASH_SECTOR_SIZE \<le> ?J - FLASH_SECTOR_SIZE" by simp
          moreover have "?J - FLASH_SECTOR_SIZE + k < ?J" using that sd(1) by simp
          ultimately show "?J - FLASH_SECTOR_SIZE - j * FLASH_SECTOR_SIZE + k < FLASH_SECTOR (last_base s1)" unfolding w1(3) using sd(7) by linarith
        qed
        ultimately show ?thesis using t(1) by (rule redo_ready_cong)
      qed
      have mid: "nor s2 a = nor st a \<or> nor s2 a = flash_byte st a" if "FLASH_SECTOR (last_base st) \<le> a" for a
        using dl f1 [OF that] by metis
      have pending: "\<forall>a \<ge> FLASH_SECTOR (last_base st). nor (snd (low_flash_recover_journal False (power_cycle s))) a = flash_byte st a"
        if "nor s = nor s2" "bounds s = bounds s2" for s
      proof (rule recover_pending [OF assms(1-3)])
        show "bounds s = bounds st" using that b2 by simp
        show "ready_pages st \<noteq> 0" using \<open>locked_out st \<and> flash_available st \<and> 0 < ready_pages st\<close> by simp
        show "redo_ready s ?J targets (flash_pages st)" by (rule redo_ready_cong [OF _ _ redo2]) (use that in \<open>simp_all add: bounds_def\<close>)
        show "raw_entry (nor s) ?J ?n = journal_bytes \<lparr>magic = JOURNAL_MAGIC, target_addr = targets, status = JOURNAL_STATUS_PENDING\<rparr>"
          using that raw2 [OF sd(4)] t(2) by simp
        show "\<forall>a \<ge> FLASH_SECTOR (last_base st). nor s a = nor st a \<or> nor s a = flash_byte st a" using mid that by simp
        show "raw_entry (nor s) ?J k = raw_entry (nor st) ?J k" if "k < FLASH_SECTOR_SIZE div JOURNAL_SIZE" "k \<noteq> ?n" for k
          using raw2 [OF that(1)] wj that(2) \<open>nor s = nor s2\<close> by simp
      qed
      show ?thesis
      proof (cases "tr \<and> ready_pages s2 = 0")
        case False
        then have "low_flash_task st = finish_task s2" using task True d by (auto simp: drain_pages_def)
        with pending [of "finish_task s2"] show ?thesis by (simp add: fin)
      next
        case all: True
        let ?s2 = "s2\<lparr>journal_finalize_pending := True\<rparr>"
        obtain ret s3 where m: "journal_mark_done ?s2 = (ret, s3)" by fastforce
        have t3: "low_flash_task st = (if ret = PICOKEYS_ERR_NO_MEMORY then s3 else finish_task s3)"
          using task True d all m by (simp add: drain_pages_def)
        have b3: "bounds s3 = bounds s2" using mark_done_law(1) [OF m] by (simp add: cache_same_def bounds_def)
        show ?thesis
        proof (cases "ret = PICOKEYS_ERR_NO_MEMORY")
          case True
          then have "nor s3 = nor s2" using mark_done_law(3) [OF m] by simp
          with pending [of s3] True t3 b3 show ?thesis by simp
        next
          case False
          have js: "journal_slot s2 = ?n" "pending_journal_addr s2 = ?J + journal_page ?n"
            using dl wj \<open>ok\<close> by (simp_all add: journal_fields_def)
          let ?f = "flash_range_program (?J + journal_page ?n) (entry_page (?n * JOURNAL_SIZE mod FLASH_PAGE_SIZE) (journal_bytes (blank_entry\<lparr>status := JOURNAL_STATUS_DONE\<rparr>))) FLASH_PAGE_SIZE"
          obtain r4 s4 where o: "do_flash_op_program (?J + journal_page ?n) (entry_page (?n * JOURNAL_SIZE mod FLASH_PAGE_SIZE) (journal_bytes (blank_entry\<lparr>status := JOURNAL_STATUS_DONE\<rparr>))) FLASH_PAGE_SIZE ?s2 = (r4, s4)" by fastforce
          have "nor s3 = nor s4 \<and> r4 \<noteq> PICOKEYS_ERR_NO_MEMORY" using m False o by (auto simp: journal_mark_done_def js Let_def split: if_splits)
          then have n3: "nor s3 = ?f (nor s2)" using flash_op_cases [OF o [unfolded do_flash_op_program_def]] by fastforce
          have raw3: "raw_entry (nor s3) ?J k = (if k = ?n then journal_bytes \<lparr>magic = JOURNAL_MAGIC, target_addr = targets, status = JOURNAL_STATUS_DONE\<rparr> else raw_entry (nor s2) ?J k)" for k
            unfolding n3 using raw_entry_status [OF sd(4), of "\<lparr>magic = JOURNAL_MAGIC, target_addr = targets, status = JOURNAL_STATUS_PENDING\<rparr>" "nor s2" ?J JOURNAL_STATUS_DONE k]
              raw2 [OF sd(4)] t(2) lt by (simp add: journal_consts)
          have flushed: "nor s3 a = flash_byte st a" if a: "FLASH_SECTOR (last_base st) \<le> a" for a
          proof -
            have "nor s3 a = nor s2 a" using a sd(7) journal_page_law(1) [OF sd(4)] by (simp add: n3 flash_range_program_def)
            also have "nor s2 a = flash_byte s2 a" using dl all by (intro flash_byte_nor [symmetric]) simp
            also have "\<dots> = flash_byte st a" using dl f1 [OF a] by simp
            finally show ?thesis .
          qed
          have "\<forall>a \<ge> FLASH_SECTOR (last_base st). nor (snd (low_flash_recover_journal False (power_cycle (finish_task s3)))) a = flash_byte st a"
          proof (rule quiet)
            show "bounds (finish_task s3) = bounds st" using b2 b3 by (simp add: fin)
            show "raw_entry (nor (finish_task s3)) ?J k = raw_entry (nor st) ?J k" if "k < FLASH_SECTOR_SIZE div JOURNAL_SIZE" "k \<noteq> ?n" for k
              using raw3 [of k] raw2 [OF that(1)] wj that(2) by (simp add: fin)
            have "raw_entry (nor (finish_task s3)) ?J ?n = journal_bytes \<lparr>magic = JOURNAL_MAGIC, target_addr = targets, status = JOURNAL_STATUS_DONE\<rparr>"
              using raw3 [of ?n] by (simp add: fin)
            from entry_done_bytes(2) [OF this] lt
            show "raw_entry (nor (finish_task s3)) ?J ?n = replicate JOURNAL_SIZE 0xff \<or> entry_done (power_cycle (finish_task s3)) ?J ?n"
              by (simp add: journal_consts)
            show "\<forall>a \<ge> FLASH_SECTOR (last_base st). nor (finish_task s3) a = flash_byte st a" using flushed by (simp add: fin)
          qed
          with t3 False show ?thesis by simp
        qed
      qed
    qed
  qed
qed

text \<open>A task that completes its transaction leaves the journal in use again, one entry further, until the sector is full.\<close>

lemma write_journal_sector:
  assumes "journal_steady st" "cache_wf st" "write_journal st = (ok, st')"
  shows "last_journal_sector st' = journal_sector_of st"
proof -
  let ?J = "journal_sector_of st"
  note sd = steadyD [OF assms(1)]
  have s1: "open_sector ?J st = (True, st)" "\<not> ?J < start_data_pool st + FLASH_SECTOR_SIZE" using sd(1-3) by (simp_all add: open_sector_def)
  obtain ok2 targets st2
    where s2: "write_redo 0 (flash_pages st) (?J - FLASH_SECTOR_SIZE) (replicate TOTAL_FLASH_PAGES 0xffffffff) st = ((ok2, targets), st2)" by (metis prod.exhaust)
  then have f: "journal_fields st2 = journal_fields st" using write_redo_law [OF s2] assms(2) by (simp add: cache_wf_def)
  show ?thesis
  proof (cases ok2)
    case True
    then have "enter_journal ?J targets st2 = (ok, st')" using assms(3) s1 s2 by (simp add: write_journal_def Let_def)
    from enter_journal_law(3) [OF this] f sd(2,4) show ?thesis by (simp add: journal_fields_def)
  next
    case False
    with assms(3) s1 s2 f sd(2) show ?thesis by (simp add: write_journal_def Let_def journal_fields_def)
  qed
qed

lemma completed_task:
  assumes "journal_steady st" "cache_wf st" "pages_in_data st" "ready_pages st \<noteq> 0"
    and "ready_pages (low_flash_task st) = 0" "\<not> journal_pending (low_flash_task st)"
  obtains s1 s2 s3 targets ret where "write_journal st = (True, s1)" "drain 0 (flash_pages s1) s1 = (True, s2)"
    "journal_mark_done (s2\<lparr>journal_finalize_pending := True\<rparr>) = (ret, s3)" "ret \<noteq> PICOKEYS_ERR_NO_MEMORY" "low_flash_task st = finish_task s3"
proof -
  note sd = steadyD [OF assms(1)]
  have on: "locked_out st \<and> flash_available st \<and> 0 < ready_pages st"
    using assms(4,5) sd(6) by (auto simp: low_flash_task_def finish_task_def split: if_splits)
  obtain ok s1 where j: "write_journal st = (ok, s1)" by fastforce
  note wj = write_journal_steady [OF assms(1,2) j]
  have task: "low_flash_task st = (if ok then drain_pages s1 else s1)" using on sd(5,6) j by (simp add: low_flash_task_def)
  have ok: "ok" using task wj assms(4,5) by (auto simp: cache_same_def split: if_splits)
  have p1: "cache_wf s1" "journal_pending s1" using cache_sameD(1) [of st s1] wj ok assms(2) by simp_all
  obtain tr s2 where d: "drain 0 (flash_pages s1) s1 = (tr, s2)" by fastforce
  have p2: "journal_pending s2" using drain_law [OF d p1(1) drop_0 [symmetric]] p1(2) by (simp add: journal_fields_def)
  have all: "tr \<and> ready_pages s2 = 0"
    using task ok d p2 assms(6) by (auto simp: drain_pages_def finish_task_def split: if_splits)
  obtain ret s3 where m: "journal_mark_done (s2\<lparr>journal_finalize_pending := True\<rparr>) = (ret, s3)" by fastforce
  have t3: "low_flash_task st = (if ret = PICOKEYS_ERR_NO_MEMORY then s3 else finish_task s3)"
    using task ok d all m by (simp add: drain_pages_def)
  have "ret \<noteq> PICOKEYS_ERR_NO_MEMORY"
    using t3 mark_done_law(3) [OF m] p2 assms(6) by (auto simp: journal_fields_def)
  with that j ok d all m t3 show thesis by simp
qed

lemma journal_stays_steady:
  assumes "journal_steady st" "cache_wf st" "pages_in_data st" "ready_pages st \<noteq> 0"
    and "ready_pages (low_flash_task st) = 0" "\<not> journal_pending (low_flash_task st)" "journal_slot (low_flash_task st) \<noteq> 0"
  shows "journal_steady (low_flash_task st)"
proof -
  let ?J = "journal_sector_of st" and ?n = "journal_slot st" and ?S = "FLASH_SECTOR_SIZE div JOURNAL_SIZE"
  note sd = steadyD [OF assms(1)]
  obtain s1 s2 s3 ret where j: "write_journal st = (True, s1)" and d: "drain 0 (flash_pages s1) s1 = (True, s2)"
    and m: "journal_mark_done (s2\<lparr>journal_finalize_pending := True\<rparr>) = (ret, s3)" "ret \<noteq> PICOKEYS_ERR_NO_MEMORY" and task: "low_flash_task st = finish_task s3"
    by (rule completed_task [OF assms(1-6)]) blast
  note wj = write_journal_steady [OF assms(1,2) j, simplified]
  obtain targets where t: "redo_ready s1 ?J targets (flash_pages st)"
    "raw_entry (nor s1) ?J ?n = journal_bytes \<lparr>magic = JOURNAL_MAGIC, target_addr = targets, status = JOURNAL_STATUS_PENDING\<rparr>" using wj by blast
  have lt: "length targets = TOTAL_FLASH_PAGES" using t(1) by (simp add: redo_ready_def)
  have w1: "cache_wf s1" "pages_in_data s1" "last_base s1 = last_base st"
    using cache_sameD(1,2) [of st s1] wj assms(2,3) by (simp_all add: pages_in_data_def)
  note dl = drain_law [OF d w1(1) drop_0 [symmetric]] and low = drain_steady [OF d w1(1,2)]
  have raw2: "raw_entry (nor s2) ?J k = raw_entry (nor s1) ?J k" if "k < ?S" for k
    by (rule raw_above [OF _ that]) (use low sd(7) w1(3) in simp)
  have js: "journal_slot s2 = ?n" "pending_journal_addr s2 = ?J + journal_page ?n" "last_journal_sector s2 = last_journal_sector s1"
    using dl wj by (simp_all add: journal_fields_def)
  let ?f = "flash_range_program (?J + journal_page ?n) (entry_page (?n * JOURNAL_SIZE mod FLASH_PAGE_SIZE) (journal_bytes (blank_entry\<lparr>status := JOURNAL_STATUS_DONE\<rparr>))) FLASH_PAGE_SIZE"
  let ?d = "\<lparr>magic = JOURNAL_MAGIC, target_addr = targets, status = JOURNAL_STATUS_DONE\<rparr>"
  have n3: "nor s3 = ?f (nor s2)"
  proof -
    obtain r4 s4 where o: "do_flash_op_program (?J + journal_page ?n) (entry_page (?n * JOURNAL_SIZE mod FLASH_PAGE_SIZE) (journal_bytes (blank_entry\<lparr>status := JOURNAL_STATUS_DONE\<rparr>))) FLASH_PAGE_SIZE (s2\<lparr>journal_finalize_pending := True\<rparr>) = (r4, s4)" by fastforce
    have "nor s3 = nor s4 \<and> r4 \<noteq> PICOKEYS_ERR_NO_MEMORY" using m o by (auto simp: journal_mark_done_def js Let_def split: if_splits)
    then show ?thesis using flash_op_cases [OF o [unfolded do_flash_op_program_def]] by fastforce
  qed
  have raw: "raw_entry (nor s3) ?J k = (if k = ?n then journal_bytes ?d else raw_entry (nor st) ?J k)" if "k < ?S" for k
    unfolding n3 using raw_entry_status [OF sd(4), of "\<lparr>magic = JOURNAL_MAGIC, target_addr = targets, status = JOURNAL_STATUS_PENDING\<rparr>" "nor s2" ?J JOURNAL_STATUS_DONE k]
      raw2 [OF sd(4)] raw2 [OF that] t(2) lt wj by (simp add: journal_consts)
  have st': "nor (low_flash_task st) = nor s3" "bounds (low_flash_task st) = bounds st" "journal_fields (low_flash_task st) = journal_fields s3"
    using task mark_done_law(1) [OF m(1)] dl wj by (simp_all add: finish_task_def bounds_def journal_fields_def cache_same_def)
  have b: "journal_sector_of (low_flash_task st) = ?J" "start_data_pool (low_flash_task st) = start_data_pool st"
    using st'(2) by (simp_all add: bounds_def journal_sector_of_def)
  have slot: "journal_slot (low_flash_task st) = Suc ?n" "Suc ?n < ?S"
    using mark_done_law(4) [OF m] assms(7) sd(4) st'(3) js(1) by (cases "Suc ?n = ?S"; simp add: journal_fields_def)+
  have lj: "last_journal_sector (low_flash_task st) = ?J"
    using mark_done_law(4) [OF m] st'(3) js(3) write_journal_sector [OF assms(1,2) j] by (simp add: journal_fields_def)
  have dn: "entry_done (power_cycle (low_flash_task st)) ?J k" if "k < Suc ?n" for k
  proof (cases "k = ?n")
    case True
    have "raw_entry (nor (low_flash_task st)) ?J ?n = journal_bytes ?d" using raw [OF sd(4)] st'(1) by simp
    from entry_done_bytes(2) [OF this] lt True show ?thesis by (simp add: journal_consts)
  next
    case False
    with that have k: "k < ?n" by simp
    then have "entry_done (power_cycle st) ?J k" using assms(1) by (simp add: journal_steady_def Let_def)
    with entry_done_cong [OF st'(2), of ?J k] raw [of k] k sd(4) st'(1) show ?thesis by simp
  qed
  have valid: "\<exists>k < Suc ?n. journal_entry_valid_at (journal_decode (raw_entry (nor (low_flash_task st)) ?J k)) ?J (power_cycle (low_flash_task st))"
  proof -
    obtain k where k: "k < ?n" "journal_entry_valid_at (journal_decode (raw_entry (nor st) ?J k)) ?J (power_cycle st)"
      using assms(1) by (auto simp: journal_steady_def Let_def)
    then show ?thesis using raw [of k] st'(1) sd(4) pools_same(3) [OF st'(2)] by (intro exI [of _ k]) simp
  qed
  have blank: "raw_entry (nor (low_flash_task st)) ?J k = replicate JOURNAL_SIZE 0xff" if "Suc ?n \<le> k" "k < ?S" for k
    using raw [OF that(2)] that assms(1) st'(1) by (simp add: journal_steady_def Let_def)
  have "\<not> journal_finalize_pending (low_flash_task st)" using mark_done_law(4) [OF m] st'(3) by (simp add: journal_fields_def)
  then show ?thesis
    unfolding journal_steady_def Let_def b slot(1) using sd(1) lj slot(2) assms(6) dn valid blank by simp
qed
text \<open>C10: while the journal is in use (its sector is the open one, the next entry is not the first of it, those before are done, the rest is erased, nothing is pending) and the
  cache holds only sectors from that of last_base up to the one with the head of the data pool, the redo journal makes the copying of the cached sectors atomic. Cut the power before any hardware operation of the
  task (the operation is refused and the task stops), or let it run to its end: after recovery (with last_base found again, and not forced) the data is, everywhere, what
  flash held before the task, or, everywhere, what the cache held. A task that completes its transaction leaves the journal in use again, until the entries of the sector are used up. Not covered: the first entry of a new journal sector, and a transaction with a sector that begins at or above end_data_pool (the permanent
  region), which recovery rejects.\<close>

theorem journal_commit_atomic:
  assumes "journal_steady st" "cache_wf st" "pages_in_data st"
  shows "(\<exists>v \<in> {nor st, flash_byte st}. \<forall>a \<ge> FLASH_SECTOR (last_base st).
      nor (snd (low_flash_recover_journal False (power_cycle (low_flash_task st)))) a = v a) \<and>
    (ready_pages st \<noteq> 0 \<and> ready_pages (low_flash_task st) = 0 \<and> \<not> journal_pending (low_flash_task st) \<and> journal_slot (low_flash_task st) \<noteq> 0 \<longrightarrow>
      journal_steady (low_flash_task st))"
  using crash_law [OF assms] journal_stays_steady [OF assms] by blast

section \<open>An example\<close>

text \<open>Sixteen sectors below the data pool, twenty free ones, and a journal with one entry, done.\<close>

definition old_entry :: flash_journal where
  "old_entry = \<lparr>magic = JOURNAL_MAGIC, target_addr = 147456 # replicate 5 0xffffffff, status = JOURNAL_STATUS_DONE\<rparr>"

definition flash_example :: "page_flash list \<Rightarrow> op_outcome list \<Rightarrow> low_flash" where
  "flash_example ps os = \<lparr>nor = (\<lambda>a. if 143360 \<le> a \<and> a < 143392 then journal_bytes old_entry ! (a - 143360) else 0xff),
     flash_pages = ps @ replicate (6 - length ps) empty_page, ready_pages = length ps, flash_available = True, locked_out = True,
     last_base = 147456, start_data_pool = 65536, end_data_pool = 163940, journal_slot = 1, last_journal_sector = 143360,
     journal_pending = False, journal_finalize_pending = False, pending_journal_addr = 0, patience = 3, outcomes = os\<rparr>"

definition dirty_page :: page_flash where
  "dirty_page = \<lparr>page = (\<lambda>_. 0x42), address = 151552, ready = True, erase = False, page_size = 0\<rparr>"

lemma flash_example_sectors: "FLASH_SECTOR 147456 = 147456" "journal_sector_of (flash_example ps os) = 143360"
  "last_base (flash_example ps os) = 147456"
  by (simp_all add: FLASH_SECTOR_def journal_sector_of_def flash_example_def FLASH_SECTOR_SIZE_def)

lemma flash_example_wf:
  "cache_wf (flash_example [] os)" "journal_wf (flash_example ps os)" "cache_wf (flash_example [dirty_page] os)"
  "pages_in_data (flash_example [dirty_page] os)"
  by (auto simp: cache_wf_def journal_wf_def pages_in_data_def flash_example_def flash_sizes dirty_page_def empty_page_def FLASH_SECTOR_def filter_empty_conv)

lemma flash_example_steady: "journal_steady (flash_example ps os)"
proof -
  let ?st = "flash_example ps os" and ?J = "143360 :: nat"
  have l: "length (target_addr old_entry) = TOTAL_FLASH_PAGES" by (simp add: old_entry_def flash_sizes)
  have raw0: "raw_entry (nor ?st) ?J 0 = journal_bytes old_entry"
    using journal_bytes_length [OF l] by (intro nth_equalityI) (simp_all add: raw_entry_def flash_example_def flash_sizes)
  have rest: "raw_entry (nor ?st) ?J k = replicate JOURNAL_SIZE 0xff" if "1 \<le> k" for k
    using that by (intro nth_equalityI) (auto simp: raw_entry_def flash_example_def flash_sizes)
  have v: "journal_entry_valid_at old_entry ?J (power_cycle ?st)"
  proof -
    have ts: "target_addr old_entry = [147456, 0xffffffff, 0xffffffff, 0xffffffff, 0xffffffff, 0xffffffff]"
      unfolding old_entry_def by (simp add: eval_nat_numeral)
    have u: "target_used 147456" "\<not> target_used 0xffffffff" by (simp_all add: target_used_def UINTPTR_MAX_def)
    have un: "unat (147456 :: u32) = 147456" by simp
    have p: "start_data_pool (power_cycle ?st) = 65536" "end_data_pool (power_cycle ?st) = 163940"
      by (simp_all add: power_cycle_def flash_example_def)
    have six: "[0 ..< TOTAL_FLASH_PAGES] = [0, 1, 2, 3, 4, 5]" by (simp add: flash_sizes upt_rec)
    have m: "magic old_entry = JOURNAL_MAGIC" "status old_entry = JOURNAL_STATUS_DONE" by (simp_all add: old_entry_def)
    have "journal_entry_header_valid old_entry (power_cycle ?st)"
      using u by (simp add: journal_entry_header_valid_def ts m un p flash_sizes)
    then show ?thesis using u by (simp add: journal_entry_valid_at_def ts m p flash_sizes(2) six)
  qed
  have d: "entry_done (power_cycle ?st) ?J 0"
    by (rule entry_done_bytes(2) [OF raw0 l]) (simp_all add: old_entry_def journal_consts)
  have n: "journal_slot ?st = 1" "last_journal_sector ?st = ?J" "\<not> journal_pending ?st" "\<not> journal_finalize_pending ?st"
    "start_data_pool ?st + FLASH_SECTOR_SIZE \<le> ?J"
    by (simp_all add: flash_example_def flash_sizes)
  have "\<exists>k < Suc 0. journal_entry_valid_at (journal_decode (raw_entry (nor ?st) ?J k)) ?J (power_cycle ?st)"
    using v raw0 journal_roundtrip [OF l] by auto
  with n d rest show ?thesis by (simp add: journal_steady_def Let_def flash_example_sectors flash_sizes)
qed

text \<open>Whatever operations of the task are refused, the dirty sector is old or new after recovery.\<close>

theorem journal_commit_atomic_witness:
  "\<forall>os. nor (snd (low_flash_recover_journal False (power_cycle (low_flash_task (flash_example [dirty_page] os))))) 151552 \<in> {0xff, 0x42}"
proof
  fix os
  let ?st = "flash_example [dirty_page] os"
  have "flash_byte ?st 151552 = 0x42"
    using page_bytes [OF flash_example_wf(3) [of os], of 0 0] by (simp add: flash_example_def dirty_page_def flash_sizes)
  moreover have "nor ?st 151552 = 0xff" by (simp add: flash_example_def)
  ultimately show "nor (snd (low_flash_recover_journal False (power_cycle (low_flash_task ?st)))) 151552 \<in> {0xff, 0x42}"
    using journal_commit_atomic [OF flash_example_steady flash_example_wf(3,4), of os] by (auto simp: flash_example_sectors)
qed

lemma find_free_page_keeps:
  "find_free_page addr st = (x, st') \<Longrightarrow> journal_fields st' = journal_fields st \<and> flash_available st' = flash_available st \<and> outcomes st' = outcomes st"
  by (auto simp: find_free_page_def journal_fields_def Let_def split: option.splits if_splits)

text \<open>A write, a lower last_base, and the task, whose second hardware operation is refused.\<close>

theorem flash_is_memory_witness:
  "\<exists>r st2. find_free_page 151553 (flash_example [] [Op_Done, Op_Refused]) = (Some r, st2) \<and>
     flash_byte (low_flash_task ((write_page r 1 [7] st2)\<lparr>last_base := 140000\<rparr>)) 151552 = 0xff \<and>
     flash_byte (low_flash_task ((write_page r 1 [7] st2)\<lparr>last_base := 140000\<rparr>)) 151553 = 7"
proof -
  let ?st = "flash_example [] [Op_Done, Op_Refused]"
  obtain x st2 where f: "find_free_page 151553 ?st = (x, st2)" by fastforce
  note wf = flash_example_wf(1) [of "[Op_Done, Op_Refused]"] flash_example_wf(2) [of "[]" "[Op_Done, Op_Refused]"]
  have "ready_pages ?st = 0" by (simp add: flash_example_def)
  then obtain r where x: "x = Some r" using find_free_page_law(1) [OF f wf] by (cases x) auto
  have m: "151553 mod FLASH_SECTOR_SIZE = 1" by (simp add: flash_sizes)
  have b: "bounds st2 = bounds ?st" using find_free_page_law(3) [OF f wf] by simp
  have w: "bounds (write_page r 1 [7] st2) = bounds st2" "journal_fields (write_page r 1 [7] st2) = journal_fields st2"
    by (simp_all add: write_page_def bounds_def journal_fields_def)
  have q: "140000 \<le> last_base (write_page r 1 [7] st2)" "\<not> journal_pending (write_page r 1 [7] st2)" "\<not> journal_finalize_pending (write_page r 1 [7] st2)"
    using w b find_free_page_keeps [OF f] by (simp_all add: bounds_def journal_fields_def flash_example_def)
  have "core_run ?st ([] @ [(151553, [7])]) (write_page r (151553 mod FLASH_SECTOR_SIZE) [7] st2)"
    by (rule core_run.program [OF core_run.start]) (simp_all add: flash_sizes f x)
  then have run: "core_run ?st [(151553, [7])] (low_flash_task ((write_page r 1 [7] st2)\<lparr>last_base := 140000\<rparr>))"
    using q unfolding m by (intro core_run.task core_run.lower) simp_all
  have "flash_byte ?st 151552 = nor ?st 151552"
    by (rule flash_byte_nor) (simp add: flash_example_def empty_page_def flash_sizes nth_Cons')
  then have "flash_byte ?st 151552 = 0xff" by (simp add: flash_example_def)
  then show ?thesis
    using f x flash_is_memory [OF wf run, of 151552] flash_is_memory [OF wf run, of 151553] by (simp add: flash_example_sectors mem_write_def)
qed

theorem program_block_law_witness:
  "\<exists>r st'. flash_program_block 151550 [1, 2, 3, 4] (flash_example [dirty_page] []) = Some (r, st') \<and>
     flash_byte st' 151560 = 0x42 \<and> (r = PICOKEYS_OK \<longrightarrow> flash_read_block 151550 4 st' = Inr [1, 2, 3, 4])"
proof -
  have before: "flash_byte (flash_example [dirty_page] []) 151560 = 0x42"
    using page_bytes [OF flash_example_wf(3) [of "[]"], of 0 8] by (simp add: flash_example_def dirty_page_def flash_sizes)
  have f: "FLASH_SECTOR (last_base (flash_example [dirty_page] [])) = 147456" by (simp only: flash_example_sectors)
  have "([1, 2, 3, 4] :: byte list) \<noteq> []" "FLASH_SECTOR (last_base (flash_example [dirty_page] [])) \<le> 151550"
    by (simp_all only: f) simp_all
  moreover have four: "length ([1, 2, 3, 4] :: byte list) = 4" by simp
  ultimately obtain r st'
    where p: "flash_program_block 151550 [1, 2, 3, 4] (flash_example [dirty_page] []) = Some (r, st')"
      and rd: "r = PICOKEYS_OK \<longrightarrow> flash_read_block 151550 4 st' = Inr [1, 2, 3, 4]"
      and same: "\<forall>a \<ge> FLASH_SECTOR (last_base (flash_example [dirty_page] [])). a < 151550 \<or> 151554 \<le> a \<longrightarrow>
        flash_byte st' a = flash_byte (flash_example [dirty_page] []) a"
    using program_block_law [OF flash_example_wf(3,2), of "[1, 2, 3, 4]" "[]" 151550, unfolded four] by auto
  from same [rule_format, of 151560] have "flash_byte st' 151560 = flash_byte (flash_example [dirty_page] []) 151560" by (simp add: f)
  with before p rd show ?thesis by (intro exI [of _ r] exI [of _ st']) simp
qed

theorem fresh_sector_forgets_witness:
  "\<exists>r r' st1 st3. find_free_page 122880 (flash_example [] []) = (Some r, st1) \<and>
     find_free_page 122884 (low_flash_task (write_page r 0 [1, 2, 3, 4] st1)) = (Some r', st3) \<and>
     flash_byte (write_page r' 4 [5, 6, 7, 8] st3) 122880 = 0xff"
proof -
  let ?st = "flash_example [] []"
  note wf = flash_example_wf(1) [of "[]"] flash_example_wf(2) [of "[]" "[]"]
  obtain x st1 where f1: "find_free_page 122880 ?st = (x, st1)" by fastforce
  have "ready_pages ?st = 0" by (simp add: flash_example_def)
  then obtain r where x: "x = Some r" using find_free_page_law(1) [OF f1 wf] by (cases x) auto
  note l1 = find_free_page_law(2,3) [OF f1 wf]
  let ?st2 = "write_page r 0 [1, 2, 3, 4] st1"
  have m: "122880 mod FLASH_SECTOR_SIZE = 0" "122884 mod FLASH_SECTOR_SIZE = 4" "FLASH_SECTOR 122884 = FLASH_SECTOR 122880"
    by (simp_all add: flash_sizes FLASH_SECTOR_def)
  have w2: "cache_wf ?st2" "journal_wf ?st2" "bounds ?st2 = bounds st1"
    using write_page_law(1-3) [of st1 r 122880 "[1, 2, 3, 4]"] l1 x m(1) by (simp_all add: flash_sizes)
  have b2: "bounds ?st2 = bounds ?st" "journal_fields ?st2 = journal_fields ?st" "flash_available ?st2" "outcomes ?st2 = []"
    using w2(3) l1 find_free_page_keeps [OF f1] by (simp_all add: write_page_def journal_fields_def flash_example_def)
  have z: "ready_pages (low_flash_task ?st2) = 0"
    by (rule task_drains(1) [OF w2(1,2)])
       (use b2 in \<open>simp_all add: journal_fields_def bounds_def flash_example_def flash_sizes FLASH_SECTOR_def\<close>)
  have w3: "cache_wf (low_flash_task ?st2)" "journal_wf (low_flash_task ?st2)" using task_law(1) [OF w2(1,2)] by (simp_all add: data_kept_def)
  obtain y st3 where f3: "find_free_page 122884 (low_flash_task ?st2) = (y, st3)" by fastforce
  then obtain r' where y: "y = Some r'" using find_free_page_law(1) [OF f3 w3] z by (cases y) auto
  have fresh: "new_data_sector ?st (FLASH_SECTOR 122880)"
    by (simp add: new_data_sector_def flash_example_def FLASH_SECTOR_def flash_sizes)
  have "flash_byte (write_page r' (122884 mod FLASH_SECTOR_SIZE) [5, 6, 7, 8] st3) 122880 = 0xff"
    by (rule fresh_sector_forgets [OF wf fresh f1 [unfolded x], where d = "[1, 2, 3, 4]", OF _ refl _ _ m(3)])
       (use z f3 y in \<open>simp_all add: m(1,2) flash_sizes\<close>)
  with f1 f3 x y m show ?thesis by auto
qed

end
