(* ===== verification/Flash_Records.thy ===== *)
theory Flash_Records
  imports Prelude
begin

text \<open>
  The records of files in flash, \<^verbatim>\<open>pico-keys-sdk/src/fs/flash.c\<close> with \<open>flash_clear_file\<close> and the scan of
  \<^verbatim>\<open>file.c\<close>. Each of the two regions is a doubly linked list that grows down from a header at its upper end;
  a record is its two links, an identity, its length and the data. Flash is the flat memory that
  \<^verbatim>\<open>Low_Flash\<close> provides. Its programming operations and synchronous commits consume outcomes: a block is
  programmed, or stopped after some bytes because the cache could not be drained, or the power is lost
  and nothing is written from then on.
\<close>

section \<open>Memory\<close>

definition bytes_at :: "(nat \<Rightarrow> byte) \<Rightarrow> nat \<Rightarrow> nat \<Rightarrow> byte list" where
  "bytes_at m a n = map (\<lambda>i. m (a + i)) [0 ..< n]"

definition put_bytes :: "nat \<Rightarrow> byte list \<Rightarrow> (nat \<Rightarrow> byte) \<Rightarrow> nat \<Rightarrow> byte" where
  "put_bytes a d m = (\<lambda>x. if a \<le> x \<and> x < a + length d then d ! (x - a) else m x)"

definition half_at :: "(nat \<Rightarrow> byte) \<Rightarrow> nat \<Rightarrow> u16" where
  "half_at m a = get_uint16_le (bytes_at m a 2)"

definition word_at :: "(nat \<Rightarrow> byte) \<Rightarrow> nat \<Rightarrow> u32" where
  "word_at m a = get_uint32_le (bytes_at m a 4)"

definition pointer_at :: "(nat \<Rightarrow> byte) \<Rightarrow> nat \<Rightarrow> nat" where
  "pointer_at m a = unat (word_at m a)"

datatype program_outcome = Programmed | Stopped nat | Power_Lost

record flash_pool =
  cells :: "nat \<Rightarrow> byte"
  data_start :: nat
  data_end :: nat
  rom_start :: nat
  rom_end :: nat
  flash_end :: nat
  lowest_base :: nat
  num_files :: nat
  results :: "program_outcome list"

definition next_result :: "flash_pool \<Rightarrow> program_outcome \<times> flash_pool" where
  "next_result st =
     (case results st of [] \<Rightarrow> (Programmed, st) | Power_Lost # rs \<Rightarrow> (Power_Lost, st) | r # rs \<Rightarrow> (r, st\<lparr>results := rs\<rparr>))"

definition program :: "nat \<Rightarrow> byte list \<Rightarrow> flash_pool \<Rightarrow> pk_status \<times> flash_pool" where
  "program a d st =
     (if d = [] then (PICOKEYS_ERR_NULL_PARAM, st)
      else case next_result st of
        (Programmed, st1) \<Rightarrow> (PICOKEYS_OK, st1\<lparr>cells := put_bytes a d (cells st1)\<rparr>)
      | (Stopped n, st1) \<Rightarrow> (PICOKEYS_ERR_NO_MEMORY, st1\<lparr>cells := put_bytes a (take n d) (cells st1)\<rparr>)
      | (Power_Lost, st1) \<Rightarrow> (PICOKEYS_ERR_NO_MEMORY, st1))"

definition program_pointer :: "nat \<Rightarrow> nat \<Rightarrow> flash_pool \<Rightarrow> pk_status \<times> flash_pool" where
  "program_pointer a v = program a (put_uint32_le (of_nat v))"

definition flash_commit_sync :: "flash_pool \<Rightarrow> bool \<times> flash_pool" where
  "flash_commit_sync st = (case next_result st of (r, st1) \<Rightarrow> (r = Programmed, st1))"

section \<open>The pools\<close>

definition FLASH_SECTOR_SIZE :: nat where "FLASH_SECTOR_SIZE = 4096"
definition FLASH_DATA_HEADER_SIZE :: nat where "FLASH_DATA_HEADER_SIZE = 8"
definition FLASH_PERMANENT_REGION :: nat where "FLASH_PERMANENT_REGION = 4 * FLASH_SECTOR_SIZE"
definition FLASH_FILE_EXTENDED_LENGTH :: nat where "FLASH_FILE_EXTENDED_LENGTH = 0xffff"
definition SIZE_MAX :: nat where "SIZE_MAX = 0xffffffff"

definition flash_set_bounds :: "nat \<Rightarrow> nat \<Rightarrow> flash_pool \<Rightarrow> flash_pool" where
  "flash_set_bounds start endf st =
     (let rend = endf - FLASH_DATA_HEADER_SIZE - 4; rstart = rend - FLASH_PERMANENT_REGION; dend = rstart - FLASH_DATA_HEADER_SIZE in
      st\<lparr>flash_end := endf, rom_end := rend, rom_start := rstart, data_end := dend, data_start := start, lowest_base := dend\<rparr>)"

definition flash_storage_blank :: "flash_pool \<Rightarrow> bool" where
  "flash_storage_blank st \<longleftrightarrow> data_start st < flash_end st \<and> list_all (\<lambda>p. cells st p = 0xff) [data_start st ..< flash_end st]"

definition flash_free_space :: "flash_pool \<Rightarrow> nat" where "flash_free_space st = lowest_base st - data_start st"
definition flash_used_space :: "flash_pool \<Rightarrow> nat" where "flash_used_space st = data_end st - lowest_base st"
definition flash_total_space :: "flash_pool \<Rightarrow> nat" where "flash_total_space st = data_end st - data_start st"

section \<open>Records\<close>

definition length_size_of :: "(nat \<Rightarrow> byte) \<Rightarrow> nat \<Rightarrow> nat" where
  "length_size_of m data = (if unat (half_at m data) = FLASH_FILE_EXTENDED_LENGTH then 6 else 2)"

definition length_of :: "(nat \<Rightarrow> byte) \<Rightarrow> nat \<Rightarrow> nat" where
  "length_of m data = (if unat (half_at m data) = FLASH_FILE_EXTENDED_LENGTH then unat (word_at m (data + 2)) else unat (half_at m data))"

definition flash_record_size :: "(nat \<Rightarrow> byte) \<Rightarrow> nat \<Rightarrow> nat" where
  "flash_record_size m base = 12 + length_size_of m (base + 12) + length_of m (base + 12)"

definition length_size_for :: "nat \<Rightarrow> nat" where
  "length_size_for n = (if FLASH_FILE_EXTENDED_LENGTH \<le> n then 6 else 2)"

text \<open>First fit from the upper end: the place of a record, the record below it and the one above it.\<close>

function find_gap :: "(nat \<Rightarrow> byte) \<Rightarrow> nat \<Rightarrow> nat \<Rightarrow> nat \<Rightarrow> (nat \<times> nat \<times> nat) option" where
  "find_gap m startp real_size base =
     (if base < startp \<or> base < real_size then None
      else let potential_addr = base - real_size; next_base = pointer_at m base in
        if next_base \<noteq> 0 \<and> base \<le> next_base then None
        else if next_base \<noteq> 0 \<and> base - next_base < flash_record_size m next_base then None
        else let gap_start = (if next_base \<noteq> 0 then next_base + flash_record_size m next_base else startp) in
          if gap_start \<le> potential_addr \<and> startp \<le> potential_addr then Some (potential_addr, next_base, base)
          else if next_base = 0 then None
          else find_gap m startp real_size next_base)"
  by pat_completeness auto
termination by (relation "measure (\<lambda>(m, startp, real_size, base). base)") auto

declare find_gap.simps [simp del]

definition allocate_free_addr :: "nat \<Rightarrow> bool \<Rightarrow> flash_pool \<Rightarrow> (nat \<times> nat) option \<times> flash_pool" where
  "allocate_free_addr n persistent st =
     (let overhead = 12 + length_size_for n; real_size = overhead + n;
          endp = (if persistent then rom_end st else data_end st); startp = (if persistent then rom_start st else data_start st) in
      if SIZE_MAX - overhead < n \<or> endp - startp < real_size then (None, st)
      else case find_gap (cells st) startp real_size endp of
        None \<Rightarrow> (None, st)
      | Some (addr, next_base, base) \<Rightarrow>
          (case program_pointer addr next_base st of (r1, st1) \<Rightarrow>
           case (if r1 = PICOKEYS_OK then program_pointer (addr + 4) base st1 else (r1, st1)) of (r2, st2) \<Rightarrow>
           case (if r2 = PICOKEYS_OK \<and> next_base \<noteq> 0 then program_pointer (next_base + 4) addr st2 else (r2, st2)) of (r3, st3) \<Rightarrow>
             (if r3 = PICOKEYS_OK then Some (addr, base) else None, st3)))"

section \<open>Files\<close>

record flash_file =
  file_data :: "nat option"
  file_id :: u16
  file_ns :: u16
  file_persistent :: bool

definition flash_file_size :: "flash_file \<Rightarrow> flash_pool \<Rightarrow> nat" where
  "flash_file_size f st = (case file_data f of None \<Rightarrow> 0 | Some p \<Rightarrow> length_of (cells st) p)"

definition flash_file_read_at :: "flash_file \<Rightarrow> nat \<Rightarrow> nat \<Rightarrow> flash_pool \<Rightarrow> pk_status + byte list" where
  "flash_file_read_at f off n st =
     (case file_data f of
        None \<Rightarrow> Inl PICOKEYS_ERR_NULL_PARAM
      | Some p \<Rightarrow>
          if flash_file_size f st < off \<or> flash_file_size f st - off < n then Inl PICOKEYS_ERR_NULL_PARAM
          else Inr (bytes_at (cells st) (p + length_size_of (cells st) p + off) n))"

definition write_file_length :: "nat \<Rightarrow> nat \<Rightarrow> flash_pool \<Rightarrow> pk_status \<times> flash_pool" where
  "write_file_length p n st =
     (if FLASH_FILE_EXTENDED_LENGTH \<le> n
      then case program p (put_uint16_le 0xffff) st of (r, st1) \<Rightarrow>
        if r \<noteq> PICOKEYS_OK then (r, st1) else program (p + 2) (put_uint32_le (of_nat n)) st1
      else program p (put_uint16_le (of_nat n)) st)"

function copy_file_range :: "flash_file \<Rightarrow> nat \<Rightarrow> nat \<Rightarrow> nat \<Rightarrow> flash_pool \<Rightarrow> pk_status \<times> flash_pool" where
  "copy_file_range source off destination n st =
     (if n = 0 then (PICOKEYS_OK, st)
      else let chunk = min 256 n in
        case flash_file_read_at source off chunk st of
          Inl r \<Rightarrow> (r, st)
        | Inr buffer \<Rightarrow> (case program destination buffer st of (r, st1) \<Rightarrow>
            if r \<noteq> PICOKEYS_OK then (r, st1) else copy_file_range source (off + chunk) (destination + chunk) (n - chunk) st1))"
  by pat_completeness auto
termination by (relation "measure (\<lambda>(source, off, destination, n, st). n)") auto

declare copy_file_range.simps [simp del]

text \<open>Zeros over the payload of a cleared record.\<close>

function zero_range :: "nat \<Rightarrow> nat \<Rightarrow> flash_pool \<Rightarrow> pk_status \<times> flash_pool" where
  "zero_range a n st =
     (if n = 0 then (PICOKEYS_OK, st)
      else let chunk = min 256 n in
        case program a (replicate chunk 0) st of (r, st1) \<Rightarrow>
          if r \<noteq> PICOKEYS_OK then (PICOKEYS_EXEC_ERROR, st1) else zero_range (a + chunk) (n - chunk) st1)"
  by pat_completeness auto
termination by (relation "measure (\<lambda>(a, n, st). n)") auto

declare zero_range.simps [simp del]

text \<open>The results of programming the links are ignored.\<close>

definition flash_clear_file :: "flash_file \<Rightarrow> flash_pool \<Rightarrow> pk_status \<times> flash_file \<times> flash_pool" where
  "flash_clear_file f st =
     (case file_data f of
        None \<Rightarrow> (PICOKEYS_OK, f, st)
      | Some p \<Rightarrow>
          let m = cells st; len = length_of m p; payload_addr = p + length_size_of m p; base_addr = p - 12;
              prev_addr = pointer_at m (base_addr + 4); next_addr = pointer_at m base_addr in
          case program_pointer prev_addr next_addr st of (_, st1) \<Rightarrow>
          case program p (put_uint16_le 0) st1 of (_, st2) \<Rightarrow>
          case zero_range payload_addr len st2 of (r, st3) \<Rightarrow>
            if r \<noteq> PICOKEYS_OK then (PICOKEYS_EXEC_ERROR, f, st3)
            else case (if 0 < next_addr then program_pointer (next_addr + 4) prev_addr st3 else (PICOKEYS_OK, st3)) of (_, st4) \<Rightarrow>
              case program_pointer base_addr 0 st4 of (_, st5) \<Rightarrow>
              case program_pointer (base_addr + 4) 0 st5 of (_, st6) \<Rightarrow>
                (PICOKEYS_OK, f\<lparr>file_data := None\<rparr>, st6\<lparr>num_files := num_files st6 - 1\<rparr>))"


section \<open>Writing\<close>

text \<open>Over the record a file has.\<close>

definition write_in_place :: "flash_file \<Rightarrow> nat \<Rightarrow> byte list \<Rightarrow> nat \<Rightarrow> bool \<Rightarrow> flash_pool \<Rightarrow> pk_status \<times> flash_pool" where
  "write_in_place f p data offset partial st =
     (let len = length data; old_size = flash_file_size f st; length_size = length_size_of (cells st) p;
          extended_size = (unat (half_at (cells st) p) = FLASH_FILE_EXTENDED_LENGTH) in
      case (if partial then (PICOKEYS_OK, st)
            else if extended_size then program (p + 2) (put_uint32_le (of_nat len)) st
            else program p (put_uint16_le (of_nat len)) st) of (r1, st1) \<Rightarrow>
      case (if r1 = PICOKEYS_OK \<and> 0 < len then program (p + length_size + offset) data st1 else (r1, st1)) of (r2, st2) \<Rightarrow>
        if r2 = PICOKEYS_OK \<and> FLASH_SECTOR_SIZE < old_size
        then case flash_commit_sync st2 of (ok, st3) \<Rightarrow> (if ok then r2 else PICOKEYS_ERR_MEMORY_FATAL, st3)
        else (r2, st2))"

text \<open>The identity, the length and the data of a new record.\<close>

definition fill_record :: "flash_file \<Rightarrow> flash_file \<Rightarrow> byte list \<Rightarrow> nat \<Rightarrow> bool \<Rightarrow> nat \<Rightarrow> nat \<Rightarrow> flash_pool \<Rightarrow> pk_status \<times> flash_pool" where
  "fill_record old_file new_file data offset partial old_size new_size st =
     (let p = the (file_data new_file); payload = p + length_size_for new_size; write_end = offset + length data;
          replacing = (file_data old_file \<noteq> None) in
      case program (p - 4) (put_uint32_le (push_bit 16 (ucast (file_ns new_file)) OR ucast (file_id new_file))) st of (r1, st1) \<Rightarrow>
      case (if r1 = PICOKEYS_OK then write_file_length p new_size st1 else (r1, st1)) of (r2, st2) \<Rightarrow>
      let st2 = st2\<lparr>num_files := num_files st2 + 1\<rparr> in
      case (if r2 = PICOKEYS_OK \<and> partial \<and> replacing \<and> 0 < offset then copy_file_range old_file 0 payload offset st2 else (r2, st2)) of (r3, st3) \<Rightarrow>
      case (if r3 = PICOKEYS_OK \<and> data \<noteq> [] then program (payload + offset) data st3 else (r3, st3)) of (r4, st4) \<Rightarrow>
        if r4 = PICOKEYS_OK \<and> partial \<and> replacing \<and> write_end < old_size
        then copy_file_range old_file write_end (payload + write_end) (old_size - write_end) st4 else (r4, st4))"

text \<open>Only then is the record entered into the list, after a commit when the two lie in different sectors.\<close>

definition sector_of :: "nat \<Rightarrow> nat" where "sector_of a = a - a mod FLASH_SECTOR_SIZE"

definition publish_record :: "nat \<Rightarrow> nat \<Rightarrow> flash_pool \<Rightarrow> pk_status \<times> flash_pool" where
  "publish_record publish_at new_addr st =
     (case (if sector_of publish_at \<noteq> sector_of new_addr
            then case flash_commit_sync st of (ok, st1) \<Rightarrow> (if ok then PICOKEYS_OK else PICOKEYS_ERR_MEMORY_FATAL, st1)
            else (PICOKEYS_OK, st)) of (r, st1) \<Rightarrow>
        if r = PICOKEYS_OK then program_pointer publish_at new_addr st1 else (r, st1))"

text \<open>The last part of a replacement: the old record is cleared, and a long record is committed.\<close>

definition drop_old :: "flash_file \<Rightarrow> flash_file \<Rightarrow> nat \<Rightarrow> flash_pool \<Rightarrow> pk_status \<times> flash_file \<times> flash_pool" where
  "drop_old f nf real_size st =
     (case flash_clear_file f st of (c, _, st4) \<Rightarrow>
        if c \<noteq> PICOKEYS_OK then case flash_clear_file nf st4 of (_, _, st5) \<Rightarrow> (PICOKEYS_ERR_MEMORY_FATAL, f, st5)
        else if FLASH_SECTOR_SIZE < real_size
        then case flash_commit_sync st4 of (ok, st5) \<Rightarrow> (if ok then (PICOKEYS_OK, nf, st5) else (PICOKEYS_ERR_MEMORY_FATAL, f, st5))
        else (PICOKEYS_OK, nf, st4))"

definition write_new_record :: "flash_file \<Rightarrow> byte list \<Rightarrow> nat \<Rightarrow> bool \<Rightarrow> nat \<Rightarrow> nat \<Rightarrow> flash_pool \<Rightarrow> pk_status \<times> flash_file \<times> flash_pool" where
  "write_new_record f data offset partial old_size new_size st =
     (case allocate_free_addr new_size (file_persistent f) st of
        (None, st1) \<Rightarrow> (PICOKEYS_ERR_NO_MEMORY, f, st1)
      | (Some (new_addr, publish_at), st1) \<Rightarrow>
          let st1 = (if new_addr < lowest_base st1 then st1\<lparr>lowest_base := new_addr\<rparr> else st1);
              new_file = f\<lparr>file_data := Some (new_addr + 12)\<rparr> in
          case fill_record f new_file data offset partial old_size new_size st1 of (r, st2) \<Rightarrow>
          case (if r = PICOKEYS_OK then publish_record publish_at new_addr st2 else (r, st2)) of (r, st3) \<Rightarrow>
            if r \<noteq> PICOKEYS_OK then case flash_clear_file new_file st3 of (_, _, st4) \<Rightarrow> (r, f, st4)
            else if file_data f = None then (PICOKEYS_OK, new_file, st3)
            else drop_old f new_file (12 + length_size_for new_size + new_size) st3)"

definition flash_write_data_to_file_internal :: "flash_file \<Rightarrow> byte list \<Rightarrow> nat \<Rightarrow> bool \<Rightarrow> flash_pool \<Rightarrow> pk_status \<times> flash_file \<times> flash_pool" where
  "flash_write_data_to_file_internal f data offset partial st =
     (let len = length data; old_size = flash_file_size f st; write_end = offset + len;
          new_size = (if partial then max old_size write_end else len) in
      if SIZE_MAX < len then (PICOKEYS_ERR_NULL_PARAM, f, st)
      else if SIZE_MAX - len < offset \<or> (partial \<and> old_size < offset) then (PICOKEYS_ERR_NO_MEMORY, f, st)
      else case file_data f of
        None \<Rightarrow> write_new_record f data offset partial old_size new_size st
      | Some p \<Rightarrow>
          let extended_size = (unat (half_at (cells st) p) = FLASH_FILE_EXTENDED_LENGTH) in
          if (partial \<and> write_end \<le> old_size) \<or> (\<not> partial \<and> len \<le> old_size \<and> (extended_size \<or> len < FLASH_FILE_EXTENDED_LENGTH))
          then case write_in_place f p data offset partial st of (r, st1) \<Rightarrow> (r, f, st1)
          else write_new_record f data offset partial old_size new_size st)"

definition flash_write_data_to_file :: "flash_file \<Rightarrow> byte list \<Rightarrow> flash_pool \<Rightarrow> pk_status \<times> flash_file \<times> flash_pool" where
  "flash_write_data_to_file f data = flash_write_data_to_file_internal f data 0 False"

definition flash_write_data_to_file_offset :: "flash_file \<Rightarrow> byte list \<Rightarrow> nat \<Rightarrow> flash_pool \<Rightarrow> pk_status \<times> flash_file \<times> flash_pool" where
  "flash_write_data_to_file_offset f data offset = flash_write_data_to_file_internal f data offset True"

section \<open>Scanning\<close>

record found_record =
  found_base :: nat
  found_fid :: u16
  found_ns :: u16
  found_length :: nat

definition record_valid :: "(u16 \<Rightarrow> bool) \<Rightarrow> nat \<Rightarrow> nat \<Rightarrow> nat \<Rightarrow> (nat \<Rightarrow> byte) \<Rightarrow> bool" where
  "record_valid known startp endp base m \<longleftrightarrow>
     (let next_addr = pointer_at m base; prev_addr = pointer_at m (base + 4); identity = word_at m (base + 8);
          fid = ucast identity; ns = ucast (drop_bit 16 identity); length_addr = base + 12;
          record_header = 12 + length_size_of m length_addr in
      known ns \<and> (fid :: u16) \<noteq> 0 \<and> fid \<noteq> 0xffff \<and> record_header \<le> endp - base \<and> length_of m length_addr \<le> endp - base - record_header \<and>
      (next_addr = 0 \<or> (startp \<le> next_addr \<and> next_addr < base)) \<and> (prev_addr = endp \<or> (base < prev_addr \<and> prev_addr \<le> endp)))"

text \<open>The records from \<open>base\<close> on, and whether the list is corrupted there.\<close>

function scan_records :: "(u16 \<Rightarrow> bool) \<Rightarrow> nat \<Rightarrow> nat \<Rightarrow> nat \<Rightarrow> (nat \<Rightarrow> byte) \<Rightarrow> found_record list \<times> bool" where
  "scan_records known startp endp base m =
     (if base = 0 then ([], False)
      else if base < startp \<or> endp < base \<or> endp - base < 14 then ([], True)
      else if \<not> record_valid known startp endp base m then ([], True)
      else let r = \<lparr>found_base = base, found_fid = ucast (word_at m (base + 8)), found_ns = ucast (drop_bit 16 (word_at m (base + 8))),
               found_length = length_of m (base + 12)\<rparr> in
        if pointer_at m base = 0 then ([r], False)
        else case scan_records known startp endp (pointer_at m base) m of (rs, corrupted) \<Rightarrow> (r # rs, corrupted))"
  by pat_completeness auto
termination by (relation "measure (\<lambda>(known, startp, endp, base, m). base)") (auto simp: record_valid_def Let_def)

declare scan_records.simps [simp del]

definition scan_region :: "(u16 \<Rightarrow> bool) \<Rightarrow> bool \<Rightarrow> flash_pool \<Rightarrow> (found_record list \<times> bool) \<times> flash_pool" where
  "scan_region known persistent st =
     (let endp = (if persistent then rom_end st else data_end st); startp = (if persistent then rom_start st else data_start st);
          found = scan_records known startp endp (pointer_at (cells st) endp) (cells st) in
      (found, if persistent then st
              else st\<lparr>num_files := length (fst found), lowest_base := Min (set (endp # map found_base (fst found)))\<rparr>))"

section \<open>Bytes\<close>

lemma bytes_at_length [simp]: "length (bytes_at m a n) = n" by (simp add: bytes_at_def)

lemma bytes_at_nth [simp]: "i < n \<Longrightarrow> bytes_at m a n ! i = m (a + i)" by (simp add: bytes_at_def)

lemma bytes_at_cong: "(\<And>x. a \<le> x \<Longrightarrow> x < a + n \<Longrightarrow> m' x = m x) \<Longrightarrow> bytes_at m' a n = bytes_at m a n"
  by (simp add: bytes_at_def)

lemma bytes_at_split: "bytes_at m a (i + j) = bytes_at m a i @ bytes_at m (a + i) j"
  by (rule nth_equalityI) (auto simp: nth_append)

lemma bytes_at_put: "bytes_at (put_bytes a d m) a (length d) = d"
  by (rule nth_equalityI) (simp_all add: put_bytes_def)

lemma put_bytes_other: "x < a \<or> a + length d \<le> x \<Longrightarrow> put_bytes a d m x = m x"
  by (auto simp: put_bytes_def)

lemma put_bytes_Nil: "put_bytes a [] m = m" by (rule ext) (auto simp: put_bytes_def)

lemma put_uint16_le_length [simp]: "length (put_uint16_le v) = 2" by (simp add: put_uint16_le_def put_uint16_be_def)

lemma put_uint32_le_length [simp]: "length (put_uint32_le v) = 4" by (simp add: put_uint32_le_def put_uint32_be_def)

text \<open>What is written at a place, as bytes there.\<close>

definition holds :: "(nat \<Rightarrow> byte) \<Rightarrow> nat \<Rightarrow> byte list \<Rightarrow> bool" where
  "holds m a d \<longleftrightarrow> bytes_at m a (length d) = d"

lemma holds_put [simp]: "holds (put_bytes a d m) a d" by (simp add: holds_def bytes_at_put)

lemma holds_half: "holds m a (put_uint16_le v) \<Longrightarrow> half_at m a = v"
  using get_put_uint16_le [of v "[]"] by (simp add: holds_def half_at_def)

lemma holds_word: "holds m a (put_uint32_le v) \<Longrightarrow> word_at m a = v"
  using get_put_uint32_le [of v "[]"] by (simp add: holds_def word_at_def)

lemma holds_pointer: "holds m a (put_uint32_le (of_nat v)) \<Longrightarrow> v < 2 ^ 32 \<Longrightarrow> pointer_at m a = v"
  by (simp add: pointer_at_def holds_word unat_of_nat take_bit_nat_eq_self)

text \<open>Two memories that differ only inside a set of addresses.\<close>

definition agree_outside :: "nat set \<Rightarrow> (nat \<Rightarrow> byte) \<Rightarrow> (nat \<Rightarrow> byte) \<Rightarrow> bool" where
  "agree_outside S m m' \<longleftrightarrow> (\<forall>x. x \<notin> S \<longrightarrow> m' x = m x)"

lemma agree_refl [simp]: "agree_outside S m m" by (simp add: agree_outside_def)

lemma agree_trans: "agree_outside S m m' \<Longrightarrow> agree_outside S m' m'' \<Longrightarrow> agree_outside S m m''"
  by (simp add: agree_outside_def)

lemma agree_mono: "agree_outside S m m' \<Longrightarrow> S \<subseteq> T \<Longrightarrow> agree_outside T m m'"
  by (auto simp: agree_outside_def)

definition apart :: "nat set \<Rightarrow> nat \<Rightarrow> nat \<Rightarrow> bool" where
  "apart S a n \<longleftrightarrow> (\<forall>x \<in> S. x < a \<or> a + n \<le> x)"

lemma apart_sub: "apart S a n \<Longrightarrow> a \<le> b \<Longrightarrow> b + k \<le> a + n \<Longrightarrow> apart S b k"
  by (fastforce simp: apart_def)

lemma apart_Un [simp]: "apart (S \<union> T) a n \<longleftrightarrow> apart S a n \<and> apart T a n"
  by (auto simp: apart_def)

lemma apart_empty [simp]: "apart {} a n" by (simp add: apart_def)

lemma apart_interval: "d \<le> a \<or> a + n \<le> c \<Longrightarrow> apart {c ..< d} a n"
  by (auto simp: apart_def)

lemma agree_bytes: "agree_outside S m m' \<Longrightarrow> apart S a n \<Longrightarrow> bytes_at m' a n = bytes_at m a n"
  by (rule bytes_at_cong) (metis agree_outside_def apart_def not_le)

lemma agree_holds: "agree_outside S m m' \<Longrightarrow> holds m a d \<Longrightarrow> apart S a (length d) \<Longrightarrow> holds m' a d"
  by (simp add: holds_def agree_bytes)

lemma agree_half: "agree_outside S m m' \<Longrightarrow> apart S a 2 \<Longrightarrow> half_at m' a = half_at m a"
  by (simp add: half_at_def agree_bytes)

lemma agree_word: "agree_outside S m m' \<Longrightarrow> apart S a 4 \<Longrightarrow> word_at m' a = word_at m a"
  by (simp add: word_at_def agree_bytes)

lemma agree_pointer: "agree_outside S m m' \<Longrightarrow> apart S a 4 \<Longrightarrow> pointer_at m' a = pointer_at m a"
  by (simp add: pointer_at_def agree_word)

lemma put_bytes_agree: "{a ..< a + length d} \<subseteq> S \<Longrightarrow> agree_outside S m (put_bytes a d m)"
  by (auto simp: agree_outside_def put_bytes_def)

section \<open>The list of records\<close>

lemma length_size_cases: "length_size_of m a = 6 \<or> length_size_of m a = 2" by (simp add: length_size_of_def)

lemma record_size_min: "14 \<le> flash_record_size m b" "12 + length_size_of m (b + 12) \<le> flash_record_size m b"
  using length_size_cases [of m "b + 12"] by (auto simp: flash_record_size_def)

lemma agree_length:
  assumes "agree_outside S m m'" "apart S a (length_size_of m a)"
  shows "length_size_of m' a = length_size_of m a" "length_of m' a = length_of m a"
proof -
  have h: "half_at m' a = half_at m a"
    using length_size_cases [of m a] by (intro agree_half [OF assms(1)] apart_sub [OF assms(2)]) auto
  then show "length_size_of m' a = length_size_of m a" by (simp add: length_size_of_def)
  have "word_at m' (a + 2) = word_at m (a + 2)" if "unat (half_at m a) = FLASH_FILE_EXTENDED_LENGTH"
    using that by (intro agree_word [OF assms(1)] apart_sub [OF assms(2)]) (auto simp: length_size_of_def)
  with h show "length_of m' a = length_of m a" by (simp add: length_of_def)
qed

definition contents :: "(nat \<Rightarrow> byte) \<Rightarrow> nat \<Rightarrow> u32 \<times> byte list" where
  "contents m b = (word_at m (b + 8), bytes_at m (b + 12 + length_size_of m (b + 12)) (length_of m (b + 12)))"

lemma agree_record:
  assumes "agree_outside S m m'" "apart S (b + 8) (flash_record_size m b - 8)"
  shows "flash_record_size m' b = flash_record_size m b" "contents m' b = contents m b"
proof -
  note sz = record_size_min [of m b]
  have l: "length_size_of m' (b + 12) = length_size_of m (b + 12)" "length_of m' (b + 12) = length_of m (b + 12)"
    by (rule agree_length [OF assms(1) apart_sub [OF assms(2)]]; use sz in simp)+
  then show "flash_record_size m' b = flash_record_size m b" by (simp add: flash_record_size_def)
  have "word_at m' (b + 8) = word_at m (b + 8)" by (rule agree_word [OF assms(1) apart_sub [OF assms(2)]]) (use sz in simp_all)
  moreover have "bytes_at m' (b + 12 + length_size_of m (b + 12)) (length_of m (b + 12)) = bytes_at m (b + 12 + length_size_of m (b + 12)) (length_of m (b + 12))"
    by (rule agree_bytes [OF assms(1) apart_sub [OF assms(2)]]) (simp_all add: flash_record_size_def)
  ultimately show "contents m' b = contents m b" by (simp add: contents_def l)
qed

text \<open>The forward links from \<open>p\<close> on, down to 0, with the records one below the other; and the backward links.\<close>

fun segment :: "(nat \<Rightarrow> byte) \<Rightarrow> nat \<Rightarrow> nat list \<Rightarrow> bool" where
  "segment m p [] = True"
| "segment m p (b # bs) \<longleftrightarrow> pointer_at m p = b \<and> b \<noteq> 0 \<and> b + flash_record_size m b \<le> p \<and> segment m b bs"

definition links :: "(nat \<Rightarrow> byte) \<Rightarrow> nat \<Rightarrow> nat list \<Rightarrow> bool" where
  "links m p bs \<longleftrightarrow> segment m p bs \<and> pointer_at m (last (p # bs)) = 0"

fun backs :: "(nat \<Rightarrow> byte) \<Rightarrow> nat \<Rightarrow> nat list \<Rightarrow> bool" where
  "backs m p [] = True"
| "backs m p (b # bs) \<longleftrightarrow> pointer_at m (b + 4) = p \<and> backs m b bs"

lemma segment_append: "segment m p (xs @ ys) \<longleftrightarrow> segment m p xs \<and> segment m (last (p # xs)) ys"
  by (induction xs arbitrary: p) auto

lemma backs_append: "backs m p (xs @ ys) \<longleftrightarrow> backs m p xs \<and> backs m (last (p # xs)) ys"
  by (induction xs arbitrary: p) auto

lemma segment_below: "segment m p bs \<Longrightarrow> b \<in> set bs \<Longrightarrow> b + flash_record_size m b \<le> p"
  by (induction bs arbitrary: p) fastforce+

lemma segment_last: "segment m p bs \<Longrightarrow> last (p # bs) \<le> p"
  by (induction bs arbitrary: p) fastforce+

text \<open>A record between those above and those below it.\<close>

lemma segment_between:
  assumes "segment m p (xs @ b # ys)"
  shows "b + flash_record_size m b \<le> last (p # xs)" "x \<in> set xs \<Longrightarrow> last (p # xs) \<le> x" "y \<in> set ys \<Longrightarrow> y + flash_record_size m y \<le> b"
    "last (p # xs) \<le> p"
proof -
  have s: "segment m p xs" "segment m (last (p # xs)) (b # ys)" using assms by (simp_all add: segment_append)
  from s(2) show "b + flash_record_size m b \<le> last (p # xs)" by simp
  show "y \<in> set ys \<Longrightarrow> y + flash_record_size m y \<le> b" using s(2) segment_below [of m b ys y] by simp
  show "last (p # xs) \<le> p" using s(1) by (rule segment_last)
  show "last (p # xs) \<le> x" if x: "x \<in> set xs"
  proof -
    from x obtain us vs where xs: "xs = us @ x # vs" by (meson split_list)
    then have "segment m x vs" using s(1) by (simp add: segment_append)
    then show ?thesis using segment_last [of m x vs] xs by simp
  qed
qed

lemma segment_agree:
  assumes "agree_outside S m m'" "segment m p bs" "bs = [] \<or> apart S p 4"
    and "\<And>b. b \<in> set bs \<Longrightarrow> apart S (b + 8) (flash_record_size m b - 8)" "\<And>b. b \<in> set (butlast bs) \<Longrightarrow> apart S b 4"
  shows "segment m' p bs"
  using assms(2-)
proof (induction bs arbitrary: p)
  case (Cons b bs)
  have "pointer_at m' p = b" using Cons.prems(1,2) agree_pointer [OF assms(1), of p] by auto
  moreover have "flash_record_size m' b = flash_record_size m b" using Cons.prems(3) by (intro agree_record(1) [OF assms(1)]) simp
  moreover have "segment m' b bs"
  proof (rule Cons.IH)
    show "bs = [] \<or> apart S b 4" using Cons.prems(4) [of b] by (cases bs) auto
    show "apart S (c + 8) (flash_record_size m c - 8)" if "c \<in> set bs" for c using Cons.prems(3) [of c] that by simp
    show "apart S c 4" if "c \<in> set (butlast bs)" for c using Cons.prems(4) [of c] that by (cases bs) auto
  qed (use Cons.prems(1) in simp)
  ultimately show ?case using Cons.prems(1) by simp
qed simp

lemma backs_agree:
  assumes "agree_outside S m m'" "backs m p bs" "\<And>b. b \<in> set bs \<Longrightarrow> apart S (b + 4) 4"
  shows "backs m' p bs"
  using assms(2,3) by (induction bs arbitrary: p) (simp_all add: agree_pointer [OF assms(1)])

section \<open>First fit\<close>

definition next_of :: "nat list \<Rightarrow> nat" where
  "next_of ys = (case ys of [] \<Rightarrow> 0 | y # _ \<Rightarrow> y)"

definition gap_floor :: "(nat \<Rightarrow> byte) \<Rightarrow> nat \<Rightarrow> nat list \<Rightarrow> nat" where
  "gap_floor m startp ys = (case ys of [] \<Rightarrow> startp | y # _ \<Rightarrow> y + flash_record_size m y)"

lemma links_Cons: "links m p (b # bs) \<longleftrightarrow> pointer_at m p = b \<and> b \<noteq> 0 \<and> b + flash_record_size m b \<le> p \<and> links m b bs"
  by (simp add: links_def)

lemma links_Nil: "links m p [] \<longleftrightarrow> pointer_at m p = 0" by (simp add: links_def)

lemma links_next: "links m p (xs @ ys) \<Longrightarrow> pointer_at m (last (p # xs)) = next_of ys"
  by (induction xs arbitrary: p) (auto simp: links_Cons links_Nil next_of_def split: list.splits)

lemma find_gap_some:
  assumes "find_gap m startp n p = Some (addr, nxt, base)" "links m p bs" "\<forall>b \<in> set bs. startp \<le> b" "startp \<le> p"
  shows "\<exists>xs ys. bs = xs @ ys \<and> base = last (p # xs) \<and> nxt = next_of ys \<and> addr + n = base \<and> startp \<le> addr \<and> gap_floor m startp ys \<le> addr"
  using assms
proof (induction bs arbitrary: p)
  case Nil
  then have "pointer_at m p = 0" by (simp add: links_Nil)
  with Nil show ?case
    by (auto simp: find_gap.simps [of m startp n p] next_of_def gap_floor_def Let_def split: if_splits)
next
  case (Cons b bs)
  then have l: "pointer_at m p = b" "b \<noteq> 0" "b + flash_record_size m b \<le> p" "links m b bs" by (simp_all add: links_Cons)
  then have "b < p" using record_size_min(1) [of m b] by linarith
  show ?case
  proof (cases "b + flash_record_size m b \<le> p - n \<and> startp \<le> p - n \<and> n \<le> p")
    case True
    with Cons.prems(1) l \<open>b < p\<close> have "addr = p - n" "nxt = b" "base = p"
      by (auto simp: find_gap.simps [of m startp n p] Let_def split: if_splits)
    with True show ?thesis by (intro exI [of _ "[]"] exI [of _ "b # bs"]) (simp add: next_of_def gap_floor_def)
  next
    case False
    with Cons.prems(1) l \<open>b < p\<close> have "find_gap m startp n b = Some (addr, nxt, base)"
      by (auto simp: find_gap.simps [of m startp n p] Let_def split: if_splits)
    from Cons.IH [OF this l(4)] Cons.prems(3) obtain xs ys
      where "bs = xs @ ys \<and> base = last (b # xs) \<and> nxt = next_of ys \<and> addr + n = base \<and> startp \<le> addr \<and> gap_floor m startp ys \<le> addr" by auto
    then show ?thesis by (intro exI [of _ "b # xs"] exI [of _ ys]) simp
  qed
qed

lemma find_gap_none:
  assumes "find_gap m startp n p = None" "links m p (xs @ ys)" "\<forall>b \<in> set (xs @ ys). startp \<le> b" "startp \<le> p"
  shows "last (p # xs) < gap_floor m startp ys + n"
  using assms
proof (induction xs arbitrary: p)
  case Nil
  have f: "startp \<le> gap_floor m startp ys" using Nil.prems(3) record_size_min(1) by (fastforce simp: gap_floor_def split: list.splits)
  have l: "pointer_at m p = next_of ys" using links_next [of m p "[]" ys] Nil.prems(2) by simp
  show ?case
  proof (rule ccontr)
    assume "\<not> last (p # []) < gap_floor m startp ys + n"
    then have g: "gap_floor m startp ys + n \<le> p" by simp
    have "next_of ys \<noteq> 0 \<longrightarrow> \<not> p \<le> next_of ys \<and> \<not> p - next_of ys < flash_record_size m (next_of ys)"
      using g Nil.prems(2) record_size_min(1) [of m "next_of ys"] by (auto simp: next_of_def gap_floor_def links_Cons split: list.splits)
    moreover have "(if next_of ys \<noteq> 0 then next_of ys + flash_record_size m (next_of ys) else startp) = gap_floor m startp ys"
      using Nil.prems(2) by (auto simp: next_of_def gap_floor_def links_Cons split: list.splits)
    ultimately show False using Nil.prems(1) g f by (auto simp: find_gap.simps [of m startp n p] l Let_def split: if_splits)
  qed
next
  case (Cons b xs)
  then have l: "pointer_at m p = b" "b \<noteq> 0" "b + flash_record_size m b \<le> p" "links m b (xs @ ys)" by (simp_all add: links_Cons)
  then have "b < p" using record_size_min(1) [of m b] by linarith
  show ?case
  proof (cases "p < n")
    case True
    have "last (b # xs) \<le> b" using l(4) segment_last [of m b xs] by (simp add: links_def segment_append)
    with True \<open>b < p\<close> show ?thesis by simp
  next
    case False
    with Cons.prems l \<open>b < p\<close> have "find_gap m startp n b = None"
      by (auto simp: find_gap.simps [of m startp n p] Let_def split: if_splits)
    from Cons.IH [OF this l(4)] Cons.prems(3) show ?thesis by simp
  qed
qed

section \<open>Steps that write inside a set of addresses\<close>

definition dead :: "flash_pool \<Rightarrow> bool" where
  "dead st \<longleftrightarrow> (\<exists>rs. results st = Power_Lost # rs)"

text \<open>The power may be lost, but no block is left half programmed.\<close>

definition clean :: "flash_pool \<Rightarrow> bool" where
  "clean st \<longleftrightarrow> list_all (\<lambda>r. r = Programmed \<or> r = Power_Lost) (results st)"

definition regions :: "flash_pool \<Rightarrow> nat \<times> nat \<times> nat \<times> nat" where
  "regions st = (data_start st, data_end st, rom_start st, rom_end st)"

definition within :: "nat set \<Rightarrow> flash_pool \<Rightarrow> flash_pool \<Rightarrow> bool" where
  "within S st st' \<longleftrightarrow> agree_outside S (cells st) (cells st') \<and> regions st' = regions st \<and>
     (dead st \<longrightarrow> dead st' \<and> cells st' = cells st) \<and> (clean st \<longrightarrow> clean st') \<and> (results st = [] \<longrightarrow> results st' = [])"

lemma within_refl [simp]: "within S st st" by (simp add: within_def)

lemma within_trans: "within S st st' \<Longrightarrow> within S st' st'' \<Longrightarrow> within S st st''"
  by (auto simp: within_def intro: agree_trans)

lemma within_mono: "within S st st' \<Longrightarrow> S \<subseteq> T \<Longrightarrow> within T st st'"
  by (auto simp: within_def intro: agree_mono)

lemma withinD: "within S st st' \<Longrightarrow> agree_outside S (cells st) (cells st')" "within S st st' \<Longrightarrow> regions st' = regions st"
  "within S st st' \<Longrightarrow> clean st \<Longrightarrow> clean st'" "within S st st' \<Longrightarrow> results st = [] \<Longrightarrow> results st' = []"
  "within S st st' \<Longrightarrow> dead st \<Longrightarrow> dead st'" "within S st st' \<Longrightarrow> dead st \<Longrightarrow> cells st' = cells st"
  by (simp_all add: within_def)

lemma within_count [simp]: "within S st (st'\<lparr>num_files := n\<rparr>) = within S st st'" "within S (st\<lparr>num_files := n\<rparr>) st' = within S st st'"
  "within S st (st'\<lparr>lowest_base := n\<rparr>) = within S st st'" "within S (st\<lparr>lowest_base := n\<rparr>) st' = within S st st'"
  by (simp_all add: within_def regions_def dead_def clean_def)

text \<open>A step that wrote what it should, or failed; when no block is left half programmed it fails only without power.\<close>

definition step :: "nat set \<Rightarrow> flash_pool \<Rightarrow> pk_status \<Rightarrow> flash_pool \<Rightarrow> bool" where
  "step S st r st' \<longleftrightarrow> within S st st' \<and> (results st = [] \<longrightarrow> r = PICOKEYS_OK) \<and> (clean st \<and> r \<noteq> PICOKEYS_OK \<longrightarrow> dead st')"

lemma stepD: "step S st r st' \<Longrightarrow> within S st st'" "step S st r st' \<Longrightarrow> results st = [] \<Longrightarrow> r = PICOKEYS_OK"
  "step S st r st' \<Longrightarrow> clean st \<Longrightarrow> r \<noteq> PICOKEYS_OK \<Longrightarrow> dead st'"
  by (simp_all add: step_def)

lemma step_mono: "step S st r st' \<Longrightarrow> S \<subseteq> T \<Longrightarrow> step T st r st'"
  by (auto simp: step_def intro: within_mono)

lemma step_then: "step S st PICOKEYS_OK st' \<Longrightarrow> step S st' r st'' \<Longrightarrow> step S st r st''"
  by (auto simp: step_def within_def intro: agree_trans)

lemma step_ok [simp]: "step S st PICOKEYS_OK st" by (simp add: step_def)

lemma program_step:
  assumes "program a d st = (r, st')" "d \<noteq> []" "{a ..< a + length d} \<subseteq> S"
  shows "step S st r st'" "r = PICOKEYS_OK \<Longrightarrow> holds (cells st') a d" "clean st \<Longrightarrow> r \<noteq> PICOKEYS_OK \<Longrightarrow> cells st' = cells st"
proof -
  have "{a ..< a + length (take n d)} \<subseteq> S" for n using assms(3) by (intro order_trans [OF _ assms(3)]) auto
  then have "agree_outside S m (put_bytes a (take n d) m)" "agree_outside S m (put_bytes a d m)" for n m
    using put_bytes_agree assms(3) by blast+
  then show "step S st r st'"
    using assms(1,2) by (auto simp: program_def next_result_def step_def within_def dead_def clean_def regions_def split: list.splits program_outcome.splits if_splits)
  show "holds (cells st') a d" if "r = PICOKEYS_OK"
    using assms(1,2) that by (auto simp: program_def next_result_def split: list.splits program_outcome.splits if_splits)
  show "clean st \<Longrightarrow> r \<noteq> PICOKEYS_OK \<Longrightarrow> cells st' = cells st"
    using assms(1,2) by (auto simp: program_def next_result_def clean_def split: list.splits program_outcome.splits if_splits)
qed

lemma uint32_not_Nil [simp]: "put_uint32_le v \<noteq> []" "put_uint16_le w \<noteq> []"
  using put_uint32_le_length [of v] put_uint16_le_length [of w] by force+

lemma program_pointer_step:
  assumes "program_pointer a v st = (r, st')" "{a ..< a + 4} \<subseteq> S"
  shows "step S st r st'" "r = PICOKEYS_OK \<Longrightarrow> v < 2 ^ 32 \<Longrightarrow> pointer_at (cells st') a = v" "clean st \<Longrightarrow> r \<noteq> PICOKEYS_OK \<Longrightarrow> cells st' = cells st"
  using program_step [of a "put_uint32_le (of_nat v)" st r st' S] assms by (auto simp: program_pointer_def intro: holds_pointer)

lemma commit_step: "flash_commit_sync st = (ok, st') \<Longrightarrow> step {} st (if ok then PICOKEYS_OK else PICOKEYS_ERR_MEMORY_FATAL) st' \<and> cells st' = cells st"
  by (auto simp: flash_commit_sync_def next_result_def step_def within_def dead_def clean_def regions_def split: list.splits program_outcome.splits if_splits)

lemma zero_range_step:
  assumes "zero_range a n st = (r, st')"
  shows "step {a ..< a + n} st r st' \<and> (r = PICOKEYS_OK \<longrightarrow> (\<forall>x. a \<le> x \<and> x < a + n \<longrightarrow> cells st' x = 0))"
  using assms
proof (induction a n st arbitrary: r st' rule: zero_range.induct)
  case (1 a n st)
  show ?case
  proof (cases "n = 0")
    case True
    with "1.prems" show ?thesis using zero_range.simps [of a 0 st] by auto
  next
    case False
    define c where "c = min 256 n"
    have c: "0 < c" "c \<le> n" using False by (simp_all add: c_def)
    obtain r1 st1 where p: "program a (replicate c 0) st = (r1, st1)" by fastforce
    have s1: "step {a ..< a + n} st r1 st1" "r1 = PICOKEYS_OK \<Longrightarrow> holds (cells st1) a (replicate c 0)"
      using program_step [OF p, of "{a ..< a + n}"] c by auto
    show ?thesis
    proof (cases "r1 = PICOKEYS_OK")
      case False
      with "1.prems" p \<open>n \<noteq> 0\<close> have "r = PICOKEYS_EXEC_ERROR" "st' = st1" by (simp_all add: zero_range.simps [of a n] c_def)
      with False s1(1) show ?thesis by (simp add: step_def)
    next
      case True
      with "1.prems" p \<open>n \<noteq> 0\<close> have z: "zero_range (a + c) (n - c) st1 = (r, st')" by (simp add: zero_range.simps [of a n] c_def Let_def)
      have "\<not> r1 \<noteq> PICOKEYS_OK" using True by simp
      from "1.IH" [OF \<open>n \<noteq> 0\<close> c_def p [symmetric] this z] c
      have ih: "step {a + c ..< a + n} st1 r st'" "r = PICOKEYS_OK \<longrightarrow> (\<forall>x. a + c \<le> x \<and> x < a + n \<longrightarrow> cells st' x = 0)" by auto
      have "step {a ..< a + n} st r st'" using step_then [OF s1(1) [unfolded True]] step_mono [OF ih(1), of "{a ..< a + n}"] by auto
      moreover have "cells st' x = 0" if "r = PICOKEYS_OK" "a \<le> x" "x < a + n" for x
      proof (cases "x < a + c")
        case True
        have "bytes_at (cells st1) a c ! (x - a) = replicate c 0 ! (x - a)" using s1(2) [OF \<open>r1 = PICOKEYS_OK\<close>] by (simp add: holds_def)
        then have "cells st1 x = 0" using True that(2) by (simp add: less_diff_conv2)
        then show ?thesis using withinD(1) [OF stepD(1) [OF ih(1)]] True by (simp add: agree_outside_def)
      next
        case False
        with ih(2) that show ?thesis by simp
      qed
      ultimately show ?thesis by blast
    qed
  qed
qed

lemma copy_step:
  assumes "copy_file_range f off dst n st = (r, st')" "file_data f = Some p" "off + n \<le> length_of (cells st) p"
    and "apart {dst ..< dst + n} p (length_size_of (cells st) p + length_of (cells st) p)"
  shows "step {dst ..< dst + n} st r st' \<and>
    (r = PICOKEYS_OK \<longrightarrow> bytes_at (cells st') dst n = bytes_at (cells st) (p + length_size_of (cells st) p + off) n)"
  using assms
proof (induction f off dst n st arbitrary: r st' rule: copy_file_range.induct)
  case (1 f off dst n st)
  let ?src = "p + length_size_of (cells st) p + off"
  show ?case
  proof (cases "n = 0")
    case True
    with "1.prems" show ?thesis using copy_file_range.simps [of f off dst 0 st] by (simp add: bytes_at_def)
  next
    case False
    define c where "c = min 256 n"
    have c: "0 < c" "c \<le> n" using False by (simp_all add: c_def)
    have rd: "flash_file_read_at f off c st = Inr (bytes_at (cells st) ?src c)"
      using "1.prems"(2,3) c by (simp add: flash_file_read_at_def flash_file_size_def)
    obtain r1 st1 where pr: "program dst (bytes_at (cells st) ?src c) st = (r1, st1)" by fastforce
    have ne: "bytes_at (cells st) ?src c \<noteq> []" using c bytes_at_length [of "cells st" ?src c] by force
    have s1: "step {dst ..< dst + n} st r1 st1" "r1 = PICOKEYS_OK \<Longrightarrow> holds (cells st1) dst (bytes_at (cells st) ?src c)"
      using program_step [OF pr ne, of "{dst ..< dst + n}"] c by auto
    note un = copy_file_range.simps [of f off dst n st]
    show ?thesis
    proof (cases "r1 = PICOKEYS_OK")
      case False
      with "1.prems"(1) pr rd \<open>n \<noteq> 0\<close> have "r = r1" "st' = st1" by (simp_all add: un c_def)
      with False s1(1) show ?thesis by simp
    next
      case True
      with "1.prems"(1) pr rd \<open>n \<noteq> 0\<close> have z: "copy_file_range f (off + c) (dst + c) (n - c) st1 = (r, st')" by (simp add: un c_def Let_def)
      have ag: "agree_outside {dst ..< dst + n} (cells st) (cells st1)" using withinD(1) [OF stepD(1) [OF s1(1)]] .
      have same: "length_size_of (cells st1) p = length_size_of (cells st) p" "length_of (cells st1) p = length_of (cells st) p"
        using agree_length [OF ag apart_sub [OF "1.prems"(4)]] by simp_all
      have sub: "apart {dst + c ..< dst + c + (n - c)} p (length_size_of (cells st1) p + length_of (cells st1) p)"
        using "1.prems"(4) c by (auto simp: same apart_def)
      have "off + c + (n - c) \<le> length_of (cells st1) p" using "1.prems"(3) c by (simp add: same)
      from "1.IH" [OF \<open>n \<noteq> 0\<close> c_def rd pr [symmetric] _ z "1.prems"(2) this sub] True c
      have ih: "step {dst + c ..< dst + n} st1 r st'"
        "r = PICOKEYS_OK \<longrightarrow> bytes_at (cells st') (dst + c) (n - c) = bytes_at (cells st1) (p + length_size_of (cells st) p + (off + c)) (n - c)"
        by (auto simp: same)
      have "step {dst ..< dst + n} st r st'" using step_then [OF s1(1) [unfolded True]] step_mono [OF ih(1), of "{dst ..< dst + n}"] by auto
      moreover have "bytes_at (cells st') dst n = bytes_at (cells st) ?src n" if "r = PICOKEYS_OK"
      proof -
        have n: "n = c + (n - c)" using c by simp
        have a: "bytes_at (cells st') dst c = bytes_at (cells st1) dst c"
          by (rule agree_bytes [OF withinD(1) [OF stepD(1) [OF ih(1)]]]) (simp add: apart_interval)
        have b: "bytes_at (cells st1) (p + length_size_of (cells st) p + (off + c)) (n - c) = bytes_at (cells st) (p + length_size_of (cells st) p + (off + c)) (n - c)"
          by (rule agree_bytes [OF ag apart_sub [OF "1.prems"(4)]]) (use "1.prems"(3) c in simp_all)
        have "bytes_at (cells st1) dst c = bytes_at (cells st) ?src c" using s1(2) [OF True] by (simp add: holds_def)
        with a b ih(2) that show ?thesis using bytes_at_split [of "cells st'" dst c "n - c"] bytes_at_split [of "cells st" ?src c "n - c"] c
          by (simp add: add.assoc)
      qed
      ultimately show ?thesis by blast
    qed
  qed
qed

section \<open>A new record\<close>

definition region_wf :: "(nat \<Rightarrow> byte) \<Rightarrow> nat \<Rightarrow> nat \<Rightarrow> nat list \<Rightarrow> bool" where
  "region_wf m startp endp bs \<longleftrightarrow> links m endp bs \<and> backs m endp bs \<and> (\<forall>b \<in> set bs. startp \<le> b) \<and> 0 < startp \<and> startp \<le> endp \<and> endp < 2 ^ 32"

definition region_start :: "bool \<Rightarrow> flash_pool \<Rightarrow> nat" where
  "region_start persistent st = (if persistent then rom_start st else data_start st)"

definition region_end :: "bool \<Rightarrow> flash_pool \<Rightarrow> nat" where
  "region_end persistent st = (if persistent then rom_end st else data_end st)"

definition back_link :: "nat list \<Rightarrow> nat set" where
  "back_link ys = (case ys of [] \<Rightarrow> {} | y # _ \<Rightarrow> {y + 4 ..< y + 8})"

lemma program_pointer_link:
  assumes "(if r = PICOKEYS_OK \<and> next_of ys \<noteq> 0 then program_pointer (next_of ys + 4) v st else (r, st)) = (r', st')" "v < 2 ^ 32" "0 \<notin> set ys"
  shows "(r = PICOKEYS_OK \<longrightarrow> step (back_link ys) st r' st') \<and> (r \<noteq> PICOKEYS_OK \<longrightarrow> r' = r \<and> st' = st) \<and>
    (r' = PICOKEYS_OK \<and> ys \<noteq> [] \<longrightarrow> pointer_at (cells st') (next_of ys + 4) = v)"
proof (cases "r = PICOKEYS_OK \<and> ys \<noteq> []")
  case True
  then obtain y zs where ys: "ys = y # zs" "r = PICOKEYS_OK" by (cases ys) auto
  with assms have "program_pointer (y + 4) v st = (r', st')" by (auto simp: next_of_def)
  from program_pointer_step(1,2) [OF this, of "{y + 4 ..< y + 8}"] assms(2) ys show ?thesis by (simp add: back_link_def next_of_def)
qed (use assms in \<open>auto simp: next_of_def split: list.splits if_splits\<close>)

definition no_room :: "(nat \<Rightarrow> byte) \<Rightarrow> nat \<Rightarrow> nat \<Rightarrow> nat list \<Rightarrow> nat \<Rightarrow> bool" where
  "no_room m startp endp bs n \<longleftrightarrow>
     (let real_size = 12 + length_size_for n + n in
      SIZE_MAX - (12 + length_size_for n) < n \<or> endp - startp < real_size \<or>
      (\<forall>xs ys. bs = xs @ ys \<longrightarrow> last (endp # xs) < gap_floor m startp ys + real_size))"

text \<open>What an allocation leaves when it finds a place between the records \<open>xs\<close> and \<open>ys\<close>.\<close>

definition placed :: "(nat \<Rightarrow> byte) \<Rightarrow> nat \<Rightarrow> nat \<Rightarrow> nat list \<Rightarrow> nat list \<Rightarrow> nat \<Rightarrow> nat \<Rightarrow> bool" where
  "placed m startp endp xs ys real_size addr \<longleftrightarrow> addr + real_size = last (endp # xs) \<and> startp \<le> addr \<and> gap_floor m startp ys \<le> addr"

lemma pointer_less: "pointer_at m a < 2 ^ 32"
  using unsigned_less [of "word_at m a"] by (simp add: pointer_at_def)

lemma back_link_apart: "gap_floor m startp ys \<le> addr \<Longrightarrow> apart (back_link ys) addr n"
  using record_size_min(1) [of m "hd ys"] by (cases ys) (simp_all add: back_link_def gap_floor_def apart_interval)

lemma allocate_law:
  assumes "allocate_free_addr n per st = (x, st')" "region_wf (cells st) (region_start per st) (region_end per st) bs"
  shows "(x = None \<and> st' = st \<and> no_room (cells st) (region_start per st) (region_end per st) bs n) \<or>
    (\<exists>xs ys addr r. bs = xs @ ys \<and> placed (cells st) (region_start per st) (region_end per st) xs ys (12 + length_size_for n + n) addr \<and>
       x = (if r = PICOKEYS_OK then Some (addr, last (region_end per st # xs)) else None) \<and>
       step ({addr ..< addr + 8} \<union> back_link ys) st r st' \<and>
       (r = PICOKEYS_OK \<longrightarrow> pointer_at (cells st') addr = next_of ys \<and> pointer_at (cells st') (addr + 4) = last (region_end per st # xs) \<and>
          (ys \<noteq> [] \<longrightarrow> pointer_at (cells st') (next_of ys + 4) = addr)))"
proof -
  let ?s = "region_start per st" and ?e = "region_end per st" and ?real = "12 + length_size_for n + n"
  have w: "links (cells st) ?e bs" "\<forall>b \<in> set bs. ?s \<le> b" "0 < ?s" "?s \<le> ?e" "?e < 2 ^ 32" "segment (cells st) ?e bs"
    using assms(2) by (simp_all add: region_wf_def links_def)
  show ?thesis
  proof (cases "SIZE_MAX - (12 + length_size_for n) < n \<or> ?e - ?s < ?real \<or> find_gap (cells st) ?s ?real ?e = None")
    case True
    then have "no_room (cells st) ?s ?e bs n"
      unfolding no_room_def Let_def using find_gap_none [of "cells st" ?s ?real ?e] w(1,2,4) by metis
    moreover have "x = None" "st' = st"
      using True assms(1) by (auto simp: allocate_free_addr_def Let_def region_start_def region_end_def split: if_splits)
    ultimately show ?thesis by blast
  next
    case False
    then obtain addr nxt base where g: "find_gap (cells st) ?s ?real ?e = Some (addr, nxt, base)" by (cases "find_gap (cells st) ?s ?real ?e") auto
    from find_gap_some [OF this w(1,2,4)] obtain xs ys where p: "bs = xs @ ys" "base = last (?e # xs)" "nxt = next_of ys"
      "addr + ?real = base" "?s \<le> addr" "gap_floor (cells st) ?s ys \<le> addr" by blast
    obtain r1 st1 where p1: "program_pointer addr nxt st = (r1, st1)" by fastforce
    obtain r2 st2 where p2: "(if r1 = PICOKEYS_OK then program_pointer (addr + 4) base st1 else (r1, st1)) = (r2, st2)" by fastforce
    obtain r3 st3 where p3: "(if r2 = PICOKEYS_OK \<and> nxt \<noteq> 0 then program_pointer (nxt + 4) addr st2 else (r2, st2)) = (r3, st3)" by fastforce
    have x: "x = (if r3 = PICOKEYS_OK then Some (addr, base) else None)" "st' = st3"
      using assms(1) False g p1 p2 p3 by (auto simp: allocate_free_addr_def Let_def region_start_def region_end_def)
    let ?S = "{addr ..< addr + 8} \<union> back_link ys"
    have "base \<le> ?e" using w(6) p(1,2) segment_last [of "cells st" ?e xs] by (simp add: segment_append)
    moreover have nx: "nxt < 2 ^ 32" using links_next [of "cells st" ?e xs ys] w(1) p(1,3) pointer_less by metis
    ultimately have big: "base < 2 ^ 32" "addr < 2 ^ 32" using w(5) p(4) by simp_all
    have z: "0 \<notin> set ys" using w(2,3) p(1) by force
    have sub: "{addr ..< addr + 4} \<subseteq> ?S" "{addr + 4 ..< addr + 8} \<subseteq> ?S" "{addr + 4 ..< addr + 8} = {addr + 4 ..< addr + 4 + 4}" by auto
    have s1: "step ?S st r1 st1" "r1 = PICOKEYS_OK \<Longrightarrow> pointer_at (cells st1) addr = nxt" using program_pointer_step(1,2) [OF p1 sub(1)] nx by simp_all
    have s2: "step ?S st r2 st2" "r2 = PICOKEYS_OK \<Longrightarrow> r1 = PICOKEYS_OK \<and> pointer_at (cells st2) (addr + 4) = base \<and> agree_outside {addr + 4 ..< addr + 8} (cells st1) (cells st2)"
    proof -
      have k: "step ?S st1 r2 st2 \<and> (r2 = PICOKEYS_OK \<longrightarrow> pointer_at (cells st2) (addr + 4) = base) \<and> step {addr + 4 ..< addr + 8} st1 r2 st2" if "r1 = PICOKEYS_OK"
        using program_pointer_step(1,2) [of "addr + 4" base st1 r2 st2 ?S] program_pointer_step(1) [of "addr + 4" base st1 r2 st2 "{addr + 4 ..< addr + 8}"]
          p2 that big sub(2,3) by simp
      with s1(1) p2 k show "step ?S st r2 st2" by (cases "r1 = PICOKEYS_OK") (auto intro: step_then)
      show "r2 = PICOKEYS_OK \<Longrightarrow> r1 = PICOKEYS_OK \<and> pointer_at (cells st2) (addr + 4) = base \<and> agree_outside {addr + 4 ..< addr + 8} (cells st1) (cells st2)"
        using k p2 withinD(1) [OF stepD(1)] by (cases "r1 = PICOKEYS_OK") auto
    qed
    note l3 = program_pointer_link [OF p3 [unfolded p(3)] big(2) z]
    have s3: "step ?S st r3 st3"
      using l3 s2(1) step_then [of ?S st st2 r3 st3] step_mono [of "back_link ys" st2 r3 st3 ?S] by (cases "r2 = PICOKEYS_OK") auto
    have fin: "pointer_at (cells st3) addr = next_of ys \<and> pointer_at (cells st3) (addr + 4) = base \<and> (ys \<noteq> [] \<longrightarrow> pointer_at (cells st3) (next_of ys + 4) = addr)"
      if "r3 = PICOKEYS_OK"
    proof -
      have r2: "r2 = PICOKEYS_OK" using l3 that by (cases "r2 = PICOKEYS_OK") auto
      have a3: "agree_outside (back_link ys) (cells st2) (cells st3)" using l3 r2 withinD(1) [OF stepD(1)] by blast
      have ap: "apart (back_link ys) addr 8"
        using back_link_apart [OF p(6)] .
      have "pointer_at (cells st2) addr = pointer_at (cells st1) addr"
        by (rule agree_pointer [of "{addr + 4 ..< addr + 8}"]) (use s2(2) [OF r2] in \<open>auto intro: apart_interval\<close>)
      then show ?thesis using agree_pointer [OF a3 apart_sub [OF ap]] s1(2) s2(2) [OF r2] l3 that p(3) by simp
    qed
    have "placed (cells st) ?s ?e xs ys ?real addr" using p by (simp add: placed_def)
    with p(1,2) x s3 fin show ?thesis by blast
  qed
qed

lemma step_subset: "step S st r st' \<Longrightarrow> r = PICOKEYS_OK \<Longrightarrow> step S st' r' st'' \<Longrightarrow> step S st r' st''"
  using step_then by blast

text \<open>Two steps in turn, the second skipped when the first failed.\<close>

lemma step_seq:
  assumes "step S st r st1" "(if r = PICOKEYS_OK then f st1 else (r, st1)) = (r', st')" "\<And>r' st'. f st1 = (r', st') \<Longrightarrow> r = PICOKEYS_OK \<Longrightarrow> step S st1 r' st'"
  shows "step S st r' st'"
  using assms step_then by (cases "r = PICOKEYS_OK") auto

lemma length_fields:
  assumes "n < 2 ^ 32"
    and "if FLASH_FILE_EXTENDED_LENGTH \<le> n then half_at m p = 0xffff \<and> word_at m (p + 2) = of_nat n else half_at m p = of_nat n"
  shows "length_size_of m p = length_size_for n" "length_of m p = n"
proof -
  have "unat (of_nat n :: u32) = n" using assms(1) by (simp add: unat_of_nat take_bit_nat_eq_self)
  moreover have "unat (of_nat n :: u16) = n" if "n < FLASH_FILE_EXTENDED_LENGTH" using that by (simp add: FLASH_FILE_EXTENDED_LENGTH_def unat_of_nat take_bit_nat_eq_self)
  ultimately show "length_size_of m p = length_size_for n" "length_of m p = n"
    using assms(2) by (auto simp: length_size_of_def length_of_def length_size_for_def FLASH_FILE_EXTENDED_LENGTH_def split: if_splits)
qed

lemma write_length_step:
  assumes "write_file_length p n st = (r, st')" "n < 2 ^ 32"
  shows "step {p ..< p + length_size_for n} st r st' \<and> (r = PICOKEYS_OK \<longrightarrow> length_size_of (cells st') p = length_size_for n \<and> length_of (cells st') p = n)"
proof (cases "FLASH_FILE_EXTENDED_LENGTH \<le> n")
  case True
  let ?S = "{p ..< p + 6}"
  obtain r1 st1 where p1: "program p (put_uint16_le 0xffff) st = (r1, st1)" by fastforce
  have s1: "step ?S st r1 st1" "r1 = PICOKEYS_OK \<Longrightarrow> holds (cells st1) p (put_uint16_le 0xffff)"
    using program_step(1,2) [OF p1, of ?S] by auto
  have k: "step ?S st1 r st'" "step {p + 2 ..< p + 6} st1 r st'" "r = PICOKEYS_OK \<Longrightarrow> holds (cells st') (p + 2) (put_uint32_le (of_nat n))" if "r1 = PICOKEYS_OK"
    using program_step(1,2) [of "p + 2" "put_uint32_le (of_nat n)" st1 r st'] that p1 True assms(1) by (auto simp: write_file_length_def)
  show ?thesis
  proof (cases "r1 = PICOKEYS_OK")
    case False
    with p1 True assms(1) s1(1) show ?thesis by (auto simp: write_file_length_def length_size_for_def)
  next
    case r1: True
    have s: "step ?S st r st'" by (rule step_subset [OF s1(1) r1 k(1) [OF r1]])
    have "length_size_of (cells st') p = length_size_for n \<and> length_of (cells st') p = n" if "r = PICOKEYS_OK"
    proof -
      have "holds (cells st') p (put_uint16_le 0xffff)"
        by (rule agree_holds [OF withinD(1) [OF stepD(1) [OF k(2) [OF r1]]] s1(2) [OF r1]]) (simp add: apart_interval)
      with k(3) [OF r1 that] have "half_at (cells st') p = 0xffff" "word_at (cells st') (p + 2) = of_nat n"
        using holds_half holds_word by blast+
      then show ?thesis using length_fields [OF assms(2)] True by simp
    qed
    with s True show ?thesis by (simp add: length_size_for_def)
  qed
next
  case False
  then have pr: "program p (put_uint16_le (of_nat n)) st = (r, st')" using assms(1) by (simp add: write_file_length_def)
  have "length_size_of (cells st') p = length_size_for n \<and> length_of (cells st') p = n" if "r = PICOKEYS_OK"
    using program_step(2) [OF pr, of "{p ..< p + 2}"] that length_fields [OF assms(2)] holds_half [of "cells st'" p "of_nat n"] False by simp
  moreover have "step {p ..< p + 2} st r st'" using program_step(1) [OF pr, of "{p ..< p + 2}"] by simp
  ultimately show ?thesis using False by (simp add: length_size_for_def)
qed

definition identity_word :: "flash_file \<Rightarrow> u32" where
  "identity_word f = push_bit 16 (ucast (file_ns f)) OR ucast (file_id f)"

text \<open>The data of the new record: with an offset, behind the old bytes.\<close>

definition new_bytes :: "flash_pool \<Rightarrow> flash_file \<Rightarrow> byte list \<Rightarrow> nat \<Rightarrow> bool \<Rightarrow> byte list" where
  "new_bytes st f data offset partial =
     (case file_data f of None \<Rightarrow> data
      | Some p \<Rightarrow> if partial then bytes_at (cells st) (p + length_size_of (cells st) p) offset @ data else data)"

lemma identity_step:
  assumes "program (addr + 8) (put_uint32_le (identity_word f)) st = (r, st')" 
  shows "step {addr + 8 ..< addr + 12} st r st'" "r = PICOKEYS_OK \<Longrightarrow> word_at (cells st') (addr + 8) = identity_word f"
  using program_step(1,2) [OF assms, of "{addr + 8 ..< addr + 12}"] by (auto intro: holds_word)

text \<open>The old record, when there is one, lies elsewhere, and an offset is inside it.\<close>

definition source_ok :: "flash_pool \<Rightarrow> flash_file \<Rightarrow> nat \<Rightarrow> nat \<Rightarrow> bool \<Rightarrow> nat \<Rightarrow> nat \<Rightarrow> bool" where
  "source_ok st f len offset partial addr n \<longleftrightarrow> (if partial then n = offset + len else n = len \<and> offset = 0) \<and>
     (case file_data f of None \<Rightarrow> offset = 0
      | Some q \<Rightarrow> (partial \<longrightarrow> offset \<le> length_of (cells st) q) \<and>
          apart {addr ..< addr + 12 + length_size_for n + n} q (length_size_of (cells st) q + length_of (cells st) q))"

lemma prefix_step:
  assumes "(if partial \<and> file_data f \<noteq> None \<and> 0 < offset then copy_file_range f 0 dst offset st else (PICOKEYS_OK, st)) = (r, st')"
    and "source_ok st0 f len offset partial addr n" "agree_outside {addr ..< addr + 12 + length_size_for n} (cells st0) (cells st)"
    and "dst = addr + 12 + length_size_for n"
  shows "step {dst ..< dst + offset} st r st' \<and>
    (r = PICOKEYS_OK \<longrightarrow> bytes_at (cells st') dst offset @ d = new_bytes st0 f d offset partial)"
proof (cases "partial \<and> file_data f \<noteq> None \<and> 0 < offset")
  case False
  with assms(1,2) show ?thesis
    by (cases "file_data f") (auto simp: new_bytes_def source_ok_def bytes_at_def)
next
  case True
  then obtain q where q: "file_data f = Some q" by auto
  have ap: "apart {addr ..< addr + 12 + length_size_for n + n} q (length_size_of (cells st0) q + length_of (cells st0) q)"
    and off: "offset \<le> length_of (cells st0) q" and n: "n = offset + len" using assms(2) q True by (auto simp: source_ok_def)
  have ap1: "apart {addr ..< addr + 12 + length_size_for n} q (length_size_of (cells st0) q + length_of (cells st0) q)"
    using ap by (auto simp: apart_def)
  have same: "length_size_of (cells st) q = length_size_of (cells st0) q" "length_of (cells st) q = length_of (cells st0) q"
    using agree_length [OF assms(3) apart_sub [OF ap1]] by simp_all
  have "apart {dst ..< dst + offset} q (length_size_of (cells st) q + length_of (cells st) q)"
    using ap n by (auto simp: apart_def same assms(4))
  from copy_step [OF _ q _ this, of 0 r st'] assms(1) True off
  have c: "step {dst ..< dst + offset} st r st'" "r = PICOKEYS_OK \<longrightarrow> bytes_at (cells st') dst offset = bytes_at (cells st) (q + length_size_of (cells st) q) offset"
    by (simp_all add: same)
  have "bytes_at (cells st) (q + length_size_of (cells st) q) offset = bytes_at (cells st0) (q + length_size_of (cells st0) q) offset"
    unfolding same(1) by (rule agree_bytes [OF assms(3) apart_sub [OF ap1]]) (use off in simp_all)
  with c q True show ?thesis by (simp add: new_bytes_def)
qed

lemma fill_law:
  assumes "fill_record f (f\<lparr>file_data := Some (addr + 12)\<rparr>) data offset partial old_size n st = (r, st')" "n < 2 ^ 32"
    and "source_ok st f (length data) offset partial addr n" "partial \<longrightarrow> old_size \<le> offset + length data"
  shows "step {addr + 8 ..< addr + 12 + length_size_for n + n} st r st' \<and>
    (r = PICOKEYS_OK \<longrightarrow> flash_record_size (cells st') addr = 12 + length_size_for n + n \<and>
       contents (cells st') addr = (identity_word f, new_bytes st f data offset partial))"
proof -
  let ?P = "addr + 12 + length_size_for n" and ?S = "{addr + 8 ..< addr + 12 + length_size_for n + n}"
  have n: "n = offset + length data" using assms(3) by (simp add: source_ok_def split: if_splits)
  have lf: "length_size_for n = 6 \<or> length_size_for n = 2" by (simp add: length_size_for_def)
  obtain r1 st1 where p1: "program (8 + addr) (put_uint32_le (identity_word f)) st = (r1, st1)" by fastforce
  obtain r2 st2 where p2: "(if r1 = PICOKEYS_OK then write_file_length (addr + 12) n st1 else (r1, st1)) = (r2, st2)" by fastforce
  let ?st2 = "st2\<lparr>num_files := Suc (num_files st2)\<rparr>"
  obtain r3 st3 where p3: "(if r2 = PICOKEYS_OK \<and> partial \<and> file_data f \<noteq> None \<and> 0 < offset then copy_file_range f 0 ?P offset ?st2 else (r2, ?st2)) = (r3, st3)"
    by fastforce
  obtain r4 st4 where p4: "(if r3 = PICOKEYS_OK \<and> data \<noteq> [] then program (?P + offset) data st3 else (r3, st3)) = (r4, st4)" by fastforce
  have fin: "r = r4" "st' = st4"
    using assms(1,4) p1 p2 p3 p4 by (auto simp: fill_record_def Let_def identity_word_def)
  note s1 = identity_step [OF p1 [unfolded add.commute [of 8]]]
  have s1': "step ?S st r1 st1" by (rule step_mono [OF s1(1)]) (use lf in auto)
  have w2: "step {addr + 12 ..< ?P} st1 r2 st2 \<and> (r2 = PICOKEYS_OK \<longrightarrow> length_size_of (cells st2) (addr + 12) = length_size_for n \<and> length_of (cells st2) (addr + 12) = n)"
    if "r1 = PICOKEYS_OK" using write_length_step [of "addr + 12" n st1 r2 st2] p2 that assms(2) by (simp add: add.assoc)
  have s2: "step ?S st r2 st2"
  proof (cases "r1 = PICOKEYS_OK")
    case True
    have "step ?S st1 r2 st2" by (rule step_mono [OF conjunct1 [OF w2 [OF True]]]) auto
    then show ?thesis by (rule step_subset [OF s1' True])
  next
    case False with p2 s1' show ?thesis by auto
  qed
  have r12: "r2 = PICOKEYS_OK \<Longrightarrow> r1 = PICOKEYS_OK" using p2 by (cases "r1 = PICOKEYS_OK") auto
  have ag2: "agree_outside {addr ..< ?P} (cells st) (cells st2)" if "r2 = PICOKEYS_OK"
  proof -
    have "agree_outside {addr ..< ?P} (cells st) (cells st1)" by (rule agree_mono [OF withinD(1) [OF stepD(1) [OF s1(1)]]]) auto
    moreover have "agree_outside {addr ..< ?P} (cells st1) (cells st2)"
      by (rule agree_mono [OF withinD(1) [OF stepD(1) [OF conjunct1 [OF w2 [OF r12 [OF that]]]]]]) auto
    ultimately show ?thesis by (rule agree_trans)
  qed
  have w3: "step {?P ..< ?P + offset} ?st2 r3 st3 \<and> (r3 = PICOKEYS_OK \<longrightarrow> bytes_at (cells st3) ?P offset @ data = new_bytes st f data offset partial)"
    if "r2 = PICOKEYS_OK" using prefix_step [of partial f offset ?P ?st2 r3 st3 st, where d = data, OF _ assms(3)] ag2 [OF that] p3 [unfolded that] that by simp
  have s3: "step ?S st r3 st3"
  proof (cases "r2 = PICOKEYS_OK")
    case True
    have "step ?S st2 r3 st3" using step_mono [OF conjunct1 [OF w3 [OF True]], of ?S] n by (simp add: step_def clean_def)
    then show ?thesis by (rule step_subset [OF s2 True])
  next
    case False
    with p3 s2 show ?thesis by (auto simp: step_def dead_def)
  qed
  have r23: "r3 = PICOKEYS_OK \<Longrightarrow> r2 = PICOKEYS_OK" using p3 by (cases "r2 = PICOKEYS_OK") auto
  have w4: "step {?P + offset ..< ?P + n} st3 r4 st4 \<and> (r4 = PICOKEYS_OK \<longrightarrow> bytes_at (cells st4) (?P + offset) (length data) = data)"
    if "r3 = PICOKEYS_OK"
  proof (cases "data = []")
    case True
    with p4 that show ?thesis by (auto simp: bytes_at_def)
  next
    case False
    then show ?thesis using program_step(1,2) [of "?P + offset" data st3 r4 st4 "{?P + offset ..< ?P + n}"] p4 that n by (auto simp: holds_def)
  qed
  have s4: "step ?S st r4 st4"
  proof (cases "r3 = PICOKEYS_OK")
    case True
    have "step ?S st3 r4 st4" by (rule step_mono [OF conjunct1 [OF w4 [OF True]]]) auto
    then show ?thesis by (rule step_subset [OF s3 True])
  next
    case False with p4 s3 show ?thesis by auto
  qed
  have r34: "r4 = PICOKEYS_OK \<Longrightarrow> r3 = PICOKEYS_OK" using p4 by (cases "r3 = PICOKEYS_OK") auto
  show ?thesis
  proof (cases "r4 = PICOKEYS_OK")
    case False with fin s4 show ?thesis by simp
  next
    case True
    note r = True r34 [OF True] r23 [OF r34 [OF True]] r12 [OF r23 [OF r34 [OF True]]]
    have a34: "agree_outside {?P + offset ..< ?P + n} (cells st3) (cells st4)" using w4 [OF r(2)] withinD(1) [OF stepD(1)] by blast
    have a23: "agree_outside {?P ..< ?P + offset} (cells st2) (cells st3)" using w3 [OF r(3)] withinD(1) [OF stepD(1)] by fastforce
    have a12: "agree_outside {addr + 12 ..< ?P} (cells st1) (cells st2)" using w2 [OF r(4)] withinD(1) [OF stepD(1)] by blast
    have a24: "agree_outside {?P ..< ?P + n} (cells st2) (cells st4)"
      by (rule agree_trans [OF agree_mono [OF a23] agree_mono [OF a34]]) (use n in auto)
    have l: "length_size_of (cells st4) (addr + 12) = length_size_for n" "length_of (cells st4) (addr + 12) = n"
      using agree_length [OF a24, of "addr + 12"] w2 [OF r(4)] r(3) by (simp_all add: apart_interval)
    have "word_at (cells st4) (addr + 8) = word_at (cells st1) (addr + 8)"
      using agree_word [OF a24, of "addr + 8"] agree_word [OF a12, of "addr + 8"] by (simp add: apart_interval)
    moreover have "bytes_at (cells st4) ?P n = new_bytes st f data offset partial"
    proof -
      have "bytes_at (cells st4) ?P offset = bytes_at (cells st3) ?P offset" by (rule agree_bytes [OF a34]) (simp add: apart_interval)
      then show ?thesis using w3 [OF r(3)] w4 [OF r(2)] r bytes_at_split [of "cells st4" ?P offset "length data"] n by simp
    qed
    ultimately have "contents (cells st4) addr = (identity_word f, new_bytes st f data offset partial)"
      using s1(2) [OF r(4)] by (simp add: contents_def l)
    with fin s4 l show ?thesis by (simp add: flash_record_size_def)
  qed
qed

section \<open>Relinking\<close>

definition tail_ok :: "(nat \<Rightarrow> byte) \<Rightarrow> nat list \<Rightarrow> bool" where
  "tail_ok m ys \<longleftrightarrow> (case ys of [] \<Rightarrow> True | y # zs \<Rightarrow> y \<noteq> 0 \<and> links m y zs)"

lemma links_append: "links m p (xs @ ys) \<longleftrightarrow> segment m p xs \<and> links m (last (p # xs)) ys"
  by (cases ys) (auto simp: links_def segment_append)

lemma links_tail: "links m p ys \<longleftrightarrow> pointer_at m p = next_of ys \<and> tail_ok m ys \<and> (ys \<noteq> [] \<longrightarrow> next_of ys + flash_record_size m (next_of ys) \<le> p)"
  by (cases ys) (auto simp: links_Cons links_Nil tail_ok_def next_of_def)

text \<open>Between the records \<open>xs\<close> and \<open>ys\<close>: the addresses that an insertion or a removal there may touch.\<close>

definition gap_area :: "(nat \<Rightarrow> byte) \<Rightarrow> nat \<Rightarrow> nat \<Rightarrow> nat list \<Rightarrow> nat list \<Rightarrow> nat set" where
  "gap_area m startp endp xs ys = {gap_floor m startp ys ..< last (endp # xs) + 4} \<union> back_link ys"

lemma area_above:
  assumes "gap_floor m startp ys \<le> last (endp # xs)" "last (endp # xs) + 4 \<le> a"
  shows "apart (gap_area m startp endp xs ys) a n"
  using assms record_size_min(1) [of m "next_of ys"]
  by (cases ys) (simp_all add: gap_area_def apart_interval back_link_def gap_floor_def next_of_def)

lemma segment_last_above:
  assumes "segment m endp xs" "b \<in> set xs"
  shows "last (endp # xs) \<le> b" "b \<in> set (butlast xs) \<Longrightarrow> last (endp # xs) + 14 \<le> b" "last (endp # xs) + 14 \<le> endp"
proof -
  have ne: "xs \<noteq> []" using assms(2) by auto
  then have xs: "xs = butlast xs @ [last xs]" by simp
  have s: "segment m endp (butlast xs @ last xs # [])" using assms(1) xs by metis
  have l: "last (endp # xs) = last xs" using ne by simp
  note sb = segment_between [OF s] record_size_min(1) [of m "last xs"]
  show "last (endp # xs) + 14 \<le> endp" using sb l by simp
  show k: "last (endp # xs) + 14 \<le> b" if "b \<in> set (butlast xs)" using sb(1) sb(2) [OF that] sb(5) l by linarith
  have "b \<in> set (butlast xs) \<or> b = last xs" using assms(2) xs by (metis Un_iff empty_iff insert_iff list.set set_append)
  with k l show "last (endp # xs) \<le> b" by auto
qed

lemma tail_below:
  assumes "tail_ok m ys" "b \<in> set ys"
  shows "b + flash_record_size m b \<le> gap_floor m startp ys" "b = next_of ys \<or> b + flash_record_size m b \<le> next_of ys" "ys \<noteq> []"
  using assms segment_below [of m "hd ys" "tl ys" b] record_size_min(1) [of m "hd ys"]
  by (cases ys; auto simp: tail_ok_def links_def gap_floor_def next_of_def)+

lemma area_tail:
  assumes "tail_ok m ys" "b \<in> set ys"
  shows "apart (gap_area m startp endp xs ys) (b + 8) (flash_record_size m b - 8)" "apart (gap_area m startp endp xs ys) b 4"
    "b \<noteq> next_of ys \<Longrightarrow> apart (gap_area m startp endp xs ys) (b + 4) 4"
proof -
  note t = tail_below(1) [OF assms, of startp] tail_below(2,3) [OF assms] record_size_min(1) [of m b]
  obtain y zs where ys: "ys = y # zs" using t(3) by (cases ys) auto
  show "apart (gap_area m startp endp xs ys) (b + 8) (flash_record_size m b - 8)" "apart (gap_area m startp endp xs ys) b 4"
    "b \<noteq> next_of ys \<Longrightarrow> apart (gap_area m startp endp xs ys) (b + 4) 4"
    using t ys by (auto simp: gap_area_def back_link_def next_of_def intro!: apart_interval)
qed

definition touched :: "(nat \<Rightarrow> byte) \<Rightarrow> (nat \<Rightarrow> byte) \<Rightarrow> nat \<Rightarrow> nat \<Rightarrow> nat list \<Rightarrow> nat list \<Rightarrow> bool" where
  "touched m m' startp endp xs ys \<longleftrightarrow> agree_outside (gap_area m startp endp xs ys) m m' \<and> segment m endp xs \<and> tail_ok m ys \<and>
     gap_floor m startp ys \<le> last (endp # xs)"

lemma touched_keeps:
  assumes "touched m m' startp endp xs ys"
  shows "segment m' endp xs" "tail_ok m' ys" "gap_floor m' startp ys = gap_floor m startp ys"
    "b \<in> set xs \<union> set ys \<Longrightarrow> contents m' b = contents m b \<and> flash_record_size m' b = flash_record_size m b"
proof -
  let ?A = "gap_area m startp endp xs ys"
  have a: "agree_outside ?A m m'" "segment m endp xs" "tail_ok m ys" "gap_floor m startp ys \<le> last (endp # xs)"
    using assms by (simp_all add: touched_def)
  note up = area_above [OF a(4)] and lo = area_tail [OF a(3)] and sx = segment_last_above [OF a(2)]
  have above: "apart ?A (b + 8) n" if "b \<in> set xs" for b n using up [of "b + 8"] sx(1) [OF that] by simp
  show "segment m' endp xs"
  proof (rule segment_agree [OF a(1,2)])
    show "xs = [] \<or> apart ?A endp 4"
    proof (cases xs)
      case (Cons x zs)
      with sx(3) [of x] up [of endp 4] show ?thesis by simp
    qed simp
    show "apart ?A b 4" if "b \<in> set (butlast xs)" for b using sx(2) [OF in_set_butlastD [OF that] that] up [of b 4] by simp
  qed (use above in blast)
  show rec: "contents m' b = contents m b \<and> flash_record_size m' b = flash_record_size m b" if "b \<in> set xs \<union> set ys" for b
    using agree_record [OF a(1), of b] above [of b] lo(1) [of b] that by blast
  show "gap_floor m' startp ys = gap_floor m startp ys"
    using rec [of "next_of ys"] by (auto simp: gap_floor_def next_of_def split: list.splits)
  show "tail_ok m' ys"
  proof (cases ys)
    case (Cons y zs)
    have "segment m' y zs"
    proof (rule segment_agree [OF a(1)])
      show "segment m y zs" using a(3) Cons by (simp add: tail_ok_def links_def)
      show "zs = [] \<or> apart ?A y 4" using lo(2) [of y] Cons by simp
      show "apart ?A (b + 8) (flash_record_size m b - 8)" if "b \<in> set zs" for b using lo(1) [of b] that Cons by simp
      show "apart ?A b 4" if "b \<in> set (butlast zs)" for b using lo(2) [of b] in_set_butlastD [OF that] Cons by simp
    qed
    moreover have "pointer_at m' (last (y # zs)) = pointer_at m (last (y # zs))"
      by (rule agree_pointer [OF a(1)]) (rule lo(2), use Cons in auto)
    ultimately show ?thesis using a(3) Cons by (simp add: tail_ok_def links_def)
  qed (simp add: tail_ok_def)
qed

text \<open>Nothing, or one record, between the two.\<close>

lemma touched_links:
  assumes "touched m m' startp endp xs ys" "pointer_at m' (last (endp # xs)) = next_of ys"
  shows "links m' endp (xs @ ys)"
proof -
  note k = touched_keeps [OF assms(1)]
  have "links m' (last (endp # xs)) ys"
    unfolding links_tail [of m' _ ys] using k(2,3) assms by (cases ys) (auto simp: touched_def gap_floor_def next_of_def)
  with k(1) show ?thesis by (simp add: links_append)
qed

lemma touched_links_insert:
  assumes "touched m m' startp endp xs ys" "pointer_at m' (last (endp # xs)) = addr" "pointer_at m' addr = next_of ys" "addr \<noteq> 0"
    and "gap_floor m startp ys \<le> addr" "addr + flash_record_size m' addr \<le> last (endp # xs)"
  shows "links m' endp (xs @ addr # ys)"
proof -
  note k = touched_keeps [OF assms(1)]
  have "links m' addr ys"
    unfolding links_tail [of m' _ ys] using k(2,3) assms(3,5) by (cases ys) (auto simp: gap_floor_def next_of_def)
  with k(1) assms(2,4,6) show ?thesis by (simp add: links_append links_Cons)
qed

lemma touched_backs:
  assumes "touched m m' startp endp xs ys" "backs m endp xs" "backs m p ys"
  shows "backs m' endp xs" "ys = [] \<or> pointer_at m' (next_of ys + 4) = q \<Longrightarrow> backs m' q ys"
proof -
  let ?A = "gap_area m startp endp xs ys"
  have a: "agree_outside ?A m m'" "segment m endp xs" "tail_ok m ys" "gap_floor m startp ys \<le> last (endp # xs)"
    using assms(1) by (simp_all add: touched_def)
  show "backs m' endp xs"
    by (rule backs_agree [OF a(1) assms(2)]) (use area_above [OF a(4)] segment_last_above(1) [OF a(2)] in simp)
  show "backs m' q ys" if "ys = [] \<or> pointer_at m' (next_of ys + 4) = q"
  proof (cases ys)
    case (Cons y zs)
    have "backs m' y zs"
    proof (rule backs_agree [OF a(1)])
      show "backs m y zs" using assms(3) Cons by simp
      show "apart ?A (b + 4) 4" if "b \<in> set zs" for b
      proof (rule area_tail(3) [OF a(3)])
        have "segment m y zs" using a(3) Cons by (simp add: tail_ok_def links_def)
        then have "b + flash_record_size m b \<le> y" using segment_below that by blast
        then show "b \<noteq> next_of ys" using record_size_min(1) [of m b] Cons by (simp add: next_of_def)
      qed (use that Cons in simp)
    qed
    with that Cons show ?thesis by (simp add: next_of_def)
  qed simp
qed

section \<open>Clearing\<close>

lemma record_in_area:
  assumes "region_wf m startp endp (us @ b # vs)"
  shows "gap_floor m startp vs \<le> b" "b + flash_record_size m b \<le> last (endp # us)" "segment m endp us" "tail_ok m vs" "tail_ok m (b # vs)"
    "pointer_at m b = next_of vs" "pointer_at m (b + 4) = last (endp # us)" "pointer_at m (last (endp # us)) = b"
    "last (endp # us) < 2 ^ 32" "next_of vs < 2 ^ 32" "b < 2 ^ 32" "0 \<notin> set vs" "b \<noteq> 0" "backs m endp us" "backs m b vs"
proof -
  have w: "links m endp (us @ b # vs)" "backs m endp (us @ b # vs)" "\<forall>c \<in> set (us @ b # vs). startp \<le> c" "0 < startp" "endp < 2 ^ 32"
    using assms by (simp_all add: region_wf_def)
  have l: "segment m endp us" "pointer_at m (last (endp # us)) = b" "b \<noteq> 0" "b + flash_record_size m b \<le> last (endp # us)" "links m b vs"
    using w(1) by (simp_all add: links_append links_Cons)
  from l show "segment m endp us" "b + flash_record_size m b \<le> last (endp # us)" "b \<noteq> 0" "tail_ok m vs" "pointer_at m b = next_of vs" "tail_ok m (b # vs)"
    "pointer_at m (last (endp # us)) = b"
    by (simp_all add: links_tail [of m b vs] tail_ok_def)
  have "vs \<noteq> [] \<longrightarrow> next_of vs + flash_record_size m (next_of vs) \<le> b" using l(5) links_tail [of m b vs] by blast
  then show "gap_floor m startp vs \<le> b" using w(3) by (cases vs) (simp_all add: gap_floor_def next_of_def)
  have le: "last (endp # us) \<le> endp" using l(1) by (rule segment_last)
  then show "last (endp # us) < 2 ^ 32" using w(5) by simp
  show "b < 2 ^ 32" using le l(4) w(5) by simp
  show "next_of vs < 2 ^ 32" using pointer_less [of m b] l(5) links_tail [of m b vs] by simp
  show "0 \<notin> set vs" using w(3,4) by force
  show "pointer_at m (b + 4) = last (endp # us)" "backs m endp us" "backs m b vs" using w(2) by (simp_all add: backs_append)
qed

lemma clear_law:
  assumes "flash_clear_file f st = (r, f', st')" "file_data f = Some (b + 12)" "region_wf (cells st) startp endp (us @ b # vs)"
  shows "within (gap_area (cells st) startp endp us vs) st st'" "touched (cells st) (cells st') startp endp us vs"
    "clean st \<Longrightarrow> cells st' = cells st \<or> pointer_at (cells st') (last (endp # us)) = next_of vs"
    "results st = [] \<Longrightarrow> r = PICOKEYS_OK \<and> region_wf (cells st') startp endp (us @ vs) \<and>
       (\<forall>x. b + 12 + length_size_of (cells st) (b + 12) \<le> x \<and> x < b + flash_record_size (cells st) b \<longrightarrow> cells st' x = 0)"
    "clean st \<Longrightarrow> r \<noteq> PICOKEYS_OK \<Longrightarrow> dead st'"
    "results st = [Stopped 0] \<Longrightarrow> r = PICOKEYS_OK \<and> file_data f' = None \<and> pointer_at (cells st') (last (endp # us)) = b \<and> pointer_at (cells st') (b + 4) = 0"
proof -
  note ra = record_in_area [OF assms(3)]
  let ?m = "cells st" and ?base = "last (endp # us)" and ?A = "gap_area (cells st) startp endp us vs"
  let ?B = "{b ..< b + flash_record_size ?m b} \<union> back_link vs"
  let ?z = "b + 12 + length_size_of ?m (b + 12)" and ?n = "length_of ?m (b + 12)"
  have sz: "flash_record_size ?m b = 12 + length_size_of ?m (b + 12) + ?n" by (simp add: flash_record_size_def)
  have ls: "length_size_of ?m (b + 12) = 6 \<or> length_size_of ?m (b + 12) = 2" by (rule length_size_cases)
  have BA: "?B \<subseteq> ?A" using ra(1,2) by (auto simp: gap_area_def)
  have base: "{?base ..< ?base + 4} \<subseteq> ?A" using ra(1,2) by (auto simp: gap_area_def)
  have bl: "apart (back_link vs) a n" if "b \<le> a" for a n using ra(1) that back_link_apart [of ?m startp vs a n] by simp
  have apB: "apart ?B ?base 4" using ra(2) bl [of ?base 4] by (simp add: apart_interval)
  obtain r1 st1 where p1: "program_pointer ?base (next_of vs) st = (r1, st1)" by fastforce
  obtain r2 st2 where p2: "program (b + 12) (put_uint16_le 0) st1 = (r2, st2)" by fastforce
  obtain r3 st3 where p3: "zero_range ?z ?n st2 = (r3, st3)" by fastforce
  obtain r4 st4 where p4: "(if 0 < next_of vs then program_pointer (next_of vs + 4) ?base st3 else (PICOKEYS_OK, st3)) = (r4, st4)" by fastforce
  obtain r5 st5 where p5: "program_pointer b 0 st4 = (r5, st5)" by fastforce
  obtain r6 st6 where p6: "program_pointer (b + 4) 0 st5 = (r6, st6)" by fastforce
  have fin: "(r, f', st') = (if r3 \<noteq> PICOKEYS_OK then (PICOKEYS_EXEC_ERROR, f, st3)
      else (PICOKEYS_OK, f\<lparr>file_data := None\<rparr>, st6\<lparr>num_files := num_files st6 - 1\<rparr>))"
    using assms(1,2) ra(6,7) p1 p2 p3 p4 p5 p6 by (cases "r3 = PICOKEYS_OK") (simp_all add: flash_clear_file_def Let_def del: last.simps cong: if_cong)
  note s1 = program_pointer_step [OF p1 base]
  have s2: "step ?B st1 r2 st2" by (rule program_step(1) [OF p2]) (use sz ls in auto)
  note z = zero_range_step [OF p3]
  have s3: "step ?B st2 r3 st3" by (rule step_mono [OF conjunct1 [OF z]]) (use sz in auto)
  have p4': "(if PICOKEYS_OK = PICOKEYS_OK \<and> next_of vs \<noteq> 0 then program_pointer (next_of vs + 4) ?base st3 else (PICOKEYS_OK, st3)) = (r4, st4)"
    using p4 by simp
  note l4 = program_pointer_link [OF p4' ra(9,12)]
  have s4: "step ?B st3 r4 st4" using step_mono [of "back_link vs" st3 r4 st4 ?B] l4 by blast
  have s5: "step {b ..< b + 8} st4 r5 st5" "step {b ..< b + 8} st5 r6 st6"
    using program_pointer_step(1) [OF p5, of "{b ..< b + 8}"] program_pointer_step(1) [OF p6, of "{b ..< b + 8}"] by auto
  have s56: "step ?B st4 r5 st5" "step ?B st5 r6 st6" by (rule step_mono [OF s5(1)] step_mono [OF s5(2)]; use sz ls in auto)+
  have w13: "within ?B st1 st3" using stepD(1) [OF s2] stepD(1) [OF s3] within_trans by blast
  have w36: "within ?B st3 st6" using stepD(1) [OF s4] stepD(1) [OF s56(1)] stepD(1) [OF s56(2)] within_trans by blast
  have w: "within ?B st1 st'" using fin w13 w36 within_trans [OF w13 w36] by (auto split: if_splits)
  show wA: "within ?A st st'" using within_trans [OF stepD(1) [OF s1(1)] within_mono [OF w BA]] .
  show t: "touched ?m (cells st') startp endp us vs"
    unfolding touched_def using withinD(1) [OF wA] ra(1-4) by simp
  have keep: "pointer_at (cells st') ?base = pointer_at (cells st1) ?base" by (rule agree_pointer [OF withinD(1) [OF w] apB])
  show "cells st' = ?m \<or> pointer_at (cells st') ?base = next_of vs" if "clean st"
  proof (cases "r1 = PICOKEYS_OK")
    case True
    with s1(2) ra(10) keep show ?thesis by simp
  next
    case False
    with s1(3) stepD(3) [OF s1(1)] that withinD(6) [OF w] show ?thesis by simp
  qed
  show "clean st \<Longrightarrow> r \<noteq> PICOKEYS_OK \<Longrightarrow> dead st'"
    using fin stepD(3) [OF s3] withinD(3) [OF stepD(1) [OF s2]] withinD(3) [OF stepD(1) [OF s1(1)]] by (auto split: if_splits)
  show "r = PICOKEYS_OK \<and> region_wf (cells st') startp endp (us @ vs) \<and>
       (\<forall>x. ?z \<le> x \<and> x < b + flash_record_size ?m b \<longrightarrow> cells st' x = 0)" if q: "results st = []"
  proof -
    have q1: "results st1 = []" using withinD(4) [OF stepD(1) [OF s1(1)] q] .
    then have q3: "results st2 = []" "results st3 = []" using withinD(4) stepD(1) s2 s3 by blast+
    have ok: "r1 = PICOKEYS_OK" "r3 = PICOKEYS_OK" "r4 = PICOKEYS_OK" using stepD(2) s1(1) s3 s4 q q1 q3 by blast+
    with fin have st': "r = PICOKEYS_OK" "cells st' = cells st6" by simp_all
    have ptr: "pointer_at (cells st') ?base = next_of vs" using keep s1(2) ok(1) ra(10) by simp
    have bk: "vs = [] \<or> pointer_at (cells st') (next_of vs + 4) = ?base"
    proof (cases vs)
      case (Cons y zs)
      have "agree_outside {b ..< b + 8} (cells st4) (cells st6)"
        using withinD(1) [OF stepD(1) [OF s5(1)]] withinD(1) [OF stepD(1) [OF s5(2)]] agree_trans by blast
      from agree_pointer [OF this, of "y + 4"] have "pointer_at (cells st6) (y + 4) = pointer_at (cells st4) (y + 4)"
        using ra(1) Cons record_size_min(1) [of ?m y] by (simp add: gap_floor_def apart_interval)
      with l4 ok(3) Cons st'(2) show ?thesis by (simp add: next_of_def)
    qed simp
    have "links (cells st') endp (us @ vs)" by (rule touched_links [OF t ptr])
    moreover have "backs (cells st') endp (us @ vs)"
      using touched_backs(1) [OF t ra(14,15)] touched_backs(2) [OF t ra(14,15) bk] by (simp add: backs_append)
    ultimately have "region_wf (cells st') startp endp (us @ vs)" using assms(3) by (simp add: region_wf_def)
    moreover have "cells st' x = 0" if x: "?z \<le> x" "x < b + flash_record_size ?m b" for x
    proof -
      have "cells st3 x = 0" using z ok(2) x sz by simp
      moreover have "within ({b ..< b + 8} \<union> back_link vs) st3 st6"
        using l4 step_mono [of _ st3 r4 st4 "{b ..< b + 8} \<union> back_link vs"] step_mono [OF s5(1), of "{b ..< b + 8} \<union> back_link vs"]
          step_mono [OF s5(2), of "{b ..< b + 8} \<union> back_link vs"] within_trans stepD(1) by blast
      moreover have "x \<notin> {b ..< b + 8} \<union> back_link vs" using bl [of x 1] x(1) by (auto simp: apart_def)
      ultimately show ?thesis using st'(2) withinD(1) by (simp add: agree_outside_def) 
    qed
    ultimately show ?thesis using st'(1) by blast
  qed
  show "r = PICOKEYS_OK \<and> file_data f' = None \<and> pointer_at (cells st') ?base = b \<and> pointer_at (cells st') (b + 4) = 0" if q: "results st = [Stopped 0]"
  proof -
    have q1: "results st1 = []" "cells st1 = ?m"
      using p1 q by (auto simp: program_pointer_def program_def next_result_def put_bytes_Nil split: if_splits)
    then have q3: "results st2 = []" "results st3 = []" using withinD(4) stepD(1) s2 s3 by blast+
    then have q5: "results st4 = []" "results st5 = []" using withinD(4) stepD(1) s4 s56 by blast+
    have ok: "r3 = PICOKEYS_OK" "r6 = PICOKEYS_OK" using stepD(2) s3 s56 q3 q5 by blast+
    with fin have "r = PICOKEYS_OK" "cells st' = cells st6" "file_data f' = None" by simp_all
    moreover have "pointer_at (cells st6) (b + 4) = 0" using program_pointer_step(2) [OF p6 subset_UNIV] ok by simp
    moreover have "pointer_at (cells st') ?base = b" using keep q1(2) ra(8) by simp
    ultimately show ?thesis by simp
  qed
qed

section \<open>Replacing a record\<close>

lemma segment_distinct: "segment m p bs \<Longrightarrow> distinct bs \<and> p \<notin> set bs"
proof (induction bs arbitrary: p)
  case (Cons b bs)
  then have "b + flash_record_size m b \<le> p" "segment m b bs" by simp_all
  with Cons.IH [of b] segment_below [of m b bs p] record_size_min(1) [of m b] show ?case by auto
qed simp

lemma clear_within: "flash_clear_file f st = (r, f', st') \<Longrightarrow> within UNIV st st'"
proof -
  have pp: "program_pointer a v s = (q, s') \<Longrightarrow> within UNIV s s'" for a v s q s'
    using program_pointer_step(1) stepD(1) by blast
  have p: "program a (put_uint16_le v) s = (q, s') \<Longrightarrow> within UNIV s s'" for a v s q s'
    using program_step(1) [of a "put_uint16_le v" s q s' UNIV] stepD(1) by auto
  have z: "zero_range a n s = (q, s') \<Longrightarrow> within UNIV s s'" for a n s q s'
    using zero_range_step [of a n s q s'] stepD(1) within_mono by blast
  assume "flash_clear_file f st = (r, f', st')"
  then show ?thesis
    by (auto simp: flash_clear_file_def Let_def split: option.splits prod.splits if_splits dest!: pp p z) (meson within_trans)+
qed

text \<open>Phase one: the record is being built in the gap; the list is the old one.\<close>

definition building :: "(nat \<Rightarrow> byte) \<Rightarrow> (nat \<Rightarrow> byte) \<Rightarrow> nat \<Rightarrow> nat \<Rightarrow> nat list \<Rightarrow> bool" where
  "building m m' addr real_size ys \<longleftrightarrow> agree_outside ({addr ..< addr + real_size} \<union> back_link ys) m m'"

lemma building_law:
  assumes "region_wf m s e (xs @ ys)" "placed m s e xs ys real_size addr" "building m m' addr real_size ys"
  shows "touched m m' s e xs ys" "links m' e (xs @ ys)" "\<forall>b \<in> set (xs @ ys). contents m' b = contents m b"
    "pointer_at m' (last (e # xs)) = next_of ys"
proof -
  have l: "segment m e xs" "links m (last (e # xs)) ys" using assms(1) by (simp_all add: region_wf_def links_append)
  have pl: "addr + real_size = last (e # xs)" "gap_floor m s ys \<le> addr" using assms(2) by (simp_all add: placed_def)
  have "{addr ..< addr + real_size} \<union> back_link ys \<subseteq> gap_area m s e xs ys" using pl unfolding gap_area_def pl(1) by auto
  then have "agree_outside (gap_area m s e xs ys) m m'" using assms(3) unfolding building_def by (rule agree_mono [rotated])
  then show t: "touched m m' s e xs ys"
    using l pl unfolding touched_def links_tail [of m _ ys] by simp
  have "apart (back_link ys) (last (e # xs)) 4" by (rule back_link_apart [of m s]) (use pl in simp)
  then have "apart ({addr ..< addr + real_size} \<union> back_link ys) (last (e # xs)) 4" unfolding pl(1) by (simp add: apart_interval)
  from agree_pointer [OF assms(3) [unfolded building_def] this]
  show ptr: "pointer_at m' (last (e # xs)) = next_of ys" using l(2) links_tail by simp
  show "links m' e (xs @ ys)" by (rule touched_links [OF t ptr])
  show "\<forall>b \<in> set (xs @ ys). contents m' b = contents m b" using touched_keeps(4) [OF t] by simp
qed

text \<open>Phase two: the record is published.\<close>

lemma published_law:
  assumes "region_wf m s e (xs @ ys)" "placed m s e xs ys real_size addr" "building m m1 addr real_size ys"
    and "pointer_at m1 addr = next_of ys" "pointer_at m1 (addr + 4) = last (e # xs)" "ys = [] \<or> pointer_at m1 (next_of ys + 4) = addr"
    and "flash_record_size m1 addr = real_size" "agree_outside {last (e # xs) ..< last (e # xs) + 4} m1 m2" "pointer_at m2 (last (e # xs)) = addr"
  shows "region_wf m2 s e (xs @ addr # ys)" "contents m2 addr = contents m1 addr" "\<forall>b \<in> set (xs @ ys). contents m2 b = contents m b" "addr \<notin> set (xs @ ys)"
proof -
  let ?base = "last (e # xs)"
  have w: "links m e (xs @ ys)" "backs m e xs" "backs m ?base ys" "\<forall>b \<in> set (xs @ ys). s \<le> b" "0 < s" "s \<le> e" "e < 2 ^ 32"
    using assms(1) by (simp_all add: region_wf_def backs_append)
  have l: "segment m e xs" "tail_ok m ys" using w(1) by (simp_all add: links_append links_tail [of m _ ys])
  have pl: "addr + real_size = ?base" "s \<le> addr" "gap_floor m s ys \<le> addr" using assms(2) by (simp_all add: placed_def)
  have r14: "14 \<le> real_size" using record_size_min(1) [of m1 addr] assms(7) by simp
  note b1 = building_law [OF assms(1-3)]
  have area: "{?base ..< ?base + 4} \<subseteq> gap_area m s e xs ys" using pl by (auto simp: gap_area_def)
  have t: "touched m m2 s e xs ys"
    using b1(1) agree_trans [OF _ agree_mono [OF assms(8) area]] by (simp add: touched_def)
  have rec: "flash_record_size m2 addr = real_size" "contents m2 addr = contents m1 addr"
    using agree_record [OF assms(8), of addr] assms(7) apart_interval [OF disjI2, of "addr + 8" "real_size - 8" ?base] pl(1) r14 by simp_all
  have p: "pointer_at m2 addr = next_of ys" "pointer_at m2 (addr + 4) = ?base"
    using agree_pointer [OF assms(8) apart_interval, of addr] agree_pointer [OF assms(8) apart_interval, of "addr + 4"] assms(4,5) pl(1) r14
    by simp_all
  have q: "ys = [] \<or> pointer_at m2 (next_of ys + 4) = addr"
  proof (cases ys)
    case (Cons y zs)
    then have "y + 14 \<le> addr" using pl(3) record_size_min(1) [of m y] by (simp add: gap_floor_def)
    then have "apart {?base ..< ?base + 4} (next_of ys + 4) 4" using Cons pl(1) by (simp add: next_of_def apart_interval)
    from agree_pointer [OF assms(8) this] assms(6) Cons show ?thesis by simp
  qed simp
  have "links m2 e (xs @ addr # ys)"
    by (rule touched_links_insert [OF t assms(9) p(1)]) (use pl w(5) rec(1) in simp_all)
  moreover have "backs m2 e (xs @ addr # ys)"
    using touched_backs(1) [OF t w(2,3)] touched_backs(2) [OF t w(2,3) q] p(2) by (simp add: backs_append)
  ultimately show "region_wf m2 s e (xs @ addr # ys)" using w(4-7) pl(2) by (simp add: region_wf_def)
  show "contents m2 addr = contents m1 addr" by (rule rec(2))
  show "\<forall>b \<in> set (xs @ ys). contents m2 b = contents m b" using touched_keeps(4) [OF t] by simp
  show "addr \<notin> set (xs @ ys)"
  proof
    assume "addr \<in> set (xs @ ys)"
    then consider "addr \<in> set xs" | "addr \<in> set ys" by auto
    then show False
    proof cases
      case 1
      with segment_last_above(1) [OF l(1)] pl(1) r14 show False by force
    next
      case 2
      with tail_below(1) [OF l(2), of addr s] pl(3) record_size_min(1) [of m addr] show False by simp
    qed
  qed
qed

definition old_record :: "flash_file \<Rightarrow> nat set" where
  "old_record f = (case file_data f of None \<Rightarrow> {} | Some p \<Rightarrow> {p - 12})"

definition file_in :: "flash_file \<Rightarrow> nat list \<Rightarrow> bool" where
  "file_in f bs \<longleftrightarrow> (case file_data f of None \<Rightarrow> True | Some p \<Rightarrow> 12 \<le> p \<and> p - 12 \<in> set bs)"

definition file_value :: "(nat \<Rightarrow> byte) \<Rightarrow> flash_file \<Rightarrow> byte list" where
  "file_value m f = (case file_data f of None \<Rightarrow> [] | Some p \<Rightarrow> snd (contents m (p - 12)))"

definition written :: "byte list \<Rightarrow> byte list \<Rightarrow> nat \<Rightarrow> bool \<Rightarrow> byte list" where
  "written old data offset partial = (if partial then take offset old @ data @ drop (offset + length data) old else data)"

lemma file_value_length: "file_data f = Some p \<Longrightarrow> 12 \<le> p \<Longrightarrow> length (file_value m f) = length_of m p"
  by (simp add: file_value_def contents_def)

lemma file_size_value: "file_in f bs \<Longrightarrow> flash_file_size f st = length (file_value (cells st) f)"
  by (cases "file_data f") (simp_all add: file_in_def flash_file_size_def file_value_def contents_def)

text \<open>A write that does not fit the record the file has: the size of the new record.\<close>

definition outgrows :: "flash_pool \<Rightarrow> flash_file \<Rightarrow> byte list \<Rightarrow> nat \<Rightarrow> bool \<Rightarrow> nat \<Rightarrow> bool" where
  "outgrows st f data offset partial n \<longleftrightarrow> n < 2 ^ 32 \<and>
     (if partial then offset \<le> length (file_value (cells st) f) \<and> length (file_value (cells st) f) \<le> offset + length data \<and> n = offset + length data
      else offset = 0 \<and> n = length data)"

lemma build_law:
  assumes "region_wf (cells st) s e (xs @ ys)" "placed (cells st) s e xs ys (12 + length_size_for n + n) addr" "file_in f (xs @ ys)"
    and "outgrows st f data offset partial n" "within ({addr ..< addr + 8} \<union> back_link ys) st st1"
    and "fill_record f (f\<lparr>file_data := Some (addr + 12)\<rparr>) data offset partial (length (file_value (cells st) f)) n st1 = (r, st2)"
  shows "building (cells st) (cells st2) addr (12 + length_size_for n + n) ys" "step {addr + 8 ..< addr + 12 + length_size_for n + n} st1 r st2"
    "r = PICOKEYS_OK \<Longrightarrow> flash_record_size (cells st2) addr = 12 + length_size_for n + n \<and>
      contents (cells st2) addr = (identity_word f, written (file_value (cells st) f) data offset partial)"
proof -
  let ?real = "12 + length_size_for n + n" and ?m = "cells st"
  have a1: "building ?m (cells st1) addr ?real ys"
    unfolding building_def by (rule agree_mono [OF withinD(1) [OF assms(5)]]) auto
  note b1 = building_law [OF assms(1,2) a1]
  have pl: "addr + ?real = last (e # xs)" "gap_floor ?m s ys \<le> addr" using assms(2) by (simp_all add: placed_def)
  have l: "segment ?m e xs" "tail_ok ?m ys" using b1(1) by (simp_all add: touched_def)
  have src: "source_ok st1 f (length data) offset partial addr n \<and> new_bytes st1 f data offset partial = written (file_value ?m f) data offset partial"
  proof (cases "file_data f")
    case None
    with assms(4) show ?thesis by (auto simp: source_ok_def outgrows_def file_value_def new_bytes_def written_def split: if_splits)
  next
    case (Some p)
    then have b: "12 \<le> p" "p - 12 \<in> set xs \<union> set ys" using assms(3) by (simp_all add: file_in_def)
    define b where "b = p - 12"
    have p: "p = b + 12" "b \<in> set xs \<union> set ys" using b by (simp_all add: b_def)
    have same: "contents (cells st1) b = contents ?m b" "flash_record_size (cells st1) b = flash_record_size ?m b"
      using touched_keeps(4) [OF b1(1) p(2)] by simp_all
    have len: "length_of (cells st1) p = length (file_value ?m f)"
      using same(1) p(1) Some by (simp add: file_value_def contents_def) (metis bytes_at_length)
    have ap: "apart {addr ..< addr + ?real} p (length_size_of (cells st1) p + length_of (cells st1) p)"
    proof -
      have sz: "length_size_of (cells st1) p + length_of (cells st1) p = flash_record_size ?m b - 12"
        using same(2) by (simp add: flash_record_size_def p(1))
      show ?thesis
      proof (cases "b \<in> set xs")
        case True
        with segment_last_above(1) [OF l(1)] pl(1) p(1) show ?thesis by (intro apart_interval) force
      next
        case False
        with p(2) have "b + flash_record_size ?m b \<le> addr" using tail_below(1) [OF l(2), of b s] pl(2) by simp
        with sz p(1) record_size_min(1) [of ?m b] show ?thesis by (intro apart_interval) simp
      qed
    qed
    have "bytes_at (cells st1) (p + length_size_of (cells st1) p) offset = take offset (file_value ?m f)" if "offset \<le> length (file_value ?m f)"
    proof -
      have "file_value ?m f = bytes_at (cells st1) (p + length_size_of (cells st1) p) (length_of (cells st1) p)"
        using same(1) Some p(1) by (simp add: file_value_def contents_def)
      moreover have "length_of (cells st1) p = offset + (length_of (cells st1) p - offset)" using that len by simp
      ultimately show ?thesis using bytes_at_split [of "cells st1" "p + length_size_of (cells st1) p" offset "length_of (cells st1) p - offset"] by simp
    qed
    with ap Some assms(4) len show ?thesis by (auto simp: source_ok_def outgrows_def new_bytes_def written_def add.assoc split: if_splits)
  qed
  have big: "n < 2 ^ 32" "partial \<longrightarrow> length (file_value ?m f) \<le> offset + length data" using assms(4) by (simp_all add: outgrows_def)
  from fill_law [OF assms(6) big(1) _ big(2)] src
  have f: "step {addr + 8 ..< addr + ?real} st1 r st2"
    "r = PICOKEYS_OK \<longrightarrow> flash_record_size (cells st2) addr = ?real \<and> contents (cells st2) addr = (identity_word f, written (file_value ?m f) data offset partial)"
    by (simp_all add: add.assoc)
  show "building ?m (cells st2) addr ?real ys"
    unfolding building_def
    by (rule agree_trans [OF a1 [unfolded building_def] agree_mono [OF withinD(1) [OF stepD(1) [OF f(1)]]]]) auto
  show "step {addr + 8 ..< addr + 12 + length_size_for n + n} st1 r st2" using f(1) by (simp add: add.assoc)
  show "r = PICOKEYS_OK \<Longrightarrow> flash_record_size (cells st2) addr = ?real \<and>
      contents (cells st2) addr = (identity_word f, written (file_value ?m f) data offset partial)" using f(2) by blast
qed

lemma publish_law:
  assumes "publish_record at addr st = (r, st')" "addr < 2 ^ 32"
  shows "step {at ..< at + 4} st r st'" "r = PICOKEYS_OK \<Longrightarrow> pointer_at (cells st') at = addr" "clean st \<Longrightarrow> r \<noteq> PICOKEYS_OK \<Longrightarrow> cells st' = cells st"
proof -
  obtain r1 st1 where c: "(if sector_of at \<noteq> sector_of addr
      then case flash_commit_sync st of (ok, st1) \<Rightarrow> (if ok then PICOKEYS_OK else PICOKEYS_ERR_MEMORY_FATAL, st1) else (PICOKEYS_OK, st)) = (r1, st1)"
    by fastforce
  have s1: "step {at ..< at + 4} st r1 st1 \<and> cells st1 = cells st"
  proof (cases "sector_of at = sector_of addr")
    case True with c show ?thesis by auto
  next
    case False
    obtain ok st2 where k: "flash_commit_sync st = (ok, st2)" by fastforce
    from commit_step [OF k] step_mono [of "{}" st _ st2 "{at ..< at + 4}"] False c k show ?thesis by (auto split: if_splits)
  qed
  have pr: "(if r1 = PICOKEYS_OK then program_pointer at addr st1 else (r1, st1)) = (r, st')" using assms(1) c by (simp add: publish_record_def)
  show "step {at ..< at + 4} st r st'"
    by (rule step_seq [where f = "program_pointer at addr", OF conjunct1 [OF s1] pr]) (use program_pointer_step(1) in blast)
  show "r = PICOKEYS_OK \<Longrightarrow> pointer_at (cells st') at = addr"
    using pr program_pointer_step(2) [of at addr st1 r st' UNIV] assms(2) by (auto split: if_splits)
  show "cells st' = cells st" if "clean st" "r \<noteq> PICOKEYS_OK"
  proof (cases "r1 = PICOKEYS_OK")
    case True
    with pr s1 program_pointer_step(3) [of at addr st1 r st' UNIV] that withinD(3) [OF stepD(1) [OF conjunct1 [OF s1]]] show ?thesis by simp
  next
    case False with pr s1 show ?thesis by auto
  qed
qed

text \<open>What a reader of the list finds: every record that was there before and still is, as it was; and either the old list, or
  one record more, which is complete, without which the old one does not leave the list.\<close>

definition old_or_new :: "(nat \<Rightarrow> byte) \<Rightarrow> (nat \<Rightarrow> byte) \<Rightarrow> nat \<Rightarrow> nat list \<Rightarrow> nat set \<Rightarrow> u32 \<times> byte list \<Rightarrow> bool" where
  "old_or_new m m' e bs old c \<longleftrightarrow>
     (\<exists>bs'. links m' e bs' \<and> set bs - old \<subseteq> set bs' \<and> (\<forall>b \<in> set bs \<inter> set bs'. contents m' b = contents m b) \<and>
        (set bs' = set bs \<or> (\<exists>addr. set bs' - set bs = {addr} \<and> contents m' addr = c)))"

lemma old_or_new_same: "links m' e bs \<Longrightarrow> \<forall>b \<in> set bs. contents m' b = contents m b \<Longrightarrow> old_or_new m m' e bs old c"
  unfolding old_or_new_def by (intro exI [of _ bs]) auto

lemma old_or_new_added:
  assumes "links m' e bs'" "set bs - old \<subseteq> set bs'" "set bs' \<subseteq> insert addr (set bs)" "addr \<in> set bs'" "addr \<notin> set bs"
    and "\<forall>b \<in> set bs \<inter> set bs'. contents m' b = contents m b" "contents m' addr = c"
  shows "old_or_new m m' e bs old c"
proof -
  have "set bs' - set bs = {addr}" using assms(3-5) by blast
  with assms show ?thesis unfolding old_or_new_def by blast
qed

lemma without_record:
  assumes "region_wf m s e (us @ b # vs)"
  shows "set (us @ vs) = set (us @ b # vs) - {b}"
proof -
  have "segment m e (us @ b # vs)" using assms by (simp add: region_wf_def links_def)
  then have "distinct (us @ b # vs)" using segment_distinct by blast
  then show ?thesis by auto
qed

lemma gap_area_in:
  assumes "region_wf m s e (us @ b # vs)"
  shows "gap_area m s e us vs \<subseteq> {s ..< e + 4}"
proof -
  note ra = record_in_area [OF assms]
  have "last (e # us) \<le> e" by (rule segment_last [OF ra(3)])
  moreover have "s \<le> gap_floor m s vs" "back_link vs \<subseteq> {s ..< gap_floor m s vs}"
    using assms record_size_min(1) [of m "hd vs"] by (cases vs; auto simp: region_wf_def gap_floor_def back_link_def)+
  ultimately show ?thesis using ra(1,2) by (auto simp: gap_area_def)
qed

lemma drop_old_law:
  assumes "drop_old f nf real_size st = (r, f', st')" "file_data f = Some (b + 12)" "region_wf (cells st) s e (us @ b # vs)"
  shows "clean st \<Longrightarrow> cells st' = cells st \<or> links (cells st') e (us @ vs) \<and> (\<forall>x \<in> set (us @ vs). contents (cells st') x = contents (cells st) x)"
    "results st = [] \<Longrightarrow> r = PICOKEYS_OK \<and> f' = nf \<and> region_wf (cells st') s e (us @ vs) \<and> (\<forall>x \<in> set (us @ vs). contents (cells st') x = contents (cells st) x)"
    "clean st \<Longrightarrow> agree_outside {s ..< e + 4} (cells st) (cells st')"
proof -
  obtain c f4 st4 where cl: "flash_clear_file f st = (c, f4, st4)" by (metis prod.exhaust)
  note C = clear_law [OF cl assms(2,3)]
  have same: "clean st \<Longrightarrow> cells st' = cells st4"
  proof -
    assume cn: "clean st"
    show "cells st' = cells st4"
    proof (cases "c = PICOKEYS_OK")
      case False
      obtain q1 q2 st5 where k: "flash_clear_file nf st4 = (q1, q2, st5)" by (metis prod.exhaust)
      with assms(1) cl False withinD(6) [OF clear_within [OF k] C(5) [OF cn False]] show ?thesis by (simp add: drop_old_def)
    next
      case True
      obtain ok st5 where k: "flash_commit_sync st4 = (ok, st5)" by fastforce
      with assms(1) cl True commit_step [OF k] show ?thesis by (auto simp: drop_old_def split: if_splits)
    qed
  qed
  have keep: "\<forall>x \<in> set (us @ vs). contents (cells st4) x = contents (cells st) x" using touched_keeps(4) [OF C(2)] by simp
  show "clean st \<Longrightarrow> agree_outside {s ..< e + 4} (cells st) (cells st')"
    using agree_mono [OF withinD(1) [OF C(1)] gap_area_in [OF assms(3)]] same by simp
  from same keep show "clean st \<Longrightarrow> cells st' = cells st \<or> links (cells st') e (us @ vs) \<and> (\<forall>x \<in> set (us @ vs). contents (cells st') x = contents (cells st) x)"
    using C(3) touched_links [OF C(2)] by auto
  assume q: "results st = []"
  obtain ok st5 where k: "flash_commit_sync st4 = (ok, st5)" by fastforce
  have "results st4 = []" using withinD(4) [OF C(1) q] .
  then have "ok" using stepD(2) [OF conjunct1 [OF commit_step [OF k]]] by (auto split: if_splits)
  with assms(1) cl C(4) [OF q] k commit_step [OF k] keep
  show "r = PICOKEYS_OK \<and> f' = nf \<and> region_wf (cells st') s e (us @ vs) \<and> (\<forall>x \<in> set (us @ vs). contents (cells st') x = contents (cells st) x)"
    by (auto simp: drop_old_def split: if_splits)
qed

lemma placed_area:
  assumes "region_wf m s e (xs @ ys)" "placed m s e xs ys real_size addr"
  shows "{addr ..< addr + real_size} \<union> back_link ys \<subseteq> {s ..< e + 4}" "last (e # xs) \<le> e"
proof -
  show "last (e # xs) \<le> e" using assms(1) segment_last by (auto simp: region_wf_def links_append simp del: last.simps)
  moreover have "back_link ys \<subseteq> {s ..< gap_floor m s ys}"
    using assms(1) record_size_min(1) [of m "hd ys"] by (cases ys) (auto simp: region_wf_def gap_floor_def back_link_def)
  moreover have "addr + real_size = last (e # xs)" "s \<le> addr" "gap_floor m s ys \<le> addr" using assms(2) by (simp_all add: placed_def)
  ultimately show "{addr ..< addr + real_size} \<union> back_link ys \<subseteq> {s ..< e + 4}" by auto
qed

lemma write_new_law:
  assumes "write_new_record f data offset partial (length (file_value (cells st) f)) n st = (r, f', st')"
    and wf: "region_wf (cells st) s e bs" and region: "s = region_start (file_persistent f) st" "e = region_end (file_persistent f) st"
    and fin: "file_in f bs" and out: "outgrows st f data offset partial n"
    and c: "c = (identity_word f, written (file_value (cells st) f) data offset partial)"
  shows "clean st \<Longrightarrow> old_or_new (cells st) (cells st') e bs (old_record f) c"
    "results st = [] \<Longrightarrow> (r = PICOKEYS_ERR_NO_MEMORY \<and> f' = f \<and> st' = st \<and> no_room (cells st) s e bs n) \<or>
      (r = PICOKEYS_OK \<and> (\<exists>addr bs'. region_wf (cells st') s e bs' \<and> set bs' = insert addr (set bs - old_record f) \<and> addr \<notin> set bs \<and>
         f' = f\<lparr>file_data := Some (addr + 12)\<rparr> \<and> contents (cells st') addr = c \<and> (\<forall>b \<in> set bs - old_record f. contents (cells st') b = contents (cells st) b)))"
    "clean st \<Longrightarrow> agree_outside {s ..< e + 4} (cells st) (cells st')"
proof -
  let ?m = "cells st" and ?real = "12 + length_size_for n + n" and ?old = "old_record f"
  have old: "?old \<subseteq> set bs" using fin by (auto simp: file_in_def old_record_def split: option.splits)
  have links0: "links ?m e bs" using wf by (simp add: region_wf_def)
  note keep = old_or_new_same
  obtain x st1 where al: "allocate_free_addr n (file_persistent f) st = (x, st1)" by fastforce
  note law = allocate_law [OF al wf [unfolded region], folded region]
  have "(clean st \<longrightarrow> old_or_new ?m (cells st') e bs ?old c \<and> agree_outside {s ..< e + 4} ?m (cells st')) \<and>
    (results st = [] \<longrightarrow> (r = PICOKEYS_ERR_NO_MEMORY \<and> f' = f \<and> st' = st \<and> no_room ?m s e bs n) \<or>
      (r = PICOKEYS_OK \<and> (\<exists>addr bs'. region_wf (cells st') s e bs' \<and> set bs' = insert addr (set bs - ?old) \<and> addr \<notin> set bs \<and>
         f' = f\<lparr>file_data := Some (addr + 12)\<rparr> \<and> contents (cells st') addr = c \<and> (\<forall>b \<in> set bs - ?old. contents (cells st') b = contents ?m b))))"
  proof (cases "x = None \<and> st1 = st \<and> no_room ?m s e bs n")
    case True
    with assms(1) al have "r = PICOKEYS_ERR_NO_MEMORY" "f' = f" "st' = st" by (simp_all add: write_new_record_def)
    with True keep [OF links0] show ?thesis by simp
  next
    case False
    with law obtain xs ys addr r1 where g: "bs = xs @ ys" "placed ?m s e xs ys ?real addr" "x = (if r1 = PICOKEYS_OK then Some (addr, last (e # xs)) else None)"
      "step ({addr ..< addr + 8} \<union> back_link ys) st r1 st1"
      and ptr: "r1 = PICOKEYS_OK \<Longrightarrow> pointer_at (cells st1) addr = next_of ys \<and> pointer_at (cells st1) (addr + 4) = last (e # xs) \<and>
          (ys \<noteq> [] \<longrightarrow> pointer_at (cells st1) (next_of ys + 4) = addr)" by blast
    note wf' = wf [unfolded g(1)]
    have b1: "building ?m (cells st1) addr ?real ys"
      unfolding building_def by (rule agree_mono [OF withinD(1) [OF stepD(1) [OF g(4)]]]) auto
    have area: "{addr ..< addr + ?real} \<union> back_link ys \<subseteq> {s ..< e + 4}" "last (e # xs) \<le> e"
      using placed_area [OF wf' g(2)] by blast+
    note a1 = agree_mono [OF b1 [unfolded building_def] area(1)]
    show ?thesis
    proof (cases "r1 = PICOKEYS_OK")
      case False
      with assms(1) al g(3) have "st' = st1" by (simp add: write_new_record_def)
      with False stepD(2) [OF g(4)] keep building_law(2,3) [OF wf' g(2) b1] g(1) a1 show ?thesis by auto
    next
      case True
      define st1' where "st1' = (if addr < lowest_base st1 then st1\<lparr>lowest_base := addr\<rparr> else st1)"
      have e1: "cells st1' = cells st1" "within S st1' st2 = within S st1 st2" "within S st0 st1' = within S st0 st1" for S st0 st2 by (simp_all add: st1'_def)
      define nf where "nf = f\<lparr>file_data := Some (addr + 12)\<rparr>"
      obtain r2 st2 where fi: "fill_record f nf data offset partial (length (file_value ?m f)) n st1' = (r2, st2)" by fastforce
      obtain r3 st3 where pu: "(if r2 = PICOKEYS_OK then publish_record (last (e # xs)) addr st2 else (r2, st2)) = (r3, st3)" by fastforce
      note B = build_law [OF wf' g(2) fin [unfolded g(1)] out _ fi [unfolded nf_def], unfolded e1(3), OF stepD(1) [OF g(4)]]
      have pl: "addr + ?real = last (e # xs)" using g(2) by (simp add: placed_def)
      have w12: "within UNIV st st2"
        using within_trans [OF within_mono [OF stepD(1) [OF g(4)] subset_UNIV]] within_mono [OF stepD(1) [OF B(2)] subset_UNIV] e1(2) by blast
      have a2: "links (cells st2) e bs" "\<forall>b \<in> set bs. contents (cells st2) b = contents ?m b"
        using building_law(2,3) [OF wf' g(2) B(1)] g(1) by simp_all
      note a02 = agree_mono [OF B(1) [unfolded building_def] area(1)]
      have small: "addr < 2 ^ 32"
      proof -
        have "segment ?m e xs" "e < 2 ^ 32" using wf' by (simp_all add: region_wf_def links_append)
        with segment_last [of ?m e xs] pl show ?thesis by simp
      qed
      have s3: "r2 = PICOKEYS_OK \<Longrightarrow> step {last (e # xs) ..< last (e # xs) + 4} st2 r3 st3" using publish_law(1) pu small by fastforce
      have bad: "clean st \<Longrightarrow> r3 \<noteq> PICOKEYS_OK \<Longrightarrow> dead st3 \<and> cells st3 = cells st2"
      proof (cases "r2 = PICOKEYS_OK")
        case r2: True
        assume "clean st" "r3 \<noteq> PICOKEYS_OK"
        moreover have "clean st2" using withinD(3) [OF w12 \<open>clean st\<close>] .
        ultimately show ?thesis using s3 [OF r2] stepD(3) publish_law(3) [of "last (e # xs)" addr st2 r3 st3] pu r2 small by auto
      next
        case r2: False
        assume "clean st"
        then have "clean st1'" using withinD(3) [OF stepD(1) [OF g(4)]] by (simp add: st1'_def clean_def)
        with r2 pu stepD(3) [OF B(2)] show ?thesis by auto
      qed
      show ?thesis
      proof (cases "r3 = PICOKEYS_OK")
        case False
        obtain q1 q2 st4 where cl: "flash_clear_file nf st3 = (q1, q2, st4)" by (metis prod.exhaust)
        have "st' = st4" using assms(1) al g(3) True fi pu cl False
          by (simp add: write_new_record_def Let_def st1'_def [symmetric] nf_def [symmetric] del: last.simps)
        moreover have "cells st4 = cells st2" if "clean st" using bad [OF that False] withinD(6) [OF clear_within [OF cl]] by simp
        moreover have "results st \<noteq> []"
        proof
          assume e: "results st = []"
          then have "results st1' = []" "results st2 = []" using withinD(4) [OF stepD(1) [OF g(4)] e] withinD(4) [OF w12 e] by (simp_all add: st1'_def)
          then have "r2 = PICOKEYS_OK" using stepD(2) [OF B(2)] by blast
          with stepD(2) [OF s3] \<open>results st2 = []\<close> False show False by blast
        qed
        ultimately show ?thesis using keep a2 a02 by simp
      next
        case r3: True
        then have r2: "r2 = PICOKEYS_OK" using pu by (cases "r2 = PICOKEYS_OK") auto
        have pu': "publish_record (last (e # xs)) addr st2 = (PICOKEYS_OK, st3)" using pu r2 r3 by simp
        have a12: "agree_outside {addr + 8 ..< addr + ?real} (cells st1) (cells st2)" using withinD(1) [OF stepD(1) [OF B(2)]] e1(1) by (simp add: add.assoc)
        have p2: "pointer_at (cells st2) addr = next_of ys" "pointer_at (cells st2) (addr + 4) = last (e # xs)"
          using agree_pointer [OF a12, of addr] agree_pointer [OF a12, of "addr + 4"] ptr [OF True] by (simp_all add: apart_interval)
        have p2': "ys = [] \<or> pointer_at (cells st2) (next_of ys + 4) = addr"
        proof (cases ys)
          case (Cons y zs)
          then have "y + 14 \<le> addr" using g(2) record_size_min(1) [of ?m y] by (simp add: placed_def gap_floor_def)
          then have "apart {addr + 8 ..< addr + ?real} (next_of ys + 4) 4" using Cons by (simp add: next_of_def apart_interval)
          from agree_pointer [OF a12 this] ptr [OF True] Cons show ?thesis by simp
        qed simp
        note P = published_law [OF wf' g(2) B(1) p2 p2' conjunct1 [OF B(3) [OF r2]] withinD(1) [OF stepD(1) [OF s3 [OF r2, unfolded r3]]] publish_law(2) [OF pu' small refl]]
        have ca: "contents (cells st3) addr = c" using P(2) B(3) [OF r2] c by simp
        have set3: "set (xs @ addr # ys) = insert addr (set bs)" "addr \<notin> set bs" using P(4) g(1) by auto
        have w13: "within UNIV st st3"
          using within_trans [OF w12] within_mono [OF stepD(1) [OF s3 [OF r2]] subset_UNIV] by blast
        have a03: "agree_outside {s ..< e + 4} ?m (cells st3)"
          by (rule agree_trans [OF a02 agree_mono [OF withinD(1) [OF stepD(1) [OF s3 [OF r2]]]]])
             (use area(2) g(2) in \<open>auto simp: placed_def\<close>)
        show ?thesis
        proof (cases "file_data f")
          case None
          then have "st' = st3" "r = PICOKEYS_OK" "f' = nf" using assms(1) al g(3) True fi pu r3
            by (simp_all add: write_new_record_def Let_def st1'_def [symmetric] nf_def [symmetric] del: last.simps)
          moreover have "?old = {}" using None by (simp add: old_record_def)
          moreover have "old_or_new ?m (cells st3) e bs ?old c"
            by (rule old_or_new_added [of _ _ "xs @ addr # ys" _ _ addr]) (use P(1,3) set3 ca g(1) in \<open>auto simp: region_wf_def\<close>)
          ultimately show ?thesis using P(1,3) set3 ca g(1) nf_def a03 by (auto intro!: exI [of _ addr] exI [of _ "xs @ addr # ys"])
        next
          case (Some p)
          define b where "b = p - 12"
          have pb: "file_data f = Some (b + 12)" "b \<in> set bs" "?old = {b}"
            using fin Some by (simp_all add: file_in_def b_def old_record_def)
          obtain us vs where uv: "xs @ addr # ys = us @ b # vs" using pb(2) set3 by (metis insertCI split_list)
          note wf3 = P(1) [unfolded uv]
          have dr: "drop_old f nf (12 + length_size_for n + n) st3 = (r, f', st')"
            using assms(1) al g(3) True fi pu r3 Some
            by (simp add: write_new_record_def Let_def st1'_def [symmetric] nf_def [symmetric] del: last.simps)
          note D = drop_old_law [OF dr pb(1) wf3]
          have set4: "set (us @ vs) = insert addr (set bs) - {b}" using without_record [OF wf3] uv set3(1) by metis
          have b_ne: "b \<noteq> addr" using pb(2) set3(2) by blast
          have con: "contents (cells st3) x = (if x = addr then c else contents ?m x)" if "x \<in> insert addr (set bs)" for x
            using P(3) ca that g(1) set3(2) by auto
          have "old_or_new ?m (cells st') e bs ?old c" if cn: "clean st"
            using D(1) [OF withinD(3) [OF w13 cn]]
          proof
            assume "cells st' = cells st3"
            then show ?thesis using P(1) set3 con
              by (intro old_or_new_added [of _ _ "xs @ addr # ys" _ _ addr]) (auto simp: region_wf_def)
          next
            assume "links (cells st') e (us @ vs) \<and> (\<forall>x \<in> set (us @ vs). contents (cells st') x = contents (cells st3) x)"
            then show ?thesis using set3 set4 con pb(3) b_ne
              by (intro old_or_new_added [of _ _ "us @ vs" _ _ addr]) auto
          qed
          moreover have "r = PICOKEYS_OK \<and> (\<exists>addr bs'. region_wf (cells st') s e bs' \<and> set bs' = insert addr (set bs - ?old) \<and> addr \<notin> set bs \<and>
             f' = f\<lparr>file_data := Some (addr + 12)\<rparr> \<and> contents (cells st') addr = c \<and> (\<forall>b \<in> set bs - ?old. contents (cells st') b = contents ?m b))"
            if q: "results st = []"
            using D(2) [OF withinD(4) [OF w13 q]] set3(2) set4 con pb(3) b_ne nf_def
            by (intro conjI exI [of _ addr] exI [of _ "us @ vs"]) auto
          moreover have "agree_outside {s ..< e + 4} ?m (cells st')" if "clean st" using agree_trans [OF a03 D(3) [OF withinD(3) [OF w13 that]]] .
          ultimately show ?thesis by blast
        qed
      qed
    qed
  qed
  then show "clean st \<Longrightarrow> old_or_new (cells st) (cells st') e bs (old_record f) c"
    "results st = [] \<Longrightarrow> (r = PICOKEYS_ERR_NO_MEMORY \<and> f' = f \<and> st' = st \<and> no_room (cells st) s e bs n) \<or>
      (r = PICOKEYS_OK \<and> (\<exists>addr bs'. region_wf (cells st') s e bs' \<and> set bs' = insert addr (set bs - old_record f) \<and> addr \<notin> set bs \<and>
         f' = f\<lparr>file_data := Some (addr + 12)\<rparr> \<and> contents (cells st') addr = c \<and> (\<forall>b \<in> set bs - old_record f. contents (cells st') b = contents (cells st) b)))"
    "clean st \<Longrightarrow> agree_outside {s ..< e + 4} (cells st) (cells st')"
    by blast+
qed

section \<open>Overwriting in place\<close>

lemma shrink_law:
  assumes "region_wf m s e (us @ b # vs)" "agree_outside {b + 12 ..< b + flash_record_size m b} m m'" "flash_record_size m' b \<le> flash_record_size m b"
  shows "region_wf m' s e (us @ b # vs)" "\<forall>x \<in> set us \<union> set vs. contents m' x = contents m x" "word_at m' (b + 8) = word_at m (b + 8)"
proof -
  let ?S = "{b + 12 ..< b + flash_record_size m b}" and ?base = "last (e # us)"
  note ra = record_in_area [OF assms(1)]
  have up: "apart ?S a n" if "?base \<le> a" for a n using ra(2) that by (intro apart_interval) linarith
  have lo: "apart ?S a n" if "a + n \<le> b + 12" for a n using that by (intro apart_interval) simp
  have us: "apart ?S (x + 8) n" "apart ?S x n" "apart ?S (x + 4) n" if "x \<in> set us" for x n
    using segment_last_above(1) [OF ra(3) that] up by simp_all
  have vs: "x + flash_record_size m x \<le> b" "apart ?S (x + 8) (flash_record_size m x - 8)" "apart ?S x 4" "apart ?S (x + 4) 4" if "x \<in> set vs" for x
  proof -
    show "x + flash_record_size m x \<le> b" using tail_below(1) [OF ra(4) that, of s] ra(1) by simp
    then show "apart ?S (x + 8) (flash_record_size m x - 8)" "apart ?S x 4" "apart ?S (x + 4) 4" using lo record_size_min(1) [of m x] by simp_all
  qed
  have seg: "segment m' e us"
  proof (rule segment_agree [OF assms(2) ra(3)])
    show "us = [] \<or> apart ?S e 4" using segment_last [OF ra(3)] up by simp
    show "\<And>x. x \<in> set us \<Longrightarrow> apart ?S (x + 8) (flash_record_size m x - 8)" by (rule us(1))
    show "\<And>x. x \<in> set (butlast us) \<Longrightarrow> apart ?S x 4" by (rule us(2) [OF in_set_butlastD])
  qed
  have w: "segment m e (us @ b # vs)" "pointer_at m (last (b # vs)) = 0" "backs m e (us @ b # vs)"
    using assms(1) by (simp_all add: region_wf_def links_def)
  have "segment m' b vs"
  proof (rule segment_agree [OF assms(2)])
    show "segment m b vs" using w(1) by (simp add: segment_append)
    show "vs = [] \<or> apart ?S b 4" using lo [of b 4] by simp
    show "\<And>x. x \<in> set vs \<Longrightarrow> apart ?S (x + 8) (flash_record_size m x - 8)" by (rule vs(2))
    show "\<And>x. x \<in> set (butlast vs) \<Longrightarrow> apart ?S x 4" by (rule vs(3) [OF in_set_butlastD])
  qed
  moreover have "pointer_at m' ?base = b" using agree_pointer [OF assms(2) up] ra(8) by simp
  moreover have "pointer_at m' (last (b # vs)) = 0"
  proof -
    have "apart ?S (last (b # vs)) 4" using vs(3) [of "last vs"] lo [of b 4] by (cases vs) auto
    then show ?thesis using agree_pointer [OF assms(2)] w(2) by simp
  qed
  ultimately have "links m' e (us @ b # vs)" using seg ra(2,13) assms(3) by (simp add: links_def segment_append)
  moreover have "backs m' e (us @ b # vs)"
    by (rule backs_agree [OF assms(2) w(3)]) (use us(3) vs(4) lo in auto)
  ultimately show "region_wf m' s e (us @ b # vs)" using assms(1) by (simp add: region_wf_def)
  show "\<forall>x \<in> set us \<union> set vs. contents m' x = contents m x" using agree_record(2) [OF assms(2)] us(1) vs(2) by blast
  show "word_at m' (b + 8) = word_at m (b + 8)" by (rule agree_word [OF assms(2) lo]) simp
qed

text \<open>The write fits the record.\<close>

definition fits_in :: "(nat \<Rightarrow> byte) \<Rightarrow> nat \<Rightarrow> byte list \<Rightarrow> nat \<Rightarrow> bool \<Rightarrow> bool" where
  "fits_in m p data offset partial \<longleftrightarrow>
     (if partial then offset + length data \<le> length_of m p
      else offset = 0 \<and> length data \<le> length_of m p \<and> (unat (half_at m p) = FLASH_FILE_EXTENDED_LENGTH \<or> length data < FLASH_FILE_EXTENDED_LENGTH))"

lemma in_place_length:
  assumes "(if partial then (PICOKEYS_OK, st)
      else if unat (half_at (cells st) p) = FLASH_FILE_EXTENDED_LENGTH then program (p + 2) (put_uint32_le (of_nat (length data))) st
      else program p (put_uint16_le (of_nat (length data))) st) = (r, st1)"
    and "fits_in (cells st) p data offset partial"
  shows "step {p ..< p + length_size_of (cells st) p} st r st1" "clean st \<Longrightarrow> r \<noteq> PICOKEYS_OK \<Longrightarrow> cells st1 = cells st"
    "r = PICOKEYS_OK \<Longrightarrow> length_size_of (cells st1) p = length_size_of (cells st) p \<and>
       length_of (cells st1) p = (if partial then length_of (cells st) p else length data)"
proof -
  let ?m = "cells st" and ?S = "{p ..< p + length_size_of (cells st) p}"
  have "step ?S st r st1 \<and> (clean st \<and> r \<noteq> PICOKEYS_OK \<longrightarrow> cells st1 = ?m) \<and> (r = PICOKEYS_OK \<longrightarrow>
    length_size_of (cells st1) p = length_size_of ?m p \<and> length_of (cells st1) p = (if partial then length_of ?m p else length data))"
  proof -
    consider "partial" | "\<not> partial" "unat (half_at ?m p) = FLASH_FILE_EXTENDED_LENGTH" | "\<not> partial" "unat (half_at ?m p) \<noteq> FLASH_FILE_EXTENDED_LENGTH" by blast
    then show ?thesis
    proof cases
      case 1
      with assms(1) show ?thesis by auto
    next
      case 2
      then have pr: "program (p + 2) (put_uint32_le (of_nat (length data))) st = (r, st1)" using assms(1) by simp
      have ls: "length_size_of ?m p = 6" using 2 by (simp add: length_size_of_def)
      have small: "length data < 2 ^ 32"
      proof -
        have "length_of ?m p = unat (word_at ?m (p + 2))" using 2 by (simp add: length_of_def)
        then have "length_of ?m p < 2 ^ 32" using unsigned_less [of "word_at ?m (p + 2)"] by simp
        with assms(2) 2 show ?thesis by (simp add: fits_in_def)
      qed
      note s = program_step [OF pr]
      have step: "step ?S st r st1" "step {p + 2 ..< p + 6} st r st1" using s(1) [of ?S] s(1) [of "{p + 2 ..< p + 6}"] ls by auto
      have "half_at (cells st1) p = half_at ?m p" by (rule agree_half [OF withinD(1) [OF stepD(1) [OF step(2)]]]) (simp add: apart_interval)
      moreover have "unat (word_at (cells st1) (p + 2)) = length data" if "r = PICOKEYS_OK"
        using holds_word [OF s(2) [of ?S]] that step ls small by (simp add: unat_of_nat take_bit_nat_eq_self)
      ultimately show ?thesis using step(1) s(3) [of ?S] 2 ls by (auto simp: length_size_of_def length_of_def)
    next
      case 3
      then have pr: "program p (put_uint16_le (of_nat (length data))) st = (r, st1)" using assms(1) by simp
      have ls: "length_size_of ?m p = 2" using 3 by (simp add: length_size_of_def)
      have small: "length data < FLASH_FILE_EXTENDED_LENGTH" using assms(2) 3 by (simp add: fits_in_def)
      note s = program_step [OF pr]
      have "unat (half_at (cells st1) p) = length data" if "r = PICOKEYS_OK"
        using holds_half [OF s(2) [of ?S]] that ls small by (simp add: unat_of_nat take_bit_nat_eq_self FLASH_FILE_EXTENDED_LENGTH_def)
      then show ?thesis using s(1) [of ?S] s(3) [of ?S] 3 ls small by (auto simp: length_size_of_def length_of_def)
    qed
  qed
  then show "step ?S st r st1" "clean st \<Longrightarrow> r \<noteq> PICOKEYS_OK \<Longrightarrow> cells st1 = ?m"
    "r = PICOKEYS_OK \<Longrightarrow> length_size_of (cells st1) p = length_size_of ?m p \<and> length_of (cells st1) p = (if partial then length_of ?m p else length data)"
    by blast+
qed

lemma bytes_at_take: "i \<le> n \<Longrightarrow> bytes_at m a i = take i (bytes_at m a n)"
  by (rule nth_equalityI) auto

lemma bytes_at_overwrite:
  assumes "agree_outside {a + off ..< a + off + length d} m m'" "holds m' (a + off) d" "off + length d \<le> n"
  shows "bytes_at m' a n = take off (bytes_at m a n) @ d @ drop (off + length d) (bytes_at m a n)"
proof -
  let ?k = "n - (off + length d)"
  have n: "n = off + (length d + ?k)" using assms(3) by simp
  have "bytes_at m' a n = bytes_at m' a off @ bytes_at m' (a + off) (length d) @ bytes_at m' (a + off + length d) ?k"
    by (subst n) (simp only: bytes_at_split)
  moreover have "bytes_at m' a off = bytes_at m a off" "bytes_at m' (a + off + length d) ?k = bytes_at m (a + off + length d) ?k"
    by (rule agree_bytes [OF assms(1) apart_interval]; simp)+
  moreover have "bytes_at m a off = take off (bytes_at m a n)" by (rule bytes_at_take) (use assms(3) in simp)
  moreover have "bytes_at m (a + off + length d) ?k = drop (off + length d) (bytes_at m a n)"
    by (rule nth_equalityI) (use assms(3) in \<open>simp_all add: add.assoc\<close>)
  ultimately show ?thesis using assms(2) by (simp add: holds_def)
qed

text \<open>What the data can be after a write that was cut short.\<close>

definition in_place_values :: "byte list \<Rightarrow> byte list \<Rightarrow> nat \<Rightarrow> bool \<Rightarrow> byte list set" where
  "in_place_values old data offset partial =
     {old, written old data offset partial} \<union> (if partial then {} else {take (length data) old})"

lemma contents_in_place:
  assumes "agree_outside {b + 12 ..< b + 12 + length_size_of m (b + 12)} m m1" "length_size_of m1 (b + 12) = length_size_of m (b + 12)"
    and "length_of m1 (b + 12) \<le> length_of m (b + 12)"
  shows "snd (contents m1 b) = take (length_of m1 (b + 12)) (snd (contents m b))" "flash_record_size m1 b \<le> flash_record_size m b"
proof -
  let ?P = "b + 12 + length_size_of m (b + 12)"
  have "bytes_at m1 ?P (length_of m1 (b + 12)) = bytes_at m ?P (length_of m1 (b + 12))"
    by (rule agree_bytes [OF assms(1) apart_interval]) simp
  also have "\<dots> = take (length_of m1 (b + 12)) (bytes_at m ?P (length_of m (b + 12)))" by (rule bytes_at_take) (rule assms(3))
  finally show "snd (contents m1 b) = take (length_of m1 (b + 12)) (snd (contents m b))" by (simp add: contents_def assms(2))
  show "flash_record_size m1 b \<le> flash_record_size m b" using assms by (simp add: flash_record_size_def)
qed

lemma in_place_law:
  assumes "write_in_place f (b + 12) data offset partial st = (r, st')" "file_data f = Some (b + 12)" "fits_in (cells st) (b + 12) data offset partial"
  shows "agree_outside {b + 12 ..< b + flash_record_size (cells st) b} (cells st) (cells st')"
    "clean st \<Longrightarrow> flash_record_size (cells st') b \<le> flash_record_size (cells st) b \<and>
       snd (contents (cells st') b) \<in> in_place_values (snd (contents (cells st) b)) data offset partial"
    "results st = [] \<Longrightarrow> r = PICOKEYS_OK \<and> snd (contents (cells st') b) = written (snd (contents (cells st) b)) data offset partial"
proof -
  let ?m = "cells st" and ?p = "b + 12" and ?S = "{b + 12 ..< b + flash_record_size (cells st) b}" and ?old = "snd (contents (cells st) b)"
  let ?ls = "length_size_of ?m ?p" and ?V = "in_place_values (snd (contents (cells st) b)) data offset partial"
  have sz: "flash_record_size ?m b = 12 + ?ls + length_of ?m ?p" by (simp add: flash_record_size_def)
  have fits: "offset + length data \<le> length_of ?m ?p" using assms(3) by (simp add: fits_in_def split: if_splits)
  obtain r1 st1 where p1: "(if partial then (PICOKEYS_OK, st)
      else if unat (half_at ?m ?p) = FLASH_FILE_EXTENDED_LENGTH then program (?p + 2) (put_uint32_le (of_nat (length data))) st
      else program ?p (put_uint16_le (of_nat (length data))) st) = (r1, st1)" by fastforce
  obtain r2 st2 where p2: "(if r1 = PICOKEYS_OK \<and> 0 < length data then program (?p + ?ls + offset) data st1 else (r1, st1)) = (r2, st2)" by fastforce
  note s1 = in_place_length [OF p1 assms(3)]
  have s1': "step ?S st r1 st1" by (rule step_mono [OF s1(1)]) (use sz in auto)
  have same_end: "cells st' = cells st2 \<and> (r2 = PICOKEYS_OK \<and> results st2 = [] \<longrightarrow> r = PICOKEYS_OK)"
  proof -
    obtain ok st3 where k: "flash_commit_sync st2 = (ok, st3)" by fastforce
    show ?thesis using assms(1) p1 p2 k commit_step [OF k] stepD(2) [OF conjunct1 [OF commit_step [OF k]]]
      by (auto simp: write_in_place_def Let_def split: if_splits)
  qed
  let ?T = "{?p + ?ls + offset ..< ?p + ?ls + offset + length data}"
  have q2: "step ?T st1 r2 st2 \<and> (r2 = PICOKEYS_OK \<longrightarrow> holds (cells st2) (?p + ?ls + offset) data) \<and> (clean st1 \<and> r2 \<noteq> PICOKEYS_OK \<longrightarrow> cells st2 = cells st1)"
    if "r1 = PICOKEYS_OK"
    using program_step [of "?p + ?ls + offset" data st1 r2 st2 ?T] p2 that by (cases "data = []") (auto simp: holds_def bytes_at_def)
  have s2: "step ?S st r2 st2"
  proof (cases "r1 = PICOKEYS_OK")
    case True
    have "step ?S st1 r2 st2" by (rule step_mono [OF conjunct1 [OF q2 [OF True]]]) (use sz fits in auto)
    then show ?thesis by (rule step_subset [OF s1' True])
  next
    case False with p2 s1' show ?thesis by auto
  qed
  show "agree_outside ?S ?m (cells st')" using withinD(1) [OF stepD(1) [OF s2]] same_end by simp
  have m1: "snd (contents (cells st1) b) = take (length_of (cells st1) ?p) ?old" "flash_record_size (cells st1) b \<le> flash_record_size ?m b"
    "length_of (cells st1) ?p = (if partial then length_of ?m ?p else length data)" "length_size_of (cells st1) ?p = ?ls" if "r1 = PICOKEYS_OK"
    using contents_in_place [OF withinD(1) [OF stepD(1) [OF s1(1)]]] s1(3) [OF that] fits by (auto split: if_splits)
  have m2: "snd (contents (cells st2) b) = written ?old data offset partial \<and> flash_record_size (cells st2) b \<le> flash_record_size ?m b"
    if "r1 = PICOKEYS_OK" "r2 = PICOKEYS_OK"
  proof -
    note k = m1 [OF that(1)] and q = q2 [OF that(1)]
    have ag: "agree_outside ?T (cells st1) (cells st2)" using q withinD(1) [OF stepD(1)] by blast
    have same: "length_size_of (cells st2) ?p = ?ls" "length_of (cells st2) ?p = length_of (cells st1) ?p"
      using agree_length [OF ag apart_interval, of ?p] k(4) by simp_all
    have fit1: "offset + length data \<le> length_of (cells st1) ?p" using k(3) assms(3) fits by (simp add: fits_in_def split: if_splits)
    have "snd (contents (cells st2) b) = take offset (snd (contents (cells st1) b)) @ data @ drop (offset + length data) (snd (contents (cells st1) b))"
      using bytes_at_overwrite [OF ag _ fit1] q that(2) by (simp add: contents_def same k(4))
    moreover have "length ?old = length_of ?m ?p" by (simp add: contents_def)
    ultimately have "snd (contents (cells st2) b) = written ?old data offset partial"
      using k(1,3) assms(3) by (auto simp: written_def fits_in_def split: if_splits)
    with k(2,4) same show ?thesis by (simp add: flash_record_size_def)
  qed
  show "flash_record_size (cells st') b \<le> flash_record_size ?m b \<and> snd (contents (cells st') b) \<in> ?V" if cn: "clean st"
  proof (cases "r1 = PICOKEYS_OK")
    case False
    with p2 s1(2) [OF cn False] same_end show ?thesis by (auto simp: in_place_values_def)
  next
    case True
    have c1: "clean st1" using withinD(3) [OF stepD(1) [OF s1(1)] cn] .
    have "length ?old = length_of ?m ?p" by (simp add: contents_def)
    then have "snd (contents (cells st1) b) \<in> ?V" using m1(1,3) [OF True] by (simp add: in_place_values_def)
    then show ?thesis using q2 [OF True] c1 m1(2) [OF True] m2 [OF True] same_end by (cases "r2 = PICOKEYS_OK") (auto simp: in_place_values_def)
  qed
  show "r = PICOKEYS_OK \<and> snd (contents (cells st') b) = written ?old data offset partial" if q: "results st = []"
  proof -
    have "r1 = PICOKEYS_OK" "results st1 = []" using stepD(2) [OF s1(1) q] withinD(4) [OF stepD(1) [OF s1(1)] q] by simp_all
    moreover have "r2 = PICOKEYS_OK" "results st2 = []" using stepD(2) [OF s2 q] withinD(4) [OF stepD(1) [OF s2] q] by simp_all
    ultimately show ?thesis using m2 same_end by simp
  qed
qed

section \<open>Writing a file\<close>

definition write_ok :: "(nat \<Rightarrow> byte) \<Rightarrow> flash_file \<Rightarrow> byte list \<Rightarrow> nat \<Rightarrow> bool \<Rightarrow> bool" where
  "write_ok m f data offset partial \<longleftrightarrow> offset + length data < 2 ^ 32 \<and>
     (if partial then offset \<le> length (file_value m f) else offset = 0)"

lemma write_cases:
  assumes "flash_write_data_to_file_internal f data offset partial st = (r, f', st')" "file_in f bs" "write_ok (cells st) f data offset partial"
  obtains (in_place) b where "file_data f = Some (b + 12)" "b \<in> set bs" "fits_in (cells st) (b + 12) data offset partial"
      "write_in_place f (b + 12) data offset partial st = (r, st')" "f' = f"
  | (new) n where "outgrows st f data offset partial n" "write_new_record f data offset partial (length (file_value (cells st) f)) n st = (r, f', st')"
proof -
  have size: "flash_file_size f st = length (file_value (cells st) f)" by (rule file_size_value [OF assms(2)])
  have ok: "\<not> SIZE_MAX < length data" "\<not> SIZE_MAX - length data < offset" "\<not> (partial \<and> length (file_value (cells st) f) < offset)"
    using assms(3) by (auto simp: write_ok_def SIZE_MAX_def split: if_splits)
  let ?old = "length (file_value (cells st) f)" and ?n = "if partial then max (length (file_value (cells st) f)) (offset + length data) else length data"
  note w = assms(1) [unfolded flash_write_data_to_file_internal_def Let_def size if_not_P [OF ok(1)]]
  have un: "outgrows st f data offset partial ?n" if "partial \<longrightarrow> ?old \<le> offset + length data"
    using assms(3) that by (auto simp: outgrows_def write_ok_def)
  show thesis
  proof (cases "file_data f")
    case None
    then have z: "?old = 0" by (simp add: file_value_def)
    show thesis by (rule new [OF un]) (use w ok(2,3) None z in auto)
  next
    case (Some p)
    define b where "b = p - 12"
    have b: "p = b + 12" "b \<in> set bs" using assms(2) Some by (simp_all add: file_in_def b_def)
    have len: "length_of (cells st) p = ?old" using file_value_length [OF Some] b(1) by simp
    let ?C = "partial \<and> offset + length data \<le> ?old \<or>
      \<not> partial \<and> length data \<le> ?old \<and> (unat (half_at (cells st) p) = FLASH_FILE_EXTENDED_LENGTH \<or> length data < FLASH_FILE_EXTENDED_LENGTH)"
    show thesis
    proof (cases ?C)
      case True
      have "write_in_place f p data offset partial st = (r, st') \<and> f' = f"
        using w ok(2,3) Some True by (auto split: prod.splits if_splits)
      moreover have "fits_in (cells st) p data offset partial"
        using True assms(3) len by (auto simp: fits_in_def write_ok_def)
      ultimately show thesis using in_place [of b] b Some by simp
    next
      case False
      have "write_new_record f data offset partial ?old ?n st = (r, f', st')" using w ok(2,3) Some False by (auto split: if_splits)
      then show thesis by (rule new [OF un, rotated]) (use False in auto)
    qed
  qed
qed

lemma word_ident: "fst (contents m b) = word_at m (b + 8)" by (simp add: contents_def)

text \<open>After a write that was cut short by a loss of power. When no new record is in the list, the file has a value that
  \<open>cut_values\<close> allows: the old one, and when the write goes into the old record also the new one or, if the record shrinks, the old
  one cut to the new length. When a new record is in the list, it is complete, and the old one is gone or as before.\<close>

definition cut_values :: "(nat \<Rightarrow> byte) \<Rightarrow> flash_file \<Rightarrow> byte list \<Rightarrow> nat \<Rightarrow> bool \<Rightarrow> byte list set" where
  "cut_values m f data offset partial = insert (file_value m f)
     (case file_data f of None \<Rightarrow> {}
      | Some p \<Rightarrow> if fits_in m p data offset partial then in_place_values (file_value m f) data offset partial else {})"

definition after_cut :: "(nat \<Rightarrow> byte) \<Rightarrow> (nat \<Rightarrow> byte) \<Rightarrow> nat \<Rightarrow> nat list \<Rightarrow> flash_file \<Rightarrow> byte list \<Rightarrow> nat \<Rightarrow> bool \<Rightarrow> bool" where
  "after_cut m m' e bs f data offset partial \<longleftrightarrow>
     (\<exists>bs'. links m' e bs' \<and> set bs - old_record f \<subseteq> set bs' \<and>
        (\<forall>b \<in> set bs - old_record f. contents m' b = contents m b) \<and>
        (if set bs' = set bs
         then \<forall>b \<in> old_record f. fst (contents m' b) = fst (contents m b) \<and> snd (contents m' b) \<in> cut_values m f data offset partial
         else (\<exists>addr. set bs' - set bs = {addr} \<and> contents m' addr = (identity_word f, written (file_value m f) data offset partial)) \<and>
           (\<forall>b \<in> old_record f \<inter> set bs'. contents m' b = contents m b)))"

lemma old_or_new_cut:
  assumes "old_or_new m m' e bs (old_record f) (identity_word f, written (file_value m f) data offset partial)" "file_in f bs"
  shows "after_cut m m' e bs f data offset partial"
proof -
  have o: "old_record f \<subseteq> set bs" "\<forall>b \<in> old_record f. snd (contents m b) \<in> cut_values m f data offset partial"
    using assms(2) by (auto simp: old_record_def file_value_def file_in_def cut_values_def split: option.splits)
  obtain bs' where b: "links m' e bs'" "set bs - old_record f \<subseteq> set bs'" "\<forall>b \<in> set bs \<inter> set bs'. contents m' b = contents m b"
    "set bs' = set bs \<or> (\<exists>addr. set bs' - set bs = {addr} \<and> contents m' addr = (identity_word f, written (file_value m f) data offset partial))"
    using assms(1) unfolding old_or_new_def by blast
  have k: "\<forall>b \<in> set bs - old_record f. contents m' b = contents m b" using b(2,3) by blast
  show ?thesis
  proof (cases "set bs' = set bs")
    case True
    then have "\<forall>b \<in> old_record f. contents m' b = contents m b" using b(3) o(1) by blast
    with True b(1,2) k o(2) show ?thesis unfolding after_cut_def by (intro exI [of _ bs']) simp
  next
    case False
    moreover have "\<forall>b \<in> old_record f \<inter> set bs'. contents m' b = contents m b" using b(3) o(1) by blast
    ultimately show ?thesis unfolding after_cut_def using b(1,2,4) k by (intro exI [of _ bs']) simp
  qed
qed

lemma in_place_region:
  assumes "write_in_place f (b + 12) data offset partial st = (r, st')" "file_data f = Some (b + 12)" "fits_in (cells st) (b + 12) data offset partial"
    and "region_wf (cells st) s e bs" "b \<in> set bs" "clean st"
  shows "region_wf (cells st') s e bs" "\<forall>x \<in> set bs - {b}. contents (cells st') x = contents (cells st) x"
    "fst (contents (cells st') b) = fst (contents (cells st) b)" "agree_outside {s ..< e + 4} (cells st) (cells st')"
    "snd (contents (cells st') b) \<in> in_place_values (snd (contents (cells st) b)) data offset partial"
proof -
  note I = in_place_law [OF assms(1-3)]
  obtain us vs where uv: "bs = us @ b # vs" using assms(5) by (meson split_list)
  note wf = assms(4) [unfolded uv]
  note S = shrink_law [OF wf I(1) conjunct1 [OF I(2) [OF assms(6)]]]
  show "region_wf (cells st') s e bs" using S(1) uv by simp
  show "\<forall>x \<in> set bs - {b}. contents (cells st') x = contents (cells st) x" using S(2) uv by auto
  show "fst (contents (cells st') b) = fst (contents (cells st) b)" using S(3) by (simp add: word_ident)
  show "snd (contents (cells st') b) \<in> in_place_values (snd (contents (cells st) b)) data offset partial" using I(2) [OF assms(6)] by blast
  have "last (e # us) \<le> e" "s \<le> b" using record_in_area(3) [OF wf] segment_last wf by (auto simp: region_wf_def simp del: last.simps)
  then have "{b + 12 ..< b + flash_record_size (cells st) b} \<subseteq> {s ..< e + 4}" using record_in_area(2) [OF wf] by auto
  then show "agree_outside {s ..< e + 4} (cells st) (cells st')" using I(1) agree_mono by blast
qed

lemma write_law:
  assumes "flash_write_data_to_file_internal f data offset partial st = (r, f', st')" "file_in f bs" "write_ok (cells st) f data offset partial"
    and wf: "region_wf (cells st) s e bs" and region: "s = region_start (file_persistent f) st" "e = region_end (file_persistent f) st"
  shows "clean st \<Longrightarrow> agree_outside {s ..< e + 4} (cells st) (cells st')"
    "clean st \<Longrightarrow> after_cut (cells st) (cells st') e bs f data offset partial"
    "results st = [] \<Longrightarrow> (r = PICOKEYS_ERR_NO_MEMORY \<and> f' = f \<and> st' = st \<and> (\<exists>n. outgrows st f data offset partial n \<and> no_room (cells st) s e bs n)) \<or>
       (r = PICOKEYS_OK \<and> (\<exists>bs'. region_wf (cells st') s e bs' \<and> file_in f' bs' \<and> f'\<lparr>file_data := file_data f\<rparr> = f \<and>
          file_value (cells st') f' = written (file_value (cells st) f) data offset partial \<and>
          set bs' = (set bs - old_record f) \<union> old_record f' \<and> (\<forall>b \<in> set bs - old_record f. contents (cells st') b = contents (cells st) b)))"
proof -
  let ?ok = "\<exists>bs'. region_wf (cells st') s e bs' \<and> file_in f' bs' \<and> f'\<lparr>file_data := file_data f\<rparr> = f \<and>
          file_value (cells st') f' = written (file_value (cells st) f) data offset partial \<and>
          set bs' = (set bs - old_record f) \<union> old_record f' \<and> (\<forall>b \<in> set bs - old_record f. contents (cells st') b = contents (cells st) b)"
  have "(clean st \<longrightarrow> agree_outside {s ..< e + 4} (cells st) (cells st') \<and> after_cut (cells st) (cells st') e bs f data offset partial) \<and>
    (results st = [] \<longrightarrow> (r = PICOKEYS_ERR_NO_MEMORY \<and> f' = f \<and> st' = st \<and> (\<exists>n. outgrows st f data offset partial n \<and> no_room (cells st) s e bs n)) \<or>
       (r = PICOKEYS_OK \<and> ?ok))"
    using assms(1-3)
  proof (cases rule: write_cases)
    case (in_place b)
    have o: "old_record f = {b}" "file_value m f = snd (contents m b)" for m using in_place(1) by (simp_all add: old_record_def file_value_def)
    note R = in_place_region [OF in_place(4,1,3) wf in_place(2)]
    have v: "cut_values (cells st) f data offset partial = insert (file_value (cells st) f) (in_place_values (snd (contents (cells st) b)) data offset partial)"
      using in_place(1,3) by (simp add: cut_values_def o(2))
    have "after_cut (cells st) (cells st') e bs f data offset partial" if "clean st"
      unfolding after_cut_def v o(1) using R [OF that] in_place(2) by (intro exI [of _ bs]) (simp add: region_wf_def)
    moreover have "r = PICOKEYS_OK \<and> ?ok" if q: "results st = []"
    proof -
      have "clean st" using q by (simp add: clean_def)
      note R = R [OF this]
      have "set bs = set bs - {b} \<union> {b}" "file_in f bs" using in_place(1,2) by (auto simp: file_in_def)
      with in_place_law(3) [OF in_place(4,1,3) q] R o in_place(5) show ?thesis by (intro conjI exI [of _ bs]) auto
    qed
    ultimately show ?thesis using R(4) by blast
  next
    case (new n)
    note N = write_new_law [OF new(2) wf region assms(2) new(1) refl]
    have "r = PICOKEYS_OK \<and> ?ok" if "r = PICOKEYS_OK \<and> (\<exists>addr bs'. region_wf (cells st') s e bs' \<and> set bs' = insert addr (set bs - old_record f) \<and> addr \<notin> set bs \<and>
         f' = f\<lparr>file_data := Some (addr + 12)\<rparr> \<and> contents (cells st') addr = (identity_word f, written (file_value (cells st) f) data offset partial) \<and>
         (\<forall>b \<in> set bs - old_record f. contents (cells st') b = contents (cells st) b))"
    proof -
      from that obtain addr bs' where k: "region_wf (cells st') s e bs'" "set bs' = insert addr (set bs - old_record f)" "f' = f\<lparr>file_data := Some (addr + 12)\<rparr>"
        "contents (cells st') addr = (identity_word f, written (file_value (cells st) f) data offset partial)"
        "\<forall>b \<in> set bs - old_record f. contents (cells st') b = contents (cells st) b" "r = PICOKEYS_OK" by blast
      then show ?thesis by (intro conjI exI [of _ bs']) (auto simp: file_in_def file_value_def old_record_def)
    qed
    with N old_or_new_cut [OF _ assms(2)] new(1) show ?thesis by blast
  qed
  then show "clean st \<Longrightarrow> agree_outside {s ..< e + 4} (cells st) (cells st')"
    "clean st \<Longrightarrow> after_cut (cells st) (cells st') e bs f data offset partial"
    "results st = [] \<Longrightarrow> (r = PICOKEYS_ERR_NO_MEMORY \<and> f' = f \<and> st' = st \<and> (\<exists>n. outgrows st f data offset partial n \<and> no_room (cells st) s e bs n)) \<or>
       (r = PICOKEYS_OK \<and> ?ok)" by blast+
qed

section \<open>What the scan finds\<close>

definition found :: "(nat \<Rightarrow> byte) \<Rightarrow> nat \<Rightarrow> found_record" where
  "found m b = \<lparr>found_base = b, found_fid = ucast (word_at m (b + 8)), found_ns = ucast (drop_bit 16 (word_at m (b + 8))),
     found_length = length_of m (b + 12)\<rparr>"

definition ident_ok :: "(u16 \<Rightarrow> bool) \<Rightarrow> u32 \<Rightarrow> bool" where
  "ident_ok known w \<longleftrightarrow> known (ucast (drop_bit 16 w)) \<and> (ucast w :: u16) \<noteq> 0 \<and> (ucast w :: u16) \<noteq> 0xffff"

lemma scan_segment:
  assumes "segment m p us" "backs m p us" "p \<le> e" "\<forall>b \<in> set us. s \<le> b \<and> ident_ok known (word_at m (b + 8))" "0 < s"
    and "us = [] \<or> (let nxt = pointer_at m (last (p # us)) in nxt = 0 \<or> s \<le> nxt \<and> nxt < last (p # us))"
  shows "scan_records known s e (pointer_at m p) m =
    (map (found m) us @ fst (scan_records known s e (pointer_at m (last (p # us))) m), snd (scan_records known s e (pointer_at m (last (p # us))) m))"
  using assms
proof (induction us arbitrary: p)
  case (Cons b vs)
  then have b: "pointer_at m p = b" "b \<noteq> 0" "b + flash_record_size m b \<le> p" "segment m b vs" "pointer_at m (b + 4) = p" "backs m b vs" "s \<le> b" by auto
  have nxt: "pointer_at m b = 0 \<or> s \<le> pointer_at m b \<and> pointer_at m b < b"
  proof (cases vs)
    case (Cons c cs)
    with b(4) Cons.prems(4) record_size_min(1) [of m c] show ?thesis by auto
  qed (use Cons.prems(6) in \<open>simp add: Let_def\<close>)
  have sz: "12 + length_size_of m (b + 12) + length_of m (b + 12) \<le> e - b"
    using b(3) Cons.prems(3) by (simp add: flash_record_size_def)
  have valid: "record_valid known s e b m"
    using Cons.prems(3,4) b nxt sz record_size_min(1) [of m b] by (auto simp: record_valid_def Let_def ident_ok_def)
  have inside: "\<not> (b < s \<or> e < b \<or> e - b < 14)" using b Cons.prems(3) record_size_min(1) [of m b] by auto
  have step: "scan_records known s e b m =
    (if pointer_at m b = 0 then ([found m b], False) else (case scan_records known s e (pointer_at m b) m of (rs, c) \<Rightarrow> (found m b # rs, c)))"
    unfolding scan_records.simps [of known s e b m] using b(2) inside valid by (simp add: found_def Let_def)
  show ?case
  proof (cases "pointer_at m b = 0")
    case True
    then have "vs = []" using b(4) by (cases vs) auto
    with True step b(1) show ?thesis by (simp add: scan_records.simps [of known s e 0])
  next
    case False
    have "vs = [] \<or> (let nxt = pointer_at m (last (b # vs)) in nxt = 0 \<or> s \<le> nxt \<and> nxt < last (b # vs))"
      using Cons.prems(6) by (cases vs) auto
    from Cons.IH [OF b(4,6) _ _ Cons.prems(5) this] Cons.prems(3,4) b(3)
    show ?thesis unfolding b(1) step using False by (auto simp: case_prod_beta)
  qed
qed simp

lemma scan_law:
  assumes "region_wf m s e bs" "\<forall>b \<in> set bs. ident_ok known (fst (contents m b))"
  shows "scan_records known s e (pointer_at m e) m = (map (found m) bs, False)"
proof -
  have w: "segment m e bs" "backs m e bs" "\<forall>b \<in> set bs. s \<le> b" "0 < s" "pointer_at m (last (e # bs)) = 0"
    using assms(1) by (simp_all add: region_wf_def links_def)
  have "scan_records known s e 0 m = ([], False)" by (simp add: scan_records.simps [of known s e 0])
  with scan_segment [OF w(1,2) order_refl _ w(4), of known] w(3,5) assms(2) show ?thesis by (simp add: Let_def word_ident del: last.simps)
qed

lemma region_agree:
  assumes "region_wf m s e bs" "agree_outside S m m'" "apart S s (e + 4 - s)"
  shows "region_wf m' s e bs" "\<forall>b \<in> set bs. contents m' b = contents m b"
proof -
  have w: "segment m e bs" "backs m e bs" "\<forall>b \<in> set bs. s \<le> b" "pointer_at m (last (e # bs)) = 0" "0 < s" "s \<le> e" "e < 2 ^ 32"
    using assms(1) by (simp_all add: region_wf_def links_def)
  have in_region: "s \<le> b \<and> b + flash_record_size m b \<le> e" if "b \<in> set bs" for b using w(1,3) segment_below that by blast
  have ap: "apart S (b + 8) (flash_record_size m b - 8)" "apart S b 4" "apart S (b + 4) 4" if "b \<in> set bs" for b
    using in_region [OF that] record_size_min(1) [of m b] by (auto intro!: apart_sub [OF assms(3)])
  have e4: "apart S e 4" by (rule apart_sub [OF assms(3)]) (use w(6) in auto)
  have "segment m' e bs"
    by (rule segment_agree [OF assms(2) w(1)]) (rule disjI2 [OF e4], rule ap(1), assumption, rule ap(2) [OF in_set_butlastD])
  moreover have "backs m' e bs" by (rule backs_agree [OF assms(2) w(2)]) (rule ap(3))
  moreover have "pointer_at m' (last (e # bs)) = 0"
  proof -
    have "apart S (last (e # bs)) 4" using e4 ap(2) [of "last bs"] by (cases bs) auto
    then show ?thesis using agree_pointer [OF assms(2)] w(4) by simp
  qed
  ultimately show "region_wf m' s e bs" using w by (simp add: region_wf_def links_def)
  show "\<forall>b \<in> set bs. contents m' b = contents m b" using agree_record(2) [OF assms(2)] ap(1) by blast
qed

section \<open>The two pools\<close>

definition pool_wf :: "flash_pool \<Rightarrow> nat list \<Rightarrow> nat list \<Rightarrow> bool" where
  "pool_wf st ds rs \<longleftrightarrow> region_wf (cells st) (data_start st) (data_end st) ds \<and> region_wf (cells st) (rom_start st) (rom_end st) rs \<and>
     data_end st + FLASH_DATA_HEADER_SIZE \<le> rom_start st"

lemma pool_region:
  assumes "pool_wf st ds rs"
  shows "region_wf (cells st) (region_start per st) (region_end per st) (if per then rs else ds)"
  using assms by (simp add: pool_wf_def region_start_def region_end_def)

lemma pool_apart:
  assumes "pool_wf st ds rs"
  shows "set ds \<inter> set rs = {}"
proof -
  have "\<forall>b \<in> set ds. b \<le> data_end st" "\<forall>b \<in> set rs. rom_start st \<le> b" "data_end st + 8 \<le> rom_start st"
    using assms segment_below [of "cells st" "data_end st" ds] by (fastforce simp: pool_wf_def region_wf_def links_def FLASH_DATA_HEADER_SIZE_def)+
  then show ?thesis by fastforce
qed

lemma pool_other:
  assumes "pool_wf st ds rs" "agree_outside {region_start per st ..< region_end per st + 4} (cells st) m'"
  shows "region_wf m' (region_start (\<not> per) st) (region_end (\<not> per) st) (if per then ds else rs)"
    "\<forall>b \<in> set (if per then ds else rs). contents m' b = contents (cells st) b"
proof -
  have p: "region_wf (cells st) (data_start st) (data_end st) ds" "region_wf (cells st) (rom_start st) (rom_end st) rs" "data_end st + 8 \<le> rom_start st"
    using assms(1) by (simp_all add: pool_wf_def FLASH_DATA_HEADER_SIZE_def)
  have "apart {region_start per st ..< region_end per st + 4} (region_start (\<not> per) st) (region_end (\<not> per) st + 4 - region_start (\<not> per) st)"
    using p by (cases per) (auto simp: region_start_def region_end_def region_wf_def intro!: apart_interval)
  from region_agree [OF pool_region [OF assms(1), of "\<not> per"] assms(2) this]
  show "region_wf m' (region_start (\<not> per) st) (region_end (\<not> per) st) (if per then ds else rs)"
    "\<forall>b \<in> set (if per then ds else rs). contents m' b = contents (cells st) b" by (cases per; simp)+
qed

lemma pool_update:
  assumes "pool_wf st ds rs" "agree_outside {region_start per st ..< region_end per st + 4} (cells st) (cells st')" "regions st' = regions st"
    and "region_wf (cells st') (region_start per st) (region_end per st) bs"
  shows "pool_wf st' (if per then ds else bs) (if per then bs else rs)"
    "\<forall>b \<in> set (if per then ds else rs). contents (cells st') b = contents (cells st) b"
proof -
  have "data_end st + 8 \<le> rom_start st" using assms(1) by (simp add: pool_wf_def FLASH_DATA_HEADER_SIZE_def)
  then show "pool_wf st' (if per then ds else bs) (if per then bs else rs)"
    using assms(3,4) pool_other(1) [OF assms(1,2)]
    by (cases per) (simp_all add: pool_wf_def region_start_def region_end_def regions_def FLASH_DATA_HEADER_SIZE_def)
  show "\<forall>b \<in> set (if per then ds else rs). contents (cells st') b = contents (cells st) b" by (rule pool_other(2) [OF assms(1,2)])
qed

text \<open>No operation moves the bounds of the pools.\<close>

lemma regions_update [simp]: "regions (st\<lparr>num_files := n\<rparr>) = regions st" "regions (st\<lparr>lowest_base := n\<rparr>) = regions st"
  by (simp_all add: regions_def)

lemma regions_program: "program a d st = (r, st') \<Longrightarrow> regions st' = regions st"
  by (auto simp: program_def next_result_def regions_def split: list.splits program_outcome.splits if_splits)

lemma regions_pointer: "program_pointer a v st = (r, st') \<Longrightarrow> regions st' = regions st"
  by (simp add: program_pointer_def regions_program)

lemma regions_commit: "flash_commit_sync st = (ok, st') \<Longrightarrow> regions st' = regions st"
  using commit_step withinD(2) stepD(1) by blast

lemma regions_copy: "copy_file_range f off dst n st = (r, st') \<Longrightarrow> regions st' = regions st"
proof (induction f off dst n st arbitrary: r st' rule: copy_file_range.induct)
  case (1 f off dst n st)
  show ?case
  proof (cases "n = 0")
    case False
    define c where "c = min 256 n"
    note un = copy_file_range.simps [of f off dst n st, folded c_def] and IH = "1.IH" [OF False c_def]
    show ?thesis
    proof (cases "flash_file_read_at f off c st")
      case (Inl q)
      with "1.prems" False show ?thesis by (simp add: un Let_def c_def)
    next
      case (Inr b)
      obtain r1 st1 where p: "program dst b st = (r1, st1)" by fastforce
      with "1.prems" False Inr have k: "if r1 \<noteq> PICOKEYS_OK then st' = st1 else copy_file_range f (off + c) (dst + c) (n - c) st1 = (r, st')"
        unfolding c_def by (auto simp: copy_file_range.simps [of f off dst n st] Let_def split: if_splits)
      with IH [OF Inr p [symmetric]] regions_program [OF p] show ?thesis by (auto split: if_splits)
    qed
  qed (use "1.prems" copy_file_range.simps [of f off dst 0 st] in simp)
qed

lemma regions_clear: "flash_clear_file f st = (r, f', st') \<Longrightarrow> regions st' = regions st"
  using clear_within withinD(2) by blast

lemmas regions_kept = regions_program regions_pointer regions_commit regions_copy regions_clear

lemma regions_allocate: "allocate_free_addr n per st = (x, st') \<Longrightarrow> regions st' = regions st"
  by (auto simp: allocate_free_addr_def Let_def split: option.splits prod.splits if_splits dest!: regions_kept)

lemma regions_length: "write_file_length p n st = (r, st') \<Longrightarrow> regions st' = regions st"
  by (auto simp: write_file_length_def split: prod.splits if_splits dest!: regions_kept)

lemma regions_fill: "fill_record f nf d off per old n st = (r, st') \<Longrightarrow> regions st' = regions st"
  by (auto simp: fill_record_def Let_def split: prod.splits if_splits dest!: regions_kept regions_length)

lemma regions_publish: "publish_record at a st = (r, st') \<Longrightarrow> regions st' = regions st"
  by (auto simp: publish_record_def split: prod.splits if_splits dest!: regions_kept)

lemma regions_drop: "drop_old f nf n st = (r, f', st') \<Longrightarrow> regions st' = regions st"
  by (auto simp: drop_old_def split: prod.splits if_splits dest!: regions_kept)

lemma regions_new: "write_new_record f d off per old n st = (r, f', st') \<Longrightarrow> regions st' = regions st"
  by (auto simp: write_new_record_def Let_def split: prod.splits option.splits if_splits
      dest!: regions_kept regions_allocate regions_fill regions_publish regions_drop)

lemma regions_in_place: "write_in_place f p d off per st = (r, st') \<Longrightarrow> regions st' = regions st"
  by (auto simp: write_in_place_def Let_def split: prod.splits if_splits dest!: regions_kept)

lemma regions_write: "flash_write_data_to_file_internal f d off per st = (r, f', st') \<Longrightarrow> regions st' = regions st"
  by (auto simp: flash_write_data_to_file_internal_def Let_def split: prod.splits option.splits if_splits dest!: regions_new regions_in_place)

section \<open>Properties\<close>

text \<open>C13: the pools are lists of files: without failures a write of a file (whole, or a part at an offset) ends with
  well-formed lists in both pools, in which the file reads as written and every other record is as before. It fails only
  when no gap of its pool takes a record of the new size, and then nothing has changed.\<close>

theorem flash_write_keeps_pool:
  assumes "pool_wf st ds rs" "file_in f (if file_persistent f then rs else ds)" "write_ok (cells st) f data offset partial" "results st = []"
    and "flash_write_data_to_file_internal f data offset partial st = (r, f', st')"
  shows "(r = PICOKEYS_ERR_NO_MEMORY \<and> f' = f \<and> st' = st \<and>
       (\<exists>n. outgrows st f data offset partial n \<and>
          no_room (cells st) (region_start (file_persistent f) st) (region_end (file_persistent f) st) (if file_persistent f then rs else ds) n)) \<or>
    (r = PICOKEYS_OK \<and> (\<exists>ds' rs'. pool_wf st' ds' rs' \<and> file_in f' (if file_persistent f then rs' else ds') \<and>
       file_value (cells st') f' = written (file_value (cells st) f) data offset partial \<and>
       set ds' \<union> set rs' = (set ds \<union> set rs - old_record f) \<union> old_record f' \<and>
       (\<forall>b \<in> set ds \<union> set rs - old_record f. contents (cells st') b = contents (cells st) b)))"
proof -
  let ?bs = "if file_persistent f then rs else ds" and ?os = "if file_persistent f then ds else rs"
  note L = write_law [OF assms(5,2,3) pool_region [OF assms(1)] refl refl]
  have cn: "clean st" using assms(4) by (simp add: clean_def)
  have disj: "set ?os \<inter> old_record f = {}"
    using pool_apart [OF assms(1)] assms(2) by (cases "file_data f") (auto simp: old_record_def file_in_def split: if_splits)
  from L(3) [OF assms(4)] show ?thesis
  proof
    assume "r = PICOKEYS_OK \<and> (\<exists>bs'. region_wf (cells st') (region_start (file_persistent f) st) (region_end (file_persistent f) st) bs' \<and>
      file_in f' bs' \<and> f'\<lparr>file_data := file_data f\<rparr> = f \<and> file_value (cells st') f' = written (file_value (cells st) f) data offset partial \<and>
      set bs' = (set ?bs - old_record f) \<union> old_record f' \<and> (\<forall>b \<in> set ?bs - old_record f. contents (cells st') b = contents (cells st) b))"
    then obtain bs' where k: "r = PICOKEYS_OK" "region_wf (cells st') (region_start (file_persistent f) st) (region_end (file_persistent f) st) bs'"
      "file_in f' bs'" "file_value (cells st') f' = written (file_value (cells st) f) data offset partial"
      "set bs' = (set ?bs - old_record f) \<union> old_record f'" "\<forall>b \<in> set ?bs - old_record f. contents (cells st') b = contents (cells st) b" by blast
    note U = pool_update [OF assms(1) L(1) [OF cn] regions_write [OF assms(5)] k(2)]
    show ?thesis
      by (rule disjI2, rule conjI [OF k(1)], rule exI, rule exI, rule conjI [OF U(1)]) (use k disj U(2) in \<open>auto split: if_splits\<close>)
  qed blast
qed

text \<open>C14: cut the power before any programming operation of a write: what the links then lead through is a proper list
  in which every other record is as before, and the other pool is untouched. While no new record is in the list the file has its old
  data; only a write that goes into the old record can also leave the new data, or, when it makes the record shorter, the old
  data cut to the new length. Once a new record is in the list it is complete, with the new data, and the old record is gone
  or still has its old data.\<close>

theorem flash_write_crash_safe:
  assumes "pool_wf st ds rs" "file_in f (if file_persistent f then rs else ds)" "write_ok (cells st) f data offset partial"
    and "results st = replicate k Programmed @ [Power_Lost]"
    and "flash_write_data_to_file_internal f data offset partial st = (r, f', st')"
  shows "after_cut (cells st) (cells st') (region_end (file_persistent f) st) (if file_persistent f then rs else ds) f data offset partial \<and>
    (\<exists>bs. region_wf (cells st') (region_start (\<not> file_persistent f) st) (region_end (\<not> file_persistent f) st) bs \<and>
       bs = (if file_persistent f then ds else rs) \<and> (\<forall>b \<in> set bs. contents (cells st') b = contents (cells st) b))"
proof -
  have cn: "clean st" using assms(4) by (simp add: clean_def list_all_iff)
  note L = write_law [OF assms(5,2,3) pool_region [OF assms(1)] refl refl]
  show ?thesis using L(2) [OF cn] pool_other [OF assms(1) L(1) [OF cn]] by auto
qed

text \<open>C15: when no flash operation fails, clearing a file succeeds, takes its record out of the list and no other, and leaves only
  zeros where its data was. (When a link cannot be written the operation may report success and lose the records below:
  clear_loses_records_below.)\<close>

theorem flash_clear_removes_and_zeroes:
  assumes "pool_wf st ds rs" "file_in f (if file_persistent f then rs else ds)" "file_data f = Some p" "results st = []"
    and "flash_clear_file f st = (r, f', st')"
  shows "r = PICOKEYS_OK \<and> file_data f' = None \<and> (\<exists>ds' rs'. pool_wf st' ds' rs' \<and> set ds' \<union> set rs' = set ds \<union> set rs - {p - 12} \<and>
      (\<forall>b \<in> set ds' \<union> set rs'. contents (cells st') b = contents (cells st) b)) \<and>
    (\<forall>i < length (file_value (cells st) f). cells st' (p + length_size_of (cells st) p + i) = 0)"
proof -
  let ?bs = "if file_persistent f then rs else ds" and ?os = "if file_persistent f then ds else rs"
  define b where "b = p - 12"
  have b: "p = b + 12" "b \<in> set ?bs" using assms(2,3) by (simp_all add: file_in_def b_def)
  obtain us vs where uv: "?bs = us @ b # vs" using split_list [OF b(2)] by blast
  note wf = pool_region [OF assms(1), of "file_persistent f", unfolded uv]
  note C = clear_law [OF assms(5) assms(3) [unfolded b(1)] wf]
  have ag: "agree_outside {region_start (file_persistent f) st ..< region_end (file_persistent f) st + 4} (cells st) (cells st')"
    by (rule agree_mono [OF withinD(1) [OF C(1)] gap_area_in [OF wf]])
  note U = pool_update [OF assms(1) ag regions_clear [OF assms(5)] conjunct1 [OF conjunct2 [OF C(4) [OF assms(4)]]]]
  have s: "set (us @ vs) = set ?bs - {b}" using without_record [OF wf] uv by simp
  have "set ?os \<inter> {b} = {}" using pool_apart [OF assms(1)] b(2) by (auto split: if_splits)
  moreover have "\<forall>x \<in> set (us @ vs). contents (cells st') x = contents (cells st) x" using touched_keeps(4) [OF C(2)] by simp
  moreover have "file_data f' = None"
    using assms(3,5) C(4) [OF assms(4)] by (auto simp: flash_clear_file_def Let_def split: prod.splits if_splits)
  moreover have "\<forall>i < length (file_value (cells st) f). cells st' (p + length_size_of (cells st) p + i) = 0"
    using C(4) [OF assms(4)] assms(3) b(1) by (auto simp: file_value_def contents_def flash_record_size_def)
  ultimately show ?thesis using C(4) [OF assms(4)] U s b(1)
    by (intro conjI exI [of _ "if file_persistent f then ds else us @ vs"] exI [of _ "if file_persistent f then us @ vs else rs"]) (auto split: if_splits)
qed

text \<open>C16: a scan finds exactly the records of a well-formed pool whose identities are those of files, in the order of the list, and
  does not report corruption.\<close>

theorem scan_finds_records:
  assumes "pool_wf st ds rs" "\<forall>b \<in> set ds \<union> set rs. ident_ok known (fst (contents (cells st) b))"
  shows "fst (scan_region known persistent st) = (map (found (cells st)) (if persistent then rs else ds), False)"
  using scan_law [OF pool_region [OF assms(1), of persistent], of known] assms(2)
  by (cases persistent) (simp_all add: scan_region_def Let_def region_start_def region_end_def)

text \<open>Clearing ignores whether the record was unlinked. When only the programming of the predecessor's link fails, the
  operation reports success, but the predecessor still leads to the cleared record, whose own links are gone: a scan stops there, reports
  corruption and loses every record below.\<close>

theorem clear_loses_records_below:
  assumes "region_wf (cells st) s e (us @ b # vs)" "file_data f = Some (b + 12)" "results st = [Stopped 0]"
    and "\<forall>x \<in> set us. ident_ok known (fst (contents (cells st) x))" "flash_clear_file f st = (r, f', st')"
  shows "r = PICOKEYS_OK \<and> file_data f' = None \<and> scan_records known s e (pointer_at (cells st') e) (cells st') = (map (found (cells st')) us, True)"
proof -
  note C = clear_law [OF assms(5,2,1)] and ra = record_in_area [OF assms(1)]
  let ?m' = "cells st'" and ?base = "last (e # us)"
  have k: "r = PICOKEYS_OK" "file_data f' = None" "pointer_at ?m' ?base = b" "pointer_at ?m' (b + 4) = 0" using C(6) [OF assms(3)] by blast+
  note T = touched_keeps [OF C(2)]
  have w: "\<forall>x \<in> set us. s \<le> x" "s \<le> b" "0 < s" "?base \<le> e" "b < ?base" "b + 14 \<le> ?base"
    using assms(1) segment_last [OF ra(3)] ra(2) record_size_min(1) [of "cells st" b] by (auto simp: region_wf_def simp del: last.simps)
  have ids: "\<forall>x \<in> set us. s \<le> x \<and> ident_ok known (word_at ?m' (x + 8))"
    using T(4) assms(4) w(1) by (metis UnCI word_ident)
  have stop: "scan_records known s e b ?m' = ([], True)"
  proof -
    have "\<not> record_valid known s e b ?m'" using k(4) w ra(13) by (auto simp: record_valid_def Let_def)
    then show ?thesis unfolding scan_records.simps [of known s e b] using ra(13) by simp
  qed
  have "us = [] \<or> (let nxt = pointer_at ?m' ?base in nxt = 0 \<or> s \<le> nxt \<and> nxt < ?base)" using k(3) w by (simp add: Let_def)
  from scan_segment [OF T(1) touched_backs(1) [OF C(2) ra(14,15)] order_refl ids w(3) this] k stop show ?thesis by simp
qed

section \<open>An example\<close>

text \<open>Two records in the data pool, none in the other.\<close>

definition record_image :: "nat \<Rightarrow> nat \<Rightarrow> u32 \<Rightarrow> byte list \<Rightarrow> byte list" where
  "record_image nxt prev ident d =
     put_uint32_le (of_nat nxt) @ put_uint32_le (of_nat prev) @ put_uint32_le ident @ put_uint16_le (of_nat (length d)) @ d"

definition example_cells :: "nat \<Rightarrow> byte" where
  "example_cells = put_bytes 8192 (put_uint32_le (of_nat 8000)) (put_bytes 8000 (record_image 7900 8192 0x10005 [1, 2, 3])
     (put_bytes 7900 (record_image 0 8000 0x10006 [9]) (\<lambda>_. 0)))"

definition example_pool :: "program_outcome list \<Rightarrow> flash_pool" where
  "example_pool rs = \<lparr>cells = example_cells, data_start = 4096, data_end = 8192, rom_start = 8200, rom_end = 12288, flash_end = 12300,
     lowest_base = 7900, num_files = 2, results = rs\<rparr>"

definition example_file :: flash_file where
  "example_file = \<lparr>file_data = Some 8012, file_id = 5, file_ns = 1, file_persistent = False\<rparr>"

lemma holds_append: "holds m a (x @ y) \<longleftrightarrow> holds m a x \<and> holds m (a + length x) y"
  by (auto simp: holds_def bytes_at_split)

lemma image_length: "length (record_image nxt prev ident d) = 14 + length d"
  by (simp add: record_image_def)

lemma image_fields:
  assumes "holds m b (record_image nxt prev ident d)" "nxt < 2 ^ 32" "prev < 2 ^ 32" "length d < FLASH_FILE_EXTENDED_LENGTH"
  shows "pointer_at m b = nxt" "pointer_at m (b + 4) = prev" "flash_record_size m b = 14 + length d" "contents m b = (ident, d)"
proof -
  have h: "holds m b (put_uint32_le (of_nat nxt))" "holds m (b + 4) (put_uint32_le (of_nat prev))" "holds m (b + 8) (put_uint32_le ident)"
    "holds m (b + 12) (put_uint16_le (of_nat (length d)))" "holds m (b + 14) d"
    using assms(1) by (simp_all add: record_image_def holds_append add.commute [of 14] add.commute [of 12] add.commute [of 8])
  show "pointer_at m b = nxt" "pointer_at m (b + 4) = prev" using holds_pointer h assms(2,3) by blast+
  have l: "length_size_of m (b + 12) = 2" "length_of m (b + 12) = length d"
    using length_fields [of "length d" m "b + 12"] holds_half [OF h(4)] assms(4) by (auto simp: length_size_for_def FLASH_FILE_EXTENDED_LENGTH_def)
  then show "flash_record_size m b = 14 + length d" by (simp add: flash_record_size_def)
  show "contents m b = (ident, d)" using holds_word [OF h(3)] h(5) l by (simp add: contents_def holds_def add.commute [of 14])
qed

lemma holds_put_other: "holds m a d \<Longrightarrow> a + length d \<le> c \<or> c + length e \<le> a \<Longrightarrow> holds (put_bytes c e m) a d"
  by (rule agree_holds [OF put_bytes_agree [OF subset_refl]]) (auto intro: apart_interval)

lemma example_wf:
  "pool_wf (example_pool rs) [8000, 7900] []" "contents example_cells 8000 = (0x10005, [1, 2, 3])" "contents example_cells 7900 = (0x10006, [9])"
  "flash_record_size example_cells 8000 = 17"
proof -
  have h: "holds example_cells 8192 (put_uint32_le (of_nat 8000))" "holds example_cells 8000 (record_image 7900 8192 0x10005 [1, 2, 3])"
    "holds example_cells 7900 (record_image 0 8000 0x10006 [9])"
    unfolding example_cells_def by (intro holds_put holds_put_other; simp add: image_length)+
  have p: "pointer_at example_cells 8192 = 8000" using holds_pointer [OF h(1)] by simp
  have rom: "pointer_at example_cells 12288 = 0"
  proof -
    have "bytes_at example_cells 12288 4 = put_uint32_le 0"
      unfolding example_cells_def
      by (rule nth_equalityI) (auto simp: put_bytes_def image_length put_uint32_le_def put_uint32_be_def nth_Cons split: nat.splits)
    then show ?thesis using holds_pointer [of example_cells 12288 0] by (simp add: holds_def)
  qed
  note a = image_fields [OF h(2)] and b = image_fields [OF h(3)]
  show "contents example_cells 8000 = (0x10005, [1, 2, 3])" "contents example_cells 7900 = (0x10006, [9])" "flash_record_size example_cells 8000 = 17"
    using a(3,4) b(4) by (simp_all add: FLASH_FILE_EXTENDED_LENGTH_def)
  show "pool_wf (example_pool rs) [8000, 7900] []"
    using p rom a(1-3) b(1-3) by (simp add: pool_wf_def example_pool_def region_wf_def links_def FLASH_DATA_HEADER_SIZE_def FLASH_FILE_EXTENDED_LENGTH_def)
qed

lemma example_cells_pool [simp]: "cells (example_pool rs) = example_cells" "results (example_pool rs) = rs"
  "data_start (example_pool rs) = 4096" "data_end (example_pool rs) = 8192"
  by (simp_all add: example_pool_def)

lemma example_file_in: "file_in example_file (if file_persistent example_file then [] else [8000, 7900])" "file_value example_cells example_file = [1, 2, 3]"
  "\<not> file_persistent example_file" "old_record example_file = {8000}"
  using example_wf(2) by (simp_all add: example_file_def file_in_def file_value_def old_record_def)

text \<open>The file grows by a write at its end; the other one is as before.\<close>

theorem flash_write_keeps_pool_witness:
  "\<exists>f' st' ds rs. flash_write_data_to_file_internal example_file [4, 5, 6] 2 True (example_pool []) = (PICOKEYS_OK, f', st') \<and>
     pool_wf st' ds rs \<and> file_value (cells st') f' = [1, 2, 4, 5, 6] \<and> contents (cells st') 7900 = (0x10006, [9])"
proof -
  obtain r f' st' where w: "flash_write_data_to_file_internal example_file [4, 5, 6] 2 True (example_pool []) = (r, f', st')" by (metis prod.exhaust)
  have ok: "write_ok example_cells example_file [4, 5, 6] 2 True" by (simp add: write_ok_def example_file_in)
  have room: "\<not> no_room example_cells 4096 8192 [8000, 7900] 5"
    unfolding no_room_def Let_def
    by (auto simp: length_size_for_def FLASH_FILE_EXTENDED_LENGTH_def SIZE_MAX_def gap_floor_def example_wf(4) intro!: exI [of _ "[8000, 7900]"] exI [of _ "[]"])
  have five: "\<And>n. outgrows (example_pool []) example_file [4, 5, 6] 2 True n \<Longrightarrow> n = 5" by (simp add: outgrows_def)
  from flash_write_keeps_pool [OF example_wf(1) example_file_in(1) _ _ w] ok room five
  show ?thesis using w example_wf(3) example_file_in by (auto simp: region_start_def region_end_def written_def)
qed

theorem flash_write_crash_safe_witness:
  "\<forall>k. after_cut example_cells (cells (snd (snd (flash_write_data_to_file_internal example_file [4, 5, 6, 7] 0 False (example_pool (replicate k Programmed @ [Power_Lost]))))))
     8192 [8000, 7900] example_file [4, 5, 6, 7] 0 False"
proof
  fix k
  let ?st = "example_pool (replicate k Programmed @ [Power_Lost])"
  obtain r f' st' where w: "flash_write_data_to_file_internal example_file [4, 5, 6, 7] 0 False ?st = (r, f', st')" by (metis prod.exhaust)
  have "write_ok example_cells example_file [4, 5, 6, 7] 0 False" by (simp add: write_ok_def)
  with flash_write_crash_safe [OF example_wf(1) example_file_in(1) _ _ w] w
  show "after_cut example_cells (cells (snd (snd (flash_write_data_to_file_internal example_file [4, 5, 6, 7] 0 False ?st)))) 8192 [8000, 7900] example_file [4, 5, 6, 7] 0 False"
    by (auto simp: region_end_def example_file_in)
qed

theorem flash_clear_removes_and_zeroes_witness:
  "\<exists>f' st' ds rs. flash_clear_file example_file (example_pool []) = (PICOKEYS_OK, f', st') \<and> pool_wf st' ds rs \<and>
     set ds \<union> set rs = {7900} \<and> contents (cells st') 7900 = (0x10006, [9]) \<and> cells st' 8014 = 0 \<and> cells st' 8016 = 0"
proof -
  obtain r f' st' where w: "flash_clear_file example_file (example_pool []) = (r, f', st')" by (metis prod.exhaust)
  have h: "length_size_of example_cells 8012 = 2"
  proof -
    have "holds example_cells 8000 (record_image 7900 8192 0x10005 [1, 2, 3])"
      unfolding example_cells_def by (intro holds_put holds_put_other; simp add: image_length)
    then have "holds example_cells 8012 (put_uint16_le 3)" by (simp add: record_image_def holds_append)
    then show ?thesis using holds_half by (fastforce simp: length_size_of_def FLASH_FILE_EXTENDED_LENGTH_def)
  qed
  have p: "file_data example_file = Some 8012" by (simp add: example_file_def)
  note R = flash_clear_removes_and_zeroes [OF example_wf(1) example_file_in(1) p _ w]
  have z: "\<forall>i < 3. cells st' (8012 + 2 + i) = 0" using R h example_file_in(2) by simp
  have "cells st' 8014 = 0" "cells st' 8016 = 0" using z [rule_format, of 0] z [rule_format, of 2] by simp_all
  moreover obtain ds rs where "pool_wf st' ds rs" "set ds \<union> set rs = {7900}" "\<forall>b \<in> set ds \<union> set rs. contents (cells st') b = contents example_cells b"
    using R by auto
  ultimately show ?thesis using R w example_wf(3) by (intro exI [of _ f'] exI [of _ st'] exI [of _ ds] exI [of _ rs]) simp
qed

theorem scan_finds_records_witness:
  "fst (scan_region (\<lambda>ns. ns = 1) False (example_pool [])) = (map (found example_cells) [8000, 7900], False)"
  using scan_finds_records [OF example_wf(1), of "\<lambda>ns. ns = 1" "[]" False] by (simp add: example_wf(2,3) ident_ok_def)

theorem clear_loses_records_below_witness:
  "\<exists>f' st'. flash_clear_file example_file (example_pool [Stopped 0]) = (PICOKEYS_OK, f', st') \<and>
     scan_records (\<lambda>ns. ns = 1) 4096 8192 (pointer_at (cells st') 8192) (cells st') = ([], True)"
proof -
  obtain r f' st' where w: "flash_clear_file example_file (example_pool [Stopped 0]) = (r, f', st')" by (metis prod.exhaust)
  have wf: "region_wf (cells (example_pool [Stopped 0])) 4096 8192 ([] @ 8000 # [7900])" using example_wf(1) [of "[Stopped 0]"] by (simp add: pool_wf_def)
  have p: "file_data example_file = Some (8000 + 12)" by (simp add: example_file_def)
  from clear_loses_records_below [OF wf p _ _ w, of "\<lambda>ns. ns = 1"] w show ?thesis by simp
qed

end
