(* ===== verification/Crypto_Utils.thy ===== *)
theory Crypto_Utils
  imports Prelude
begin

text \<open>
  The key derivation, authenticated encryption and legacy hashing of
  \<^verbatim>\<open>pico-keys-sdk/src/crypto_utils.c\<close>. The primitives of mbedTLS, the random number
  generator and the identity of the device (serial number, its hash, the first OTP key) are the fields
  of a record; everything the file computes from them is a definition. The primitives that cannot fail
  for the lengths the file passes (HKDF, HMAC and SHA-256, AES-GCM encryption with a 256-bit key) are
  total; authenticated decryption may refuse, whose code of mbedTLS appears as \<open>PICOKEYS_EXEC_ERROR\<close>. \<open>undefined_byte\<close> is what a read past the end of a buffer
  finds: the theorems hold whatever it is.
\<close>

section \<open>Primitives\<close>

record crypto =
  hkdf :: "byte list \<Rightarrow> byte list \<Rightarrow> byte list \<Rightarrow> byte list"
  md_hmac :: "byte list \<Rightarrow> byte list \<Rightarrow> byte list"
  sha256_digest :: "byte list \<Rightarrow> byte list"
  gcm_crypt_and_tag :: "byte list \<Rightarrow> byte list \<Rightarrow> byte list \<Rightarrow> byte list \<Rightarrow> byte list \<times> byte list"
  gcm_auth_decrypt :: "byte list \<Rightarrow> byte list \<Rightarrow> byte list \<Rightarrow> byte list \<Rightarrow> byte list \<Rightarrow> byte list option"
  crypt_cbc :: "bool \<Rightarrow> byte list \<Rightarrow> byte list \<Rightarrow> byte list \<Rightarrow> pk_status + byte list"
  crypt_cfb128 :: "bool \<Rightarrow> byte list \<Rightarrow> byte list \<Rightarrow> byte list \<Rightarrow> byte list"
  random_bytes :: "nat \<Rightarrow> nat \<Rightarrow> byte list"
  pico_serial_hash :: "byte list"
  pico_serial_id :: "byte list"
  otp_key_1 :: "byte list option"
  undefined_byte :: "nat \<Rightarrow> byte"

text \<open>ASCII labels.\<close>

definition label_bytes :: "string \<Rightarrow> byte list" where
  "label_bytes s = map (\<lambda>ch. of_nat (of_char ch)) s"

definition byte_at :: "crypto \<Rightarrow> byte list \<Rightarrow> nat \<Rightarrow> byte" where
  "byte_at c d i = (if i < length d then d ! i else undefined_byte c i)"

text \<open>\<open>memcpy\<close> of \<open>n\<close> bytes from the start of a buffer that may be shorter.\<close>

definition read_bytes :: "crypto \<Rightarrow> nat \<Rightarrow> byte list \<Rightarrow> byte list" where
  "read_bytes c n d = map (byte_at c d) [0 ..< n]"

section \<open>Keys derived from a PIN\<close>

definition derive_kbase :: "crypto \<Rightarrow> byte list" where
  "derive_kbase c =
     (case otp_key_1 c of
        Some k \<Rightarrow> hkdf c (pico_serial_hash c) k (label_bytes ''DEVICE/ROOT'' @ [0])
      | None \<Rightarrow> hkdf c (label_bytes ''NO-OTP'') (pico_serial_hash c) (label_bytes ''DEVICE/ROOT'' @ [0]))"

definition derive_kver :: "crypto \<Rightarrow> byte list \<Rightarrow> byte list" where
  "derive_kver c pin = md_hmac c (derive_kbase c) pin"

definition pin_derive_verifier :: "crypto \<Rightarrow> byte list \<Rightarrow> byte list" where
  "pin_derive_verifier c pin = hkdf c (pico_serial_hash c) (derive_kver c pin) (label_bytes ''PIN/VERIFY'')"

definition pin_derive_session :: "crypto \<Rightarrow> byte list \<Rightarrow> byte list" where
  "pin_derive_session c pin = hkdf c (pico_serial_hash c) (derive_kver c pin) (label_bytes ''PIN/TOKEN'')"

definition pin_derive_kenc :: "crypto \<Rightarrow> byte list \<Rightarrow> byte list" where
  "pin_derive_kenc c pin_token = hkdf c (pico_serial_hash c) pin_token (label_bytes ''PIN/ENC'')"

definition pin_derive_kenc2 :: "crypto \<Rightarrow> byte list \<Rightarrow> byte list" where
  "pin_derive_kenc2 c pin_token = hkdf c (pico_serial_hash c) (derive_kbase c @ pin_token) (label_bytes ''PIN/ENC2'')"

section \<open>Authenticated encryption\<close>

definition PIN_KDF_V1 :: nat where "PIN_KDF_V1 = 1"
definition PIN_KDF_V2 :: nat where "PIN_KDF_V2 = 2"

text \<open>The key of a version; an unknown one is refused.\<close>

definition kdf_key :: "crypto \<Rightarrow> nat \<Rightarrow> byte list \<Rightarrow> byte list option" where
  "kdf_key c version key =
     (if version = PIN_KDF_V2 then Some (pin_derive_kenc2 c key)
      else if version = PIN_KDF_V1 then Some (pin_derive_kenc c key) else None)"

text \<open>The nonce is the random draw number \<open>rng\<close>.\<close>

definition encrypt_with_aad :: "crypto \<Rightarrow> nat \<Rightarrow> byte list \<Rightarrow> byte list \<Rightarrow> nat \<Rightarrow> pk_status + byte list" where
  "encrypt_with_aad c rng key input version =
     (let nonce = random_bytes c rng 12 in
      case kdf_key c version key of
        None \<Rightarrow> Inl PICOKEYS_WRONG_DATA
      | Some kenc \<Rightarrow> (case gcm_crypt_and_tag c kenc nonce (pico_serial_hash c) input of (ct, tag) \<Rightarrow> Inr (nonce @ ct @ tag)))"

definition decrypt_with_aad :: "crypto \<Rightarrow> byte list \<Rightarrow> byte list \<Rightarrow> nat \<Rightarrow> pk_status + byte list" where
  "decrypt_with_aad c key input version =
     (if length input < 28 then Inl PICOKEYS_WRONG_LENGTH
      else case kdf_key c version key of
             None \<Rightarrow> Inl PICOKEYS_WRONG_DATA
           | Some kenc \<Rightarrow>
               (case gcm_auth_decrypt c kenc (take 12 input) (pico_serial_hash c) (bslice 12 (length input - 28) input)
                       (drop (length input - 16) input) of
                  None \<Rightarrow> Inl PICOKEYS_EXEC_ERROR
                | Some plain \<Rightarrow> Inr plain))"

section \<open>Legacy hashing\<close>

text \<open>The bytes the update loop of \<open>hash_multi\<close> feeds while \<open>iters > len\<close>, and the rest behind it.\<close>

function multi_bytes :: "nat \<Rightarrow> byte list \<Rightarrow> byte list" where
  "multi_bytes iters input =
     (if input \<noteq> [] \<and> length input < iters then input @ multi_bytes (iters - length input) input else take iters input)"
  by pat_completeness auto
termination by (relation "measure fst") auto

declare multi_bytes.simps [simp del]

definition hash_multi :: "crypto \<Rightarrow> byte list \<Rightarrow> byte list" where
  "hash_multi c input =
     (if input = [] \<or> 0xffff < length input then replicate 32 0
      else sha256_digest c (pico_serial_id c @ multi_bytes 256 input))"

definition double_hash_pin :: "crypto \<Rightarrow> byte list \<Rightarrow> byte list" where
  "double_hash_pin c pin =
     (let o1 = hash_multi c pin
      in hash_multi c (map (\<lambda>i. byte_at c o1 i XOR byte_at c pin (i mod length pin)) [0 ..< 32]))"

definition hash256 :: "crypto \<Rightarrow> byte list \<Rightarrow> byte list" where
  "hash256 c input = sha256_digest c input"

section \<open>AES\<close>

definition AES_MODE_CBC :: nat where "AES_MODE_CBC = 1"
definition AES_MODE_CFB :: nat where "AES_MODE_CFB = 2"

definition aes_iv :: "byte list option \<Rightarrow> byte list" where
  "aes_iv iv = (case iv of None \<Rightarrow> replicate 16 0 | Some v \<Rightarrow> take 16 v)"

definition aes_encrypt :: "crypto \<Rightarrow> byte list \<Rightarrow> byte list option \<Rightarrow> nat \<Rightarrow> byte list \<Rightarrow> pk_status + byte list" where
  "aes_encrypt c key iv mode data =
     (if length key \<notin> {16, 24, 32} then Inl PICOKEYS_WRONG_LENGTH
      else if mode = AES_MODE_CBC then crypt_cbc c True key (aes_iv iv) data
      else Inr (crypt_cfb128 c True key (aes_iv iv) data))"

definition aes_decrypt :: "crypto \<Rightarrow> byte list \<Rightarrow> byte list option \<Rightarrow> nat \<Rightarrow> byte list \<Rightarrow> pk_status + byte list" where
  "aes_decrypt c key iv mode data =
     (if length key \<notin> {16, 24, 32} then Inl PICOKEYS_WRONG_LENGTH
      else if mode = AES_MODE_CBC then crypt_cbc c False key (aes_iv iv) data
      else Inr (crypt_cfb128 c False key (aes_iv iv) data))"

definition aes_encrypt_cfb_256 :: "crypto \<Rightarrow> byte list \<Rightarrow> byte list \<Rightarrow> byte list \<Rightarrow> pk_status + byte list" where
  "aes_encrypt_cfb_256 c key iv data =
     (if 0xffff < length data then Inl PICOKEYS_WRONG_LENGTH else aes_encrypt c (take 32 key) (Some iv) AES_MODE_CFB data)"

definition aes_decrypt_cfb_256 :: "crypto \<Rightarrow> byte list \<Rightarrow> byte list \<Rightarrow> byte list \<Rightarrow> pk_status + byte list" where
  "aes_decrypt_cfb_256 c key iv data =
     (if 0xffff < length data then Inl PICOKEYS_WRONG_LENGTH else aes_decrypt c (take 32 key) (Some iv) AES_MODE_CFB data)"

section \<open>Checksum\<close>

definition POLY :: u32 where "POLY = 0xedb88320"

fun crc_bits :: "nat \<Rightarrow> u32 \<Rightarrow> u32" where
  "crc_bits 0 crc = crc"
| "crc_bits (Suc k) crc = crc_bits k (drop_bit 1 crc XOR (POLY AND (0 - (crc AND 1))))"

definition crc_byte :: "u32 \<Rightarrow> byte \<Rightarrow> u32" where
  "crc_byte crc b = crc_bits 8 (crc XOR ucast b)"

definition crc32c :: "byte list \<Rightarrow> u32" where
  "crc32c data = NOT (foldl crc_byte 0xffffffff data)"

section \<open>Laws\<close>

text \<open>AES-GCM opens what it has sealed, with a ciphertext as long as the text and a tag of 16 bytes.\<close>

definition gcm_ok :: "crypto \<Rightarrow> bool" where
  "gcm_ok c \<longleftrightarrow>
     (\<forall>k n a m ct tag. gcm_crypt_and_tag c k n a m = (ct, tag) \<longrightarrow>
        length ct = length m \<and> length tag = 16 \<and> gcm_auth_decrypt c k n a ct tag = Some m) \<and>
     (\<forall>i n. length (random_bytes c i n) = n)"

lemma encrypt_with_aad_ok:
  assumes "gcm_ok c" "kdf_key c version key \<noteq> None"
  shows "\<exists>sealed. encrypt_with_aad c rng key input version = Inr sealed \<and> length sealed = length input + 28 \<and>
    decrypt_with_aad c key sealed version = Inr input"
proof -
  from assms(2) obtain kenc where k: "kdf_key c version key = Some kenc" by auto
  obtain ct tag where e: "gcm_crypt_and_tag c kenc (random_bytes c rng 12) (pico_serial_hash c) input = (ct, tag)"
    by fastforce
  with assms(1) have l: "length ct = length input" "length tag = 16" "length (random_bytes c rng 12) = 12"
      "gcm_auth_decrypt c kenc (random_bytes c rng 12) (pico_serial_hash c) ct tag = Some input"
    by (auto simp: gcm_ok_def)
  then have "decrypt_with_aad c key (random_bytes c rng 12 @ ct @ tag) version = Inr input"
    using k by (simp add: decrypt_with_aad_def bslice_append_right)
  with k e l show ?thesis by (simp add: encrypt_with_aad_def)
qed

text \<open>What is fed is the input over and over, cut at \<open>iters\<close> bytes.\<close>

lemma multi_bytes_more:
  "input \<noteq> [] \<Longrightarrow> length input < iters \<Longrightarrow> multi_bytes iters input = input @ multi_bytes (iters - length input) input"
  by (subst multi_bytes.simps) simp

lemma multi_bytes_last: "iters \<le> length input \<Longrightarrow> multi_bytes iters input = take iters input"
  by (subst multi_bytes.simps) simp

lemma length_multi_bytes: "input \<noteq> [] \<Longrightarrow> length (multi_bytes iters input) = iters"
proof (induction iters input rule: multi_bytes.induct)
  case (1 iters input)
  show ?case
  proof (cases "length input < iters")
    case True
    with 1 have "length (multi_bytes (iters - length input) input) = iters - length input" by simp
    with True 1(2) show ?thesis by (simp add: multi_bytes_more)
  next
    case False
    then show ?thesis by (simp add: multi_bytes_last)
  qed
qed

lemma nth_multi_bytes: "input \<noteq> [] \<Longrightarrow> i < iters \<Longrightarrow> multi_bytes iters input ! i = input ! (i mod length input)"
proof (induction iters input arbitrary: i rule: multi_bytes.induct)
  case (1 iters input)
  show ?case
  proof (cases "length input < iters")
    case True
    with 1(2) have m: "multi_bytes iters input = input @ multi_bytes (iters - length input) input"
      by (rule multi_bytes_more)
    show ?thesis
    proof (cases "i < length input")
      case True
      with m show ?thesis by (simp add: nth_append)
    next
      case False
      then have "multi_bytes (iters - length input) input ! (i - length input) = input ! ((i - length input) mod length input)"
        using 1(1) [of "i - length input"] 1(2,3) True by simp
      with False m show ?thesis by (simp add: nth_append le_mod_geq)
    qed
  next
    case False
    with 1(3) show ?thesis by (simp add: multi_bytes_last)
  qed
qed

text \<open>A legacy verifier cannot tell a PIN from its repetitions: both are the same endless text.\<close>

lemma concat_replicate_nth:
  "xs \<noteq> [] \<Longrightarrow> j < k * length xs \<Longrightarrow> concat (replicate k xs) ! j = xs ! (j mod length xs)"
proof (induction k arbitrary: j)
  case (Suc k)
  show ?case
  proof (cases "j < length xs")
    case True
    then show ?thesis by (simp add: nth_append)
  next
    case False
    with Suc.prems have "concat (replicate k xs) ! (j - length xs) = xs ! ((j - length xs) mod length xs)"
      by (intro Suc.IH) auto
    with False show ?thesis by (simp add: nth_append le_mod_geq)
  qed
qed simp

lemma length_concat_replicate: "length (concat (replicate k xs)) = k * length xs"
  by (induction k) auto

theorem legacy_pin_repeats:
  assumes "pin \<noteq> []" "0 < k" "k * length pin \<le> 0xffff"
  shows "double_hash_pin c (concat (replicate k pin)) = double_hash_pin c pin"
proof -
  let ?p = "concat (replicate k pin)"
  have l: "length ?p = k * length pin" by (rule length_concat_replicate)
  have pos: "0 < length ?p" using assms(1,2) l by simp
  have at: "?p ! (i mod length ?p) = pin ! (i mod length pin)" for i
  proof -
    have "i mod length ?p < k * length pin" using pos l by (metis mod_less_divisor)
    then have "?p ! (i mod length ?p) = pin ! (i mod length ?p mod length pin)"
      by (rule concat_replicate_nth [OF assms(1)])
    also have "i mod length ?p mod length pin = i mod length pin" by (simp add: l mod_mod_cancel)
    finally show ?thesis .
  qed
  have "multi_bytes 256 ?p = multi_bytes 256 pin"
    using assms(1) pos at by (intro nth_equalityI) (simp_all add: length_multi_bytes nth_multi_bytes)
  moreover have "length pin \<le> 0xffff"
  proof -
    have "1 * length pin \<le> k * length pin" using assms(2) by (intro mult_le_mono1) simp
    with assms(3) show ?thesis by linarith
  qed
  ultimately have h: "hash_multi c ?p = hash_multi c pin"
    using assms pos by (auto simp: hash_multi_def l)
  have "byte_at c ?p (i mod length ?p) = byte_at c pin (i mod length pin)" for i
    using assms(1) pos at by (simp add: byte_at_def)
  with h show ?thesis by (simp add: double_hash_pin_def)
qed

end
