(* ===== verification/Hsm_Kek.thy ===== *)
theory Hsm_Kek
  imports Hsm_Keys Object_Store Crypto_Utils
begin

text \<open>
  The key hierarchy of the HSM (\<^verbatim>\<open>hsm/kek.c\<close>): the master key (MKEK) kept once under the session key
  of the user PIN and once under that of the security officer PIN, the records sealed with it, and the
  key domains whose keys (DKEK) are put together from shares.

  \<open>hsm_state\<close> holds the variables the PIN commands and the key hierarchy share: the files, the session of
  \<^verbatim>\<open>object_authorization.c\<close>, the session keys, the mask of the secure lock, the public-key authentication.
  \<open>rng\<close> numbers the draws from the random number generator, \<open>heap\<close> is the outcomes of the coming
  allocations (all succeed once it is used up). \<open>flash_commit\<close>, which only schedules work, leaves no trace
  in the contents of files.
\<close>

section \<open>State\<close>

record hsm_state =
  store :: file_store
  ses :: hsm_session
  hsm_session_pin :: "byte list"
  session_sopin :: "byte list"
  mkek_mask :: "byte list"
  has_mkek_mask :: bool
  pending_save_dkek :: byte
  file_pin1 :: "file_ref option"
  file_sopin :: "file_ref option"
  file_retries_pin1 :: "file_ref option"
  file_retries_sopin :: "file_ref option"
  puk_status :: "byte list"
  challenge :: "byte list"
  challenge_pending :: bool
  ef_puk_aut :: "file_ref option"
  dev_name :: "byte list"
  objects :: object_handles
  rng :: nat
  heap :: "bool list"

definition on_store :: "(file_store \<Rightarrow> 'a \<times> file_store) \<Rightarrow> hsm_state \<Rightarrow> 'a \<times> hsm_state" where
  "on_store f s = (case f (store s) of (r, st) \<Rightarrow> (r, s\<lparr>store := st\<rparr>))"

definition search :: "hsm_state \<Rightarrow> u16 \<Rightarrow> file_ref option" where
  "search s fid = fs_search (store s) fid"

definition fresh :: "hsm_state \<Rightarrow> nat \<times> hsm_state" where
  "fresh s = (rng s, s\<lparr>rng := rng s + 1\<rparr>)"

definition next_heap :: "hsm_state \<Rightarrow> bool \<times> hsm_state" where
  "next_heap s = (case heap s of [] \<Rightarrow> (True, s) | b # bs \<Rightarrow> (b, s\<lparr>heap := bs\<rparr>))"

definition EF_DEVOPS :: u16 where "EF_DEVOPS = 0x100E"
definition EF_MKEK :: u16 where "EF_MKEK = 0x100A"
definition EF_MKEK_SO :: u16 where "EF_MKEK_SO = 0x100B"
definition EF_PIN1 :: u16 where "EF_PIN1 = 0x1081"
definition EF_PIN1_MAX_RETRIES :: u16 where "EF_PIN1_MAX_RETRIES = 0x1082"
definition EF_PIN1_RETRIES :: u16 where "EF_PIN1_RETRIES = 0x1083"
definition EF_SOPIN :: u16 where "EF_SOPIN = 0x1088"
definition EF_SOPIN_MAX_RETRIES :: u16 where "EF_SOPIN_MAX_RETRIES = 0x1089"
definition EF_SOPIN_RETRIES :: u16 where "EF_SOPIN_RETRIES = 0x108A"
definition EF_DKEK :: u16 where "EF_DKEK = 0x1090"
definition EF_KEY_DOMAIN :: u16 where "EF_KEY_DOMAIN = 0x10A0"
definition EF_PUKAUT :: u16 where "EF_PUKAUT = 0x10C0"
definition EF_PUK :: u16 where "EF_PUK = 0x10D0"

lemmas hsm_fids = EF_DEVOPS_def EF_MKEK_def EF_MKEK_SO_def EF_PIN1_def EF_PIN1_MAX_RETRIES_def EF_PIN1_RETRIES_def
  EF_SOPIN_def EF_SOPIN_MAX_RETRIES_def EF_SOPIN_RETRIES_def EF_DKEK_def EF_KEY_DOMAIN_def EF_PUKAUT_def EF_PUK_def

definition MKEK_SIZE :: nat where "MKEK_SIZE = 48"
definition MKEK_SIZE_OLD :: nat where "MKEK_SIZE_OLD = 52"
definition MKEK_FILE_SIZE :: nat where "MKEK_FILE_SIZE = 77"
definition MKEK_OBJECT_HEADER_SIZE :: nat where "MKEK_OBJECT_HEADER_SIZE = 5"
definition DKEK_KEY_SIZE :: nat where "DKEK_KEY_SIZE = 32"

lemmas mkek_sizes = MKEK_SIZE_def MKEK_SIZE_OLD_def MKEK_FILE_SIZE_def MKEK_OBJECT_HEADER_SIZE_def DKEK_KEY_SIZE_def

definition mkek_iv :: "byte list \<Rightarrow> byte list" where "mkek_iv m = take 16 m"
definition mkek_key :: "byte list \<Rightarrow> byte list" where "mkek_key m = bslice 16 32 m"

section \<open>The master key\<close>

definition mkek_masked :: "byte list \<Rightarrow> byte list option \<Rightarrow> byte list" where
  "mkek_masked m secret =
     (case secret of None \<Rightarrow> m
      | Some k \<Rightarrow> take 16 m @ map2 (XOR) (bslice 16 32 m) k @ drop 48 m)"

text \<open>Sealing the master key into one of its two files; the result of the write is not looked at.\<close>

definition store_mkek_file :: "crypto \<Rightarrow> u16 \<Rightarrow> byte list \<Rightarrow> byte list \<Rightarrow> hsm_state \<Rightarrow> pk_status \<times> hsm_state" where
  "store_mkek_file c fid key mkek s =
     (case search s fid of
        None \<Rightarrow> (PICOKEYS_ERR_FILE_NOT_FOUND, s)
      | Some ef \<Rightarrow>
          let (n, s1) = fresh s in
          (case encrypt_with_aad c n key mkek 2 of
             Inl _ \<Rightarrow> (PICOKEYS_OK, s1)
           | Inr sealed \<Rightarrow>
               let (_, s2) = on_store (file_put_data (Some ef) (0x03 # sealed)) s1 in (PICOKEYS_OK, s2)))"

definition store_mkek :: "crypto \<Rightarrow> byte list option \<Rightarrow> hsm_state \<Rightarrow> pk_status \<times> hsm_state" where
  "store_mkek c mkek_opt s =
     (if \<not> has_session_pin (ses s) \<and> \<not> has_session_sopin (ses s) then (PICOKEYS_NO_LOGIN, s)
      else
        let (mkek, s1) = (case mkek_opt of Some m \<Rightarrow> (m, s)
                          | None \<Rightarrow> (let (n, s0) = fresh s in (random_bytes c n MKEK_SIZE, s0)));
            (r, s2) = (if has_session_pin (ses s) then store_mkek_file c EF_MKEK (hsm_session_pin s) mkek s1 else (PICOKEYS_OK, s1))
        in if r \<noteq> PICOKEYS_OK then (r, s2)
           else if has_session_sopin (ses s) then store_mkek_file c EF_MKEK_SO (session_sopin s) mkek s2
           else (PICOKEYS_OK, s2))"

text \<open>The file and the key the master key is read with: the user's when there is one.\<close>

definition mkek_source :: "hsm_state \<Rightarrow> (file_ref option \<times> byte list) option" where
  "mkek_source s =
     (if has_session_pin (ses s) \<and> file_has_data (store s) (search s EF_MKEK) then Some (search s EF_MKEK, hsm_session_pin s)
      else if has_session_sopin (ses s) \<and> file_has_data (store s) (search s EF_MKEK_SO)
      then Some (search s EF_MKEK_SO, session_sopin s)
      else None)"

definition legacy_mkek :: "crypto \<Rightarrow> byte list \<Rightarrow> byte list \<Rightarrow> hsm_state \<Rightarrow> pk_status + byte list" where
  "legacy_mkek c pin data s =
     (let m = take MKEK_SIZE_OLD data;
          m1 = (if has_mkek_mask s then mkek_masked m (Some (mkek_mask s)) else m)
      in case aes_decrypt_cfb_256 c pin (mkek_iv m1) (drop 16 m1) of
           Inl _ \<Rightarrow> Inl PICOKEYS_EXEC_ERROR
         | Inr text \<Rightarrow>
             let m2 = mkek_iv m1 @ text in
             if crc32c (mkek_key m2) \<noteq> get_uint32_le (drop 48 m2) then Inl PICOKEYS_WRONG_DKEK
             else Inr (take MKEK_SIZE (mkek_masked m2 (otp_key_1 c))))"

definition load_mkek :: "crypto \<Rightarrow> hsm_state \<Rightarrow> (pk_status + byte list) \<times> hsm_state" where
  "load_mkek c s =
     (if \<not> has_session_pin (ses s) \<and> \<not> has_session_sopin (ses s) then (Inl PICOKEYS_NO_LOGIN, s)
      else case mkek_source s of
        None \<Rightarrow> (Inl PICOKEYS_EXEC_ERROR, s)
      | Some (ef, pin) \<Rightarrow>
          let fid_size = file_get_size (store s) ef mod 0x10000;
              data = file_get_data (store s) ef
          in if fid_size = MKEK_SIZE_OLD then
               (case legacy_mkek c pin data s of
                  Inl r \<Rightarrow> (Inl r, s)
                | Inr mkek \<Rightarrow>
                    let (r, s1) = store_mkek c (Some mkek) s
                    in (if r \<noteq> PICOKEYS_OK then Inl r else Inr mkek, s1))
             else if fid_size = MKEK_FILE_SIZE then
               (if hd data = 0x03
                then (case decrypt_with_aad c pin (bslice 1 (MKEK_FILE_SIZE - 1) data) 2 of
                        Inl _ \<Rightarrow> (Inl PICOKEYS_EXEC_ERROR, s)
                      | Inr mkek \<Rightarrow> (Inr mkek, s))
                else (Inl PICOKEYS_EXEC_ERROR, s))
             else (Inl PICOKEYS_ERR_FILE_NOT_FOUND, s))"

definition mkek_encrypt :: "crypto \<Rightarrow> byte list \<Rightarrow> hsm_state \<Rightarrow> (pk_status + byte list) \<times> hsm_state" where
  "mkek_encrypt c data s =
     (case load_mkek c s of (Inl r, s1) \<Rightarrow> (Inl r, s1)
      | (Inr mkek, s1) \<Rightarrow> (aes_encrypt_cfb_256 c (mkek_key mkek) (mkek_iv mkek) data, s1))"

definition mkek_decrypt :: "crypto \<Rightarrow> byte list \<Rightarrow> hsm_state \<Rightarrow> (pk_status + byte list) \<times> hsm_state" where
  "mkek_decrypt c data s =
     (case load_mkek c s of (Inl r, s1) \<Rightarrow> (Inl r, s1)
      | (Inr mkek, s1) \<Rightarrow> (aes_decrypt_cfb_256 c (mkek_key mkek) (mkek_iv mkek) data, s1))"

section \<open>Records under the master key\<close>

definition mkek_object_magic :: "byte list" where "mkek_object_magic = [0xF0, 0x4D, 0x4B, 0x34]"

definition in_object_space :: "u16 \<Rightarrow> bool" where
  "in_object_space fid \<longleftrightarrow> drop_bit 8 fid = ucast HSM_OBJECT_PREFIX"

definition key_material_id :: "u16 \<Rightarrow> file_object_id" where
  "key_material_id fid = \<lparr>oid_namespace = HSM_OBJECT_NAMESPACE, oid_type = 1, oid_fid = fid\<rparr>"

definition mkek_store_file :: "crypto \<Rightarrow> file_ref option \<Rightarrow> byte list \<Rightarrow> hsm_state \<Rightarrow> pk_status \<times> hsm_state" where
  "mkek_store_file c file data s =
     (case file of None \<Rightarrow> (PICOKEYS_WRONG_DATA, s)
      | Some f \<Rightarrow>
          if 0xffffffff - 5 - 12 - 16 < length data then (PICOKEYS_WRONG_DATA, s)
          else let (ok, s1) = next_heap s in
            if \<not> ok then (PICOKEYS_ERR_MEMORY_FATAL, s1)
            else (case load_mkek c s1 of
                (Inl r, s2) \<Rightarrow> (r, s2)
              | (Inr mkek, s2) \<Rightarrow>
                  let (n, s3) = fresh s2 in
                  (case encrypt_with_aad c n (mkek_key mkek) data PIN_KDF_V2 of
                     Inl r \<Rightarrow> (r, s3)
                   | Inr sealed \<Rightarrow>
                       let record = 1 # mkek_object_magic @ sealed;
                           fid = file_fid (ix (store s3)) f
                       in if in_object_space fid
                          then let (ok2, s4) = next_heap s3 in on_store (file_object_put ok2 (key_material_id fid) (Some record)) s4
                          else on_store (file_put_data (Some f) record) s3)))"

section \<open>Key domains\<close>

definition dkek_fid :: "byte \<Rightarrow> u16" where "dkek_fid kd = EF_DKEK + ucast kd"

definition store_dkek_key :: "crypto \<Rightarrow> byte \<Rightarrow> byte list \<Rightarrow> hsm_state \<Rightarrow> pk_status \<times> hsm_state" where
  "store_dkek_key c kd dkek s =
     (case search s (dkek_fid kd) of None \<Rightarrow> (PICOKEYS_ERR_FILE_NOT_FOUND, s)
      | Some tf \<Rightarrow> mkek_store_file c (Some tf) dkek s)"

text \<open>Without a key the 32 bytes are read from the file, whatever its length.\<close>

definition save_dkek_key :: "crypto \<Rightarrow> byte \<Rightarrow> byte list option \<Rightarrow> hsm_state \<Rightarrow> pk_status \<times> hsm_state" where
  "save_dkek_key c kd key s =
     (case key of
        Some k \<Rightarrow> store_dkek_key c kd k s
      | None \<Rightarrow>
          (case search s (dkek_fid kd) of None \<Rightarrow> (PICOKEYS_ERR_FILE_NOT_FOUND, s)
           | Some tf \<Rightarrow> store_dkek_key c kd (read_bytes c DKEK_KEY_SIZE (file_get_data (store s) (Some tf))) s))"

definition import_dkek_share :: "byte \<Rightarrow> byte list \<Rightarrow> hsm_state \<Rightarrow> pk_status \<times> hsm_state" where
  "import_dkek_share kd share s =
     (case search s (dkek_fid kd) of None \<Rightarrow> (PICOKEYS_ERR_FILE_NOT_FOUND, s)
      | Some tf \<Rightarrow>
          let tmp = (if file_get_size (store s) (Some tf) = DKEK_KEY_SIZE then file_get_data (store s) (Some tf) else replicate 32 0);
              (_, s1) = on_store (file_put_data (Some tf) (map2 (XOR) tmp share)) s
          in (PICOKEYS_OK, s1))"

end
