(* ===== verification/Hsm_Pins.thy ===== *)
theory Hsm_Pins
  imports Hsm_Kek
begin

text \<open>
  PIN verification and public-key authentication of the HSM: \<^verbatim>\<open>hsm/sc_hsm.c\<close> (the verifier, the retry
  counters, the decision who is authenticated), \<^verbatim>\<open>hsm/cmd_verify.c\<close>, \<^verbatim>\<open>hsm/cmd_change_pin.c\<close>,
  \<^verbatim>\<open>hsm/cmd_reset_retry.c\<close>, \<^verbatim>\<open>hsm/cmd_challenge.c\<close> and \<^verbatim>\<open>hsm/cmd_external_authenticate.c\<close>. A PIN file holds
  the length of the PIN, a format byte and the verifier (or, in the old format, the length and the
  double hash); the file behind it the limit, the next one the tries left.

  A command answers its status word; \<open>puk_verify\<close>, a signature check over a certificate, is an argument.
\<close>

section \<open>Status words\<close>

definition set_res_sw :: "byte \<Rightarrow> byte \<Rightarrow> u16" where "set_res_sw sw1 sw2 = make_uint16_be sw1 sw2"

definition SW_OK :: u16 where "SW_OK = set_res_sw 0x90 0x00"
definition SW_EXEC_ERROR :: u16 where "SW_EXEC_ERROR = set_res_sw 0x64 0x00"
definition SW_MEMORY_FAILURE :: u16 where "SW_MEMORY_FAILURE = set_res_sw 0x65 0x81"
definition SW_WRONG_LENGTH :: u16 where "SW_WRONG_LENGTH = set_res_sw 0x67 0x00"
definition SW_WRONG_DATA :: u16 where "SW_WRONG_DATA = set_res_sw 0x67 0x00"
definition SW_PIN_BLOCKED :: u16 where "SW_PIN_BLOCKED = set_res_sw 0x69 0x83"
definition SW_DATA_INVALID :: u16 where "SW_DATA_INVALID = set_res_sw 0x69 0x84"
definition SW_CONDITIONS_NOT_SATISFIED :: u16 where "SW_CONDITIONS_NOT_SATISFIED = set_res_sw 0x69 0x85"
definition SW_COMMAND_NOT_ALLOWED :: u16 where "SW_COMMAND_NOT_ALLOWED = set_res_sw 0x69 0x86"
definition SW_FILE_NOT_FOUND :: u16 where "SW_FILE_NOT_FOUND = set_res_sw 0x6A 0x82"
definition SW_INCORRECT_P1P2 :: u16 where "SW_INCORRECT_P1P2 = set_res_sw 0x6A 0x86"
definition SW_REFERENCE_NOT_FOUND :: u16 where "SW_REFERENCE_NOT_FOUND = set_res_sw 0x6A 0x88"
definition SW_WRONG_P1P2 :: u16 where "SW_WRONG_P1P2 = set_res_sw 0x6B 0x00"
definition SW_RETRIES :: "byte \<Rightarrow> u16" where "SW_RETRIES n = set_res_sw 0x63 (0xc0 OR n)"

lemmas sw_defs = SW_OK_def SW_EXEC_ERROR_def SW_MEMORY_FAILURE_def SW_WRONG_LENGTH_def SW_WRONG_DATA_def SW_PIN_BLOCKED_def
  SW_DATA_INVALID_def SW_CONDITIONS_NOT_SATISFIED_def SW_COMMAND_NOT_ALLOWED_def SW_FILE_NOT_FOUND_def
  SW_INCORRECT_P1P2_def SW_REFERENCE_NOT_FOUND_def SW_WRONG_P1P2_def SW_RETRIES_def set_res_sw_def

definition HSM_OPT_RRC :: u16 where "HSM_OPT_RRC = 0x0001"
definition HSM_OPT_TRANSPORT_PIN :: u16 where "HSM_OPT_TRANSPORT_PIN = 0x0002"
definition HSM_OPT_COMBINED_AUTH :: u16 where "HSM_OPT_COMBINED_AUTH = 0x0010"
definition HSM_OPT_RRC_RESET_ONLY :: u16 where "HSM_OPT_RRC_RESET_ONLY = 0x0020"

definition MAX_PUK :: nat where "MAX_PUK = 8"

section \<open>Options and public-key authentication\<close>

definition file_read_uint8 :: "file_store \<Rightarrow> file_ref option \<Rightarrow> byte" where
  "file_read_uint8 st f = (case file_read_at st f 0 1 of (r, d) \<Rightarrow> if r = PICOKEYS_OK then hd d else 0)"

definition file_byte :: "crypto \<Rightarrow> hsm_state \<Rightarrow> file_ref option \<Rightarrow> nat \<Rightarrow> byte" where
  "file_byte c s f i = byte_at c (file_get_data (store s) f) i"

definition get_device_options :: "crypto \<Rightarrow> hsm_state \<Rightarrow> u16" where
  "get_device_options c s =
     (let ef = search s EF_DEVOPS
      in if file_has_data (store s) ef then make_uint16_be (file_byte c s ef 0) (file_byte c s ef 1) else 0)"

definition has_option :: "crypto \<Rightarrow> hsm_state \<Rightarrow> u16 \<Rightarrow> bool" where
  "has_option c s opt \<longleftrightarrow> get_device_options c s AND opt \<noteq> 0"

definition pka_enabled :: "hsm_state \<Rightarrow> bool" where
  "pka_enabled s \<longleftrightarrow>
     file_has_data (store s) (search s EF_PUKAUT) \<and> 0 < file_read_uint8 (store s) (search s EF_PUKAUT)"

definition pka_quorum_met :: "crypto \<Rightarrow> hsm_state \<Rightarrow> bool" where
  "pka_quorum_met c s \<longleftrightarrow>
     (let ef_puk = search s EF_PUKAUT;
          auts = sum_list (take (min (unat (file_byte c s ef_puk 0)) MAX_PUK) (puk_status s))
      in file_has_data (store s) ef_puk \<and> file_byte c s ef_puk 2 \<le> auts)"

definition ses_invalidate :: "hsm_state \<Rightarrow> hsm_state" where
  "ses_invalidate s = s\<lparr>ses := hsm_object_authorization_session_invalidate (ses s)\<rparr>"

definition set_authenticated :: "bool \<Rightarrow> hsm_state \<Rightarrow> hsm_state" where
  "set_authenticated b s = s\<lparr>ses := (ses s)\<lparr>isUserAuthenticated := b\<rparr>\<rparr>"

definition hsm_update_user_auth :: "crypto \<Rightarrow> hsm_state \<Rightarrow> hsm_state" where
  "hsm_update_user_auth c s =
     (if \<not> pka_enabled s then s
      else let granted = pka_quorum_met c s;
               granted = (if granted \<and> has_option c s HSM_OPT_COMBINED_AUTH then has_session_pin (ses s) else granted);
               s1 = (if granted \<and> \<not> isUserAuthenticated (ses s) then ses_invalidate s else s)
           in set_authenticated granted s1)"

section \<open>Retry counters\<close>

definition pin_fid :: "hsm_state \<Rightarrow> file_ref \<Rightarrow> u16" where
  "pin_fid s pin = file_fid (ix (store s)) pin"

definition hsm_pin_reset_retries :: "file_ref option \<Rightarrow> bool \<Rightarrow> hsm_state \<Rightarrow> pk_status \<times> hsm_state" where
  "hsm_pin_reset_retries pin_opt force s =
     (case pin_opt of None \<Rightarrow> (PICOKEYS_ERR_NULL_PARAM, s)
      | Some pin \<Rightarrow>
          let limit = search s (pin_fid s pin + 1); act = search s (pin_fid s pin + 2)
          in if limit = None \<or> act = None then (PICOKEYS_ERR_FILE_NOT_FOUND, s)
             else if file_read_uint8 (store s) act = 0 \<and> \<not> force then (PICOKEYS_ERR_BLOCKED, s)
             else on_store (file_put_data act [file_read_uint8 (store s) limit]) s)"

text \<open>The tries left, or an error.\<close>

definition pin_wrong_retry :: "file_ref option \<Rightarrow> hsm_state \<Rightarrow> (pk_status + byte) \<times> hsm_state" where
  "pin_wrong_retry pin_opt s =
     (case pin_opt of None \<Rightarrow> (Inl PICOKEYS_ERR_NULL_PARAM, s)
      | Some pin \<Rightarrow>
          let act = search s (pin_fid s pin + 2)
          in if act = None then (Inl PICOKEYS_ERR_FILE_NOT_FOUND, s)
             else let retries = file_read_uint8 (store s) act
                  in if 0 < retries
                     then let (r, s1) = on_store (file_put_data act [retries - 1]) s
                          in (if r \<noteq> PICOKEYS_OK then Inl r
                              else if retries - 1 = 0 then Inl PICOKEYS_ERR_BLOCKED else Inr (retries - 1), s1)
                     else (Inl PICOKEYS_ERR_BLOCKED, s))"

section \<open>Checking a PIN\<close>

text \<open>The session before the comparison: closed, and no longer authenticated unless public keys decide.\<close>

definition check_start :: "hsm_state \<Rightarrow> hsm_state" where
  "check_start s =
     (let s1 = ses_invalidate s;
          s2 = (if \<not> pka_enabled s1 then set_authenticated False s1 else s1)
      in s2\<lparr>ses := (ses s2)\<lparr>has_session_pin := False, has_session_sopin := False\<rparr>\<rparr>)"

text \<open>The offset of the verifier in a PIN file and the verifier of the data presented, by the file's format.\<close>

definition pin_digest :: "crypto \<Rightarrow> hsm_state \<Rightarrow> file_ref option \<Rightarrow> byte list \<Rightarrow> (nat \<times> byte list) option" where
  "pin_digest c s pin data =
     (if file_get_size (store s) pin = 33 then Some (1, double_hash_pin c data)
      else if file_get_size (store s) pin = 34 then Some (2, pin_derive_verifier c data)
      else None)"

definition pin_matches :: "crypto \<Rightarrow> hsm_state \<Rightarrow> file_ref option \<Rightarrow> byte list \<Rightarrow> bool" where
  "pin_matches c s pin data \<longleftrightarrow>
     (case pin_digest c s pin data of None \<Rightarrow> False
      | Some (off, dhash) \<Rightarrow> bslice off 32 (file_get_data (store s) pin) = dhash)"

definition open_pin_session :: "byte list \<Rightarrow> file_ref option \<Rightarrow> hsm_state \<Rightarrow> hsm_state" where
  "open_pin_session key pin s =
     (if pin = file_pin1 s then s\<lparr>hsm_session_pin := key, ses := (ses s)\<lparr>has_session_pin := True\<rparr>\<rparr>
      else if pin = file_sopin s then s\<lparr>session_sopin := key, ses := (ses s)\<lparr>has_session_sopin := True\<rparr>\<rparr>
      else s)"

text \<open>Only the session key.\<close>

definition set_session_key :: "byte list \<Rightarrow> file_ref option \<Rightarrow> hsm_state \<Rightarrow> hsm_state" where
  "set_session_key key pin s =
     (if pin = file_pin1 s then s\<lparr>hsm_session_pin := key\<rparr>
      else if pin = file_sopin s then s\<lparr>session_sopin := key\<rparr> else s)"

definition new_pin_file :: "crypto \<Rightarrow> byte \<Rightarrow> byte list \<Rightarrow> byte list" where
  "new_pin_file c len pin = len # 1 # pin_derive_verifier c pin"

text \<open>From the old format: the master key is loaded under the old session key and sealed under the new one.\<close>

definition upgrade_pin :: "crypto \<Rightarrow> file_ref option \<Rightarrow> byte list \<Rightarrow> hsm_state \<Rightarrow> pk_status \<times> hsm_state" where
  "upgrade_pin c pin data s =
     (case load_mkek c (open_pin_session (hash_multi c data) pin s) of
        (Inl r, s1) \<Rightarrow> (r, s1)
      | (Inr mkek, s1) \<Rightarrow>
          let (r, s2) = store_mkek c (Some mkek) (set_session_key (pin_derive_session c data) pin s1)
          in if r \<noteq> PICOKEYS_OK then (r, s2)
             else on_store (file_put_data pin (new_pin_file c (of_nat (length data)) data)) s2)"

definition hsm_check_pin :: "crypto \<Rightarrow> file_ref option \<Rightarrow> byte list \<Rightarrow> hsm_state \<Rightarrow> u16 \<times> hsm_state" where
  "hsm_check_pin c pin data s =
     (if \<not> file_has_data (store s) pin then (SW_REFERENCE_NOT_FOUND, s)
      else let s1 = check_start s in
        case pin_digest c s1 pin data of
          None \<Rightarrow> (SW_WRONG_DATA, s1)
        | Some (off, dhash) \<Rightarrow>
            if bslice off 32 (file_get_data (store s1) pin) \<noteq> dhash
            then (case pin_wrong_retry pin s1 of
                    (Inl _, s2) \<Rightarrow> (SW_PIN_BLOCKED, s2)
                  | (Inr retries, s2) \<Rightarrow> (SW_RETRIES retries, s2))
            else let (r, s2) = hsm_pin_reset_retries pin False s1
              in if r = PICOKEYS_ERR_BLOCKED then (SW_PIN_BLOCKED, s2)
                 else if r \<noteq> PICOKEYS_OK then (SW_MEMORY_FAILURE, s2)
                 else let (r3, s3) = (if off = 1 then upgrade_pin c pin data s2 else (PICOKEYS_OK, s2))
                   in if r3 \<noteq> PICOKEYS_OK then (SW_MEMORY_FAILURE, s3)
                      else let s4 = (if \<not> pka_enabled s3 then set_authenticated True s3 else s3);
                               s5 = hsm_update_user_auth c (open_pin_session (pin_derive_session c data) pin s4)
                        in if pending_save_dkek s5 \<noteq> 0xff
                           then let (_, s6) = save_dkek_key c (pending_save_dkek s5) None s5
                                in (SW_OK, s6\<lparr>pending_save_dkek := 0xff\<rparr>)
                           else (SW_OK, s5))"

section \<open>Commands\<close>

record pin_apdu =
  P1 :: byte
  P2 :: byte
  cdata :: "byte list"
  ne :: nat

abbreviation nc :: "pin_apdu \<Rightarrow> nat" where "nc cmd \<equiv> length (cdata cmd)"

definition hsm_cmd_verify :: "crypto \<Rightarrow> pin_apdu \<Rightarrow> hsm_state \<Rightarrow> u16 \<times> hsm_state" where
  "hsm_cmd_verify c cmd s =
     (if P1 cmd \<noteq> 0 \<or> P2 cmd AND 0x60 \<noteq> 0 then (SW_WRONG_P1P2, s)
      else if P2 cmd = 0x81 then
        if has_option c s HSM_OPT_TRANSPORT_PIN then (SW_DATA_INVALID, s)
        else if has_session_pin (ses s) \<and> nc cmd = 0 then (SW_OK, s)
        else if file_byte c s (file_pin1 s) 0 = 0 \<and> \<not> pka_enabled s then (SW_REFERENCE_NOT_FOUND, s)
        else if 0 < nc cmd then hsm_check_pin c (file_pin1 s) (cdata cmd) s
        else if file_read_uint8 (store s) (file_retries_pin1 s) = 0 then (SW_PIN_BLOCKED, s)
        else (SW_RETRIES (file_read_uint8 (store s) (file_retries_pin1 s)), s)
      else if P2 cmd = 0x88 then
        if file_read_uint8 (store s) (file_sopin s) = 0 then (SW_REFERENCE_NOT_FOUND, s)
        else if 0 < nc cmd then hsm_check_pin c (file_sopin s) (cdata cmd) s
        else if file_read_uint8 (store s) (file_retries_sopin s) = 0 then (SW_PIN_BLOCKED, s)
        else if has_session_sopin (ses s) then (SW_OK, s)
        else (SW_RETRIES (file_read_uint8 (store s) (file_retries_sopin s)), s)
      else (SW_REFERENCE_NOT_FOUND, s))"

definition hsm_pin_is_default :: "crypto \<Rightarrow> hsm_state \<Rightarrow> file_ref option \<Rightarrow> bool \<Rightarrow> bool" where
  "hsm_pin_is_default c s pin user \<longleftrightarrow>
     (let value = label_bytes (if user then ''123456'' else ''12345678'');
          size = file_get_size (store s) pin;
          verifier = (if size = 33 then of_nat (length value) # double_hash_pin c value
                      else of_nat (length value) # 1 # pin_derive_verifier c value)
      in file_has_data (store s) pin \<and> size \<in> {33, 34} \<and> file_get_data (store s) pin = verifier)"

text \<open>The status and the response.\<close>

definition hsm_cmd_get_pin_metadata :: "crypto \<Rightarrow> pin_apdu \<Rightarrow> hsm_state \<Rightarrow> u16 \<times> byte list" where
  "hsm_cmd_get_pin_metadata c cmd s =
     (if 1 < P1 cmd \<or> P2 cmd \<noteq> 0x81 \<and> P2 cmd \<noteq> 0x88 then (SW_WRONG_P1P2, [])
      else if nc cmd \<noteq> 0 then (SW_WRONG_LENGTH, [])
      else
        let user = P2 cmd = 0x81;
            pin = (if user then file_pin1 s else file_sopin s);
            left = (if user then file_retries_pin1 s else file_retries_sopin s);
            limit = search s (if user then EF_PIN1_MAX_RETRIES else EF_SOPIN_MAX_RETRIES);
            total = file_read_uint8 (store s) limit;
            remaining = file_read_uint8 (store s) left
        in if pin = None \<or> left = None \<or> limit = None \<or> \<not> file_has_data (store s) pin
              \<or> file_get_size (store s) left \<noteq> 1 \<or> file_get_size (store s) limit \<noteq> 1
           then (SW_REFERENCE_NOT_FOUND, [])
           else if total = 0 \<or> total < remaining then (SW_DATA_INVALID, [])
           else (SW_OK,
             [if P1 cmd = 1 then 2 else 1, remaining, total,
              (if file_read_uint8 (store s) pin \<noteq> 0 then 1 else 0) OR (if total = (if user then 3 else 15) then 2 else 0) OR
              (if P1 cmd = 1 \<and> hsm_pin_is_default c s pin user then 4 else 0)]))"

text \<open>The new user PIN behind the last check: master key, session, verifier.\<close>

definition rewrite_pin :: "crypto \<Rightarrow> file_ref option \<Rightarrow> byte \<Rightarrow> byte list \<Rightarrow> byte list \<Rightarrow> hsm_state \<Rightarrow> u16 \<times> hsm_state" where
  "rewrite_pin c pin len new_pin mkek s =
     (let (r, s1) = store_mkek c (Some mkek) s
      in if r \<noteq> PICOKEYS_OK then (SW_EXEC_ERROR, s1)
         else let (_, s2) = on_store (file_put_data pin (new_pin_file c len new_pin)) s1 in (SW_OK, s2))"

definition reset_user_pin :: "crypto \<Rightarrow> byte \<Rightarrow> byte list \<Rightarrow> hsm_state \<Rightarrow> u16 \<times> hsm_state" where
  "reset_user_pin c newpin_len data s =
     (let new_pin = drop (length data - unat newpin_len) data;
          (r, s1) = hsm_pin_reset_retries (file_pin1 s) True s
      in if r \<noteq> PICOKEYS_OK then (SW_MEMORY_FAILURE, s1)
         else case load_mkek c s1 of
           (Inl _, s2) \<Rightarrow> (SW_EXEC_ERROR, s2)
         | (Inr mkek, s2) \<Rightarrow>
             let s3 = ses_invalidate s2;
                 s4 = s3\<lparr>hsm_session_pin := pin_derive_session c new_pin, ses := (ses s3)\<lparr>has_session_pin := True\<rparr>\<rparr>
             in rewrite_pin c (file_pin1 s4) newpin_len new_pin mkek s4)"

definition reset_user_retries :: "hsm_state \<Rightarrow> u16 \<times> hsm_state" where
  "reset_user_retries s =
     (let (r, s1) = hsm_pin_reset_retries (file_pin1 s) True s
      in (if r \<noteq> PICOKEYS_OK then SW_MEMORY_FAILURE else SW_OK, s1))"

definition hsm_cmd_reset_retry :: "crypto \<Rightarrow> pin_apdu \<Rightarrow> hsm_state \<Rightarrow> u16 \<times> hsm_state" where
  "hsm_cmd_reset_retry c cmd s =
     (let so_pin_len = file_read_uint8 (store s) (file_sopin s) in
      if P2 cmd \<noteq> 0x81 then (SW_REFERENCE_NOT_FOUND, s)
      else if file_sopin s = None \<or> file_pin1 s = None then (SW_FILE_NOT_FOUND, s)
      else if \<not> file_has_data (store s) (file_sopin s) then (SW_REFERENCE_NOT_FOUND, s)
      else if \<not> has_option c s HSM_OPT_RRC then (SW_COMMAND_NOT_ALLOWED, s)
      else if P1 cmd = 0 then
        if nc cmd mod 0x10000 \<le> unat so_pin_len + 1 then (SW_WRONG_LENGTH, s)
        else let (r, s1) = hsm_check_pin c (file_sopin s) (take (unat so_pin_len) (cdata cmd)) s
             in if r \<noteq> SW_OK then (r, s1) else reset_user_pin c (of_nat (nc cmd) - so_pin_len) (cdata cmd) s1
      else if P1 cmd = 2 then
        if \<not> has_session_sopin (ses s) then (SW_CONDITIONS_NOT_SATISFIED, s)
        else if 16 < nc cmd then (SW_WRONG_LENGTH, s)
        else reset_user_pin c (of_nat (nc cmd)) (cdata cmd) s
      else if P1 cmd = 1 \<or> P1 cmd = 3 then
        if \<not> has_option c s HSM_OPT_RRC_RESET_ONLY then (SW_COMMAND_NOT_ALLOWED, s)
        else if P1 cmd = 1 then
          if nc cmd \<noteq> unat so_pin_len then (SW_WRONG_LENGTH, s)
          else let (r, s1) = hsm_check_pin c (file_sopin s) (take (unat so_pin_len) (cdata cmd)) s
               in if r \<noteq> SW_OK then (r, s1) else reset_user_retries s1
        else if \<not> has_session_sopin (ses s) then (SW_CONDITIONS_NOT_SATISFIED, s)
        else if nc cmd \<noteq> 0 then (SW_WRONG_LENGTH, s)
        else reset_user_retries s
      else (SW_INCORRECT_P1P2, s))"

definition hsm_cmd_change_pin :: "crypto \<Rightarrow> pin_apdu \<Rightarrow> hsm_state \<Rightarrow> u16 \<times> hsm_state" where
  "hsm_cmd_change_pin c cmd s =
     (if P1 cmd = 0 \<and> (P2 cmd = 0x81 \<or> P2 cmd = 0x88) then
        let user = P2 cmd = 0x81;
            file_pin = (if user then file_pin1 s else file_sopin s);
            pin_len = unat (file_read_uint8 (store s) file_pin)
        in if file_pin = None then (SW_FILE_NOT_FOUND, s)
           else if \<not> file_has_data (store s) file_pin then (SW_REFERENCE_NOT_FOUND, s)
           else if nc cmd \<le> pin_len \<or> 16 < nc cmd - pin_len then (SW_WRONG_LENGTH, s)
           else
             let new_pin = drop pin_len (cdata cmd);
                 (r, s1) = hsm_check_pin c file_pin (take pin_len (cdata cmd)) s
             in if r \<noteq> SW_OK then (r, s1)
                else case load_mkek c s1 of
                  (Inl _, s2) \<Rightarrow> (SW_EXEC_ERROR, s2)
                | (Inr mkek, s2) \<Rightarrow>
                    let key = pin_derive_session c new_pin;
                        s3 = (if user then s2\<lparr>hsm_session_pin := key, ses := (ses s2)\<lparr>has_session_pin := True\<rparr>\<rparr>
                              else s2\<lparr>session_sopin := key, ses := (ses s2)\<lparr>has_session_sopin := True\<rparr>\<rparr>)
                    in rewrite_pin c file_pin (of_nat (length new_pin)) new_pin mkek s3
      else (SW_WRONG_P1P2, s))"

section \<open>Public-key authentication\<close>

definition MAX_RANDOM_BUFFER :: nat where "MAX_RANDOM_BUFFER = 1024"

definition clear_pka_challenge :: "hsm_state \<Rightarrow> hsm_state" where
  "clear_pka_challenge s = s\<lparr>challenge := [], challenge_pending := False\<rparr>"

text \<open>The status and the response; \<open>challenge\<close> holds the bytes up to \<open>challenge_len\<close>.\<close>

definition hsm_cmd_challenge :: "crypto \<Rightarrow> pin_apdu \<Rightarrow> hsm_state \<Rightarrow> (u16 \<times> byte list) \<times> hsm_state" where
  "hsm_cmd_challenge c cmd s =
     (if ne cmd = 0 \<or> MAX_RANDOM_BUFFER < ne cmd then ((SW_WRONG_LENGTH, []), s)
      else let (n, s1) = fresh s;
               rb = random_bytes c n (ne cmd);
               s2 = (clear_pka_challenge s1)\<lparr>puk_status := replicate MAX_PUK 0\<rparr>
           in ((SW_OK, rb), if ne cmd \<le> 256 then s2\<lparr>challenge := rb, challenge_pending := True\<rparr> else s2))"

definition puk_index :: "hsm_state \<Rightarrow> file_ref \<Rightarrow> nat" where
  "puk_index s f = unat (pin_fid s f AND (of_nat MAX_PUK - 1))"

definition cmd_external_authenticate ::
    "crypto \<Rightarrow> (byte list \<Rightarrow> byte list \<Rightarrow> byte list \<Rightarrow> bool) \<Rightarrow> pin_apdu \<Rightarrow> hsm_state \<Rightarrow> u16 \<times> hsm_state" where
  "cmd_external_authenticate c puk_verify cmd s =
     (if P1 cmd \<noteq> 0 \<or> P2 cmd \<noteq> 0 then (SW_INCORRECT_P1P2, s)
      else case ef_puk_aut s of
        None \<Rightarrow> (SW_REFERENCE_NOT_FOUND, s)
      | Some aut \<Rightarrow>
          if nc cmd = 0 then (SW_WRONG_LENGTH, s)
          else if \<not> challenge_pending s then (SW_CONDITIONS_NOT_SATISFIED, s)
          else if \<not> file_has_data (store s) (search s EF_PUKAUT) then (SW_FILE_NOT_FOUND, s)
          else
            let i = puk_index s aut;
                s1 = s\<lparr>puk_status := (puk_status s)[i := 0]\<rparr>;
                hash = hash256 c (dev_name s @ challenge s)
            in if \<not> puk_verify (cdata cmd) hash (file_get_data (store s) (Some aut)) then (SW_CONDITIONS_NOT_SATISFIED, s1)
               else
                 let s2 = s1\<lparr>puk_status := (puk_status s1)[i := 1]\<rparr>;
                     ef_puk = search s EF_PUKAUT;
                     auts = sum_list (map (byte_at c (puk_status s2)) [0 ..< unat (file_byte c s ef_puk 0)]);
                     s3 = (if file_byte c s ef_puk 2 \<le> auts then clear_pka_challenge s2 else s2)
                 in (SW_OK, hsm_update_user_auth c s3))"

section \<open>Files\<close>

definition ACL_NONE :: "byte list" where "ACL_NONE = replicate 7 0xff"
definition ACL_ALL :: "byte list" where "ACL_ALL = replicate 7 0"
definition ACL_RO :: "byte list" where "ACL_RO = replicate 6 0xff @ [0]"
definition ACL_R_WP :: "byte list" where "ACL_R_WP = [0xff, 0xff, 0xff, 0xff, 0x90, 0x90, 0x00]"

definition sc_hsm_aid :: "byte list" where
  "sc_hsm_aid = [11, 0xE8, 0x2B, 0x06, 0x01, 0x04, 0x01, 0x81, 0xC3, 0x1F, 0x02, 0x01]"

text \<open>An entry of the table: FID, access bytes, data, parent, name, type, structure.\<close>

definition hsm_entry :: "u16 \<Rightarrow> byte list \<Rightarrow> nat option \<Rightarrow> byte \<Rightarrow> byte list option \<Rightarrow> byte \<Rightarrow> byte \<Rightarrow> file_entry" where
  "hsm_entry fid acl data parent name type structure =
     \<lparr>fe_data = data, fe_fid = fid, fe_namespace_id = 0, fe_name = name, fe_acl = acl, fe_parent = parent,
      fe_type = type, fe_ef_structure = structure\<rparr>"

text \<open>The data of the two computed files is the address of a function.\<close>

definition hsm_file_entries :: "nat \<Rightarrow> nat \<Rightarrow> file_entry list" where
  "hsm_file_entries parse_ef_dir parse_token_info =
     [
      hsm_entry 0x3f00 ACL_ALL None 0xff None 0x04 0,
      hsm_entry 0x2f00 ACL_ALL (Some parse_ef_dir) 0 None 0x81 1,
      hsm_entry 0x2f01 ACL_ALL None 0 None 0x01 1,
      hsm_entry 0x2F02 ACL_ALL None 0 None 0x61 1,
      hsm_entry 0x2f03 ACL_ALL (Some parse_token_info) 5 None 0x81 1,
      hsm_entry 0x5015 ACL_ALL None 0 None 0x04 0,
      hsm_entry 0x5031 ACL_ALL None 5 None 0x01 1,
      hsm_entry 0x5032 ACL_ALL None 5 None 0x01 1,
      hsm_entry 0x5033 ACL_ALL None 0 None 0x01 1,
      hsm_entry EF_PIN1 ACL_NONE None 5 None 0x42 1,
      hsm_entry EF_PIN1_MAX_RETRIES ACL_NONE None 5 None 0x42 1,
      hsm_entry EF_PIN1_RETRIES ACL_NONE None 5 None 0x42 1,
      hsm_entry EF_SOPIN ACL_NONE None 5 None 0x42 1,
      hsm_entry EF_SOPIN_MAX_RETRIES ACL_NONE None 5 None 0x42 1,
      hsm_entry EF_SOPIN_RETRIES ACL_NONE None 5 None 0x42 1,
      hsm_entry EF_DEVOPS ACL_NONE None 5 None 0x62 1,
      hsm_entry 0x6040 ACL_ALL None 5 None 0x01 1,
      hsm_entry 0x6041 ACL_ALL None 5 None 0x01 1,
      hsm_entry 0x6042 ACL_ALL None 5 None 0x01 1,
      hsm_entry 0x6043 ACL_ALL None 5 None 0x01 1,
      hsm_entry 0x6044 ACL_ALL None 5 None 0x01 1,
      hsm_entry 0x6045 ACL_ALL None 5 None 0x01 1,
      hsm_entry EF_KEY_DOMAIN ACL_NONE None 5 None 0x42 1,
      hsm_entry EF_META ACL_NONE None 5 None 0x42 1,
      hsm_entry EF_PUKAUT ACL_NONE None 5 None 0x42 1,
      hsm_entry 0xCC00 ACL_NONE None 5 None 0x62 1,
      hsm_entry 0xC400 ACL_RO None 5 None 0x62 1,
      hsm_entry 0xCE00 ACL_R_WP None 5 None 0x62 1,
      hsm_entry EF_MKEK ACL_NONE None 5 None 0x62 1,
      hsm_entry EF_MKEK_SO ACL_NONE None 5 None 0x62 1,
      hsm_entry 0x0000 ACL_ALL None 5 (Some sc_hsm_aid) 0x01 1,
      hsm_entry 0x0000 ACL_ALL None 0xff None 0x00 0
     ]"

definition default_file :: "u16 \<Rightarrow> byte list \<Rightarrow> hsm_state \<Rightarrow> file_ref option \<times> hsm_state" where
  "default_file fid data s =
     (case search s fid of
        None \<Rightarrow> (None, s)
      | Some f \<Rightarrow>
          if content (store s) f = None then (Some f, snd (on_store (file_put_data (Some f) data) s)) else (Some f, s))"

definition scan_files :: "hsm_state \<Rightarrow> hsm_state" where
  "scan_files s =
     (let (f1, s1) = default_file EF_PIN1 (replicate 33 0) s; s1 = s1\<lparr>file_pin1 := f1\<rparr>;
          (f2, s2) = default_file EF_SOPIN (replicate 33 0) s1; s2 = s2\<lparr>file_sopin := f2\<rparr>;
          (f3, s3) = default_file EF_PIN1_RETRIES [3] s2; s3 = s3\<lparr>file_retries_pin1 := f3\<rparr>;
          (f4, s4) = default_file EF_SOPIN_RETRIES [15] s3; s4 = s4\<lparr>file_retries_sopin := f4\<rparr>;
          (_, s5) = default_file EF_PIN1_MAX_RETRIES [3] s4;
          (_, s6) = default_file EF_SOPIN_MAX_RETRIES [15] s5
      in s6)"

text \<open>Leaving the application. The elliptic-curve context, its key type and the selected certificate it
  also forgets are not part of the state.\<close>

definition sc_hsm_unload :: "hsm_state \<Rightarrow> hsm_state" where
  "sc_hsm_unload s =
     (let s1 = ses_invalidate s
      in clear_pka_challenge
           (s1\<lparr>ses := (ses s1)\<lparr>has_session_pin := False, has_session_sopin := False, isUserAuthenticated := False\<rparr>,
              mkek_mask := replicate 32 0, has_mkek_mask := False, ef_puk_aut := None\<rparr>))"

section \<open>Files found by FID\<close>

definition own_fid :: "u16 \<Rightarrow> bool" where "own_fid fid \<longleftrightarrow> fid \<noteq> EF_PHY \<and> fid \<noteq> 0x1122"

lemma search_by_fid_own:
  assumes "own_fid fid" "file_search_by_fid i fid None 1 = Some r"
  shows "\<exists>k < length (active_entries i). r = Static (unat (active_namespace i)) k \<and> fe_fid (active_entries i ! k) = fid"
  using assms by (auto simp: file_search_by_fid_def own_fid_def find_Some_iff entry_match_def Let_def)

lemma search_dynamic_own:
  assumes "search_dynamic_file i fid = Some k"
  shows "df_fid (dynamic_file i ! k) = fid"
proof -
  have "probe (active_namespace i) fid 0 = dynamic_hash (active_namespace i) fid" by (simp add: probe_def dynamic_hash_def)
  with assms search_probe_sound [of "dynamic_file i" "active_namespace i" fid DYNAMIC_FILE_SLOTS 0 k] show ?thesis
    by (simp add: search_dynamic_file_def dkey_def)
qed

lemma search_cases:
  assumes "own_fid fid" "fs_search st fid = Some r"
  shows "(\<exists>k < length (active_entries (ix st)). r = Static (unat (active_namespace (ix st))) k \<and> fe_fid (active_entries (ix st) ! k) = fid)
    \<or> (\<exists>k. r = Dyn k \<and> df_fid (dynamic_file (ix st) ! k) = fid)"
  using assms search_by_fid_own [OF assms(1)] search_dynamic_own
  by (fastforce simp: fs_search_def file_search_def split: option.splits)

lemma search_inj:
  assumes "own_fid f" "own_fid g" "fs_search st f = Some r" "fs_search st g = Some r"
  shows "f = g"
  using search_cases [OF assms(1,3)] search_cases [OF assms(2,4)] by auto

lemma search_fid:
  assumes "own_fid fid" "unat (active_namespace (ix st)) < FILE_NAMESPACE_COUNT" "fs_search st fid = Some r"
  shows "file_fid (ix st) r = fid"
  using search_cases [OF assms(1,3)] assms(2) by (auto simp: active_entries_def)

lemma own_fids [simp]:
  "own_fid EF_DEVOPS" "own_fid EF_MKEK" "own_fid EF_MKEK_SO" "own_fid EF_PIN1" "own_fid EF_PIN1_MAX_RETRIES"
  "own_fid EF_PIN1_RETRIES" "own_fid EF_SOPIN" "own_fid EF_SOPIN_MAX_RETRIES" "own_fid EF_SOPIN_RETRIES" "own_fid EF_PUKAUT"
  by (simp_all add: own_fid_def hsm_fids EF_PHY_def)

text \<open>What an operation may change: the data of the files of some FIDs, and nothing of the rest of the files.\<close>

definition writes_only :: "u16 set \<Rightarrow> hsm_state \<Rightarrow> hsm_state \<Rightarrow> bool" where
  "writes_only F s s' \<longleftrightarrow>
     ix (store s') = ix (store s) \<and>
     (\<forall>r. (\<forall>f \<in> F. search s f \<noteq> Some r) \<longrightarrow> content (store s') r = content (store s) r) \<and>
     file_pin1 s' = file_pin1 s \<and> file_sopin s' = file_sopin s \<and>
     file_retries_pin1 s' = file_retries_pin1 s \<and> file_retries_sopin s' = file_retries_sopin s"

lemma writes_only_refl [simp]: "writes_only F s s"
  by (simp add: writes_only_def)

lemma writes_only_search: "writes_only F s s' \<Longrightarrow> search s' = search s"
  using same_ix [of "store s'" "store s"] by (auto simp: writes_only_def search_def fun_eq_iff)

lemma writes_only_trans: "writes_only F s s1 \<Longrightarrow> writes_only G s1 s2 \<Longrightarrow> F \<union> G \<subseteq> H \<Longrightarrow> writes_only H s s2"
proof -
  assume a: "writes_only F s s1" "writes_only G s1 s2" "F \<union> G \<subseteq> H"
  have s: "search s1 = search s" by (rule writes_only_search [OF a(1)])
  have "content (store s2) r = content (store s) r" if "\<forall>f \<in> H. search s f \<noteq> Some r" for r
  proof -
    from that a(3) have "\<forall>f \<in> F. search s f \<noteq> Some r" "\<forall>f \<in> G. search s1 f \<noteq> Some r" by (auto simp: s)
    with a(1,2) show ?thesis by (simp add: writes_only_def)
  qed
  with a(1,2) show ?thesis by (simp add: writes_only_def)
qed

lemma writes_only_mono: "writes_only F s s1 \<Longrightarrow> F \<subseteq> H \<Longrightarrow> writes_only H s s1"
  using writes_only_trans [OF _ writes_only_refl, of F s s1 "{}" H] by simp

text \<open>The data of a file that none of the FIDs names is as before.\<close>

lemma writes_only_content:
  assumes "writes_only F s s'" "own_fid fid" "\<forall>f \<in> F. own_fid f" "fid \<notin> F" "search s fid = Some r"
  shows "content (store s') r = content (store s) r"
proof -
  have "search s f \<noteq> Some r" if "f \<in> F" for f
    using search_inj [of f fid "store s" r] that assms(2-5) by (auto simp: search_def)
  with assms(1) show ?thesis by (simp add: writes_only_def)
qed

text \<open>What is read through a reference depends on its data alone.\<close>

lemma same_data:
  assumes "\<And>r. f = Some r \<Longrightarrow> content st' r = content st r"
  shows "file_get_data st' f = file_get_data st f" "file_has_data st' f = file_has_data st f"
    "file_get_size st' f = file_get_size st f" "file_read_uint8 st' f = file_read_uint8 st f"
proof -
  show d: "file_get_data st' f = file_get_data st f" using assms by (simp add: file_get_data_def split: option.split)
  then show z: "file_get_size st' f = file_get_size st f" by (simp add: file_get_size_def)
  with assms show "file_has_data st' f = file_has_data st f" by (cases f) (simp_all add: file_has_data_def)
  from assms d z show "file_read_uint8 st' f = file_read_uint8 st f"
    by (cases f) (simp_all add: file_read_uint8_def file_read_at_def)
qed

lemma writes_only_data:
  assumes "writes_only F s s'" "own_fid fid" "\<forall>f \<in> F. own_fid f" "fid \<notin> F"
  shows "file_get_data (store s') (search s fid) = file_get_data (store s) (search s fid)"
    "file_has_data (store s') (search s fid) = file_has_data (store s) (search s fid)"
    "file_get_size (store s') (search s fid) = file_get_size (store s) (search s fid)"
    "file_read_uint8 (store s') (search s fid) = file_read_uint8 (store s) (search s fid)"
  by (rule same_data, rule writes_only_content [OF assms], assumption)+

section \<open>Writing\<close>

text \<open>Failed writes that leave the old data: what \<^verbatim>\<open>Flash_Records\<close> and \<^verbatim>\<open>Low_Flash\<close> show of a loss of power.\<close>

definition untorn :: "hsm_state \<Rightarrow> bool" where
  "untorn s \<longleftrightarrow> (\<forall>r t. Failed r t \<in> set (flash (store s)) \<longrightarrow> t = None)"

definition healthy :: "hsm_state \<Rightarrow> bool" where
  "healthy s \<longleftrightarrow> flash (store s) = []"

lemma healthy_untorn: "healthy s \<Longrightarrow> untorn s"
  by (simp add: healthy_def untorn_def)

lemma put_step:
  assumes "on_store (file_put_data (Some f) d) s = (r, s')"
  shows "s' = s\<lparr>store := store s'\<rparr>" "ix (store s') = ix (store s)"
    "\<And>g. g \<noteq> f \<Longrightarrow> content (store s') g = content (store s) g"
    "r = PICOKEYS_OK \<Longrightarrow> content (store s') f = Some d"
    "healthy s \<Longrightarrow> r = PICOKEYS_OK \<and> healthy s'"
    "untorn s \<Longrightarrow> untorn s' \<and> (r \<noteq> PICOKEYS_OK \<longrightarrow> content (store s') = content (store s))"
proof -
  obtain st where w: "flash_write f d (store s) = (r, st)" "s' = s\<lparr>store := st\<rparr>"
    using assms by (auto simp: on_store_def file_put_data_def split: prod.splits)
  then show "s' = s\<lparr>store := store s'\<rparr>" by simp
  from flash_write_step [OF w(1)] w(2) show "ix (store s') = ix (store s)"
      "\<And>g. g \<noteq> f \<Longrightarrow> content (store s') g = content (store s) g"
      "r = PICOKEYS_OK \<Longrightarrow> content (store s') f = Some d" "healthy s \<Longrightarrow> r = PICOKEYS_OK \<and> healthy s'"
    by (simp_all add: healthy_def)
  from w show "untorn s \<Longrightarrow> untorn s' \<and> (r \<noteq> PICOKEYS_OK \<longrightarrow> content (store s') = content (store s))"
    by (fastforce simp: untorn_def flash_write_def next_outcome_def split: flash_outcome.splits list.splits if_splits)
qed

text \<open>The same for the file of a FID.\<close>

definition rest_same :: "hsm_state \<Rightarrow> hsm_state \<Rightarrow> bool" where
  "rest_same s s' \<longleftrightarrow> (\<exists>st n. s' = s\<lparr>store := st, rng := n\<rparr>)"

lemma rest_same_refl [simp]: "rest_same s s"
  unfolding rest_same_def by (rule exI [of _ "store s"], rule exI [of _ "rng s"]) simp

lemma rest_same_fields:
  assumes "rest_same s s'"
  shows "ses s' = ses s" "hsm_session_pin s' = hsm_session_pin s" "session_sopin s' = session_sopin s"
    "pending_save_dkek s' = pending_save_dkek s" "file_pin1 s' = file_pin1 s" "file_sopin s' = file_sopin s"
    "file_retries_pin1 s' = file_retries_pin1 s" "file_retries_sopin s' = file_retries_sopin s"
    "puk_status s' = puk_status s" "ef_puk_aut s' = ef_puk_aut s" "has_mkek_mask s' = has_mkek_mask s"
    "mkek_mask s' = mkek_mask s" "heap s' = heap s" "objects s' = objects s"
proof -
  obtain st n where s: "s' = s\<lparr>store := st, rng := n\<rparr>" using assms unfolding rest_same_def by blast
  show "ses s' = ses s" "hsm_session_pin s' = hsm_session_pin s" "session_sopin s' = session_sopin s"
    "pending_save_dkek s' = pending_save_dkek s" "file_pin1 s' = file_pin1 s" "file_sopin s' = file_sopin s"
    "file_retries_pin1 s' = file_retries_pin1 s" "file_retries_sopin s' = file_retries_sopin s"
    "puk_status s' = puk_status s" "ef_puk_aut s' = ef_puk_aut s" "has_mkek_mask s' = has_mkek_mask s"
    "mkek_mask s' = mkek_mask s" "heap s' = heap s" "objects s' = objects s"
    unfolding s by simp_all
qed

lemma rest_same_trans: "rest_same s s1 \<Longrightarrow> rest_same s1 s2 \<Longrightarrow> rest_same s s2"
proof -
  assume "rest_same s s1" "rest_same s1 s2"
  then obtain st n where "s2 = s\<lparr>store := st, rng := n\<rparr>" by (auto simp: rest_same_def)
  then show ?thesis unfolding rest_same_def by blast
qed

lemma hsm_put_law:
  assumes "search s fid = Some f" "on_store (file_put_data (Some f) d) s = (r, s')"
  shows "writes_only {fid} s s'" "rest_same s s'"
    "r = PICOKEYS_OK \<Longrightarrow> file_get_data (store s') (Some f) = d"
    "healthy s \<Longrightarrow> r = PICOKEYS_OK \<and> healthy s'"
    "untorn s \<Longrightarrow> untorn s' \<and> (r \<noteq> PICOKEYS_OK \<longrightarrow> content (store s') = content (store s))"
proof -
  note p = put_step [OF assms(2)]
  show "healthy s \<Longrightarrow> r = PICOKEYS_OK \<and> healthy s'"
    "untorn s \<Longrightarrow> untorn s' \<and> (r \<noteq> PICOKEYS_OK \<longrightarrow> content (store s') = content (store s))" by (fact p)+
  show "r = PICOKEYS_OK \<Longrightarrow> file_get_data (store s') (Some f) = d" using p(4) by (simp add: file_get_data_def)
  obtain st where s: "s' = s\<lparr>store := st\<rparr>" using p(1) by blast
  then have "s' = s\<lparr>store := st, rng := rng s\<rparr>" by simp
  then show "rest_same s s'" unfolding rest_same_def by blast
  from p(2,3) assms(1) show "writes_only {fid} s s'" by (auto simp: writes_only_def s)
qed

section \<open>The two PINs\<close>

definition main_fid :: "bool \<Rightarrow> u16" where "main_fid user = (if user then EF_PIN1 else EF_SOPIN)"
definition limit_fid :: "bool \<Rightarrow> u16" where "limit_fid user = (if user then EF_PIN1_MAX_RETRIES else EF_SOPIN_MAX_RETRIES)"
definition tries_fid :: "bool \<Rightarrow> u16" where "tries_fid user = (if user then EF_PIN1_RETRIES else EF_SOPIN_RETRIES)"

definition the_pin :: "hsm_state \<Rightarrow> bool \<Rightarrow> file_ref option" where
  "the_pin s user = (if user then file_pin1 s else file_sopin s)"

definition limit :: "hsm_state \<Rightarrow> bool \<Rightarrow> byte" where
  "limit s user = file_read_uint8 (store s) (search s (limit_fid user))"

definition tries :: "hsm_state \<Rightarrow> bool \<Rightarrow> byte" where
  "tries s user = file_read_uint8 (store s) (search s (tries_fid user))"

lemma own_pin_fids [simp]: "own_fid (main_fid user)" "own_fid (limit_fid user)" "own_fid (tries_fid user)"
  by (simp_all add: main_fid_def limit_fid_def tries_fid_def)

text \<open>The variables point at the files and all six files are there.\<close>

definition located :: "hsm_state \<Rightarrow> bool" where
  "located s \<longleftrightarrow>
     unat (active_namespace (ix (store s))) < FILE_NAMESPACE_COUNT \<and>
     file_retries_pin1 s = search s EF_PIN1_RETRIES \<and> file_retries_sopin s = search s EF_SOPIN_RETRIES \<and>
     (\<forall>user. the_pin s user = search s (main_fid user) \<and> search s (main_fid user) \<noteq> None \<and>
        search s (limit_fid user) \<noteq> None \<and> search s (tries_fid user) \<noteq> None)"

lemma located_pin:
  assumes "located s" "the_pin s user = Some r"
  shows "pin_fid s r + 1 = limit_fid user" "pin_fid s r + 2 = tries_fid user"
proof -
  have "fs_search (store s) (main_fid user) = Some r" using assms by (simp add: located_def search_def)
  with assms have "pin_fid s r = main_fid user"
    using search_fid [of "main_fid user" "store s" r] by (simp add: located_def pin_fid_def)
  then show "pin_fid s r + 1 = limit_fid user" "pin_fid s r + 2 = tries_fid user"
    by (simp_all add: main_fid_def limit_fid_def tries_fid_def hsm_fids)
qed

lemma located_some:
  assumes "located s"
  obtains r where "the_pin s user = Some r" "search s (main_fid user) = Some r"
  using assms by (auto simp: located_def)

lemma writes_only_located: "writes_only F s s' \<Longrightarrow> located s' = located s"
  using writes_only_search [of F s s'] by (simp add: writes_only_def located_def the_pin_def)

lemma writes_only_the_pin: "writes_only F s s' \<Longrightarrow> the_pin s' user = the_pin s user"
  by (simp add: writes_only_def the_pin_def)

lemma writes_only_tries:
  assumes "writes_only F s s'" "\<forall>f \<in> F. own_fid f"
  shows "tries_fid user \<notin> F \<Longrightarrow> tries s' user = tries s user" "limit_fid user \<notin> F \<Longrightarrow> limit s' user = limit s user"
  using writes_only_data(4) [OF assms(1) _ assms(2)] writes_only_search [OF assms(1)]
  by (simp_all add: tries_def limit_def)

lemma read_written: "file_get_data st (Some f) = [b] \<Longrightarrow> file_read_uint8 st (Some f) = b"
  by (cases "content st f") (simp_all add: file_read_uint8_def file_read_at_def file_get_size_def file_get_data_def bslice_def)

lemma wrong_retry_law:
  assumes "located s" "pin_wrong_retry (the_pin s user) s = (r, s')"
  shows "writes_only {tries_fid user} s s'" "rest_same s s'"
    "tries s user = 0 \<Longrightarrow> r = Inl PICOKEYS_ERR_BLOCKED \<and> s' = s"
    "r = Inr n \<Longrightarrow> tries s user \<noteq> 0 \<and> n = tries s user - 1 \<and> n \<noteq> 0 \<and> tries s' user = n"
    "healthy s \<Longrightarrow> tries s user \<noteq> 0 \<Longrightarrow> healthy s' \<and> tries s' user = tries s user - 1 \<and>
       r = (if tries s user = 1 then Inl PICOKEYS_ERR_BLOCKED else Inr (tries s user - 1))"
    "untorn s \<Longrightarrow> untorn s' \<and> (store s' = store s \<or> content (store s') = content (store s) \<or> file_get_data (store s') (search s (tries_fid user)) = [tries s user - 1] \<and> tries s user \<noteq> 0)"
proof -
  obtain p where p: "the_pin s user = Some p" by (rule located_some [OF assms(1)])
  obtain a where a: "search s (tries_fid user) = Some a" using assms(1) by (auto simp: located_def)
  have ta: "file_read_uint8 (store s) (Some a) = tries s user" by (simp add: tries_def a)
  have w: "pin_wrong_retry (the_pin s user) s =
     (if 0 < tries s user
      then let (r, s1) = on_store (file_put_data (Some a) [tries s user - 1]) s
           in (if r \<noteq> PICOKEYS_OK then Inl r else if tries s user - 1 = 0 then Inl PICOKEYS_ERR_BLOCKED else Inr (tries s user - 1), s1)
      else (Inl PICOKEYS_ERR_BLOCKED, s))"
    using ta by (simp add: pin_wrong_retry_def p located_pin [OF assms(1) p] a Let_def)
  obtain q s1 where q: "on_store (file_put_data (Some a) [tries s user - 1]) s = (q, s1)" by fastforce
  note l = hsm_put_law [OF a q]
  have t: "q = PICOKEYS_OK \<Longrightarrow> tries s1 user = tries s user - 1"
    using l(3) read_written [of "store s1" a] writes_only_search [OF l(1)] a by (simp add: tries_def)
  have e: "(r, s') = (if 0 < tries s user
      then (if q \<noteq> PICOKEYS_OK then Inl q else if tries s user - 1 = 0 then Inl PICOKEYS_ERR_BLOCKED else Inr (tries s user - 1), s1)
      else (Inl PICOKEYS_ERR_BLOCKED, s))"
    using assms(2) unfolding w q Let_def prod.case by (rule sym)
  from e l(1,2) show "writes_only {tries_fid user} s s'" "rest_same s s'" by (auto split: if_splits)
  from e show "tries s user = 0 \<Longrightarrow> r = Inl PICOKEYS_ERR_BLOCKED \<and> s' = s" by simp
  from e t show "r = Inr n \<Longrightarrow> tries s user \<noteq> 0 \<and> n = tries s user - 1 \<and> n \<noteq> 0 \<and> tries s' user = n"
    by (auto split: if_splits)
  from e t l(4) show "healthy s \<Longrightarrow> tries s user \<noteq> 0 \<Longrightarrow> healthy s' \<and> tries s' user = tries s user - 1 \<and>
       r = (if tries s user = 1 then Inl PICOKEYS_ERR_BLOCKED else Inr (tries s user - 1))"
    by (auto simp: word_neq_0_conv split: if_splits)
  from e l(3,5) a show "untorn s \<Longrightarrow> untorn s' \<and> (store s' = store s \<or> content (store s') = content (store s) \<or>
      file_get_data (store s') (search s (tries_fid user)) = [tries s user - 1] \<and> tries s user \<noteq> 0)"
    by (auto split: if_splits)
qed

lemma reset_retries_law:
  assumes "located s" "hsm_pin_reset_retries (the_pin s user) force s = (r, s')"
  shows "writes_only {tries_fid user} s s'" "rest_same s s'"
    "tries s user = 0 \<Longrightarrow> \<not> force \<Longrightarrow> r = PICOKEYS_ERR_BLOCKED \<and> s' = s"
    "r = PICOKEYS_OK \<Longrightarrow> (tries s user \<noteq> 0 \<or> force) \<and> tries s' user = limit s user"
    "healthy s \<Longrightarrow> tries s user \<noteq> 0 \<or> force \<Longrightarrow> healthy s' \<and> r = PICOKEYS_OK"
    "untorn s \<Longrightarrow> untorn s' \<and> (store s' = store s \<or> content (store s') = content (store s) \<or> file_get_data (store s') (search s (tries_fid user)) = [limit s user])"
proof -
  obtain p where p: "the_pin s user = Some p" by (rule located_some [OF assms(1)])
  obtain a where a: "search s (tries_fid user) = Some a" using assms(1) by (auto simp: located_def)
  obtain m where m: "search s (limit_fid user) = Some m" using assms(1) by (auto simp: located_def)
  have ta: "file_read_uint8 (store s) (Some a) = tries s user" by (simp add: tries_def a)
  have ma: "file_read_uint8 (store s) (Some m) = limit s user" by (simp add: limit_def m)
  have w: "hsm_pin_reset_retries (the_pin s user) force s =
     (if tries s user = 0 \<and> \<not> force then (PICOKEYS_ERR_BLOCKED, s)
      else on_store (file_put_data (Some a) [limit s user]) s)"
    using ta ma by (simp add: hsm_pin_reset_retries_def p located_pin [OF assms(1) p] a m Let_def)
  obtain q s1 where q: "on_store (file_put_data (Some a) [limit s user]) s = (q, s1)" by fastforce
  note l = hsm_put_law [OF a q]
  have t: "q = PICOKEYS_OK \<Longrightarrow> tries s1 user = limit s user"
    using l(3) read_written [of "store s1" a] writes_only_search [OF l(1)] a by (simp add: tries_def)
  have e: "(r, s') = (if tries s user = 0 \<and> \<not> force then (PICOKEYS_ERR_BLOCKED, s) else (q, s1))"
    using assms(2) unfolding w q Let_def prod.case by (rule sym)
  from e l(1,2) show "writes_only {tries_fid user} s s'" "rest_same s s'" by (auto split: if_splits)
  from e show "tries s user = 0 \<Longrightarrow> \<not> force \<Longrightarrow> r = PICOKEYS_ERR_BLOCKED \<and> s' = s" by simp
  from e t show "r = PICOKEYS_OK \<Longrightarrow> (tries s user \<noteq> 0 \<or> force) \<and> tries s' user = limit s user"
    by (auto split: if_splits)
  from e l(4) show "healthy s \<Longrightarrow> tries s user \<noteq> 0 \<or> force \<Longrightarrow> healthy s' \<and> r = PICOKEYS_OK"
    by (auto split: if_splits)
  from e l(3,5) a show "untorn s \<Longrightarrow> untorn s' \<and> (store s' = store s \<or> content (store s') = content (store s) \<or>
      file_get_data (store s') (search s (tries_fid user)) = [limit s user])"
    by (auto split: if_splits)
qed

section \<open>Refusals\<close>

lemma set_res_sw_eq: "set_res_sw a b = set_res_sw d e \<longleftrightarrow> a = d \<and> b = e"
proof
  assume "set_res_sw a b = set_res_sw d e"
  then have "put_uint16_be (set_res_sw a b) = put_uint16_be (set_res_sw d e)" by (rule arg_cong)
  then show "a = d \<and> b = e" unfolding set_res_sw_def put_make_uint16 by simp
qed simp

lemma sw_not_ok [simp]:
  "SW_RETRIES n \<noteq> SW_OK" "SW_PIN_BLOCKED \<noteq> SW_OK" "SW_WRONG_DATA \<noteq> SW_OK" "SW_REFERENCE_NOT_FOUND \<noteq> SW_OK"
  "SW_MEMORY_FAILURE \<noteq> SW_OK" "SW_WRONG_P1P2 \<noteq> SW_OK" "SW_DATA_INVALID \<noteq> SW_OK" "SW_FILE_NOT_FOUND \<noteq> SW_OK"
  "SW_COMMAND_NOT_ALLOWED \<noteq> SW_OK" "SW_WRONG_LENGTH \<noteq> SW_OK" "SW_CONDITIONS_NOT_SATISFIED \<noteq> SW_OK"
  "SW_INCORRECT_P1P2 \<noteq> SW_OK" "SW_EXEC_ERROR \<noteq> SW_OK" "SW_RETRIES n \<noteq> SW_PIN_BLOCKED"
  unfolding SW_RETRIES_def SW_OK_def SW_PIN_BLOCKED_def SW_WRONG_DATA_def SW_REFERENCE_NOT_FOUND_def SW_MEMORY_FAILURE_def
    SW_WRONG_P1P2_def SW_DATA_INVALID_def SW_FILE_NOT_FOUND_def SW_COMMAND_NOT_ALLOWED_def SW_WRONG_LENGTH_def
    SW_CONDITIONS_NOT_SATISFIED_def SW_INCORRECT_P1P2_def SW_EXEC_ERROR_def set_res_sw_eq
  by simp_all

definition ses_only :: "hsm_state \<Rightarrow> hsm_state \<Rightarrow> bool" where
  "ses_only s s' \<longleftrightarrow> (\<exists>x. s' = s\<lparr>ses := x\<rparr>)"

lemma ses_only_refl [simp]: "ses_only s s"
  unfolding ses_only_def by (rule exI [of _ "ses s"]) simp

lemma ses_only_facts:
  assumes "ses_only s s'"
  shows "store s' = store s" "writes_only F s s'" "located s' = located s" "tries s' = tries s" "limit s' = limit s"
    "the_pin s' = the_pin s" "search s' = search s" "pka_enabled s' = pka_enabled s" "pka_quorum_met c s' = pka_quorum_met c s"
    "has_option c s' opt = has_option c s opt" "pin_matches c s' pin data = pin_matches c s pin data"
    "pin_digest c s' pin data = pin_digest c s pin data" "pending_save_dkek s' = pending_save_dkek s"
    "file_pin1 s' = file_pin1 s" "file_sopin s' = file_sopin s" "healthy s' = healthy s" "untorn s' = untorn s"
    "mkek_mask s' = mkek_mask s" "puk_status s' = puk_status s"
proof -
  obtain x where s: "s' = s\<lparr>ses := x\<rparr>" using assms by (auto simp: ses_only_def)
  have a: "search s' = search s" by (simp add: s search_def fun_eq_iff)
  have b: "store s' = store s" by (simp add: s)
  show "store s' = store s" "writes_only F s s'" "located s' = located s" "tries s' = tries s" "limit s' = limit s"
    "the_pin s' = the_pin s" "search s' = search s" "file_pin1 s' = file_pin1 s" "file_sopin s' = file_sopin s"
    "pending_save_dkek s' = pending_save_dkek s" "mkek_mask s' = mkek_mask s" "puk_status s' = puk_status s"
    unfolding writes_only_def located_def tries_def limit_def the_pin_def fun_eq_iff a b by (simp_all add: s)
  show "pka_enabled s' = pka_enabled s" unfolding pka_enabled_def a b ..
  have o: "get_device_options c s' = get_device_options c s"
    unfolding get_device_options_def file_byte_def a b ..
  then show "has_option c s' opt = has_option c s opt" by (simp add: has_option_def)
  show "pka_quorum_met c s' = pka_quorum_met c s" unfolding pka_quorum_met_def file_byte_def a b by (simp add: s)
  show d: "pin_digest c s' pin data = pin_digest c s pin data" unfolding pin_digest_def b ..
  show "pin_matches c s' pin data = pin_matches c s pin data" unfolding pin_matches_def d b ..
  show "healthy s' = healthy s" "untorn s' = untorn s" unfolding healthy_def untorn_def b by (rule refl)+
qed

lemma check_start_law:
  "ses_only s (check_start s)" "\<not> has_session_pin (ses (check_start s))" "\<not> has_session_sopin (ses (check_start s))"
  "isUserAuthenticated (ses (check_start s)) \<longleftrightarrow> pka_enabled s \<and> isUserAuthenticated (ses s)"
  "hsm_object_session_epoch (ses (check_start s)) \<noteq> 0"
proof -
  have i: "ses_only s (ses_invalidate s)" by (auto simp: ses_only_def ses_invalidate_def)
  show "ses_only s (check_start s)"
    by (auto simp: check_start_def ses_only_def ses_invalidate_def set_authenticated_def Let_def)
  show "\<not> has_session_pin (ses (check_start s))" "\<not> has_session_sopin (ses (check_start s))"
    by (simp_all add: check_start_def Let_def)
  show "isUserAuthenticated (ses (check_start s)) \<longleftrightarrow> pka_enabled s \<and> isUserAuthenticated (ses s)"
    "hsm_object_session_epoch (ses (check_start s)) \<noteq> 0"
    using ses_only_facts(8) [OF i]
    by (simp_all add: check_start_def set_authenticated_def ses_invalidate_def
        hsm_object_authorization_session_invalidate_def Let_def)
qed

lemma check_pin_refused:
  assumes "located s" "tries s user = 0 \<or> \<not> pin_matches c s (the_pin s user) data"
    and "hsm_check_pin c (the_pin s user) data s = (sw, s')"
  shows "sw \<noteq> SW_OK" "writes_only {tries_fid user} s s'" "tries s user = 0 \<Longrightarrow> store s' = store s"
    "s' = s \<or> rest_same (check_start s) s'"
    "file_has_data (store s) (the_pin s user) \<Longrightarrow> rest_same (check_start s) s'"
proof -
  let ?s1 = "check_start s"
  note c = check_start_law(1) [of s] and f = ses_only_facts [OF check_start_law(1) [of s]]
  have main: "sw \<noteq> SW_OK \<and> writes_only {tries_fid user} s s' \<and> (tries s user = 0 \<longrightarrow> store s' = store s) \<and> rest_same ?s1 s'"
    if d: "file_has_data (store s) (the_pin s user)"
  proof -
    obtain r2 s2 where w: "pin_wrong_retry (the_pin s user) ?s1 = (r2, s2)" by fastforce
    obtain r3 s3 where q: "hsm_pin_reset_retries (the_pin s user) False ?s1 = (r3, s3)" by fastforce
    have l: "located ?s1" "the_pin ?s1 user = the_pin s user" "tries ?s1 user = tries s user" using assms(1) f by simp_all
    note lw = wrong_retry_law [OF l(1) w [folded l(2)]] and lq = reset_retries_law [OF l(1) q [folded l(2)]]
    show ?thesis
    proof (cases "pin_digest c s (the_pin s user) data")
      case None
      with assms(3) d have "sw = SW_WRONG_DATA" "s' = ?s1" by (simp_all add: hsm_check_pin_def f Let_def)
      with f(1,2) show ?thesis by simp
    next
      case (Some p)
      obtain off dhash where p: "p = (off, dhash)" by fastforce
      show ?thesis
      proof (cases "bslice off 32 (file_get_data (store s) (the_pin s user)) = dhash")
        case True
        then have "pin_matches c s (the_pin s user) data" using Some p by (simp add: pin_matches_def)
        with assms(2) have "tries ?s1 user = 0" using l(3) by simp
        with lq(3) have "r3 = PICOKEYS_ERR_BLOCKED" "s3 = ?s1" by auto
        with assms(3) d True have "sw = SW_PIN_BLOCKED" "s' = ?s1"
          by (simp_all add: hsm_check_pin_def f Let_def Some p q)
        with f(1,2) show ?thesis by simp
      next
        case False
        with assms(3) d have e: "(sw, s') = (case r2 of Inl _ \<Rightarrow> (SW_PIN_BLOCKED, s2) | Inr n \<Rightarrow> (SW_RETRIES n, s2))"
          by (simp add: hsm_check_pin_def f Let_def Some p w split: sum.splits)
        then have "s' = s2" "sw \<noteq> SW_OK" by (simp_all split: sum.splits)
        moreover have "writes_only {tries_fid user} s s2" using writes_only_trans [OF f(2) lw(1), of "{}"] by simp
        moreover have "tries s user = 0 \<longrightarrow> store s2 = store s" using lw(3) l(3) f(1) by simp
        ultimately show ?thesis using lw(2) by simp
      qed
    qed
  qed
  moreover have "sw = SW_REFERENCE_NOT_FOUND \<and> s' = s" if "\<not> file_has_data (store s) (the_pin s user)"
    using assms(3) that by (simp add: hsm_check_pin_def)
  ultimately have "sw \<noteq> SW_OK \<and> writes_only {tries_fid user} s s' \<and> (tries s user = 0 \<longrightarrow> store s' = store s) \<and>
      (s' = s \<or> rest_same ?s1 s') \<and> (file_has_data (store s) (the_pin s user) \<longrightarrow> rest_same ?s1 s')"
    by (cases "file_has_data (store s) (the_pin s user)") simp_all
  then show "sw \<noteq> SW_OK" "writes_only {tries_fid user} s s'" "tries s user = 0 \<Longrightarrow> store s' = store s"
      "s' = s \<or> rest_same ?s1 s'" "file_has_data (store s) (the_pin s user) \<Longrightarrow> rest_same ?s1 s'"
    by simp_all
qed

section \<open>Sequences of commands\<close>

datatype pin_command =
    Verify pin_apdu
  | Get_Pin_Metadata pin_apdu
  | Change_Pin pin_apdu
  | Reset_Retry pin_apdu
  | Challenge pin_apdu
  | External_Authenticate "file_ref option" pin_apdu
  | Unload

text \<open>\<open>External_Authenticate\<close> comes with the key that MSE has selected.\<close>

fun hsm_exec :: "crypto \<Rightarrow> (byte list \<Rightarrow> byte list \<Rightarrow> byte list \<Rightarrow> bool) \<Rightarrow> pin_command \<Rightarrow> hsm_state \<Rightarrow> u16 \<times> hsm_state" where
  "hsm_exec c pv (Verify cmd) s = hsm_cmd_verify c cmd s"
| "hsm_exec c pv (Get_Pin_Metadata cmd) s = (fst (hsm_cmd_get_pin_metadata c cmd s), s)"
| "hsm_exec c pv (Change_Pin cmd) s = hsm_cmd_change_pin c cmd s"
| "hsm_exec c pv (Reset_Retry cmd) s = hsm_cmd_reset_retry c cmd s"
| "hsm_exec c pv (Challenge cmd) s = (case hsm_cmd_challenge c cmd s of ((sw, _), s') \<Rightarrow> (sw, s'))"
| "hsm_exec c pv (External_Authenticate aut cmd) s = cmd_external_authenticate c pv cmd (s\<lparr>ef_puk_aut := aut\<rparr>)"
| "hsm_exec c pv Unload s = (SW_OK, sc_hsm_unload s)"

inductive run :: "('c \<Rightarrow> 's \<Rightarrow> 'r \<times> 's) \<Rightarrow> 's \<Rightarrow> ('c \<times> 'r) list \<Rightarrow> 's \<Rightarrow> bool" for exec where
  run_done: "run exec s [] s"
| run_step: "exec cmd s = (r, s1) \<Longrightarrow> run exec s1 trace s2 \<Longrightarrow> run exec s ((cmd, r) # trace) s2"

inductive_cases run_doneE: "run exec s [] s'"
inductive_cases run_stepE: "run exec s (x # trace) s'"

text \<open>An invariant of the commands that \<open>ok\<close> admits, with what it says of their answers.\<close>

locale command_invariant =
  fixes exec :: "'c \<Rightarrow> 's \<Rightarrow> 'r \<times> 's" and ok :: "'c \<Rightarrow> bool" and I :: "'s \<Rightarrow> bool" and Q :: "'c \<Rightarrow> 'r \<Rightarrow> bool"
  assumes keeps: "I s \<Longrightarrow> ok cmd \<Longrightarrow> exec cmd s = (r, s') \<Longrightarrow> I s'"
    and answers: "I s \<Longrightarrow> ok cmd \<Longrightarrow> exec cmd s = (r, s') \<Longrightarrow> Q cmd r"
begin

lemma run_keeps: "run exec s trace s' \<Longrightarrow> I s \<Longrightarrow> \<forall>(cmd, r) \<in> set trace. ok cmd \<Longrightarrow> I s'"
  by (induction rule: run.induct) (auto intro: keeps)

lemma run_answers:
  "run exec s trace s' \<Longrightarrow> I s \<Longrightarrow> \<forall>(cmd, r) \<in> set trace. ok cmd \<Longrightarrow> \<forall>(cmd, r) \<in> set trace. Q cmd r"
proof (induction rule: run.induct)
  case (run_step cmd s r s1 trace s2)
  from run_step.prems run_step.hyps(1) have "Q cmd r" "I s1" by (auto intro: keeps answers)
  with run_step show ?case by auto
qed simp

end

section \<open>A blocked PIN\<close>

definition verifier_matches :: "crypto \<Rightarrow> byte list \<Rightarrow> byte list \<Rightarrow> bool" where
  "verifier_matches c file data \<longleftrightarrow>
     length file = 33 \<and> bslice 1 32 file = double_hash_pin c data \<or>
     length file = 34 \<and> bslice 2 32 file = pin_derive_verifier c data"

lemma pin_matches_file: "pin_matches c s pin data \<longleftrightarrow> verifier_matches c (file_get_data (store s) pin) data"
  by (simp add: pin_matches_def pin_digest_def verifier_matches_def file_get_size_def)

text \<open>The data a command presents.\<close>

fun command_data :: "pin_command \<Rightarrow> byte list" where
  "command_data (Verify cmd) = cdata cmd"
| "command_data (Change_Pin cmd) = cdata cmd"
| "command_data (Reset_Retry cmd) = cdata cmd"
| "command_data _ = []"

text \<open>No beginning of the data is the PIN of that file.\<close>

definition without_pin :: "crypto \<Rightarrow> byte list \<Rightarrow> pin_command \<Rightarrow> bool" where
  "without_pin c file cmd \<longleftrightarrow> (\<forall>n. \<not> verifier_matches c file (take n (command_data cmd)))"

definition so_file :: "hsm_state \<Rightarrow> byte list" where
  "so_file s = file_get_data (store s) (file_sopin s)"

definition locked :: "byte list \<Rightarrow> hsm_state \<Rightarrow> bool" where
  "locked so s \<longleftrightarrow> located s \<and> tries s True = 0 \<and> \<not> has_session_pin (ses s) \<and> \<not> has_session_sopin (ses s) \<and> so_file s = so"

fun opens_session :: "pin_command \<Rightarrow> bool" where
  "opens_session (Verify cmd) = True"
| "opens_session (Change_Pin cmd) = True"
| "opens_session (Reset_Retry cmd) = True"
| "opens_session _ = False"

lemma located_so_file: "located s \<Longrightarrow> so_file s = file_get_data (store s) (search s EF_SOPIN)"
  by (auto simp: located_def so_file_def the_pin_def main_fid_def dest: spec [of _ False])

lemma tries_fid_apart [simp]:
  "EF_SOPIN \<noteq> tries_fid user" "EF_PIN1 \<noteq> tries_fid user" "tries_fid user \<noteq> EF_SOPIN" "tries_fid user \<noteq> EF_PIN1"
  "tries_fid True \<noteq> tries_fid False" "tries_fid user \<noteq> limit_fid user2" "tries_fid user \<noteq> main_fid user2" "main_fid user \<noteq> tries_fid user2"
  "limit_fid user \<noteq> tries_fid user2" "main_fid True \<noteq> main_fid False" "limit_fid user \<noteq> main_fid user2"
  by (simp_all add: tries_fid_def limit_fid_def main_fid_def hsm_fids)

lemma locked_check:
  assumes "locked so s" "user \<or> \<not> verifier_matches c so data" "hsm_check_pin c (the_pin s user) data s = (sw, s')"
  shows "locked so s'" "sw \<noteq> SW_OK"
proof -
  have l: "located s" "tries s True = 0" "so_file s = so" using assms(1) by (simp_all add: locked_def)
  have "tries s user = 0 \<or> \<not> pin_matches c s (the_pin s user) data"
    using assms(2) l by (cases user) (auto simp: pin_matches_file the_pin_def so_file_def)
  note r = check_pin_refused [OF l(1) this assms(3)]
  show "sw \<noteq> SW_OK" by (rule r(1))
  have n: "located s'" using l(1) writes_only_located [OF r(2)] by simp
  have "tries s' True = 0"
    using writes_only_tries(1) [OF r(2), of True] l(2) r(3) writes_only_search [OF r(2)] by (cases user) (auto simp: tries_def)
  moreover have "so_file s' = so"
    using writes_only_data(1) [OF r(2), of EF_SOPIN] l(1,3) n writes_only_search [OF r(2)] by (simp add: located_so_file)
  moreover have "\<not> has_session_pin (ses s') \<and> \<not> has_session_sopin (ses s')"
    using r(4) assms(1) check_start_law(2,3) by (auto simp: locked_def dest!: rest_same_fields(1))
  ultimately show "locked so s'" using n by (simp add: locked_def)
qed

text \<open>Nothing but the session's flags, the challenge and the public-key status changes.\<close>

definition same_files :: "hsm_state \<Rightarrow> hsm_state \<Rightarrow> bool" where
  "same_files s s' \<longleftrightarrow> store s' = store s \<and> file_pin1 s' = file_pin1 s \<and> file_sopin s' = file_sopin s \<and>
     file_retries_pin1 s' = file_retries_pin1 s \<and> file_retries_sopin s' = file_retries_sopin s \<and>
     pending_save_dkek s' = pending_save_dkek s"

lemma same_files_facts:
  assumes "same_files s s'"
  shows "located s' = located s" "tries s' = tries s" "limit s' = limit s" "so_file s' = so_file s" "the_pin s' = the_pin s" "search s' = search s"
proof -
  have a: "store s' = store s" "file_pin1 s' = file_pin1 s" "file_sopin s' = file_sopin s"
    "file_retries_pin1 s' = file_retries_pin1 s" "file_retries_sopin s' = file_retries_sopin s"
    using assms by (simp_all add: same_files_def)
  show b: "search s' = search s" by (simp add: search_def fun_eq_iff a)
  then show "located s' = located s" "tries s' = tries s" "limit s' = limit s" "so_file s' = so_file s" "the_pin s' = the_pin s"
    by (simp_all add: located_def tries_def limit_def so_file_def the_pin_def fun_eq_iff a)
qed

lemma ses_steps:
  "ses_only s (ses_invalidate s)" "ses_only s (set_authenticated b s)"
  "has_session_pin (ses (ses_invalidate s)) = has_session_pin (ses s)"
  "has_session_sopin (ses (ses_invalidate s)) = has_session_sopin (ses s)"
  "has_session_pin (ses (set_authenticated b s)) = has_session_pin (ses s)"
  "has_session_sopin (ses (set_authenticated b s)) = has_session_sopin (ses s)"
  by (auto simp: ses_only_def ses_invalidate_def set_authenticated_def hsm_object_authorization_session_invalidate_def Let_def)

lemma ses_only_trans: "ses_only s s1 \<Longrightarrow> ses_only s1 s2 \<Longrightarrow> ses_only s s2"
  by (auto simp: ses_only_def)

lemma ses_only_same_files: "ses_only s s' \<Longrightarrow> same_files s s'"
  by (auto simp: ses_only_def same_files_def)

lemma update_user_auth_fields:
  "ses_only s (hsm_update_user_auth c s)" "has_session_pin (ses (hsm_update_user_auth c s)) = has_session_pin (ses s)"
  "has_session_sopin (ses (hsm_update_user_auth c s)) = has_session_sopin (ses s)"
  by (simp_all add: hsm_update_user_auth_def Let_def ses_steps ses_only_trans [OF ses_steps(1) ses_steps(2)])

lemma same_files_trans: "same_files s s1 \<Longrightarrow> same_files s1 s2 \<Longrightarrow> same_files s s2"
  by (simp add: same_files_def)

lemma challenge_fields:
  assumes "hsm_cmd_challenge c cmd s = (r, s')"
  shows "same_files s s'" "ses s' = ses s"
  using assms by (auto simp: hsm_cmd_challenge_def clear_pka_challenge_def fresh_def same_files_def Let_def split: if_splits)

lemma external_authenticate_fields:
  assumes "cmd_external_authenticate c pv cmd s = (sw, s')"
  shows "same_files s s'" "has_session_pin (ses s') = has_session_pin (ses s)"
    "has_session_sopin (ses s') = has_session_sopin (ses s)"
proof -
  have "\<exists>x. (s' = x \<or> s' = hsm_update_user_auth c x) \<and> same_files s x \<and> ses x = ses s"
  proof (cases "ef_puk_aut s")
    case None
    with assms have "s' = s" by (auto simp: cmd_external_authenticate_def split: if_splits)
    then show ?thesis by (auto simp: same_files_def)
  next
    case (Some aut)
    let ?p = "\<lambda>v. (puk_status s)[puk_index s aut := v]"
    have "s' = s \<or> s' = s\<lparr>puk_status := ?p 0\<rparr> \<or> s' = hsm_update_user_auth c (s\<lparr>puk_status := ?p 1\<rparr>) \<or>
        s' = hsm_update_user_auth c (clear_pka_challenge (s\<lparr>puk_status := ?p 1\<rparr>))"
      using assms by (auto simp: cmd_external_authenticate_def Some Let_def split: if_splits)
    moreover have "same_files s s" "same_files s (s\<lparr>puk_status := q\<rparr>)" "same_files s (clear_pka_challenge (s\<lparr>puk_status := q\<rparr>))"
      "ses (s\<lparr>puk_status := q\<rparr>) = ses s" "ses (clear_pka_challenge (s\<lparr>puk_status := q\<rparr>)) = ses s" for q
      by (simp_all add: same_files_def clear_pka_challenge_def)
    ultimately show ?thesis by blast
  qed
  then obtain x where x: "s' = x \<or> s' = hsm_update_user_auth c x" "same_files s x" "ses x = ses s" by blast
  from x(1) show "same_files s s'"
  proof
    assume "s' = hsm_update_user_auth c x"
    with same_files_trans [OF x(2) ses_only_same_files [OF update_user_auth_fields(1) [of x c]]] show ?thesis by simp
  qed (use x(2) in simp)
  from x(1,3) show "has_session_pin (ses s') = has_session_pin (ses s)" "has_session_sopin (ses s') = has_session_sopin (ses s)"
    by (auto simp: update_user_auth_fields)
qed

lemma unload_fields:
  "same_files s (sc_hsm_unload s)" "\<not> has_session_pin (ses (sc_hsm_unload s))" "\<not> has_session_sopin (ses (sc_hsm_unload s))"
  by (simp_all add: sc_hsm_unload_def clear_pka_challenge_def ses_invalidate_def same_files_def Let_def)

lemma locked_same:
  "locked so s \<Longrightarrow> same_files s s' \<Longrightarrow> \<not> has_session_pin (ses s') \<Longrightarrow> \<not> has_session_sopin (ses s') \<Longrightarrow> locked so s'"
  by (simp add: locked_def same_files_facts)

lemma locked_step:
  assumes "locked so s" "without_pin c so cmd" "hsm_exec c pv cmd s = (sw, s')"
  shows "locked so s' \<and> (opens_session cmd \<longrightarrow> sw \<noteq> SW_OK)"
proof (cases cmd)
  case (Verify a)
  have no: "\<not> verifier_matches c so (cdata a)"
  proof -
    have "\<not> verifier_matches c so (take (length (cdata a)) (cdata a))"
      using assms(2) unfolding without_pin_def Verify command_data.simps by blast
    then show ?thesis by simp
  qed
  have v: "hsm_cmd_verify c a s = (sw, s')" using assms(3) Verify by simp
  have closed: "\<not> has_session_pin (ses s)" "\<not> has_session_sopin (ses s)" using assms(1) by (simp_all add: locked_def)
  consider "hsm_check_pin c (the_pin s True) (cdata a) s = (sw, s')" | "hsm_check_pin c (the_pin s False) (cdata a) s = (sw, s')"
    | "s' = s" "sw \<noteq> SW_OK"
    using v closed by (auto simp: hsm_cmd_verify_def the_pin_def split: if_splits)
  then show ?thesis
  proof cases
    case 1
    from locked_check [OF assms(1) _ 1] show ?thesis by simp
  next
    case 2
    from locked_check [OF assms(1) _ 2] no show ?thesis by simp
  qed (use assms(1) in simp)
next
  case (Get_Pin_Metadata a)
  with assms show ?thesis by simp
next
  case (Change_Pin a)
  let ?p = "\<lambda>user. the_pin s user" and ?d = "\<lambda>user. take (unat (file_read_uint8 (store s) (the_pin s user))) (cdata a)"
  have no: "\<not> verifier_matches c so (?d user)" for user using assms(2) Change_Pin by (simp add: without_pin_def)
  have v: "hsm_cmd_change_pin c a s = (sw, s')" using assms(3) Change_Pin by simp
  obtain r s1 where k: "hsm_check_pin c (?p (P2 a = 0x81)) (?d (P2 a = 0x81)) s = (r, s1)" by fastforce
  from locked_check [OF assms(1) _ k] no have n: "locked so s1" "r \<noteq> SW_OK" by blast+
  from v have "sw = r \<and> s' = s1 \<or> s' = s \<and> sw \<noteq> SW_OK"
    using n k by (auto simp: hsm_cmd_change_pin_def the_pin_def Let_def split: if_splits)
  with n assms(1) show ?thesis by auto
next
  case (Reset_Retry a)
  let ?d = "take (unat (file_read_uint8 (store s) (file_sopin s))) (cdata a)"
  have no: "\<not> verifier_matches c so ?d" using assms(2) Reset_Retry by (simp add: without_pin_def)
  have v: "hsm_cmd_reset_retry c a s = (sw, s')" using assms(3) Reset_Retry by simp
  obtain r s1 where k: "hsm_check_pin c (the_pin s False) ?d s = (r, s1)" by fastforce
  from locked_check [OF assms(1) _ k] no have n: "locked so s1" "r \<noteq> SW_OK" by blast+
  have closed: "\<not> has_session_sopin (ses s)" using assms(1) by (simp add: locked_def)
  from v have "sw = r \<and> s' = s1 \<or> s' = s \<and> sw \<noteq> SW_OK"
    using n k closed by (auto simp: hsm_cmd_reset_retry_def the_pin_def Let_def split: if_splits)
  with n assms(1) show ?thesis by auto
next
  case (Challenge a)
  then show ?thesis
    using assms(1,3) challenge_fields [of c a s] locked_same [OF assms(1), of s']
    by (auto simp: locked_def split: prod.splits)
next
  case (External_Authenticate aut a)
  then have e: "cmd_external_authenticate c pv a (s\<lparr>ef_puk_aut := aut\<rparr>) = (sw, s')" using assms(3) by simp
  have "same_files s s'" using external_authenticate_fields(1) [OF e] by (simp add: same_files_def)
  with external_authenticate_fields(2,3) [OF e] assms(1) External_Authenticate show ?thesis
    by (simp add: locked_def same_files_facts)
next
  case Unload
  with assms unload_fields [of s] show ?thesis by (auto intro: locked_same)
qed

interpretation lock: command_invariant "hsm_exec c pv" "without_pin c so" "locked so" "\<lambda>cmd sw. opens_session cmd \<longrightarrow> sw \<noteq> SW_OK"
  by unfold_locales (use locked_step in blast)+

text \<open>C1: once the tries of the user PIN are used up, no sequence of commands that does not contain the security
  officer PIN opens anything, whatever writes fail on the way and whatever public keys authenticate: every
  VERIFY, CHANGE PIN and RESET RETRY COUNTER in it is refused, the tries stay used up, and no operation on a
  private key is granted.\<close>

theorem blocked_pin_stays_shut:
  assumes "run (hsm_exec c pv) s trace s'" "located s" "tries s True = 0"
    and "\<not> has_session_pin (ses s)" "\<not> has_session_sopin (ses s)"
    and "\<forall>(cmd, sw) \<in> set trace. without_pin c (so_file s) cmd"
  shows "tries s' True = 0 \<and> (\<forall>operation. \<not> hsm_object_authorization_key_operation operation False (ses s')) \<and>
    (\<forall>(cmd, sw) \<in> set trace. opens_session cmd \<longrightarrow> sw \<noteq> SW_OK)"
proof -
  have l: "locked (so_file s) s" using assms(2-5) by (simp add: locked_def)
  from lock.run_keeps [OF assms(1) l assms(6)] have k: "locked (so_file s) s'" .
  then have "\<not> hsm_user_present False (ses s')" by (simp add: locked_def hsm_user_present_def)
  with k lock.run_answers [OF assms(1) l assms(6)] show ?thesis
    by (simp add: locked_def hsm_key_operation_granted)
qed

section \<open>Guessing\<close>

definition pin_file :: "hsm_state \<Rightarrow> bool \<Rightarrow> byte list" where
  "pin_file s user = file_get_data (store s) (the_pin s user)"

lemma has_pin_data: "length (pin_file s user) \<in> {33, 34} \<Longrightarrow> file_has_data (store s) (the_pin s user)"
  by (auto simp: pin_file_def file_has_data_def file_get_size_def file_get_data_def split: option.splits)

lemma check_pin_wrong:
  assumes "located s" "healthy s" "length (pin_file s user) \<in> {33, 34}" "\<not> verifier_matches c (pin_file s user) data"
    and "hsm_check_pin c (the_pin s user) data s = (sw, s')"
  shows "sw = (if unat (tries s user) \<le> 1 then SW_PIN_BLOCKED else SW_RETRIES (tries s user - 1))"
    "unat (tries s' user) = unat (tries s user) - 1" "healthy s'" "writes_only {tries_fid user} s s'" "rest_same (check_start s) s'"
proof -
  let ?s1 = "check_start s"
  note f = ses_only_facts [OF check_start_law(1) [of s]]
  have d: "file_has_data (store s) (the_pin s user)" by (rule has_pin_data [OF assms(3)])
  have nm: "\<not> pin_matches c s (the_pin s user) data" using assms(4) by (simp add: pin_matches_file pin_file_def)
  from check_pin_refused [OF assms(1) disjI2 [OF nm] assms(5)] d
  show "writes_only {tries_fid user} s s'" "rest_same ?s1 s'" by blast+
  obtain off dhash where p: "pin_digest c s (the_pin s user) data = Some (off, dhash)"
    using assms(3) by (auto simp: pin_digest_def file_get_size_def pin_file_def split: if_splits)
  obtain r2 s2 where w: "pin_wrong_retry (the_pin s user) ?s1 = (r2, s2)" by fastforce
  have l: "located ?s1" "the_pin ?s1 user = the_pin s user" "tries ?s1 user = tries s user" "healthy ?s1" using assms(1,2) f by simp_all
  note lw = wrong_retry_law [OF l(1) w [folded l(2)]]
  have "bslice off 32 (file_get_data (store s) (the_pin s user)) \<noteq> dhash"
    using nm p by (simp add: pin_matches_def)
  with assms(5) d have e: "(sw, s') = (case r2 of Inl _ \<Rightarrow> (SW_PIN_BLOCKED, s2) | Inr n \<Rightarrow> (SW_RETRIES n, s2))"
    by (simp add: hsm_check_pin_def f Let_def p w split: sum.splits)
  have n: "unat (tries s user) = 1 \<longleftrightarrow> tries s user = 1" "unat (tries s user) = 0 \<longleftrightarrow> tries s user = 0"
    by (simp_all add: word_unat_eq_iff)
  have "(sw = (if unat (tries s user) \<le> 1 then SW_PIN_BLOCKED else SW_RETRIES (tries s user - 1))) \<and>
      unat (tries s' user) = unat (tries s user) - 1 \<and> healthy s'"
  proof (cases "tries s user = 0")
    case True
    with lw(3) l have "r2 = Inl PICOKEYS_ERR_BLOCKED" "s2 = ?s1" by simp_all
    with e True l show ?thesis by simp
  next
    case False
    with lw(5) [OF l(4)] l(3) have h: "healthy s2" "tries s2 user = tries s user - 1"
      "r2 = (if tries s user = 1 then Inl PICOKEYS_ERR_BLOCKED else Inr (tries s user - 1))" by simp_all
    have "unat (tries s user - 1) = unat (tries s user) - 1" using False by (rule unat_minus_one)
    moreover have "unat (tries s user) \<le> 1 \<longleftrightarrow> tries s user = 1" using n False by linarith
    ultimately show ?thesis using e h by (simp split: if_splits)
  qed
  then show "sw = (if unat (tries s user) \<le> 1 then SW_PIN_BLOCKED else SW_RETRIES (tries s user - 1))"
    "unat (tries s' user) = unat (tries s user) - 1" "healthy s'" by blast+
qed

definition verify_user :: "byte list \<Rightarrow> pin_apdu" where
  "verify_user data = \<lparr>P1 = 0, P2 = 0x81, cdata = data, ne = 0\<rparr>"

text \<open>The user PIN is set, in one of the two formats, and VERIFY is not replaced by a transport PIN.\<close>

definition guessable :: "crypto \<Rightarrow> byte list \<Rightarrow> hsm_state \<Rightarrow> bool" where
  "guessable c file s \<longleftrightarrow> located s \<and> healthy s \<and> pin_file s True = file \<and> length file \<in> {33, 34} \<and> hd file \<noteq> 0 \<and>
     \<not> has_option c s HSM_OPT_TRANSPORT_PIN"

fun guesses :: "crypto \<Rightarrow> byte list list \<Rightarrow> hsm_state \<Rightarrow> u16 list \<times> hsm_state" where
  "guesses c [] s = ([], s)"
| "guesses c (p # ps) s =
     (let (sw, s1) = hsm_cmd_verify c (verify_user p) s; (sws, s2) = guesses c ps s1 in (sw # sws, s2))"

lemma writes_only_options:
  assumes "writes_only F s s'" "\<forall>f \<in> F. own_fid f" "EF_DEVOPS \<notin> F"
  shows "has_option c s' opt = has_option c s opt"
  using writes_only_data [OF assms(1) own_fids(1) assms(2,3)] writes_only_search [OF assms(1)]
  by (simp add: has_option_def get_device_options_def file_byte_def Let_def)

lemma writes_only_pka:
  assumes "writes_only F s s'" "\<forall>f \<in> F. own_fid f" "EF_PUKAUT \<notin> F"
  shows "pka_enabled s' = pka_enabled s" "puk_status s' = puk_status s \<Longrightarrow> pka_quorum_met c s' = pka_quorum_met c s"
  using writes_only_data [OF assms(1) own_fids(10) assms(2,3)] writes_only_search [OF assms(1)]
  by (simp_all add: pka_enabled_def pka_quorum_met_def file_byte_def Let_def)

lemma tries_fid_else [simp]: "EF_DEVOPS \<noteq> tries_fid user" "EF_PUKAUT \<noteq> tries_fid user" "EF_MKEK \<noteq> tries_fid user" "EF_MKEK_SO \<noteq> tries_fid user"
  by (simp_all add: tries_fid_def hsm_fids)

lemma located_pin_file: "located s \<Longrightarrow> pin_file s user = file_get_data (store s) (search s (main_fid user))"
  by (simp add: located_def pin_file_def)

lemma writes_only_pin_file:
  assumes "writes_only F s s'" "\<forall>f \<in> F. own_fid f" "main_fid user \<notin> F" "located s"
  shows "pin_file s' user = pin_file s user"
  using writes_only_data(1) [OF assms(1) own_pin_fids(1) assms(2,3)] writes_only_search [OF assms(1)] assms(4)
    writes_only_located [OF assms(1)] by (simp add: located_pin_file)

lemma wrong_guess:
  assumes "guessable c file s" "p \<noteq> []" "\<not> verifier_matches c file p" "hsm_cmd_verify c (verify_user p) s = (sw, s')"
  shows "guessable c file s'" "unat (tries s' True) = unat (tries s True) - 1"
    "sw = (if unat (tries s True) \<le> 1 then SW_PIN_BLOCKED else SW_RETRIES (tries s True - 1))"
proof -
  have g: "located s" "healthy s" "length (pin_file s True) \<in> {33, 34}" "\<not> verifier_matches c (pin_file s True) p"
    using assms(1,3) by (auto simp: guessable_def)
  have "file_byte c s (file_pin1 s) 0 \<noteq> 0"
    using assms(1) by (cases "pin_file s True") (auto simp: guessable_def file_byte_def byte_at_def pin_file_def the_pin_def)
  then have k: "hsm_check_pin c (the_pin s True) p s = (sw, s')"
    using assms by (simp add: hsm_cmd_verify_def verify_user_def guessable_def the_pin_def)
  note w = check_pin_wrong [OF g k]
  show "unat (tries s' True) = unat (tries s True) - 1"
    "sw = (if unat (tries s True) \<le> 1 then SW_PIN_BLOCKED else SW_RETRIES (tries s True - 1))" by (fact w)+
  show "guessable c file s'"
    using assms(1) w(3) writes_only_located [OF w(4)] writes_only_pin_file [OF w(4), of True] writes_only_options [OF w(4)]
    by (simp add: guessable_def)
qed

lemma guesses_law:
  assumes "guessable c file s" "\<forall>p \<in> set ps. p \<noteq> [] \<and> \<not> verifier_matches c file p" "guesses c ps s = (sws, s')"
  shows "guessable c file s' \<and> unat (tries s' True) = unat (tries s True) - length ps \<and>
    sws = map (\<lambda>i. if Suc i < unat (tries s True) then SW_RETRIES (of_nat (unat (tries s True) - Suc i)) else SW_PIN_BLOCKED)
      [0 ..< length ps]"
  using assms
proof (induction ps arbitrary: s sws)
  case Nil
  then show ?case by simp
next
  case (Cons p ps)
  obtain sw s1 where v: "hsm_cmd_verify c (verify_user p) s = (sw, s1)" by fastforce
  obtain rest s2 where g: "guesses c ps s1 = (rest, s2)" by fastforce
  let ?t = "unat (tries s True)"
  from Cons.prems have n: "p \<noteq> []" "\<not> verifier_matches c file p" by simp_all
  note w = wrong_guess [OF Cons.prems(1) n v]
  from Cons.prems(2,3) v g have s: "s2 = s'" "sws = sw # rest" by simp_all
  from Cons.IH [OF w(1) _ g [unfolded s(1)]] Cons.prems(2)
  have r: "guessable c file s'" "unat (tries s' True) = ?t - 1 - length ps"
    "rest = map (\<lambda>i. if Suc i < ?t - 1 then SW_RETRIES (of_nat (?t - 1 - Suc i)) else SW_PIN_BLOCKED) [0 ..< length ps]"
    by (simp_all add: w(2))
  have "1 < ?t \<Longrightarrow> tries s True - 1 = of_nat (?t - Suc 0)"
  proof -
    assume "1 < ?t"
    then have "unat (tries s True - 1) = ?t - 1" by (intro unat_minus_one) auto
    then have "of_nat (unat (tries s True - 1)) = (of_nat (?t - Suc 0) :: byte)" by simp
    then show ?thesis by simp
  qed
  with w(3) have "sw = (if Suc 0 < ?t then SW_RETRIES (of_nat (?t - Suc 0)) else SW_PIN_BLOCKED)" by auto
  with r s show ?case by (simp add: map_upt_Suc less_diff_conv cong: if_cong del: upt_Suc)
qed

text \<open>C5: wrong user PINs use up the tries one by one: as many as the counter says are answered with what is left,
  the last of them and every one after it with blocked.\<close>

theorem wrong_guesses_use_up_tries:
  assumes "guessable c file s" "\<forall>p \<in> set ps. p \<noteq> [] \<and> \<not> verifier_matches c file p" "guesses c ps s = (sws, s')"
  shows "unat (tries s' True) = unat (tries s True) - length ps \<and>
    sws = map (\<lambda>i. if Suc i < unat (tries s True) then SW_RETRIES (of_nat (unat (tries s True) - Suc i)) else SW_PIN_BLOCKED)
      [0 ..< length ps]"
  using guesses_law [OF assms] by blast

section \<open>An example\<close>

text \<open>A device with user PIN 1234 and security officer PIN 567890, both master-key files and the options 0x0031.\<close>

definition crypto_example :: crypto where
  "crypto_example =
     \<lparr>hkdf = (\<lambda>salt key info. map (\<lambda>b. b + of_nat (length info)) (take 32 (key @ replicate 32 0))),
      md_hmac = (\<lambda>key data. take 32 (data @ replicate 32 0)),
      sha256_digest = (\<lambda>data. replicate 32 (sum_list data)),
      gcm_crypt_and_tag = (\<lambda>key nonce aad text. (text, replicate 16 (sum_list key + sum_list text))),
      gcm_auth_decrypt = (\<lambda>key nonce aad ct tag. if tag = replicate 16 (sum_list key + sum_list ct) then Some ct else None),
      crypt_cbc = (\<lambda>enc key iv data. Inr data), crypt_cfb128 = (\<lambda>enc key iv data. data),
      random_bytes = (\<lambda>i n. replicate n (of_nat i)), pico_serial_hash = [7], pico_serial_id = [7], otp_key_1 = None,
      undefined_byte = (\<lambda>i. 0)\<rparr>"

definition pin_index :: file_index where
  "pin_index = index_example\<lparr>namespaces := [[], [], [], map (fe_namespace_id_update (\<lambda>_. 3)) (hsm_file_entries 0 0)],
     active_namespace := 3\<rparr>"

definition sealed_example :: "byte list \<Rightarrow> byte list \<Rightarrow> byte list" where
  "sealed_example pin mkek =
     0x03 # (case encrypt_with_aad crypto_example 0 (pin_derive_session crypto_example pin) mkek 2 of Inr d \<Rightarrow> d)"

definition pin_content :: "byte \<Rightarrow> byte list option \<Rightarrow> file_ref \<Rightarrow> byte list option" where
  "pin_content left puks f =
     (if f = Static 3 9 then Some (new_pin_file crypto_example 4 [1, 2, 3, 4])
      else if f = Static 3 12 then Some (new_pin_file crypto_example 6 [5, 6, 7, 8, 9, 0])
      else if f = Static 3 10 then Some [3] else if f = Static 3 11 then Some [left]
      else if f = Static 3 13 then Some [15] else if f = Static 3 14 then Some [15]
      else if f = Static 3 15 then Some [0x00, 0x31]
      else if f = Static 3 24 then puks
      else if f = Static 3 28 then Some (sealed_example [1, 2, 3, 4] (replicate 48 5))
      else if f = Static 3 29 then Some (sealed_example [5, 6, 7, 8, 9, 0] (replicate 48 5))
      else None)"

definition pin_state :: "byte \<Rightarrow> byte list option \<Rightarrow> hsm_state" where
  "pin_state left puks =
     \<lparr>store = \<lparr>ix = pin_index, content = pin_content left puks, flash = []\<rparr>,
      ses = \<lparr>hsm_object_session_epoch = 1, hsm_object_secure_messaging = False, isUserAuthenticated = False,
        has_session_pin = False, has_session_sopin = False\<rparr>,
      hsm_session_pin = [], session_sopin = [], mkek_mask = [], has_mkek_mask = False, pending_save_dkek = 0xff,
      file_pin1 = Some (Static 3 9), file_sopin = Some (Static 3 12), file_retries_pin1 = Some (Static 3 11),
      file_retries_sopin = Some (Static 3 14), puk_status = replicate 8 0, challenge = [], challenge_pending = False,
      ef_puk_aut = None, dev_name = [], objects = no_handles, rng = 0, heap = []\<rparr>"

lemma pin_index_search:
  "file_search pin_index EF_PIN1 = Some (Static 3 9)" "file_search pin_index EF_PIN1_MAX_RETRIES = Some (Static 3 10)"
  "file_search pin_index EF_PIN1_RETRIES = Some (Static 3 11)" "file_search pin_index EF_SOPIN = Some (Static 3 12)"
  "file_search pin_index EF_SOPIN_MAX_RETRIES = Some (Static 3 13)" "file_search pin_index EF_SOPIN_RETRIES = Some (Static 3 14)"
  "file_search pin_index EF_DEVOPS = Some (Static 3 15)" "file_search pin_index EF_PUKAUT = Some (Static 3 24)"
  "file_search pin_index EF_MKEK = Some (Static 3 28)" "file_search pin_index EF_MKEK_SO = Some (Static 3 29)"
  by (simp_all add: file_search_def file_search_by_fid_def pin_index_def active_entries_def hsm_file_entries_def hsm_entry_def
      entry_match_def spec_match_def hsm_fids EF_META_def EF_PHY_def upt_rec_numeral nth_Cons_numeral)

lemma pin_state_search [simp]:
  "search (pin_state n q) EF_PIN1 = Some (Static 3 9)" "search (pin_state n q) EF_PIN1_MAX_RETRIES = Some (Static 3 10)"
  "search (pin_state n q) EF_PIN1_RETRIES = Some (Static 3 11)" "search (pin_state n q) EF_SOPIN = Some (Static 3 12)"
  "search (pin_state n q) EF_SOPIN_MAX_RETRIES = Some (Static 3 13)" "search (pin_state n q) EF_SOPIN_RETRIES = Some (Static 3 14)"
  "search (pin_state n q) EF_DEVOPS = Some (Static 3 15)" "search (pin_state n q) EF_PUKAUT = Some (Static 3 24)"
  "search (pin_state n q) EF_MKEK = Some (Static 3 28)" "search (pin_state n q) EF_MKEK_SO = Some (Static 3 29)"
  by (simp_all add: search_def fs_search_def pin_state_def pin_index_search)

lemma pin_state_data [simp]:
  "file_get_data (store (pin_state n q)) (Some f) = (case pin_content n q f of None \<Rightarrow> [] | Some d \<Rightarrow> d)"
  by (simp add: pin_state_def file_get_data_def)

lemma pin_state_located [simp]: "located (pin_state n q)"
  unfolding located_def by (simp add: main_fid_def limit_fid_def tries_fid_def the_pin_def)
    (simp add: pin_state_def pin_index_def index_consts)

lemma pin_state_tries [simp]: "tries (pin_state n q) True = n"
  by (simp add: tries_def tries_fid_def) (rule read_written, simp add: pin_content_def)

lemma length_example_pin_file [simp]: "length (new_pin_file crypto_example k pin) = 34"
  by (simp add: new_pin_file_def pin_derive_verifier_def derive_kver_def crypto_example_def)

lemma example_matches:
  "verifier_matches crypto_example (new_pin_file crypto_example k pin) data \<longleftrightarrow>
     pin_derive_verifier crypto_example pin = pin_derive_verifier crypto_example data"
proof -
  have "length (pin_derive_verifier crypto_example pin) = 32"
    by (simp add: pin_derive_verifier_def derive_kver_def crypto_example_def)
  then show ?thesis by (simp add: verifier_matches_def) (simp add: new_pin_file_def bslice_def)
qed

definition pad32 :: "byte list \<Rightarrow> byte list" where "pad32 data = take 32 (data @ replicate 32 0)"

lemma hd_pad32: "hd (pad32 data) = (if data = [] then 0 else hd data)"
  by (cases data) (simp_all add: pad32_def)

lemma example_verifier:
  "pin_derive_verifier crypto_example pin = map (\<lambda>b. b + 10) (pad32 pin)"
  by (simp add: pin_derive_verifier_def derive_kver_def crypto_example_def label_bytes_def pad32_def min_def)

lemma example_verifier_eq:
  "pin_derive_verifier crypto_example pin = pin_derive_verifier crypto_example data \<longleftrightarrow> pad32 pin = pad32 data"
  unfolding example_verifier by (rule inj_map_eq_map) (simp add: inj_on_def)

lemma pin_state_fields [simp]:
  "file_pin1 (pin_state n q) = Some (Static 3 9)" "file_sopin (pin_state n q) = Some (Static 3 12)"
  "flash (store (pin_state n q)) = []" "pending_save_dkek (pin_state n q) = 0xff" "has_session_pin (ses (pin_state n q)) = False"
  "has_session_sopin (ses (pin_state n q)) = False" "puk_status (pin_state n q) = replicate 8 0"
  by (simp_all add: pin_state_def)

lemma pin_state_has_data [simp]:
  "file_has_data (store (pin_state n q)) (Some f) \<longleftrightarrow> pin_content n q f \<noteq> None \<and> the (pin_content n q f) \<noteq> []"
  by (cases "pin_content n q f") (auto simp: file_has_data_def file_get_size_def pin_state_def file_get_data_def)

lemma pin_state_options: "get_device_options c (pin_state n q) = 0x31"
proof -
  have "make_uint16_be 0 0x31 = 0x31" by (simp add: make_uint16_be_def)
  then show ?thesis by (simp add: get_device_options_def file_byte_def byte_at_def Let_def pin_content_def)
qed

lemma pin_state_guessable: "guessable crypto_example (new_pin_file crypto_example 4 [1, 2, 3, 4]) (pin_state n None)"
  by (simp add: guessable_def pin_file_def the_pin_def healthy_def pin_content_def has_option_def pin_state_options HSM_OPT_TRANSPORT_PIN_def)
    (simp add: new_pin_file_def)

theorem wrong_guesses_use_up_tries_witness:
  "fst (guesses crypto_example [[9], [8], [7]] (pin_state 2 None)) = [SW_RETRIES 1, SW_PIN_BLOCKED, SW_PIN_BLOCKED]"
proof -
  let ?f = "new_pin_file crypto_example 4 [1, 2, 3, 4]" and ?ps = "[[9], [8], [7]] :: byte list list"
  have "\<forall>p \<in> set ?ps. p \<noteq> [] \<and> \<not> verifier_matches crypto_example ?f p"
    by (simp add: example_matches example_verifier_eq pad32_def)
  moreover obtain sws s' where g: "guesses crypto_example ?ps (pin_state 2 None) = (sws, s')" by fastforce
  ultimately have "sws = map (\<lambda>i. if Suc i < 2 then SW_RETRIES (of_nat (2 - Suc i)) else SW_PIN_BLOCKED) [0 ..< length ?ps]"
    using wrong_guesses_use_up_tries [OF pin_state_guessable, of ?ps 2 sws s'] by simp
  with g show ?thesis by (simp add: upt_rec del: guesses.simps)
qed

text \<open>The right PIN against a blocked one.\<close>

theorem blocked_pin_stays_shut_witness:
  "fst (hsm_exec crypto_example (\<lambda>_ _ _. True) (Verify (verify_user [1, 2, 3, 4])) (pin_state 0 None)) \<noteq> SW_OK \<and>
     \<not> hsm_object_authorization_key_operation 4 False
       (ses (snd (hsm_exec crypto_example (\<lambda>_ _ _. True) (Verify (verify_user [1, 2, 3, 4])) (pin_state 0 None))))"
proof -
  let ?c = crypto_example and ?cmd = "Verify (verify_user [1, 2, 3, 4])"
  obtain sw s' where e: "hsm_exec ?c (\<lambda>_ _ _. True) ?cmd (pin_state 0 None) = (sw, s')" by fastforce
  have r: "run (hsm_exec ?c (\<lambda>_ _ _. True)) (pin_state 0 None) [(?cmd, sw)] s'"
    by (rule run_step [where ?s1.0 = s']) (rule e, rule run_done)
  have "so_file (pin_state 0 None) = new_pin_file ?c 6 [5, 6, 7, 8, 9, 0]"
    by (simp add: so_file_def pin_content_def)
  moreover have "pad32 [5, 6, 7, 8, 9, 0] \<noteq> pad32 (take n [1, 2, 3, 4])" for n
  proof
    assume "pad32 [5, 6, 7, 8, 9, 0] = pad32 (take n [1, 2, 3, 4])"
    then have "hd (pad32 [5, 6, 7, 8, 9, 0]) = hd (pad32 (take n [1, 2, 3, 4]))" by simp
    then show False by (cases n) (simp_all add: hd_pad32)
  qed
  ultimately have "\<forall>(cmd, sw) \<in> set [(?cmd, sw)]. without_pin ?c (so_file (pin_state 0 None)) cmd"
    by (simp add: without_pin_def example_matches example_verifier_eq verify_user_def)
  from blocked_pin_stays_shut [OF r pin_state_located pin_state_tries _ _ this]
  show ?thesis unfolding e by simp
qed

end
