(* ===== verification/Hsm_Access.thy ===== *)
theory Hsm_Access
  imports Hsm_Pins
begin

text \<open>
  What the PIN commands of \<^verbatim>\<open>Hsm_Pins\<close> achieve when they succeed: whose session is open and what it may
  do after a PIN has been accepted, that the files of the PINs stay well formed whatever writes fail,
  and that changing or resetting a PIN keeps the master key of \<^verbatim>\<open>Hsm_Kek\<close> readable.
\<close>

section \<open>The master key\<close>

definition mkek_fids :: "u16 set" where "mkek_fids = {EF_MKEK, EF_MKEK_SO}"

text \<open>A step of the key hierarchy: only the files of some FIDs change, and the numbering of random draws.\<close>

definition quiet :: "u16 set \<Rightarrow> hsm_state \<Rightarrow> hsm_state \<Rightarrow> bool" where
  "quiet F s s' \<longleftrightarrow> writes_only F s s' \<and> rest_same s s' \<and> (healthy s \<longrightarrow> healthy s') \<and> (untorn s \<longrightarrow> untorn s')"

lemma quiet_refl [simp]: "quiet F s s"
  by (simp add: quiet_def)

lemma quiet_trans: "quiet F s s1 \<Longrightarrow> quiet F s1 s2 \<Longrightarrow> quiet F s s2"
  unfolding quiet_def by (auto intro: rest_same_trans writes_only_trans [where F = F and G = F])

lemma quiet_mono: "quiet F s s' \<Longrightarrow> F \<subseteq> H \<Longrightarrow> quiet H s s'"
  unfolding quiet_def by (auto intro: writes_only_mono)

lemma quiet_ses: "quiet F s s' \<Longrightarrow> ses s' = ses s"
  by (auto simp: quiet_def dest: rest_same_fields(1))

lemma quiet_put: "search s fid = Some f \<Longrightarrow> on_store (file_put_data (Some f) d) s = (r, s') \<Longrightarrow> quiet {fid} s s'"
  unfolding quiet_def using hsm_put_law [of s fid f d r s'] by blast

lemma quiet_fresh: "fresh s = (n, s') \<Longrightarrow> quiet F s s' \<and> store s' = store s"
proof -
  assume "fresh s = (n, s')"
  then have s: "s' = s\<lparr>rng := rng s + 1\<rparr>" by (auto simp: fresh_def)
  then have "s' = s\<lparr>store := store s, rng := rng s + 1\<rparr>" by simp
  then have "rest_same s s'" unfolding rest_same_def by blast
  with s show ?thesis by (simp add: quiet_def writes_only_def healthy_def untorn_def)
qed

lemma store_mkek_file_quiet:
  assumes "store_mkek_file c fid key mkek s = (r, s')"
  shows "quiet {fid} s s'"
proof (cases "search s fid")
  case None
  with assms show ?thesis by (simp add: store_mkek_file_def)
next
  case (Some ef)
  obtain n s1 where f: "fresh s = (n, s1)" by fastforce
  note q = quiet_fresh [OF f, of "{fid}"]
  have e: "search s1 fid = Some ef" using Some q by (simp add: search_def)
  show ?thesis
  proof (cases "encrypt_with_aad c n key mkek 2")
    case (Inl x)
    with assms Some f q show ?thesis by (simp add: store_mkek_file_def)
  next
    case (Inr sealed)
    obtain q2 s2 where p: "on_store (file_put_data (Some ef) (0x03 # sealed)) s1 = (q2, s2)" by fastforce
    with assms Some f Inr have "s' = s2" by (simp add: store_mkek_file_def)
    with quiet_put [OF e p] q show ?thesis by (blast intro: quiet_trans)
  qed
qed

lemma store_mkek_quiet:
  assumes "store_mkek c m s = (r, s')"
  shows "quiet mkek_fids s s'"
proof (cases "has_session_pin (ses s) \<or> has_session_sopin (ses s)")
  case False
  with assms show ?thesis by (simp add: store_mkek_def)
next
  case True
  obtain mkek s1 where d: "(case m of Some x \<Rightarrow> (x, s) | None \<Rightarrow> (let (n, s0) = fresh s in (random_bytes c n MKEK_SIZE, s0))) = (mkek, s1)"
    by fastforce
  have q1: "quiet mkek_fids s s1"
    using d quiet_fresh [of s] by (cases m) (auto split: prod.splits)
  obtain r2 s2 where k: "(if has_session_pin (ses s) then store_mkek_file c EF_MKEK (hsm_session_pin s) mkek s1 else (PICOKEYS_OK, s1)) = (r2, s2)"
    by fastforce
  have q2: "quiet mkek_fids s1 s2"
    using k store_mkek_file_quiet [of c EF_MKEK "hsm_session_pin s" mkek s1 r2 s2]
    by (auto simp: mkek_fids_def split: if_splits intro: quiet_mono)
  have "s' = s2 \<or> (\<exists>r3. store_mkek_file c EF_MKEK_SO (session_sopin s) mkek s2 = (r3, s'))"
    using assms True d k by (auto simp: store_mkek_def Let_def split: if_splits)
  then have q3: "quiet mkek_fids s2 s'"
  proof
    assume "\<exists>r3. store_mkek_file c EF_MKEK_SO (session_sopin s) mkek s2 = (r3, s')"
    then have "quiet {EF_MKEK_SO} s2 s'" using store_mkek_file_quiet by blast
    then show ?thesis by (rule quiet_mono) (simp add: mkek_fids_def)
  qed simp
  from q1 q2 q3 show ?thesis by (blast intro: quiet_trans)
qed

lemma load_mkek_quiet:
  assumes "load_mkek c s = (r, s')"
  shows "quiet mkek_fids s s'"
proof -
  have "s' = s \<or> (\<exists>m r2. store_mkek c m s = (r2, s'))"
    using assms by (auto simp: load_mkek_def Let_def split: if_splits option.splits sum.splits prod.splits)
  with store_mkek_quiet show ?thesis by auto
qed

section \<open>The key domain waiting for a login\<close>

definition dkek_fids :: "u16 set" where "dkek_fids = dkek_fid ` {kd. unat kd < 16}"

definition pending_ok :: "hsm_state \<Rightarrow> bool" where
  "pending_ok s \<longleftrightarrow> pending_save_dkek s = 0xff \<or> unat (pending_save_dkek s) < 16"

lemma unat_dkek_fid: "unat kd < 16 \<Longrightarrow> unat (dkek_fid kd) = 0x1090 + unat kd"
proof -
  assume k: "unat kd < 16"
  have "unat (ucast kd :: u16) = unat kd"
    using k by (simp add: unsigned_ucast_eq take_bit_nat_eq_self)
  moreover have "unat (0x1090 :: u16) + unat (ucast kd :: u16) < 2 ^ LENGTH(16)" using k calculation by simp
  ultimately show ?thesis unfolding dkek_fid_def EF_DKEK_def by (simp add: unat_add_lem [THEN iffD1])
qed

lemma dkek_fid_apart: "f \<in> dkek_fids \<Longrightarrow> 0x1090 \<le> unat f \<and> unat f < 0x10A0"
  by (auto simp: dkek_fids_def unat_dkek_fid)

lemma not_dkek [simp]:
  "EF_DEVOPS \<notin> dkek_fids" "EF_MKEK \<notin> dkek_fids" "EF_MKEK_SO \<notin> dkek_fids" "EF_PUKAUT \<notin> dkek_fids" "main_fid user \<notin> dkek_fids"
  "tries_fid user \<notin> dkek_fids" "limit_fid user \<notin> dkek_fids"
  by (auto simp: main_fid_def tries_fid_def limit_fid_def hsm_fids dest!: dkek_fid_apart split: if_splits)

lemma own_dkek: "f \<in> dkek_fids \<Longrightarrow> own_fid f"
  by (auto simp: own_fid_def EF_PHY_def dest!: dkek_fid_apart)

lemma dkek_not_object: "f \<in> dkek_fids \<Longrightarrow> \<not> in_object_space f"
proof
  assume f: "f \<in> dkek_fids" and o: "in_object_space f"
  have "unat (drop_bit 8 f) = unat f div 256" by (simp add: drop_bit_eq_div unat_div_distrib)
  moreover have "unat f div 256 = 16" using dkek_fid_apart [OF f] by (intro div_nat_eqI) simp_all
  moreover have "unat (ucast HSM_OBJECT_PREFIX :: u16) = 0xC7" by (simp add: HSM_OBJECT_PREFIX_def)
  ultimately show False using o by (simp add: in_object_space_def)
qed

text \<open>Saving may also use up allocations.\<close>

definition almost_quiet :: "u16 set \<Rightarrow> hsm_state \<Rightarrow> hsm_state \<Rightarrow> bool" where
  "almost_quiet F s s' \<longleftrightarrow> (\<exists>h. quiet F (s\<lparr>heap := h\<rparr>) s')"

lemma quiet_heap: "quiet F s s' \<Longrightarrow> quiet F (s\<lparr>heap := h\<rparr>) (s'\<lparr>heap := h\<rparr>)"
proof -
  assume q: "quiet F s s'"
  then obtain st n where s: "s' = s\<lparr>store := st, rng := n\<rparr>" by (auto simp: quiet_def rest_same_def)
  then have "s'\<lparr>heap := h\<rparr> = s\<lparr>heap := h, store := st, rng := n\<rparr>" by simp
  then have "rest_same (s\<lparr>heap := h\<rparr>) (s'\<lparr>heap := h\<rparr>)" unfolding rest_same_def by blast
  with q show ?thesis by (simp add: quiet_def writes_only_def search_def healthy_def untorn_def)
qed

lemma save_dkek_quiet:
  assumes "unat (active_namespace (ix (store s))) < FILE_NAMESPACE_COUNT" "unat kd < 16" "save_dkek_key c kd None s = (r, s')"
  shows "almost_quiet (mkek_fids \<union> dkek_fids) s s'"
proof (cases "search s (dkek_fid kd)")
  case None
  have "quiet (mkek_fids \<union> dkek_fids) (s\<lparr>heap := heap s\<rparr>) s" by simp
  moreover have "s' = s" using None assms(3) by (simp add: save_dkek_key_def)
  ultimately show ?thesis unfolding almost_quiet_def by blast
next
  case (Some tf)
  let ?F = "mkek_fids \<union> dkek_fids" and ?d = "read_bytes c DKEK_KEY_SIZE (file_get_data (store s) (Some tf))"
  have kd: "dkek_fid kd \<in> dkek_fids" using assms(2) by (simp add: dkek_fids_def)
  have fid: "file_fid (ix (store s)) tf = dkek_fid kd"
    using search_fid [OF own_dkek [OF kd] assms(1)] Some by (simp add: search_def)
  obtain ok s1 where h: "next_heap s = (ok, s1)" by fastforce
  then obtain hp where s1: "s1 = s\<lparr>heap := hp\<rparr>" by (auto simp: next_heap_def split: list.splits intro: that [of "heap s"])
  have m: "mkek_store_file c (Some tf) ?d s = (r, s')"
    using assms(3) Some by (simp add: save_dkek_key_def store_dkek_key_def)
  have len: "length ?d = 32" by (simp add: read_bytes_def DKEK_KEY_SIZE_def)
  have "quiet ?F s1 s'"
  proof (cases ok)
    case False
    with m h len show ?thesis by (simp add: mkek_store_file_def)
  next
    case True
    obtain l s2 where l: "load_mkek c s1 = (l, s2)" by fastforce
    have q2: "quiet ?F s1 s2" using load_mkek_quiet [OF l] by (rule quiet_mono) simp
    have ix: "ix (store s2) = ix (store s)" using q2 s1 by (simp add: quiet_def writes_only_def)
    show ?thesis
    proof (cases l)
      case (Inl x)
      with m h len True l q2 show ?thesis by (simp add: mkek_store_file_def)
    next
      case (Inr mkek)
      obtain n s3 where f: "fresh s2 = (n, s3)" by fastforce
      note q3 = quiet_fresh [OF f, of ?F]
      show ?thesis
      proof (cases "encrypt_with_aad c n (mkek_key mkek) ?d PIN_KDF_V2")
        case (Inl x)
        with m h len True l Inr f have "s' = s3" by (simp add: mkek_store_file_def Let_def)
        with q2 q3 show ?thesis by (blast intro: quiet_trans)
      next
        case (Inr sealed)
        from q3 have "ix (store s3) = ix (store s)" using ix by simp
        then have "\<not> in_object_space (file_fid (ix (store s3)) tf)" using fid dkek_not_object [OF kd] by simp
        with m h len True l \<open>l = Inr mkek\<close> f Inr
        have p: "on_store (file_put_data (Some tf) (1 # mkek_object_magic @ sealed)) s3 = (r, s')"
          by (simp add: mkek_store_file_def Let_def)
        have "search s3 (dkek_fid kd) = Some tf"
          using Some ix q3 same_ix [of "store s2" "store s"] by (simp add: search_def)
        from quiet_put [OF this p] kd have "quiet ?F s3 s'" by (auto intro: quiet_mono)
        with q2 q3 show ?thesis by (blast intro: quiet_trans)
      qed
    qed
  qed
  then show ?thesis unfolding almost_quiet_def s1 by blast
qed

section \<open>Accepting a PIN\<close>

text \<open>A step that may also change the session and its keys.\<close>

definition mild :: "u16 set \<Rightarrow> hsm_state \<Rightarrow> hsm_state \<Rightarrow> bool" where
  "mild F s s' \<longleftrightarrow> writes_only F s s' \<and> (healthy s \<longrightarrow> healthy s') \<and> (untorn s \<longrightarrow> untorn s') \<and>
     pending_save_dkek s' = pending_save_dkek s \<and> puk_status s' = puk_status s"

lemma mild_refl [simp]: "mild F s s"
  by (simp add: mild_def)

lemma mild_trans: "mild F s s1 \<Longrightarrow> mild F s1 s2 \<Longrightarrow> mild F s s2"
  unfolding mild_def by (auto intro: writes_only_trans [where F = F and G = F])

lemma mild_mono: "mild F s s' \<Longrightarrow> F \<subseteq> H \<Longrightarrow> mild H s s'"
  unfolding mild_def by (auto intro: writes_only_mono)

lemma quiet_mild: "quiet F s s' \<Longrightarrow> mild F s s'"
  by (auto simp: quiet_def mild_def dest: rest_same_fields(4,9))

lemma almost_quiet_mild: "almost_quiet F s s' \<Longrightarrow> mild F s s'"
proof -
  assume "almost_quiet F s s'"
  then obtain h where "mild F (s\<lparr>heap := h\<rparr>) s'" unfolding almost_quiet_def by (blast intro: quiet_mild)
  then show ?thesis by (simp add: mild_def writes_only_def search_def healthy_def untorn_def)
qed

lemma ses_only_mild: "ses_only s s' \<Longrightarrow> mild F s s'"
  by (simp add: mild_def ses_only_facts)

lemma ses_only_keys: "ses_only s s' \<Longrightarrow> hsm_session_pin s' = hsm_session_pin s" "ses_only s s' \<Longrightarrow> session_sopin s' = session_sopin s"
  by (auto simp: ses_only_def)

lemma main_apart: "located s \<Longrightarrow> the_pin s True \<noteq> the_pin s False"
proof
  assume l: "located s" and "the_pin s True = the_pin s False"
  then obtain r where "search s (main_fid True) = Some r" "search s (main_fid False) = Some r"
    by (metis located_some option.inject)
  then show False using search_inj [of "main_fid True" "main_fid False" "store s" r] by (simp add: search_def)
qed

lemma open_pin_session_law:
  assumes "located s"
  shows "open_pin_session key (the_pin s user) s =
    (if user then s\<lparr>hsm_session_pin := key, ses := (ses s)\<lparr>has_session_pin := True\<rparr>\<rparr>
     else s\<lparr>session_sopin := key, ses := (ses s)\<lparr>has_session_sopin := True\<rparr>\<rparr>)"
    "set_session_key key (the_pin s user) s = (if user then s\<lparr>hsm_session_pin := key\<rparr> else s\<lparr>session_sopin := key\<rparr>)"
  using main_apart [OF assms] by (auto simp: open_pin_session_def set_session_key_def the_pin_def)

lemma session_mild:
  assumes "located s"
  shows "mild F s (open_pin_session key (the_pin s user) s)" "mild F s (set_session_key key (the_pin s user) s)"
    "ses (set_session_key key (the_pin s user) s) = ses s"
  by (simp_all add: open_pin_session_law [OF assms] mild_def writes_only_def healthy_def untorn_def)

lemma session_store [simp]:
  "store (open_pin_session key pin s) = store s" "store (set_session_key key pin s) = store s"
  "the_pin (open_pin_session key pin s) user = the_pin s user" "the_pin (set_session_key key pin s) user = the_pin s user"
  by (simp_all add: open_pin_session_def set_session_key_def the_pin_def)

lemma mild_keeps:
  assumes "mild F s s'"
  shows "located s' = located s" "the_pin s' user = the_pin s user" "search s' = search s"
  using assms writes_only_located writes_only_the_pin writes_only_search by (auto simp: mild_def)

definition set_flag :: "bool \<Rightarrow> hsm_session \<Rightarrow> hsm_session" where
  "set_flag user x = (if user then x\<lparr>has_session_pin := True\<rparr> else x\<lparr>has_session_sopin := True\<rparr>)"

lemma upgrade_pin_law:
  assumes "located s" "upgrade_pin c (the_pin s user) data s = (r, s')"
  shows "mild (mkek_fids \<union> {main_fid user}) s s'" "ses s' = set_flag user (ses s)"
    "pin_file s' user = pin_file s user \<or> pin_file s' user = new_pin_file c (of_nat (length data)) data \<or> \<not> untorn s"
proof -
  let ?F = "mkek_fids \<union> {main_fid user}"
  let ?s0 = "open_pin_session (hash_multi c data) (the_pin s user) s"
  obtain l s1 where l: "load_mkek c ?s0 = (l, s1)" by fastforce
  have m0: "mild ?F s ?s0" by (rule session_mild(1) [OF assms(1)])
  have q1: "quiet mkek_fids ?s0 s1" by (rule load_mkek_quiet [OF l])
  then have m1: "mild ?F ?s0 s1" by (intro quiet_mild quiet_mono [OF q1]) (rule Un_upper1)
  note m01 = mild_trans [OF m0 m1]
  have e1: "ses s1 = set_flag user (ses s)"
    using quiet_ses [OF q1] by (simp add: open_pin_session_law [OF assms(1)] set_flag_def)
  have own: "\<forall>f \<in> mkek_fids. own_fid f" "main_fid user \<notin> mkek_fids"
    by (auto simp: mkek_fids_def main_fid_def hsm_fids own_fid_def EF_PHY_def)
  have p0: "pin_file ?s0 user = pin_file s user" "located ?s0"
    using m0 assms(1) mild_keeps(1) [OF m0] by (simp_all add: pin_file_def)
  have p1: "pin_file s1 user = pin_file s user"
    using writes_only_pin_file [of mkek_fids ?s0 s1 user] q1 p0 own by (simp add: quiet_def)
  have loc1: "located s1" "the_pin s1 user = the_pin s user" using assms(1) mild_keeps [OF m01] by simp_all
  have "mild ?F s s' \<and> ses s' = set_flag user (ses s) \<and>
    (pin_file s' user = pin_file s user \<or> pin_file s' user = new_pin_file c (of_nat (length data)) data \<or> \<not> untorn s)"
  proof (cases l)
    case (Inl x)
    with assms(2) l have "s' = s1" by (simp add: upgrade_pin_def)
    with m01 e1 p1 show ?thesis by simp
  next
    case (Inr mkek)
    let ?s2 = "set_session_key (pin_derive_session c data) (the_pin s1 user) s1"
    obtain q s3 where k: "store_mkek c (Some mkek) ?s2 = (q, s3)" by fastforce
    have m2: "mild ?F s1 ?s2" "ses ?s2 = ses s1" by (rule session_mild(2,3) [OF loc1(1)])+
    have q3: "quiet mkek_fids ?s2 s3" by (rule store_mkek_quiet [OF k])
    then have m3: "mild ?F ?s2 s3" by (intro quiet_mild quiet_mono [OF q3]) (rule Un_upper1)
    note m03 = mild_trans [OF mild_trans [OF m01 m2(1)] m3]
    have e3: "ses s3 = set_flag user (ses s)" using quiet_ses [OF q3] m2(2) e1 by simp
    have p2: "pin_file ?s2 user = pin_file s user" "located ?s2"
      using p1 loc1 mild_keeps(1) [OF m2(1)] by (simp_all add: pin_file_def)
    have p3: "pin_file s3 user = pin_file s user"
      using writes_only_pin_file [of mkek_fids ?s2 s3 user] q3 p2 own by (simp add: quiet_def)
    show ?thesis
    proof (cases "q = PICOKEYS_OK")
      case False
      with assms(2) l Inr k have "s' = s3" by (simp add: upgrade_pin_def loc1(2))
      with m03 e3 p3 show ?thesis by simp
    next
      case True
      have loc3: "located s3" "the_pin s3 user = the_pin s user" using assms(1) mild_keeps [OF m03] by simp_all
      then obtain f where f: "search s3 (main_fid user) = Some f" "the_pin s user = Some f"
        using located_some [OF loc3(1), of user] by auto
      from True assms(2) l Inr k have p: "on_store (file_put_data (Some f) (new_pin_file c (of_nat (length data)) data)) s3 = (r, s')"
        by (simp add: upgrade_pin_def loc1(2) f(2))
      note q4 = quiet_put [OF f(1) p]
      from quiet_mild [OF q4] have m4: "mild ?F s3 s'" by (rule mild_mono) simp
      have e4: "ses s' = set_flag user (ses s)" using quiet_ses [OF q4] e3 by simp
      have "the_pin s' user = Some f" using mild_keeps(2) [OF m4] loc3 f(2) by simp
      then have "pin_file s' user = pin_file s3 user \<or> pin_file s' user = new_pin_file c (of_nat (length data)) data" if "untorn s3"
        using hsm_put_law(3,5) [OF f(1) p] that loc3(2) f(2) by (cases "r = PICOKEYS_OK") (simp_all add: pin_file_def file_get_data_def)
      then show ?thesis using mild_trans [OF m03 m4] e4 p3 m03 by (auto simp: mild_def)
    qed
  qed
  then show "mild ?F s s'" "ses s' = set_flag user (ses s)"
    "pin_file s' user = pin_file s user \<or> pin_file s' user = new_pin_file c (of_nat (length data)) data \<or> \<not> untorn s" by blast+
qed

text \<open>What checking a PIN may write.\<close>

definition check_fids :: "bool \<Rightarrow> u16 set" where
  "check_fids user = mkek_fids \<union> dkek_fids \<union> {main_fid user, tries_fid user}"

lemma check_fids_own: "\<forall>f \<in> check_fids user. own_fid f"
  using own_dkek by (auto simp: check_fids_def mkek_fids_def)

lemma check_fids_apart:
  "EF_DEVOPS \<notin> check_fids user" "EF_PUKAUT \<notin> check_fids user" "limit_fid user2 \<notin> check_fids user"
  "main_fid (\<not> user) \<notin> check_fids user" "tries_fid (\<not> user) \<notin> check_fids user"
  by (cases user; cases user2; simp add: check_fids_def mkek_fids_def; simp add: main_fid_def tries_fid_def limit_fid_def hsm_fids)+

lemma same_decision:
  assumes "store s' = store s" "puk_status s' = puk_status s"
  shows "pka_enabled s' = pka_enabled s" "pka_quorum_met c s' = pka_quorum_met c s" "has_option c s' opt = has_option c s opt"
  by (simp_all add: pka_enabled_def pka_quorum_met_def has_option_def get_device_options_def file_byte_def search_def assms Let_def)

lemma update_user_auth_values:
  "hsm_object_session_epoch (ses s) \<noteq> 0 \<Longrightarrow> hsm_object_session_epoch (ses (hsm_update_user_auth c s)) \<noteq> 0"
  "isUserAuthenticated (ses (hsm_update_user_auth c s)) =
     (if pka_enabled s then pka_quorum_met c s \<and> (has_option c s HSM_OPT_COMBINED_AUTH \<longrightarrow> has_session_pin (ses s))
      else isUserAuthenticated (ses s))"
  by (auto simp: hsm_update_user_auth_def ses_invalidate_def set_authenticated_def hsm_object_authorization_session_invalidate_def Let_def)

definition user_granted :: "crypto \<Rightarrow> bool \<Rightarrow> hsm_state \<Rightarrow> bool" where
  "user_granted c user s \<longleftrightarrow>
     (pka_enabled s \<longrightarrow> pka_quorum_met c s \<and> (has_option c s HSM_OPT_COMBINED_AUTH \<longrightarrow> user))"

text \<open>The session that is open for one of the two PINs.\<close>

definition session_open :: "crypto \<Rightarrow> bool \<Rightarrow> byte list \<Rightarrow> hsm_state \<Rightarrow> bool" where
  "session_open c user pin s \<longleftrightarrow>
     has_session_pin (ses s) = user \<and> has_session_sopin (ses s) = (\<not> user) \<and> hsm_object_session_epoch (ses s) \<noteq> 0 \<and>
     (if user then hsm_session_pin s else session_sopin s) = pin_derive_session c pin"

definition last_step :: "crypto \<Rightarrow> file_ref option \<Rightarrow> byte list \<Rightarrow> hsm_state \<Rightarrow> hsm_state" where
  "last_step c pin data s =
     hsm_update_user_auth c (open_pin_session (pin_derive_session c data) pin
       (if \<not> pka_enabled s then set_authenticated True s else s))"

lemma last_step_law:
  assumes "located s" "has_session_pin (ses s) \<longrightarrow> user" "has_session_sopin (ses s) \<longrightarrow> \<not> user" "hsm_object_session_epoch (ses s) \<noteq> 0"
  shows "mild F s (last_step c (the_pin s user) data s)" "session_open c user data (last_step c (the_pin s user) data s)"
    "isUserAuthenticated (ses (last_step c (the_pin s user) data s)) = user_granted c user s" "store (last_step c (the_pin s user) data s) = store s"
proof -
  let ?s4 = "if \<not> pka_enabled s then set_authenticated True s else s"
  let ?s5 = "open_pin_session (pin_derive_session c data) (the_pin s user) ?s4"
  have o4: "ses_only s ?s4" by (simp add: ses_steps)
  note f4 = ses_only_facts [OF o4]
  have l4: "located ?s4" "the_pin ?s4 user = the_pin s user" using f4(3,6) assms(1) by simp_all
  have m5: "mild F s ?s5"
    using session_mild(1) [OF l4(1), of F "pin_derive_session c data" user] ses_only_mild [OF o4]
    unfolding l4(2) by (blast intro: mild_trans)
  have l5: "?s5 = (if user then ?s4\<lparr>hsm_session_pin := pin_derive_session c data, ses := (ses ?s4)\<lparr>has_session_pin := True\<rparr>\<rparr>
      else ?s4\<lparr>session_sopin := pin_derive_session c data, ses := (ses ?s4)\<lparr>has_session_sopin := True\<rparr>\<rparr>)"
    using open_pin_session_law(1) [OF l4(1), of "pin_derive_session c data" user] unfolding l4(2) .
  have o6: "ses_only ?s5 (hsm_update_user_auth c ?s5)" by (rule update_user_auth_fields)
  have last: "last_step c (the_pin s user) data s = hsm_update_user_auth c ?s5" by (simp add: last_step_def Let_def)
  show "mild F s (last_step c (the_pin s user) data s)" unfolding last by (rule mild_trans [OF m5 ses_only_mild [OF o6]])
  have st: "store ?s5 = store s" using f4(1) by (simp split: if_splits)
  show "store (last_step c (the_pin s user) data s) = store s" unfolding last using ses_only_facts(1) [OF o6] st by simp
  have pu: "puk_status ?s5 = puk_status s" using m5 by (simp add: mild_def)
  have se: "search ?s5 = search s" using m5 by (rule mild_keeps)
  note g5 = same_decision [OF st pu]
  have h: "has_session_pin (ses ?s4) = has_session_pin (ses s)" "has_session_sopin (ses ?s4) = has_session_sopin (ses s)"
    "hsm_object_session_epoch (ses ?s4) = hsm_object_session_epoch (ses s)" "\<not> pka_enabled s \<Longrightarrow> isUserAuthenticated (ses ?s4)"
    by (simp_all add: set_authenticated_def)
  have b5: "has_session_pin (ses ?s5) = user" "has_session_sopin (ses ?s5) = (\<not> user)" "hsm_object_session_epoch (ses ?s5) \<noteq> 0"
    "(if user then hsm_session_pin ?s5 else session_sopin ?s5) = pin_derive_session c data"
    "\<not> pka_enabled s \<Longrightarrow> isUserAuthenticated (ses ?s5)"
    unfolding l5 using h assms(2-4) by (cases user; simp)+
  note keys = ses_only_keys [OF o6]
  have "hsm_object_session_epoch (ses (hsm_update_user_auth c ?s5)) \<noteq> 0"
    by (rule update_user_auth_values(1) [OF b5(3)])
  with b5(1,2,4) show "session_open c user data (last_step c (the_pin s user) data s)"
    unfolding last session_open_def update_user_auth_fields(2,3) keys by blast
  show "isUserAuthenticated (ses (last_step c (the_pin s user) data s)) = user_granted c user s"
    unfolding last user_granted_def update_user_auth_values(2) g5 b5(1) using b5(5) by simp
qed

lemma almost_quiet_fields:
  assumes "almost_quiet F s s'"
  shows "ses s' = ses s" "hsm_session_pin s' = hsm_session_pin s" "session_sopin s' = session_sopin s"
proof -
  obtain h where q: "rest_same (s\<lparr>heap := h\<rparr>) s'" using assms by (auto simp: almost_quiet_def quiet_def)
  from rest_same_fields(1-3) [OF q] show "ses s' = ses s" "hsm_session_pin s' = hsm_session_pin s" "session_sopin s' = session_sopin s"
    by simp_all
qed

text \<open>As \<open>mild\<close>, but the waiting key domain may be done with.\<close>

definition tame :: "u16 set \<Rightarrow> hsm_state \<Rightarrow> hsm_state \<Rightarrow> bool" where
  "tame F s s' \<longleftrightarrow> writes_only F s s' \<and> (healthy s \<longrightarrow> healthy s') \<and> (untorn s \<longrightarrow> untorn s') \<and>
     (pending_ok s \<longrightarrow> pending_ok s') \<and> puk_status s' = puk_status s"

lemma mild_tame: "mild F s s' \<Longrightarrow> tame F s s'"
  by (simp add: mild_def tame_def pending_ok_def)

lemma tame_trans: "tame F s s1 \<Longrightarrow> tame F s1 s2 \<Longrightarrow> tame F s s2"
  unfolding tame_def by (auto intro: writes_only_trans [where F = F and G = F])

lemma tame_mono: "tame F s s' \<Longrightarrow> F \<subseteq> H \<Longrightarrow> tame H s s'"
  unfolding tame_def by (auto intro: writes_only_mono)

definition finish_pending :: "crypto \<Rightarrow> hsm_state \<Rightarrow> hsm_state" where
  "finish_pending c s =
     (if pending_save_dkek s \<noteq> 0xff then (snd (save_dkek_key c (pending_save_dkek s) None s))\<lparr>pending_save_dkek := 0xff\<rparr> else s)"

lemma finish_pending_law:
  assumes "located s" "pending_ok s"
  shows "tame (mkek_fids \<union> dkek_fids) s (finish_pending c s)" "ses (finish_pending c s) = ses s"
    "hsm_session_pin (finish_pending c s) = hsm_session_pin s" "session_sopin (finish_pending c s) = session_sopin s"
proof -
  have "tame (mkek_fids \<union> dkek_fids) s (finish_pending c s) \<and> ses (finish_pending c s) = ses s \<and>
    hsm_session_pin (finish_pending c s) = hsm_session_pin s \<and> session_sopin (finish_pending c s) = session_sopin s"
  proof (cases "pending_save_dkek s = 0xff")
    case True
    then have "finish_pending c s = s" by (simp add: finish_pending_def)
    then show ?thesis using mild_tame [OF mild_refl, of "mkek_fids \<union> dkek_fids" s] by simp
  next
    case False
    obtain r s1 where k: "save_dkek_key c (pending_save_dkek s) None s = (r, s1)" by fastforce
    have "almost_quiet (mkek_fids \<union> dkek_fids) s s1"
      using assms False by (intro save_dkek_quiet [OF _ _ k]) (auto simp: located_def pending_ok_def)
    note q = almost_quiet_fields [OF this] almost_quiet_mild [OF this]
    have "finish_pending c s = s1\<lparr>pending_save_dkek := 0xff\<rparr>" using False k by (simp add: finish_pending_def)
    moreover have "tame (mkek_fids \<union> dkek_fids) s (s1\<lparr>pending_save_dkek := 0xff\<rparr>)"
      using q(4) by (simp add: tame_def mild_def writes_only_def pending_ok_def healthy_def untorn_def)
    ultimately show ?thesis using q(1-3) by simp
  qed
  then show "tame (mkek_fids \<union> dkek_fids) s (finish_pending c s)" "ses (finish_pending c s) = ses s"
    "hsm_session_pin (finish_pending c s) = hsm_session_pin s" "session_sopin (finish_pending c s) = session_sopin s" by blast+
qed

lemma finish_pending_pair:
  "(if pending_save_dkek s \<noteq> 0xff
    then case save_dkek_key c (pending_save_dkek s) None s of (_, s6) \<Rightarrow> (SW_OK, s6\<lparr>pending_save_dkek := 0xff\<rparr>)
    else (SW_OK, s)) = (SW_OK, finish_pending c s)"
  by (simp add: finish_pending_def split: prod.split)

lemma check_pin_alt:
  "hsm_check_pin c pin data s =
     (if \<not> file_has_data (store s) pin then (SW_REFERENCE_NOT_FOUND, s)
      else case pin_digest c (check_start s) pin data of
          None \<Rightarrow> (SW_WRONG_DATA, check_start s)
        | Some (off, dhash) \<Rightarrow>
            if bslice off 32 (file_get_data (store (check_start s)) pin) \<noteq> dhash
            then (case pin_wrong_retry pin (check_start s) of
                    (Inl _, s2) \<Rightarrow> (SW_PIN_BLOCKED, s2)
                  | (Inr retries, s2) \<Rightarrow> (SW_RETRIES retries, s2))
            else case hsm_pin_reset_retries pin False (check_start s) of (r, s2) \<Rightarrow>
                 if r = PICOKEYS_ERR_BLOCKED then (SW_PIN_BLOCKED, s2)
                 else if r \<noteq> PICOKEYS_OK then (SW_MEMORY_FAILURE, s2)
                 else case (if off = 1 then upgrade_pin c pin data s2 else (PICOKEYS_OK, s2)) of (r3, s3) \<Rightarrow>
                        if r3 \<noteq> PICOKEYS_OK then (SW_MEMORY_FAILURE, s3)
                        else (SW_OK, finish_pending c (last_step c pin data s3)))"
  unfolding hsm_check_pin_def Let_def finish_pending_pair last_step_def ..

text \<open>A PIN that matches while there are tries left: the three steps of its acceptance.\<close>

lemma check_pin_steps:
  assumes "located s" "pin_matches c s (the_pin s user) data" "tries s user \<noteq> 0"
    and "hsm_check_pin c (the_pin s user) data s = (sw, s')"
  obtains r2 s2 where "hsm_pin_reset_retries (the_pin s user) False (check_start s) = (r2, s2)"
    "r2 \<noteq> PICOKEYS_OK \<Longrightarrow> sw \<noteq> SW_OK \<and> s' = s2"
    "r2 = PICOKEYS_OK \<Longrightarrow> \<exists>r3 s3.
       (if length (pin_file s user) = 33 then upgrade_pin c (the_pin s user) data s2 else (PICOKEYS_OK, s2)) = (r3, s3) \<and>
       (if r3 = PICOKEYS_OK then sw = SW_OK \<and> s' = finish_pending c (last_step c (the_pin s user) data s3) else sw \<noteq> SW_OK \<and> s' = s3)"
proof -
  let ?s1 = "check_start s"
  note f = ses_only_facts [OF check_start_law(1) [of s]]
  obtain r2 s2 where q: "hsm_pin_reset_retries (the_pin s user) False ?s1 = (r2, s2)" by fastforce
  obtain off where off: "pin_digest c s (the_pin s user) data = Some (off, bslice off 32 (file_get_data (store s) (the_pin s user)))"
      "off = 1 \<longleftrightarrow> length (pin_file s user) = 33"
    using assms(2) by (auto simp: pin_matches_def pin_digest_def file_get_size_def pin_file_def split: if_splits)
  have d: "file_has_data (store s) (the_pin s user)"
    using off(1) by (intro has_pin_data) (auto simp: pin_digest_def pin_file_def file_get_size_def split: if_splits)
  obtain r3 s3 where u: "(if length (pin_file s user) = 33 then upgrade_pin c (the_pin s user) data s2 else (PICOKEYS_OK, s2)) = (r3, s3)"
    by fastforce
  have main: "(sw, s') = (if r2 = PICOKEYS_ERR_BLOCKED then (SW_PIN_BLOCKED, s2)
      else if r2 \<noteq> PICOKEYS_OK then (SW_MEMORY_FAILURE, s2)
      else if r3 \<noteq> PICOKEYS_OK then (SW_MEMORY_FAILURE, s3)
      else (SW_OK, finish_pending c (last_step c (the_pin s user) data s3)))"
    using assms(4) d unfolding check_pin_alt f off(2) [symmetric]
    by (simp add: off(1) q u [folded off(2)] del: One_nat_def cong: if_cong)
  show ?thesis
  proof (rule that [OF q])
    show "sw \<noteq> SW_OK \<and> s' = s2" if "r2 \<noteq> PICOKEYS_OK" using main that by (auto split: if_splits)
    assume r2: "r2 = PICOKEYS_OK"
    with main have "if r3 = PICOKEYS_OK then sw = SW_OK \<and> s' = finish_pending c (last_step c (the_pin s user) data s3) else sw \<noteq> SW_OK \<and> s' = s3"
      by (simp split: if_splits)
    with u show "\<exists>r3 s3. (if length (pin_file s user) = 33 then upgrade_pin c (the_pin s user) data s2 else (PICOKEYS_OK, s2)) = (r3, s3) \<and>
       (if r3 = PICOKEYS_OK then sw = SW_OK \<and> s' = finish_pending c (last_step c (the_pin s user) data s3) else sw \<noteq> SW_OK \<and> s' = s3)"
      by blast
  qed
qed

section \<open>Well-formed PIN files\<close>

definition tries_file :: "hsm_state \<Rightarrow> bool \<Rightarrow> byte list" where
  "tries_file s user = file_get_data (store s) (search s (tries_fid user))"

definition limit_file :: "hsm_state \<Rightarrow> bool \<Rightarrow> byte list" where
  "limit_file s user = file_get_data (store s) (search s (limit_fid user))"

text \<open>The variables point at the files; every PIN has a file of one of the two formats, a limit and a counter of
  one byte each, and the counter is within the limit.\<close>

definition pins_wf :: "hsm_state \<Rightarrow> bool" where
  "pins_wf s \<longleftrightarrow> located s \<and> untorn s \<and> pending_ok s \<and> length (puk_status s) = MAX_PUK \<and>
     (\<forall>user. length (pin_file s user) \<in> {33, 34} \<and> length (limit_file s user) = 1 \<and> length (tries_file s user) = 1 \<and>
        tries s user \<le> limit s user)"

definition hkdf_ok :: "crypto \<Rightarrow> bool" where
  "hkdf_ok c \<longleftrightarrow> (\<forall>salt key info. length (hkdf c salt key info) = 32)"

lemma length_new_pin_file: "hkdf_ok c \<Longrightarrow> length (new_pin_file c len pin) = 34"
  by (simp add: new_pin_file_def pin_derive_verifier_def hkdf_ok_def)

lemma tame_keeps:
  assumes "tame F s s'"
  shows "located s' = located s" "the_pin s' user = the_pin s user" "search s' = search s"
  using assms writes_only_located writes_only_the_pin writes_only_search by (auto simp: tame_def)

lemma wf_change:
  assumes "pins_wf s" "tame F s s'" "\<forall>f \<in> F. own_fid f" "\<forall>user. limit_fid user \<notin> F"
    and "\<forall>user. main_fid user \<notin> F \<or> length (pin_file s' user) \<in> {33, 34}"
    and "\<forall>user. tries_fid user \<notin> F \<or> tries_file s' user = tries_file s user \<or> (\<exists>b. tries_file s' user = [b] \<and> b \<le> limit s user)"
  shows "pins_wf s'"
proof -
  have w: "writes_only F s s'" using assms(2) by (simp add: tame_def)
  have l: "located s" "located s'" using assms(1) tame_keeps(1) [OF assms(2)] by (simp_all add: pins_wf_def)
  have se: "search s' = search s" by (rule tame_keeps(3) [OF assms(2)])
  have "length (pin_file s' user) \<in> {33, 34} \<and> length (limit_file s' user) = 1 \<and> length (tries_file s' user) = 1 \<and>
      tries s' user \<le> limit s' user" for user
  proof -
    have old: "length (pin_file s user) \<in> {33, 34}" "length (limit_file s user) = 1" "length (tries_file s user) = 1" "tries s user \<le> limit s user"
      using assms(1) by (simp_all add: pins_wf_def)
    have p: "length (pin_file s' user) \<in> {33, 34}"
      using writes_only_pin_file [OF w assms(3) _ l(1)] assms(5) old(1) by metis
    have m: "limit_file s' user = limit_file s user" "limit s' user = limit s user"
      using writes_only_data [OF w own_pin_fids(2) assms(3)] assms(4) se by (simp_all add: limit_file_def limit_def)
    have t: "length (tries_file s' user) = 1 \<and> tries s' user \<le> limit s user"
    proof (cases "\<exists>b. tries_file s' user = [b] \<and> b \<le> limit s user")
      case True
      obtain a where a: "search s (tries_fid user) = Some a" using l(1) by (auto simp: located_def)
      from True a se show ?thesis by (auto simp: tries_def tries_file_def dest: read_written)
    next
      case False
      have "tries_file s' user = tries_file s user"
        using False assms(6) writes_only_data(1) [OF w own_pin_fids(3) assms(3)] se by (auto simp: tries_file_def)
      moreover obtain a where a: "search s (tries_fid user) = Some a" using l(1) by (auto simp: located_def)
      moreover obtain b where b: "tries_file s user = [b]" using old(3) by (auto simp: length_Suc_conv)
      ultimately have "tries s' user = b" "tries s user = b"
        using se read_written [of "store s'" a b] read_written [of "store s" a b] by (simp_all add: tries_file_def tries_def)
      with old(3,4) \<open>tries_file s' user = tries_file s user\<close> show ?thesis by simp
    qed
    from p m t old(2) show ?thesis by simp
  qed
  with assms(1,2) l(2) show ?thesis by (simp add: pins_wf_def tame_def)
qed

lemma wf_frame:
  assumes "pins_wf s" "tame F s s'" "\<forall>f \<in> F. own_fid f" "\<forall>user. limit_fid user \<notin> F \<and> main_fid user \<notin> F \<and> tries_fid user \<notin> F"
  shows "pins_wf s'"
  using wf_change [OF assms(1-3)] assms(4) by blast

lemma wf_ses_only: "pins_wf s \<Longrightarrow> ses_only s s' \<Longrightarrow> pins_wf s'"
  by (rule wf_frame [of s "{}"]) (auto intro: mild_tame ses_only_mild)

lemma content_same: "content st' = content st \<Longrightarrow> file_get_data st' f = file_get_data st f"
  by (rule same_data) simp

lemma tries_file_same: "content (store s') = content (store s) \<Longrightarrow> search s' = search s \<Longrightarrow> tries_file s' user = tries_file s user"
  using content_same [of "store s'" "store s"] by (simp add: tries_file_def)

text \<open>The counter of one PIN is rewritten.\<close>

lemma wf_counter:
  assumes "pins_wf s" "writes_only {tries_fid user} s s'" "rest_same s s'" "healthy s \<longrightarrow> healthy s'"
    and "untorn s' \<and> (store s' = store s \<or> content (store s') = content (store s) \<or>
      (file_get_data (store s') (search s (tries_fid user)) = [b] \<and> b \<le> limit s user))"
  shows "pins_wf s'" "tame {tries_fid user} s s'"
proof -
  have se: "search s' = search s" by (rule writes_only_search [OF assms(2)])
  show t: "tame {tries_fid user} s s'"
    using assms(2-5) rest_same_fields(4,9) [OF assms(3)] by (simp add: tame_def pending_ok_def)
  have f: "tries_file s' u = tries_file s u \<or> (\<exists>b. tries_file s' u = [b] \<and> b \<le> limit s u)" for u
  proof (cases "u = user")
    case True
    from assms(5) consider "content (store s') = content (store s)" | "file_get_data (store s') (search s (tries_fid user)) = [b]" "b \<le> limit s user"
      by fastforce
    then show ?thesis
    proof cases
      case 1
      with tries_file_same [OF _ se] show ?thesis by simp
    next
      case 2
      with True se show ?thesis by (simp add: tries_file_def)
    qed
  next
    case False
    then have "tries_fid u \<notin> {tries_fid user}" by (cases u; cases user) (simp_all add: tries_fid_def hsm_fids)
    from writes_only_data(1) [OF assms(2) own_pin_fids(3) _ this] se show ?thesis by (simp add: tries_file_def)
  qed
  from wf_change [OF assms(1) t] f show "pins_wf s'" by simp
qed

lemma own_mkek: "\<forall>f \<in> mkek_fids \<union> dkek_fids. own_fid f"
  using own_dkek by (auto simp: mkek_fids_def)

lemma mkek_apart: "limit_fid user \<notin> mkek_fids" "main_fid user \<notin> mkek_fids" "tries_fid user \<notin> mkek_fids"
  by (simp_all add: mkek_fids_def main_fid_def tries_fid_def limit_fid_def hsm_fids)

lemma wf_quiet: "pins_wf s \<Longrightarrow> quiet mkek_fids s s' \<Longrightarrow> pins_wf s'"
  by (rule wf_frame [of s mkek_fids]) (auto intro: mild_tame quiet_mild simp: mkek_apart own_mkek [THEN bspec])

lemma wf_put_pin:
  assumes "pins_wf s" "hkdf_ok c" "on_store (file_put_data (the_pin s user) (new_pin_file c len pin)) s = (r, s')"
  shows "pins_wf s'" "tame {main_fid user} s s'" "ses s' = ses s"
proof -
  have l: "located s" "untorn s" using assms(1) by (simp_all add: pins_wf_def)
  obtain f where f: "the_pin s user = Some f" "search s (main_fid user) = Some f" by (rule located_some [OF l(1)])
  have p: "on_store (file_put_data (Some f) (new_pin_file c len pin)) s = (r, s')" using assms(3) f(1) by simp
  note q = quiet_put [OF f(2) p] and law = hsm_put_law [OF f(2) p]
  show t: "tame {main_fid user} s s'" by (rule mild_tame [OF quiet_mild [OF q]])
  show "ses s' = ses s" by (rule quiet_ses [OF q])
  have "length (pin_file s' u) \<in> {33, 34}" for u
  proof (cases "u = user \<and> r = PICOKEYS_OK")
    case True
    have "the_pin s' user = Some f" using tame_keeps(2) [OF t] f(1) by simp
    with True law(3) show ?thesis by (simp add: pin_file_def length_new_pin_file [OF assms(2)])
  next
    case False
    have "pin_file s' u = pin_file s u"
    proof (cases "u = user")
      case True
      with False law(5) l(2) have "content (store s') = content (store s)" by simp
      from content_same [OF this] show ?thesis using tame_keeps(2) [OF t] by (simp add: pin_file_def)
    next
      case False
      then have "main_fid u \<notin> {main_fid user}" by (cases u; cases user) (simp_all add: main_fid_def hsm_fids)
      from writes_only_pin_file [OF law(1) _ this l(1)] show ?thesis by simp
    qed
    with assms(1) show ?thesis by (simp add: pins_wf_def)
  qed
  with wf_change [OF assms(1) t] show "pins_wf s'" by simp
qed

lemma in_check_fids: "mkek_fids \<union> dkek_fids \<subseteq> check_fids user" "mkek_fids \<union> {main_fid user} \<subseteq> check_fids user"
  "{tries_fid user} \<subseteq> check_fids user" "mkek_fids \<subseteq> check_fids user"
  by (auto simp: check_fids_def)

lemma check_start_tame: "tame F s (check_start s)"
  by (rule mild_tame [OF ses_only_mild [OF check_start_law(1)]])

lemma main_fid_other: "u \<noteq> user \<Longrightarrow> main_fid u \<notin> mkek_fids \<union> {main_fid user}"
  by (cases u; cases user) (simp_all add: main_fid_def hsm_fids mkek_fids_def)

lemma wf_upgrade:
  assumes "pins_wf s" "hkdf_ok c" "upgrade_pin c (the_pin s user) data s = (r, s')"
  shows "pins_wf s'"
proof -
  let ?F = "mkek_fids \<union> {main_fid user}"
  have "located s" "untorn s" using assms(1) by (simp_all add: pins_wf_def)
  note g = upgrade_pin_law [OF this(1) assms(3)]
  show ?thesis
  proof (rule wf_change [OF assms(1) mild_tame [OF g(1)]])
    show "\<forall>f \<in> ?F. own_fid f" using own_mkek by auto
    show "\<forall>u. limit_fid u \<notin> ?F"
      "\<forall>u. tries_fid u \<notin> ?F \<or> tries_file s' u = tries_file s u \<or> (\<exists>b. tries_file s' u = [b] \<and> b \<le> limit s u)"
      by (simp_all add: mkek_apart)
    have "pin_file s' user = pin_file s user \<or> pin_file s' user = new_pin_file c (of_nat (length data)) data"
      using g(3) \<open>untorn s\<close> by blast
    moreover have "length (pin_file s user) \<in> {33, 34}" using assms(1) by (simp add: pins_wf_def)
    ultimately have "length (pin_file s' user) \<in> {33, 34}"
      by (elim disjE) (simp_all only: length_new_pin_file [OF assms(2)] insert_iff simp_thms)
    then have "main_fid u \<notin> ?F \<or> length (pin_file s' u) \<in> {33, 34}" for u
      using main_fid_other [of u user] by (cases "u = user") simp_all
    then show "\<forall>u. main_fid u \<notin> ?F \<or> length (pin_file s' u) \<in> {33, 34}" ..
  qed
qed

text \<open>The end of an acceptance: the session, the decision who is authenticated and the waiting key domain.\<close>

lemma acceptance_ends:
  assumes "pins_wf s" "has_session_pin (ses s) \<longrightarrow> user" "has_session_sopin (ses s) \<longrightarrow> \<not> user" "hsm_object_session_epoch (ses s) \<noteq> 0"
    and "s' = finish_pending c (last_step c (the_pin s user) data s)"
  shows "pins_wf s'" "tame (mkek_fids \<union> dkek_fids) s s'" "session_open c user data s'"
    "isUserAuthenticated (ses s') = user_granted c user s" "pending_save_dkek s = 0xff \<Longrightarrow> writes_only {} s s'"
proof -
  let ?l = "last_step c (the_pin s user) data s"
  have "located s" using assms(1) by (simp add: pins_wf_def)
  note ll = last_step_law [OF this assms(2-4)]
  have wl: "pins_wf ?l" by (rule wf_frame [OF assms(1) mild_tame [OF ll(1) [of "{}"]]]) simp_all
  have ol: "located ?l" "pending_ok ?l" using wl by (simp_all add: pins_wf_def)
  note fl = finish_pending_law [OF ol, of c]
  show "pins_wf s'" unfolding assms(5) by (rule wf_frame [OF wl fl(1) own_mkek]) (simp add: mkek_apart)
  show "tame (mkek_fids \<union> dkek_fids) s s'" unfolding assms(5) by (rule tame_trans [OF mild_tame [OF ll(1)] fl(1)])
  show "session_open c user data s'" using ll(2) [of c data] unfolding assms(5) session_open_def fl(2-4) .
  show "isUserAuthenticated (ses s') = user_granted c user s" using ll(3) fl(2) assms(5) by simp
  assume "pending_save_dkek s = 0xff"
  then have "s' = ?l" using ll(1) [of "{}"] by (simp add: assms(5) finish_pending_def mild_def)
  then show "writes_only {} s s'" using ll(1) [of "{}"] by (simp add: mild_def)
qed

text \<open>An accepted PIN: it writes no more than its own files and the key hierarchy, the PIN files stay well formed,
  and success opens exactly its own session.\<close>

lemma check_pin_accepted:
  assumes "pins_wf s" "hkdf_ok c" "pin_matches c s (the_pin s user) data" "tries s user \<noteq> 0"
    and "hsm_check_pin c (the_pin s user) data s = (sw, s')"
  shows "pins_wf s'" "tame (check_fids user) s s'"
    "sw = SW_OK \<Longrightarrow> session_open c user data s' \<and> isUserAuthenticated (ses s') = user_granted c user s \<and> tries s' user = limit s user"
    "sw = SW_OK \<Longrightarrow> length (pin_file s user) = 34 \<Longrightarrow> pending_save_dkek s = 0xff \<Longrightarrow> writes_only {tries_fid user} s s'"
proof -
  let ?s1 = "check_start s" and ?F = "check_fids user"
  have loc: "located s" "untorn s" "pending_ok s" using assms(1) by (simp_all add: pins_wf_def)
  from check_pin_steps [OF loc(1) assms(3,4,5)] obtain r2 s2
    where q: "hsm_pin_reset_retries (the_pin s user) False ?s1 = (r2, s2)"
      and bad: "r2 \<noteq> PICOKEYS_OK \<Longrightarrow> sw \<noteq> SW_OK \<and> s' = s2"
      and good: "r2 = PICOKEYS_OK \<Longrightarrow> \<exists>r3 s3.
       (if length (pin_file s user) = 33 then upgrade_pin c (the_pin s user) data s2 else (PICOKEYS_OK, s2)) = (r3, s3) \<and>
       (if r3 = PICOKEYS_OK then sw = SW_OK \<and> s' = finish_pending c (last_step c (the_pin s user) data s3) else sw \<noteq> SW_OK \<and> s' = s3)"
    by blast
  note f = ses_only_facts [OF check_start_law(1) [of s]]
  have wf1: "pins_wf ?s1" by (rule wf_ses_only [OF assms(1) check_start_law(1)])
  have l1: "located ?s1" "the_pin ?s1 user = the_pin s user" "untorn ?s1" "limit ?s1 user = limit s user" using loc f by simp_all
  note lq = reset_retries_law [OF l1(1) q [folded l1(2)]]
  have h2: "healthy ?s1 \<longrightarrow> healthy s2" using lq(5) f(4) assms(4) by simp
  have u2: "untorn s2 \<and> (store s2 = store ?s1 \<or> content (store s2) = content (store ?s1) \<or>
      (file_get_data (store s2) (search ?s1 (tries_fid user)) = [limit ?s1 user] \<and> limit ?s1 user \<le> limit ?s1 user))"
    using lq(6) [OF l1(3)] by simp
  note c2 = wf_counter [OF wf1 lq(1,2) h2 u2]
  have t2: "tame ?F s s2" by (rule tame_trans [OF check_start_tame tame_mono [OF c2(2) in_check_fids(3)]])
  have e2: "ses s2 = ses ?s1" by (rule rest_same_fields(1) [OF lq(2)])
  have loc2: "located s2" "the_pin s2 user = the_pin s user" using loc(1) tame_keeps [OF t2] by simp_all
  have "pins_wf s' \<and> tame ?F s s' \<and>
    (sw = SW_OK \<longrightarrow> session_open c user data s' \<and> isUserAuthenticated (ses s') = user_granted c user s \<and> tries s' user = limit s user) \<and>
    (sw = SW_OK \<longrightarrow> length (pin_file s user) = 34 \<longrightarrow> pending_save_dkek s = 0xff \<longrightarrow> writes_only {tries_fid user} s s')"
  proof (cases "r2 = PICOKEYS_OK")
    case False
    with bad c2(1) t2 show ?thesis by simp
  next
    case True
    from good [OF True] obtain r3 s3
      where u: "(if length (pin_file s user) = 33 then upgrade_pin c (the_pin s user) data s2 else (PICOKEYS_OK, s2)) = (r3, s3)"
        and g: "if r3 = PICOKEYS_OK then sw = SW_OK \<and> s' = finish_pending c (last_step c (the_pin s user) data s3) else sw \<noteq> SW_OK \<and> s' = s3"
      by blast
    have s3: "mild (mkek_fids \<union> {main_fid user}) s2 s3" "pins_wf s3" "ses s3 = ses ?s1 \<or> ses s3 = set_flag user (ses ?s1)"
    proof -
      have k: "upgrade_pin c (the_pin s2 user) data s2 = (r3, s3)" if "length (pin_file s user) = 33"
        using u that by (simp add: loc2(2))
      have "mild (mkek_fids \<union> {main_fid user}) s2 s3 \<and> pins_wf s3 \<and> (ses s3 = ses ?s1 \<or> ses s3 = set_flag user (ses ?s1))"
        using u c2(1) e2 upgrade_pin_law(1,2) [OF loc2(1) k] wf_upgrade [OF c2(1) assms(2) k]
        by (cases "length (pin_file s user) = 33") simp_all
      then show "mild (mkek_fids \<union> {main_fid user}) s2 s3" "pins_wf s3" "ses s3 = ses ?s1 \<or> ses s3 = set_flag user (ses ?s1)" by blast+
    qed
    have t3: "tame ?F s s3" by (rule tame_trans [OF t2 tame_mono [OF mild_tame [OF s3(1)] in_check_fids(2)]])
    show ?thesis
    proof (cases "r3 = PICOKEYS_OK")
      case False
      with g s3(2) t3 show ?thesis by simp
    next
      case True
      have p3: "the_pin s3 user = the_pin s user" using tame_keeps [OF t3] by simp
      have flags: "has_session_pin (ses s3) \<longrightarrow> user" "has_session_sopin (ses s3) \<longrightarrow> \<not> user" "hsm_object_session_epoch (ses s3) \<noteq> 0"
        using s3(3) check_start_law(2,3,5) [of s] by (auto simp: set_flag_def split: if_splits)
      have s': "sw = SW_OK" "s' = finish_pending c (last_step c (the_pin s3 user) data s3)" using g True by (simp_all add: p3)
      note e = acceptance_ends [OF s3(2) flags s'(2)]
      have t': "tame ?F s s'" by (rule tame_trans [OF t3 tame_mono [OF e(2) in_check_fids(1)]])
      have w3: "writes_only ?F s s3" using t3 by (simp add: tame_def)
      have au: "isUserAuthenticated (ses s') = user_granted c user s"
        using e(4) writes_only_pka [OF w3 check_fids_own check_fids_apart(2)] writes_only_options [OF w3 check_fids_own check_fids_apart(1)] t3
        by (simp add: user_granted_def tame_def)
      have "tries s2 user = limit s user" using lq(4) \<open>r2 = PICOKEYS_OK\<close> l1(4) by simp
      moreover have "tries s' user = tries s2 user"
      proof -
        let ?G = "mkek_fids \<union> dkek_fids \<union> {main_fid user}"
        have "writes_only ?G s2 s3" using s3(1) by (auto simp: mild_def intro: writes_only_mono)
        moreover have "writes_only ?G s3 s'" using e(2) by (auto simp: tame_def intro: writes_only_mono)
        ultimately have "writes_only ?G s2 s'" by (rule writes_only_trans) simp
        then show ?thesis by (rule writes_only_tries(1)) (use own_mkek in \<open>auto simp: mkek_apart\<close>)
      qed
      moreover have "writes_only {tries_fid user} s s'" if "length (pin_file s user) = 34" "pending_save_dkek s = 0xff"
      proof -
        have e3: "s3 = s2" using u that(1) by simp
        have "writes_only {} s2 s'" using e(5) rest_same_fields(4) [OF lq(2)] f(13) that(2) by (simp add: e3)
        with lq(1) have "writes_only {tries_fid user} ?s1 s'" by (rule writes_only_trans) simp
        with f(2) [of "{}"] show ?thesis by (rule writes_only_trans) simp
      qed
      ultimately show ?thesis using e(1,3) s'(1) t' au by simp
    qed
  qed
  then show "pins_wf s'" "tame ?F s s'"
    "sw = SW_OK \<Longrightarrow> session_open c user data s' \<and> isUserAuthenticated (ses s') = user_granted c user s \<and> tries s' user = limit s user"
    "sw = SW_OK \<Longrightarrow> length (pin_file s user) = 34 \<Longrightarrow> pending_save_dkek s = 0xff \<Longrightarrow> writes_only {tries_fid user} s s'"
    by blast+
qed

lemma wf_wrong_retry:
  assumes "pins_wf s" "pin_wrong_retry (the_pin s user) s = (r, s')"
  shows "pins_wf s'"
proof -
  have l: "located s" "untorn s" "tries s user \<le> limit s user" using assms(1) by (simp_all add: pins_wf_def)
  note w = wrong_retry_law [OF l(1) assms(2)]
  have h: "healthy s \<longrightarrow> healthy s'" using w(3,5) by (cases "tries s user = 0") auto
  have "tries s user \<noteq> 0 \<Longrightarrow> tries s user - 1 \<le> limit s user"
    using l(3) by (simp add: word_le_nat_alt unat_minus_one)
  with w(6) [OF l(2)] have "untorn s' \<and> (store s' = store s \<or> content (store s') = content (store s) \<or>
      (file_get_data (store s') (search s (tries_fid user)) = [tries s user - 1] \<and> tries s user - 1 \<le> limit s user))"
    by blast
  from wf_counter(1) [OF assms(1) w(1,2) h this] show ?thesis .
qed

lemma wf_reset_retries:
  assumes "pins_wf s" "hsm_pin_reset_retries (the_pin s user) force s = (r, s')"
  shows "pins_wf s'" "ses s' = ses s" "writes_only {tries_fid user} s s'"
proof -
  have l: "located s" "untorn s" using assms(1) by (simp_all add: pins_wf_def)
  note w = reset_retries_law [OF l(1) assms(2)]
  have h: "healthy s \<longrightarrow> healthy s'" using w(3,5) by (cases "tries s user = 0 \<and> \<not> force") auto
  have "untorn s' \<and> (store s' = store s \<or> content (store s') = content (store s) \<or>
      (file_get_data (store s') (search s (tries_fid user)) = [limit s user] \<and> limit s user \<le> limit s user))"
    using w(6) [OF l(2)] by simp
  from wf_counter(1) [OF assms(1) w(1,2) h this] show "pins_wf s'" .
  show "ses s' = ses s" by (rule rest_same_fields(1) [OF w(2)])
  show "writes_only {tries_fid user} s s'" by (rule w(1))
qed

lemma check_pin_wf:
  assumes "pins_wf s" "hkdf_ok c" "hsm_check_pin c (the_pin s user) data s = (sw, s')"
  shows "pins_wf s'"
proof (cases "pin_matches c s (the_pin s user) data \<and> tries s user \<noteq> 0")
  case True
  with check_pin_accepted(1) [OF assms(1,2) _ _ assms(3)] show ?thesis by blast
next
  case False
  let ?s1 = "check_start s"
  have wf1: "pins_wf ?s1" by (rule wf_ses_only [OF assms(1) check_start_law(1)])
  note f = ses_only_facts [OF check_start_law(1) [of s]]
  have l: "located s" using assms(1) by (simp add: pins_wf_def)
  obtain r2 s2 where w: "pin_wrong_retry (the_pin s user) ?s1 = (r2, s2)" by fastforce
  obtain r3 s3 where q: "hsm_pin_reset_retries (the_pin s user) False ?s1 = (r3, s3)" by fastforce
  have loc: "located ?s1" "the_pin ?s1 user = the_pin s user" "tries ?s1 user = tries s user" using l f by simp_all
  have wf2: "pins_wf s2" by (rule wf_wrong_retry [OF wf1 w [folded loc(2)]])
  have bl: "tries s user = 0 \<Longrightarrow> r3 = PICOKEYS_ERR_BLOCKED \<and> s3 = ?s1"
    using reset_retries_law(3) [OF loc(1) q [folded loc(2)]] loc(3) by simp
  have "s' \<in> {s, ?s1, s2} \<or> pin_matches c s (the_pin s user) data \<and> s' = s3 \<and> r3 = PICOKEYS_ERR_BLOCKED"
  proof (cases "pin_digest c s (the_pin s user) data")
    case None
    with assms(3) show ?thesis unfolding check_pin_alt f by (auto split: if_splits)
  next
    case (Some p)
    obtain off dhash where p: "p = (off, dhash)" by fastforce
    show ?thesis
    proof (cases "bslice off 32 (file_get_data (store s) (the_pin s user)) = dhash")
      case True
      with Some p have m: "pin_matches c s (the_pin s user) data" by (simp add: pin_matches_def)
      with False bl have "r3 = PICOKEYS_ERR_BLOCKED" "s3 = ?s1" by simp_all
      with assms(3) Some p True q show ?thesis unfolding check_pin_alt f by (auto split: if_splits)
    next
      case False
      with assms(3) Some p w show ?thesis unfolding check_pin_alt f by (auto split: if_splits sum.splits)
    qed
  qed
  with False bl assms(1) wf1 wf2 show ?thesis by auto
qed

lemma wf_session:
  assumes "pins_wf s"
  shows "pins_wf (s\<lparr>hsm_session_pin := k, ses := x\<rparr>)" "pins_wf (s\<lparr>session_sopin := k, ses := x\<rparr>)"
  by (rule wf_frame [OF assms, of "{}"]; simp add: tame_def writes_only_def pending_ok_def healthy_def untorn_def)+

lemma wf_rewrite_pin:
  assumes "pins_wf s" "hkdf_ok c" "rewrite_pin c (the_pin s user) len pin mkek s = (sw, s')"
  shows "pins_wf s'"
proof -
  obtain r s1 where k: "store_mkek c (Some mkek) s = (r, s1)" by fastforce
  have q: "quiet mkek_fids s s1" by (rule store_mkek_quiet [OF k])
  have wf1: "pins_wf s1" by (rule wf_quiet [OF assms(1) q])
  have p: "the_pin s1 user = the_pin s user" using mild_keeps(2) [OF quiet_mild [OF q]] by simp
  obtain r2 s2 where w: "on_store (file_put_data (the_pin s1 user) (new_pin_file c len pin)) s1 = (r2, s2)" by fastforce
  have "pins_wf s2" by (rule wf_put_pin(1) [OF wf1 assms(2) w])
  moreover have "s' = s1 \<or> s' = s2" using assms(3) k w p by (auto simp: rewrite_pin_def Let_def split: if_splits)
  ultimately show ?thesis using wf1 by auto
qed

lemma wf_invalidate: "pins_wf s \<Longrightarrow> pins_wf (ses_invalidate s)"
  by (rule wf_ses_only [OF _ ses_steps(1)])

lemma wf_reset_user_pin:
  assumes "pins_wf s" "hkdf_ok c" "reset_user_pin c len data s = (sw, s')"
  shows "pins_wf s'"
proof -
  obtain r s1 where q: "hsm_pin_reset_retries (the_pin s True) True s = (r, s1)" by fastforce
  have wf1: "pins_wf s1" by (rule wf_reset_retries(1) [OF assms(1) q])
  obtain l s2 where m: "load_mkek c s1 = (l, s2)" by fastforce
  have wf2: "pins_wf s2" by (rule wf_quiet [OF wf1 load_mkek_quiet [OF m]])
  show ?thesis
  proof (cases l)
    case (Inl x)
    with assms(3) q m wf1 wf2 show ?thesis by (auto simp: reset_user_pin_def the_pin_def Let_def split: if_splits)
  next
    case (Inr mkek)
    let ?s3 = "ses_invalidate s2" and ?pin = "drop (length data - unat len) data"
    let ?x = "?s3\<lparr>hsm_session_pin := pin_derive_session c ?pin, ses := (ses ?s3)\<lparr>has_session_pin := True\<rparr>\<rparr>"
    have "s' = s1 \<or> rewrite_pin c (the_pin ?x True) len ?pin mkek ?x = (sw, s')"
      using assms(3) q m Inr by (auto simp: reset_user_pin_def the_pin_def Let_def split: if_splits)
    then show ?thesis
      using wf1 wf_rewrite_pin [OF wf_session(1) [OF wf_invalidate [OF wf2]] assms(2)] by blast
  qed
qed

lemma wf_reset_user_retries:
  assumes "pins_wf s" "reset_user_retries s = (sw, s')"
  shows "pins_wf s'"
proof -
  obtain r s1 where q: "hsm_pin_reset_retries (the_pin s True) True s = (r, s1)" by fastforce
  with assms(2) have "s' = s1" by (simp add: reset_user_retries_def the_pin_def)
  with wf_reset_retries(1) [OF assms(1) q] show ?thesis by simp
qed

lemma wf_cmd_change_pin:
  assumes "pins_wf s" "hkdf_ok c" "hsm_cmd_change_pin c cmd s = (sw, s')"
  shows "pins_wf s'"
proof -
  let ?user = "P2 cmd = 0x81"
  let ?d = "take (unat (file_read_uint8 (store s) (the_pin s ?user))) (cdata cmd)"
  obtain r s1 where k: "hsm_check_pin c (the_pin s ?user) ?d s = (r, s1)" by fastforce
  have wf1: "pins_wf s1" by (rule check_pin_wf [OF assms(1,2) k])
  obtain l s2 where m: "load_mkek c s1 = (l, s2)" by fastforce
  have wf2: "pins_wf s2" by (rule wf_quiet [OF wf1 load_mkek_quiet [OF m]])
  have loc: "located s" "located s1" "located s2" using assms(1) wf1 wf2 by (simp_all add: pins_wf_def)
  have p: "the_pin s2 ?user = the_pin s ?user"
  proof -
    have "the_pin s1 ?user = the_pin s ?user"
    proof (cases "pin_matches c s (the_pin s ?user) ?d \<and> tries s ?user \<noteq> 0")
      case True
      with check_pin_accepted(2) [OF assms(1,2) _ _ k] show ?thesis by (blast intro: tame_keeps(2))
    next
      case False
      then have "tries s ?user = 0 \<or> \<not> pin_matches c s (the_pin s ?user) ?d" by blast
      from check_pin_refused(2) [OF loc(1) this k] show ?thesis by (rule writes_only_the_pin)
    qed
    with mild_keeps(2) [OF quiet_mild [OF load_mkek_quiet [OF m]]] show ?thesis by simp
  qed
  have "s' \<in> {s, s1, s2} \<or> (\<exists>x len pin mkek. pins_wf x \<and> the_pin x ?user = the_pin s ?user \<and>
      rewrite_pin c (the_pin s ?user) len pin mkek x = (sw, s'))"
  proof (cases "\<exists>mkek. l = Inr mkek \<and> s' \<notin> {s, s1, s2}")
    case True
    then obtain mkek where l: "l = Inr mkek" and n: "s' \<notin> {s, s1, s2}" by blast
    let ?pin = "drop (unat (file_read_uint8 (store s) (the_pin s ?user))) (cdata cmd)"
    let ?key = "pin_derive_session c ?pin"
    let ?x = "if ?user then s2\<lparr>hsm_session_pin := ?key, ses := (ses s2)\<lparr>has_session_pin := True\<rparr>\<rparr>
              else s2\<lparr>session_sopin := ?key, ses := (ses s2)\<lparr>has_session_sopin := True\<rparr>\<rparr>"
    have "rewrite_pin c (the_pin s ?user) (of_nat (length ?pin)) ?pin mkek ?x = (sw, s')"
      using assms(3) n k m l unfolding hsm_cmd_change_pin_def the_pin_def Let_def by (auto split: if_splits)
    moreover have "pins_wf ?x" using wf_session [OF wf2] by simp
    moreover have "the_pin ?x ?user = the_pin s ?user" using p by (simp add: the_pin_def split: if_splits)
    ultimately show ?thesis by blast
  next
    case False
    then show ?thesis
      using assms(3) k m unfolding hsm_cmd_change_pin_def the_pin_def Let_def by (cases l) (auto split: if_splits)
  qed
  then show ?thesis
  proof
    assume "s' \<in> {s, s1, s2}"
    with assms(1) wf1 wf2 show ?thesis by blast
  next
    assume "\<exists>x len pin mkek. pins_wf x \<and> the_pin x ?user = the_pin s ?user \<and> rewrite_pin c (the_pin s ?user) len pin mkek x = (sw, s')"
    then obtain x len pin mkek where x: "pins_wf x" "rewrite_pin c (the_pin x ?user) len pin mkek x = (sw, s')" by auto
    show ?thesis by (rule wf_rewrite_pin [OF x(1) assms(2) x(2)])
  qed
qed

lemma wf_cmd_reset_retry:
  assumes "pins_wf s" "hkdf_ok c" "hsm_cmd_reset_retry c cmd s = (sw, s')"
  shows "pins_wf s'"
proof -
  let ?d = "take (unat (file_read_uint8 (store s) (file_sopin s))) (cdata cmd)"
  obtain r s1 where k: "hsm_check_pin c (the_pin s False) ?d s = (r, s1)" by fastforce
  have wf1: "pins_wf s1" by (rule check_pin_wf [OF assms(1,2) k])
  have "s' = s \<or> s' = s1 \<or> (\<exists>x len data. x \<in> {s, s1} \<and> (reset_user_pin c len data x = (sw, s') \<or> reset_user_retries x = (sw, s')))"
    using assms(3) k unfolding hsm_cmd_reset_retry_def the_pin_def Let_def by (auto split: if_splits)
  then show ?thesis using assms(1) wf1 wf_reset_user_pin [OF _ assms(2)] wf_reset_user_retries by blast
qed

lemma wf_same_files:
  assumes "pins_wf s" "same_files s s'" "length (puk_status s') = MAX_PUK"
  shows "pins_wf s'"
proof -
  note f = same_files_facts [OF assms(2)]
  have st: "store s' = store s" "pending_save_dkek s' = pending_save_dkek s" using assms(2) by (simp_all add: same_files_def)
  have "pin_file s' = pin_file s" "limit_file s' = limit_file s" "tries_file s' = tries_file s"
    by (simp_all add: fun_eq_iff pin_file_def limit_file_def tries_file_def f st)
  with assms(1,3) f st show ?thesis by (simp add: pins_wf_def pending_ok_def untorn_def)
qed

lemma puk_lengths:
  "hsm_cmd_challenge c cmd s = (r, s') \<Longrightarrow> length (puk_status s) = MAX_PUK \<Longrightarrow> length (puk_status s') = MAX_PUK"
  "cmd_external_authenticate c pv cmd s = (sw, s') \<Longrightarrow> length (puk_status s') = length (puk_status s)"
  "length (puk_status (sc_hsm_unload s)) = length (puk_status s)"
proof -
  show "hsm_cmd_challenge c cmd s = (r, s') \<Longrightarrow> length (puk_status s) = MAX_PUK \<Longrightarrow> length (puk_status s') = MAX_PUK"
    by (auto simp: hsm_cmd_challenge_def clear_pka_challenge_def fresh_def Let_def split: if_splits)
  have u: "puk_status (hsm_update_user_auth c x) = puk_status x" for x
    by (rule ses_only_facts [OF update_user_auth_fields(1)])
  show "cmd_external_authenticate c pv cmd s = (sw, s') \<Longrightarrow> length (puk_status s') = length (puk_status s)"
    by (auto simp: cmd_external_authenticate_def clear_pka_challenge_def u Let_def split: if_splits option.splits)
  show "length (puk_status (sc_hsm_unload s)) = length (puk_status s)"
    by (simp add: sc_hsm_unload_def clear_pka_challenge_def ses_invalidate_def Let_def)
qed

lemma wf_exec:
  assumes "pins_wf s \<and> hkdf_ok c" "hsm_exec c pv cmd s = (sw, s')"
  shows "pins_wf s' \<and> hkdf_ok c"
proof -
  have wf: "pins_wf s" "hkdf_ok c" using assms(1) by simp_all
  have "pins_wf s'"
  proof (cases cmd)
    case (Verify a)
    have v: "hsm_cmd_verify c a s = (sw, s')" using assms(2) Verify by simp
    have "s' = s \<or> (\<exists>user. hsm_check_pin c (the_pin s user) (cdata a) s = (sw, s'))"
    proof (cases "hsm_check_pin c (the_pin s True) (cdata a) s = (sw, s') \<or> hsm_check_pin c (the_pin s False) (cdata a) s = (sw, s')")
      case False
      with v show ?thesis by (auto simp: hsm_cmd_verify_def the_pin_def split: if_splits)
    qed blast
    then show ?thesis using wf(1) check_pin_wf [OF wf] by blast
  next
    case (Get_Pin_Metadata a)
    with assms show ?thesis by simp
  next
    case (Change_Pin a)
    with assms(2) wf_cmd_change_pin [OF wf] show ?thesis by simp
  next
    case (Reset_Retry a)
    with assms(2) wf_cmd_reset_retry [OF wf] show ?thesis by simp
  next
    case (Challenge a)
    then obtain r where e: "hsm_cmd_challenge c a s = (r, s')" using assms(2) by (auto split: prod.splits)
    from wf_same_files [OF wf(1) challenge_fields(1) [OF e] puk_lengths(1) [OF e]] wf(1) show ?thesis by (simp add: pins_wf_def)
  next
    case (External_Authenticate aut a)
    then have e: "cmd_external_authenticate c pv a (s\<lparr>ef_puk_aut := aut\<rparr>) = (sw, s')" using assms(2) by simp
    have "same_files s s'" using external_authenticate_fields(1) [OF e] by (simp add: same_files_def)
    from wf_same_files [OF wf(1) this] puk_lengths(2) [OF e] wf(1) show ?thesis by (simp add: pins_wf_def)
  next
    case Unload
    have "length (puk_status (sc_hsm_unload s)) = MAX_PUK" using wf(1) puk_lengths(3) by (simp add: pins_wf_def)
    from wf_same_files [OF wf(1) unload_fields(1) this] Unload assms(2) show ?thesis by simp
  qed
  with wf(2) show ?thesis by simp
qed

interpretation wf: command_invariant "hsm_exec c pv" "\<lambda>_. True" "\<lambda>s. pins_wf s \<and> hkdf_ok c" "\<lambda>_ _. True"
  by unfold_locales (use wf_exec in blast)+

text \<open>C6: the files of the two PINs stay well formed through every sequence of commands and whatever writes fail:
  each PIN keeps a file of one of the two formats and counters of one byte, the tries left never exceed the limit,
  and the variables point at the files.\<close>

theorem pin_files_stay_well_formed:
  assumes "run (hsm_exec c pv) s trace s'" "pins_wf s" "hkdf_ok c"
  shows "pins_wf s'"
  using wf.run_keeps [OF assms(1)] assms(2,3) by blast

text \<open>C2: VERIFY of either PIN succeeds only for data that matches the verifier while tries are left; it restores
  the tries, opens the session of exactly that PIN under a new epoch, and grants the operations of the key policy
  as the options demand: always without public-key authentication, on the quorum with it, and under combined
  authentication on the quorum together with the user PIN.\<close>

theorem verify_opens_session:
  assumes "pins_wf s" "hkdf_ok c" "cmd = \<lparr>P1 = 0, P2 = (if user then 0x81 else 0x88), cdata = data, ne = n\<rparr>" "data \<noteq> []"
    and "hsm_cmd_verify c cmd s = (SW_OK, s')"
  shows "verifier_matches c (pin_file s user) data \<and> tries s user \<noteq> 0 \<and> tries s' user = limit s user \<and>
    session_open c user data s' \<and>
    (hsm_object_authorization_key_operation operation False (ses s') \<longleftrightarrow>
       user_granted c user s \<and> (\<exists>k \<in> {2, 3, 4, 5, 6, 8, 9, 10, 11}. operation = push_bit k 1))"
proof -
  have k: "hsm_check_pin c (the_pin s user) data s = (SW_OK, s')"
    using assms(3-5) by (cases user) (auto simp: hsm_cmd_verify_def the_pin_def split: if_splits)
  have loc: "located s" using assms(1) by (simp add: pins_wf_def)
  have m: "pin_matches c s (the_pin s user) data" "tries s user \<noteq> 0"
    using check_pin_refused(1) [OF loc _ k] by blast+
  from check_pin_accepted(3) [OF assms(1,2) m k] have a: "session_open c user data s'"
      "isUserAuthenticated (ses s') = user_granted c user s" "tries s' user = limit s user" by simp_all
  then have "hsm_user_present False (ses s') = user_granted c user s"
    by (auto simp: hsm_user_present_def session_open_def)
  with a m show ?thesis
    by (simp add: hsm_key_operation_granted session_open_def pin_matches_file pin_file_def)
qed

section \<open>Keeping the master key\<close>

definition mkek_fid :: "bool \<Rightarrow> u16" where "mkek_fid user = (if user then EF_MKEK else EF_MKEK_SO)"

text \<open>The master key one of its files holds for a session key.\<close>

definition mkek_under :: "crypto \<Rightarrow> hsm_state \<Rightarrow> u16 \<Rightarrow> byte list \<Rightarrow> byte list option" where
  "mkek_under c s fid key =
     (let d = file_get_data (store s) (search s fid)
      in if length d = MKEK_FILE_SIZE \<and> hd d = 0x03
         then (case decrypt_with_aad c key (drop 1 d) 2 of Inl _ \<Rightarrow> None | Inr m \<Rightarrow> Some m) else None)"

definition session_key :: "bool \<Rightarrow> hsm_state \<Rightarrow> byte list" where
  "session_key user s = (if user then hsm_session_pin s else session_sopin s)"

lemma load_mkek_under:
  assumes "mkek_under c s (mkek_fid user) (session_key user s) = Some m"
    and "if user then has_session_pin (ses s) else \<not> has_session_pin (ses s) \<and> has_session_sopin (ses s)"
  shows "load_mkek c s = (Inr m, s)"
proof -
  let ?d = "file_get_data (store s) (search s (mkek_fid user))"
  have d: "length ?d = 77" "hd ?d = 3" "decrypt_with_aad c (session_key user s) (drop 1 ?d) 2 = Inr m"
    using assms(1) by (auto simp: mkek_under_def MKEK_FILE_SIZE_def Let_def split: if_splits sum.splits)
  have h: "file_has_data (store s) (search s (mkek_fid user))"
    using d(1) by (auto simp: file_has_data_def file_get_size_def file_get_data_def split: option.splits)
  have src: "mkek_source s = Some (search s (mkek_fid user), session_key user s)"
    using h assms(2) by (auto simp: mkek_source_def mkek_fid_def session_key_def split: if_splits)
  have b: "bslice 1 76 ?d = drop 1 ?d" using d(1) by (simp add: bslice_def)
  have ses: "\<not> (\<not> has_session_pin (ses s) \<and> \<not> has_session_sopin (ses s))" using assms(2) by (auto split: if_splits)
  have sz: "file_get_size (store s) (search s (mkek_fid user)) = 77" using d(1) by (simp add: file_get_size_def)
  show ?thesis
    unfolding load_mkek_def src using ses d b sz by (simp add: mkek_sizes)
qed

lemma mkek_under_same:
  "file_get_data (store s') (search s' fid) = file_get_data (store s) (search s fid) \<Longrightarrow> mkek_under c s' fid key = mkek_under c s fid key"
  by (simp add: mkek_under_def)

lemma mkek_under_written:
  assumes "writes_only F s s'" "own_fid fid" "\<forall>f \<in> F. own_fid f" "fid \<notin> F"
  shows "mkek_under c s' fid key = mkek_under c s fid key"
  using writes_only_data(1) [OF assms] writes_only_search [OF assms(1)] by (intro mkek_under_same) simp

lemma own_mkek_fid [simp]: "own_fid (mkek_fid user)"
  by (simp add: mkek_fid_def)

lemma mkek_fid_apart [simp]:
  "mkek_fid user \<noteq> tries_fid user2" "mkek_fid user \<noteq> main_fid user2" "tries_fid user2 \<noteq> mkek_fid user" "main_fid user2 \<noteq> mkek_fid user"
  "mkek_fid user = mkek_fid user2 \<longleftrightarrow> user = user2" "main_fid user = main_fid user2 \<longleftrightarrow> user = user2"
  "tries_fid user = tries_fid user2 \<longleftrightarrow> user = user2"
  by (cases user; cases user2; simp add: mkek_fid_def tries_fid_def main_fid_def hsm_fids)+

lemma mkek_fids_eq: "mkek_fids = {mkek_fid True, mkek_fid False}"
  by (simp add: mkek_fids_def mkek_fid_def)

lemma store_mkek_file_law:
  assumes "gcm_ok c" "healthy s" "length m = MKEK_SIZE" "search s fid \<noteq> None" "store_mkek_file c fid key m s = (r, s')"
  shows "r = PICOKEYS_OK" "mkek_under c s' fid key = Some m"
proof -
  obtain ef where ef: "search s fid = Some ef" using assms(4) by blast
  obtain n s1 where f: "fresh s = (n, s1)" by fastforce
  note q = quiet_fresh [OF f, of "{}"]
  have v: "kdf_key c 2 key \<noteq> None" by (simp add: kdf_key_def PIN_KDF_V2_def)
  from encrypt_with_aad_ok [OF assms(1) v, of n m] obtain sealed
    where e: "encrypt_with_aad c n key m 2 = Inr sealed" "length sealed = length m + 28" "decrypt_with_aad c key sealed 2 = Inr m" by blast
  obtain q2 s2 where p: "on_store (file_put_data (Some ef) (0x03 # sealed)) s1 = (q2, s2)" by fastforce
  have r: "r = PICOKEYS_OK" "s' = s2" using assms(5) ef f e p by (simp_all add: store_mkek_file_def)
  have e1: "search s1 fid = Some ef" using q ef by (simp add: search_def)
  have h1: "healthy s1" using q assms(2) by (simp add: quiet_def)
  note l = hsm_put_law [OF e1 p]
  have "file_get_data (store s2) (search s2 fid) = 0x03 # sealed"
    using l(3,4) h1 writes_only_search [OF l(1)] e1 by simp
  then show "r = PICOKEYS_OK" "mkek_under c s' fid key = Some m"
    using e assms(3) r by (simp_all add: mkek_under_def mkek_sizes)
qed

lemma store_mkek_law:
  assumes "gcm_ok c" "healthy s" "length m = MKEK_SIZE" "has_session_pin (ses s) \<or> has_session_sopin (ses s)"
    and "has_session_pin (ses s) \<longrightarrow> search s EF_MKEK \<noteq> None" "has_session_sopin (ses s) \<longrightarrow> search s EF_MKEK_SO \<noteq> None"
    and "store_mkek c (Some m) s = (r, s')"
  shows "r = PICOKEYS_OK"
    "if has_session_pin (ses s) then mkek_under c s' EF_MKEK (hsm_session_pin s) = Some m
     else mkek_under c s' EF_MKEK key = mkek_under c s EF_MKEK key"
    "if has_session_sopin (ses s) then mkek_under c s' EF_MKEK_SO (session_sopin s) = Some m
     else mkek_under c s' EF_MKEK_SO key = mkek_under c s EF_MKEK_SO key"
proof -
  obtain r1 s1 where k: "(if has_session_pin (ses s) then store_mkek_file c EF_MKEK (hsm_session_pin s) m s else (PICOKEYS_OK, s)) = (r1, s1)"
    by fastforce
  have q1: "quiet {EF_MKEK} s s1" using k store_mkek_file_quiet by (auto split: if_splits)
  have r1: "r1 = PICOKEYS_OK" and m1: "has_session_pin (ses s) \<Longrightarrow> mkek_under c s1 EF_MKEK (hsm_session_pin s) = Some m"
    using k store_mkek_file_law [OF assms(1-3)] assms(5) by (auto split: if_splits)
  have h1: "healthy s1" using q1 assms(2) by (simp add: quiet_def)
  have se1: "search s1 = search s" using q1 writes_only_search by (auto simp: quiet_def)
  have e: "(r, s') = (if has_session_sopin (ses s) then store_mkek_file c EF_MKEK_SO (session_sopin s) m s1 else (PICOKEYS_OK, s1))"
    using assms(4,7) k r1 by (auto simp: store_mkek_def)
  have q2: "quiet {EF_MKEK_SO} s1 s'" using e store_mkek_file_quiet by (metis quiet_refl prod.inject)
  have ne: "EF_MKEK \<noteq> EF_MKEK_SO" by (simp add: hsm_fids)
  have u1: "mkek_under c s' EF_MKEK key = mkek_under c s1 EF_MKEK key" for key
    using q2 ne by (intro mkek_under_written [where F = "{EF_MKEK_SO}"]) (auto simp: quiet_def)
  have u2: "mkek_under c s1 EF_MKEK_SO key = mkek_under c s EF_MKEK_SO key" for key
    using q1 ne by (intro mkek_under_written [where F = "{EF_MKEK}"]) (auto simp: quiet_def)
  have s2: "r = PICOKEYS_OK \<and> mkek_under c s' EF_MKEK_SO (session_sopin s) = Some m" if "has_session_sopin (ses s)"
  proof -
    from e that have w: "store_mkek_file c EF_MKEK_SO (session_sopin s) m s1 = (r, s')" by simp
    have "search s1 EF_MKEK_SO \<noteq> None" using assms(6) that se1 by simp
    from store_mkek_file_law [OF assms(1) h1 assms(3) this w] show ?thesis by simp
  qed
  show "r = PICOKEYS_OK" using e s2 by (auto split: if_splits)
  show "if has_session_pin (ses s) then mkek_under c s' EF_MKEK (hsm_session_pin s) = Some m
     else mkek_under c s' EF_MKEK key = mkek_under c s EF_MKEK key"
    using u1 m1 k by auto
  show "if has_session_sopin (ses s) then mkek_under c s' EF_MKEK_SO (session_sopin s) = Some m
     else mkek_under c s' EF_MKEK_SO key = mkek_under c s EF_MKEK_SO key"
    using u2 s2 e by auto
qed

text \<open>The last part of changing a PIN: with the new session key in place, the master key and the verifier follow.\<close>

lemma rewrite_pin_law:
  assumes "located s" "gcm_ok c" "hkdf_ok c" "healthy s" "length m = MKEK_SIZE" "has_session_pin (ses s) \<or> has_session_sopin (ses s)"
    and "has_session_pin (ses s) \<longrightarrow> search s EF_MKEK \<noteq> None" "has_session_sopin (ses s) \<longrightarrow> search s EF_MKEK_SO \<noteq> None"
    and "rewrite_pin c (the_pin s user) len pin m s = (sw, s')"
  shows "sw = SW_OK" "pin_file s' user = new_pin_file c len pin" "writes_only (mkek_fids \<union> {main_fid user}) s s'" "ses s' = ses s"
    "session_key u s' = session_key u s"
    "if has_session_pin (ses s) then mkek_under c s' EF_MKEK (hsm_session_pin s) = Some m
     else mkek_under c s' EF_MKEK key = mkek_under c s EF_MKEK key"
    "if has_session_sopin (ses s) then mkek_under c s' EF_MKEK_SO (session_sopin s) = Some m
     else mkek_under c s' EF_MKEK_SO key = mkek_under c s EF_MKEK_SO key"
proof -
  obtain r s1 where k: "store_mkek c (Some m) s = (r, s1)" by fastforce
  note st = store_mkek_law [OF assms(2,4-8) k]
  have q1: "quiet mkek_fids s s1" by (rule store_mkek_quiet [OF k])
  have h1: "healthy s1" using q1 assms(4) by (simp add: quiet_def)
  have loc: "located s1" "the_pin s1 user = the_pin s user" using assms(1) mild_keeps [OF quiet_mild [OF q1]] by simp_all
  obtain f where f: "the_pin s1 user = Some f" "search s1 (main_fid user) = Some f" by (rule located_some [OF loc(1)])
  obtain r2 s2 where p: "on_store (file_put_data (Some f) (new_pin_file c len pin)) s1 = (r2, s2)" by fastforce
  have e: "sw = SW_OK" "s' = s2" using assms(9) k st(1) p f(1) loc(2) by (simp_all add: rewrite_pin_def Let_def)
  note q2 = quiet_put [OF f(2) p] and l = hsm_put_law [OF f(2) p]
  show "sw = SW_OK" by (rule e)
  have "the_pin s2 user = Some f" using mild_keeps(2) [OF quiet_mild [OF q2]] f(1) by simp
  with l(3,4) h1 e show "pin_file s' user = new_pin_file c len pin" by (simp add: pin_file_def)
  have q3: "quiet (mkek_fids \<union> {main_fid user}) s s'"
    unfolding e(2) by (rule quiet_trans [OF quiet_mono [OF q1] quiet_mono [OF q2]]) blast+
  then show "writes_only (mkek_fids \<union> {main_fid user}) s s'" by (simp add: quiet_def)
  show "ses s' = ses s" by (rule quiet_ses [OF q3])
  have "rest_same s s'" using q3 by (simp add: quiet_def)
  from rest_same_fields(2,3) [OF this] show "session_key u s' = session_key u s" by (simp add: session_key_def)
  have u: "mkek_under c s' (mkek_fid x) key = mkek_under c s1 (mkek_fid x) key" for x key
    unfolding e(2) using l(1) by (intro mkek_under_written) auto
  show "if has_session_pin (ses s) then mkek_under c s' EF_MKEK (hsm_session_pin s) = Some m
     else mkek_under c s' EF_MKEK key = mkek_under c s EF_MKEK key"
    using st(2) u [of True] by (simp add: mkek_fid_def)
  show "if has_session_sopin (ses s) then mkek_under c s' EF_MKEK_SO (session_sopin s) = Some m
     else mkek_under c s' EF_MKEK_SO key = mkek_under c s EF_MKEK_SO key"
    using st(3) u [of False] by (simp add: mkek_fid_def)
qed

lemma check_pin_succeeds:
  assumes "pins_wf s" "hkdf_ok c" "pin_matches c s (the_pin s user) data" "tries s user \<noteq> 0" "healthy s" "length (pin_file s user) = 34"
    and "hsm_check_pin c (the_pin s user) data s = (sw, s')"
  shows "sw = SW_OK" "healthy s'"
proof -
  let ?s1 = "check_start s"
  note f = ses_only_facts [OF check_start_law(1) [of s]]
  have loc: "located s" "located ?s1" "the_pin ?s1 user = the_pin s user" using assms(1) f by (simp_all add: pins_wf_def)
  from check_pin_steps [OF loc(1) assms(3,4,7)] obtain r2 s2
    where q: "hsm_pin_reset_retries (the_pin s user) False ?s1 = (r2, s2)"
      and bad: "r2 \<noteq> PICOKEYS_OK \<Longrightarrow> sw \<noteq> SW_OK \<and> s' = s2"
      and good: "r2 = PICOKEYS_OK \<Longrightarrow> \<exists>r3 s3.
       (if length (pin_file s user) = 33 then upgrade_pin c (the_pin s user) data s2 else (PICOKEYS_OK, s2)) = (r3, s3) \<and>
       (if r3 = PICOKEYS_OK then sw = SW_OK \<and> s' = finish_pending c (last_step c (the_pin s user) data s3) else sw \<noteq> SW_OK \<and> s' = s3)"
    by blast
  have "r2 = PICOKEYS_OK"
    using reset_retries_law(5) [OF loc(2) q [folded loc(3)]] assms(4,5) f(4,16) by simp
  from good [OF this] obtain r3 s3 where "(PICOKEYS_OK, s2) = (r3, s3)"
      "if r3 = PICOKEYS_OK then sw = SW_OK \<and> s' = finish_pending c (last_step c (the_pin s user) data s3) else sw \<noteq> SW_OK \<and> s' = s3"
    unfolding assms(6) by auto
  then show "sw = SW_OK" by simp
  from check_pin_accepted(2) [OF assms(1-4,7)] assms(5) show "healthy s'" by (simp add: tame_def)
qed

text \<open>The data of a command that holds the present PIN and a new one behind it.\<close>

definition both_pins :: "hsm_state \<Rightarrow> bool \<Rightarrow> byte list \<Rightarrow> byte list \<Rightarrow> byte list \<Rightarrow> bool" where
  "both_pins s user old new data \<longleftrightarrow> data = old @ new \<and> length old = unat (hd (pin_file s user)) \<and> new \<noteq> [] \<and> length new \<le> 16"

text \<open>A PIN in the new format that guards a master key, with tries left.\<close>

definition guards :: "crypto \<Rightarrow> hsm_state \<Rightarrow> bool \<Rightarrow> byte list \<Rightarrow> byte list \<Rightarrow> bool" where
  "guards c s user pin mkek \<longleftrightarrow>
     length (pin_file s user) = 34 \<and> verifier_matches c (pin_file s user) pin \<and> tries s user \<noteq> 0 \<and>
     length mkek = MKEK_SIZE \<and> mkek_under c s (mkek_fid user) (pin_derive_session c pin) = Some mkek"

lemma guards_accept:
  assumes "pins_wf s" "hkdf_ok c" "healthy s" "pending_save_dkek s = 0xff" "guards c s user pin mkek"
    and "hsm_check_pin c (the_pin s user) pin s = (sw, s')"
  shows "sw = SW_OK" "healthy s'" "pins_wf s'" "writes_only {tries_fid user} s s'" "session_open c user pin s'"
    "load_mkek c s' = (Inr mkek, s')" "tries s' user = limit s user"
proof -
  have g: "length (pin_file s user) = 34" "tries s user \<noteq> 0" "mkek_under c s (mkek_fid user) (pin_derive_session c pin) = Some mkek"
    "pin_matches c s (the_pin s user) pin"
    using assms(5) by (simp_all add: guards_def pin_matches_file pin_file_def)
  show ok: "sw = SW_OK" "healthy s'"
    by (rule check_pin_succeeds [OF assms(1,2) g(4,2) assms(3) g(1) assms(6)])+
  note a = check_pin_accepted [OF assms(1,2) g(4,2) assms(6)]
  show "pins_wf s'" by (rule a(1))
  show w: "writes_only {tries_fid user} s s'" by (rule a(4) [OF ok(1) g(1) assms(4)])
  from a(3) [OF ok(1)] show so: "session_open c user pin s'" and "tries s' user = limit s user" by simp_all
  have "mkek_under c s' (mkek_fid user) (session_key user s') = Some mkek"
    using mkek_under_written [OF w own_mkek_fid] g(3) so by (simp add: session_open_def session_key_def)
  then show "load_mkek c s' = (Inr mkek, s')"
    by (rule load_mkek_under) (use so in \<open>simp add: session_open_def\<close>)
qed

lemma under_some: "mkek_under c s fid key = Some m \<Longrightarrow> search s fid \<noteq> None"
  by (cases "search s fid") (simp_all add: mkek_under_def file_get_data_def MKEK_FILE_SIZE_def)

lemma read_first: "file_get_data st f \<noteq> [] \<Longrightarrow> file_read_uint8 st f = hd (file_get_data st f)"
proof -
  assume d: "file_get_data st f \<noteq> []"
  then obtain r e where r: "f = Some r" "content st r = Some e" by (auto simp: file_get_data_def split: option.splits)
  with d obtain b xs where "e = b # xs" by (cases e) (simp_all add: file_get_data_def)
  with r show ?thesis by (simp add: file_read_uint8_def file_read_at_def file_get_size_def file_get_data_def bslice_def)
qed

lemma matches_new_file: "hkdf_ok c \<Longrightarrow> verifier_matches c (new_pin_file c len pin) pin"
  by (simp add: verifier_matches_def new_pin_file_def pin_derive_verifier_def hkdf_ok_def bslice_def)

text \<open>C3: changing a PIN with the right present PIN succeeds, and the new PIN then guards the same master key: it is
  the one the open session loads, its file is sealed under the new PIN's session key, and the new verifier accepts
  the new PIN. The other PIN and its copy of the master key are untouched.\<close>

theorem change_pin_keeps_master_key:
  assumes "pins_wf s" "gcm_ok c" "hkdf_ok c" "healthy s" "pending_save_dkek s = 0xff"
    and "guards c s user old mkek" "both_pins s user old new data"
    and "hsm_cmd_change_pin c \<lparr>P1 = 0, P2 = (if user then 0x81 else 0x88), cdata = data, ne = n\<rparr> s = (sw, s')"
  shows "sw = SW_OK \<and> load_mkek c s' = (Inr mkek, s') \<and> mkek_under c s' (mkek_fid user) (pin_derive_session c new) = Some mkek \<and>
    verifier_matches c (pin_file s' user) new \<and> hd (pin_file s' user) = of_nat (length new) \<and>
    pin_file s' (\<not> user) = pin_file s (\<not> user) \<and> mkek_under c s' (mkek_fid (\<not> user)) = mkek_under c s (mkek_fid (\<not> user))"
proof -
  have loc: "located s" using assms(1) by (simp add: pins_wf_def)
  have d: "data = old @ new" "length old = unat (hd (pin_file s user))" "new \<noteq> []" "length new \<le> 16"
    using assms(7) by (simp_all add: both_pins_def)
  have len: "length (pin_file s user) = 34" using assms(6) by (simp add: guards_def)
  have hd: "file_read_uint8 (store s) (the_pin s user) = hd (pin_file s user)"
    using len read_first [of "store s" "the_pin s user"] by (cases "pin_file s user") (simp_all add: pin_file_def)
  have has: "file_has_data (store s) (the_pin s user)" by (rule has_pin_data) (simp add: len)
  obtain r s1 where k: "hsm_check_pin c (the_pin s user) old s = (r, s1)" by fastforce
  note a = guards_accept [OF assms(1,3,4,5,6) k]
  let ?key = "pin_derive_session c new"
  let ?s2 = "if user then s1\<lparr>hsm_session_pin := ?key, ses := (ses s1)\<lparr>has_session_pin := True\<rparr>\<rparr>
             else s1\<lparr>session_sopin := ?key, ses := (ses s1)\<lparr>has_session_sopin := True\<rparr>\<rparr>"
  have p1: "the_pin s user \<noteq> None" using loc by (auto simp: located_def)
  have rw: "rewrite_pin c (the_pin s user) (of_nat (length new)) new mkek ?s2 = (sw, s')"
    using assms(8) k a(1,6) d has p1 hd unfolding hsm_cmd_change_pin_def the_pin_def by (auto simp: Let_def split: if_splits)
  have m2: "mild {} s1 ?s2" by (simp add: mild_def writes_only_def healthy_def untorn_def)
  have loc2: "located ?s2" "the_pin ?s2 user = the_pin s user" "healthy ?s2" "search ?s2 = search s"
    using a(2,3) mild_keeps [OF m2] m2 writes_only_the_pin [OF a(4), of user] writes_only_search [OF a(4)]
    by (simp_all add: pins_wf_def mild_def)
  have fl: "has_session_pin (ses ?s2) = user" "has_session_sopin (ses ?s2) = (\<not> user)" "session_key user ?s2 = ?key"
    using a(5) by (simp_all add: session_open_def session_key_def)
  have m: "length mkek = MKEK_SIZE" "search s (mkek_fid user) \<noteq> None" using assms(6) under_some by (auto simp: guards_def)
  have some: "has_session_pin (ses ?s2) \<or> has_session_sopin (ses ?s2)"
    "has_session_pin (ses ?s2) \<longrightarrow> search ?s2 EF_MKEK \<noteq> None" "has_session_sopin (ses ?s2) \<longrightarrow> search ?s2 EF_MKEK_SO \<noteq> None"
    using fl(1,2) m(2) unfolding loc2(4) by (cases user; simp add: mkek_fid_def)+
  note w = rewrite_pin_law [OF loc2(1) assms(2,3) loc2(3) m(1) some rw [folded loc2(2)]]
  have new: "mkek_under c s' (mkek_fid user) ?key = Some mkek"
    using w(6,7) fl by (cases user) (simp_all add: mkek_fid_def session_key_def)
  have load: "load_mkek c s' = (Inr mkek, s')"
  proof (rule load_mkek_under [where user = user])
    show "mkek_under c s' (mkek_fid user) (session_key user s') = Some mkek" using new w(5) fl(3) by simp
    show "if user then has_session_pin (ses s') else \<not> has_session_pin (ses s') \<and> has_session_sopin (ses s')"
      unfolding w(4) fl(1,2) by simp
  qed
  have other: "mkek_under c s' (mkek_fid (\<not> user)) key = mkek_under c s (mkek_fid (\<not> user)) key" for key
  proof -
    have "mkek_under c s' (mkek_fid (\<not> user)) key = mkek_under c ?s2 (mkek_fid (\<not> user)) key"
      using rewrite_pin_law(6,7) [OF loc2(1) assms(2,3) loc2(3) m(1) some rw [folded loc2(2)], of key] fl(1,2)
      by (cases user) (simp_all add: mkek_fid_def)
    also have "\<dots> = mkek_under c s1 (mkek_fid (\<not> user)) key" by (rule mkek_under_same) (simp add: search_def)
    also have "\<dots> = mkek_under c s (mkek_fid (\<not> user)) key" by (rule mkek_under_written [OF a(4)]) simp_all
    finally show ?thesis .
  qed
  have "writes_only {} s1 ?s2" using m2 by (simp add: mild_def)
  then have "writes_only (mkek_fids \<union> {main_fid user}) s1 s'" by (rule writes_only_trans [OF _ w(3)]) simp
  then have s12: "writes_only (mkek_fids \<union> {main_fid user, tries_fid user}) s s'" by (rule writes_only_trans [OF a(4)]) auto
  have "pin_file s' (\<not> user) = pin_file s (\<not> user)"
    by (rule writes_only_pin_file [OF s12 _ _ loc]) (auto simp: mkek_fids_eq)
  with load new other w(1,2) show ?thesis
    using matches_new_file [OF assms(3)] by (simp add: fun_eq_iff new_pin_file_def)
qed

text \<open>The officer's session resets the user PIN: tries, master key and verifier.\<close>

lemma reset_user_pin_law:
  assumes "pins_wf s" "gcm_ok c" "hkdf_ok c" "healthy s" "\<not> has_session_pin (ses s)" "has_session_sopin (ses s)"
    and "mkek_under c s EF_MKEK_SO (session_sopin s) = Some mkek" "length mkek = MKEK_SIZE" "search s EF_MKEK \<noteq> None"
    and "data = old @ new" "unat len = length new" "reset_user_pin c len data s = (sw, s')"
  shows "sw = SW_OK" "pin_file s' True = new_pin_file c len new" "tries s' True = limit s True"
    "writes_only (mkek_fids \<union> {main_fid True, tries_fid True}) s s'"
    "mkek_under c s' EF_MKEK (pin_derive_session c new) = Some mkek" "mkek_under c s' EF_MKEK_SO (session_sopin s) = Some mkek"
proof -
  have loc: "located s" using assms(1) by (simp add: pins_wf_def)
  obtain r2 s2 where q: "hsm_pin_reset_retries (the_pin s True) True s = (r2, s2)" by fastforce
  note lq = reset_retries_law [OF loc q] and wq = wf_reset_retries [OF assms(1) q]
  have ok2: "r2 = PICOKEYS_OK" "healthy s2" using lq(5) assms(4) by simp_all
  have key: "session_sopin s2 = session_sopin s" by (rule rest_same_fields(3) [OF lq(2)])
  have load2: "load_mkek c s2 = (Inr mkek, s2)"
  proof (rule load_mkek_under [where user = False])
    show "mkek_under c s2 (mkek_fid False) (session_key False s2) = Some mkek"
      using assms(7) key mkek_under_written [OF wq(3) own_mkek_fid, of False] by (simp add: session_key_def mkek_fid_def)
    show "if False then has_session_pin (ses s2) else \<not> has_session_pin (ses s2) \<and> has_session_sopin (ses s2)"
      using assms(5,6) wq(2) by simp
  qed
  let ?s3 = "ses_invalidate s2" and ?key = "pin_derive_session c new"
  let ?x = "?s3\<lparr>hsm_session_pin := ?key, ses := (ses ?s3)\<lparr>has_session_pin := True\<rparr>\<rparr>"
  have rw: "rewrite_pin c (the_pin ?x True) len new mkek ?x = (sw, s')"
    using assms(10-12) q ok2(1) load2 by (simp add: reset_user_pin_def the_pin_def Let_def)
  have m3: "mild {} s2 ?x"
    using ses_only_mild [OF ses_steps(1), of "{}" s2] by (simp add: mild_def writes_only_def healthy_def untorn_def)
  have locx: "located ?x" "healthy ?x" using mild_keeps(1) [OF m3] wq(1) m3 ok2(2) by (simp_all add: pins_wf_def mild_def)
  have sx: "search ?x = search s" using mild_keeps(3) [OF m3] writes_only_search [OF wq(3)] by simp
  have fl: "has_session_pin (ses ?x)" "has_session_sopin (ses ?x)" "session_sopin ?x = session_sopin s"
    using assms(6) wq(2) key ses_only_keys(2) [OF ses_steps(1), of s2] by (simp_all add: ses_steps)
  have some: "has_session_pin (ses ?x) \<or> has_session_sopin (ses ?x)"
    "has_session_pin (ses ?x) \<longrightarrow> search ?x EF_MKEK \<noteq> None" "has_session_sopin (ses ?x) \<longrightarrow> search ?x EF_MKEK_SO \<noteq> None"
    using fl(1) assms(9) under_some [OF assms(7)] unfolding sx by simp_all
  note w = rewrite_pin_law [OF locx(1) assms(2,3) locx(2) assms(8) some rw]
  show "sw = SW_OK" "pin_file s' True = new_pin_file c len new" by (fact w)+
  show "mkek_under c s' EF_MKEK ?key = Some mkek" using w(6) fl(1) by simp
  show "mkek_under c s' EF_MKEK_SO (session_sopin s) = Some mkek" using w(7) fl(2,3) by simp
  have "tries s' True = tries ?x True"
    by (rule writes_only_tries(1) [OF w(3)]) (use own_mkek in \<open>auto simp: mkek_apart\<close>)
  also have "\<dots> = tries s2 True" using mild_keeps(3) [OF m3] by (simp add: tries_def ses_only_facts(1) [OF ses_steps(1)])
  also have "\<dots> = limit s True" using lq(4) ok2(1) by simp
  finally show "tries s' True = limit s True" .
  have "writes_only {} s2 ?x" using m3 by (simp add: mild_def)
  then have "writes_only (mkek_fids \<union> {main_fid True}) s2 s'" by (rule writes_only_trans [OF _ w(3)]) simp
  then show "writes_only (mkek_fids \<union> {main_fid True, tries_fid True}) s s'"
    by (rule writes_only_trans [OF wq(3)]) auto
qed

text \<open>C4: the security officer gives the user a new PIN without losing the master key: RESET RETRY COUNTER with the
  right officer PIN succeeds even when the user PIN is blocked, the new PIN guards the master key that the officer
  PIN guards, its tries are restored, and the officer PIN still guards it.\<close>

theorem so_reset_keeps_master_key:
  assumes "pins_wf s" "gcm_ok c" "hkdf_ok c" "healthy s" "pending_save_dkek s = 0xff" "has_option c s HSM_OPT_RRC"
    and "guards c s False old mkek" "both_pins s False old new data" "1 < length new" "search s EF_MKEK \<noteq> None" "limit s True \<noteq> 0"
    and "hsm_cmd_reset_retry c \<lparr>P1 = 0, P2 = 0x81, cdata = data, ne = n\<rparr> s = (sw, s')"
  shows "sw = SW_OK \<and> guards c s' True new mkek \<and> tries s' True = limit s True \<and>
    mkek_under c s' EF_MKEK_SO (pin_derive_session c old) = Some mkek"
proof -
  have loc: "located s" using assms(1) by (simp add: pins_wf_def)
  have d: "data = old @ new" "length old = unat (hd (pin_file s False))" "length new \<le> 16"
    using assms(8) by (simp_all add: both_pins_def)
  have len: "length (pin_file s False) = 34" using assms(7) by (simp add: guards_def)
  have hd: "file_read_uint8 (store s) (the_pin s False) = hd (pin_file s False)"
    using len read_first [of "store s" "the_pin s False"] by (cases "pin_file s False") (simp_all add: pin_file_def)
  have has: "file_has_data (store s) (the_pin s False)" by (rule has_pin_data) (simp add: len)
  obtain r s1 where k: "hsm_check_pin c (the_pin s False) old s = (r, s1)" by fastforce
  note a = guards_accept [OF assms(1,3,4,5,7) k]
  have loc1: "located s1" using a(3) by (simp add: pins_wf_def)
  have small: "unat (hd (pin_file s False)) < 256" using unsigned_less [of "hd (pin_file s False)"] by simp
  have nb: "of_nat (length data) - hd (pin_file s False) = (of_nat (length new) :: byte)"
    using d(1,2) by simp
  have nl: "unat (of_nat (length new) :: byte) = length new" using d(3) by (simp add: unat_of_nat take_bit_nat_eq_self)
  have nn: "\<not> length data mod 0x10000 \<le> unat (hd (pin_file s False)) + 1" using d small assms(9) by simp
  have pn: "the_pin s user \<noteq> None" for user using loc by (auto simp: located_def)
  have ru: "reset_user_pin c (of_nat (length new)) data s1 = (sw, s')"
    using assms(12) k a(1) nb nn has pn [of True] pn [of False] hd d(1,2) assms(6)
    unfolding hsm_cmd_reset_retry_def the_pin_def by (auto simp: Let_def)
  have so1: "\<not> has_session_pin (ses s1)" "has_session_sopin (ses s1)" "session_sopin s1 = pin_derive_session c old"
    using a(5) by (simp_all add: session_open_def)
  have "mkek_under c s1 (mkek_fid False) = mkek_under c s (mkek_fid False)"
    by (rule ext) (rule mkek_under_written [OF a(4)], simp_all)
  then have u1: "mkek_under c s1 EF_MKEK_SO (session_sopin s1) = Some mkek"
    using assms(7) so1(3) by (simp add: guards_def mkek_fid_def)
  have m: "length mkek = MKEK_SIZE" "search s1 EF_MKEK \<noteq> None"
    using assms(7,10) writes_only_search [OF a(4)] by (simp_all add: guards_def)
  note w = reset_user_pin_law [OF a(3) assms(2,3) a(2) so1(1,2) u1 m d(1) nl ru]
  have t: "tries s' True = limit s True"
    using w(3) writes_only_tries(2) [OF a(4), of True] by simp
  have "guards c s' True new mkek"
    using w(2,5) matches_new_file [OF assms(3)] length_new_pin_file [OF assms(3)] t assms(11) m(1)
    by (simp add: guards_def mkek_fid_def)
  with t w(1,6) so1(3) show ?thesis by simp
qed

section \<open>Two weaknesses\<close>

text \<open>C7: with public-key authentication a wrong PIN does not end an authentication: a user authenticated before
  stays so although no PIN session is open any more - even where the options demand the quorum together with a
  verified PIN.\<close>

theorem wrong_pin_keeps_authentication:
  assumes "pins_wf s" "pka_enabled s" "isUserAuthenticated (ses s)" "\<not> verifier_matches c (pin_file s user) data"
    and "hsm_check_pin c (the_pin s user) data s = (sw, s')"
  shows "sw \<noteq> SW_OK \<and> isUserAuthenticated (ses s') \<and> \<not> has_session_pin (ses s') \<and> \<not> has_session_sopin (ses s')"
proof -
  have loc: "located s" "length (pin_file s user) \<in> {33, 34}" using assms(1) by (simp_all add: pins_wf_def)
  have nm: "\<not> pin_matches c s (the_pin s user) data" using assms(4) by (simp add: pin_matches_file pin_file_def)
  from check_pin_refused(1,5) [OF loc(1) disjI2 [OF nm] assms(5)] has_pin_data [OF loc(2)]
  have "sw \<noteq> SW_OK" "rest_same (check_start s) s'" by blast+
  with rest_same_fields(1) [OF this(2)] check_start_law(2-4) assms(2,3) show ?thesis by simp
qed

text \<open>C8: RESET RETRY COUNTER with P1 = 2 accepts an empty new PIN, which disables the user PIN: its file then says
  length zero, and VERIFY takes it for one that was never set and refuses every PIN until the officer sets another.\<close>

theorem empty_reset_disables_user_pin:
  assumes "pins_wf s" "gcm_ok c" "hkdf_ok c" "healthy s" "has_option c s HSM_OPT_RRC" "\<not> has_option c s HSM_OPT_TRANSPORT_PIN"
    and "\<not> pka_enabled s" "\<not> has_session_pin (ses s)" "has_session_sopin (ses s)" "search s EF_MKEK \<noteq> None"
    and "mkek_under c s EF_MKEK_SO (session_sopin s) = Some mkek" "length mkek = MKEK_SIZE"
    and "hsm_cmd_reset_retry c \<lparr>P1 = 2, P2 = 0x81, cdata = [], ne = n\<rparr> s = (sw, s')"
  shows "sw = SW_OK \<and> hd (pin_file s' True) = 0 \<and>
    hsm_cmd_verify c (verify_user (b # data)) s' = (SW_REFERENCE_NOT_FOUND, s')"
proof -
  have loc: "located s" using assms(1) by (simp add: pins_wf_def)
  have so: "file_has_data (store s) (the_pin s False)"
    using assms(1) by (intro has_pin_data) (auto simp: pins_wf_def)
  have pn: "the_pin s user \<noteq> None" for user using loc by (auto simp: located_def)
  have ru: "reset_user_pin c 0 [] s = (sw, s')"
    using assms(5,9,13) so pn [of True] pn [of False] unfolding hsm_cmd_reset_retry_def the_pin_def by (auto simp: Let_def)
  note w = reset_user_pin_law [OF assms(1-4,8,9,11,12,10) _ _ ru, of "[]" "[]", simplified]
  have own: "\<forall>f \<in> insert (main_fid True) (insert (tries_fid True) mkek_fids). own_fid f" using own_mkek by auto
  have z: "hd (pin_file s' True) = 0" "pin_file s' True \<noteq> []" by (simp_all add: w(2) new_pin_file_def)
  have f: "file_byte c s' (file_pin1 s') 0 = 0"
    using z by (cases "pin_file s' True") (auto simp: file_byte_def byte_at_def pin_file_def the_pin_def)
  have "has_option c s' HSM_OPT_TRANSPORT_PIN = has_option c s HSM_OPT_TRANSPORT_PIN"
    by (rule writes_only_options [OF w(4) own]) (auto simp: mkek_fids_def hsm_fids main_fid_def tries_fid_def)
  moreover have "pka_enabled s' = pka_enabled s"
    by (rule writes_only_pka(1) [OF w(4) own]) (auto simp: mkek_fids_def hsm_fids main_fid_def tries_fid_def)
  ultimately show ?thesis
    using w(1) z(1) f assms(6,7) by (simp add: hsm_cmd_verify_def verify_user_def)
qed

section \<open>On the example device\<close>

lemma example_crypto [simp]: "gcm_ok crypto_example" "hkdf_ok crypto_example"
  by (simp_all add: gcm_ok_def hkdf_ok_def crypto_example_def min_def)

definition example_pin :: "bool \<Rightarrow> byte list" where
  "example_pin user = (if user then [1, 2, 3, 4] else [5, 6, 7, 8, 9, 0])"

definition example_mkek :: "byte list" where "example_mkek = replicate 48 5"

lemma example_pin_file:
  "pin_file (pin_state n q) user = new_pin_file crypto_example (of_nat (length (example_pin user))) (example_pin user)"
  by (simp add: pin_file_def the_pin_def pin_content_def example_pin_def)

lemma example_counters:
  "limit_file (pin_state n q) user = [if user then 3 else 15]" "tries_file (pin_state n q) user = [if user then n else 15]"
  by (simp_all add: limit_file_def tries_file_def limit_fid_def tries_fid_def pin_content_def)

lemma example_limit: "limit (pin_state n q) user = (if user then 3 else 15)" "tries (pin_state n q) user = (if user then n else 15)"
  by (cases user; simp add: limit_def tries_def limit_fid_def tries_fid_def; rule read_written; simp add: pin_content_def)+

lemma example_pins_wf: "n \<le> 3 \<Longrightarrow> pins_wf (pin_state n q)"
  by (simp add: pins_wf_def untorn_def pending_ok_def MAX_PUK_def example_pin_file example_counters example_limit all_bool_eq)

lemma example_sealed:
  "mkek_under crypto_example (pin_state n q) (mkek_fid user) (pin_derive_session crypto_example (example_pin user)) = Some example_mkek"
proof -
  let ?k = "pin_derive_session crypto_example (example_pin user)"
  have "kdf_key crypto_example 2 ?k \<noteq> None" by (simp add: kdf_key_def PIN_KDF_V1_def PIN_KDF_V2_def)
  from encrypt_with_aad_ok [OF example_crypto(1) this, of 0 example_mkek] obtain sealed
    where e: "encrypt_with_aad crypto_example 0 ?k example_mkek 2 = Inr sealed" "length sealed = length example_mkek + 28"
      "decrypt_with_aad crypto_example ?k sealed 2 = Inr example_mkek" by blast
  then have "file_get_data (store (pin_state n q)) (search (pin_state n q) (mkek_fid user)) = 0x03 # sealed"
    by (cases user) (simp_all add: mkek_fid_def pin_content_def sealed_example_def example_pin_def example_mkek_def)
  with e(2,3) show ?thesis by (simp add: mkek_under_def MKEK_FILE_SIZE_def example_mkek_def)
qed

lemma example_guards: "(if user then n else 15) \<noteq> 0 \<Longrightarrow> guards crypto_example (pin_state n q) user (example_pin user) example_mkek"
  by (simp add: guards_def example_pin_file example_limit example_sealed example_matches) (simp add: example_mkek_def MKEK_SIZE_def)

lemma example_both:
  "new \<noteq> [] \<Longrightarrow> length new \<le> 16 \<Longrightarrow> both_pins (pin_state n q) user (example_pin user) new (example_pin user @ new)"
  by (simp add: both_pins_def example_pin_file new_pin_file_def example_pin_def)

lemma example_pka: "\<not> pka_enabled (pin_state n None)" "pka_enabled (pin_state n (Some (2 # bs)))"
  by (simp_all add: pka_enabled_def pin_content_def)
    (simp add: file_read_uint8_def file_read_at_def file_get_size_def file_get_data_def bslice_def pin_state_def pin_content_def)

lemma example_options: "has_option crypto_example (pin_state n q) HSM_OPT_RRC" "\<not> has_option crypto_example (pin_state n q) HSM_OPT_TRANSPORT_PIN"
  by (simp_all add: has_option_def pin_state_options HSM_OPT_RRC_def HSM_OPT_TRANSPORT_PIN_def)

theorem pin_files_stay_well_formed_witness:
  "pins_wf (snd (hsm_exec crypto_example (\<lambda>_ _ _. True) (Verify (verify_user [9])) (pin_state 2 None)))"
  by (rule pin_files_stay_well_formed [OF run_step [OF surjective_pairing run_done] example_pins_wf]) simp_all

lemma example_healthy [simp]: "healthy (pin_state n q)"
  by (simp add: healthy_def)

theorem verify_opens_session_witness:
  "tries (snd (hsm_cmd_verify crypto_example \<lparr>P1 = 0, P2 = 0x81, cdata = [1, 2, 3, 4], ne = 0\<rparr> (pin_state 2 None))) True = 3 \<and>
   hsm_object_authorization_key_operation (push_bit 2 1) False
     (ses (snd (hsm_cmd_verify crypto_example \<lparr>P1 = 0, P2 = 0x81, cdata = [1, 2, 3, 4], ne = 0\<rparr> (pin_state 2 None))))"
proof -
  let ?s = "pin_state 2 None" and ?cmd = "\<lparr>P1 = 0, P2 = 0x81, cdata = [1, 2, 3, 4], ne = 0\<rparr> :: pin_apdu"
  obtain sw s' where v: "hsm_cmd_verify crypto_example ?cmd ?s = (sw, s')" by fastforce
  have g: "guards crypto_example ?s True [1, 2, 3, 4] example_mkek"
    using example_guards [of True 2 None] by (simp add: example_pin_def)
  have "file_byte crypto_example ?s (file_pin1 ?s) 0 = 4"
    by (simp add: file_byte_def byte_at_def pin_content_def) (simp add: new_pin_file_def)
  then have k: "hsm_check_pin crypto_example (the_pin ?s True) [1, 2, 3, 4] ?s = (sw, s')"
    using v example_options(2) [of 2 None] by (simp add: hsm_cmd_verify_def the_pin_def)
  have "sw = SW_OK" by (rule guards_accept(1) [OF _ _ _ _ g k]) (simp_all add: example_pins_wf)
  with v have v: "hsm_cmd_verify crypto_example ?cmd ?s = (SW_OK, s')" by simp
  show ?thesis
    using verify_opens_session [OF example_pins_wf example_crypto(2) _ _ v, of True "[1, 2, 3, 4]" 0 "push_bit 2 1"]
    unfolding v by (simp add: example_limit user_granted_def example_pka)
qed

theorem change_pin_keeps_master_key_witness:
  "fst (hsm_cmd_change_pin crypto_example \<lparr>P1 = 0, P2 = 0x81, cdata = example_pin True @ [7, 7], ne = 0\<rparr> (pin_state 3 None)) = SW_OK"
proof -
  obtain sw s' where r: "hsm_cmd_change_pin crypto_example \<lparr>P1 = 0, P2 = 0x81, cdata = example_pin True @ [7, 7], ne = 0\<rparr>
      (pin_state 3 None) = (sw, s')" by fastforce
  with change_pin_keeps_master_key [OF example_pins_wf example_crypto example_healthy _ example_guards example_both,
      of 3 None True "[7, 7]" 0 sw s'] show ?thesis by simp
qed

text \<open>The user PIN is blocked here.\<close>

theorem so_reset_keeps_master_key_witness:
  "fst (hsm_cmd_reset_retry crypto_example \<lparr>P1 = 0, P2 = 0x81, cdata = example_pin False @ [7, 7], ne = 0\<rparr> (pin_state 0 None)) = SW_OK"
proof -
  obtain sw s' where r: "hsm_cmd_reset_retry crypto_example \<lparr>P1 = 0, P2 = 0x81, cdata = example_pin False @ [7, 7], ne = 0\<rparr>
      (pin_state 0 None) = (sw, s')" by fastforce
  with so_reset_keeps_master_key [OF example_pins_wf example_crypto example_healthy _ example_options(1) example_guards example_both,
      of 0 None "[7, 7]" 0 sw s'] show ?thesis by (simp add: example_limit)
qed

text \<open>Two authorities of two, and a quorum of one.\<close>

theorem wrong_pin_keeps_authentication_witness:
  "isUserAuthenticated (ses (snd (hsm_check_pin crypto_example (Some (Static 3 9)) [9]
     (set_authenticated True (pin_state 3 (Some [2, 2, 1, 0]))))))"
proof -
  let ?p = "pin_state 3 (Some [2, 2, 1, 0])"
  let ?s = "set_authenticated True ?p"
  obtain sw s' where r: "hsm_check_pin crypto_example (the_pin ?s True) [9] ?s = (sw, s')" by fastforce
  have f: "the_pin ?s True = Some (Static 3 9)" "pin_file ?s True = pin_file ?p True" "pka_enabled ?s" "isUserAuthenticated (ses ?s)"
    using example_pka(2) [of 3 "[2, 1, 0]"] by (simp_all add: the_pin_def set_authenticated_def pin_file_def pka_enabled_def search_def)
  have wf: "pins_wf ?s" by (rule wf_ses_only [OF example_pins_wf ses_steps(2)]) simp
  have "\<not> verifier_matches crypto_example (pin_file ?s True) [9]"
    by (simp add: f(2) example_pin_file example_matches example_verifier_eq pad32_def example_pin_def)
  from wrong_pin_keeps_authentication [OF wf f(3,4) this r] r f(1) show ?thesis by simp
qed

definition officer_state :: hsm_state where
  "officer_state = (pin_state 3 None)\<lparr>session_sopin := pin_derive_session crypto_example (example_pin False),
     ses := (ses (pin_state 3 None))\<lparr>has_session_sopin := True\<rparr>\<rparr>"

lemma officer_same:
  "search officer_state = search (pin_state 3 None)" "store officer_state = store (pin_state 3 None)"
  by (simp_all add: officer_state_def fun_eq_iff search_def)

theorem empty_reset_disables_user_pin_witness:
  "fst (hsm_cmd_reset_retry crypto_example \<lparr>P1 = 2, P2 = 0x81, cdata = [], ne = 0\<rparr> officer_state) = SW_OK"
proof -
  obtain sw s' where r: "hsm_cmd_reset_retry crypto_example \<lparr>P1 = 2, P2 = 0x81, cdata = [], ne = 0\<rparr> officer_state = (sw, s')"
    by fastforce
  have wf: "pins_wf officer_state" unfolding officer_state_def by (rule wf_session(2)) (simp add: example_pins_wf)
  have o: "has_option crypto_example officer_state = has_option crypto_example (pin_state 3 None)"
    "pka_enabled officer_state = pka_enabled (pin_state 3 None)" "healthy officer_state"
    by (simp_all add: fun_eq_iff has_option_def get_device_options_def file_byte_def pka_enabled_def officer_same healthy_def Let_def)
  have m: "mkek_under crypto_example officer_state EF_MKEK_SO key = mkek_under crypto_example (pin_state 3 None) EF_MKEK_SO key" for key
    by (rule mkek_under_same) (simp add: officer_same)
  show ?thesis
    using empty_reset_disables_user_pin [OF wf example_crypto o(3) _ _ _ _ _ _ _ _ r, of example_mkek 0 "[]"] r
      example_sealed [of 3 None False] example_options [of 3 None] example_pka(1)
    by (simp add: o m officer_same) (simp add: officer_state_def mkek_fid_def example_mkek_def MKEK_SIZE_def)
qed

end
