(* ===== verification/Spec2Isabelle.thy ===== *)
theory Spec2Isabelle
  imports Prelude Tlv File_Index Dynamic_Index Apps Apdu Phy File_Store Object_Policy Object_Store Object_Txn Txn_Handles Object_Container Container_Store Container_Update Hsm_Keys Low_Flash Flash_Records Crypto_Utils Hsm_Kek Hsm_Pins Hsm_Access
begin

text \<open>
  Pico All is the firmware of a security token: FIDO2, OpenPGP/PIV and SmartCard-HSM applications on
  a small SDK (\<^verbatim>\<open>pico-keys-sdk/src\<close>) that gives them files in flash, transactional objects, encrypted
  object containers and an APDU transport. This development models the SDK's storage and transport,
  the application registry, one application's containers, its PINs and its master key, and proves what
  makes them correct.

  \<^bold>\<open>Parts and theories.\<close> Bottom up, with the file each follows:

  \<^item> \<open>Prelude\<close>: machine integers, the status codes and the byte-order accessors of \<^verbatim>\<open>picokeys.h\<close>, list lemmas.
  \<^item> \<open>Tlv\<close> (\<^verbatim>\<open>tlv.c\<close>): walking and searching TLV data. \<open>Phy\<close> (\<^verbatim>\<open>fs/phy.c\<close>): the device settings, their
    serialisation and the round trip.
  \<^item> \<open>File_Index\<close>, \<open>Dynamic_Index\<close> (\<^verbatim>\<open>fs/file.c\<close>): static file tables, namespaces, access rules and the
    open-addressing table of dynamic files, shown to implement a finite map from names to slots.
  \<^item> \<open>File_Store\<close> (\<^verbatim>\<open>fs/file.c\<close>): files with contents. A store carries the index, the contents, and the
    outcomes of the coming flash writes: done, or failed with the old contents, or failed with a torn
    remainder. Creation, writing, deletion, and the metadata file.
  \<^item> \<open>Low_Flash\<close> (\<^verbatim>\<open>fs/low_flash.c\<close>): the page cache over flash, the redo journal, the task of the other core
    and recovery: a flat memory. \<open>Flash_Records\<close> (\<^verbatim>\<open>fs/flash.c\<close>, parts of \<^verbatim>\<open>fs/file.c\<close>): the two pools
    of records in that memory, doubly linked lists with first-fit allocation, and the scan that finds them again.
    \<open>File_Store\<close> abstracts from both: a file has contents, and a write has an outcome.
  \<^item> \<open>Apps\<close> (\<^verbatim>\<open>app_registry.c\<close>, \<^verbatim>\<open>integration.c\<close>): registration and selection of applications.
    \<open>Apdu\<close> (\<^verbatim>\<open>apdu.c\<close>): parsing, command chaining, dispatch, response chaining.
  \<^item> \<open>Object_Policy\<close> (\<^verbatim>\<open>fs/object_policy.c\<close>): evaluation of encoded access policies.
    \<open>Object_Store\<close> (\<^verbatim>\<open>fs/object_store.c\<close>): versioned objects and handles.
  \<^item> \<open>Object_Txn\<close>, \<open>Txn_Handles\<close> (\<^verbatim>\<open>fs/object_store_txn.c\<close>): two-slot transactional objects and the handle table.
  \<^item> \<open>Object_Container\<close> (\<^verbatim>\<open>fs/object_container.c\<close>): manifests, record encryption framing, record identifiers.
    \<open>Container_Store\<close> (\<^verbatim>\<open>fs/object_container_store.c\<close>): loading, reading, updating, removing and deleting
    containers over a layout given by an application. \<open>Container_Update\<close>: the contract between the container
    store and its layouts, the locale \<open>container_client\<close>, and what follows from it.
  \<^item> \<open>Hsm_Keys\<close> (\<^verbatim>\<open>src/hsm/key_container.c\<close>, \<^verbatim>\<open>object_authorization.c\<close>): the layout of a key's container,
    every operation on it and the authorization of key operations; the interpretation of
    \<open>container_client\<close> on that layout.
  \<^item> \<open>Crypto_Utils\<close> (\<^verbatim>\<open>crypto_utils.c\<close>): keys derived from PINs, sealing, the legacy hashes.
    \<open>Hsm_Kek\<close> (\<^verbatim>\<open>src/hsm/kek.c\<close>): the state of the HSM application, the master key under the two PINs, key domains.
    \<open>Hsm_Pins\<close> (\<^verbatim>\<open>src/hsm/sc_hsm.c\<close> and the \<^verbatim>\<open>cmd_*.c\<close> of PINs and challenges): retry counters, verification,
    public-key authentication, the commands; the locale \<open>command_invariant\<close> and its interpretation that a blocked PIN
    stays shut. \<open>Hsm_Access\<close>: what accepted PINs open, well-formed PIN files (a second interpretation), and
    that changing or resetting a PIN keeps the master key.

  \<^bold>\<open>State and effects.\<close> Every operation takes the state it reads and returns the state it leaves:
  \<open>file_index\<close> below \<open>file_store\<close> below \<open>cstore\<close> (files, transaction handles, outcomes of coming memory
  allocations). Errors are values of \<open>pk_status\<close>, the codes of \<^verbatim>\<open>picokeys.h\<close>; a function that answers
  data or a code is a sum. Integers keep their width. A file reference is a static table position, a
  slot of the dynamic table, or the device-wide settings file.

  \<^bold>\<open>What is shown.\<close> The files: the index is a map, deletion disturbs no other file, writes touch one
  file. The objects: transactional puts and deletes are atomic under any sequence of flash failures;
  handles go stale; record identifiers are never handed out twice. The containers: manifests round
  trip and are canonical; records are bound to their identity; an update through a layout with
  the laws of \<open>container_client\<close> leaves readers with the old or the new contents and nothing else, and
  so does an update of an HSM key. Policies: the byte encoding means what the rules say; no session reads a private
  key. Flash: at and above the sector of last_base, cache and journal are a flat
  memory under any interleaving of the two cores (below it a first write can be forgotten); a transaction on sectors of the data pool, entered into a journal
  in use, survives a loss of power whole or not at all. When no operation fails the record lists stay
  well formed through allocation, replacement and clearing; a loss of power at any point of a write leaves a proper list, with the file old or new, or cut to the
  new length where it was overwritten by shorter data. The HSM: wrong PINs use up the tries, a blocked PIN
  opens nothing, an accepted one opens its own session and no other, and the master key survives every change of
  PIN. Transport: chained commands assemble, chained responses deliver, nothing leaves the buffers.

  \<^bold>\<open>Parameters.\<close> The primitives of mbedTLS below \<open>Crypto_Utils\<close> are the fields of the record \<open>crypto\<close>; \<open>gcm_ok\<close> and
  \<open>hkdf_ok\<close> say that AES-GCM opens what it sealed and how long keys and tags are. Elsewhere SHA-256, the message authentication code and the authenticated encryption are
  arguments; \<open>mac_ok\<close>, \<open>protector_ok\<close> and \<open>seal_reports\<close> state what is used of them (lengths of tags,
  chunking, unsealing inverts sealing, failures are reported). \<open>torn_ok\<close> and \<open>torn_refused\<close> say that a
  torn write does not happen to look like an authentic record or manifest.

  \<^bold>\<open>Bounds and fuel.\<close> Loops over tables are recursion over their indices. \<open>is_parent\<close> carries the number of
  entries as fuel, which the depth of any acyclic table stays below; the probing loops carry the
  table size; \<open>record_id_attempts\<close> the loop bound of the code.

  \<^bold>\<open>Not modelled.\<close> Everything behind the vendored libraries (mbedTLS, CBOR, lwIP, TinyUSB) and
  the hardware beyond flash: endpoints, LEDs, buttons, one-time-programmable memory, random numbers. Commands of the
  applications are modelled as far as their containers and the PINs of the HSM go; key generation, wrapping,
  certificates, initialisation and key domain commands are not. \<open>file_process_fci\<close>,
  \<open>bulk_cmd\<close> and the thread loop of \<open>apdu_thread\<close> are left out.
\<close>

end
